(* ===== verification/Cooper_Prelude.thy ===== *)
theory Cooper_Prelude
  imports Main "HOL-Library.Word"
begin

text \<open>
  Shared vocabulary of the development: machine integers and the \<^verbatim>\<open>size_t\<close> arithmetic of
  the C++ code, the error values that stand for failed assertions, undefined behaviour
  and exceptions, the result monad that carries them, memory blocks as lists of bytes,
  and the byte representation of integers on a little-endian host. Every component
  theory builds on these definitions and on the simp rules proved here.
\<close>

section \<open>Types\<close>

type_synonym byte = char
type_synonym u8 = "8 word"
type_synonym u16 = "16 word"
type_synonym u32 = "32 word"
type_synonym u64 = "64 word"

text \<open>
  What the C++ code does when an operation does not return normally: a failed
  \<^verbatim>\<open>assert\<close> (the build keeps assertions), an access outside a memory block or a call of
  \<^verbatim>\<open>std::copy\<close> on ranges it is undefined for (undefined behaviour, made a value here so
  that its absence is a theorem), exceptions of the standard library, and a recursion or a
  loop that does not end.
\<close>

datatype cpp_error =
    AssertFail
  | OutOfBounds
  | OverlapCopy
  | LengthError
  | BadAlloc
  | InvalidArgument
  | OutOfRange
  | NullCall
  | ProcessExit
  | Diverges

type_synonym 'a result = "cpp_error + 'a"

named_theorems cooper_defs \<open>definitions unfolded together by the component proofs\<close>
named_theorems cooper_frame \<open>fields an operation leaves unchanged\<close>

section \<open>The result monad\<close>

definition bindR :: "'a result \<Rightarrow> ('a \<Rightarrow> 'b result) \<Rightarrow> 'b result" where
  "bindR m f = (case m of Inl e \<Rightarrow> Inl e | Inr x \<Rightarrow> f x)"

definition assertR :: "bool \<Rightarrow> 'a result \<Rightarrow> 'a result" where
  "assertR c m = (if c then m else Inl AssertFail)"

lemma bindR_simps [simp]:
  "bindR (Inl e) f = Inl e"
  "bindR (Inr x) f = f x"
  by (simp_all add: bindR_def)

lemma assertR_simps [simp]:
  "assertR True m = m"
  "assertR False m = Inl AssertFail"
  by (simp_all add: assertR_def)

lemma assertR_true [simp]: "c \<Longrightarrow> assertR c m = m"
  by (simp add: assertR_def)

lemma bindR_eq_Inr: "bindR m f = Inr y \<longleftrightarrow> (\<exists>x. m = Inr x \<and> f x = Inr y)"
  by (cases m) auto

lemma bindR_Inr_E:
  assumes "bindR m f = Inr y"
  obtains x where "m = Inr x" "f x = Inr y"
  using assms by (auto simp: bindR_eq_Inr)

lemma assertR_eq_Inr: "assertR c m = Inr y \<longleftrightarrow> c \<and> m = Inr y"
  by (simp add: assertR_def)

lemma bindR_assoc: "bindR (bindR m f) g = bindR m (\<lambda>x. bindR (f x) g)"
  by (cases m) auto

lemma bindR_Inr [simp]: "bindR m Inr = m"
  by (cases m) simp_all

lemma bindR_cong [fundef_cong]:
  "m = m' \<Longrightarrow> (\<And>x. m' = Inr x \<Longrightarrow> f x = g x) \<Longrightarrow> bindR m f = bindR m' g"
  by (cases m') simp_all

text \<open>A loop whose body may fail: the fold of the body over the list of its inputs.\<close>

fun foldR :: "('s \<Rightarrow> 'x \<Rightarrow> 's result) \<Rightarrow> 's \<Rightarrow> 'x list \<Rightarrow> 's result" where
  "foldR f s [] = Inr s"
| "foldR f s (x # xs) = bindR (f s x) (\<lambda>s'. foldR f s' xs)"

lemma foldR_append: "foldR f s (xs @ ys) = bindR (foldR f s xs) (\<lambda>s'. foldR f s' ys)"
  by (induction xs arbitrary: s) (simp_all add: bindR_assoc)

lemma foldR_invariant:
  assumes "foldR f s xs = Inr s'" "P s" "\<And>s x s'. P s \<Longrightarrow> x \<in> set xs \<Longrightarrow> f s x = Inr s' \<Longrightarrow> P s'"
  shows "P s'"
  using assms
proof (induction xs arbitrary: s)
  case Nil
  then show ?case by simp
next
  case (Cons x xs)
  from Cons.prems(1) obtain t where t: "f s x = Inr t" "foldR f t xs = Inr s'"
    by (auto simp: bindR_eq_Inr)
  have "P t" by (rule Cons.prems(3) [OF Cons.prems(2) _ t(1)]) simp
  then show ?case by (rule Cons.IH [OF t(2)]) (erule Cons.prems(3), simp_all)
qed

section \<open>Arithmetic of size_t\<close>

text \<open>\<^verbatim>\<open>size_t\<close> has 64 bits: addition, multiplication and subtraction wrap around.\<close>

abbreviation size_max :: nat where
  "size_max \<equiv> 18446744073709551615"

definition szadd :: "nat \<Rightarrow> nat \<Rightarrow> nat" where
  "szadd a b = (a + b) mod (size_max + 1)"

definition szmul :: "nat \<Rightarrow> nat \<Rightarrow> nat" where
  "szmul a b = (a * b) mod (size_max + 1)"

definition szsub :: "nat \<Rightarrow> nat \<Rightarrow> nat" where
  "szsub a b = (if b \<le> a then (a - b) mod (size_max + 1)
                else (a + (size_max + 1) - b mod (size_max + 1)) mod (size_max + 1))"

lemma szadd_small [simp]: "a + b \<le> size_max \<Longrightarrow> szadd a b = a + b"
  by (simp add: szadd_def)

lemma szmul_small [simp]: "a * b \<le> size_max \<Longrightarrow> szmul a b = a * b"
  by (simp add: szmul_def)

lemma szsub_small [simp]: "b \<le> a \<Longrightarrow> a \<le> size_max \<Longrightarrow> szsub a b = a - b"
  by (simp add: szsub_def)

lemma szsub_wraps: "a < b \<Longrightarrow> b \<le> size_max \<Longrightarrow> szsub a b = size_max + 1 - (b - a)"
  by (simp add: szsub_def)

lemma sz_bounded [simp]:
  "szadd a b \<le> size_max" "szmul a b \<le> size_max" "szsub a b \<le> size_max"
  unfolding szadd_def szmul_def szsub_def
  by (rule less_Suc_eq_le [THEN iffD1], simp)+

section \<open>Memory blocks and vectors\<close>

text \<open>
  \<^verbatim>\<open>memcpy\<close> to and from a block: an access that does not stay inside the block is the
  error \<^const>\<open>OutOfBounds\<close>. \<^verbatim>\<open>std::copy\<close> inside one block is undefined when the
  destination starts inside the source range.
\<close>

definition mem_write :: "'a list \<Rightarrow> nat \<Rightarrow> 'a list \<Rightarrow> 'a list result" where
  "mem_write m pos d =
     (if pos + length d \<le> length m
      then Inr (take pos m @ d @ drop (pos + length d) m) else Inl OutOfBounds)"

definition mem_read :: "'a list \<Rightarrow> nat \<Rightarrow> nat \<Rightarrow> 'a list result" where
  "mem_read m pos len =
     (if pos + len \<le> length m then Inr (take len (drop pos m)) else Inl OutOfBounds)"

definition std_copy :: "'a list \<Rightarrow> nat \<Rightarrow> nat \<Rightarrow> nat \<Rightarrow> 'a list result" where
  "std_copy m b e dest =
     (if b \<le> dest \<and> dest < e then Inl OverlapCopy
      else bindR (mem_read m b (e - b)) (mem_write m dest))"

text \<open>
  \<^verbatim>\<open>std::vector<char>::max_size()\<close> is the largest \<^verbatim>\<open>ptrdiff_t\<close> and a larger size throws
  \<^verbatim>\<open>std::length_error\<close>. No process has more than \<open>2 ^ 57\<close> bytes of address space (the
  widest user space of a 64-bit platform), so an allocation beyond that throws
  \<^verbatim>\<open>std::bad_alloc\<close>.
\<close>

abbreviation vec_max :: nat where
  "vec_max \<equiv> 9223372036854775807"

abbreviation mem_max :: nat where
  "mem_max \<equiv> 144115188075855872"

definition vec_resize :: "nat \<Rightarrow> byte list \<Rightarrow> byte list result" where
  "vec_resize n v =
     (if vec_max < n then Inl LengthError
      else if mem_max < n then Inl BadAlloc
      else Inr (take n v @ replicate (n - length v) (CHR 0x00)))"

lemma mem_write_Inr: "pos + length d \<le> length m \<Longrightarrow>
    mem_write m pos d = Inr (take pos m @ d @ drop (pos + length d) m)"
  by (simp add: mem_write_def)

lemma mem_read_Inr: "pos + len \<le> length m \<Longrightarrow> mem_read m pos len = Inr (take len (drop pos m))"
  by (simp add: mem_read_def)

lemma mem_write_length: "mem_write m pos d = Inr m' \<Longrightarrow> length m' = length m"
  by (auto simp: mem_write_def split: if_splits)

lemma vec_resize_Inr: "n \<le> mem_max \<Longrightarrow>
    vec_resize n v = Inr (take n v @ replicate (n - length v) (CHR 0x00))"
  by (simp add: vec_resize_def)

lemma vec_resize_eq_Inr: "vec_resize n v = Inr v' \<longleftrightarrow>
    n \<le> mem_max \<and> v' = take n v @ replicate (n - length v) (CHR 0x00)"
  by (auto simp: vec_resize_def)

lemma take_drop_append [simp]:
  "h \<le> t \<Longrightarrow> t \<le> length m \<Longrightarrow> take (t - h) (drop h (take t m @ r)) = take (t - h) (drop h m)"
  by (simp add: drop_take)

lemma dropWhile_stops: "dropWhile P s = [] \<or> \<not> P (hd (dropWhile P s))"
  by (induction s) auto

section \<open>Integers in memory\<close>

text \<open>
  The bytes of an integer as they lie in the memory of a little-endian host (the
  platform the code is built for), and the value read back from such bytes.
\<close>

fun le_bytes :: "nat \<Rightarrow> nat \<Rightarrow> byte list" where
  "le_bytes 0 v = []"
| "le_bytes (Suc n) v = char_of (v mod 256) # le_bytes n (v div 256)"

fun le_val :: "byte list \<Rightarrow> nat" where
  "le_val [] = 0"
| "le_val (c # cs) = of_char c + 256 * le_val cs"

lemma length_le_bytes [simp]: "length (le_bytes n v) = n"
  by (induction n arbitrary: v) auto

lemma of_char_lt_256 [simp]: "(of_char c :: nat) < 256"
  by (cases c) (simp add: of_char_def split: if_splits)

lemma le_val_le_bytes: "v < 256 ^ n \<Longrightarrow> le_val (le_bytes n v) = v"
proof (induction n arbitrary: v)
  case (Suc n)
  then have "v div 256 < 256 ^ n"
    by (simp add: less_mult_imp_div_less mult.commute)
  with Suc.IH have "le_val (le_bytes n (v div 256)) = v div 256" by blast
  then show ?case by simp
qed simp

lemma le_val_less: "le_val cs < 256 ^ length cs"
proof (induction cs)
  case (Cons c cs)
  have "of_char c + 256 * le_val cs < (256::nat) + 256 * le_val cs" by simp
  also have "\<dots> \<le> 256 * 256 ^ length cs" using Cons.IH by simp
  finally show ?case by simp
qed simp

lemma le_bytes_le_val: "le_bytes (length cs) (le_val cs) = cs"
  by (induction cs) simp_all

text \<open>\<^verbatim>\<open>tolower\<close> in the C locale.\<close>

definition lower :: "char \<Rightarrow> char" where
  "lower c = (let n = of_char c :: nat in if 65 \<le> n \<and> n \<le> 90 then char_of (n + 32) else c)"

end
