(* ===== verification/MsgBuffer.thy ===== *)
theory MsgBuffer
  imports Cooper_Prelude
begin

text \<open>
  The growable byte buffer of \<^verbatim>\<open>cooper/util/MsgBuffer.hpp\<close> and
  \<^verbatim>\<open>cooper/util/MsgBuffer.cpp\<close>: every connection reads into and writes out of such
  buffers. The state is the record of the class's fields; pointers into the buffer are
  offsets from \<^verbatim>\<open>begin()\<close>. Assertions, accesses outside the vector, overlapping
  \<^verbatim>\<open>std::copy\<close> calls and the vector's size limit are error values. The lemmas show that
  every operation keeps the well-formedness invariant, never leaves the vector, and
  implements an abstract byte queue, whose interface is the locale \<^verbatim>\<open>byte_fifo\<close>.
\<close>

section \<open>State and operations\<close>

record msgbuf =
  mb_head :: nat
  mb_initCap :: nat
  mb_buffer :: "byte list"
  mb_tail :: nat

abbreviation kBufferDefaultLength :: nat where
  "kBufferDefaultLength \<equiv> 2048"

abbreviation kBufferOffset :: nat where
  "kBufferOffset \<equiv> 8"

definition CRLF :: "byte list" where
  "CRLF = [CHR 0x0D, CHR 0x0A]"

definition MsgBuffer_new :: "nat \<Rightarrow> msgbuf result" where
  "MsgBuffer_new len =
     bindR (vec_resize (szadd len kBufferOffset) [])
       (\<lambda>v. Inr \<lparr>mb_head = kBufferOffset, mb_initCap = len, mb_buffer = v, mb_tail = kBufferOffset\<rparr>)"

definition readableBytes :: "msgbuf \<Rightarrow> nat" where
  "readableBytes b = szsub (mb_tail b) (mb_head b)"

definition writableBytes :: "msgbuf \<Rightarrow> nat" where
  "writableBytes b = szsub (length (mb_buffer b)) (mb_tail b)"

text \<open>\<^verbatim>\<open>peek()\<close> and \<^verbatim>\<open>beginWrite()\<close> as offsets into the vector.\<close>

definition peek :: "msgbuf \<Rightarrow> nat" where
  "peek b = mb_head b"

definition beginWrite :: "msgbuf \<Rightarrow> nat" where
  "beginWrite b = mb_tail b"

text \<open>The bytes at \<^verbatim>\<open>peek()\<close>: reading \<open>n\<close> of them stays inside the vector or fails.\<close>

definition peek_bytes :: "msgbuf \<Rightarrow> nat \<Rightarrow> byte list result" where
  "peek_bytes b n = mem_read (mb_buffer b) (peek b) n"

text \<open>
  \<^verbatim>\<open>append(const char*, size_t)\<close> after the call of \<^verbatim>\<open>ensureWritableBytes\<close>, and the
  move of the readable bytes to the front of the vector.
\<close>

definition store_at_tail :: "byte list \<Rightarrow> msgbuf \<Rightarrow> msgbuf result" where
  "store_at_tail d b =
     bindR (mem_write (mb_buffer b) (mb_tail b) d)
       (\<lambda>v. Inr (b\<lparr>mb_buffer := v, mb_tail := szadd (mb_tail b) (length d)\<rparr>))"

definition move_to_front :: "msgbuf \<Rightarrow> msgbuf result" where
  "move_to_front b =
     bindR (std_copy (mb_buffer b) (mb_head b) (mb_tail b) kBufferOffset)
       (\<lambda>v. Inr (b\<lparr>mb_buffer := v,
                    mb_tail := szadd kBufferOffset (szsub (mb_tail b) (mb_head b)),
                    mb_head := kBufferOffset\<rparr>))"

definition grown_length :: "msgbuf \<Rightarrow> nat \<Rightarrow> nat" where
  "grown_length b len =
     (if szmul (length (mb_buffer b)) 2 > szadd (szadd kBufferOffset (readableBytes b)) len
      then szmul (length (mb_buffer b)) 2
      else szadd (szadd kBufferOffset (readableBytes b)) len)"

definition swap_buf :: "msgbuf \<times> msgbuf \<Rightarrow> msgbuf \<times> msgbuf" where
  "swap_buf = (\<lambda>(a, b).
     (a\<lparr>mb_buffer := mb_buffer b, mb_head := mb_head b, mb_tail := mb_tail b, mb_initCap := mb_initCap b\<rparr>,
      b\<lparr>mb_buffer := mb_buffer a, mb_head := mb_head a, mb_tail := mb_tail a, mb_initCap := mb_initCap a\<rparr>))"

text \<open>
  \<^verbatim>\<open>ensureWritableBytes\<close> builds a larger buffer, appends the old one to it and swaps the
  two, and that \<^verbatim>\<open>append\<close> calls \<^verbatim>\<open>ensureWritableBytes\<close> on the new buffer. The first
  argument bounds the depth of this recursion; \<open>ensureWritableBytes\<close> starts with three,
  and on a well-formed buffer the inner call returns at once, so that any larger bound
  gives the same result (lemma \<open>ensureWritable_depth_enough\<close>).
\<close>

fun ensureWritable_depth :: "nat \<Rightarrow> msgbuf \<Rightarrow> nat \<Rightarrow> msgbuf result" where
  "ensureWritable_depth 0 b len = Inl Diverges"
| "ensureWritable_depth (Suc d) b len =
     (if writableBytes b \<ge> len then Inr b
      else if szadd (mb_head b) (writableBytes b) \<ge> szadd len kBufferOffset then move_to_front b
      else bindR (MsgBuffer_new (grown_length b len)) (\<lambda>newbuffer.
           bindR (ensureWritable_depth d newbuffer (readableBytes b)) (\<lambda>newbuffer.
           bindR (peek_bytes b (readableBytes b)) (\<lambda>ds.
           bindR (store_at_tail ds newbuffer) (\<lambda>newbuffer.
           Inr (fst (swap_buf (b, newbuffer))))))))"

definition ensureWritableBytes :: "msgbuf \<Rightarrow> nat \<Rightarrow> msgbuf result" where
  "ensureWritableBytes b len = ensureWritable_depth 3 b len"

definition append_bytes :: "msgbuf \<Rightarrow> byte list \<Rightarrow> msgbuf result" where
  "append_bytes b d = bindR (ensureWritableBytes b (length d)) (store_at_tail d)"

definition append_buf :: "msgbuf \<Rightarrow> msgbuf \<Rightarrow> msgbuf result" where
  "append_buf b buf =
     bindR (ensureWritableBytes b (readableBytes buf)) (\<lambda>b'.
     bindR (peek_bytes buf (readableBytes buf)) (\<lambda>d. store_at_tail d b'))"

definition retrieveAll :: "msgbuf \<Rightarrow> msgbuf result" where
  "retrieveAll b =
     bindR (if length (mb_buffer b) > szmul (mb_initCap b) 2
            then vec_resize (mb_initCap b) (mb_buffer b) else Inr (mb_buffer b))
       (\<lambda>v. Inr (b\<lparr>mb_buffer := v, mb_tail := kBufferOffset, mb_head := kBufferOffset\<rparr>))"

definition retrieve :: "msgbuf \<Rightarrow> nat \<Rightarrow> msgbuf result" where
  "retrieve b len =
     (if len \<ge> readableBytes b then retrieveAll b
      else Inr (b\<lparr>mb_head := szadd (mb_head b) len\<rparr>))"

definition read_bytes :: "msgbuf \<Rightarrow> nat \<Rightarrow> (byte list \<times> msgbuf) result" where
  "read_bytes b len0 =
     (let len = (if len0 > readableBytes b then readableBytes b else len0)
      in bindR (peek_bytes b len) (\<lambda>s. bindR (retrieve b len) (\<lambda>b'. Inr (s, b'))))"

definition readUntil :: "msgbuf \<Rightarrow> nat \<Rightarrow> (byte list \<times> msgbuf) result" where
  "readUntil b e =
     assertR (peek b \<le> e) (assertR (e \<le> beginWrite b)
       (bindR (peek_bytes b (e - peek b)) (\<lambda>s.
        bindR (retrieve b (e - peek b)) (\<lambda>b'. Inr (s, b')))))"

definition retrieveUntil :: "msgbuf \<Rightarrow> nat \<Rightarrow> msgbuf result" where
  "retrieveUntil b e =
     assertR (peek b \<le> e) (assertR (e \<le> beginWrite b) (retrieve b (e - peek b)))"

definition hasWritten :: "msgbuf \<Rightarrow> nat \<Rightarrow> msgbuf result" where
  "hasWritten b len =
     assertR (len \<le> writableBytes b) (Inr (b\<lparr>mb_tail := szadd (mb_tail b) len\<rparr>))"

definition unwrite :: "msgbuf \<Rightarrow> nat \<Rightarrow> msgbuf result" where
  "unwrite b off =
     assertR (readableBytes b \<ge> off) (Inr (b\<lparr>mb_tail := szsub (mb_tail b) off\<rparr>))"

definition index_byte :: "msgbuf \<Rightarrow> nat \<Rightarrow> byte result" where
  "index_byte b off =
     assertR (readableBytes b \<ge> off)
       (if mb_head b + off < length (mb_buffer b)
        then Inr (mb_buffer b ! (mb_head b + off)) else Inl OutOfBounds)"

text \<open>\<^verbatim>\<open>std::search\<close>: the first position at which the pattern occurs.\<close>

fun search :: "byte list \<Rightarrow> byte list \<Rightarrow> nat option" where
  "search pat s =
     (if take (length pat) s = pat then Some 0
      else case s of [] \<Rightarrow> None | _ # s' \<Rightarrow> map_option Suc (search pat s'))"

declare search.simps [simp del]

text \<open>The position that \<^verbatim>\<open>find\<close> returns, as an offset; \<open>None\<close> is the null pointer.
  A match at \<^verbatim>\<open>beginWrite()\<close> (the empty pattern in an empty buffer) counts as none.\<close>

definition find_bytes :: "msgbuf \<Rightarrow> byte list \<Rightarrow> nat option result" where
  "find_bytes b pat =
     bindR (peek_bytes b (readableBytes b)) (\<lambda>s.
       Inr (case search pat s of None \<Rightarrow> None
            | Some i \<Rightarrow> (if peek b + i = beginWrite b then None else Some (peek b + i))))"

definition findCRLF :: "msgbuf \<Rightarrow> nat option result" where
  "findCRLF b = find_bytes b CRLF"

definition addInFront :: "msgbuf \<Rightarrow> byte list \<Rightarrow> msgbuf result" where
  "addInFront b d =
     (if mb_head b \<ge> length d then
        bindR (mem_write (mb_buffer b) (mb_head b - length d) d)
          (\<lambda>v. Inr (b\<lparr>mb_buffer := v, mb_head := mb_head b - length d\<rparr>))
      else if length d \<le> writableBytes b then
        bindR (std_copy (mb_buffer b) (mb_head b) (mb_tail b) (mb_head b + length d)) (\<lambda>v.
        bindR (mem_write v (mb_head b) d) (\<lambda>v'.
          Inr (b\<lparr>mb_buffer := v', mb_tail := szadd (mb_tail b) (length d)\<rparr>)))
      else
        bindR (MsgBuffer_new (if szadd (length d) (readableBytes b) < mb_initCap b then mb_initCap b
                              else szadd (length d) (readableBytes b))) (\<lambda>nb.
        bindR (append_bytes nb d) (\<lambda>nb.
        bindR (append_buf nb b) (\<lambda>nb. Inr (fst (swap_buf (b, nb)))))))"

text \<open>
  Integers go over the wire in network byte order. \<^verbatim>\<open>htons\<close> and \<^verbatim>\<open>htonl\<close> of the C
  library and \<^verbatim>\<open>hton64\<close> of \<^verbatim>\<open>cooper/util/Funcs.hpp\<close> reverse the bytes of the
  integer's memory on a little-endian host; the append writes that memory.
\<close>

definition htons :: "u16 \<Rightarrow> u16" where
  "htons s = of_nat (le_val (rev (le_bytes 2 (unat s))))"

definition htonl :: "u32 \<Rightarrow> u32" where
  "htonl i = of_nat (le_val (rev (le_bytes 4 (unat i))))"

definition hton64 :: "u64 \<Rightarrow> u64" where
  "hton64 n = of_nat (le_val (rev (le_bytes 8 (unat n))))"

definition ntoh64 :: "u64 \<Rightarrow> u64" where
  "ntoh64 n = hton64 n"

definition appendInt8 :: "msgbuf \<Rightarrow> u8 \<Rightarrow> msgbuf result" where
  "appendInt8 b x = append_bytes b (le_bytes 1 (unat x))"

definition appendInt16 :: "msgbuf \<Rightarrow> u16 \<Rightarrow> msgbuf result" where
  "appendInt16 b s = append_bytes b (le_bytes 2 (unat (htons s)))"

definition appendInt32 :: "msgbuf \<Rightarrow> u32 \<Rightarrow> msgbuf result" where
  "appendInt32 b i = append_bytes b (le_bytes 4 (unat (htonl i)))"

definition appendInt64 :: "msgbuf \<Rightarrow> u64 \<Rightarrow> msgbuf result" where
  "appendInt64 b l = append_bytes b (le_bytes 8 (unat (hton64 l)))"

definition addInFrontInt8 :: "msgbuf \<Rightarrow> u8 \<Rightarrow> msgbuf result" where
  "addInFrontInt8 b x = addInFront b (le_bytes 1 (unat x))"

definition addInFrontInt16 :: "msgbuf \<Rightarrow> u16 \<Rightarrow> msgbuf result" where
  "addInFrontInt16 b s = addInFront b (le_bytes 2 (unat (htons s)))"

definition addInFrontInt32 :: "msgbuf \<Rightarrow> u32 \<Rightarrow> msgbuf result" where
  "addInFrontInt32 b i = addInFront b (le_bytes 4 (unat (htonl i)))"

definition addInFrontInt64 :: "msgbuf \<Rightarrow> u64 \<Rightarrow> msgbuf result" where
  "addInFrontInt64 b l = addInFront b (le_bytes 8 (unat (hton64 l)))"

definition peekInt8 :: "msgbuf \<Rightarrow> u8 result" where
  "peekInt8 b = assertR (readableBytes b \<ge> 1)
     (bindR (peek_bytes b 1) (\<lambda>bs. Inr (of_nat (le_val bs))))"

definition peekInt16 :: "msgbuf \<Rightarrow> u16 result" where
  "peekInt16 b = assertR (readableBytes b \<ge> 2)
     (bindR (peek_bytes b 2) (\<lambda>bs. Inr (htons (of_nat (le_val bs)))))"

definition peekInt32 :: "msgbuf \<Rightarrow> u32 result" where
  "peekInt32 b = assertR (readableBytes b \<ge> 4)
     (bindR (peek_bytes b 4) (\<lambda>bs. Inr (htonl (of_nat (le_val bs)))))"

definition peekInt64 :: "msgbuf \<Rightarrow> u64 result" where
  "peekInt64 b = assertR (readableBytes b \<ge> 8)
     (bindR (peek_bytes b 8) (\<lambda>bs. Inr (ntoh64 (of_nat (le_val bs)))))"

definition readInt8 :: "msgbuf \<Rightarrow> (u8 \<times> msgbuf) result" where
  "readInt8 b = bindR (peekInt8 b) (\<lambda>x. bindR (retrieve b 1) (\<lambda>b'. Inr (x, b')))"

definition readInt16 :: "msgbuf \<Rightarrow> (u16 \<times> msgbuf) result" where
  "readInt16 b = bindR (peekInt16 b) (\<lambda>x. bindR (retrieve b 2) (\<lambda>b'. Inr (x, b')))"

definition readInt32 :: "msgbuf \<Rightarrow> (u32 \<times> msgbuf) result" where
  "readInt32 b = bindR (peekInt32 b) (\<lambda>x. bindR (retrieve b 4) (\<lambda>b'. Inr (x, b')))"

definition readInt64 :: "msgbuf \<Rightarrow> (u64 \<times> msgbuf) result" where
  "readInt64 b = bindR (peekInt64 b) (\<lambda>x. bindR (retrieve b 8) (\<lambda>b'. Inr (x, b')))"

text \<open>
  \<^verbatim>\<open>readFd\<close>: one \<^verbatim>\<open>readv\<close> into the free tail of the buffer and, when that is
  smaller than 8192 bytes, into a stack buffer as well. The answer of the system call is an
  argument: an \<^verbatim>\<open>errno\<close>, or the bytes it delivered, at most as many as the two
  segments hold. The length of the first segment goes through a cast to \<^verbatim>\<open>int\<close>.
\<close>

datatype sys_read = ReadErr int | ReadData "byte list"

definition iov_len0 :: "nat \<Rightarrow> nat" where
  "iov_len0 w = (let i = w mod 4294967296 in if i < 2147483648 then i else size_max + 1 - (4294967296 - i))"

definition readv_capacity :: "nat \<Rightarrow> nat" where
  "readv_capacity w = iov_len0 w + (if w < 8192 then 8192 else 0)"

definition readFd :: "msgbuf \<Rightarrow> sys_read \<Rightarrow> (int \<times> int option \<times> msgbuf) result" where
  "readFd b r =
     (let writable = writableBytes b in
      case r of
        ReadErr e \<Rightarrow> Inr (-1, Some e, b)
      | ReadData ds \<Rightarrow>
          bindR (mem_write (mb_buffer b) (mb_tail b) (take (iov_len0 writable) ds)) (\<lambda>v.
          (let b' = b\<lparr>mb_buffer := v\<rparr>; n = length ds; extBuffer = drop (iov_len0 writable) ds in
           if n \<le> writable then Inr (int n, None, b'\<lparr>mb_tail := szadd (mb_tail b') n\<rparr>)
           else bindR (append_bytes (b'\<lparr>mb_tail := length (mb_buffer b')\<rparr>)
                         (take (n - writable) extBuffer))
                  (\<lambda>b''. Inr (int n, None, b'')))))"

section \<open>Well-formed buffers and their contents\<close>

text \<open>
  The invariant of the class: the readable bytes lie between \<^verbatim>\<open>head_\<close> and
  \<^verbatim>\<open>tail_\<close> inside the vector, and the capacity to which \<^verbatim>\<open>retrieveAll\<close> shrinks
  the vector leaves room for the reserved prefix. The abstract value of a buffer is the
  list of its readable bytes.
\<close>

definition wf_buf :: "msgbuf \<Rightarrow> bool" where
  "wf_buf b \<longleftrightarrow>
     kBufferOffset \<le> mb_initCap b \<and> mb_initCap b \<le> length (mb_buffer b) \<and>
     mb_head b \<le> mb_tail b \<and> mb_tail b \<le> length (mb_buffer b) \<and> length (mb_buffer b) \<le> mem_max"

definition contents :: "msgbuf \<Rightarrow> byte list" where
  "contents b = take (mb_tail b - mb_head b) (drop (mb_head b) (mb_buffer b))"

lemma wf_bufD:
  assumes "wf_buf b"
  shows "kBufferOffset \<le> mb_initCap b" "mb_initCap b \<le> length (mb_buffer b)"
    "mb_head b \<le> mb_tail b" "mb_tail b \<le> length (mb_buffer b)" "length (mb_buffer b) \<le> mem_max"
  using assms by (simp_all add: wf_buf_def)

lemma readableBytes_wf [simp]: "wf_buf b \<Longrightarrow> readableBytes b = mb_tail b - mb_head b"
  by (simp add: readableBytes_def wf_buf_def)

lemma writableBytes_wf [simp]: "wf_buf b \<Longrightarrow> writableBytes b = length (mb_buffer b) - mb_tail b"
  by (simp add: writableBytes_def wf_buf_def)

lemma length_contents [simp]: "wf_buf b \<Longrightarrow> length (contents b) = mb_tail b - mb_head b"
  by (auto simp: contents_def wf_buf_def)

lemma readableBytes_contents: "wf_buf b \<Longrightarrow> readableBytes b = length (contents b)"
  by simp

lemma peek_bytes_wf [simp]:
  "wf_buf b \<Longrightarrow> n \<le> mb_tail b - mb_head b \<Longrightarrow> peek_bytes b n = Inr (take n (contents b))"
  by (auto simp: peek_bytes_def peek_def mem_read_def contents_def wf_buf_def min_def)

lemma swap_buf_fst [simp]: "fst (swap_buf (a, b)) = (b :: msgbuf)"
  by (simp add: swap_buf_def)

lemma swap_buf_eq: "swap_buf (a, b) = (b, a)"
  by (simp add: swap_buf_def)

lemma MsgBuffer_new_Inr:
  assumes "len + kBufferOffset \<le> mem_max"
  shows "MsgBuffer_new len =
    Inr \<lparr>mb_head = kBufferOffset, mb_initCap = len,
         mb_buffer = replicate (len + kBufferOffset) (CHR 0x00), mb_tail = kBufferOffset\<rparr>"
  using assms by (simp add: MsgBuffer_new_def vec_resize_Inr)

lemma MsgBuffer_new_wf:
  assumes "MsgBuffer_new len = Inr b" "kBufferOffset \<le> len" "len \<le> vec_max"
  shows "wf_buf b" "contents b = []" "length (mb_buffer b) = len + kBufferOffset"
    "mb_head b = kBufferOffset" "mb_tail b = kBufferOffset" "mb_initCap b = len"
proof -
  from assms have "len + kBufferOffset \<le> mem_max"
    by (auto simp: MsgBuffer_new_def vec_resize_eq_Inr bindR_eq_Inr)
  from MsgBuffer_new_Inr [OF this] assms(1)
  have b: "b = \<lparr>mb_head = kBufferOffset, mb_initCap = len,
         mb_buffer = replicate (len + kBufferOffset) (CHR 0x00), mb_tail = kBufferOffset\<rparr>" by simp
  show "wf_buf b" "contents b = []" "length (mb_buffer b) = len + kBufferOffset"
    "mb_head b = kBufferOffset" "mb_tail b = kBufferOffset" "mb_initCap b = len"
    using assms \<open>len + kBufferOffset \<le> mem_max\<close> by (simp_all add: b wf_buf_def contents_def)
qed

lemma store_at_tail_ok:
  assumes "wf_buf b" "length d \<le> length (mb_buffer b) - mb_tail b"
  obtains b' where "store_at_tail d b = Inr b'" "wf_buf b'" "contents b' = contents b @ d"
    "mb_head b' = mb_head b" "mb_tail b' = mb_tail b + length d"
    "length (mb_buffer b') = length (mb_buffer b)" "mb_initCap b' = mb_initCap b"
proof -
  let ?v = "take (mb_tail b) (mb_buffer b) @ d @ drop (mb_tail b + length d) (mb_buffer b)"
  let ?b = "b\<lparr>mb_buffer := ?v, mb_tail := mb_tail b + length d\<rparr>"
  note w = wf_bufD [OF assms(1)]
  from w assms(2) have "store_at_tail d b = Inr ?b"
    by (simp add: store_at_tail_def mem_write_Inr)
  moreover from w assms(2) have "wf_buf ?b"
    by (simp add: wf_buf_def)
  moreover from w have "contents ?b = contents b @ d"
    by (simp add: contents_def drop_take Suc_diff_le)
  moreover from w assms(2) have "length (mb_buffer ?b) = length (mb_buffer b)"
    by (simp add: min_def)
  ultimately show ?thesis by (intro that [of ?b]) simp_all
qed

lemma move_to_front_ok:
  assumes "wf_buf b" "kBufferOffset < mb_head b"
  obtains b' where "move_to_front b = Inr b'" "wf_buf b'" "contents b' = contents b"
    "mb_head b' = kBufferOffset" "mb_tail b' = kBufferOffset + (mb_tail b - mb_head b)"
    "length (mb_buffer b') = length (mb_buffer b)" "mb_initCap b' = mb_initCap b"
proof -
  let ?v = "take kBufferOffset (mb_buffer b) @ contents b @
            drop (kBufferOffset + length (contents b)) (mb_buffer b)"
  let ?b = "b\<lparr>mb_buffer := ?v, mb_tail := kBufferOffset + (mb_tail b - mb_head b), mb_head := kBufferOffset\<rparr>"
  note w = wf_bufD [OF assms(1)]
  have "std_copy (mb_buffer b) (mb_head b) (mb_tail b) kBufferOffset = Inr ?v"
    using w assms by (simp add: std_copy_def mem_read_Inr mem_write_Inr contents_def)
  with w assms have "move_to_front b = Inr ?b"
    by (simp add: move_to_front_def)
  moreover from w assms have "wf_buf ?b"
    by (auto simp: wf_buf_def)
  moreover have "contents ?b = contents b"
    using w assms unfolding contents_def [of ?b] by simp
  ultimately show ?thesis using w assms by (intro that [of ?b]) simp_all
qed

lemma grown_length_wf:
  assumes "wf_buf b" "len \<le> vec_max"
  shows "grown_length b len = max (2 * length (mb_buffer b)) (kBufferOffset + (mb_tail b - mb_head b) + len)"
  using assms wf_bufD [OF assms(1)] by (auto simp: grown_length_def max_def)

text \<open>The room that makes an allocation succeed, and the effect of
  \<^verbatim>\<open>ensureWritableBytes\<close> on a well-formed buffer.\<close>

definition fits :: "msgbuf \<Rightarrow> nat \<Rightarrow> bool" where
  "fits b len \<longleftrightarrow> 2 * length (mb_buffer b) + 2 * kBufferOffset + len \<le> mem_max"

lemma grown_buffer:
  assumes "wf_buf b" "len \<le> vec_max" "MsgBuffer_new (grown_length b len) = Inr nb"
  shows "wf_buf nb" "contents nb = []"
    "len + (mb_tail b - mb_head b) \<le> length (mb_buffer nb) - mb_tail nb"
    "ensureWritable_depth (Suc d) nb (readableBytes b) = Inr nb"
proof -
  note w = wf_bufD [OF assms(1)]
  have g: "grown_length b len = max (2 * length (mb_buffer b)) (kBufferOffset + (mb_tail b - mb_head b) + len)"
    using assms by (simp add: grown_length_wf)
  have "grown_length b len + kBufferOffset \<le> size_max"
    using g w assms(2) by auto
  then have "kBufferOffset \<le> grown_length b len" "grown_length b len \<le> vec_max"
    using g w assms(3) by (auto simp: MsgBuffer_new_def vec_resize_eq_Inr bindR_eq_Inr)
  note nb = MsgBuffer_new_wf [OF assms(3) this]
  show "wf_buf nb" "contents nb = []" by (fact nb)+
  show *: "len + (mb_tail b - mb_head b) \<le> length (mb_buffer nb) - mb_tail nb"
    using nb g w by (auto simp: max_def)
  then show "ensureWritable_depth (Suc d) nb (readableBytes b) = Inr nb"
    using nb assms(1) by simp
qed

lemma ensureWritable_grow:
  assumes "wf_buf b" "len \<le> vec_max" "MsgBuffer_new (grown_length b len) = Inr nb"
  obtains b' where
    "bindR (peek_bytes b (readableBytes b)) (\<lambda>ds.
     bindR (store_at_tail ds nb) (\<lambda>newbuffer. Inr (fst (swap_buf (b, newbuffer))))) = Inr b'"
    "wf_buf b'" "contents b' = contents b" "len \<le> length (mb_buffer b') - mb_tail b'"
proof -
  note nb = grown_buffer [OF assms]
  obtain b' where b': "store_at_tail (contents b) nb = Inr b'" "wf_buf b'"
    "contents b' = contents nb @ contents b" "mb_tail b' = mb_tail nb + length (contents b)"
    "length (mb_buffer b') = length (mb_buffer nb)"
    using store_at_tail_ok [of nb "contents b"] nb(1,3) assms(1) by auto
  have "len \<le> length (mb_buffer b') - mb_tail b'"
    using b' nb(1,3) assms(1) by simp
  then show ?thesis
    using b' nb(1,2) assms(1) by (intro that [of b']) simp_all
qed

text \<open>On a well-formed buffer the recursion is never deeper than one inner call, so
  every bound from two on gives the same result.\<close>

lemma ensureWritable_depth_enough:
  assumes "wf_buf b" "len \<le> vec_max"
  shows "ensureWritable_depth (Suc (Suc d)) b len =
     (if writableBytes b \<ge> len then Inr b
      else if szadd (mb_head b) (writableBytes b) \<ge> szadd len kBufferOffset then move_to_front b
      else bindR (MsgBuffer_new (grown_length b len)) (\<lambda>nb.
           bindR (peek_bytes b (readableBytes b)) (\<lambda>ds.
           bindR (store_at_tail ds nb) (\<lambda>newbuffer. Inr (fst (swap_buf (b, newbuffer)))))))"
proof (cases "MsgBuffer_new (grown_length b len)")
  case (Inl e)
  then show ?thesis by simp
next
  case (Inr nb)
  from grown_buffer(4) [OF assms Inr, of d] show ?thesis
    by (simp only: ensureWritable_depth.simps(2) [of "Suc d" b len] Inr bindR_simps)
qed

lemma ensureWritableBytes_eq:
  assumes "wf_buf b" "len \<le> vec_max"
  shows "ensureWritableBytes b len =
     (if len \<le> length (mb_buffer b) - mb_tail b then Inr b
      else if len + kBufferOffset \<le> mb_head b + (length (mb_buffer b) - mb_tail b) then move_to_front b
      else bindR (MsgBuffer_new (grown_length b len)) (\<lambda>nb.
           bindR (peek_bytes b (readableBytes b)) (\<lambda>ds.
           bindR (store_at_tail ds nb) (\<lambda>newbuffer. Inr (fst (swap_buf (b, newbuffer)))))))"
proof -
  note w = wf_bufD [OF assms(1)]
  have "ensureWritableBytes b len = ensureWritable_depth (Suc (Suc 1)) b len"
    by (simp only: ensureWritableBytes_def numeral_3_eq_3 One_nat_def)
  then show ?thesis
    using w assms by (simp only: ensureWritable_depth_enough [OF assms]) auto
qed

lemma ensureWritableBytes_ok:
  assumes "wf_buf b" "len \<le> vec_max" "ensureWritableBytes b len = Inr b'"
  shows "wf_buf b' \<and> contents b' = contents b \<and> len \<le> length (mb_buffer b') - mb_tail b'"
proof -
  note w = wf_bufD [OF assms(1)] and eq = ensureWritableBytes_eq [OF assms(1,2)]
  consider (room) "len \<le> length (mb_buffer b) - mb_tail b"
    | (move) "\<not> len \<le> length (mb_buffer b) - mb_tail b"
        "len + kBufferOffset \<le> mb_head b + (length (mb_buffer b) - mb_tail b)"
    | (grow) "\<not> len \<le> length (mb_buffer b) - mb_tail b"
        "\<not> len + kBufferOffset \<le> mb_head b + (length (mb_buffer b) - mb_tail b)"
    by blast
  then show ?thesis
  proof cases
    case room
    with assms eq show ?thesis by simp
  next
    case move
    then have "kBufferOffset < mb_head b" by simp
    from move_to_front_ok [OF assms(1) this] obtain m where m: "move_to_front b = Inr m"
      "wf_buf m" "contents m = contents b" "mb_tail m = kBufferOffset + (mb_tail b - mb_head b)"
      "length (mb_buffer m) = length (mb_buffer b)" by metis
    with move assms eq have "b' = m" by simp
    with m move w show ?thesis by simp
  next
    case grow
    with assms eq obtain nb where nb: "MsgBuffer_new (grown_length b len) = Inr nb"
      by (auto simp: bindR_eq_Inr)
    from ensureWritable_grow [OF assms(1,2) nb] obtain m where
      "bindR (peek_bytes b (readableBytes b)) (\<lambda>ds.
       bindR (store_at_tail ds nb) (\<lambda>newbuffer. Inr (fst (swap_buf (b, newbuffer))))) = Inr m"
      "wf_buf m" "contents m = contents b" "len \<le> length (mb_buffer m) - mb_tail m" by metis
    with grow eq nb assms(3) show ?thesis by simp
  qed
qed

lemma ensureWritableBytes_total:
  assumes "wf_buf b" "fits b len"
  shows "\<exists>b'. ensureWritableBytes b len = Inr b'"
proof -
  note w = wf_bufD [OF assms(1)]
  have len: "len \<le> vec_max" using assms by (simp add: fits_def)
  note eq = ensureWritableBytes_eq [OF assms(1) len]
  have "grown_length b len + kBufferOffset \<le> mem_max"
    using grown_length_wf [OF assms(1) len] assms(2) w by (auto simp: fits_def)
  from MsgBuffer_new_Inr [OF this] obtain nb where nb: "MsgBuffer_new (grown_length b len) = Inr nb"
    by blast
  show ?thesis
  proof (cases "kBufferOffset < mb_head b")
    case True
    from move_to_front_ok [OF assms(1) True] obtain m where "move_to_front b = Inr m" by metis
    with ensureWritable_grow [OF assms(1) len nb] nb eq show ?thesis by auto
  next
    case False
    with ensureWritable_grow [OF assms(1) len nb] nb eq show ?thesis by auto
  qed
qed

section \<open>Appending, reading and discarding\<close>

lemma append_bytes_ok:
  assumes "wf_buf b" "length d \<le> vec_max" "append_bytes b d = Inr b'"
  shows "wf_buf b' \<and> contents b' = contents b @ d"
proof -
  from assms(3) obtain e where e: "ensureWritableBytes b (length d) = Inr e" "store_at_tail d e = Inr b'"
    by (auto simp: append_bytes_def bindR_eq_Inr)
  from ensureWritableBytes_ok [OF assms(1,2) e(1)] store_at_tail_ok [of e d] e(2) show ?thesis
    by (metis sum.inject(2))
qed

lemma append_bytes_total:
  assumes "wf_buf b" "fits b (length d)"
  shows "\<exists>b'. append_bytes b d = Inr b'"
proof -
  from ensureWritableBytes_total [OF assms] obtain e where e: "ensureWritableBytes b (length d) = Inr e" ..
  have "length d \<le> vec_max" using assms(2) by (simp add: fits_def)
  from ensureWritableBytes_ok [OF assms(1) this e] store_at_tail_ok [of e d] e show ?thesis
    by (metis append_bytes_def bindR_simps(2))
qed

lemma append_buf_eq:
  assumes "wf_buf buf"
  shows "append_buf b buf = append_bytes b (contents buf)"
  using assms by (cases "ensureWritableBytes b (readableBytes buf)")
    (simp_all add: append_buf_def append_bytes_def)

lemma retrieveAll_ok:
  assumes "wf_buf b"
  obtains b' where "retrieveAll b = Inr b'" "wf_buf b'" "contents b' = []" "mb_initCap b' = mb_initCap b"
proof -
  note w = wf_bufD [OF assms]
  then have "vec_resize (mb_initCap b) (mb_buffer b) = Inr (take (mb_initCap b) (mb_buffer b))"
    by (simp add: vec_resize_Inr)
  with w show ?thesis
    by (intro that [of "b\<lparr>mb_buffer := (if length (mb_buffer b) > szmul (mb_initCap b) 2
                          then take (mb_initCap b) (mb_buffer b) else mb_buffer b),
                          mb_tail := kBufferOffset, mb_head := kBufferOffset\<rparr>"])
      (auto simp: retrieveAll_def wf_buf_def contents_def)
qed

lemma retrieve_ok:
  assumes "wf_buf b"
  obtains b' where "retrieve b n = Inr b'" "wf_buf b'" "contents b' = drop n (contents b)"
proof (cases "n \<ge> readableBytes b")
  case True
  from retrieveAll_ok [OF assms] obtain b' where "retrieveAll b = Inr b'" "wf_buf b'" "contents b' = []"
    by metis
  with True assms show ?thesis by (intro that [of b']) (simp_all add: retrieve_def)
next
  case False
  let ?b = "b\<lparr>mb_head := mb_head b + n\<rparr>"
  note w = wf_bufD [OF assms]
  from False w assms have "retrieve b n = Inr ?b" by (simp add: retrieve_def)
  moreover from False w assms have "wf_buf ?b" by (simp add: wf_buf_def)
  moreover have "contents ?b = drop n (contents b)"
    by (simp add: contents_def drop_take add.commute)
  ultimately show ?thesis by (rule that)
qed

lemma retrieve_wf:
  assumes "wf_buf b" "retrieve b n = Inr b'"
  shows "wf_buf b'" "contents b' = drop n (contents b)"
  using retrieve_ok [OF assms(1), of n] assms(2) by auto

lemma read_bytes_ok:
  assumes "wf_buf b"
  obtains b' where "read_bytes b n = Inr (take n (contents b), b')" "wf_buf b'"
    "contents b' = drop n (contents b)"
proof -
  let ?n = "if n > readableBytes b then readableBytes b else n"
  from retrieve_ok [OF assms, of ?n] obtain b' where
    "retrieve b ?n = Inr b'" "wf_buf b'" "contents b' = drop ?n (contents b)" by metis
  with assms show ?thesis
    by (intro that [of b']) (auto simp: read_bytes_def Let_def)
qed

lemma readUntil_ok:
  assumes "wf_buf b" "k \<le> length (contents b)"
  obtains b' where "readUntil b (peek b + k) = Inr (take k (contents b), b')" "wf_buf b'"
    "contents b' = drop k (contents b)"
proof -
  from retrieve_ok [OF assms(1), of k] obtain b' where
    "retrieve b k = Inr b'" "wf_buf b'" "contents b' = drop k (contents b)" by metis
  with assms wf_bufD [OF assms(1)] show ?thesis
    by (intro that [of b']) (auto simp: readUntil_def beginWrite_def peek_def)
qed

lemma retrieveUntil_ok:
  assumes "wf_buf b" "k \<le> length (contents b)"
  shows "retrieveUntil b (peek b + k) = retrieve b k"
  using assms wf_bufD [OF assms(1)] by (auto simp: retrieveUntil_def beginWrite_def peek_def)

section \<open>The interface of a byte queue\<close>

text \<open>
  What the clients of a buffer rely on: appended bytes come out in order, looking does
  not consume, discarding removes from the front, and no operation leaves the invariant.
\<close>

locale byte_fifo =
  fixes content :: "'b \<Rightarrow> byte list"
    and invar :: "'b \<Rightarrow> bool"
    and room :: "'b \<Rightarrow> nat \<Rightarrow> bool"
    and append :: "'b \<Rightarrow> byte list \<Rightarrow> 'b result"
    and look :: "'b \<Rightarrow> nat \<Rightarrow> byte list result"
    and discard :: "'b \<Rightarrow> nat \<Rightarrow> 'b result"
  assumes append_law: "invar b \<Longrightarrow> length d \<le> vec_max \<Longrightarrow> append b d = Inr b' \<Longrightarrow>
      invar b' \<and> content b' = content b @ d"
    and append_returns: "invar b \<Longrightarrow> room b (length d) \<Longrightarrow> \<exists>b'. append b d = Inr b'"
    and look_law: "invar b \<Longrightarrow> n \<le> length (content b) \<Longrightarrow> look b n = Inr (take n (content b))"
    and discard_law: "invar b \<Longrightarrow> \<exists>b'. discard b n = Inr b' \<and> invar b' \<and> content b' = drop n (content b)"
begin

lemma append_chunks:
  assumes "invar b" "\<forall>d\<in>set ds. length d \<le> vec_max" "foldR append b ds = Inr b'"
  shows "invar b' \<and> content b' = content b @ concat ds"
  using assms
proof (induction ds arbitrary: b)
  case Nil
  then show ?case by simp
next
  case (Cons d ds)
  then obtain b1 where b1: "append b d = Inr b1" "foldR append b1 ds = Inr b'"
    by (auto simp: bindR_eq_Inr)
  with append_law [of b d b1] Cons.prems have "invar b1" "content b1 = content b @ d" by auto
  with Cons.IH [of b1] Cons.prems b1 show ?case by simp
qed

lemma discard_chunks:
  assumes "invar b" "foldR discard b ns = Inr b'"
  shows "invar b' \<and> content b' = drop (sum_list ns) (content b)"
  using assms
proof (induction ns arbitrary: b)
  case Nil
  then show ?case by simp
next
  case (Cons n ns)
  then obtain b1 where b1: "discard b n = Inr b1" "foldR discard b1 ns = Inr b'"
    by (auto simp: bindR_eq_Inr)
  with discard_law [of b n] Cons.prems have "invar b1" "content b1 = drop n (content b)" by auto
  with Cons.IH [of b1] b1 show ?case by (simp add: add.commute)
qed

lemma message_comes_out:
  assumes "invar b" "length m \<le> vec_max" "append b m = Inr b1" "discard b1 (length (content b)) = Inr b2"
  shows "look b2 (length m) = Inr m"
proof -
  from append_law [OF assms(1-3)] have b1: "invar b1" "content b1 = content b @ m" by auto
  with discard_law [of b1 "length (content b)"] assms(4) have "invar b2" "content b2 = m" by auto
  with look_law [of b2 "length m"] show ?thesis by simp
qed

end

interpretation mb: byte_fifo contents wf_buf fits append_bytes peek_bytes retrieve
proof unfold_locales
  fix b d b' n
  show "wf_buf b \<Longrightarrow> length d \<le> vec_max \<Longrightarrow> append_bytes b d = Inr b' \<Longrightarrow>
      wf_buf b' \<and> contents b' = contents b @ d"
    by (rule append_bytes_ok)
  show "wf_buf b \<Longrightarrow> fits b (length d) \<Longrightarrow> \<exists>b'. append_bytes b d = Inr b'"
    by (rule append_bytes_total)
  show "wf_buf b \<Longrightarrow> n \<le> length (contents b) \<Longrightarrow> peek_bytes b n = Inr (take n (contents b))"
    by simp
  show "wf_buf b \<Longrightarrow> \<exists>b'. retrieve b n = Inr b' \<and> wf_buf b' \<and> contents b' = drop n (contents b)"
    by (metis retrieve_ok)
qed

section \<open>Searching\<close>

lemma search_Some_iff:
  "search pat s = Some i \<longleftrightarrow>
     i + length pat \<le> length s \<and> take (length pat) (drop i s) = pat \<and>
     (\<forall>j<i. take (length pat) (drop j s) \<noteq> pat)"
proof (induction s arbitrary: i)
  case Nil
  show ?case by (subst search.simps) (auto dest: sym)
next
  case (Cons c s)
  show ?case
  proof (cases "take (length pat) (c # s) = pat")
    case True
    then have "length pat \<le> length (c # s)" by (metis length_take min.cobounded1)
    with True show ?thesis by (subst search.simps) (auto intro: gr0I)
  next
    case False
    have "search pat (c # s) = Some i \<longleftrightarrow> (\<exists>k. i = Suc k \<and> search pat s = Some k)"
      using False by (subst search.simps) auto
    also have "\<dots> \<longleftrightarrow> i + length pat \<le> length (c # s) \<and> take (length pat) (drop i (c # s)) = pat \<and>
       (\<forall>j<i. take (length pat) (drop j (c # s)) \<noteq> pat)"
      using False by (cases i) (auto simp: Cons.IH All_less_Suc2)
    finally show ?thesis .
  qed
qed

lemma search_None_iff: "search pat s = None \<longleftrightarrow> (\<forall>j\<le>length s. take (length pat) (drop j s) \<noteq> pat)"
proof (induction s)
  case Nil
  show ?case by (subst search.simps) auto
next
  case (Cons c s)
  have "search pat (c # s) = None \<longleftrightarrow> take (length pat) (c # s) \<noteq> pat \<and> search pat s = None"
    by (subst search.simps) auto
  also have "\<dots> \<longleftrightarrow> (\<forall>j\<le>length (c # s). take (length pat) (drop j (c # s)) \<noteq> pat)"
    using Cons.IH by (auto simp: less_Suc_eq_le [symmetric] All_less_Suc2)
  finally show ?case .
qed

lemma search_bound: "search pat s = Some i \<Longrightarrow> i + length pat \<le> length s"
  by (simp add: search_Some_iff)

lemma search_append_found:
  assumes "pat \<noteq> []" "\<forall>j<length u. take (length pat) (drop j (u @ pat @ v)) \<noteq> pat"
  shows "search pat (u @ pat @ v) = Some (length u)"
  using assms by (simp add: search_Some_iff)

lemma find_bytes_wf:
  assumes "wf_buf b" "pat \<noteq> []"
  shows "find_bytes b pat = Inr (map_option (\<lambda>i. peek b + i) (search pat (contents b)))"
proof (cases "search pat (contents b)")
  case None
  with assms show ?thesis by (simp add: find_bytes_def)
next
  case (Some i)
  with search_bound [OF Some] assms wf_bufD [OF assms(1)] have "peek b + i < beginWrite b"
    by (cases pat) (auto simp: peek_def beginWrite_def)
  with Some assms show ?thesis by (simp add: find_bytes_def)
qed

section \<open>Integers on the wire\<close>

lemma unat_hton:
  "unat (htons s) = le_val (rev (le_bytes 2 (unat s)))"
  "unat (htonl i) = le_val (rev (le_bytes 4 (unat i)))"
  "unat (hton64 n) = le_val (rev (le_bytes 8 (unat n)))"
  using le_val_less [of "rev (le_bytes 2 (unat s))"] le_val_less [of "rev (le_bytes 4 (unat i))"]
    le_val_less [of "rev (le_bytes 8 (unat n))"]
  by (simp_all add: htons_def htonl_def hton64_def unat_of_nat)

lemma le_bytes_hton:
  "le_bytes 2 (unat (htons s)) = rev (le_bytes 2 (unat s))"
  "le_bytes 4 (unat (htonl i)) = rev (le_bytes 4 (unat i))"
  "le_bytes 8 (unat (hton64 n)) = rev (le_bytes 8 (unat n))"
  using le_bytes_le_val [of "rev (le_bytes 2 (unat s))"] le_bytes_le_val [of "rev (le_bytes 4 (unat i))"]
    le_bytes_le_val [of "rev (le_bytes 8 (unat n))"]
  by (simp_all add: unat_hton)

lemma le_val_word:
  "le_val (le_bytes 1 (unat (wb :: u8))) = unat wb"
  "le_val (le_bytes 2 (unat (wh :: u16))) = unat wh"
  "le_val (le_bytes 4 (unat (ww :: u32))) = unat ww"
  "le_val (le_bytes 8 (unat (wd :: u64))) = unat wd"
  using unsigned_less [of wb, where ?'a = nat] unsigned_less [of wh, where ?'a = nat]
    unsigned_less [of ww, where ?'a = nat] unsigned_less [of wd, where ?'a = nat]
  by (simp_all add: le_val_le_bytes)

lemma hton_involution:
  "htons (htons s) = s" "htonl (htonl i) = i" "hton64 (hton64 n) = n"
  by (simp_all add: htons_def [of "htons s"] htonl_def [of "htonl i"] hton64_def [of "hton64 n"]
        le_bytes_hton le_val_word)

lemma ntoh_wire:
  "htons (of_nat (le_val (rev (le_bytes 2 (unat s))))) = s"
  "htonl (of_nat (le_val (rev (le_bytes 4 (unat i))))) = i"
  "hton64 (of_nat (le_val (rev (le_bytes 8 (unat n))))) = n"
  using hton_involution by (simp_all add: htons_def htonl_def hton64_def)

text \<open>Reading an integer whose bytes lie at the front in network byte order.\<close>

lemma readInt_ok:
  assumes "wf_buf b"
  shows "contents b = le_bytes 1 (unat (wb :: u8)) @ rest \<Longrightarrow> \<exists>b'. readInt8 b = Inr (wb, b') \<and> wf_buf b' \<and> contents b' = rest"
    and "contents b = rev (le_bytes 2 (unat (wh :: u16))) @ rest \<Longrightarrow> \<exists>b'. readInt16 b = Inr (wh, b') \<and> wf_buf b' \<and> contents b' = rest"
    and "contents b = rev (le_bytes 4 (unat (ww :: u32))) @ rest \<Longrightarrow> \<exists>b'. readInt32 b = Inr (ww, b') \<and> wf_buf b' \<and> contents b' = rest"
    and "contents b = rev (le_bytes 8 (unat (wd :: u64))) @ rest \<Longrightarrow> \<exists>b'. readInt64 b = Inr (wd, b') \<and> wf_buf b' \<and> contents b' = rest"
proof -
  note r = mb.discard_law [OF assms] and len = length_contents [OF assms, symmetric]
  show "\<exists>b'. readInt8 b = Inr (wb, b') \<and> wf_buf b' \<and> contents b' = rest"
    if "contents b = le_bytes 1 (unat wb) @ rest"
    using r [of 1] that assms len by (auto simp: readInt8_def peekInt8_def le_val_word [unfolded One_nat_def] simp del: le_bytes.simps)
  show "\<exists>b'. readInt16 b = Inr (wh, b') \<and> wf_buf b' \<and> contents b' = rest"
    if "contents b = rev (le_bytes 2 (unat wh)) @ rest"
    using r [of 2] that assms len by (auto simp: readInt16_def peekInt16_def ntoh_wire)
  show "\<exists>b'. readInt32 b = Inr (ww, b') \<and> wf_buf b' \<and> contents b' = rest"
    if "contents b = rev (le_bytes 4 (unat ww)) @ rest"
    using r [of 4] that assms len by (auto simp: readInt32_def peekInt32_def ntoh_wire)
  show "\<exists>b'. readInt64 b = Inr (wd, b') \<and> wf_buf b' \<and> contents b' = rest"
    if "contents b = rev (le_bytes 8 (unat wd)) @ rest"
    using r [of 8] that assms len by (auto simp: readInt64_def peekInt64_def ntoh64_def ntoh_wire)
qed

section \<open>Reading from a descriptor\<close>

lemma iov_len0_small [simp]: "w < 2147483648 \<Longrightarrow> iov_len0 w = w"
  by (simp add: iov_len0_def)

lemma readFd_ok:
  assumes "wf_buf b" "writableBytes b < 2147483648" "length ds \<le> readv_capacity (writableBytes b)"
    and "readFd b (ReadData ds) = Inr (n, e, b')"
  shows "n = int (length ds) \<and> e = None \<and> wf_buf b' \<and> contents b' = contents b @ ds"
proof -
  note w = wf_bufD [OF assms(1)]
  let ?w = "length (mb_buffer b) - mb_tail b"
  obtain b1 where b1: "store_at_tail (take ?w ds) b = Inr b1" "wf_buf b1"
    "contents b1 = contents b @ take ?w ds" "mb_tail b1 = mb_tail b + min (length ds) ?w"
    "length (mb_buffer b1) = length (mb_buffer b)"
    using store_at_tail_ok [OF assms(1), of "take ?w ds"] by auto
  have st: "store_at_tail (take ?w ds) b = bindR (mem_write (mb_buffer b) (mb_tail b) (take ?w ds))
      (\<lambda>v. Inr (b\<lparr>mb_buffer := v, mb_tail := mb_tail b + min (length ds) ?w\<rparr>))"
    using w by (simp add: store_at_tail_def)
  show ?thesis
  proof (cases "length ds \<le> ?w")
    case True
    with b1 st assms w show ?thesis
      by (auto simp: readFd_def Let_def bindR_eq_Inr)
  next
    case False
    with assms have "length ds - ?w \<le> 8192"
      by (auto simp: readv_capacity_def split: if_splits)
    moreover from False b1 st assms w have "append_bytes b1 (drop ?w ds) = Inr b'" "n = int (length ds)" "e = None"
      by (auto simp: readFd_def Let_def bindR_eq_Inr)
    ultimately show ?thesis
      using append_bytes_ok [OF b1(2), of "drop ?w ds" b'] b1(3) by simp
  qed
qed

lemma readFd_error: "readFd b (ReadErr e) = Inr (-1, Some e, b)"
  by (simp add: readFd_def Let_def)

section \<open>Writing in front\<close>

text \<open>The branch of \<^verbatim>\<open>addInFront\<close> that shifts the readable bytes to the right with
  \<^verbatim>\<open>std::copy\<close> is undefined when the shift is shorter than the readable bytes.\<close>

definition shift_overlaps :: "msgbuf \<Rightarrow> nat \<Rightarrow> bool" where
  "shift_overlaps b len \<longleftrightarrow>
     mb_head b < len \<and> len \<le> writableBytes b \<and> len < readableBytes b"

lemma addInFront_prefix:
  assumes "wf_buf b" "length d \<le> mb_head b"
  obtains b' where "addInFront b d = Inr b'" "wf_buf b'" "contents b' = d @ contents b"
proof -
  note w = wf_bufD [OF assms(1)]
  let ?h = "mb_head b - length d"
  let ?v = "take ?h (mb_buffer b) @ d @ drop (mb_head b) (mb_buffer b)"
  let ?b = "b\<lparr>mb_buffer := ?v, mb_head := ?h\<rparr>"
  have "addInFront b d = Inr ?b"
    using assms w by (simp add: addInFront_def mem_write_Inr)
  moreover have "wf_buf ?b"
    using assms w by (auto simp: wf_buf_def)
  moreover have "mb_tail b - ?h = length d + (mb_tail b - mb_head b)"
    using assms w by simp
  then have "contents ?b = d @ contents b"
    using assms w by (simp add: contents_def)
  ultimately show ?thesis by (rule that)
qed

lemma addInFront_shift:
  assumes "wf_buf b" "mb_head b < length d" "length d \<le> writableBytes b"
    "\<not> shift_overlaps b (length d)"
  obtains b' where "addInFront b d = Inr b'" "wf_buf b'" "contents b' = d @ contents b"
proof -
  note w = wf_bufD [OF assms(1)]
  let ?h = "mb_head b" and ?n = "mb_tail b - mb_head b"
  let ?v = "take (?h + length d) (mb_buffer b) @ contents b @ drop (?h + length d + ?n) (mb_buffer b)"
  let ?v' = "take ?h (mb_buffer b) @ d @ contents b @ drop (?h + length d + ?n) (mb_buffer b)"
  let ?b = "b\<lparr>mb_buffer := ?v', mb_tail := mb_tail b + length d\<rparr>"
  have n: "?n \<le> length d" using assms by (simp add: shift_overlaps_def)
  have "std_copy (mb_buffer b) ?h (mb_tail b) (?h + length d) = Inr ?v"
    using w n assms by (simp add: std_copy_def mem_read_Inr mem_write_Inr contents_def)
  moreover have "mem_write ?v ?h d = Inr ?v'"
    using w assms by (auto simp: mem_write_def min_def)
  ultimately have "addInFront b d = Inr ?b"
    using assms w by (simp add: addInFront_def)
  moreover have "wf_buf ?b"
    using assms w by (auto simp: wf_buf_def)
  moreover have "mb_tail b + length d - ?h = length d + ?n"
    using w by simp
  then have "contents ?b = d @ contents b"
    using assms w unfolding contents_def [of ?b] by simp
  ultimately show ?thesis by (rule that)
qed

lemma addInFront_ok:
  assumes "wf_buf b" "length d \<le> vec_max" "\<not> shift_overlaps b (length d)" "addInFront b d = Inr b'"
  shows "wf_buf b' \<and> contents b' = d @ contents b"
proof -
  note w = wf_bufD [OF assms(1)]
  consider (prefix) "length d \<le> mb_head b" | (shift) "mb_head b < length d" "length d \<le> writableBytes b"
    | (grow) "mb_head b < length d" "\<not> length d \<le> writableBytes b" by linarith
  then show ?thesis
  proof cases
    case prefix
    from addInFront_prefix [OF assms(1) this] assms(4) show ?thesis by auto
  next
    case shift
    from addInFront_shift [OF assms(1) this assms(3)] assms(4) show ?thesis by auto
  next
    case grow
    let ?n = "if length d + readableBytes b < mb_initCap b then mb_initCap b else length d + readableBytes b"
    have n: "kBufferOffset \<le> ?n" "?n \<le> size_max - kBufferOffset" using w assms(1,2) by auto
    have sz: "szadd (length d) (readableBytes b) = length d + readableBytes b" using w assms(1,2) by auto
    from grow assms(4) obtain nb nb1 where nb: "MsgBuffer_new ?n = Inr nb"
      and nb1: "append_bytes nb d = Inr nb1" and b': "append_buf nb1 b = Inr b'"
      unfolding addInFront_def sz by (auto simp: bindR_eq_Inr)
    from nb n(2) have "?n \<le> vec_max"
      by (auto simp: MsgBuffer_new_def vec_resize_eq_Inr bindR_eq_Inr)
    note nbw = MsgBuffer_new_wf [OF nb n(1) this]
    from append_bytes_ok [OF nbw(1) assms(2) nb1] nbw(2) have nb1w: "wf_buf nb1" "contents nb1 = d" by auto
    have "length (contents b) \<le> vec_max" using w assms(1) by simp
    from append_bytes_ok [OF nb1w(1) this, of b'] b' nb1w append_buf_eq [OF assms(1)] show ?thesis by simp
  qed
qed

text \<open>An overlapping shift is always taken for what it is: the call is undefined.\<close>

lemma addInFront_overlaps:
  assumes "wf_buf b" "shift_overlaps b (length d)"
  shows "addInFront b d = Inl OverlapCopy"
proof -
  from assms wf_bufD [OF assms(1)] have "\<not> length d \<le> mb_head b" "length d \<le> writableBytes b"
    "mb_head b + length d < mb_tail b" by (auto simp: shift_overlaps_def)
  then show ?thesis by (simp add: addInFront_def std_copy_def)
qed

section \<open>Sequences of operations\<close>

text \<open>The operations that change a buffer, as the clients interleave them; the answer
  of a system call is part of the operation.\<close>

datatype buf_op =
    OpAppend "byte list"
  | OpAddInFront "byte list"
  | OpRetrieve nat
  | OpRetrieveAll
  | OpRead nat
  | OpReadFd sys_read
  | OpEnsureWritable nat
  | OpHasWritten nat
  | OpUnwrite nat

fun buf_step :: "msgbuf \<Rightarrow> buf_op \<Rightarrow> msgbuf result" where
  "buf_step b (OpAppend d) = append_bytes b d"
| "buf_step b (OpAddInFront d) = addInFront b d"
| "buf_step b (OpRetrieve n) = retrieve b n"
| "buf_step b OpRetrieveAll = retrieveAll b"
| "buf_step b (OpRead n) = bindR (read_bytes b n) (\<lambda>r. Inr (snd r))"
| "buf_step b (OpReadFd r) = bindR (readFd b r) (\<lambda>r. Inr (snd (snd r)))"
| "buf_step b (OpEnsureWritable n) = ensureWritableBytes b n"
| "buf_step b (OpHasWritten n) = hasWritten b n"
| "buf_step b (OpUnwrite n) = unwrite b n"

text \<open>What the callers guarantee: no object is larger than the largest \<^verbatim>\<open>ptrdiff_t\<close>, the
  room that \<^verbatim>\<open>readFd\<close> casts to \<^verbatim>\<open>int\<close> is below 2 GiB, and \<^verbatim>\<open>readv\<close> delivers no more than
  it was given room for.\<close>

fun op_ok :: "msgbuf \<Rightarrow> buf_op \<Rightarrow> bool" where
  "op_ok b (OpAppend d) = (length d \<le> vec_max)"
| "op_ok b (OpAddInFront d) = (length d \<le> vec_max)"
| "op_ok b (OpReadFd (ReadData ds)) =
     (writableBytes b < 2147483648 \<and> length ds \<le> readv_capacity (writableBytes b))"
| "op_ok b (OpEnsureWritable n) = (n \<le> vec_max)"
| "op_ok b _ = True"

lemma buf_step_wf:
  assumes "wf_buf b" "op_ok b opn" "buf_step b opn = Inr b'"
  shows "wf_buf b'"
proof (cases opn)
  case (OpRead n)
  from read_bytes_ok [OF assms(1), of n] obtain c where
    "read_bytes b n = Inr (take n (contents b), c)" "wf_buf c" by metis
  with OpRead assms(3) show ?thesis by simp
next
  case (OpReadFd r)
  show ?thesis
  proof (cases r)
    case (ReadErr e)
    with OpReadFd assms show ?thesis by (simp add: readFd_error)
  next
    case (ReadData ds)
    with OpReadFd assms(3) obtain n e where "readFd b (ReadData ds) = Inr (n, e, b')"
      by (auto simp: bindR_eq_Inr)
    with readFd_ok [OF assms(1), of ds n e b'] assms(2) OpReadFd ReadData show ?thesis by simp
  qed
next
  case OpRetrieveAll
  from retrieveAll_ok [OF assms(1)] obtain c where "retrieveAll b = Inr c" "wf_buf c" by metis
  with OpRetrieveAll assms(3) show ?thesis by simp
next
  case (OpHasWritten n)
  with assms wf_bufD [OF assms(1)] show ?thesis
    by (auto simp: hasWritten_def assertR_eq_Inr wf_buf_def)
next
  case (OpUnwrite n)
  with assms wf_bufD [OF assms(1)] show ?thesis
    by (auto simp: unwrite_def assertR_eq_Inr wf_buf_def)
next
  case (OpAppend d)
  with append_bytes_ok [OF assms(1), of d b'] assms show ?thesis by simp
next
  case (OpAddInFront d)
  with assms addInFront_overlaps [OF assms(1), of d] have "\<not> shift_overlaps b (length d)" by auto
  with OpAddInFront addInFront_ok [OF assms(1), of d b'] assms show ?thesis by simp
next
  case (OpRetrieve n)
  with retrieve_wf [OF assms(1), of n b'] assms show ?thesis by simp
next
  case (OpEnsureWritable n)
  with ensureWritableBytes_ok [OF assms(1), of n b'] assms show ?thesis by simp
qed

text \<open>The failures of the vector's allocation.\<close>

definition alloc_errors :: "cpp_error set" where
  "alloc_errors = {LengthError, BadAlloc}"

lemma MsgBuffer_new_alloc: "MsgBuffer_new n = Inl e \<Longrightarrow> e \<in> alloc_errors"
  by (auto simp: MsgBuffer_new_def vec_resize_def alloc_errors_def split: if_splits)

lemma ensureWritableBytes_alloc:
  assumes "wf_buf b" "len \<le> vec_max" "ensureWritableBytes b len = Inl e"
  shows "e \<in> alloc_errors"
proof (cases "MsgBuffer_new (grown_length b len)")
  case (Inl e')
  show ?thesis
  proof (cases "kBufferOffset < mb_head b")
    case True
    from move_to_front_ok [OF assms(1) True] obtain m where "move_to_front b = Inr m" by metis
    with Inl assms MsgBuffer_new_alloc [OF Inl] show ?thesis
      by (auto simp: ensureWritableBytes_eq split: if_splits)
  next
    case False
    with Inl assms MsgBuffer_new_alloc [OF Inl] show ?thesis
      by (auto simp: ensureWritableBytes_eq split: if_splits)
  qed
next
  case (Inr nb)
  from ensureWritable_grow [OF assms(1,2) Inr] obtain m where m:
    "bindR (peek_bytes b (readableBytes b)) (\<lambda>ds.
     bindR (store_at_tail ds nb) (\<lambda>newbuffer. Inr (fst (swap_buf (b, newbuffer))))) = Inr m" by metis
  show ?thesis
  proof (cases "kBufferOffset < mb_head b")
    case True
    from move_to_front_ok [OF assms(1) True] obtain m' where "move_to_front b = Inr m'" by metis
    with Inr m assms(3) show ?thesis
      unfolding ensureWritableBytes_eq [OF assms(1,2)] by (simp split: if_splits)
  next
    case False
    with Inr m assms(3) show ?thesis
      unfolding ensureWritableBytes_eq [OF assms(1,2)] by (simp split: if_splits)
  qed
qed

lemma append_bytes_alloc:
  assumes "wf_buf b" "length d \<le> vec_max" "append_bytes b d = Inl e"
  shows "e \<in> alloc_errors"
proof (cases "ensureWritableBytes b (length d)")
  case (Inl e')
  with ensureWritableBytes_alloc [OF assms(1,2)] assms(3) show ?thesis by (simp add: append_bytes_def)
next
  case (Inr b1)
  with ensureWritableBytes_ok [OF assms(1,2) Inr] obtain b2 where "store_at_tail d b1 = Inr b2"
    by (metis store_at_tail_ok)
  with Inr assms(3) show ?thesis by (simp add: append_bytes_def)
qed

lemma readFd_alloc:
  assumes "wf_buf b" "op_ok b (OpReadFd r)" "readFd b r = Inl e"
  shows "e \<in> alloc_errors"
proof (cases r)
  case (ReadErr x)
  with assms show ?thesis by (simp add: readFd_error)
next
  case (ReadData ds)
  note w = wf_bufD [OF assms(1)]
  let ?w = "length (mb_buffer b) - mb_tail b"
  have room: "mem_write (mb_buffer b) (mb_tail b) (take ?w ds) =
      Inr (take (mb_tail b) (mb_buffer b) @ take ?w ds @ drop (mb_tail b + min (length ds) ?w) (mb_buffer b))"
    (is "_ = Inr ?v") using w by (simp add: mem_write_Inr)
  have eq: "readFd b r =
      (if length ds \<le> ?w then Inr (int (length ds), None, b\<lparr>mb_buffer := ?v, mb_tail := szadd (mb_tail b) (length ds)\<rparr>)
       else bindR (append_bytes (b\<lparr>mb_buffer := ?v, mb_tail := length ?v\<rparr>) (take (length ds - ?w) (drop ?w ds)))
              (\<lambda>b''. Inr (int (length ds), None, b'')))"
    using assms(1,2) ReadData room by (simp add: readFd_def Let_def)
  show ?thesis
  proof (cases "length ds \<le> ?w")
    case True
    with eq assms(3) show ?thesis by simp
  next
    case False
    with eq assms(3) have a: "append_bytes (b\<lparr>mb_buffer := ?v, mb_tail := length ?v\<rparr>)
        (take (length ds - ?w) (drop ?w ds)) = Inl e"
      by (cases "append_bytes (b\<lparr>mb_buffer := ?v, mb_tail := length ?v\<rparr>)
        (take (length ds - ?w) (drop ?w ds))") simp_all
    have "wf_buf (b\<lparr>mb_buffer := ?v, mb_tail := length ?v\<rparr>)"
      using False w by (auto simp: wf_buf_def min_def)
    moreover have "length (take (length ds - ?w) (drop ?w ds)) \<le> vec_max"
      using False assms(1,2) ReadData by (auto simp: readv_capacity_def split: if_splits)
    ultimately show ?thesis using a by (rule append_bytes_alloc)
  qed
qed

lemma addInFront_alloc:
  assumes "wf_buf b" "length d \<le> vec_max" "\<not> shift_overlaps b (length d)" "addInFront b d = Inl e"
  shows "e \<in> alloc_errors"
proof -
  note w = wf_bufD [OF assms(1)]
  have "\<not> length d \<le> mb_head b" "\<not> length d \<le> writableBytes b"
    using addInFront_prefix [OF assms(1), of d] addInFront_shift [OF assms(1) _ _ assms(3)] assms(4)
    by (metis Inl_Inr_False not_le)+
  let ?n = "if szadd (length d) (readableBytes b) < mb_initCap b then mb_initCap b
            else szadd (length d) (readableBytes b)"
  have eq: "addInFront b d = bindR (MsgBuffer_new ?n) (\<lambda>nb. bindR (append_bytes nb d) (\<lambda>nb.
        bindR (append_buf nb b) (\<lambda>nb. Inr (fst (swap_buf (b, nb))))))"
    using \<open>\<not> length d \<le> mb_head b\<close> \<open>\<not> length d \<le> writableBytes b\<close> unfolding addInFront_def by simp
  have n: "kBufferOffset \<le> ?n" "?n \<le> size_max - kBufferOffset" using w assms(1,2) by auto
  show ?thesis
  proof (cases "MsgBuffer_new ?n")
    case (Inl e')
    with eq assms(4) MsgBuffer_new_alloc [OF Inl] show ?thesis by simp
  next
    case (Inr nb)
    from Inr n(2) have "?n \<le> vec_max"
      by (auto simp: MsgBuffer_new_def vec_resize_eq_Inr bindR_eq_Inr)
    note nbw = MsgBuffer_new_wf [OF Inr n(1) this]
    have lb: "length (contents b) \<le> vec_max" using w assms(1) by simp
    show ?thesis
    proof (cases "append_bytes nb d")
      case (Inl e')
      with append_bytes_alloc [OF nbw(1) assms(2) Inl] Inr eq assms(4) show ?thesis by simp
    next
      case inner: (Inr nb1)
      with append_bytes_ok [OF nbw(1) assms(2) inner] have "wf_buf nb1" by simp
      from append_bytes_alloc [OF this lb] Inr inner eq assms(4) append_buf_eq [OF assms(1)] show ?thesis
        by (cases "append_buf nb1 b") simp_all
    qed
  qed
qed

text \<open>How an operation can fail on a well-formed buffer: the operations that may need a new
  vector by its allocation, \<^verbatim>\<open>hasWritten\<close> and \<^verbatim>\<open>unwrite\<close> by their assertion, and \<^verbatim>\<open>addInFront\<close>
  also by a shift that overlaps. The reading operations never fail.\<close>

fun fault :: "msgbuf \<Rightarrow> buf_op \<Rightarrow> cpp_error \<Rightarrow> bool" where
  "fault b (OpAppend d) e = (e \<in> alloc_errors)"
| "fault b (OpAddInFront d) e =
     (if shift_overlaps b (length d) then e = OverlapCopy else e \<in> alloc_errors)"
| "fault b (OpReadFd r) e = (e \<in> alloc_errors)"
| "fault b (OpEnsureWritable n) e = (e \<in> alloc_errors)"
| "fault b (OpHasWritten n) e = (e = AssertFail \<and> writableBytes b < n)"
| "fault b (OpUnwrite n) e = (e = AssertFail \<and> readableBytes b < n)"
| "fault b _ e = False"

lemma buf_step_fault:
  assumes "wf_buf b" "op_ok b opn" "buf_step b opn = Inl e"
  shows "fault b opn e"
proof (cases opn)
  case (OpRead n)
  from read_bytes_ok [OF assms(1), of n] OpRead assms(3) show ?thesis by (metis Inl_Inr_False bindR_simps(2) buf_step.simps(5))
next
  case (OpReadFd r)
  with readFd_alloc [OF assms(1), of r] assms show ?thesis
    by (cases "readFd b r") simp_all
next
  case OpRetrieveAll
  from retrieveAll_ok [OF assms(1)] OpRetrieveAll assms(3) show ?thesis by (metis Inl_Inr_False buf_step.simps(4))
next
  case (OpRetrieve n)
  from retrieve_ok [OF assms(1), of n] OpRetrieve assms(3) show ?thesis by (metis Inl_Inr_False buf_step.simps(3))
next
  case (OpHasWritten n)
  with assms show ?thesis by (auto simp: hasWritten_def assertR_def split: if_splits)
next
  case (OpUnwrite n)
  with assms show ?thesis by (auto simp: unwrite_def assertR_def split: if_splits)
next
  case (OpAppend d)
  with append_bytes_alloc [OF assms(1), of d e] assms show ?thesis by simp
next
  case (OpAddInFront d)
  with addInFront_alloc [OF assms(1), of d e] addInFront_overlaps [OF assms(1), of d] assms show ?thesis by simp
next
  case (OpEnsureWritable n)
  with ensureWritableBytes_alloc [OF assms(1), of n e] assms show ?thesis by simp
qed

fun ops_ok :: "msgbuf \<Rightarrow> buf_op list \<Rightarrow> bool" where
  "ops_ok b [] = True"
| "ops_ok b (x # xs) =
     (op_ok b x \<and> (case buf_step b x of Inl e \<Rightarrow> True | Inr b' \<Rightarrow> ops_ok b' xs))"

lemma run_ops_safe:
  assumes "wf_buf b" "ops_ok b ops"
  shows "case foldR buf_step b ops of
      Inl e \<Rightarrow> \<exists>xs x ys c. ops = xs @ x # ys \<and> foldR buf_step b xs = Inr c \<and> wf_buf c \<and> fault c x e
    | Inr b' \<Rightarrow> wf_buf b'"
  using assms
proof (induction ops arbitrary: b)
  case Nil
  then show ?case by simp
next
  case (Cons x xs)
  show ?case
  proof (cases "buf_step b x")
    case (Inl e)
    with buf_step_fault [OF Cons.prems(1) _ Inl] Cons.prems have
      "x # xs = [] @ x # xs \<and> foldR buf_step b [] = Inr b \<and> wf_buf b \<and> fault b x e" by simp
    with Inl show ?thesis by (simp del: append.simps foldR.simps(1)) blast
  next
    case (Inr b1)
    with buf_step_wf [OF Cons.prems(1) _ Inr] Cons.prems(2) Cons.IH [of b1] have
      IH: "case foldR buf_step b1 xs of
        Inl e \<Rightarrow> \<exists>us y ys c. xs = us @ y # ys \<and> foldR buf_step b1 us = Inr c \<and> wf_buf c \<and> fault c y e
      | Inr b' \<Rightarrow> wf_buf b'" by simp
    show ?thesis
    proof (cases "foldR buf_step b1 xs")
      case inner: (Inl e)
      with IH obtain us y ys c where "xs = us @ y # ys" "foldR buf_step b1 us = Inr c" "wf_buf c" "fault c y e"
        by auto
      then have "x # xs = (x # us) @ y # ys \<and> foldR buf_step b (x # us) = Inr c \<and> wf_buf c \<and> fault c y e"
        using Inr by simp
      then have "\<exists>us y ys c. x # xs = us @ y # ys \<and> foldR buf_step b us = Inr c \<and> wf_buf c \<and> fault c y e"
        by blast
      with Inr inner show ?thesis by simp
    next
      case inner: (Inr b')
      with IH Inr show ?thesis by simp
    qed
  qed
qed

section \<open>Properties of the buffer\<close>

text \<open>Evaluation of the operations on concrete buffers.\<close>

lemmas buf_eval = append_bytes_def ensureWritableBytes_def numeral_3_eq_3 store_at_tail_def
  mem_write_def mem_read_def peek_bytes_def peek_def beginWrite_def readableBytes_def writableBytes_def
  move_to_front_def std_copy_def read_bytes_def retrieve_def retrieveAll_def vec_resize_def
  shift_overlaps_def addInFront_def contents_def wf_buf_def fits_def grown_length_def
  MsgBuffer_new_def append_buf_def szadd_def szmul_def szsub_def Let_def

text \<open>A run through the reading and the writing operations, and one that takes the eight reserved
  bytes and then has to shift eight readable bytes by one.\<close>

definition example_buf8 :: "nat \<Rightarrow> nat \<Rightarrow> byte list \<Rightarrow> msgbuf" where
  "example_buf8 h n d = \<lparr>mb_head = h, mb_initCap = 8, mb_buffer = d @ replicate (16 - length d) (CHR 0x00),
     mb_tail = h + n\<rparr>"

definition example_buf_run :: "buf_op list" where
  "example_buf_run = [OpAppend ''hello'', OpRead 3, OpAddInFront ''ab'', OpUnwrite 2, OpRetrieve 1]"

definition overlapping_run :: "buf_op list" where
  "overlapping_run = [OpAddInFront ''01234567'', OpAddInFront ''x'', OpRetrieveAll]"

text \<open>
  C21: memory safety of \<^verbatim>\<open>MsgBuffer\<close>. Take any sequence of the operations of the class on a
  buffer constructed with a capacity of at least eight bytes, with arguments no larger than
  an object can be, answers of \<^verbatim>\<open>readv\<close> within the room it was given, and \<^verbatim>\<open>readFd\<close> only
  while that room is below 2 GiB. The mutual recursion of \<^verbatim>\<open>ensureWritableBytes\<close> and
  \<^verbatim>\<open>append\<close> ends and no read or write leaves the vector: the run ends in a well-formed buffer,
  or at the first operation that cannot be carried out, and then every earlier one left a
  well-formed buffer and this one is an operation that allocates (\<^verbatim>\<open>std::length_error\<close>,
  \<^verbatim>\<open>std::bad_alloc\<close>), a \<^verbatim>\<open>hasWritten\<close> or \<^verbatim>\<open>unwrite\<close> that asks for more than there is (failed
  assertion), or an \<^verbatim>\<open>addInFront\<close> whose shift to the right overlaps the readable bytes, which
  \<^verbatim>\<open>std::copy\<close> does not allow (undefined behaviour). \<^verbatim>\<open>retrieve\<close>, \<^verbatim>\<open>retrieveAll\<close> and \<^verbatim>\<open>read\<close>
  never fail.
\<close>

theorem buffer_memory_safe:
  assumes "MsgBuffer_new len = Inr b" "kBufferOffset \<le> len" "len \<le> vec_max" "ops_ok b ops"
  shows "case foldR buf_step b ops of
      Inl e \<Rightarrow> \<exists>xs x ys c. ops = xs @ x # ys \<and> foldR buf_step b xs = Inr c \<and> wf_buf c \<and> fault c x e
    | Inr b' \<Rightarrow> wf_buf b'"
  using run_ops_safe [OF MsgBuffer_new_wf(1) [OF assms(1-3)] assms(4)] .

lemma example_buf_append:
  "buf_step (example_buf8 8 0 []) (OpAppend ''hello'') = Inr (example_buf8 8 5 (replicate 8 (CHR 0x00) @ ''hello''))"
  by (simp add: example_buf8_def buf_eval unwrite_def assertR_def)

lemma example_buf_read:
  "buf_step (example_buf8 8 5 (replicate 8 (CHR 0x00) @ ''hello'')) (OpRead 3) = Inr (example_buf8 11 2 (replicate 8 (CHR 0x00) @ ''hello''))"
  by (simp add: example_buf8_def buf_eval unwrite_def assertR_def)

lemma example_buf_front:
  "buf_step (example_buf8 11 2 (replicate 8 (CHR 0x00) @ ''hello'')) (OpAddInFront ''ab'') = Inr (example_buf8 9 4 (replicate 8 (CHR 0x00) @ ''hablo''))"
  by (simp add: example_buf8_def buf_eval unwrite_def assertR_def)

lemma example_buf_unwrite:
  "buf_step (example_buf8 9 4 (replicate 8 (CHR 0x00) @ ''hablo'')) (OpUnwrite 2) = Inr (example_buf8 9 2 (replicate 8 (CHR 0x00) @ ''hablo''))"
  by (simp add: example_buf8_def buf_eval unwrite_def assertR_def)

lemma example_buf_retrieve:
  "buf_step (example_buf8 9 2 (replicate 8 (CHR 0x00) @ ''hablo'')) (OpRetrieve (Suc 0)) = Inr (example_buf8 10 (Suc 0) (replicate 8 (CHR 0x00) @ ''hablo''))"
  by (simp add: example_buf8_def buf_eval unwrite_def assertR_def)

lemma example_buf_contents:
  "contents (example_buf8 10 (Suc 0) (replicate 8 (CHR 0x00) @ ''hablo'')) = ''b''"
  by (simp add: example_buf8_def buf_eval unwrite_def assertR_def)

lemma example_buf_prefix:
  "buf_step (example_buf8 8 0 []) (OpAddInFront ''01234567'') = Inr (example_buf8 0 8 ''01234567'')"
  by (simp add: example_buf8_def buf_eval unwrite_def assertR_def)

lemma example_buf_fails:
  "buf_step (example_buf8 0 8 ''01234567'') (OpAddInFront ''x'') = Inl OverlapCopy"
  by (simp add: example_buf8_def buf_eval unwrite_def assertR_def)

lemmas example_buf_eval = example_buf_append example_buf_read example_buf_front example_buf_unwrite
  example_buf_retrieve example_buf_contents example_buf_prefix example_buf_fails

lemma example_buf_runs:
  "ops_ok (example_buf8 8 0 []) example_buf_run" "ops_ok (example_buf8 8 0 []) overlapping_run"
  "\<exists>b'. foldR buf_step (example_buf8 8 0 []) example_buf_run = Inr b' \<and> contents b' = ''b''"
  "foldR buf_step (example_buf8 8 0 []) overlapping_run = Inl OverlapCopy"
  by (simp_all add: example_buf_run_def overlapping_run_def example_buf_eval del: buf_step.simps)

theorem buffer_memory_safe_witness:
  "(\<exists>b'. foldR buf_step (example_buf8 8 0 []) example_buf_run = Inr b' \<and> wf_buf b' \<and> contents b' = ''b'') \<and>
   (\<exists>xs x ys c. overlapping_run = xs @ x # ys \<and> foldR buf_step (example_buf8 8 0 []) xs = Inr c \<and> wf_buf c \<and>
      fault c x OverlapCopy)"
proof -
  have new: "MsgBuffer_new 8 = Inr (example_buf8 8 0 [])" by (simp add: MsgBuffer_new_Inr example_buf8_def)
  from example_buf_runs(3) obtain b' where
    b': "foldR buf_step (example_buf8 8 0 []) example_buf_run = Inr b'" "contents b' = ''b''" by blast
  with buffer_memory_safe [OF new _ _ example_buf_runs(1)] have "wf_buf b'" by simp
  moreover from buffer_memory_safe [OF new _ _ example_buf_runs(2)] example_buf_runs(4)
  have "\<exists>xs x ys c. overlapping_run = xs @ x # ys \<and> foldR buf_step (example_buf8 8 0 []) xs = Inr c \<and> wf_buf c \<and>
      fault c x OverlapCopy" by simp
  ultimately show ?thesis using b' by blast
qed

text \<open>
  \<^verbatim>\<open>append\<close> implements the append of the abstract byte queue. When the enlarged
  vector fits into memory the call returns, the buffer stays well-formed and its readable
  bytes are the old ones followed by the new ones, whichever of the three ways (free
  tail, move to the front, new vector) it took.
\<close>

theorem append_refines:
  assumes "wf_buf b" "fits b (length d)"
  shows "\<exists>b'. append_bytes b d = Inr b' \<and> wf_buf b' \<and> contents b' = contents b @ d"
proof -
  from append_bytes_total [OF assms] obtain b' where "append_bytes b d = Inr b'" ..
  moreover from assms(2) have "length d \<le> vec_max" by (simp add: fits_def)
  ultimately show ?thesis using append_bytes_ok [OF assms(1)] by blast
qed

definition example_buf :: msgbuf where
  "example_buf = \<lparr>mb_head = 10, mb_initCap = 8, mb_buffer = ''0123456789abcdef'', mb_tail = 14\<rparr>"

lemma example_buf_wf: "wf_buf example_buf" "contents example_buf = ''abcd''" "fits example_buf 100"
  by (simp_all add: example_buf_def buf_eval)

theorem append_refines_witness:
  "\<exists>b'. append_bytes example_buf ''XYZ'' = Inr b' \<and> wf_buf b' \<and> contents b' = ''abcdXYZ''"
proof -
  have "fits example_buf (length ''XYZ'')" by (simp add: example_buf_def fits_def)
  from append_refines [OF example_buf_wf(1) this] example_buf_wf(2) show ?thesis by simp
qed

text \<open>
  integers survive the wire. After any of \<^verbatim>\<open>appendInt8\<close>, \<^verbatim>\<open>appendInt16\<close>,
  \<^verbatim>\<open>appendInt32\<close> and \<^verbatim>\<open>appendInt64\<close> on an empty buffer, the matching read returns the
  same integer and leaves the buffer empty, for every integer of the width.
\<close>

theorem int_wire_roundtrip:
  assumes "wf_buf b" "contents b = []" "fits b 8"
  shows "(\<exists>b'. bindR (appendInt8 b xb) readInt8 = Inr (xb, b') \<and> contents b' = []) \<and>
         (\<exists>b'. bindR (appendInt16 b xh) readInt16 = Inr (xh, b') \<and> contents b' = []) \<and>
         (\<exists>b'. bindR (appendInt32 b xw) readInt32 = Inr (xw, b') \<and> contents b' = []) \<and>
         (\<exists>b'. bindR (appendInt64 b xd) readInt64 = Inr (xd, b') \<and> contents b' = [])"
proof -
  have a: "\<exists>c. append_bytes b d = Inr c \<and> wf_buf c \<and> contents c = d" if "length d \<le> 8" for d
  proof -
    from that assms(3) have "fits b (length d)" "length d \<le> vec_max" by (simp_all add: fits_def)
    with append_bytes_total [OF assms(1)] append_bytes_ok [OF assms(1)] assms(2) show ?thesis by fastforce
  qed
  obtain c1 where 1: "append_bytes b (le_bytes 1 (unat xb)) = Inr c1" "wf_buf c1"
      "contents c1 = le_bytes 1 (unat xb) @ []" using a [of "le_bytes 1 (unat xb)"] by auto
  obtain c2 where 2: "append_bytes b (rev (le_bytes 2 (unat xh))) = Inr c2" "wf_buf c2"
      "contents c2 = rev (le_bytes 2 (unat xh)) @ []" using a [of "rev (le_bytes 2 (unat xh))"] by auto
  obtain c4 where 4: "append_bytes b (rev (le_bytes 4 (unat xw))) = Inr c4" "wf_buf c4"
      "contents c4 = rev (le_bytes 4 (unat xw)) @ []" using a [of "rev (le_bytes 4 (unat xw))"] by auto
  obtain c8 where 8: "append_bytes b (rev (le_bytes 8 (unat xd))) = Inr c8" "wf_buf c8"
      "contents c8 = rev (le_bytes 8 (unat xd)) @ []" using a [of "rev (le_bytes 8 (unat xd))"] by auto
  note reads = readInt_ok(1) [OF 1(2,3)] readInt_ok(2) [OF 2(2,3)] readInt_ok(3) [OF 4(2,3)] readInt_ok(4) [OF 8(2,3)]
  show ?thesis
    unfolding appendInt8_def appendInt16_def appendInt32_def appendInt64_def le_bytes_hton
      1(1) 2(1) 4(1) 8(1) bindR_simps using reads by blast
qed

theorem int_wire_roundtrip_witness:
  "\<exists>b'. bindR (appendInt32 \<lparr>mb_head = 8, mb_initCap = 8, mb_buffer = replicate 16 (CHR 0x00), mb_tail = 8\<rparr>
           0xDEADBEEF) readInt32 = Inr (0xDEADBEEF, b') \<and> contents b' = []"
proof -
  let ?b = "\<lparr>mb_head = 8, mb_initCap = 8, mb_buffer = replicate 16 (CHR 0x00), mb_tail = 8\<rparr>"
  have "wf_buf ?b" "contents ?b = []" "fits ?b 8" by (simp_all add: buf_eval)
  from int_wire_roundtrip [OF this, where xw = "0xDEADBEEF"] show ?thesis by blast
qed

text \<open>
  C23: \<^verbatim>\<open>readFd\<close> delivers what the kernel delivered. For a buffer with less than two
  gigabytes of free tail and any answer of \<^verbatim>\<open>readv\<close> within the room it was given, the
  readable bytes are the old ones followed by all bytes read, including those that first
  went to the stack buffer, and the count is returned.
\<close>

theorem readFd_delivers:
  assumes "wf_buf b" "writableBytes b < 2147483648" "length ds \<le> readv_capacity (writableBytes b)"
    and "readFd b (ReadData ds) = Inr (n, e, b')"
  shows "n = int (length ds) \<and> e = None \<and> wf_buf b' \<and> contents b' = contents b @ ds"
  using readFd_ok [OF assms] .

theorem readFd_delivers_witness:
  "\<exists>n e b'. readFd example_buf (ReadData ''WXYZ'') = Inr (n, e, b') \<and>
     n = 4 \<and> e = None \<and> wf_buf b' \<and> contents b' = ''abcdWXYZ''"
proof -
  have w: "writableBytes example_buf = 2" using example_buf_wf(1) by (simp add: example_buf_def)
  then have h: "writableBytes example_buf < 2147483648"
    "length ''WXYZ'' \<le> readv_capacity (writableBytes example_buf)"
    by (simp_all add: readv_capacity_def)
  let ?c = "\<lparr>mb_head = 10, mb_initCap = 8, mb_buffer = ''0123456789abcdWX'', mb_tail = 16\<rparr>"
  have "wf_buf ?c" "fits ?c (length ''YZ'')" by (simp_all add: wf_buf_def fits_def)
  from append_bytes_total [OF this] obtain b' where "append_bytes ?c ''YZ'' = Inr b'" ..
  then have r: "readFd example_buf (ReadData ''WXYZ'') = Inr (4, None, b')"
    by (simp add: readFd_def w Let_def) (simp add: example_buf_def mem_write_def eval_nat_numeral)
  from readFd_delivers [OF example_buf_wf(1) h r] example_buf_wf(2) r show ?thesis by simp
qed

text \<open>
  reading up to the first line end. \<^verbatim>\<open>findCRLF\<close> finds the first CRLF among the
  readable bytes, and \<^verbatim>\<open>readUntil\<close> that position followed by \<^verbatim>\<open>retrieve(2)\<close> returns the
  bytes before it and leaves exactly the bytes behind it.
\<close>

theorem read_line_first:
  assumes "wf_buf b" "search CRLF (contents b) = Some k"
  shows "findCRLF b = Inr (Some (peek b + k)) \<and>
     (\<exists>b'. bindR (readUntil b (peek b + k)) (\<lambda>(s, b1). bindR (retrieve b1 2) (\<lambda>b2. Inr (s, b2))) =
        Inr (take k (contents b), b') \<and> wf_buf b' \<and> contents b' = drop (k + 2) (contents b))"
proof
  show "findCRLF b = Inr (Some (peek b + k))"
    using assms by (simp add: findCRLF_def find_bytes_wf CRLF_def)
  have "k \<le> length (contents b)" using search_bound [OF assms(2)] by simp
  from readUntil_ok [OF assms(1) this] obtain b1 where b1:
    "readUntil b (peek b + k) = Inr (take k (contents b), b1)" "wf_buf b1"
    "contents b1 = drop k (contents b)" by metis
  from retrieve_ok [OF b1(2), of 2] obtain b2 where
    "retrieve b1 2 = Inr b2" "wf_buf b2" "contents b2 = drop 2 (contents b1)" by metis
  with b1 show "\<exists>b'. bindR (readUntil b (peek b + k)) (\<lambda>(s, b1). bindR (retrieve b1 2) (\<lambda>b2. Inr (s, b2))) =
        Inr (take k (contents b), b') \<and> wf_buf b' \<and> contents b' = drop (k + 2) (contents b)"
    by (simp add: add.commute)
qed

theorem read_line_first_witness:
  "\<exists>b'. bindR (readUntil \<lparr>mb_head = 1, mb_initCap = 8, mb_buffer = ''_ab'' @ CRLF @ ''cde'', mb_tail = 8\<rparr> 3)
       (\<lambda>(s, b1). bindR (retrieve b1 2) (\<lambda>b2. Inr (s, b2))) = Inr (''ab'', b') \<and> contents b' = ''cde''"
proof -
  let ?b = "\<lparr>mb_head = 1, mb_initCap = 8, mb_buffer = ''_ab'' @ CRLF @ ''cde'', mb_tail = 8\<rparr>"
  have w: "wf_buf ?b" and c: "contents ?b = ''ab'' @ CRLF @ ''cde''"
    by (simp_all add: wf_buf_def contents_def CRLF_def)
  have s: "search CRLF (contents ?b) = Some 2"
    unfolding c by (simp add: search.simps CRLF_def)
  from read_line_first [OF w s] c show ?thesis by (auto simp: peek_def CRLF_def eval_nat_numeral)
qed

text \<open>
  \<^verbatim>\<open>addInFront\<close> puts bytes before the readable ones, in place when the free prefix
  is large enough, by shifting or by a new buffer otherwise, as long as the shift does not
  overlap itself.
\<close>

theorem addInFront_prepends:
  assumes "wf_buf b" "length d \<le> vec_max" "\<not> shift_overlaps b (length d)" "addInFront b d = Inr b'"
  shows "wf_buf b' \<and> contents b' = d @ contents b"
  using addInFront_ok [OF assms] .

theorem addInFront_prepends_witness:
  "\<exists>b'. addInFront example_buf ''0xABCDEF'' = Inr b' \<and> contents b' = ''0xABCDEFabcd''"
proof -
  have s: "\<not> shift_overlaps example_buf (length ''0xABCDEF'')"
    by (simp add: shift_overlaps_def example_buf_def)
  from addInFront_prefix [OF example_buf_wf(1), of "''0xABCDEF''"] obtain b' where
    b': "addInFront example_buf ''0xABCDEF'' = Inr b'" by (auto simp: example_buf_def)
  from addInFront_prepends [OF example_buf_wf(1) _ s b'] example_buf_wf(2) b' show ?thesis by simp
qed

text \<open>
  a capacity below eight bytes breaks the class. After \<^verbatim>\<open>retrieveAll\<close> on such a
  buffer the write position lies behind the end of the vector, the count of writable bytes
  wraps around to almost \<open>2 ^ 64\<close>, and the next \<^verbatim>\<open>append\<close> writes outside the vector.
\<close>

theorem small_capacity_overflows:
  assumes "len < kBufferOffset" "MsgBuffer_new len = Inr b"
  shows "\<exists>b'. retrieveAll b = Inr b' \<and> writableBytes b' = size_max + 1 - (kBufferOffset - len) \<and>
     append_bytes b' ''x'' = Inl OutOfBounds"
proof -
  have b: "b = \<lparr>mb_head = kBufferOffset, mb_initCap = len,
         mb_buffer = replicate (len + kBufferOffset) (CHR 0x00), mb_tail = kBufferOffset\<rparr>"
    using assms by (simp add: MsgBuffer_new_Inr)
  let ?c = "b\<lparr>mb_buffer := replicate len (CHR 0x00), mb_tail := kBufferOffset, mb_head := kBufferOffset\<rparr>"
  have "retrieveAll b = Inr ?c"
    using assms(1) by (simp add: retrieveAll_def b vec_resize_Inr)
  moreover have w: "writableBytes ?c = size_max + 1 - (kBufferOffset - len)"
    using assms(1) by (simp add: writableBytes_def b szsub_wraps)
  moreover have "1 \<le> writableBytes ?c" unfolding w using assms(1) by simp
  then have "ensureWritableBytes ?c 1 = Inr ?c"
    by (simp only: ensureWritableBytes_def numeral_3_eq_3 ensureWritable_depth.simps(2) if_True)
  then have "append_bytes ?c ''x'' = store_at_tail ''x'' ?c"
    by (simp add: append_bytes_def)
  then have "append_bytes ?c ''x'' = Inl OutOfBounds"
    using assms(1) by (simp add: store_at_tail_def mem_write_def b)
  ultimately show ?thesis by blast
qed

theorem small_capacity_overflows_witness:
  "\<exists>b'. retrieveAll \<lparr>mb_head = 8, mb_initCap = 4, mb_buffer = replicate 12 (CHR 0x00), mb_tail = 8\<rparr> = Inr b' \<and>
     append_bytes b' ''x'' = Inl OutOfBounds"
proof -
  have "MsgBuffer_new 4 =
      Inr \<lparr>mb_head = 8, mb_initCap = 4, mb_buffer = replicate 12 (CHR 0x00), mb_tail = 8\<rparr>"
    by (simp add: MsgBuffer_new_Inr)
  from small_capacity_overflows [OF _ this] show ?thesis by auto
qed

end
