(* ===== verification/Utilities.thy ===== *)
theory Utilities
  imports Cooper_Prelude "HOL-Library.Sublist"
begin

text \<open>
  The string helpers of \<^verbatim>\<open>cooper/util/Utilities.cpp\<close> and \<^verbatim>\<open>cooper/util/Funcs.hpp\<close>: the
  host name check of TLS, trimming and splitting, the check of request paths, the content
  type of a file name, and the parameters of a Content-Disposition header. Loops over
  indices are recursive functions on the index. The lemmas relate the loops to
  reference definitions on lists and show that the path check admits no path that leaves
  the directory it is resolved in.
\<close>

unbundle bit_operations_syntax

section \<open>Host names of certificates\<close>

text \<open>\<^verbatim>\<open>std::string::find\<close> of a character; \<open>None\<close> is \<^verbatim>\<open>npos\<close>.\<close>

fun find_char :: "char \<Rightarrow> string \<Rightarrow> nat option" where
  "find_char c [] = None"
| "find_char c (x # xs) = (if x = c then Some 0 else map_option Suc (find_char c xs))"

definition substr :: "string \<Rightarrow> nat \<Rightarrow> nat \<Rightarrow> string" where
  "substr s pos len = take len (drop pos s)"

text \<open>The loop of the second branch: compare backwards until one of the names is used up.
  \<open>h\<close> is \<^verbatim>\<open>hostnameIdx + 1\<close>.\<close>

fun star_suffix_loop :: "string \<Rightarrow> string \<Rightarrow> nat \<Rightarrow> nat \<Rightarrow> bool" where
  "star_suffix_loop certName hostname h certNameIdx =
     (if h = 0 \<or> certNameIdx = 0 then certNameIdx = 0
      else if hostname ! (h - 1) \<noteq> certName ! certNameIdx then False
      else star_suffix_loop certName hostname (h - 1) (certNameIdx - 1))"

text \<open>The forward loop up to the star, and the backward loop down to the star.\<close>

function star_prefix_loop :: "string \<Rightarrow> string \<Rightarrow> nat \<Rightarrow> nat \<Rightarrow> nat \<Rightarrow> bool" where
  "star_prefix_loop certName hostname hostFirstDot firstDot i =
     (if i < hostFirstDot \<and> i < firstDot \<and> certName ! i \<noteq> CHR ''*''
      then (if hostname ! i \<noteq> certName ! i then False
            else star_prefix_loop certName hostname hostFirstDot firstDot (Suc i))
      else True)"
  by pat_completeness auto
termination
  by (relation "measure (\<lambda>(_, _, hostFirstDot, _, i). hostFirstDot - i)") auto

function star_middle_loop :: "string \<Rightarrow> string \<Rightarrow> nat \<Rightarrow> nat \<Rightarrow> bool" where
  "star_middle_loop certName hostname h c =
     (if 0 < h \<and> 0 < c \<and> certName ! (c - 1) \<noteq> CHR ''*''
      then (if hostname ! (h - 1) \<noteq> certName ! (c - 1) then False
            else star_middle_loop certName hostname (h - 1) (c - 1))
      else True)"
  by pat_completeness auto
termination
  by (relation "measure (\<lambda>(_, _, h, _). h)") auto

declare star_suffix_loop.simps [simp del] star_prefix_loop.simps [simp del] star_middle_loop.simps [simp del]

definition verifySslName :: "string \<Rightarrow> string \<Rightarrow> bool" where
  "verifySslName certName hostname =
     (if find_char CHR ''*'' certName = None then certName = hostname
      else
        (let (firstDot, pos) = (case find_char CHR ''.'' certName of
               Some d \<Rightarrow> (d, Suc d) | None \<Rightarrow> (length certName, length certName));
             len = length certName - pos;
             (hostFirstDot, hostPos) = (case find_char CHR ''.'' hostname of
               Some d \<Rightarrow> (d, Suc d) | None \<Rightarrow> (length hostname, length hostname));
             hostLen = length hostname - hostPos
         in
         if substr certName 0 firstDot = ''*''
         then substr certName pos len = substr hostname hostPos hostLen
         else if certName ! 0 = CHR ''*''
         then star_suffix_loop certName hostname (length hostname) (length certName - 1)
         else if firstDot \<noteq> 0 \<and> certName ! (firstDot - 1) = CHR ''*''
         then (if substr certName pos len \<noteq> substr hostname hostPos hostLen then False
               else star_prefix_loop certName hostname hostFirstDot firstDot 0)
         else (if substr certName pos len \<noteq> substr hostname hostPos hostLen then False
               else if \<not> star_prefix_loop certName hostname hostFirstDot firstDot 0 then False
               else star_middle_loop certName hostname hostFirstDot firstDot)))"

section \<open>Hexadecimal output\<close>

definition hex_digit :: "nat \<Rightarrow> char" where
  "hex_digit n = ''0123456789ABCDEF'' ! n"

definition toHexString :: "byte list \<Rightarrow> string" where
  "toHexString ds = concat (map (\<lambda>c. [hex_digit (of_char c div 16), hex_digit (of_char c mod 16)]) ds)"

section \<open>Trimming and splitting\<close>

definition isSpaceOrTab :: "char \<Rightarrow> bool" where
  "isSpaceOrTab c \<longleftrightarrow> c = CHR '' '' \<or> c = CHR 0x09"

function trim_left :: "string \<Rightarrow> nat \<Rightarrow> nat" where
  "trim_left s left =
     (if left < length s \<and> isSpaceOrTab (s ! left) then trim_left s (Suc left) else left)"
  by pat_completeness auto
termination
  by (relation "measure (\<lambda>(s, left). length s - left)") auto

fun trim_right :: "string \<Rightarrow> nat \<Rightarrow> nat" where
  "trim_right s 0 = 0"
| "trim_right s (Suc r) = (if isSpaceOrTab (s ! r) then trim_right s r else Suc r)"

declare trim_left.simps [simp del]

definition trim :: "string \<Rightarrow> nat \<Rightarrow> nat \<Rightarrow> nat \<times> nat" where
  "trim s left right = (trim_left s left, trim_right s right)"

text \<open>The pieces for which \<^verbatim>\<open>split\<close> calls its function argument, in order. \<open>piece\<close> is the
  body shared by the loop and the code behind it.\<close>

definition piece :: "string \<Rightarrow> nat \<Rightarrow> nat \<Rightarrow> string list" where
  "piece s beg i = (let (l, r) = trim s beg i in if l < r then [substr s l (r - l)] else [])"

function split_loop :: "string \<Rightarrow> char \<Rightarrow> nat \<Rightarrow> nat \<Rightarrow> string list" where
  "split_loop s d i beg =
     (if i < length s
      then (if s ! i = d then piece s beg i @ split_loop s d (Suc i) (Suc i)
            else split_loop s d (Suc i) beg)
      else (if i \<noteq> 0 then piece s beg i else []))"
  by pat_completeness auto
termination
  by (relation "measure (\<lambda>(s, d, i, beg). length s - i)") auto

declare split_loop.simps [simp del]

definition split :: "string \<Rightarrow> char \<Rightarrow> string list" where
  "split s d = split_loop s d 0 0"

definition trimCopy :: "string \<Rightarrow> string" where
  "trimCopy s = (let (l, r) = trim s 0 (length s) in substr s l (szsub r l))"

definition trimDoubleQuotesCopy :: "string \<Rightarrow> string" where
  "trimDoubleQuotesCopy s =
     (if length s \<ge> 2 \<and> hd s = CHR 0x22 \<and> last s = CHR 0x22 then substr s 1 (length s - 2) else s)"

text \<open>\<^verbatim>\<open>parseDispositionParams\<close>: the pairs in the order in which they are emplaced into the
  multimap; a piece already seen is skipped.\<close>

fun key_value :: "string list \<Rightarrow> string \<times> string \<Rightarrow> string \<times> string" where
  "key_value [] kv = kv"
| "key_value (p # ps) (k, v) = (if k = [] then key_value ps (p, v) else key_value ps (k, p))"

fun disposition_loop :: "string list \<Rightarrow> string list \<Rightarrow> (string \<times> string) list" where
  "disposition_loop cache [] = []"
| "disposition_loop cache (kv # rest) =
     (if kv \<in> set cache then disposition_loop cache rest
      else (let (key, val) = key_value (split kv CHR ''='') ([], []) in
            (if key \<noteq> [] then [(trimDoubleQuotesCopy key, trimDoubleQuotesCopy val)] else [])
             @ disposition_loop (kv # cache) rest))"

definition parseDispositionParams :: "string \<Rightarrow> (string \<times> string) list" where
  "parseDispositionParams s = disposition_loop [] (split s CHR '';'')"

section \<open>Request paths\<close>

text \<open>
  \<^verbatim>\<open>isValidPath\<close>: the argument \<open>rest\<close> is the part of the path from index \<^verbatim>\<open>i\<close> on, at the
  head of the outer loop; the inner loops read a component and skip slashes.
\<close>

function valid_loop :: "nat \<Rightarrow> string \<Rightarrow> bool result" where
  "valid_loop level rest =
     (if rest = [] then Inr True
      else
        (let comp = takeWhile (\<lambda>c. c \<noteq> CHR ''/'') rest;
             rest' = dropWhile (\<lambda>c. c = CHR ''/'') (dropWhile (\<lambda>c. c \<noteq> CHR ''/'') rest)
         in
         if comp = [] then Inl AssertFail
         else if comp = ''.'' then valid_loop level rest'
         else if comp = ''..'' then (if level = 0 then Inr False else valid_loop (level - 1) rest')
         else valid_loop (Suc level) rest'))"
  by pat_completeness auto
termination
proof (relation "measure (\<lambda>(level, rest). length rest)")
  have *: "length (dropWhile (\<lambda>c. c = CHR ''/'') (dropWhile (\<lambda>c. c \<noteq> CHR ''/'') rest)) < length rest"
    if "takeWhile (\<lambda>c. c \<noteq> CHR ''/'') rest \<noteq> []" for rest :: string
  proof -
    have "length rest = length (takeWhile (\<lambda>c. c \<noteq> CHR ''/'') rest) + length (dropWhile (\<lambda>c. c \<noteq> CHR ''/'') rest)"
      by (metis length_append takeWhile_dropWhile_id)
    with that length_dropWhile_le [of "\<lambda>c. c = CHR ''/''" "dropWhile (\<lambda>c. c \<noteq> CHR ''/'') rest"]
    show ?thesis by (metis add_strict_increasing length_greater_0_conv)
  qed
  fix level :: nat and rest comp rest' :: string
  assume "comp = takeWhile (\<lambda>c. c \<noteq> CHR ''/'') rest"
    and "rest' = dropWhile (\<lambda>c. c = CHR ''/'') (dropWhile (\<lambda>c. c \<noteq> CHR ''/'') rest)"
    and "comp \<noteq> []"
  with * show "((level, rest'), level, rest) \<in> measure (\<lambda>(level, rest). length rest)"
    "((level - 1, rest'), level, rest) \<in> measure (\<lambda>(level, rest). length rest)"
    "((Suc level, rest'), level, rest) \<in> measure (\<lambda>(level, rest). length rest)"
    by simp_all
qed simp

declare valid_loop.simps [simp del]

definition isValidPath :: "string \<Rightarrow> bool result" where
  "isValidPath path = valid_loop 0 (dropWhile (\<lambda>c. c = CHR ''/'') path)"

section \<open>Content types\<close>

text \<open>The match of the regular expression \<^verbatim>\<open>\.([a-zA-Z0-9]+)$\<close>.\<close>

definition is_alnum :: "char \<Rightarrow> bool" where
  "is_alnum c \<longleftrightarrow> (let n = of_char c :: nat in
     48 \<le> n \<and> n \<le> 57 \<or> 65 \<le> n \<and> n \<le> 90 \<or> 97 \<le> n \<and> n \<le> 122)"

definition fileExtension :: "string \<Rightarrow> string" where
  "fileExtension path =
     (let ext = rev (takeWhile is_alnum (rev path)); before = dropWhile is_alnum (rev path)
      in if ext \<noteq> [] \<and> before \<noteq> [] \<and> hd before = CHR ''.'' then ext else [])"

fun str2tagCore :: "string \<Rightarrow> u32 \<Rightarrow> u32" where
  "str2tagCore [] h = h"
| "str2tagCore (c # cs) h = str2tagCore cs (((drop_bit 6 (- 1)) AND (h * 33)) XOR of_char c)"

definition str2tag :: "string \<Rightarrow> u32" where
  "str2tag s = str2tagCore s 0"

definition content_types :: "(string \<times> string) list" where
  "content_types =
    [(''css'', ''text/css''), (''csv'', ''text/csv''), (''htm'', ''text/html''), (''html'', ''text/html''),
     (''js'', ''text/javascript''), (''mjs'', ''text/javascript''), (''txt'', ''text/plain''),
     (''vtt'', ''text/vtt''), (''apng'', ''image/apng''), (''avif'', ''image/avif''),
     (''bmp'', ''image/bmp''), (''gif'', ''image/gif''), (''png'', ''image/png''),
     (''svg'', ''image/svg+xml''), (''webp'', ''image/webp''), (''ico'', ''image/x-icon''),
     (''tif'', ''image/tiff''), (''tiff'', ''image/tiff''), (''jpg'', ''image/jpeg''),
     (''jpeg'', ''image/jpeg''), (''mp4'', ''video/mp4''), (''mpeg'', ''video/mpeg''),
     (''webm'', ''video/webm''), (''mp3'', ''audio/mp3''), (''mpga'', ''audio/mpeg''),
     (''weba'', ''audio/webm''), (''wav'', ''audio/wave''), (''otf'', ''font/otf''),
     (''ttf'', ''font/ttf''), (''woff'', ''font/woff''), (''woff2'', ''font/woff2''),
     (''7z'', ''application/x-7z-compressed''), (''atom'', ''application/atom+xml''),
     (''pdf'', ''application/pdf''), (''json'', ''application/json''), (''rss'', ''application/rss+xml''),
     (''tar'', ''application/x-tar''), (''xht'', ''application/xhtml+xml''),
     (''xhtml'', ''application/xhtml+xml''), (''xslt'', ''application/xslt+xml''),
     (''xml'', ''application/xml''), (''gz'', ''application/gzip''), (''zip'', ''application/zip''),
     (''wasm'', ''application/wasm'')]"

definition findContentType :: "string \<Rightarrow> string" where
  "findContentType path =
     (let tag = str2tag (fileExtension path) in
      case List.find (\<lambda>(ext, ty). str2tag ext = tag) content_types of
        Some (ext, ty) \<Rightarrow> ty
      | None \<Rightarrow> ''application/octet-stream'')"

section \<open>Splitting on a delimiter string\<close>

text \<open>\<^verbatim>\<open>s.find(delimiter, last)\<close> and the loop of \<^verbatim>\<open>splitString\<close>.\<close>

fun find_str :: "string \<Rightarrow> string \<Rightarrow> nat option" where
  "find_str pat s =
     (if take (length pat) s = pat then Some 0
      else case s of [] \<Rightarrow> None | _ # s' \<Rightarrow> map_option Suc (find_str pat s'))"

declare find_str.simps [simp del]

lemma find_str_le: "find_str pat s = Some i \<Longrightarrow> i + length pat \<le> length s"
proof (induction s arbitrary: i)
  case Nil
  then show ?case by (auto simp: find_str.simps [of pat "[]"] split: if_splits)
next
  case (Cons c s)
  have len: "take (length pat) (c # s) = pat \<Longrightarrow> length pat \<le> Suc (length s)"
    by (metis length_Cons length_take min.cobounded1)
  from Cons len show ?case
    by (auto simp: find_str.simps [of pat "c # s"] split: if_splits)
qed

function splitString_loop :: "string \<Rightarrow> string \<Rightarrow> bool \<Rightarrow> nat \<Rightarrow> string list" where
  "splitString_loop s delimiter acceptEmpty beg =
     (case (if delimiter = [] then None else find_str delimiter (drop beg s)) of
        Some k \<Rightarrow> (let nxt = beg + k in
                  (if nxt > beg \<or> acceptEmpty then [substr s beg (nxt - beg)] else [])
                   @ splitString_loop s delimiter acceptEmpty (nxt + length delimiter))
      | None \<Rightarrow> (if length s > beg \<or> acceptEmpty then [drop beg s] else []))"
  by pat_completeness auto
termination
proof (relation "measure (\<lambda>(s, d, a, beg). length s - beg)")
  fix s delimiter :: string and a :: bool and beg k nxt :: nat
  assume "(if delimiter = [] then None else find_str delimiter (drop beg s)) = Some k" "nxt = beg + k"
  then have "delimiter \<noteq> []" "k + length delimiter \<le> length s - beg"
    by (auto split: if_splits dest: find_str_le)
  then show "((s, delimiter, a, nxt + length delimiter), s, delimiter, a, beg)
      \<in> measure (\<lambda>(s, d, a, beg). length s - beg)"
    using \<open>nxt = beg + k\<close> by (cases delimiter) auto
qed simp

declare splitString_loop.simps [simp del]

definition splitString :: "string \<Rightarrow> string \<Rightarrow> bool \<Rightarrow> string list" where
  "splitString s delimiter acceptEmpty =
     (if delimiter = [] then [] else splitString_loop s delimiter acceptEmpty 0)"

section \<open>Reference definitions\<close>

text \<open>Cutting at a delimiter character, and cutting blanks from both ends.\<close>

fun split_on :: "char \<Rightarrow> string \<Rightarrow> string list" where
  "split_on d [] = [[]]"
| "split_on d (c # cs) =
     (if c = d then [] # split_on d cs
      else (case split_on d cs of [] \<Rightarrow> [[c]] | p # ps \<Rightarrow> (c # p) # ps))"

definition strip :: "string \<Rightarrow> string" where
  "strip s = dropWhile isSpaceOrTab (rev (dropWhile isSpaceOrTab (rev s)))"

text \<open>Resolving a path relative to a directory: the stack of the names entered so far, innermost
  first; \<open>None\<close> when a component leaves the directory.\<close>

fun resolve :: "string list \<Rightarrow> string list \<Rightarrow> string list option" where
  "resolve st [] = Some st"
| "resolve st (c # cs) =
     (if c = ''.'' then resolve st cs
      else if c = ''..'' then (case st of [] \<Rightarrow> None | _ # st' \<Rightarrow> resolve st' cs)
      else resolve (c # st) cs)"

definition path_components :: "string \<Rightarrow> string list" where
  "path_components p = filter (\<lambda>c. c \<noteq> []) (split_on CHR ''/'' p)"

section \<open>Lemmas on searching and splitting\<close>

lemma find_char_None: "find_char c s = None \<longleftrightarrow> c \<notin> set s"
  by (induction s) auto

lemma find_char_Some: "find_char c s = Some i \<longleftrightarrow>
    i < length s \<and> s ! i = c \<and> c \<notin> set (take i s)"
proof (induction s arbitrary: i)
  case (Cons x s)
  then show ?case by (cases i) auto
qed simp

lemma find_char_append: "c \<notin> set l \<Longrightarrow> find_char c (l @ c # r) = Some (length l)"
  by (induction l) auto

lemma trim_left_eq: "trim_left s i = i + length (takeWhile isSpaceOrTab (drop i s))"
proof (induction s i rule: trim_left.induct)
  case (1 s i)
  show ?case
  proof (cases "i < length s")
    case True
    then have "drop i s = s ! i # drop (Suc i) s" by (simp add: Cons_nth_drop_Suc)
    with 1 True show ?thesis by (subst trim_left.simps) simp
  qed (subst trim_left.simps, simp)
qed

lemma trim_right_eq: "i \<le> length s \<Longrightarrow> trim_right s i = length (dropWhile isSpaceOrTab (rev (take i s)))"
  by (induction s i rule: trim_right.induct) (simp_all add: take_Suc_conv_app_nth)

lemma strip_alt: "strip w = drop (length (takeWhile isSpaceOrTab w))
    (take (length (dropWhile isSpaceOrTab (rev w))) w)"
proof -
  define v where "v = rev (dropWhile isSpaceOrTab (rev w))"
  define b where "b = rev (takeWhile isSpaceOrTab (rev w))"
  have w: "w = v @ b"
    unfolding v_def b_def by (metis rev_append rev_rev_ident takeWhile_dropWhile_id)
  have b: "\<forall>c \<in> set b. isSpaceOrTab c" unfolding b_def by (auto dest: set_takeWhileD)
  have v: "v = [] \<or> \<not> (\<forall>c \<in> set v. isSpaceOrTab c)"
    unfolding v_def by (metis hd_dropWhile last_in_set last_rev rev_is_Nil_conv)
  have take: "take (length (dropWhile isSpaceOrTab (rev w))) w = v"
    by (metis append_eq_conv_conj length_rev v_def w)
  show ?thesis
  proof (cases "v = []")
    case True
    then show ?thesis unfolding take by (simp add: strip_def flip: v_def)
  next
    case False
    with v have "takeWhile isSpaceOrTab w = takeWhile isSpaceOrTab v"
      unfolding w by (metis takeWhile_append1)
    with take show ?thesis
      unfolding strip_def v_def [symmetric] by (simp add: dropWhile_eq_drop)
  qed
qed

lemma piece_strip:
  assumes s: "s = a @ w @ z"
  shows "piece s (length a) (length a + length w) = (if strip w = [] then [] else [strip w])"
proof -
  let ?l = "length (takeWhile isSpaceOrTab w)" and ?r = "length (dropWhile isSpaceOrTab (rev w))"
  let ?L = "length (takeWhile isSpaceOrTab (w @ z))" and ?R = "length (dropWhile isSpaceOrTab (rev w @ rev a))"
  have tl: "trim_left s (length a) = length a + ?L" by (simp add: trim_left_eq s)
  have tr: "trim_right s (length a + length w) = ?R" by (simp add: trim_right_eq s)
  show ?thesis
  proof (cases "\<forall>c \<in> set w. isSpaceOrTab c")
    case True
    have "length w \<le> ?L" using True by (simp add: takeWhile_append)
    moreover have "?R \<le> length a"
      using True length_dropWhile_le [of isSpaceOrTab "rev a"] by (simp add: dropWhile_append)
    moreover have "strip w = []" using True by (simp add: strip_alt takeWhile_eq_all_conv [THEN iffD2])
    ultimately show ?thesis by (simp add: piece_def trim_def tl tr)
  next
    case False
    then have lr: "?L = ?l" "?R = length a + ?r"
      by (auto simp: takeWhile_append dropWhile_append)
    have rw: "?r \<le> length w" by (metis length_dropWhile_le length_rev)
    have "strip w = drop ?l (take ?r w)" by (rule strip_alt)
    moreover have "substr s (length a + ?l) (?r - ?l) = drop ?l (take ?r w)" if "?l < ?r"
      using that rw by (simp add: substr_def s drop_take)
    ultimately show ?thesis using rw by (auto simp: piece_def trim_def tl tr lr)
  qed
qed

lemma split_on_not_Nil [simp]: "split_on d s \<noteq> []"
  by (induction s) (auto split: list.splits)

lemma split_on_append: "d \<notin> set w \<Longrightarrow> split_on d (w @ d # s) = w # split_on d s"
  by (induction w) auto

lemma split_on_single: "d \<notin> set w \<Longrightarrow> split_on d w = [w]"
  by (induction w) auto

lemma split_loop_eq:
  assumes "s = a @ w @ z" "d \<notin> set w"
  shows "split_loop s d (length a + length w) (length a)
       = filter (\<lambda>p. p \<noteq> []) (map strip (split_on d (w @ z)))"
  using assms
proof (induction z arbitrary: a w)
  case Nil
  then show ?case
    using piece_strip [OF Nil.prems(1)]
    by (subst split_loop.simps) (auto simp: split_on_single strip_def)
next
  case (Cons c z)
  let ?i = "length a + length w"
  have i: "?i < length s" "s ! ?i = c" using Cons.prems(1) by (simp_all add: nth_append)
  show ?case
  proof (cases "c = d")
    case True
    note p = piece_strip [OF Cons.prems(1)]
    have "split_loop s d (Suc ?i) (Suc ?i) = filter (\<lambda>p. p \<noteq> []) (map strip (split_on d z))"
      using Cons.IH [of "a @ w @ [c]" "[]"] Cons.prems by simp
    with i p True Cons.prems(2) show ?thesis
      by (subst split_loop.simps) (simp add: split_on_append)
  next
    case False
    then have "split_loop s d (Suc ?i) (length a)
        = filter (\<lambda>p. p \<noteq> []) (map strip (split_on d (w @ c # z)))"
      using Cons.IH [of a "w @ [c]"] Cons.prems by simp
    with i False show ?thesis by (subst split_loop.simps) simp
  qed
qed

lemma split_eq: "split s d = filter (\<lambda>p. p \<noteq> []) (map strip (split_on d s))"
  using split_loop_eq [of s "[]" "[]" s d] by (simp add: split_def)

section \<open>Lemmas on request paths\<close>

lemma path_components_slash [simp]: "path_components (CHR ''/'' # s) = path_components s"
  by (simp add: path_components_def)

lemma path_components_Nil [simp]: "path_components [] = []"
  by (simp add: path_components_def)

lemma path_components_skip [simp]:
  "path_components (dropWhile (\<lambda>c. c = CHR ''/'') s) = path_components s"
  by (induction s) auto

lemma path_components_comp:
  assumes "w \<noteq> []" "CHR ''/'' \<notin> set w" "z = [] \<or> hd z = CHR ''/''"
  shows "path_components (w @ z) = w # path_components z"
proof (cases z)
  case Nil
  with assms show ?thesis by (simp add: path_components_def split_on_single)
next
  case (Cons c z')
  with assms show ?thesis by (simp add: path_components_def split_on_append)
qed

lemma valid_loop_resolve:
  assumes "rest = [] \<or> hd rest \<noteq> CHR ''/''"
  shows "valid_loop (length st) rest = Inr (resolve st (path_components rest) \<noteq> None)"
  using assms
proof (induction "length rest" arbitrary: rest st rule: less_induct)
  case less
  show ?case
  proof (cases "rest = []")
    case True
    then show ?thesis by (simp add: valid_loop.simps)
  next
    case False
    define w where "w = takeWhile (\<lambda>c. c \<noteq> CHR ''/'') rest"
    define z where "z = dropWhile (\<lambda>c. c \<noteq> CHR ''/'') rest"
    define r where "r = dropWhile (\<lambda>c. c = CHR ''/'') z"
    have rest: "rest = w @ z" by (simp add: w_def z_def)
    have w: "w \<noteq> []" "CHR ''/'' \<notin> set w"
      using less.prems False by (cases rest; auto simp: w_def dest: set_takeWhileD)+
    have z: "z = [] \<or> hd z = CHR ''/''"
      unfolding z_def using dropWhile_stops [of "\<lambda>c. c \<noteq> CHR ''/''" rest] by simp
    have pc: "path_components rest = w # path_components r"
      unfolding rest path_components_comp [OF w z] r_def by simp
    have len: "length r < length rest"
      using w(1) length_dropWhile_le [of "\<lambda>c. c = CHR ''/''" z] unfolding r_def rest
      by (cases w) auto
    have r: "r = [] \<or> hd r \<noteq> CHR ''/''" unfolding r_def by (rule dropWhile_stops)
    have IH: "valid_loop (length t) r = Inr (resolve t (path_components r) \<noteq> None)" for t
      by (rule less.hyps [OF len r])
    have "valid_loop (length st) rest =
      (if w = ''.'' then valid_loop (length st) r
       else if w = ''..'' then (if length st = 0 then Inr False else valid_loop (length st - 1) r)
       else valid_loop (Suc (length st)) r)"
      using False w(1) by (subst valid_loop.simps) (simp add: Let_def flip: w_def z_def r_def)
    with IH [of st] IH [of "tl st"] IH [of "w # st"] show ?thesis
      unfolding pc by (cases st) auto
  qed
qed

text \<open>
  C31: the check of request paths is exact and safe. \<^verbatim>\<open>isValidPath\<close> returns for every path (its
  assertion never fails) and accepts a path precisely when resolving its components one by
  one never climbs out of the directory the path is relative to.
\<close>

theorem isValidPath_safe:
  "isValidPath p = Inr (resolve [] (path_components p) \<noteq> None)"
proof -
  have "dropWhile (\<lambda>c. c = CHR ''/'') p = [] \<or> hd (dropWhile (\<lambda>c. c = CHR ''/'') p) \<noteq> CHR ''/''"
    by (rule dropWhile_stops)
  from valid_loop_resolve [OF this, of "[]"] show ?thesis by (simp add: isValidPath_def)
qed

text \<open>
  \<^verbatim>\<open>split\<close> calls its function exactly on the non-empty pieces between delimiters, with
  spaces and tabs cut off at both ends, in order. This also holds for a blank delimiter, as in
  the request line, although the index loops of \<^verbatim>\<open>trim\<close> then run past the ends of the piece.
\<close>

theorem split_spec: "split s d = filter (\<lambda>p. p \<noteq> []) (map strip (split_on d s))"
  by (rule split_eq)

section \<open>Lemmas on host names\<close>

lemma star_suffix_loop_eq:
  "k \<le> length w \<Longrightarrow> h \<le> length host \<Longrightarrow>
   star_suffix_loop (c # w) host h k = suffix (take k w) (take h host)"
proof (induction "c # w" host h k rule: star_suffix_loop.induct)
  case (1 hostname h k)
  show ?case
  proof (cases "h = 0 \<or> k = 0")
    case True
    with "1.prems" show ?thesis by (subst star_suffix_loop.simps) (auto simp: suffix_bot.extremum_unique)
  next
    case False
    then obtain h' k' where hk: "h = Suc h'" "k = Suc k'" by (metis not0_implies_Suc)
    have "take k w = take k' w @ [w ! k']" "take h hostname = take h' hostname @ [hostname ! h']"
      using "1.prems" hk by (simp_all add: take_Suc_conv_app_nth)
    with "1.hyps" [OF False] "1.prems" hk show ?thesis
      by (subst star_suffix_loop.simps) auto
  qed
qed

lemma star_prefix_loop_eq:
  assumes "n \<le> F" "c ! n = CHR ''*''" "\<And>j. j < n \<Longrightarrow> c ! j \<noteq> CHR ''*''" "i \<le> n"
  shows "star_prefix_loop c h H F i \<longleftrightarrow> (\<forall>j. i \<le> j \<and> j < H \<and> j < n \<longrightarrow> h ! j = c ! j)"
  using assms
proof (induction c h H F i rule: star_prefix_loop.induct)
  case (1 c h H F i)
  show ?case
  proof (cases "i < H \<and> i < n")
    case True
    have "(\<forall>j. i \<le> j \<and> j < H \<and> j < n \<longrightarrow> h ! j = c ! j) \<longleftrightarrow>
        h ! i = c ! i \<and> (\<forall>j. Suc i \<le> j \<and> j < H \<and> j < n \<longrightarrow> h ! j = c ! j)"
      using True by (metis Suc_le_eq le_eq_less_or_eq)
    with "1.IH" "1.prems" True show ?thesis by (subst star_prefix_loop.simps) auto
  next
    case False
    with "1.prems" have "\<not> (i < H \<and> i < F \<and> c ! i \<noteq> CHR ''*'')" by (cases "i = n") auto
    with False show ?thesis by (subst star_prefix_loop.simps) auto
  qed
qed

lemma all_Suc_conv: "(\<forall>j. j < Suc m \<and> j < Suc n \<longrightarrow> P j) \<longleftrightarrow> P 0 \<and> (\<forall>j. j < m \<and> j < n \<longrightarrow> P (Suc j))"
  by (metis Suc_less_eq not0_implies_Suc zero_less_Suc)

lemma agree_iff_prefix:
  "(\<forall>j. j < length l \<and> j < length p \<longrightarrow> l ! j = p ! j) \<longleftrightarrow> prefix l p \<or> prefix p l"
proof (induction l arbitrary: p)
  case (Cons a l)
  show ?case
  proof (cases p)
    case p: (Cons b q)
    show ?thesis unfolding p length_Cons all_Suc_conv using Cons.IH [of q] by auto
  qed simp
qed simp

lemma host_label_cases:
  "(\<exists>l. CHR ''.'' \<notin> set l \<and> host = l @ CHR ''.'' # rest) \<longleftrightarrow>
   (\<exists>d. find_char CHR ''.'' host = Some d \<and> drop (Suc d) host = rest)"
proof
  assume "\<exists>l. CHR ''.'' \<notin> set l \<and> host = l @ CHR ''.'' # rest"
  then show "\<exists>d. find_char CHR ''.'' host = Some d \<and> drop (Suc d) host = rest"
    by (auto simp: find_char_append)
next
  assume "\<exists>d. find_char CHR ''.'' host = Some d \<and> drop (Suc d) host = rest"
  then obtain d where "find_char CHR ''.'' host = Some d" "drop (Suc d) host = rest" by blast
  then have "CHR ''.'' \<notin> set (take d host)" "host = take d host @ CHR ''.'' # rest"
    by (auto simp: find_char_Some dest: id_take_nth_drop)
  then show "\<exists>l. CHR ''.'' \<notin> set l \<and> host = l @ CHR ''.'' # rest" by blast
qed


lemma verifySslName_exact: "CHR ''*'' \<notin> set certName \<Longrightarrow> verifySslName certName host = (certName = host)"
  by (simp add: verifySslName_def find_char_None)

lemma verifySslName_label:
  "verifySslName (''*.'' @ rest) host \<longleftrightarrow>
     (\<exists>l. CHR ''.'' \<notin> set l \<and> host = l @ CHR ''.'' # rest) \<or> CHR ''.'' \<notin> set host \<and> rest = []"
proof (cases "find_char CHR ''.'' host")
  case None
  moreover from this have "CHR ''.'' \<notin> set host" by (simp add: find_char_None)
  ultimately show ?thesis
    unfolding host_label_cases by (auto simp: verifySslName_def substr_def)
next
  case (Some d)
  moreover from this have "CHR ''.'' \<in> set host" by (metis find_char_Some nth_mem)
  ultimately show ?thesis
    unfolding host_label_cases by (auto simp: verifySslName_def substr_def)
qed

lemma verifySslName_suffix:
  assumes "w \<noteq> []" "hd w \<noteq> CHR ''.''"
  shows "verifySslName (CHR ''*'' # w) host \<longleftrightarrow> suffix w host"
proof -
  have "substr (CHR ''*'' # w) 0 d \<noteq> ''*''"
    if "find_char CHR ''.'' (CHR ''*'' # w) = Some d" for d
    using that assms by (cases w) (auto simp: substr_def split: if_splits)
  moreover have "substr (CHR ''*'' # w) 0 (Suc (length w)) \<noteq> ''*''"
    using assms by (simp add: substr_def)
  moreover have "star_suffix_loop (CHR ''*'' # w) host (length host) (length w) \<longleftrightarrow> suffix w host"
    by (simp add: star_suffix_loop_eq)
  ultimately show ?thesis
    by (auto simp: verifySslName_def Let_def split: option.splits)
qed

lemma verifySslName_partial:
  assumes p: "p \<noteq> []" "CHR ''*'' \<notin> set p" "CHR ''.'' \<notin> set p" and l: "CHR ''.'' \<notin> set l"
  shows "verifySslName (p @ ''*.'' @ rest) (l @ CHR ''.'' # rest) \<longleftrightarrow> prefix l p \<or> prefix p l"
proof -
  let ?c = "p @ ''*.'' @ rest" and ?h = "l @ CHR ''.'' # rest"
  have c: "find_char CHR ''.'' ?c = Some (Suc (length p))"
    using find_char_append [of "CHR ''.''" "p @ ''*''" rest] p(3) by simp
  have h: "find_char CHR ''.'' ?h = Some (length l)" using l by (simp add: find_char_append)
  have star: "find_char CHR ''*'' ?c \<noteq> None" by (simp add: find_char_None)
  have first: "substr ?c 0 (Suc (length p)) \<noteq> ''*''" using p(1) by (simp add: substr_def)
  have hd: "?c ! 0 \<noteq> CHR ''*''" using p(1,2) by (cases p) auto
  have last: "?c ! length p = CHR ''*''" by (simp add: nth_append)
  have tails: "substr ?c (Suc (Suc (length p))) (length rest) = rest"
    "substr ?h (Suc (length l)) (length rest) = rest"
    by (simp_all add: substr_def)
  have "star_prefix_loop ?c ?h (length l) (Suc (length p)) 0 \<longleftrightarrow>
      (\<forall>j. 0 \<le> j \<and> j < length l \<and> j < length p \<longrightarrow> ?h ! j = ?c ! j)"
    by (rule star_prefix_loop_eq) (use p last in \<open>auto simp: nth_append dest: nth_mem\<close>)
  also have "\<dots> \<longleftrightarrow> (\<forall>j. j < length l \<and> j < length p \<longrightarrow> l ! j = p ! j)"
    by (auto simp: nth_append)
  finally have loop: "star_prefix_loop ?c ?h (length l) (Suc (length p)) 0 \<longleftrightarrow> prefix l p \<or> prefix p l"
    by (simp add: agree_iff_prefix)
  show ?thesis
    unfolding verifySslName_def using star c h first hd last tails loop by (auto simp: Let_def)
qed

text \<open>
  C32: the host name check for certificates accepts what a wildcard certificate is for. A name
  without a star is compared literally; \<^verbatim>\<open>*.rest\<close> matches exactly the hosts with one
  label (without a dot) in front of \<^verbatim>\<open>.rest\<close>; a star followed by other characters
  matches exactly the hosts that end with these characters.
\<close>

theorem verifySslName_spec:
  "(CHR ''*'' \<notin> set certName \<longrightarrow> (verifySslName certName host \<longleftrightarrow> certName = host)) \<and>
   (rest \<noteq> [] \<longrightarrow> (verifySslName (''*.'' @ rest) host \<longleftrightarrow>
      (\<exists>l. CHR ''.'' \<notin> set l \<and> host = l @ ''.'' @ rest))) \<and>
   (w \<noteq> [] \<and> hd w \<noteq> CHR ''.'' \<longrightarrow> (verifySslName (CHR ''*'' # w) host \<longleftrightarrow> suffix w host))"
  by (simp add: verifySslName_exact verifySslName_label [simplified] verifySslName_suffix)

theorem verifySslName_spec_witness:
  "verifySslName ''a.b'' ''a.b'' \<and> \<not> verifySslName ''*.ex.com'' ''a.b.ex.com'' \<and>
   verifySslName ''*b.com'' ''www.ab.com''"
  using verifySslName_spec [of "''a.b''" "''a.b''" "''ex.com''" "''b.com''"]
    verifySslName_spec [of "''a.b''" "''a.b.ex.com''" "''ex.com''" "''b.com''"]
    verifySslName_spec [of "''a.b''" "''www.ab.com''" "''ex.com''" "''b.com''"]
  by (auto simp: append_eq_Cons_conv Cons_eq_append_conv suffix_def)

text \<open>
  with a star behind other characters of the first label, as in \<^verbatim>\<open>foo*.example.com\<close>, the
  check accepts every host whose first label and the text before the star agree as far as
  both go: also a host label that is only a proper prefix of that text, such as
  \<^verbatim>\<open>f.example.com\<close>, which the certificate does not name.
\<close>

theorem verifySslName_short_label:
  assumes "p \<noteq> []" "CHR ''*'' \<notin> set p" "CHR ''.'' \<notin> set p" "CHR ''.'' \<notin> set l"
  shows "verifySslName (p @ ''*.'' @ rest) (l @ ''.'' @ rest) \<longleftrightarrow> prefix l p \<or> prefix p l"
  using verifySslName_partial [OF assms] by simp

theorem verifySslName_short_label_witness:
  "verifySslName ''foo*.example.com'' ''f.example.com''"
  using verifySslName_short_label [of "''foo''" "''f''" "''example.com''"] by simp

section \<open>Content types of file names\<close>

lemma fileExtension_append:
  assumes "ext \<noteq> []" "\<forall>c \<in> set ext. is_alnum c"
  shows "fileExtension (base @ ''.'' @ ext) = ext"
proof -
  have "\<not> is_alnum CHR ''.''" by (simp add: is_alnum_def)
  then have "takeWhile is_alnum (rev ext @ CHR ''.'' # rev base) = rev ext"
    "dropWhile is_alnum (rev ext @ CHR ''.'' # rev base) = CHR ''.'' # rev base"
    using assms(2) by (auto simp: takeWhile_append dropWhile_append takeWhile_eq_all_conv [THEN iffD2])
  with assms(1) show ?thesis by (simp add: fileExtension_def)
qed

lemma content_types_alnum: "\<forall>(ext, ty) \<in> set content_types. ext \<noteq> [] \<and> (\<forall>c \<in> set ext. is_alnum c)"
  by (simp add: content_types_def is_alnum_def)

lemma mask26: "mask 26 = (67108863 :: u32)"
  by (simp add: mask_eq_exp_minus_1)

lemma content_types_tags_distinct: "distinct (map (\<lambda>(ext, ty). str2tag ext) content_types)"
  by (simp add: content_types_def str2tag_def mask26)

lemma find_key_unique:
  "distinct (map f xs) \<Longrightarrow> x \<in> set xs \<Longrightarrow> List.find (\<lambda>y. f y = f x) xs = Some x"
  by (induction xs) auto

text \<open>
  every extension that \<^verbatim>\<open>findContentType\<close> lists gets its own content type: the hash of the
  extension tells all listed extensions apart, so that no case label shadows another, and the
  extension of a file name is the part behind its last dot.
\<close>

theorem findContentType_listed:
  assumes "(ext, ty) \<in> set content_types"
  shows "findContentType (base @ ''.'' @ ext) = ty"
proof -
  have "fileExtension (base @ ''.'' @ ext) = ext"
    using assms content_types_alnum by (intro fileExtension_append) auto
  then show ?thesis
    using find_key_unique [OF content_types_tags_distinct assms]
    by (simp add: findContentType_def case_prod_unfold)
qed

theorem findContentType_listed_witness:
  "findContentType ''www/index.v2.html'' = ''text/html''"
  using findContentType_listed [of "''html''" "''text/html''" "''www/index.v2''"]
  by (simp add: content_types_def)


section \<open>Splitting on a delimiter string: lemmas\<close>

fun join :: "string \<Rightarrow> string list \<Rightarrow> string" where
  "join d [] = []"
| "join d [p] = p"
| "join d (p # q # ps) = p @ d @ join d (q # ps)"

lemma find_str_None: "find_str pat s = None \<Longrightarrow> \<not> sublist pat s"
proof (induction s)
  case Nil
  then show ?case by (auto simp: find_str.simps [of pat "[]"] split: if_splits)
next
  case (Cons c s)
  from Cons.prems have "take (length pat) (c # s) \<noteq> pat" "find_str pat s = None"
    by (auto simp: find_str.simps [of pat "c # s"] split: if_splits)
  with Cons.IH show ?case by (auto simp: sublist_Cons_right prefix_def)
qed

lemma find_str_Some:
  "find_str pat s = Some i \<Longrightarrow> s = take i s @ pat @ drop (i + length pat) s \<and>
     (pat \<noteq> [] \<longrightarrow> \<not> sublist pat (take i s))"
proof (induction s arbitrary: i)
  case Nil
  then show ?case by (auto simp: find_str.simps [of pat "[]"] split: if_splits)
next
  case (Cons c s)
  show ?case
  proof (cases "take (length pat) (c # s) = pat")
    case True
    with Cons.prems have "i = 0" by (simp add: find_str.simps [of pat "c # s"])
    with True show ?thesis by (metis append_take_drop_id drop0 sublist_Nil_right take0 append_Nil add_0)
  next
    case False
    with Cons.prems obtain j where j: "find_str pat s = Some j" "i = Suc j"
      by (auto simp: find_str.simps [of pat "c # s"])
    have "\<not> prefix pat (c # take j s)"
    proof
      assume "prefix pat (c # take j s)"
      then obtain r where "c # take j s = pat @ r" by (auto simp: prefix_def)
      then have "c # s = pat @ r @ drop j s"
        by (metis append.assoc append_Cons append_take_drop_id)
      with False show False by simp
    qed
    with Cons.IH [OF j(1)] j(2) show ?thesis by (auto simp: sublist_Cons_right)
  qed
qed

lemma splitString_loop_spec:
  assumes "d \<noteq> []" "beg \<le> length s"
  shows "splitString_loop s d True beg \<noteq> [] \<and> join d (splitString_loop s d True beg) = drop beg s \<and>
         (\<forall>p \<in> set (splitString_loop s d True beg). \<not> sublist d p) \<and>
         splitString_loop s d False beg = filter (\<lambda>p. p \<noteq> []) (splitString_loop s d True beg)"
  using assms
proof (induction s d True beg rule: splitString_loop.induct)
  case (1 s d beg)
  show ?case
  proof (cases "find_str d (drop beg s)")
    case None
    with 1 have "splitString_loop s d True beg = [drop beg s]"
      "splitString_loop s d False beg = (if beg < length s then [drop beg s] else [])"
      by (subst splitString_loop.simps, simp)+
    with find_str_None [OF None] show ?thesis by simp
  next
    case (Some k)
    let ?n = "beg + k + length d"
    note fs = find_str_Some [OF Some] and le = find_str_le [OF Some]
    have eq: "splitString_loop s d True beg = take k (drop beg s) # splitString_loop s d True ?n"
      "splitString_loop s d False beg =
         (if 0 < k then [take k (drop beg s)] else []) @ splitString_loop s d False ?n"
      using 1 Some by (subst splitString_loop.simps, simp add: substr_def)+
    have IH: "splitString_loop s d True ?n \<noteq> [] \<and> join d (splitString_loop s d True ?n) = drop ?n s \<and>
         (\<forall>p \<in> set (splitString_loop s d True ?n). \<not> sublist d p) \<and>
         splitString_loop s d False ?n = filter (\<lambda>p. p \<noteq> []) (splitString_loop s d True ?n)"
      using "1.hyps" [of k "beg + k"] Some "1.prems" le by simp
    then have "join d (splitString_loop s d True beg) = take k (drop beg s) @ d @ drop ?n s"
      unfolding eq by (cases "splitString_loop s d True ?n") auto
    also have "\<dots> = drop beg s" using fs by (simp add: ac_simps)
    finally show ?thesis using IH fs le "1.prems" by (auto simp: eq)
  qed
qed

text \<open>
  \<^verbatim>\<open>splitString\<close> cuts at the delimiter and loses nothing. Keeping empty pieces, the pieces
  joined with the delimiter are the string again and no piece contains the delimiter; without
  empty pieces the result is the same list with the empty ones left out.
\<close>

theorem splitString_roundtrip:
  assumes "d \<noteq> []"
  shows "join d (splitString s d True) = s \<and> (\<forall>p \<in> set (splitString s d True). \<not> sublist d p) \<and>
         splitString s d False = filter (\<lambda>p. p \<noteq> []) (splitString s d True)"
  using splitString_loop_spec [of d 0 s] assms by (simp add: splitString_def)

theorem splitString_roundtrip_witness:
  "join '', '' (splitString ''a, , b'' '', '' True) = ''a, , b''"
  using splitString_roundtrip [of "'', ''" "''a, , b''"] by simp


lemma find_str_single:
  "find_str [c] [] = None" "find_str [c] (x # s) = (if x = c then Some 0 else map_option Suc (find_str [c] s))"
  by (auto simp: find_str.simps [of "[c]" "[]"] find_str.simps [of "[c]" "x # s"])

lemma find_str_char: "c \<notin> set p \<Longrightarrow> find_str [c] (p @ c # r) = Some (length p)"
  by (induction p) (auto simp: find_str_single)

lemma find_str_no_char: "c \<notin> set p \<Longrightarrow> find_str [c] p = None"
  by (induction p) (auto simp: find_str_single)

text \<open>Pieces without the delimiter, joined with it, are what \<^verbatim>\<open>splitString\<close> returns.\<close>

lemma splitString_loop_join:
  assumes "ps \<noteq> []" "\<forall>p \<in> set ps. c \<notin> set p \<and> p \<noteq> []"
  shows "splitString_loop (pre @ join [c] ps) [c] False (length pre) = ps"
  using assms
proof (induction ps arbitrary: pre rule: induct_list012)
  case (2 p)
  then show ?case by (subst splitString_loop.simps) (simp add: find_str_no_char)
next
  case (3 p q ps)
  have "splitString_loop (pre @ join [c] (p # q # ps)) [c] False (length pre) =
        p # splitString_loop ((pre @ p @ [c]) @ join [c] (q # ps)) [c] False (length (pre @ p @ [c]))"
    using 3(4) by (subst splitString_loop.simps) (simp add: find_str_char substr_def)
  also have "\<dots> = p # q # ps" using 3(2) [of "pre @ p @ [c]"] 3(4) by simp
  finally show ?case .
qed simp

lemma splitString_join:
  assumes "ps \<noteq> []" "\<forall>p \<in> set ps. c \<notin> set p \<and> p \<noteq> []"
  shows "splitString (join [c] ps) [c] False = ps"
  using splitString_loop_join [OF assms, of "[]"] by (simp add: splitString_def)

lemma join_not: "c \<notin> set (join [d] ps) \<longleftrightarrow> (\<forall>p \<in> set ps. c \<notin> set p) \<and> (c = d \<longrightarrow> length ps \<le> 1)"
  by (induction ps rule: induct_list012) auto

end
