(* ===== verification/LockFreeQueue.thy ===== *)
theory LockFreeQueue
  imports Cooper_Prelude "HOL-Library.Sublist"
begin

text \<open>
  The multiple-producer single-consumer queue of \<^verbatim>\<open>cooper/util/LockFreeQueue.hpp\<close>. Nodes live in
  an explicit memory that maps addresses to nodes; an access to a freed address is the error
  \<^const>\<open>OutOfBounds\<close>. The atomic accesses of \<^verbatim>\<open>enqueue\<close> and \<^verbatim>\<open>dequeue\<close> are separate
  definitions; \<open>exec\<close> interleaves those of any number of producers with those of the consumer.
  An invariant over the reachable states shows that no access touches freed memory and that
  items leave in the order of the exchanges on \<^verbatim>\<open>head_\<close>. Used by one thread the queue is an
  ordinary queue: the locale \<open>task_queue\<close> states that contract for its clients.
\<close>

section \<open>The queue\<close>

record 'a node =
  nd_data :: "'a option"
  nd_next :: "nat option"

text \<open>\<open>mq_brk\<close> is the allocator's: no address from it on is in use.\<close>

record 'a mpsc =
  mq_mem :: "nat \<Rightarrow> 'a node option"
  mq_head :: nat
  mq_tail :: nat
  mq_brk :: nat

definition mpsc_new :: "'a mpsc" where
  "mpsc_new = \<lparr>mq_mem = [0 \<mapsto> \<lparr>nd_data = None, nd_next = None\<rparr>], mq_head = 0, mq_tail = 0, mq_brk = 1\<rparr>"

text \<open>The two atomic writes of \<^verbatim>\<open>enqueue\<close>: the exchange that makes the new node \<open>n\<close> the head and
  yields the previous head, and the store that links the previous head to it.\<close>

definition enq_exchange :: "'a mpsc \<Rightarrow> nat \<Rightarrow> 'a \<Rightarrow> 'a mpsc \<times> nat" where
  "enq_exchange q n v =
     (q\<lparr>mq_mem := (mq_mem q)(n \<mapsto> \<lparr>nd_data = Some v, nd_next = None\<rparr>), mq_head := n,
        mq_brk := max (mq_brk q) (Suc n)\<rparr>, mq_head q)"

definition enq_link :: "'a mpsc \<Rightarrow> nat \<Rightarrow> nat \<Rightarrow> 'a mpsc result" where
  "enq_link q prevhead n =
     (case mq_mem q prevhead of
        None \<Rightarrow> Inl OutOfBounds
      | Some nd \<Rightarrow> Inr (q\<lparr>mq_mem := (mq_mem q)(prevhead \<mapsto> nd\<lparr>nd_next := Some n\<rparr>)\<rparr>))"

definition enqueue :: "'a mpsc \<Rightarrow> 'a \<Rightarrow> 'a mpsc result" where
  "enqueue q v = (let n = mq_brk q; (q', prevhead) = enq_exchange q n v in enq_link q' prevhead n)"

text \<open>\<^verbatim>\<open>dequeue\<close>: the loads of \<^verbatim>\<open>tail_\<close> and of its successor; then taking the data of the
  successor, moving \<^verbatim>\<open>tail_\<close> and deleting the old node.\<close>

definition deq_load :: "'a mpsc \<Rightarrow> (nat \<times> nat option) result" where
  "deq_load q =
     (case mq_mem q (mq_tail q) of
        None \<Rightarrow> Inl OutOfBounds
      | Some nd \<Rightarrow> Inr (mq_tail q, nd_next nd))"

definition deq_commit :: "'a mpsc \<Rightarrow> nat \<Rightarrow> nat \<Rightarrow> ('a \<times> 'a mpsc) result" where
  "deq_commit q tail nx =
     (case mq_mem q nx of
        None \<Rightarrow> Inl OutOfBounds
      | Some nd \<Rightarrow>
          (case nd_data nd of
             None \<Rightarrow> Inl OutOfBounds
           | Some v \<Rightarrow>
               Inr (v, q\<lparr>mq_mem := (mq_mem q)(nx \<mapsto> nd\<lparr>nd_data := None\<rparr>, tail := None), mq_tail := nx\<rparr>)))"

definition dequeue :: "'a mpsc \<Rightarrow> ('a option \<times> 'a mpsc) result" where
  "dequeue q =
     bindR (deq_load q) (\<lambda>(tail, next).
       case next of
         None \<Rightarrow> Inr (None, q)
       | Some nx \<Rightarrow> bindR (deq_commit q tail nx) (\<lambda>(v, q'). Inr (Some v, q')))"

definition queue_empty :: "'a mpsc \<Rightarrow> bool result" where
  "queue_empty q = bindR (deq_load q) (\<lambda>(tail, next). Inr (next = None))"

text \<open>The destructor: dequeue until the queue is empty, then delete the last node.\<close>

partial_function (option) drain :: "'a mpsc \<Rightarrow> 'a mpsc result option" where
  "drain q =
     (case dequeue q of
        Inl e \<Rightarrow> Some (Inl e)
      | Inr (None, q') \<Rightarrow> Some (Inr q')
      | Inr (Some v, q') \<Rightarrow> drain q')"

definition mpsc_destroy :: "'a mpsc \<Rightarrow> 'a mpsc result option" where
  "mpsc_destroy q =
     map_option (\<lambda>r. bindR r (\<lambda>q'. Inr (q'\<lparr>mq_mem := (mq_mem q')(mq_head q' := None)\<rparr>))) (drain q)"

section \<open>Producers and the consumer interleaved\<close>

text \<open>
  A producer between its exchange and its store holds the previous head and its node; the
  consumer between load and commit holds the two addresses it read. \<open>ms_in\<close> and \<open>ms_out\<close> record
  the items in the order of the exchanges and in the order in which they were taken out.
\<close>

record 'a msys =
  ms_q :: "'a mpsc"
  ms_prod :: "nat \<Rightarrow> (nat \<times> nat) option"
  ms_cons :: "(nat \<times> nat) option"
  ms_in :: "'a list"
  ms_out :: "'a list"

datatype 'a mevent = Exchange nat nat 'a | Link nat | Load | Commit

definition msys_init :: "'a msys" where
  "msys_init = \<lparr>ms_q = mpsc_new, ms_prod = (\<lambda>_. None), ms_cons = None, ms_in = [], ms_out = []\<rparr>"

text \<open>\<open>None\<close>: the event cannot happen now; \<open>Some (Inl e)\<close>: it happens and is undefined behaviour.\<close>

fun exec :: "'a mevent \<Rightarrow> 'a msys \<Rightarrow> 'a msys result option" where
  "exec (Exchange t n v) s =
     (if ms_prod s t \<noteq> None \<or> mq_mem (ms_q s) n \<noteq> None then None
      else (let (q', prevhead) = enq_exchange (ms_q s) n v in
            Some (Inr (s\<lparr>ms_q := q', ms_prod := (ms_prod s)(t \<mapsto> (prevhead, n)), ms_in := ms_in s @ [v]\<rparr>))))"
| "exec (Link t) s =
     (case ms_prod s t of
        None \<Rightarrow> None
      | Some (prevhead, n) \<Rightarrow>
          Some (bindR (enq_link (ms_q s) prevhead n) (\<lambda>q'.
            Inr (s\<lparr>ms_q := q', ms_prod := (ms_prod s)(t := None)\<rparr>))))"
| "exec Load s =
     (if ms_cons s \<noteq> None then None
      else Some (bindR (deq_load (ms_q s)) (\<lambda>(tail, next).
             Inr (s\<lparr>ms_cons := map_option (Pair tail) next\<rparr>))))"
| "exec Commit s =
     (case ms_cons s of
        None \<Rightarrow> None
      | Some (tail, nx) \<Rightarrow>
          Some (bindR (deq_commit (ms_q s) tail nx) (\<lambda>(v, q').
            Inr (s\<lparr>ms_q := q', ms_cons := None, ms_out := ms_out s @ [v]\<rparr>))))"

fun run_events :: "'a msys \<Rightarrow> 'a mevent list \<Rightarrow> 'a msys result option" where
  "run_events s [] = Some (Inr s)"
| "run_events s (ev # evs) =
     (case exec ev s of
        None \<Rightarrow> None
      | Some (Inl e) \<Rightarrow> Some (Inl e)
      | Some (Inr s') \<Rightarrow> run_events s' evs)"

inductive mreach :: "'a msys \<Rightarrow> bool" where
  init: "mreach msys_init"
| step: "mreach s \<Longrightarrow> exec ev s = Some (Inr s') \<Longrightarrow> mreach s'"

section \<open>The invariant\<close>

text \<open>
  \<open>ns\<close> lists the addresses of the live nodes from \<^verbatim>\<open>tail_\<close> to \<^verbatim>\<open>head_\<close>. A node is linked to its
  successor, or a producer is about to link it.
\<close>

definition linked :: "(nat \<Rightarrow> 'a node option) \<Rightarrow> nat \<Rightarrow> nat option" where
  "linked m a = Option.bind (m a) nd_next"

definition node_data :: "(nat \<Rightarrow> 'a node option) \<Rightarrow> nat \<Rightarrow> 'a option" where
  "node_data m a = Option.bind (m a) nd_data"

definition chain_ok :: "'a mpsc \<Rightarrow> (nat \<Rightarrow> (nat \<times> nat) option) \<Rightarrow> nat list \<Rightarrow> bool" where
  "chain_ok q pend_of ns \<longleftrightarrow>
     ns \<noteq> [] \<and> distinct ns \<and> hd ns = mq_tail q \<and> last ns = mq_head q \<and>
     dom (mq_mem q) = set ns \<and> linked (mq_mem q) (last ns) = None \<and>
     (\<forall>i. Suc i < length ns \<longrightarrow>
        linked (mq_mem q) (ns ! i) = Some (ns ! Suc i) \<or>
        linked (mq_mem q) (ns ! i) = None \<and> (\<exists>t. pend_of t = Some (ns ! i, ns ! Suc i))) \<and>
     (\<forall>t p n. pend_of t = Some (p, n) \<longrightarrow>
        linked (mq_mem q) p = None \<and> (\<exists>i. Suc i < length ns \<and> p = ns ! i \<and> n = ns ! Suc i)) \<and>
     (\<forall>t t' x. pend_of t = Some x \<longrightarrow> pend_of t' = Some x \<longrightarrow> t = t')"

definition minv :: "'a msys \<Rightarrow> bool" where
  "minv s \<longleftrightarrow> (\<exists>ns. chain_ok (ms_q s) (ms_prod s) ns \<and>
     map Some (ms_in s) = map Some (ms_out s) @ map (node_data (mq_mem (ms_q s))) (tl ns) \<and>
     (\<forall>a b. ms_cons s = Some (a, b) \<longrightarrow> a = mq_tail (ms_q s) \<and> linked (mq_mem (ms_q s)) a = Some b))"

section \<open>The steps on the chain of nodes\<close>

lemma linked_upd [simp]:
  "linked (m(a \<mapsto> nd)) b = (if b = a then nd_next nd else linked m b)"
  "linked (m(a := None)) b = (if b = a then None else linked m b)"
  by (simp_all add: linked_def)

lemma node_data_upd [simp]:
  "node_data (m(a \<mapsto> nd)) b = (if b = a then nd_data nd else node_data m b)"
  "node_data (m(a := None)) b = (if b = a then None else node_data m b)"
  by (simp_all add: node_data_def)

lemma chain_okD:
  assumes "chain_ok q pend_of ns"
  shows "ns \<noteq> []" "distinct ns" "hd ns = mq_tail q" "last ns = mq_head q"
    "dom (mq_mem q) = set ns" "linked (mq_mem q) (last ns) = None"
  using assms unfolding chain_ok_def by blast+

lemma chain_pendD:
  assumes "chain_ok q pend_of ns" "pend_of t = Some (p, n)"
  shows "linked (mq_mem q) p = None" "\<exists>i. Suc i < length ns \<and> p = ns ! i \<and> n = ns ! Suc i"
  using assms unfolding chain_ok_def by blast+

lemma chain_exchange:
  assumes c: "chain_ok q pend_of ns" and t: "pend_of t = None" and n: "mq_mem q n = None"
  shows "chain_ok (fst (enq_exchange q n v)) (pend_of(t \<mapsto> (mq_head q, n))) (ns @ [n])"
proof -
  let ?q = "fst (enq_exchange q n v)" and ?p = "pend_of(t \<mapsto> (mq_head q, n))" and ?l = "length ns - 1"
  note ns = chain_okD [OF c]
  have fresh: "n \<notin> set ns" using n ns(5) by auto
  have lst: "ns ! ?l = mq_head q" "Suc ?l = length ns" using ns(1,4) by (simp_all add: last_conv_nth)
  have mem: "linked (mq_mem ?q) a = linked (mq_mem q) a" if "a \<in> set ns" for a
    using that fresh by (auto simp: enq_exchange_def)
  have links: "linked (mq_mem ?q) ((ns @ [n]) ! i) = Some ((ns @ [n]) ! Suc i) \<or>
      linked (mq_mem ?q) ((ns @ [n]) ! i) = None \<and> (\<exists>t. ?p t = Some ((ns @ [n]) ! i, (ns @ [n]) ! Suc i))"
    if i: "Suc i < length (ns @ [n])" for i
  proof (cases "i = ?l")
    case True
    then have "(ns @ [n]) ! i = mq_head q" "(ns @ [n]) ! Suc i = n"
      using lst i by (auto simp: nth_append)
    moreover have "linked (mq_mem ?q) (mq_head q) = None"
      using ns mem [of "mq_head q"] by (metis last_in_set)
    ultimately show ?thesis by auto
  next
    case False
    with i lst(2) have i': "Suc i < length ns" by simp
    then have at: "(ns @ [n]) ! i = ns ! i" "(ns @ [n]) ! Suc i = ns ! Suc i" by (simp_all add: nth_append)
    from c i' have "linked (mq_mem q) (ns ! i) = Some (ns ! Suc i) \<or>
        linked (mq_mem q) (ns ! i) = None \<and> (\<exists>t. pend_of t = Some (ns ! i, ns ! Suc i))"
      by (simp add: chain_ok_def)
    then show ?thesis unfolding at using mem [of "ns ! i"] i' t
      by (metis Suc_lessD fun_upd_other nth_mem option.distinct(1))
  qed
  have pend: "linked (mq_mem ?q) a = None \<and> (\<exists>i. Suc i < length (ns @ [n]) \<and> a = (ns @ [n]) ! i \<and> b = (ns @ [n]) ! Suc i)"
    if "?p u = Some (a, b)" for u a b
  proof (cases "u = t")
    case True
    with that have ab: "a = mq_head q" "b = n" by simp_all
    have "linked (mq_mem ?q) a = None" using ns mem [of a] ab by (metis last_in_set)
    moreover have "Suc ?l < length (ns @ [n]) \<and> a = (ns @ [n]) ! ?l \<and> b = (ns @ [n]) ! Suc ?l"
      using lst ab by (auto simp: nth_append)
    ultimately show ?thesis by blast
  next
    case False
    with that have "pend_of u = Some (a, b)" by simp
    with chain_pendD [OF c] obtain i
      where i: "Suc i < length ns" "a = ns ! i" "b = ns ! Suc i" "linked (mq_mem q) a = None"
      by metis
    then have "linked (mq_mem ?q) a = None" using mem by (metis Suc_lessD nth_mem)
    moreover have "Suc i < length (ns @ [n]) \<and> a = (ns @ [n]) ! i \<and> b = (ns @ [n]) ! Suc i"
      using i by (simp add: nth_append)
    ultimately show ?thesis by blast
  qed
  have inj: "u = u'" if u: "?p u = Some x" "?p u' = Some x" for u u' x
  proof -
    have "w = t" if "?p w = Some (mq_head q, n)" for w
    proof (rule ccontr)
      assume "w \<noteq> t"
      with that have "pend_of w = Some (mq_head q, n)" by simp
      from chain_pendD(2) [OF c this] obtain i where "Suc i < length ns" "n = ns ! Suc i" by blast
      with fresh show False by simp
    qed
    with u c show ?thesis
      unfolding chain_ok_def by (metis fun_upd_apply option.inject)
  qed
  have base: "dom (mq_mem ?q) = set (ns @ [n])" "linked (mq_mem ?q) (last (ns @ [n])) = None"
    "hd (ns @ [n]) = mq_tail ?q" "last (ns @ [n]) = mq_head ?q" "distinct (ns @ [n])" "ns @ [n] \<noteq> []"
    using ns fresh by (simp_all add: enq_exchange_def)
  show ?thesis
    unfolding chain_ok_def by (intro conjI base allI impI; (rule links | rule pend [THEN conjunct1] |
      rule pend [THEN conjunct2] | rule inj); assumption)
qed

lemma chain_link:
  assumes c: "chain_ok q pend_of ns" and t: "pend_of t = Some (p, n)"
  obtains q' where "enq_link q p n = Inr q'" "chain_ok q' (pend_of(t := None)) ns"
    "node_data (mq_mem q') = node_data (mq_mem q)" "mq_tail q' = mq_tail q"
    "\<And>a b. linked (mq_mem q) a = Some b \<Longrightarrow> linked (mq_mem q') a = Some b"
    "mq_brk q' = mq_brk q" "dom (mq_mem q') = dom (mq_mem q)"
proof -
  from chain_pendD [OF c t] obtain i
    where i: "Suc i < length ns" "p = ns ! i" "n = ns ! Suc i" "linked (mq_mem q) p = None"
    by blast
  with c obtain nd where nd: "mq_mem q p = Some nd" "nd_next nd = None"
    unfolding chain_ok_def linked_def
    by (metis Suc_lessD bind.bind_lunit domD nth_mem)
  define q' where "q' = q\<lparr>mq_mem := (mq_mem q)(p \<mapsto> nd\<lparr>nd_next := Some n\<rparr>)\<rparr>"
  have dist: "distinct ns" using c by (simp add: chain_ok_def)
  have idx: "ns ! j = p \<longleftrightarrow> j = i" if "j < length ns" for j
    using that i dist by (simp add: nth_eq_iff_index_eq)
  have lastp: "last ns \<noteq> p"
    using i dist by (metis One_nat_def Suc_lessD Suc_pred' idx last_conv_nth length_greater_0_conv
        less_irrefl list.size(3) not_less_zero diff_Suc_less)
  have other: "a = b" if "pend_of a = Some (p, m)" "pend_of b = Some (p, m')" for a b m m'
    using that c idx unfolding chain_ok_def by (metis Suc_lessD)
  have "chain_ok q' (pend_of(t := None)) ns"
    unfolding chain_ok_def
  proof (intro conjI allI impI)
    fix j assume j: "Suc j < length ns"
    with c have at: "linked (mq_mem q) (ns ! j) = Some (ns ! Suc j) \<or>
        linked (mq_mem q) (ns ! j) = None \<and> (\<exists>t. pend_of t = Some (ns ! j, ns ! Suc j))"
      unfolding chain_ok_def by blast
    show "linked (mq_mem q') (ns ! j) = Some (ns ! Suc j) \<or>
        linked (mq_mem q') (ns ! j) = None \<and> (\<exists>u. (pend_of(t := None)) u = Some (ns ! j, ns ! Suc j))"
    proof (cases "j = i")
      case False
      then have "linked (mq_mem q') (ns ! j) = linked (mq_mem q) (ns ! j)" "(ns ! j, ns ! Suc j) \<noteq> (p, n)"
        using idx [of j] j by (auto simp: q'_def)
      then show ?thesis using at t by (metis fun_upd_other option.inject)
    qed (use i in \<open>simp add: q'_def\<close>)
  next
    fix u a b assume u: "(pend_of(t := None)) u = Some (a, b)"
    then have u': "u \<noteq> t" "pend_of u = Some (a, b)" by (auto split: if_splits)
    with chain_pendD(1) [OF c] have "linked (mq_mem q) a = None" by blast
    moreover have "a \<noteq> p" using other u' t by blast
    ultimately show "linked (mq_mem q') a = None" by (simp add: q'_def)
    show "\<exists>i. Suc i < length ns \<and> a = ns ! i \<and> b = ns ! Suc i"
      using c u' unfolding chain_ok_def by blast
  next
    fix u u' x assume "(pend_of(t := None)) u = Some x" "(pend_of(t := None)) u' = Some x"
    then show "u = u'" using c unfolding chain_ok_def by (metis fun_upd_apply option.distinct(1))
  qed (use c nd lastp in \<open>auto simp: chain_ok_def q'_def\<close>)
  moreover have "enq_link q p n = Inr q'" by (simp add: enq_link_def nd q'_def)
  moreover have "node_data (mq_mem q') = node_data (mq_mem q)"
    by (auto simp: q'_def node_data_def nd fun_eq_iff)
  moreover have "linked (mq_mem q') a = Some b" if "linked (mq_mem q) a = Some b" for a b
    using that i(4) by (auto simp: q'_def)
  ultimately show thesis
    by (intro that [of q']) (use nd in \<open>auto simp: q'_def\<close>)
qed

lemma chain_load:
  assumes "chain_ok q pend_of ns"
  shows "deq_load q = Inr (mq_tail q, linked (mq_mem q) (mq_tail q))"
proof -
  have "mq_tail q \<in> dom (mq_mem q)" using assms unfolding chain_ok_def by (metis list.set_sel(1))
  then show ?thesis by (auto simp: deq_load_def linked_def)
qed

lemma chain_tail_linked:
  assumes "chain_ok q pend_of ns" "linked (mq_mem q) (mq_tail q) = Some b"
  obtains ns' where "ns = mq_tail q # b # ns'"
proof (cases ns)
  case Nil
  with assms show thesis by (simp add: chain_ok_def)
next
  case (Cons a xs)
  show thesis
  proof (cases xs)
    case Nil
    with Cons assms(2) chain_okD [OF assms(1)] show thesis by auto
  next
    case (Cons a' ys)
    with \<open>ns = a # xs\<close> assms have "a = mq_tail q" "linked (mq_mem q) a = Some a'"
      unfolding chain_ok_def by force+
    with Cons \<open>ns = a # xs\<close> assms(2) that show thesis by simp
  qed
qed

lemma chain_commit:
  assumes c: "chain_ok q pend_of (a # b # ns)" and l: "linked (mq_mem q) a = Some b"
    and d: "node_data (mq_mem q) b = Some v"
  obtains q' where "deq_commit q a b = Inr (v, q')" "chain_ok q' pend_of (b # ns)"
    "map (node_data (mq_mem q')) ns = map (node_data (mq_mem q)) ns" "mq_tail q' = b"
    "mq_brk q' = mq_brk q" "dom (mq_mem q') = dom (mq_mem q) - {a}"
proof -
  from d obtain nd where nd: "mq_mem q b = Some nd" "nd_data nd = Some v"
    by (auto simp: node_data_def bind_eq_Some_conv)
  define q' where "q' = q\<lparr>mq_mem := (mq_mem q)(b \<mapsto> nd\<lparr>nd_data := None\<rparr>, a := None), mq_tail := b\<rparr>"
  have dist: "distinct (a # b # ns)" by (rule chain_okD(2) [OF c])
  have lk: "linked (mq_mem q') x = linked (mq_mem q) x" if "x \<noteq> a" for x
    using that nd by (auto simp: q'_def linked_def)
  have "chain_ok q' pend_of (b # ns)"
    unfolding chain_ok_def
  proof (intro conjI allI impI)
    fix i assume i: "Suc i < length (b # ns)"
    moreover have "(b # ns) ! i \<noteq> a" using dist i by (metis distinct.simps(2) nth_mem Suc_lessD)
    ultimately show "linked (mq_mem q') ((b # ns) ! i) = Some ((b # ns) ! Suc i) \<or>
        linked (mq_mem q') ((b # ns) ! i) = None \<and> (\<exists>t. pend_of t = Some ((b # ns) ! i, (b # ns) ! Suc i))"
      using c lk unfolding chain_ok_def by (metis Suc_less_eq length_Cons nth_Cons_Suc)
  next
    fix t p n assume t: "pend_of t = Some (p, n)"
    with c obtain i where i: "Suc i < length (a # b # ns)" "p = (a # b # ns) ! i" "n = (a # b # ns) ! Suc i"
      and p: "linked (mq_mem q) p = None"
      unfolding chain_ok_def by blast
    from p l have "p \<noteq> a" by auto
    with p lk show "linked (mq_mem q') p = None" by simp
    from \<open>p \<noteq> a\<close> i obtain j where "i = Suc j" by (cases i) auto
    with i show "\<exists>i. Suc i < length (b # ns) \<and> p = (b # ns) ! i \<and> n = (b # ns) ! Suc i" by auto
  next
    fix t t' x assume "pend_of t = Some x" "pend_of t' = Some x"
    with c show "t = t'" unfolding chain_ok_def by blast
  next
    show "linked (mq_mem q') (last (b # ns)) = None"
      using c lk dist unfolding chain_ok_def
      by (metis distinct.simps(2) last.simps last_in_set list.distinct(1))
  qed (use c dist nd in \<open>auto simp: chain_ok_def q'_def\<close>)
  moreover have "deq_commit q a b = Inr (v, q')" by (simp add: deq_commit_def nd q'_def)
  moreover have "map (node_data (mq_mem q')) ns = map (node_data (mq_mem q)) ns"
    using dist by (auto simp: q'_def)
  ultimately show thesis
    by (intro that [of q']) (use nd in \<open>auto simp: q'_def\<close>)
qed


section \<open>The invariant holds in every reachable state\<close>

lemma minv_init: "minv msys_init"
  unfolding minv_def by (rule exI [of _ "[0]"])
    (auto simp: msys_init_def mpsc_new_def chain_ok_def linked_def)

lemma minv_exchange:
  assumes "minv s" "exec (Exchange t n v) s = Some r"
  obtains s' where "r = Inr s'" "minv s'"
proof -
  from assms(1) obtain ns where c: "chain_ok (ms_q s) (ms_prod s) ns"
    and io: "map Some (ms_in s) = map Some (ms_out s) @ map (node_data (mq_mem (ms_q s))) (tl ns)"
    and co: "\<forall>a b. ms_cons s = Some (a, b) \<longrightarrow> a = mq_tail (ms_q s) \<and> linked (mq_mem (ms_q s)) a = Some b"
    unfolding minv_def by blast
  from assms(2) have en: "ms_prod s t = None" "mq_mem (ms_q s) n = None"
    unfolding exec.simps by (metis option.distinct(1))+
  define s' where "s' = s\<lparr>ms_q := fst (enq_exchange (ms_q s) n v),
      ms_prod := (ms_prod s)(t \<mapsto> (mq_head (ms_q s), n)), ms_in := ms_in s @ [v]\<rparr>"
  have r: "r = Inr s'" using assms(2) en by (simp add: s'_def enq_exchange_def)
  have "chain_ok (ms_q s') (ms_prod s') (ns @ [n])"
    unfolding s'_def using chain_exchange [OF c en] by simp
  moreover have fresh: "n \<notin> set ns" using en(2) chain_okD(5) [OF c] by auto
  then have "map (node_data (mq_mem (ms_q s'))) (tl (ns @ [n])) =
      map (node_data (mq_mem (ms_q s))) (tl ns) @ [Some v]"
    using chain_okD(1) [OF c] by (cases ns) (auto simp: s'_def enq_exchange_def)
  then have "map Some (ms_in s') = map Some (ms_out s') @ map (node_data (mq_mem (ms_q s'))) (tl (ns @ [n]))"
    using io by (simp add: s'_def)
  moreover have "\<forall>a b. ms_cons s' = Some (a, b) \<longrightarrow> a = mq_tail (ms_q s') \<and> linked (mq_mem (ms_q s')) a = Some b"
    using co fresh hd_in_set [OF chain_okD(1) [OF c]] chain_okD(3) [OF c]
    by (auto simp: s'_def enq_exchange_def)
  ultimately have "minv s'" unfolding minv_def by blast
  with r show thesis by (rule that)
qed

lemma minv_link:
  assumes "minv s" "exec (Link t) s = Some r"
  obtains s' where "r = Inr s'" "minv s'"
proof -
  from assms(1) obtain ns where c: "chain_ok (ms_q s) (ms_prod s) ns"
    and io: "map Some (ms_in s) = map Some (ms_out s) @ map (node_data (mq_mem (ms_q s))) (tl ns)"
    and co: "\<forall>a b. ms_cons s = Some (a, b) \<longrightarrow> a = mq_tail (ms_q s) \<and> linked (mq_mem (ms_q s)) a = Some b"
    unfolding minv_def by blast
  from assms(2) obtain p n where t: "ms_prod s t = Some (p, n)" by (auto split: option.splits)
  obtain q' where q': "enq_link (ms_q s) p n = Inr q'" "chain_ok q' ((ms_prod s)(t := None)) ns"
    "node_data (mq_mem q') = node_data (mq_mem (ms_q s))" "mq_tail q' = mq_tail (ms_q s)"
    "\<And>a b. linked (mq_mem (ms_q s)) a = Some b \<Longrightarrow> linked (mq_mem q') a = Some b"
    by (rule chain_link [OF c t]) blast
  have "r = Inr (s\<lparr>ms_q := q', ms_prod := (ms_prod s)(t := None)\<rparr>)"
    using assms(2) t q'(1) by simp
  moreover have "minv (s\<lparr>ms_q := q', ms_prod := (ms_prod s)(t := None)\<rparr>)"
    unfolding minv_def by (rule exI [of _ ns]) (use q' io co in simp)
  ultimately show thesis by (rule that)
qed

lemma minv_load:
  assumes "minv s" "exec Load s = Some r"
  obtains s' where "r = Inr s'" "minv s'"
proof -
  from assms(1) obtain ns where c: "chain_ok (ms_q s) (ms_prod s) ns"
    and io: "map Some (ms_in s) = map Some (ms_out s) @ map (node_data (mq_mem (ms_q s))) (tl ns)"
    unfolding minv_def by blast
  let ?s = "s\<lparr>ms_cons := map_option (Pair (mq_tail (ms_q s))) (linked (mq_mem (ms_q s)) (mq_tail (ms_q s)))\<rparr>"
  have "r = Inr ?s" using assms(2) by (auto simp: chain_load [OF c] split: if_splits)
  moreover have "minv ?s" unfolding minv_def by (rule exI [of _ ns]) (use c io in auto)
  ultimately show thesis by (rule that)
qed

lemma minv_commit:
  assumes "minv s" "exec Commit s = Some r"
  obtains s' where "r = Inr s'" "minv s'"
proof -
  from assms(1) obtain ns where c: "chain_ok (ms_q s) (ms_prod s) ns"
    and io: "map Some (ms_in s) = map Some (ms_out s) @ map (node_data (mq_mem (ms_q s))) (tl ns)"
    and co: "\<forall>a b. ms_cons s = Some (a, b) \<longrightarrow> a = mq_tail (ms_q s) \<and> linked (mq_mem (ms_q s)) a = Some b"
    unfolding minv_def by blast
  from assms(2) obtain a b where ab: "ms_cons s = Some (a, b)" by (auto split: option.splits)
  with co have a: "a = mq_tail (ms_q s)" and l: "linked (mq_mem (ms_q s)) a = Some b" by auto
  obtain ns' where ns: "ns = a # b # ns'" using chain_tail_linked [OF c l [unfolded a]] a by metis
  from io obtain v where v: "node_data (mq_mem (ms_q s)) b = Some v"
    unfolding ns by (auto simp: map_eq_append_conv)
  obtain q' where q': "deq_commit (ms_q s) a b = Inr (v, q')" "chain_ok q' (ms_prod s) (b # ns')"
    "map (node_data (mq_mem q')) ns' = map (node_data (mq_mem (ms_q s))) ns'"
    by (rule chain_commit [OF c [unfolded ns] l v]) blast
  let ?s = "s\<lparr>ms_q := q', ms_cons := None, ms_out := ms_out s @ [v]\<rparr>"
  have "r = Inr ?s" using assms(2) ab q'(1) by simp
  moreover have "minv ?s"
    unfolding minv_def by (rule exI [of _ "b # ns'"]) (use q' io v in \<open>simp add: ns\<close>)
  ultimately show thesis by (rule that)
qed

lemma minv_step: "minv s \<Longrightarrow> exec ev s = Some r \<Longrightarrow> \<exists>s'. r = Inr s' \<and> minv s'"
  by (cases ev) (metis minv_exchange, metis minv_link, metis minv_load, metis minv_commit)

lemma minv_next: "minv m \<Longrightarrow> exec ev m = Some (Inr m') \<Longrightarrow> minv m'"
  using minv_step by fastforce

lemma exec_fields:
  "exec (Exchange t n v) m = Some (Inr m') \<Longrightarrow>
     (\<forall>u. u \<noteq> t \<longrightarrow> ms_prod m' u = ms_prod m u) \<and> ms_cons m' = ms_cons m"
  "exec (Link t) m = Some (Inr m') \<Longrightarrow> (\<forall>u. u \<noteq> t \<longrightarrow> ms_prod m' u = ms_prod m u) \<and> ms_prod m t \<noteq> None \<and>
     ms_prod m' t = None \<and> ms_cons m' = ms_cons m"
  "exec Load m = Some (Inr m') \<Longrightarrow> ms_prod m' = ms_prod m"
  "exec Commit m = Some (Inr m') \<Longrightarrow> ms_prod m' = ms_prod m"
  by (auto simp: enq_exchange_def bindR_eq_Inr split: if_splits option.splits)

lemma empty_pending:
  assumes "minv m" "queue_empty (ms_q m) = Inr True" "ms_in m \<noteq> ms_out m"
  shows "\<exists>t. ms_prod m t \<noteq> None"
proof -
  from assms(1) obtain ns where c: "chain_ok (ms_q m) (ms_prod m) ns"
    and io: "map Some (ms_in m) = map Some (ms_out m) @ map (node_data (mq_mem (ms_q m))) (tl ns)"
    unfolding minv_def by blast
  have none: "linked (mq_mem (ms_q m)) (mq_tail (ms_q m)) = None"
    using assms(2) by (simp add: queue_empty_def chain_load [OF c])
  have "tl ns \<noteq> []" using io assms(3) by (auto simp: inj_map_eq_map)
  then have "Suc 0 < length ns" by (cases ns; cases "tl ns") auto
  moreover have "ns ! 0 = mq_tail (ms_q m)" using chain_okD(1,3) [OF c] by (simp add: hd_conv_nth)
  ultimately show ?thesis using c none unfolding chain_ok_def by fastforce
qed

lemma minv_reach: "mreach s \<Longrightarrow> minv s"
  by (induction rule: mreach.induct) (auto intro: minv_init dest: minv_step)

text \<open>
  C24: the queue is safe under any interleaving of the atomic accesses of its producers and its
  consumer. In every reachable state no step reads or writes a node that has been deleted (in
  particular no producer links to a previous head that the consumer has freed meanwhile), and
  what the consumer has taken out so far is, in order, the beginning of the sequence in which
  the producers exchanged the head: nothing is lost, doubled or reordered.
\<close>

theorem mpsc_safe_fifo:
  assumes "mreach s"
  shows "exec ev s \<noteq> Some (Inl e) \<and> prefix (ms_out s) (ms_in s)"
proof -
  have inv: "minv s" by (rule minv_reach [OF assms])
  from inv obtain ns where
    "map Some (ms_in s) = map Some (ms_out s) @ map (node_data (mq_mem (ms_q s))) (tl ns)"
    unfolding minv_def by blast
  then have "prefix (map Some (ms_out s)) (map Some (ms_in s))" by (auto simp: prefix_def)
  then have "prefix (ms_out s) (ms_in s)" by (simp add: inj_map_eq_map prefix_map_rightE prefix_def map_eq_append_conv)
  moreover have "exec ev s \<noteq> Some (Inl e)" using minv_step [OF inv, of ev "Inl e"] by auto
  ultimately show ?thesis by blast
qed

lemma mreach_run: "run_events s evs = Some (Inr s') \<Longrightarrow> mreach s \<Longrightarrow> mreach s'"
  by (induction evs arbitrary: s) (auto split: option.splits sum.splits intro: mreach.step)

text \<open>Two producers; the second exchange links first, so that the consumer sees nothing yet.\<close>

definition example_events :: "nat mevent list" where
  "example_events = [Exchange 0 1 10, Exchange 1 2 20, Link 1, Load, Link 0, Load, Commit]"

definition example_msys :: "nat msys" where
  "example_msys = (case run_events msys_init example_events of Some (Inr s) \<Rightarrow> s | _ \<Rightarrow> msys_init)"

lemmas example_eval = example_msys_def example_events_def msys_init_def mpsc_new_def enq_exchange_def
  enq_link_def deq_load_def deq_commit_def

lemma example_reach: "mreach example_msys"
  by (rule mreach_run [OF _ mreach.init, of example_events]) (simp add: example_eval)

theorem mpsc_safe_fifo_witness:
  "exec Commit example_msys \<noteq> Some (Inl OutOfBounds) \<and> prefix (ms_out example_msys) (ms_in example_msys) \<and>
   ms_out example_msys = [10] \<and> ms_in example_msys = [10, 20]"
  using mpsc_safe_fifo [OF example_reach, of Commit OutOfBounds] by (simp add: example_eval)

text \<open>
  C25: no item gets stuck. When no producer is between its exchange and its store and the consumer
  is not inside \<^verbatim>\<open>dequeue\<close>, then \<^verbatim>\<open>empty\<close> tells exactly whether everything enqueued has been
  taken out, and otherwise \<^verbatim>\<open>dequeue\<close> returns the oldest item that is still in the queue.
\<close>

theorem mpsc_no_loss:
  assumes "mreach s" "\<forall>t. ms_prod s t = None"
  shows "queue_empty (ms_q s) = Inr (ms_in s = ms_out s) \<and>
         (ms_in s \<noteq> ms_out s \<longrightarrow>
           (\<exists>q'. dequeue (ms_q s) = Inr (Some (ms_in s ! length (ms_out s)), q')))"
proof -
  from minv_reach [OF assms(1)] obtain ns where c: "chain_ok (ms_q s) (ms_prod s) ns"
    and io: "map Some (ms_in s) = map Some (ms_out s) @ map (node_data (mq_mem (ms_q s))) (tl ns)"
    unfolding minv_def by blast
  from chain_okD(1,3) [OF c] obtain ns' where ns: "ns = mq_tail (ms_q s) # ns'" by (cases ns) auto
  show ?thesis
  proof (cases ns')
    case Nil
    then have "linked (mq_mem (ms_q s)) (mq_tail (ms_q s)) = None"
      using chain_okD(6) [OF c] ns by simp
    moreover have "ms_in s = ms_out s" using io ns Nil by (simp add: inj_map_eq_map)
    ultimately show ?thesis by (simp add: queue_empty_def chain_load [OF c])
  next
    case (Cons b ns'')
    then have l: "linked (mq_mem (ms_q s)) (mq_tail (ms_q s)) = Some b"
      using c assms(2) ns unfolding chain_ok_def by force
    from io obtain v r where v: "node_data (mq_mem (ms_q s)) b = Some v" "ms_in s = ms_out s @ v # r"
      unfolding ns Cons by (auto simp: map_eq_append_conv inj_map_eq_map)
    obtain q' where "deq_commit (ms_q s) (mq_tail (ms_q s)) b = Inr (v, q')"
      using chain_commit [OF c [unfolded ns Cons] l v(1)] by metis
    with v(2) show ?thesis by (auto simp: queue_empty_def dequeue_def chain_load [OF c] l)
  qed
qed

lemma example_no_producer: "\<forall>t. ms_prod example_msys t = None"
  by (simp add: example_eval)

theorem mpsc_no_loss_witness:
  "queue_empty (ms_q example_msys) = Inr False \<and> (\<exists>q'. dequeue (ms_q example_msys) = Inr (Some 20, q'))"
  using mpsc_no_loss [OF example_reach example_no_producer] by (simp add: example_eval)

section \<open>The contract for a client in one thread\<close>

text \<open>A queue of tasks as its client sees it; \<open>holds q xs\<close>: the queue holds the items \<open>xs\<close>, oldest first.\<close>

locale task_queue =
  fixes holds :: "'q \<Rightarrow> 'a list \<Rightarrow> bool"
    and mk :: "'q"
    and put :: "'q \<Rightarrow> 'a \<Rightarrow> 'q result"
    and get :: "'q \<Rightarrow> ('a option \<times> 'q) result"
    and is_empty :: "'q \<Rightarrow> bool result"
  assumes holds_new: "holds mk []"
    and put_ok: "holds q xs \<Longrightarrow> \<exists>q'. put q x = Inr q' \<and> holds q' (xs @ [x])"
    and get_empty: "holds q [] \<Longrightarrow> get q = Inr (None, q)"
    and get_item: "holds q (x # xs) \<Longrightarrow> \<exists>q'. get q = Inr (Some x, q') \<and> holds q' xs"
    and empty_ok: "holds q xs \<Longrightarrow> is_empty q = Inr (xs = [])"
begin

lemma put_all:
  assumes "holds q xs"
  shows "\<exists>q'. foldR put q ys = Inr q' \<and> holds q' (xs @ ys)"
  using assms
proof (induction ys arbitrary: q xs)
  case (Cons y ys)
  from put_ok [OF Cons.prems, of y] obtain q1 where "put q y = Inr q1" "holds q1 (xs @ [y])" by blast
  with Cons.IH [of q1 "xs @ [y]"] show ?case by auto
qed auto

lemma get_fifo: "holds q (xs @ ys) \<Longrightarrow> xs \<noteq> [] \<Longrightarrow> \<exists>q'. get q = Inr (Some (hd xs), q') \<and> holds q' (tl xs @ ys)"
  by (cases xs) (auto dest: get_item)

end

definition mq_holds :: "'a mpsc \<Rightarrow> 'a list \<Rightarrow> bool" where
  "mq_holds q xs \<longleftrightarrow> (\<exists>ns. chain_ok q (\<lambda>_. None) ns \<and> map (node_data (mq_mem q)) (tl ns) = map Some xs \<and>
     (\<forall>n \<in> dom (mq_mem q). n < mq_brk q))"

lemma mq_holds_new: "mq_holds mpsc_new []"
  unfolding mq_holds_def by (rule exI [of _ "[0]"]) (auto simp: mpsc_new_def chain_ok_def linked_def)

lemma mq_enqueue:
  assumes "mq_holds q xs"
  shows "\<exists>q'. enqueue q v = Inr q' \<and> mq_holds q' (xs @ [v])"
proof -
  from assms obtain ns where c: "chain_ok q (\<lambda>_. None) ns"
    and d: "map (node_data (mq_mem q)) (tl ns) = map Some xs" and brk: "\<forall>n \<in> dom (mq_mem q). n < mq_brk q"
    unfolding mq_holds_def by blast
  let ?n = "mq_brk q"
  let ?q = "fst (enq_exchange q ?n v)"
  have fresh: "mq_mem q ?n = None" using brk by (meson domIff less_irrefl)
  have c1: "chain_ok ?q ((\<lambda>_. None)(0 \<mapsto> (mq_head q, ?n))) (ns @ [?n])"
    by (rule chain_exchange [OF c _ fresh]) simp
  obtain q' where q': "enq_link ?q (mq_head q) ?n = Inr q'"
    "chain_ok q' (((\<lambda>_. None)(0 \<mapsto> (mq_head q, ?n)))(0 := None)) (ns @ [?n])"
    "node_data (mq_mem q') = node_data (mq_mem ?q)" "mq_brk q' = mq_brk ?q" "dom (mq_mem q') = dom (mq_mem ?q)"
    by (rule chain_link [OF c1, of 0 "mq_head q" ?n]) (simp, blast)
  have "?n \<notin> set ns" using fresh chain_okD(5) [OF c] by auto
  then have "map (node_data (mq_mem q')) (tl (ns @ [?n])) = map (node_data (mq_mem q)) (tl ns) @ [Some v]"
    using chain_okD(1) [OF c] unfolding q'(3) by (cases ns) (auto simp: enq_exchange_def)
  then have "map (node_data (mq_mem q')) (tl (ns @ [?n])) = map Some (xs @ [v])" using d by simp
  moreover have "(((\<lambda>_. None)(0 \<mapsto> (mq_head q, ?n)))(0 := None)) = (\<lambda>_. None)" by auto
  moreover have "\<forall>n \<in> dom (mq_mem q'). n < mq_brk q'"
    unfolding q'(4,5) using brk by (auto simp: enq_exchange_def less_SucI)
  ultimately have "mq_holds q' (xs @ [v])"
    unfolding mq_holds_def using q'(2) by (intro exI [of _ "ns @ [?n]"]) simp
  with q'(1) show ?thesis by (simp add: enqueue_def enq_exchange_def)
qed

lemma mq_linked_tail:
  assumes "chain_ok q (\<lambda>_. None) (a # ns)"
  shows "linked (mq_mem q) (mq_tail q) = (case ns of [] \<Rightarrow> None | b # _ \<Rightarrow> Some b)"
proof (cases ns)
  case Nil
  with chain_okD(3,6) [OF assms] show ?thesis by simp
next
  case (Cons b ns')
  with assms chain_okD(3) [OF assms] show ?thesis unfolding chain_ok_def by force
qed

lemma mq_dequeue_empty:
  assumes "mq_holds q []"
  shows "dequeue q = Inr (None, q)"
proof -
  from assms obtain ns where c: "chain_ok q (\<lambda>_. None) ns" "tl ns = []" unfolding mq_holds_def by auto
  then obtain a where "ns = [a]" using chain_okD(1) by (cases ns) auto
  with c show ?thesis using mq_linked_tail [of q a "[]"] by (simp add: dequeue_def chain_load)
qed

lemma mq_dequeue_item:
  assumes "mq_holds q (x # xs)"
  shows "\<exists>q'. dequeue q = Inr (Some x, q') \<and> mq_holds q' xs"
proof -
  from assms obtain ns where c: "chain_ok q (\<lambda>_. None) ns"
    and d: "map (node_data (mq_mem q)) (tl ns) = Some x # map Some xs" and brk: "\<forall>n \<in> dom (mq_mem q). n < mq_brk q"
    unfolding mq_holds_def by auto
  then obtain a b ns' where ns: "ns = a # b # ns'" by (cases ns; cases "tl ns") auto
  have a: "a = mq_tail q" using chain_okD(3) [OF c] ns by simp
  have l: "linked (mq_mem q) a = Some b" using mq_linked_tail [OF c [unfolded ns]] a by simp
  obtain q' where q': "deq_commit q a b = Inr (x, q')" "chain_ok q' (\<lambda>_. None) (b # ns')"
    "map (node_data (mq_mem q')) ns' = map (node_data (mq_mem q)) ns'"
    "mq_brk q' = mq_brk q" "dom (mq_mem q') = dom (mq_mem q) - {a}"
    by (rule chain_commit [OF c [unfolded ns] l, of x]) (use d ns in auto)
  have "map (node_data (mq_mem q')) ns' = map Some xs" unfolding q'(3) using d by (simp add: ns)
  then have "mq_holds q' xs"
    unfolding mq_holds_def using q' brk by (intro exI [of _ "b # ns'"]) simp
  with q'(1) l a show ?thesis by (simp add: dequeue_def chain_load [OF c])
qed

lemma mq_empty:
  assumes "mq_holds q xs"
  shows "queue_empty q = Inr (xs = [])"
proof -
  from assms obtain ns where c: "chain_ok q (\<lambda>_. None) ns"
    and d: "map (node_data (mq_mem q)) (tl ns) = map Some xs"
    unfolding mq_holds_def by auto
  then obtain a ns' where "ns = a # ns'" using chain_okD(1) by (cases ns) auto
  with c d show ?thesis
    using mq_linked_tail [of q a ns'] by (cases ns') (auto simp: queue_empty_def chain_load)
qed

interpretation mq: task_queue mq_holds mpsc_new enqueue dequeue queue_empty
  by unfold_locales (fact mq_holds_new mq_enqueue mq_dequeue_empty mq_dequeue_item mq_empty)+

lemma drain_holds: "mq_holds q xs \<Longrightarrow> \<exists>q'. drain q = Some (Inr q') \<and> mq_holds q' []"
proof (induction xs arbitrary: q)
  case Nil
  then show ?case by (subst drain.simps) (simp add: mq_dequeue_empty)
next
  case (Cons x xs)
  from mq_dequeue_item [OF Cons.prems] obtain q' where "dequeue q = Inr (Some x, q')" "mq_holds q' xs" by blast
  with Cons.IH show ?case by (subst drain.simps) simp
qed

text \<open>
  used by one thread the class is a first-in first-out queue: enqueueing a list of items into
  a new queue and dequeueing returns the first of them, and the destructor ends and frees
  every node it has allocated.
\<close>

theorem mpsc_sequential:
  "\<exists>q. foldR enqueue mpsc_new (x # xs) = Inr q \<and>
       (\<exists>q'. dequeue q = Inr (Some x, q') \<and> mq_holds q' xs) \<and>
       (\<exists>q'. mpsc_destroy q = Some (Inr q') \<and> mq_mem q' = Map.empty)"
proof -
  obtain q where q: "foldR enqueue mpsc_new (x # xs) = Inr q" "mq_holds q (x # xs)"
    using mq.put_all [OF mq_holds_new, of "x # xs"] by auto
  obtain q' where q': "drain q = Some (Inr q')" "mq_holds q' []" using drain_holds [OF q(2)] by blast
  then obtain ns where c: "chain_ok q' (\<lambda>_. None) ns" "tl ns = []" unfolding mq_holds_def by auto
  then obtain a where "ns = [a]" using chain_okD(1) by (cases ns) auto
  then have "dom (mq_mem q') = {mq_head q'}" using chain_okD(4,5) [OF c(1)] by simp
  then have "(mq_mem q')(mq_head q' := None) = Map.empty" by (auto simp: fun_eq_iff dom_def)
  with q q' mq.get_item [OF q(2)] show ?thesis by (simp add: mpsc_destroy_def)
qed


end
