(* ===== verification/TimerQueue.thy ===== *)
theory TimerQueue
  imports Cooper_Prelude "HOL-Library.Multiset" "HOL-Library.Sublist"
begin

text \<open>
  Timers and the timer queue (\<^verbatim>\<open>cooper/net/Timer.*\<close>, \<^verbatim>\<open>cooper/net/TimerQueue.*\<close>). Times are
  nanoseconds of the steady clock, intervals are microseconds. A callback is a value of an
  arbitrary type; what running it does to the timer queue (it may add and invalidate timers
  in the loop thread, which takes effect at once) is given by a function argument, and every
  reading of the clock is an argument. The lemmas show that no timer runs early, that every
  valid timer that has expired runs exactly once and in order of time, that periodic timers
  come back, and that the timer descriptor is always armed for the earliest timer.
\<close>

section \<open>Timers\<close>

record 'c timer =
  tm_callback :: 'c
  tm_when :: int
  tm_interval :: int
  tm_repeat :: bool
  tm_id :: nat

definition Timer_new :: "'c \<Rightarrow> int \<Rightarrow> int \<Rightarrow> nat \<Rightarrow> 'c timer" where
  "Timer_new cb when interval timersCreated =
     \<lparr>tm_callback = cb, tm_when = when, tm_interval = interval, tm_repeat = (interval > 0),
      tm_id = Suc timersCreated\<rparr>"

definition Timer_restart :: "'c timer \<Rightarrow> int \<Rightarrow> int \<Rightarrow> 'c timer" where
  "Timer_restart t now clock =
     (if tm_repeat t then t\<lparr>tm_when := now + 1000 * tm_interval t\<rparr> else t\<lparr>tm_when := clock\<rparr>)"

definition Timer_less :: "'c timer \<Rightarrow> 'c timer \<Rightarrow> bool" where
  "Timer_less a b \<longleftrightarrow> tm_when a < tm_when b"

section \<open>The priority queue\<close>

text \<open>
  \<^verbatim>\<open>std::priority_queue\<close> ordered by time: a list in ascending order. The order among timers
  of equal time is not specified by the standard; nothing below depends on it.
\<close>

definition pq_push :: "'c timer \<Rightarrow> 'c timer list \<Rightarrow> 'c timer list" where
  "pq_push t q = insort_key tm_when t q"

definition pq_top :: "'c timer list \<Rightarrow> 'c timer" where
  "pq_top q = hd q"

definition pq_pop :: "'c timer list \<Rightarrow> 'c timer list" where
  "pq_pop q = tl q"

section \<open>The timer queue\<close>

text \<open>\<open>tq_armed\<close>: when the timer descriptor was set, and the delay it was set to, in nanoseconds.\<close>

record 'c timerq =
  tq_timers :: "'c timer list"
  tq_ids :: "nat set"
  tq_created :: nat
  tq_calling :: bool
  tq_fd :: int
  tq_armed :: "(int \<times> int) option"

datatype 'c tq_op = OpAdd 'c int int int | OpInvalidate nat

definition TimerQueue_new :: "int \<Rightarrow> 'c timerq" where
  "TimerQueue_new fd = \<lparr>tq_timers = [], tq_ids = {}, tq_created = 0, tq_calling = False,
     tq_fd = fd, tq_armed = None\<rparr>"

text \<open>Conversion to microseconds truncates towards zero.\<close>

definition duration_us :: "int \<Rightarrow> int" where
  "duration_us ns = (if ns < 0 then - ((- ns) div 1000) else ns div 1000)"

definition howMuchTimeFromNow :: "int \<Rightarrow> int \<Rightarrow> int \<times> int" where
  "howMuchTimeFromNow when clock =
     (let us = duration_us (when - clock); us = (if us < 100 then 100 else us)
      in (us div 1000000, (us mod 1000000) * 1000))"

definition resetTimerfd :: "int \<Rightarrow> int \<Rightarrow> 'c timerq \<Rightarrow> 'c timerq" where
  "resetTimerfd expiration clock s =
     (let (tv_sec, tv_nsec) = howMuchTimeFromNow expiration clock
      in s\<lparr>tq_armed := Some (clock, tv_sec * 1000000000 + tv_nsec)\<rparr>)"

definition tq_insert :: "'c timer \<Rightarrow> 'c timerq \<Rightarrow> bool \<times> 'c timerq" where
  "tq_insert t s =
     (let earliestChanged = (tq_timers s = [] \<or> Timer_less t (pq_top (tq_timers s)))
      in (earliestChanged, s\<lparr>tq_timers := pq_push t (tq_timers s)\<rparr>))"

definition addTimerInLoop :: "'c timer \<Rightarrow> int \<Rightarrow> 'c timerq \<Rightarrow> 'c timerq" where
  "addTimerInLoop t clock s =
     (let (earliestChanged, s') = tq_insert t (s\<lparr>tq_ids := insert (tm_id t) (tq_ids s)\<rparr>)
      in if earliestChanged then resetTimerfd (tm_when t) clock s' else s')"

text \<open>\<^verbatim>\<open>addTimer\<close> and \<^verbatim>\<open>invalidateTimer\<close> called in the loop thread, where \<^verbatim>\<open>runInLoop\<close> runs its
  argument at once.\<close>

definition addTimer :: "'c \<Rightarrow> int \<Rightarrow> int \<Rightarrow> int \<Rightarrow> 'c timerq \<Rightarrow> nat \<times> 'c timerq" where
  "addTimer cb when interval clock s =
     (let t = Timer_new cb when interval (tq_created s)
      in (tm_id t, addTimerInLoop t clock (s\<lparr>tq_created := Suc (tq_created s)\<rparr>)))"

definition tq_invalidateTimer :: "nat \<Rightarrow> 'c timerq \<Rightarrow> 'c timerq" where
  "tq_invalidateTimer i s = s\<lparr>tq_ids := tq_ids s - {i}\<rparr>"

fun tq_apply :: "'c timerq \<Rightarrow> 'c tq_op \<Rightarrow> 'c timerq" where
  "tq_apply s (OpAdd cb when interval clock) = snd (addTimer cb when interval clock s)"
| "tq_apply s (OpInvalidate i) = tq_invalidateTimer i s"

function getExpired :: "int \<Rightarrow> 'c timer list \<Rightarrow> 'c timer list \<times> 'c timer list" where
  "getExpired now q =
     (if q \<noteq> []
      then (if tm_when (pq_top q) < now
            then (let (expired, rest) = getExpired now (pq_pop q) in (pq_top q # expired, rest))
            else ([], q))
      else ([], q))"
  by pat_completeness auto
termination
  by (relation "measure (\<lambda>(now, q). length q)") (auto simp: pq_pop_def)

declare getExpired.simps [simp del]

text \<open>One iteration of the loop that runs the expired timers; the second component records
  the timers whose callbacks have been run.\<close>

definition run_expired :: "('c \<Rightarrow> 'c tq_op list) \<Rightarrow> 'c timerq \<times> 'c timer list \<Rightarrow> 'c timer \<Rightarrow> 'c timerq \<times> 'c timer list" where
  "run_expired acts sr t =
     (case sr of (s, fired) \<Rightarrow>
        if tm_id t \<in> tq_ids s then (foldl tq_apply s (acts (tm_callback t)), fired @ [t]) else (s, fired))"

definition reset_one :: "int \<Rightarrow> int \<Rightarrow> 'c timerq \<Rightarrow> 'c timer \<Rightarrow> 'c timerq" where
  "reset_one now clock s t =
     (if tm_id t \<in> tq_ids s
      then (if tm_repeat t then snd (tq_insert (Timer_restart t now clock) s)
            else s\<lparr>tq_ids := tq_ids s - {tm_id t}\<rparr>)
      else s)"

definition rearm :: "int \<Rightarrow> 'c timerq \<Rightarrow> 'c timerq" where
  "rearm clock s =
     (if tq_timers s \<noteq> [] then resetTimerfd (tm_when (pq_top (tq_timers s))) clock s else s)"

definition reset_expired :: "'c timer list \<Rightarrow> int \<Rightarrow> int \<Rightarrow> 'c timerq \<Rightarrow> 'c timerq" where
  "reset_expired expired now clock s = rearm clock (foldl (reset_one now clock) s expired)"

definition tq_handleRead :: "('c \<Rightarrow> 'c tq_op list) \<Rightarrow> int \<Rightarrow> int \<Rightarrow> 'c timerq \<Rightarrow> 'c timerq \<times> 'c timer list" where
  "tq_handleRead acts now clock s =
     (let (expired, rest) = getExpired now (tq_timers s);
          (s', fired) = foldl (run_expired acts) (s\<lparr>tq_timers := rest, tq_calling := True\<rparr>, []) expired
      in (reset_expired expired now clock (s'\<lparr>tq_calling := False\<rparr>), fired))"

text \<open>\<^verbatim>\<open>reset()\<close>: a new timer descriptor, armed for the earliest timer.\<close>

definition TimerQueue_reset :: "int \<Rightarrow> int \<Rightarrow> 'c timerq \<Rightarrow> 'c timerq" where
  "TimerQueue_reset newfd clock s = rearm clock (s\<lparr>tq_fd := newfd, tq_armed := None\<rparr>)"

section \<open>Invariants\<close>

definition tq_sorted :: "'c timerq \<Rightarrow> bool" where
  "tq_sorted s \<longleftrightarrow> sorted (map tm_when (tq_timers s))"

definition ids_of :: "'c timer list \<Rightarrow> nat list" where
  "ids_of ts = map tm_id ts"

text \<open>\<open>batch\<close> are the timers that have been taken out for running.\<close>

definition tq_inv :: "'c timer list \<Rightarrow> 'c timerq \<Rightarrow> bool" where
  "tq_inv batch s \<longleftrightarrow> tq_sorted s \<and> distinct (ids_of (batch @ tq_timers s)) \<and>
     (\<forall>i \<in> set (ids_of (batch @ tq_timers s)). i \<le> tq_created s) \<and>
     tq_ids s \<subseteq> set (ids_of (batch @ tq_timers s))"

abbreviation tq_wf :: "'c timerq \<Rightarrow> bool" where
  "tq_wf s \<equiv> tq_inv [] s"

text \<open>The descriptor fires no later than the earliest timer, or a tenth of a millisecond after
  it was set.\<close>

definition tq_armed_ok :: "'c timerq \<Rightarrow> bool" where
  "tq_armed_ok s \<longleftrightarrow> (tq_timers s \<noteq> [] \<longrightarrow>
     (\<exists>at delay. tq_armed s = Some (at, delay) \<and> 0 < delay \<and>
        at + delay \<le> max (tm_when (pq_top (tq_timers s))) (at + 100000)))"

section \<open>Arming the descriptor\<close>

lemma duration_us_bounds: "0 \<le> ns \<Longrightarrow> duration_us ns * 1000 \<le> ns \<and> ns < duration_us ns * 1000 + 1000"
proof -
  assume "0 \<le> ns"
  then have "duration_us ns = ns div 1000" by (simp add: duration_us_def)
  moreover have "ns div 1000 * 1000 + ns mod 1000 = ns" "ns mod 1000 < 1000" "0 \<le> ns mod 1000" by simp_all
  ultimately show ?thesis by linarith
qed

lemma howMuchTimeFromNow_value:
  assumes "howMuchTimeFromNow when clock = (sec, nsec)"
  shows "sec * 1000000000 + nsec = 1000 * max 100 (duration_us (when - clock))"
    and "0 \<le> sec" "0 \<le> nsec" "nsec < 1000000000"
proof -
  let ?us = "max 100 (duration_us (when - clock))"
  have eq: "sec = ?us div 1000000" "nsec = (?us mod 1000000) * 1000"
    using assms by (auto simp: howMuchTimeFromNow_def Let_def max_def split: if_splits)
  have "?us = ?us div 1000000 * 1000000 + ?us mod 1000000" by simp
  then show "sec * 1000000000 + nsec = 1000 * ?us" unfolding eq by linarith
  show "0 \<le> sec" "0 \<le> nsec" "nsec < 1000000000" unfolding eq by simp_all
qed

lemma resetTimerfd_fields [simp]:
  "tq_timers (resetTimerfd e c s) = tq_timers s" "tq_ids (resetTimerfd e c s) = tq_ids s"
  "tq_created (resetTimerfd e c s) = tq_created s"
  by (simp_all add: resetTimerfd_def split: prod.splits)

lemma resetTimerfd_armed:
  "tq_armed (resetTimerfd e c s) = Some (c, 1000 * max 100 (duration_us (e - c)))"
proof -
  obtain sec nsec where sn: "howMuchTimeFromNow e c = (sec, nsec)" by fastforce
  with howMuchTimeFromNow_value(1) [OF sn] show ?thesis by (simp add: resetTimerfd_def)
qed

lemma resetTimerfd_ok:
  assumes "tq_timers s \<noteq> [] \<Longrightarrow> tm_when (pq_top (tq_timers s)) = e"
  shows "tq_armed_ok (resetTimerfd e c s)"
proof -
  have "duration_us (e - c) \<le> 100 \<or> duration_us (e - c) * 1000 \<le> e - c"
    using duration_us_bounds [of "e - c"] by (cases "0 \<le> e - c") (auto simp: duration_us_def)
  then have "c + 1000 * max 100 (duration_us (e - c)) \<le> max e (c + 100000)"
    by (auto simp: max_def)
  with assms show ?thesis by (auto simp: tq_armed_ok_def resetTimerfd_armed)
qed

text \<open>
  the delay the timer descriptor is set to is a valid \<^verbatim>\<open>timespec\<close> of at least a tenth of a
  millisecond; apart from that minimum it ends at most one microsecond before the expiry and
  never after it.
\<close>

theorem howMuchTimeFromNow_bounds:
  assumes "howMuchTimeFromNow when clock = (sec, nsec)"
  shows "0 \<le> sec \<and> 0 \<le> nsec \<and> nsec < 1000000000 \<and> 100000 \<le> sec * 1000000000 + nsec \<and>
         sec * 1000000000 + nsec \<le> max 100000 (when - clock) \<and>
         when - clock - 1000 < sec * 1000000000 + nsec"
proof -
  have "duration_us (when - clock) \<le> 100 \<or> duration_us (when - clock) * 1000 \<le> when - clock"
    "when - clock - 1000 < 1000 * max 100 (duration_us (when - clock))"
    using duration_us_bounds [of "when - clock"] by (cases "0 \<le> when - clock"; auto simp: duration_us_def)+
  with howMuchTimeFromNow_value [OF assms] show ?thesis by (auto simp: max_def split: if_splits)
qed

theorem howMuchTimeFromNow_bounds_witness:
  "howMuchTimeFromNow 2000001500 500 = (2, 1000) \<and> 2 * 1000000000 + 1000 \<le> max 100000 (2000001500 - 500::int)"
  using howMuchTimeFromNow_bounds [of 2000001500 500 2 1000]
  by (simp add: howMuchTimeFromNow_def duration_us_def)

section \<open>Preservation of the invariants\<close>

lemma pq_push_props [simp]:
  "set (pq_push t q) = insert t (set q)" "pq_push t q \<noteq> []" "mset (pq_push t q) = add_mset t (mset q)"
  by (simp_all add: pq_push_def set_insort_key)

lemma sorted_pq_push: "sorted (map tm_when q) \<Longrightarrow> sorted (map tm_when (pq_push t q))"
  by (simp add: pq_push_def sorted_insort_key)

lemma distinct_ids_push:
  "distinct (ids_of (b @ pq_push t q)) \<longleftrightarrow> tm_id t \<notin> set (ids_of (b @ q)) \<and> distinct (ids_of (b @ q))"
proof -
  have "mset (ids_of (b @ pq_push t q)) = mset (tm_id t # ids_of (b @ q))" by (simp add: ids_of_def)
  then have "distinct (ids_of (b @ pq_push t q)) = distinct (tm_id t # ids_of (b @ q))"
    by (rule mset_eq_imp_distinct_iff)
  then show ?thesis by simp
qed

lemma set_ids_of [simp]: "set (ids_of ts) = tm_id ` set ts"
  by (simp add: ids_of_def)

lemma top_push_when:
  assumes "sorted (map tm_when q)"
  shows "tm_when (pq_top (pq_push t q)) = (if q = [] then tm_when t else min (tm_when t) (tm_when (pq_top q)))"
  by (cases q) (auto simp: pq_push_def pq_top_def)

lemma tq_inv_insert:
  assumes "tq_inv batch s" "tm_id t \<notin> set (ids_of (batch @ tq_timers s))" "tm_id t \<le> n" "tq_created s \<le> n"
    and "I \<subseteq> insert (tm_id t) (tq_ids s)"
  shows "tq_inv batch (s\<lparr>tq_timers := pq_push t (tq_timers s), tq_ids := I, tq_created := n\<rparr>)"
proof -
  have "\<forall>i \<in> set (ids_of (batch @ tq_timers s)). i \<le> n"
    using assms(1,4) unfolding tq_inv_def by (blast intro: le_trans)
  with assms show ?thesis by (auto simp: tq_inv_def tq_sorted_def sorted_pq_push distinct_ids_push)
qed

lemma addTimer_fields:
  "tq_timers (snd (addTimer cb when interval clock s)) =
     pq_push (Timer_new cb when interval (tq_created s)) (tq_timers s)"
  "tq_ids (snd (addTimer cb when interval clock s)) = insert (Suc (tq_created s)) (tq_ids s)"
  "tq_created (snd (addTimer cb when interval clock s)) = Suc (tq_created s)"
  "fst (addTimer cb when interval clock s) = Suc (tq_created s)"
  by (simp_all add: addTimer_def addTimerInLoop_def tq_insert_def Let_def Timer_new_def)

lemma tq_inv_cong:
  "tq_timers s' = tq_timers s \<Longrightarrow> tq_ids s' = tq_ids s \<Longrightarrow> tq_created s' = tq_created s \<Longrightarrow>
   tq_inv b s' = tq_inv b s"
  by (simp add: tq_inv_def tq_sorted_def)

lemma tq_inv_addTimer: "tq_inv batch s \<Longrightarrow> tq_inv batch (snd (addTimer cb when interval clock s))"
proof -
  assume inv: "tq_inv batch s"
  let ?t = "Timer_new cb when interval (tq_created s)"
  have "tm_id ?t \<notin> set (ids_of (batch @ tq_timers s))"
    using inv unfolding tq_inv_def Timer_new_def by (metis Suc_n_not_le_n timer.select_convs(5))
  from tq_inv_insert [OF inv this, of "Suc (tq_created s)" "insert (tm_id ?t) (tq_ids s)"]
  show ?thesis
    by (subst tq_inv_cong) (auto simp: addTimer_fields Timer_new_def)
qed

lemma tq_inv_invalidate: "tq_inv batch s \<Longrightarrow> tq_inv batch (tq_invalidateTimer i s)"
  by (auto simp: tq_inv_def tq_sorted_def tq_invalidateTimer_def)

lemma tq_inv_apply: "tq_inv batch s \<Longrightarrow> tq_inv batch (tq_apply s p)"
  by (cases p) (auto simp: tq_inv_addTimer tq_inv_invalidate)

lemma tq_inv_applys: "tq_inv batch s \<Longrightarrow> tq_inv batch (foldl tq_apply s ps)"
  by (induction ps arbitrary: s) (auto simp: tq_inv_apply)

lemma tq_armed_addTimer: "tq_inv batch s \<Longrightarrow> tq_armed_ok s \<Longrightarrow> tq_armed_ok (snd (addTimer cb when interval clock s))"
proof -
  assume inv: "tq_inv batch s" and ok: "tq_armed_ok s"
  let ?t = "Timer_new cb when interval (tq_created s)"
  have sorted: "sorted (map tm_when (tq_timers s))" using inv by (simp add: tq_inv_def tq_sorted_def)
  show ?thesis
  proof (cases "tq_timers s = [] \<or> tm_when ?t < tm_when (pq_top (tq_timers s))")
    case True
    then show ?thesis
      using top_push_when [OF sorted, of ?t]
      by (auto simp: addTimer_def addTimerInLoop_def tq_insert_def Timer_less_def Let_def intro!: resetTimerfd_ok)
  next
    case False
    then have "tm_when (pq_top (pq_push ?t (tq_timers s))) = tm_when (pq_top (tq_timers s))"
      using top_push_when [OF sorted, of ?t] by auto
    with False ok show ?thesis
      by (auto simp: addTimer_def addTimerInLoop_def tq_insert_def Timer_less_def Let_def tq_armed_ok_def)
  qed
qed

lemma rearm_ok: "tq_armed_ok (rearm clock s)"
  by (auto simp: rearm_def intro: resetTimerfd_ok) (simp add: tq_armed_ok_def)

lemma rearm_fields [simp]:
  "tq_timers (rearm clock s) = tq_timers s" "tq_ids (rearm clock s) = tq_ids s"
  "tq_created (rearm clock s) = tq_created s"
  by (simp_all add: rearm_def)

lemma getExpired_eq: "getExpired now q = (takeWhile (\<lambda>t. tm_when t < now) q, dropWhile (\<lambda>t. tm_when t < now) q)"
proof (induction q rule: length_induct)
  case (1 q)
  show ?case
  proof (cases q)
    case (Cons t q')
    with 1 have "getExpired now q' = (takeWhile (\<lambda>t. tm_when t < now) q', dropWhile (\<lambda>t. tm_when t < now) q')"
      by simp
    with Cons show ?thesis by (subst getExpired.simps) (simp add: pq_top_def pq_pop_def)
  qed (simp add: getExpired.simps)
qed

lemma sorted_takeWhile_filter:
  "sorted (map f q) \<Longrightarrow> takeWhile (\<lambda>t. f t < now) q = filter (\<lambda>t. f t < now) q" for now :: int
  by (induction q) (auto intro!: filter_False [symmetric])

lemma sorted_dropWhile_filter:
  "sorted (map f q) \<Longrightarrow> dropWhile (\<lambda>t. f t < now) q = filter (\<lambda>t. \<not> f t < now) q" for now :: int
  by (induction q) (auto intro!: filter_True [symmetric])

section \<open>Running the expired timers\<close>

text \<open>What the callbacks of a batch may change of the identifiers: new ones are larger than all
  given out before, and those that no callback invalidates stay.\<close>

lemma applys_ids:
  "tq_created s \<le> tq_created (foldl tq_apply s ps) \<and>
   {i \<in> tq_ids (foldl tq_apply s ps). i \<le> tq_created s} \<subseteq> tq_ids s \<and>
   (\<forall>i \<in> tq_ids s. OpInvalidate i \<notin> set ps \<longrightarrow> i \<in> tq_ids (foldl tq_apply s ps))"
proof (induction ps arbitrary: s)
  case (Cons p ps)
  show ?case
  proof (cases p)
    case (OpAdd cb w iv c)
    with Cons.IH [of "tq_apply s p"] show ?thesis by (auto simp: addTimer_fields)
  next
    case (OpInvalidate i)
    with Cons.IH [of "tq_apply s p"] show ?thesis by (auto simp: tq_invalidateTimer_def)
  qed
qed simp

lemma run_expired_simp [simp]:
  "run_expired acts (s, f) t =
     (if tm_id t \<in> tq_ids s then (foldl tq_apply s (acts (tm_callback t)), f @ [t]) else (s, f))"
  by (simp add: run_expired_def)

lemma run_expired_inv:
  assumes "tq_inv b (fst sr)" "foldl (run_expired acts) sr expired = sr'"
  shows "tq_inv b (fst sr')"
  using assms
proof (induction expired arbitrary: sr)
  case (Cons t expired)
  have "tq_inv b (fst (run_expired acts sr t))"
    using Cons.prems(1) by (cases sr) (simp add: tq_inv_applys)
  with Cons show ?case by simp
qed simp

lemma subseq_set_mem: "subseq xs ys \<Longrightarrow> x \<in> set xs \<Longrightarrow> x \<in> set ys"
  by (induction rule: list_emb.induct) auto

lemma run_expired_spec:
  assumes "foldl (run_expired acts) (s, f) expired = (s', f')" "\<forall>t \<in> set expired. tm_id t \<le> tq_created s"
  shows "\<exists>new. f' = f @ new \<and> subseq new expired \<and> (\<forall>t \<in> set new. tm_id t \<in> tq_ids s) \<and>
     tq_created s \<le> tq_created s' \<and> {i \<in> tq_ids s'. i \<le> tq_created s} \<subseteq> tq_ids s \<and>
     (\<forall>i \<in> tq_ids s. (\<forall>t \<in> set expired. OpInvalidate i \<notin> set (acts (tm_callback t))) \<longrightarrow>
        i \<in> tq_ids s' \<and> (\<forall>t \<in> set expired. tm_id t = i \<longrightarrow> t \<in> set new))"
  using assms
proof (induction expired arbitrary: s f)
  case (Cons t expired)
  show ?case
  proof (cases "tm_id t \<in> tq_ids s")
    case False
    with Cons.prems have "foldl (run_expired acts) (s, f) expired = (s', f')" by simp
    from Cons.IH [OF this] Cons.prems(2) obtain new where new: "f' = f @ new" "subseq new expired"
      "\<forall>t \<in> set new. tm_id t \<in> tq_ids s" "tq_created s \<le> tq_created s'"
      "{i \<in> tq_ids s'. i \<le> tq_created s} \<subseteq> tq_ids s"
      "\<forall>i \<in> tq_ids s. (\<forall>t \<in> set expired. OpInvalidate i \<notin> set (acts (tm_callback t))) \<longrightarrow>
        i \<in> tq_ids s' \<and> (\<forall>t \<in> set expired. tm_id t = i \<longrightarrow> t \<in> set new)" by auto
    show ?thesis by (rule exI [of _ new]) (use new False in \<open>auto intro: subseq_Cons'\<close>)
  next
    case True
    let ?u = "foldl tq_apply s (acts (tm_callback t))"
    note u = applys_ids [of s "acts (tm_callback t)"]
    from Cons.prems True have run: "foldl (run_expired acts) (?u, f @ [t]) expired = (s', f')"
      by simp
    have "\<forall>t \<in> set expired. tm_id t \<le> tq_created ?u" using Cons.prems(2) u by fastforce
    from Cons.IH [OF run this] obtain new where new: "f' = f @ t # new" "subseq new expired"
      "\<forall>t \<in> set new. tm_id t \<in> tq_ids ?u" "tq_created ?u \<le> tq_created s'"
      "{i \<in> tq_ids s'. i \<le> tq_created ?u} \<subseteq> tq_ids ?u"
      "\<forall>i \<in> tq_ids ?u. (\<forall>t \<in> set expired. OpInvalidate i \<notin> set (acts (tm_callback t))) \<longrightarrow>
        i \<in> tq_ids s' \<and> (\<forall>t \<in> set expired. tm_id t = i \<longrightarrow> t \<in> set new)" by auto
    have "\<forall>t \<in> set new. tm_id t \<in> tq_ids s"
      using new(2,3) Cons.prems(2) u by (auto dest: subseq_set_mem)
    moreover have "{i \<in> tq_ids s'. i \<le> tq_created s} \<subseteq> tq_ids s"
      using new(5) u by (auto dest: order_trans)
    ultimately show ?thesis
      using new u True by (intro exI [of _ "t # new"]) auto
  qed
qed simp

text \<open>An identifier that a callback invalidates stays invalid: new timers get fresh identifiers.\<close>

lemma applys_cancel:
  "i \<le> tq_created s \<Longrightarrow> OpInvalidate i \<in> set ps \<Longrightarrow> i \<notin> tq_ids (foldl tq_apply s ps)"
proof (induction ps arbitrary: s)
  case (Cons p ps)
  show ?case
  proof (cases "p = OpInvalidate i")
    case True
    with Cons.prems(1) applys_ids [of "tq_apply s p" ps] show ?thesis by (auto simp: tq_invalidateTimer_def)
  next
    case False
    have "tq_created s \<le> tq_created (tq_apply s p)" using applys_ids [of s "[p]"] by simp
    with Cons False show ?thesis by simp
  qed
qed simp

definition cancels :: "('c \<Rightarrow> 'c tq_op list) \<Rightarrow> 'c timer \<Rightarrow> nat \<Rightarrow> bool" where
  "cancels acts t i \<longleftrightarrow> OpInvalidate i \<in> set (acts (tm_callback t))"

lemma run_expired_cancels:
  assumes "foldl (run_expired acts) (s, f) expired = (s', f')" "\<forall>t \<in> set expired. tm_id t \<le> tq_created s"
  shows "\<exists>new. f' = f @ new \<and> sorted_wrt (\<lambda>t u. \<not> cancels acts t (tm_id u)) new \<and>
     (\<forall>t \<in> set new. \<forall>i \<le> tq_created s. cancels acts t i \<longrightarrow> i \<notin> tq_ids s')"
  using assms
proof (induction expired arbitrary: s f)
  case (Cons t expired)
  show ?case
  proof (cases "tm_id t \<in> tq_ids s")
    case True
    let ?u = "foldl tq_apply s (acts (tm_callback t))"
    have gone: "i \<notin> tq_ids ?u" if "i \<le> tq_created s" "cancels acts t i" for i
      using applys_cancel that by (auto simp: cancels_def)
    have mono: "tq_created s \<le> tq_created ?u" using applys_ids [of s "acts (tm_callback t)"] by simp
    from Cons.prems True have run: "foldl (run_expired acts) (?u, f @ [t]) expired = (s', f')" by simp
    have old: "\<forall>t \<in> set expired. tm_id t \<le> tq_created ?u" using Cons.prems(2) mono by fastforce
    from Cons.IH [OF run old] obtain new where new: "f' = (f @ [t]) @ new"
      "sorted_wrt (\<lambda>t u. \<not> cancels acts t (tm_id u)) new"
      "\<forall>v \<in> set new. \<forall>i \<le> tq_created ?u. cancels acts v i \<longrightarrow> i \<notin> tq_ids s'" by blast
    from run_expired_spec [OF run old] new(1) have sp: "subseq new expired" "\<forall>v \<in> set new. tm_id v \<in> tq_ids ?u"
      "{i \<in> tq_ids s'. i \<le> tq_created ?u} \<subseteq> tq_ids ?u" by auto
    have "\<not> cancels acts t (tm_id v)" if "v \<in> set new" for v
    proof -
      have "tm_id v \<le> tq_created s" using subseq_set_mem [OF sp(1) that] Cons.prems(2) by simp
      with gone sp(2) that show ?thesis by blast
    qed
    moreover have "i \<notin> tq_ids s'" if "i \<le> tq_created s" "cancels acts t i" for i
      using gone [OF that] sp(3) that(1) mono by auto
    ultimately show ?thesis using new mono by (intro exI [of _ "t # new"]) (auto intro: order_trans)
  qed (use Cons in auto)
qed simp

section \<open>Putting the expired timers back\<close>

lemma reset_one_inv: "tq_inv (t # batch) s \<Longrightarrow> tq_inv batch (reset_one now clock s t)"
proof -
  assume inv: "tq_inv (t # batch) s"
  show "tq_inv batch (reset_one now clock s t)"
  proof (cases "tm_id t \<in> tq_ids s \<and> tm_repeat t")
    case True
    let ?t = "Timer_restart t now clock"
    have id: "tm_id ?t = tm_id t" by (simp add: Timer_restart_def)
    have "reset_one now clock s t = s\<lparr>tq_timers := pq_push ?t (tq_timers s)\<rparr>"
      using True by (simp add: reset_one_def tq_insert_def)
    moreover have "ids_of ((t # batch) @ tq_timers s) = tm_id t # ids_of (batch @ tq_timers s)"
      by (simp add: ids_of_def)
    ultimately show ?thesis
      using inv unfolding tq_inv_def tq_sorted_def by (simp add: sorted_pq_push distinct_ids_push id)
  next
    case False
    with inv show ?thesis
      by (auto simp: tq_inv_def tq_sorted_def reset_one_def ids_of_def)
  qed
qed

lemma reset_loop_inv: "tq_inv expired s \<Longrightarrow> tq_wf (foldl (reset_one now clock) s expired)"
  by (induction expired arbitrary: s) (auto dest: reset_one_inv)

lemma reset_one_frame:
  "tq_ids (reset_one now clock s t) = tq_ids s - (if tm_repeat t then {} else {tm_id t})"
  "set (tq_timers (reset_one now clock s t)) = set (tq_timers s) \<union>
     (if tm_id t \<in> tq_ids s \<and> tm_repeat t then {t\<lparr>tm_when := now + 1000 * tm_interval t\<rparr>} else {})"
  "tq_created (reset_one now clock s t) = tq_created s"
  by (auto simp: reset_one_def tq_insert_def Timer_restart_def)

lemma reset_loop_frame:
  assumes "distinct (ids_of expired)" "foldl (reset_one now clock) s expired = s'"
  shows "tq_ids s' = tq_ids s - tm_id ` {t \<in> set expired. \<not> tm_repeat t}"
    "set (tq_timers s') = set (tq_timers s) \<union>
      (\<lambda>t. t\<lparr>tm_when := now + 1000 * tm_interval t\<rparr>) ` {t \<in> set expired. tm_id t \<in> tq_ids s \<and> tm_repeat t}"
    "tq_created s' = tq_created s"
  using assms
proof (induction expired arbitrary: s)
  case (Cons t expired)
  {
    case 1
    with Cons show ?case by (auto simp: reset_one_frame ids_of_def)
  next
    case 2
    have ids: "tm_id u \<in> tq_ids (reset_one now clock s t) \<longleftrightarrow> tm_id u \<in> tq_ids s" if "u \<in> set expired" for u
    proof -
      have "tm_id u \<noteq> tm_id t" using that 2(1) by (auto simp: ids_of_def intro: rev_image_eqI)
      then show ?thesis by (simp add: reset_one_frame)
    qed
    then have "{u \<in> set expired. tm_id u \<in> tq_ids (reset_one now clock s t) \<and> tm_repeat u} =
        {u \<in> set expired. tm_id u \<in> tq_ids s \<and> tm_repeat u}" by auto
    with Cons.IH(2) [of "reset_one now clock s t"] 2 show ?case
      by (auto simp: reset_one_frame ids_of_def)
  next
    case 3
    with Cons show ?case by (simp add: reset_one_frame ids_of_def)
  }
qed auto

section \<open>Handling the expiry\<close>

lemma handleRead_split:
  assumes "tq_wf s" "tq_handleRead acts now clock s = (s', fired)"
  obtains expired s1 where
    "expired = filter (\<lambda>t. tm_when t < now) (tq_timers s)"
    "foldl (run_expired acts) (s\<lparr>tq_timers := filter (\<lambda>t. \<not> tm_when t < now) (tq_timers s), tq_calling := True\<rparr>, [])
       expired = (s1, fired)"
    "s' = rearm clock (foldl (reset_one now clock) (s1\<lparr>tq_calling := False\<rparr>) expired)"
    "tq_inv expired s1" "distinct (ids_of expired)" "\<forall>t \<in> set expired. tm_id t \<le> tq_created s"
proof -
  let ?e = "filter (\<lambda>t. tm_when t < now) (tq_timers s)"
  let ?r = "filter (\<lambda>t. \<not> tm_when t < now) (tq_timers s)"
  have sorted: "sorted (map tm_when (tq_timers s))" using assms(1) by (simp add: tq_inv_def tq_sorted_def)
  have tw: "takeWhile (\<lambda>t. tm_when t < now) (tq_timers s) = ?e" by (rule sorted_takeWhile_filter [OF sorted])
  have dw: "dropWhile (\<lambda>t. tm_when t < now) (tq_timers s) = ?r" by (rule sorted_dropWhile_filter [OF sorted])
  have all: "?e @ ?r = tq_timers s" using dw tw by (metis takeWhile_dropWhile_id)
  let ?s = "s\<lparr>tq_timers := ?r, tq_calling := True\<rparr>"
  obtain s1 f where run: "foldl (run_expired acts) (?s, []) ?e = (s1, f)" by fastforce
  have eq: "f = fired" "s' = rearm clock (foldl (reset_one now clock) (s1\<lparr>tq_calling := False\<rparr>) ?e)"
    using assms(2) run by (simp_all add: tq_handleRead_def getExpired_eq tw dw reset_expired_def)
  have "tq_inv ?e ?s"
    using assms(1) all sorted sorted_filter [of tm_when "tq_timers s"] unfolding tq_inv_def tq_sorted_def by simp
  from run_expired_inv [of ?e "(?s, [])", OF _ run] this have "tq_inv ?e s1" by simp
  moreover have "distinct (ids_of ?e)" "\<forall>t \<in> set ?e. tm_id t \<le> tq_created s"
    using assms(1) unfolding tq_inv_def by (auto simp: ids_of_def distinct_map_filter)
  ultimately show thesis using that [OF refl] run eq by blast
qed

text \<open>
  C26: timers are never early and cancelled timers never run. Whatever the callbacks do to the
  queue, one expiry of the descriptor keeps the queue well formed and arms the descriptor
  for the earliest timer left; the timers it runs are among those whose time has come and
  whose identifier is valid, each at most once and in the order of their times. A timer of the
  batch that the callback of an earlier one cancels does not run in this batch; and an identifier
  that was not valid before, or that a callback of the batch has cancelled, is not valid
  afterwards, so it cannot run later either, even if it is periodic and has cancelled itself.
\<close>

theorem handleRead_safe:
  assumes "tq_wf s" "tq_handleRead acts now clock s = (s', fired)"
  shows "tq_wf s' \<and> tq_armed_ok s' \<and>
    subseq fired (filter (\<lambda>t. tm_when t < now \<and> tm_id t \<in> tq_ids s) (tq_timers s)) \<and>
    sorted (map tm_when fired) \<and>
    sorted_wrt (\<lambda>t u. \<not> cancels acts t (tm_id u)) fired \<and>
    (\<forall>i \<le> tq_created s. i \<notin> tq_ids s \<or> (\<exists>t \<in> set fired. cancels acts t i) \<longrightarrow> i \<notin> tq_ids s')"
proof -
  obtain expired s1 where e: "expired = filter (\<lambda>t. tm_when t < now) (tq_timers s)"
    "foldl (run_expired acts) (s\<lparr>tq_timers := filter (\<lambda>t. \<not> tm_when t < now) (tq_timers s), tq_calling := True\<rparr>, [])
       expired = (s1, fired)"
    "s' = rearm clock (foldl (reset_one now clock) (s1\<lparr>tq_calling := False\<rparr>) expired)"
    "tq_inv expired s1" "distinct (ids_of expired)" "\<forall>t \<in> set expired. tm_id t \<le> tq_created s"
    by (rule handleRead_split [OF assms])
  have "tq_inv expired (s1\<lparr>tq_calling := False\<rparr>)" using e(4) by (simp add: tq_inv_def tq_sorted_def)
  then have wf: "tq_wf s'" unfolding e(3) by (subst tq_inv_cong) (auto dest: reset_loop_inv)
  have run: "subseq fired expired" "\<forall>t \<in> set fired. tm_id t \<in> tq_ids s"
    "{i \<in> tq_ids s1. i \<le> tq_created s} \<subseteq> tq_ids s"
    using run_expired_spec [OF e(2)] e(6) by auto
  have sub: "subseq fired (filter (\<lambda>t. tm_when t < now \<and> tm_id t \<in> tq_ids s) (tq_timers s))"
    using subseq_filter [OF run(1), of "\<lambda>t. tm_id t \<in> tq_ids s"] run(2) unfolding e(1)
    by (simp add: conj_commute)
  have "sorted (map tm_when (tq_timers s))" using assms(1) by (simp add: tq_inv_def tq_sorted_def)
  then have "sorted (map tm_when (filter (\<lambda>t. tm_when t < now \<and> tm_id t \<in> tq_ids s) (tq_timers s)))"
    by (rule sorted_filter)
  then have "sorted (map tm_when fired)"
    using subseq_map [OF sub, of tm_when] by (metis subseq_conv_nths sorted_nths)
  moreover have c: "sorted_wrt (\<lambda>t u. \<not> cancels acts t (tm_id u)) fired"
    "\<forall>t \<in> set fired. \<forall>i \<le> tq_created s. cancels acts t i \<longrightarrow> i \<notin> tq_ids s1"
    using run_expired_cancels [OF e(2)] e(6) by auto
  moreover have "\<forall>i \<le> tq_created s. i \<notin> tq_ids s \<or> (\<exists>t \<in> set fired. cancels acts t i) \<longrightarrow> i \<notin> tq_ids s'"
    using run(3) c(2) reset_loop_frame(1) [OF e(5) refl, of now clock "s1\<lparr>tq_calling := False\<rparr>"]
    unfolding e(3) by auto
  ultimately show ?thesis using wf sub rearm_ok unfolding e(3) by blast
qed

text \<open>
  C27: no expired timer is forgotten. A timer in the queue whose time has come, whose identifier is
  valid and which none of the expired timers' callbacks cancels is run; if it is periodic it
  is put back, valid, for one interval after the expiry, and otherwise its identifier
  is given up.
\<close>

theorem handleRead_complete:
  assumes "tq_wf s" "tq_handleRead acts now clock s = (s', fired)"
    and "t \<in> set (tq_timers s)" "tm_when t < now" "tm_id t \<in> tq_ids s"
    and "\<forall>u \<in> set (tq_timers s). tm_when u < now \<longrightarrow> OpInvalidate (tm_id t) \<notin> set (acts (tm_callback u))"
  shows "t \<in> set fired \<and>
    (if tm_repeat t
     then t\<lparr>tm_when := now + 1000 * tm_interval t\<rparr> \<in> set (tq_timers s') \<and> tm_id t \<in> tq_ids s'
     else tm_id t \<notin> tq_ids s')"
proof -
  obtain expired s1 where e: "expired = filter (\<lambda>t. tm_when t < now) (tq_timers s)"
    "foldl (run_expired acts) (s\<lparr>tq_timers := filter (\<lambda>t. \<not> tm_when t < now) (tq_timers s), tq_calling := True\<rparr>, [])
       expired = (s1, fired)"
    "s' = rearm clock (foldl (reset_one now clock) (s1\<lparr>tq_calling := False\<rparr>) expired)"
    "tq_inv expired s1" "distinct (ids_of expired)" "\<forall>t \<in> set expired. tm_id t \<le> tq_created s"
    by (rule handleRead_split [OF assms(1,2)])
  have t: "t \<in> set expired" using assms(3,4) e(1) by simp
  have "\<forall>u \<in> set expired. OpInvalidate (tm_id t) \<notin> set (acts (tm_callback u))" using assms(6) e(1) by simp
  with run_expired_spec [OF e(2)] e(6) assms(5) t have run: "t \<in> set fired" "tm_id t \<in> tq_ids s1" by auto
  have uniq: "u = t" if "u \<in> set expired" "tm_id u = tm_id t" for u
    using that t e(5) unfolding ids_of_def distinct_map by (blast dest: inj_onD)
  note fr = reset_loop_frame [OF e(5) refl, of now clock "s1\<lparr>tq_calling := False\<rparr>"]
  show ?thesis
  proof (cases "tm_repeat t")
    case True
    have "tm_id t \<notin> tm_id ` {u \<in> set expired. \<not> tm_repeat u}"
    proof
      assume "tm_id t \<in> tm_id ` {u \<in> set expired. \<not> tm_repeat u}"
      then obtain u where "u \<in> set expired" "\<not> tm_repeat u" "tm_id t = tm_id u" by blast
      with uniq [of u] True show False by simp
    qed
    moreover have "t\<lparr>tm_when := now + 1000 * tm_interval t\<rparr> \<in> (\<lambda>t. t\<lparr>tm_when := now + 1000 * tm_interval t\<rparr>) `
        {t \<in> set expired. tm_id t \<in> tq_ids s1 \<and> tm_repeat t}"
      using True run(2) t by (intro imageI) simp
    ultimately show ?thesis unfolding e(3) using run True by (simp add: fr)
  next
    case False
    with t have "tm_id t \<in> tm_id ` {u \<in> set expired. \<not> tm_repeat u}" by (intro imageI) simp
    with False run show ?thesis unfolding e(3) by (simp add: fr)
  qed
qed

text \<open>A one-shot timer, a periodic timer that cancels it, and a later timer.\<close>

definition example_acts :: "nat \<Rightarrow> nat tq_op list" where
  "example_acts c = (if c = 7 then [OpInvalidate 2] else [])"

definition example_tq :: "nat timerq" where
  "example_tq = foldl tq_apply (TimerQueue_new 5) [OpAdd 7 1000 50 0, OpAdd 8 2000 0 0, OpAdd 9 900000 0 0]"

lemmas tq_eval = example_tq_def example_acts_def TimerQueue_new_def addTimer_def addTimerInLoop_def tq_insert_def
  Timer_new_def Timer_less_def Timer_restart_def resetTimerfd_def howMuchTimeFromNow_def duration_us_def pq_push_def
  pq_top_def pq_pop_def tq_invalidateTimer_def tq_handleRead_def reset_expired_def reset_one_def rearm_def getExpired_eq

lemma example_tq_wf: "tq_wf example_tq"
  unfolding example_tq_def
  by (rule tq_inv_applys) (simp add: tq_inv_def tq_sorted_def TimerQueue_new_def ids_of_def)

theorem handleRead_safe_witness:
  "map tm_id (snd (tq_handleRead example_acts 3000 3100 example_tq)) = [1] \<and>
   tq_wf (fst (tq_handleRead example_acts 3000 3100 example_tq)) \<and>
   2 \<notin> tq_ids (fst (tq_handleRead example_acts 3000 3100 example_tq))"
  using handleRead_safe [OF example_tq_wf, of example_acts 3000 3100, OF prod.collapse [symmetric]]
  by (simp add: tq_eval)

theorem handleRead_complete_witness:
  "\<exists>t \<in> set (snd (tq_handleRead example_acts 3000 3100 example_tq)). tm_id t = 1 \<and>
     t\<lparr>tm_when := 53000\<rparr> \<in> set (tq_timers (fst (tq_handleRead example_acts 3000 3100 example_tq)))"
  using handleRead_complete [OF example_tq_wf, of example_acts 3000 3100 _ _ "Timer_new 7 1000 50 0",
      OF prod.collapse [symmetric]]
  by (simp add: tq_eval)

end
