(* ===== verification/TimingWheel.thy ===== *)
theory TimingWheel
  imports Cooper_Prelude
begin

text \<open>
  The hierarchical timing wheel of \<^verbatim>\<open>cooper/util/TimingWheel.*\<close>, which closes idle connections.
  A wheel is a queue of buckets; an entry that is too far in the future for wheel \<open>i\<close> is
  wrapped into a callback entry for wheel \<open>i + 1\<close>, whose destruction puts it into wheel \<open>i\<close>.
  The model is for the tick interval \<^verbatim>\<open>TIMING_TICK_INTERVAL\<close> of one second, the only one in use,
  with the rounding of its \<^verbatim>\<open>float\<close> arithmetic. The abstraction of a wheel is the set of pairs of
  an entry and the tick at which it is dropped: inserting adds the right pair, and a tick drops
  exactly the pairs that are due.
\<close>

section \<open>Conversion to float\<close>

text \<open>Single precision has 24 bits; larger integers are rounded to nearest, ties to even.\<close>

fun bitlen :: "nat \<Rightarrow> nat" where
  "bitlen n = (if n = 0 then 0 else Suc (bitlen (n div 2)))"

declare bitlen.simps [simp del]

definition round_even :: "nat \<Rightarrow> nat \<Rightarrow> nat" where
  "round_even n d =
     (if 2 * (n mod d) < d \<or> 2 * (n mod d) = d \<and> even (n div d) then n div d else Suc (n div d))"

definition float32 :: "nat \<Rightarrow> nat" where
  "float32 n = (if n < 2 ^ 24 then n else (let d = 2 ^ (bitlen n - 24) in round_even n d * d))"

lemma float32_exact [simp]: "n < 16777216 \<Longrightarrow> float32 n = n"
  by (simp add: float32_def)

section \<open>The wheels\<close>

text \<open>An \<^verbatim>\<open>EntryPtr\<close>: an object of the client, or a callback entry, identified by its address,
  with the values its closure has captured.\<close>

datatype 'u entry = User 'u | CallbackEntry nat nat nat nat "'u entry"

record 'u wheel =
  tw_wheels :: "'u entry list list list"
  tw_ticks :: nat
  tw_wheelsNum :: nat
  tw_buckets :: nat
  tw_fresh :: nat

text \<open>The loop of the constructor that counts the wheels; \<^verbatim>\<open>ticksNum\<close> may wrap around.\<close>

partial_function (option) wheels_loop :: "nat \<Rightarrow> nat \<Rightarrow> nat \<Rightarrow> nat \<Rightarrow> nat option" where
  "wheels_loop maxTickNum buckets ticksNum wheelsNum =
     (if maxTickNum > ticksNum
      then wheels_loop maxTickNum buckets (szmul ticksNum buckets) (Suc wheelsNum)
      else Some wheelsNum)"

definition TimingWheel_new :: "nat \<Rightarrow> nat \<Rightarrow> 'u wheel result option" where
  "TimingWheel_new maxTimeout bucketsNumPerWheel =
     (if \<not> (maxTimeout > 1 \<and> bucketsNumPerWheel > 1) then Some (Inl AssertFail)
      else map_option (\<lambda>n. Inr \<lparr>tw_wheels = replicate n (replicate bucketsNumPerWheel []), tw_ticks = 0,
             tw_wheelsNum = n, tw_buckets = bucketsNumPerWheel, tw_fresh = 0\<rparr>)
           (wheels_loop (float32 maxTimeout) bucketsNumPerWheel bucketsNumPerWheel 1))"

text \<open>\<^verbatim>\<open>wheels_[i][k].insert(entry)\<close>; a bucket is a set.\<close>

definition wheel_put :: "nat \<Rightarrow> nat \<Rightarrow> 'u entry \<Rightarrow> 'u wheel \<Rightarrow> 'u wheel result" where
  "wheel_put i k e w =
     (if i < length (tw_wheels w) \<and> k < length (tw_wheels w ! i)
      then Inr (w\<lparr>tw_wheels := (tw_wheels w)[i := (tw_wheels w ! i)[k := List.insert e (tw_wheels w ! i ! k)]]\<rparr>)
      else Inl OutOfBounds)"

text \<open>A reference to an entry is dropped. A callback entry has one owner, so its destructor runs:
  the captured entry goes into wheel \<open>i\<close>. Of the client's entries the dropped ones are recorded.\<close>

fun release :: "'u wheel \<times> 'u list \<Rightarrow> 'u entry \<Rightarrow> ('u wheel \<times> 'u list) result" where
  "release (w, dropped) (User u) = Inr (w, dropped @ [u])"
| "release (w, dropped) (CallbackEntry a delay i t e) =
     (if delay > 0
      then bindR (wheel_put i ((delay + t mod tw_buckets w - 1) mod tw_buckets w) e w) (\<lambda>w'. Inr (w', dropped))
      else Inr (w, dropped))"

text \<open>One iteration of the loop over the wheels in the timer callback.\<close>

definition tick_wheel :: "'u wheel \<times> 'u list \<Rightarrow> nat \<Rightarrow> ('u wheel \<times> 'u list) result" where
  "tick_wheel wd i =
     (let (w, dropped) = wd; pow = tw_buckets w ^ i in
      if tw_ticks w mod pow = 0
      then (if i < length (tw_wheels w) \<and> tw_wheels w ! i \<noteq> []
            then (let tmp = hd (tw_wheels w ! i);
                      w' = w\<lparr>tw_wheels := (tw_wheels w)[i := tl (tw_wheels w ! i) @ [[]]]\<rparr>
                  in foldR release (w', dropped) tmp)
            else Inl OutOfBounds)
      else Inr (w, dropped))"

definition tick :: "'u wheel \<Rightarrow> ('u wheel \<times> 'u list) result" where
  "tick w = foldR tick_wheel (w\<lparr>tw_ticks := Suc (tw_ticks w)\<rparr>, []) [0 ..< tw_wheelsNum w]"

text \<open>The loop of \<^verbatim>\<open>insertEntryInloop\<close> from wheel \<open>i\<close> on.\<close>

function insert_loop :: "nat \<Rightarrow> nat \<Rightarrow> nat \<Rightarrow> 'u entry \<Rightarrow> 'u wheel \<Rightarrow> 'u wheel result" where
  "insert_loop i delay t e w =
     (if i < tw_wheelsNum w
      then (if delay \<le> tw_buckets w then wheel_put i (delay - 1) e w
            else (let delay' = (delay + t mod tw_buckets w - 1) div tw_buckets w;
                      t' = t div tw_buckets w
                  in if i < tw_wheelsNum w - 1
                     then insert_loop (Suc i) delay' t' (CallbackEntry (tw_fresh w) delay i t e)
                            (w\<lparr>tw_fresh := Suc (tw_fresh w)\<rparr>)
                     else bindR (wheel_put i (tw_buckets w - 1) e w) (insert_loop (Suc i) delay' t' e)))
      else Inr w)"
  by pat_completeness auto
termination
proof (relation "measure (\<lambda>(i, delay, t, e, w). tw_wheelsNum w - i)", goal_cases)
  case (3 i delay t e w delay' t' w')
  then show ?case by (auto simp: wheel_put_def split: if_splits)
qed auto

declare insert_loop.simps [simp del]

definition insertEntryInloop :: "nat \<Rightarrow> 'u entry \<Rightarrow> 'u wheel \<Rightarrow> 'u wheel result" where
  "insertEntryInloop delay e w = insert_loop 0 (float32 (float32 delay + 1)) (tw_ticks w) e w"

text \<open>\<^verbatim>\<open>insertEntry\<close> in the loop thread.\<close>

definition insertEntry :: "nat \<Rightarrow> 'u entry option \<Rightarrow> 'u wheel \<Rightarrow> 'u wheel result" where
  "insertEntry delay entryPtr w =
     (if delay = 0 then Inr w
      else case entryPtr of None \<Rightarrow> Inr w | Some e \<Rightarrow> insertEntryInloop delay e w)"

text \<open>The destructor clears the wheels from the last to the first.\<close>

definition clear_wheel :: "'u wheel \<times> 'u list \<Rightarrow> nat \<Rightarrow> ('u wheel \<times> 'u list) result" where
  "clear_wheel wd i =
     (let (w, dropped) = wd
      in foldR release (w\<lparr>tw_wheels := (tw_wheels w)[i := []]\<rparr>, dropped) (concat (tw_wheels w ! i)))"

definition TimingWheel_destroy :: "'u wheel \<Rightarrow> ('u wheel \<times> 'u list) result" where
  "TimingWheel_destroy w = foldR clear_wheel (w, []) (rev [0 ..< length (tw_wheels w)])"

section \<open>What is scheduled\<close>

text \<open>
  The tick at which bucket \<open>j\<close> of wheel \<open>l\<close> is popped when the counter is \<open>T\<close>; the tick at which an
  entry popped at \<open>p\<close> is finally dropped; the entries that may stand in wheel \<open>l\<close>.
\<close>

definition pop_time :: "nat \<Rightarrow> nat \<Rightarrow> nat \<Rightarrow> nat \<Rightarrow> nat" where
  "pop_time B l j T = B ^ l * (T div B ^ l + j + 1)"

fun fire :: "nat \<Rightarrow> 'u entry \<Rightarrow> nat \<Rightarrow> 'u \<times> nat" where
  "fire B (User u) p = (u, p)"
| "fire B (CallbackEntry a delay i t e) p = fire B e (pop_time B i ((delay + t mod B - 1) mod B) p)"

fun entry_ok :: "nat \<Rightarrow> 'u entry \<Rightarrow> bool" where
  "entry_ok l (User u) \<longleftrightarrow> True"
| "entry_ok l (CallbackEntry a delay i t e) \<longleftrightarrow> l = Suc i \<and> 0 < delay \<and> entry_ok i e"

definition wheel_ok :: "'u wheel \<Rightarrow> bool" where
  "wheel_ok w \<longleftrightarrow> 1 < tw_buckets w \<and> 0 < tw_wheelsNum w \<and> length (tw_wheels w) = tw_wheelsNum w \<and>
     (\<forall>l < tw_wheelsNum w. length (tw_wheels w ! l) = tw_buckets w \<and>
        (\<forall>j < tw_buckets w. \<forall>e \<in> set (tw_wheels w ! l ! j). entry_ok l e))"

definition sched_at :: "(nat \<Rightarrow> nat) \<Rightarrow> 'u wheel \<Rightarrow> ('u \<times> nat) set" where
  "sched_at T w = (\<Union>l < tw_wheelsNum w. \<Union>j < tw_buckets w.
     (\<lambda>e. fire (tw_buckets w) e (pop_time (tw_buckets w) l j (T l))) ` set (tw_wheels w ! l ! j))"

definition sched :: "'u wheel \<Rightarrow> ('u \<times> nat) set" where
  "sched w = sched_at (\<lambda>_. tw_ticks w) w"

section \<open>Arithmetic of the wheels\<close>

lemma pop_time_later: "0 < B \<Longrightarrow> p < pop_time B l j p"
proof -
  assume "0 < B"
  then have "p < B ^ l * (p div B ^ l + 1)"
    by (metis add.commute dividend_less_times_div mult.commute zero_less_power plus_1_eq_Suc mult_Suc_right)
  also have "\<dots> \<le> pop_time B l j p" by (simp add: pop_time_def)
  finally show ?thesis .
qed

lemma fire_later: "0 < B \<Longrightarrow> p \<le> snd (fire B e p)"
  by (induction e arbitrary: p) (auto intro: order_trans [OF less_imp_le [OF pop_time_later]])

text \<open>Waiting in the next wheel and then in this one is waiting the whole delay.\<close>

lemma pop_time_cascade:
  fixes B d i T :: nat
  defines "n \<equiv> d + (T div B ^ i) mod B - 1"
  assumes "1 < B" "B < d"
  shows "pop_time B i (n mod B) (pop_time B (Suc i) (n div B - 1) T) = pop_time B i (d - 1) T"
proof -
  let ?t = "T div B ^ i"
  have "1 \<le> n div B"
    using assms(2,3) by (simp add: n_def Suc_le_eq div_greater_zero_iff)
  moreover have "T div B ^ Suc i = ?t div B" by (metis div_mult2_eq power_Suc2)
  ultimately have P: "pop_time B (Suc i) (n div B - 1) T = B ^ i * (B * (?t div B + n div B))"
    by (simp add: pop_time_def)
  have "pop_time B i (n mod B) (pop_time B (Suc i) (n div B - 1) T)
      = B ^ i * (B * (?t div B + n div B) + n mod B + 1)"
    unfolding P using assms(2) by (simp add: pop_time_def)
  also have "B * (?t div B + n div B) + n mod B + 1 = B * (?t div B) + n + 1"
    using mult_div_mod_eq [of B n] unfolding distrib_left by linarith
  also have "\<dots> = B * (?t div B) + ?t mod B + d" using assms(3) by (simp add: n_def)
  also have "\<dots> = ?t + d" by simp
  finally show ?thesis using assms(3) by (simp add: pop_time_def)
qed

lemma delay_div_bound:
  fixes B d m :: nat
  assumes "1 < B" "d \<le> B ^ Suc m + 1" "r < B"
  shows "(d + r - 1) div B \<le> B ^ m"
proof -
  have "d + r - 1 < (B ^ m + 1) * B" using assms by (simp add: algebra_simps)
  then have "(d + r - 1) div B < B ^ m + 1" by (rule less_mult_imp_div_less)
  then show ?thesis by simp
qed

lemma pop_time_same: "T div B ^ l = T' div B ^ l \<Longrightarrow> pop_time B l j T = pop_time B l j T'"
  by (simp add: pop_time_def)

lemma Suc_div_cases:
  fixes T m :: nat
  assumes "0 < m"
  shows "Suc T mod m \<noteq> 0 \<Longrightarrow> Suc T div m = T div m"
    and "Suc T mod m = 0 \<Longrightarrow> Suc T div m = Suc (T div m) \<and> m * Suc (T div m) = Suc T"
proof -
  show "Suc T mod m \<noteq> 0 \<Longrightarrow> Suc T div m = T div m" by (simp add: div_Suc)
  assume "Suc T mod m = 0"
  then show "Suc T div m = Suc (T div m) \<and> m * Suc (T div m) = Suc T"
    using assms by (metis div_Suc add_cancel_right_right mult_div_mod_eq)
qed

section \<open>Inserting\<close>

lemma UN_insert_at:
  assumes "i < W" "k < B"
  shows "(\<Union>l<W. \<Union>j<B. F l j ` (if l = i \<and> j = k then insert e (S l j) else S l j)) =
    insert (F i k e) (\<Union>l<W. \<Union>j<B. F l j ` S l j)" (is "?L = ?R")
proof (rule set_eqI)
  fix x
  have "x \<in> F l j ` (if l = i \<and> j = k then insert e (S l j) else S l j) \<longleftrightarrow>
      x \<in> F l j ` S l j \<or> l = i \<and> j = k \<and> x = F i k e" for l j by auto
  then show "x \<in> ?L \<longleftrightarrow> x \<in> ?R" using assms by (simp only: UN_iff insert_iff lessThan_iff) blast
qed

lemmas wheel_frame = wheel_ok_def sched_at_def

lemma wheel_put_ok:
  assumes "wheel_ok w" "i < tw_wheelsNum w" "k < tw_buckets w" "entry_ok i e"
  obtains w' where "wheel_put i k e w = Inr w'" "wheel_ok w'" "tw_ticks w' = tw_ticks w"
    "tw_buckets w' = tw_buckets w" "tw_wheelsNum w' = tw_wheelsNum w"
    "\<And>T. sched_at T w' = insert (fire (tw_buckets w) e (pop_time (tw_buckets w) i k (T i))) (sched_at T w)"
proof -
  let ?ws = "tw_wheels w" and ?W = "tw_wheelsNum w" and ?B = "tw_buckets w"
  define w' where "w' = w\<lparr>tw_wheels := ?ws[i := (?ws ! i)[k := List.insert e (?ws ! i ! k)]]\<rparr>"
  have len: "length ?ws = ?W" "length (?ws ! i) = ?B" using assms(1,2) by (simp_all add: wheel_ok_def)
  have at: "tw_wheels w' ! l ! j = (if l = i \<and> j = k then List.insert e (?ws ! i ! k) else ?ws ! l ! j)"
    if "l < ?W" "j < ?B" for l j
    using that assms(2,3) len by (auto simp: w'_def nth_list_update)
  have put: "wheel_put i k e w = Inr w'" using assms(2,3) len by (simp add: wheel_put_def w'_def)
  have lens: "length (tw_wheels w' ! l) = ?B" if "l < ?W" for l
    using that assms(1,2) len by (auto simp: w'_def nth_list_update wheel_ok_def)
  have ok: "wheel_ok w'"
    unfolding wheel_ok_def
  proof (intro conjI allI impI ballI)
    fix l assume "l < tw_wheelsNum w'"
    then have l: "l < ?W" by (simp add: w'_def)
    then show "length (tw_wheels w' ! l) = tw_buckets w'" using lens by (simp add: w'_def)
    fix j x assume "j < tw_buckets w'" and x: "x \<in> set (tw_wheels w' ! l ! j)"
    then have "j < ?B" by (simp add: w'_def)
    with x l at assms show "entry_ok l x" by (auto simp: wheel_ok_def split: if_splits)
  qed (use assms(1) in \<open>auto simp: wheel_ok_def w'_def\<close>)
  have "sched_at T w' = insert (fire ?B e (pop_time ?B i k (T i))) (sched_at T w)" for T
  proof -
    have "sched_at T w' = (\<Union>l<?W. \<Union>j<?B. (\<lambda>x. fire ?B x (pop_time ?B l j (T l))) ` set (tw_wheels w' ! l ! j))"
      by (simp add: sched_at_def w'_def)
    also have "\<dots> = (\<Union>l<?W. \<Union>j<?B. (\<lambda>x. fire ?B x (pop_time ?B l j (T l))) `
        (if l = i \<and> j = k then insert e (set (?ws ! l ! j)) else set (?ws ! l ! j)))"
      by (intro SUP_cong refl) (simp add: at)
    also have "\<dots> = insert (fire ?B e (pop_time ?B i k (T i))) (sched_at T w)"
      unfolding sched_at_def by (rule UN_insert_at [OF assms(2,3)])
    finally show ?thesis .
  qed
  with put ok show thesis by (intro that [of w']) (simp_all add: w'_def)
qed

lemma wheel_fresh [simp]:
  "wheel_ok (w\<lparr>tw_fresh := n\<rparr>) = wheel_ok w" "sched_at T (w\<lparr>tw_fresh := n\<rparr>) = sched_at T w"
  by (simp_all add: wheel_frame)

lemma insert_loop_ok:
  assumes "wheel_ok w" "i < tw_wheelsNum w" "1 \<le> d"
    "d \<le> tw_buckets w ^ (tw_wheelsNum w - i) \<or> d \<le> tw_buckets w ^ (tw_wheelsNum w - i) + 1 \<and> Suc i < tw_wheelsNum w"
    "t = tw_ticks w div tw_buckets w ^ i" "entry_ok i e"
  shows "\<exists>w'. insert_loop i d t e w = Inr w' \<and> wheel_ok w' \<and> tw_ticks w' = tw_ticks w \<and>
    tw_buckets w' = tw_buckets w \<and> tw_wheelsNum w' = tw_wheelsNum w \<and>
    sched w' = insert (fire (tw_buckets w) e (pop_time (tw_buckets w) i (d - 1) (tw_ticks w))) (sched w)"
  using assms
proof (induction "tw_wheelsNum w - i" arbitrary: i d t e w)
  case 0
  then show ?case by simp
next
  case (Suc m)
  let ?B = "tw_buckets w" and ?W = "tw_wheelsNum w" and ?T = "tw_ticks w"
  have B: "1 < ?B" using Suc.prems(1) by (simp add: wheel_ok_def)
  show ?case
  proof (cases "d \<le> ?B")
    case True
    then have k: "d - 1 < ?B" using Suc.prems(3) B by simp
    obtain w' where "wheel_put i (d - 1) e w = Inr w'" "wheel_ok w'" "tw_ticks w' = ?T"
      "tw_buckets w' = ?B" "tw_wheelsNum w' = ?W"
      "\<And>T. sched_at T w' = insert (fire ?B e (pop_time ?B i (d - 1) (T i))) (sched_at T w)"
      by (rule wheel_put_ok [OF Suc.prems(1,2) k Suc.prems(6)]) blast
    with True Suc.prems(2) show ?thesis
      by (subst insert_loop.simps) (simp add: sched_def)
  next
    case False
    let ?n = "d + t mod ?B - 1"
    let ?w = "w\<lparr>tw_fresh := Suc (tw_fresh w)\<rparr>" and ?e = "CallbackEntry (tw_fresh w) d i t e"
    have m: "?W - i = Suc m" using Suc.hyps(2) by simp
    have "m \<noteq> 0"
    proof
      assume "m = 0"
      with Suc.prems(4) m False show False by auto
    qed
    then have i: "i < ?W - 1" using m by simp
    have pos: "1 \<le> ?n div ?B" using False B by (simp add: Suc_le_eq div_greater_zero_iff)
    have t': "t div ?B = ?T div ?B ^ Suc i"
      unfolding Suc.prems(5) by (metis div_mult2_eq power_Suc2)
    have bound: "?n div ?B \<le> ?B ^ m"
      using Suc.prems(4) m B by (intro delay_div_bound) (auto simp del: power_Suc)
    have "\<exists>w'. insert_loop (Suc i) (?n div ?B) (t div ?B) ?e ?w = Inr w' \<and> wheel_ok w' \<and>
        tw_ticks w' = tw_ticks ?w \<and> tw_buckets w' = tw_buckets ?w \<and> tw_wheelsNum w' = tw_wheelsNum ?w \<and>
        sched w' = insert (fire (tw_buckets ?w) ?e
          (pop_time (tw_buckets ?w) (Suc i) (?n div ?B - 1) (tw_ticks ?w))) (sched ?w)"
    proof (rule Suc.hyps(1))
      show "m = tw_wheelsNum ?w - Suc i" using m by simp
      show "wheel_ok ?w" using Suc.prems(1) by simp
      show "Suc i < tw_wheelsNum ?w" using i by simp
      show "1 \<le> ?n div ?B" by (rule pos)
      have "tw_wheelsNum ?w - Suc i = m" using m by simp
      then show "?n div ?B \<le> tw_buckets ?w ^ (tw_wheelsNum ?w - Suc i) \<or>
          ?n div ?B \<le> tw_buckets ?w ^ (tw_wheelsNum ?w - Suc i) + 1 \<and> Suc (Suc i) < tw_wheelsNum ?w" using bound by simp
      show "t div ?B = tw_ticks ?w div tw_buckets ?w ^ Suc i" using t' by simp
      show "entry_ok (Suc i) ?e" using Suc.prems(3,6) by simp
    qed
    moreover have "fire ?B ?e (pop_time ?B (Suc i) (?n div ?B - 1) ?T) = fire ?B e (pop_time ?B i (d - 1) ?T)"
      using pop_time_cascade [OF B, of d i ?T] False by (simp add: Suc.prems(5))
    moreover have "insert_loop i d t e w = insert_loop (Suc i) (?n div ?B) (t div ?B) ?e ?w"
      using False i Suc.prems(2) by (subst insert_loop.simps) (simp add: Let_def)
    ultimately show ?thesis by (simp add: sched_def)
  qed
qed

text \<open>
  a delay is kept exactly. Inserting an entry with a delay the wheels can represent (and the
  float arithmetic is exact for) succeeds without leaving a bucket queue, and adds to the
  schedule precisely one drop of this entry, \<open>delay + 1\<close> ticks from now, however many wheels
  the entry has to pass through on its way.
\<close>

theorem insertEntry_exact:
  assumes "wheel_ok w" "0 < delay" "delay < 16777215"
    "delay + 1 \<le> tw_buckets w ^ tw_wheelsNum w \<or> delay \<le> tw_buckets w ^ tw_wheelsNum w \<and> 1 < tw_wheelsNum w"
  shows "\<exists>w'. insertEntry delay (Some (User u)) w = Inr w' \<and> wheel_ok w' \<and> tw_ticks w' = tw_ticks w \<and>
    tw_buckets w' = tw_buckets w \<and> tw_wheelsNum w' = tw_wheelsNum w \<and> sched w' = insert (u, tw_ticks w + delay + 1) (sched w)"
proof -
  have W: "0 < tw_wheelsNum w" using assms(1) by (simp add: wheel_ok_def)
  have "float32 (float32 delay + 1) = delay + 1" using assms(3) by simp
  then have "insertEntry delay (Some (User u)) w = insert_loop 0 (delay + 1) (tw_ticks w) (User u) w"
    using assms(2) by (simp add: insertEntry_def insertEntryInloop_def)
  with insert_loop_ok [OF assms(1) W, of "delay + 1" "tw_ticks w" "User u"] assms(4)
  show ?thesis by (auto simp: pop_time_def)
qed

section \<open>Ticking\<close>

text \<open>During a tick the wheels below \<open>i\<close> have been turned already.\<close>

definition mid :: "nat \<Rightarrow> nat \<Rightarrow> nat \<Rightarrow> nat" where
  "mid T i l = (if l < i then Suc T else T)"

abbreviation same_shape :: "'u wheel \<Rightarrow> 'u wheel \<Rightarrow> bool" where
  "same_shape w w' \<equiv> tw_ticks w' = tw_ticks w \<and> tw_buckets w' = tw_buckets w \<and> tw_wheelsNum w' = tw_wheelsNum w"

abbreviation drops_at :: "nat \<Rightarrow> 'u list \<Rightarrow> ('u \<times> nat) set" where
  "drops_at t us \<equiv> (\<lambda>u. (u, t)) ` set us"

lemma release_ok:
  assumes "wheel_ok w" "i < tw_wheelsNum w" "entry_ok i e" "\<And>l. l < i \<Longrightarrow> T l = t"
  shows "\<exists>w' d'. release (w, d) e = Inr (w', d') \<and> wheel_ok w' \<and> same_shape w w' \<and>
    sched_at T w' \<union> drops_at t d' = insert (fire (tw_buckets w) e t) (sched_at T w \<union> drops_at t d)"
proof (cases e)
  case (User u)
  then show ?thesis using assms(1) by auto
next
  case (CallbackEntry a delay k s x)
  let ?j = "(delay + s mod tw_buckets w - 1) mod tw_buckets w"
  have ok: "i = Suc k" "0 < delay" "entry_ok k x" using assms(3) CallbackEntry by simp_all
  have k: "k < tw_wheelsNum w" "?j < tw_buckets w" using assms(1,2) ok(1) by (simp_all add: wheel_ok_def)
  obtain w' where "wheel_put k ?j x w = Inr w'" "wheel_ok w'" "tw_ticks w' = tw_ticks w"
    "tw_buckets w' = tw_buckets w" "tw_wheelsNum w' = tw_wheelsNum w"
    "\<And>T. sched_at T w' = insert (fire (tw_buckets w) x (pop_time (tw_buckets w) k ?j (T k))) (sched_at T w)"
    by (rule wheel_put_ok [OF assms(1) k ok(3)]) blast
  moreover have "T k = t" using assms(4) ok(1) by simp
  ultimately show ?thesis using CallbackEntry ok(2) by simp
qed

lemma release_all_ok:
  assumes "wheel_ok w" "i < tw_wheelsNum w" "\<forall>e \<in> set es. entry_ok i e" "\<And>l. l < i \<Longrightarrow> T l = t"
  shows "\<exists>w' d'. foldR release (w, d) es = Inr (w', d') \<and> wheel_ok w' \<and> same_shape w w' \<and>
    sched_at T w' \<union> drops_at t d' = (\<lambda>e. fire (tw_buckets w) e t) ` set es \<union> (sched_at T w \<union> drops_at t d)"
  using assms
proof (induction es arbitrary: w d)
  case (Cons e es)
  obtain w1 d1 where 1: "release (w, d) e = Inr (w1, d1)" "wheel_ok w1" "same_shape w w1"
    "sched_at T w1 \<union> drops_at t d1 = insert (fire (tw_buckets w) e t) (sched_at T w \<union> drops_at t d)"
    using release_ok [OF Cons.prems(1,2), of e T t d] Cons.prems(3,4) by auto
  obtain w2 d2 where 2: "foldR release (w1, d1) es = Inr (w2, d2)" "wheel_ok w2" "same_shape w1 w2"
    "sched_at T w2 \<union> drops_at t d2 =
       (\<lambda>e. fire (tw_buckets w1) e t) ` set es \<union> (sched_at T w1 \<union> drops_at t d1)"
    using Cons.IH [of w1 d1] Cons.prems 1 by auto
  show ?case
    by (rule exI [of _ w2], rule exI [of _ d2]) (use 1 2 in simp)
qed simp

lemma UN_lessThan_split: "(\<Union>j<Suc n. F j) = F 0 \<union> (\<Union>j<n. F (Suc j))"
  by (simp add: lessThan_Suc_eq_insert_0)

lemma UN_if_less: "m \<le> n \<Longrightarrow> (\<Union>j<n. if j < m then F j else {}) = (\<Union>j<m. F j)" for m n :: nat
proof -
  assume "m \<le> n"
  then have "{..<n} \<inter> {j. j < m} = {..<m}" by auto
  then show ?thesis by simp
qed

lemma rotate_sched:
  assumes w: "wheel_ok w" "i < tw_wheelsNum w" and t: "tw_ticks w = Suc T" "Suc T mod tw_buckets w ^ i = 0"
  defines "w' \<equiv> w\<lparr>tw_wheels := (tw_wheels w)[i := tl (tw_wheels w ! i) @ [[]]]\<rparr>"
  shows "wheel_ok w'"
    and "sched_at (mid T i) w = (\<lambda>e. fire (tw_buckets w) e (Suc T)) ` set (hd (tw_wheels w ! i)) \<union>
           sched_at (mid T (Suc i)) w'"
proof -
  let ?ws = "tw_wheels w" and ?W = "tw_wheelsNum w" and ?B = "tw_buckets w"
  let ?S = "\<lambda>v T l j. (\<lambda>e. fire ?B e (pop_time ?B l j (T l))) ` set (tw_wheels v ! l ! j)"
  have len: "length ?ws = ?W" "length (?ws ! i) = ?B" "1 < ?B" using w by (simp_all add: wheel_ok_def)
  then obtain b bs where b: "?ws ! i = b # bs" "length bs = ?B - 1" by (cases "?ws ! i") auto
  have new: "tw_wheels w' ! l = (if l = i then bs @ [[]] else ?ws ! l)" if "l < ?W" for l
    using that w(2) len b by (simp add: w'_def)
  have fields: "tw_wheelsNum w' = ?W" "tw_buckets w' = ?B" "length (tw_wheels w') = ?W"
    using len by (simp_all add: w'_def)
  have at: "(bs @ [[]]) ! j = (if Suc j < ?B then ?ws ! i ! Suc j else [])" if "j < ?B" for j
    using that b by (auto simp: nth_append less_Suc_eq)
  show "wheel_ok w'"
    unfolding wheel_ok_def fields
  proof (intro conjI allI impI ballI)
    fix l assume l: "l < ?W"
    then show "length (tw_wheels w' ! l) = ?B" using new b(2) len(3) w(1) by (auto simp: wheel_ok_def)
    fix j x assume "j < ?B" "x \<in> set (tw_wheels w' ! l ! j)"
    with l new at w show "entry_ok l x"
      by (auto simp: wheel_ok_def split: if_splits)
  qed (use w in \<open>auto simp: wheel_ok_def\<close>)
  have pop0: "pop_time ?B i 0 T = Suc T"
    using Suc_div_cases(2) [of "?B ^ i" T] t(2) len(3) by (simp add: pop_time_def)
  have popS: "pop_time ?B i (Suc j) T = pop_time ?B i j (Suc T)" for j
    using Suc_div_cases(2) [of "?B ^ i" T] t(2) len(3) by (simp add: pop_time_def)
  have here: "(\<Union>j<?B. ?S w (mid T i) i j) =
      (\<lambda>e. fire ?B e (Suc T)) ` set b \<union> (\<Union>j<?B. ?S w' (mid T (Suc i)) i j)"
  proof -
    have "(\<Union>j<?B. ?S w (mid T i) i j) = ?S w (mid T i) i 0 \<union> (\<Union>j<?B - 1. ?S w (mid T i) i (Suc j))"
      using UN_lessThan_split [of "\<lambda>j. ?S w (mid T i) i j" "?B - 1"] len(3) by simp
    also have "?S w (mid T i) i 0 = (\<lambda>e. fire ?B e (Suc T)) ` set b"
      using b(1) pop0 by (simp add: mid_def)
    also have "(\<Union>j<?B - 1. ?S w (mid T i) i (Suc j)) = (\<Union>j<?B. ?S w' (mid T (Suc i)) i j)"
    proof -
      have "?S w' (mid T (Suc i)) i j = (if j < ?B - 1 then ?S w (mid T i) i (Suc j) else {})" if "j < ?B" for j
        using that new [OF w(2)] at [OF that] by (auto simp: mid_def popS less_diff_conv)
      then have "(\<Union>j<?B. ?S w' (mid T (Suc i)) i j) = (\<Union>j<?B. if j < ?B - 1 then ?S w (mid T i) i (Suc j) else {})"
        by (intro SUP_cong) auto
      also have "\<dots> = (\<Union>j<?B - 1. ?S w (mid T i) i (Suc j))" by (rule UN_if_less) simp
      finally show ?thesis by simp
    qed
    finally show ?thesis .
  qed
  have other: "(\<Union>j<?B. ?S w (mid T i) l j) = (\<Union>j<?B. ?S w' (mid T (Suc i)) l j)" if "l < ?W" "l \<noteq> i" for l
    using that new by (auto simp: mid_def)
  have split: "(\<Union>l<?W. F l) = F i \<union> (\<Union>l\<in>{..<?W} - {i}. F l)" for F :: "nat \<Rightarrow> ('a \<times> nat) set"
    using w(2) by auto
  have "(\<Union>l\<in>{..<?W} - {i}. \<Union>j<?B. ?S w (mid T i) l j) =
      (\<Union>l\<in>{..<?W} - {i}. \<Union>j<?B. ?S w' (mid T (Suc i)) l j)"
    by (rule SUP_cong) (use other in auto)
  with here show "sched_at (mid T i) w = (\<lambda>e. fire ?B e (Suc T)) ` set (hd (?ws ! i)) \<union> sched_at (mid T (Suc i)) w'"
    unfolding sched_at_def fields b(1) list.sel split by (simp only: Un_assoc)
qed

lemma tick_wheel_ok:
  assumes "wheel_ok w" "i < tw_wheelsNum w" "tw_ticks w = Suc T"
  shows "\<exists>w' d'. tick_wheel (w, d) i = Inr (w', d') \<and> wheel_ok w' \<and> same_shape w w' \<and>
    sched_at (mid T (Suc i)) w' \<union> drops_at (Suc T) d' = sched_at (mid T i) w \<union> drops_at (Suc T) d"
proof (cases "Suc T mod tw_buckets w ^ i = 0")
  case True
  let ?w = "w\<lparr>tw_wheels := (tw_wheels w)[i := tl (tw_wheels w ! i) @ [[]]]\<rparr>"
  note rot = rotate_sched [OF assms True]
  have len: "i < length (tw_wheels w)" "tw_wheels w ! i \<noteq> []" "0 < tw_buckets w"
    using assms(1,2) unfolding wheel_ok_def by (auto dest!: spec [of _ i])
  have es: "\<forall>e \<in> set (hd (tw_wheels w ! i)). entry_ok i e"
    using assms(1,2) len unfolding wheel_ok_def by (metis hd_conv_nth)
  obtain w' d' where 1: "foldR release (?w, d) (hd (tw_wheels w ! i)) = Inr (w', d')" "wheel_ok w'" "same_shape ?w w'"
    "sched_at (mid T (Suc i)) w' \<union> drops_at (Suc T) d' =
       (\<lambda>e. fire (tw_buckets ?w) e (Suc T)) ` set (hd (tw_wheels w ! i)) \<union>
       (sched_at (mid T (Suc i)) ?w \<union> drops_at (Suc T) d)"
    using release_all_ok [OF rot(1), of i "hd (tw_wheels w ! i)" "mid T (Suc i)" "Suc T" d] assms(2) es
    by (auto simp: mid_def)
  show ?thesis
    by (rule exI [of _ w'], rule exI [of _ d'])
      (use 1 rot(2) True assms(3) len in \<open>simp add: tick_wheel_def Un_assoc\<close>)
next
  case False
  have "0 < tw_buckets w ^ i" using assms(1) by (simp add: wheel_ok_def)
  then have "Suc T div tw_buckets w ^ i = T div tw_buckets w ^ i" using Suc_div_cases(1) False by blast
  then have "pop_time (tw_buckets w) l j (mid T (Suc i) l) = pop_time (tw_buckets w) l j (mid T i l)" for l j
    by (auto simp: mid_def less_Suc_eq intro: pop_time_same)
  then have "sched_at (mid T (Suc i)) w = sched_at (mid T i) w" by (simp add: sched_at_def)
  with False assms show ?thesis by (simp add: tick_wheel_def)
qed

lemma tick_loop_ok:
  assumes "wheel_ok w" "i \<le> tw_wheelsNum w" "tw_ticks w = Suc T"
  shows "\<exists>w' d'. foldR tick_wheel (w, d) [i ..< tw_wheelsNum w] = Inr (w', d') \<and> wheel_ok w' \<and> same_shape w w' \<and>
    sched_at (mid T (tw_wheelsNum w)) w' \<union> drops_at (Suc T) d' = sched_at (mid T i) w \<union> drops_at (Suc T) d"
  using assms
proof (induction "tw_wheelsNum w - i" arbitrary: i w d)
  case (Suc n)
  then have i: "i < tw_wheelsNum w" by simp
  obtain w1 d1 where 1: "tick_wheel (w, d) i = Inr (w1, d1)" "wheel_ok w1" "same_shape w w1"
    "sched_at (mid T (Suc i)) w1 \<union> drops_at (Suc T) d1 = sched_at (mid T i) w \<union> drops_at (Suc T) d"
    using tick_wheel_ok [OF Suc.prems(1) i Suc.prems(3)] by blast
  have "n = tw_wheelsNum w1 - Suc i" using Suc.hyps(2) 1(3) by simp
  from Suc.hyps(1) [OF this 1(2), of d1] obtain w2 d2 where
    "foldR tick_wheel (w1, d1) [Suc i ..< tw_wheelsNum w1] = Inr (w2, d2)" "wheel_ok w2" "same_shape w1 w2"
    "sched_at (mid T (tw_wheelsNum w1)) w2 \<union> drops_at (Suc T) d2 = sched_at (mid T (Suc i)) w1 \<union> drops_at (Suc T) d1"
    using i 1(3) Suc.prems(3) by auto
  with 1 i show ?case by (auto simp: upt_conv_Cons)
qed simp

lemma sched_later: "wheel_ok w \<Longrightarrow> (u, f) \<in> sched w \<Longrightarrow> tw_ticks w < f"
proof -
  assume w: "wheel_ok w" and "(u, f) \<in> sched w"
  then obtain l j e where "(u, f) = fire (tw_buckets w) e (pop_time (tw_buckets w) l j (tw_ticks w))"
    by (auto simp: sched_def sched_at_def)
  then have "pop_time (tw_buckets w) l j (tw_ticks w) \<le> f"
    using fire_later [of "tw_buckets w" "pop_time (tw_buckets w) l j (tw_ticks w)" e] w
    by (metis wheel_ok_def snd_conv less_trans zero_less_one)
  moreover have "tw_ticks w < pop_time (tw_buckets w) l j (tw_ticks w)"
    using w by (intro pop_time_later) (simp add: wheel_ok_def)
  ultimately show "tw_ticks w < f" by simp
qed

lemma tick_sched:
  assumes "wheel_ok w"
  shows "\<exists>w' dropped. tick w = Inr (w', dropped) \<and> wheel_ok w' \<and> tw_ticks w' = Suc (tw_ticks w) \<and>
    tw_buckets w' = tw_buckets w \<and> tw_wheelsNum w' = tw_wheelsNum w \<and>
    set dropped = {u. (u, Suc (tw_ticks w)) \<in> sched w} \<and>
    sched w' = {x \<in> sched w. Suc (tw_ticks w) < snd x} \<and> (\<forall>x \<in> sched w. tw_ticks w < snd x)"
proof -
  let ?T = "tw_ticks w"
  let ?w = "w\<lparr>tw_ticks := Suc ?T\<rparr>"
  have ok: "wheel_ok ?w" using assms by (simp add: wheel_ok_def)
  have start: "sched_at (mid ?T 0) ?w = sched w" by (simp add: sched_def sched_at_def mid_def)
  obtain w' d' where t: "tick w = Inr (w', d')" "wheel_ok w'" "same_shape ?w w'"
    "sched_at (mid ?T (tw_wheelsNum w)) w' \<union> drops_at (Suc ?T) d' = sched w"
    using tick_loop_ok [OF ok, of 0 ?T "[]"] start by (auto simp: tick_def)
  have "sched_at (mid ?T (tw_wheelsNum w)) w' = sched w'"
    using t(3) by (simp add: sched_def sched_at_def mid_def)
  with t(4) have un: "sched w' \<union> drops_at (Suc ?T) d' = sched w" by simp
  have later: "Suc ?T < snd x" if "x \<in> sched w'" for x
    using sched_later [OF t(2), of "fst x" "snd x"] that t(3) by simp
  have "set d' = {u. (u, Suc ?T) \<in> sched w}" using un later by force
  moreover have "sched w' = {x \<in> sched w. Suc ?T < snd x}" using un later by auto
  moreover have "\<forall>x \<in> sched w. ?T < snd x" using sched_later [OF assms] by (auto simp: split_paired_all)
  ultimately show ?thesis using t by auto
qed

text \<open>
  C28: a tick drops exactly what is due. Seen through the schedule, one callback of the periodic
  timer advances the counter, drops precisely the client's entries scheduled for the new
  tick and leaves all other scheduled drops as they are, although it moves entries from one
  wheel to another; nothing is due in the past, and no bucket outside the wheels is touched.
\<close>

theorem tick_refines:
  assumes "wheel_ok w"
  shows "\<exists>w' dropped. tick w = Inr (w', dropped) \<and> wheel_ok w' \<and> tw_ticks w' = Suc (tw_ticks w) \<and>
    set dropped = {u. (u, Suc (tw_ticks w)) \<in> sched w} \<and>
    sched w' = {x \<in> sched w. Suc (tw_ticks w) < snd x} \<and> (\<forall>x \<in> sched w. tw_ticks w < snd x)"
  using tick_sched [OF assms] by blast

section \<open>The wheel as its clients see it\<close>

text \<open>
  A queue of deadlines that is turned once per tick: an item that is put with a delay comes out with the turn after so many others. The
  same item may be due several times; it is gone when it comes out and is not due any more.
\<close>

locale deadline_queue =
  fixes ok :: "'q \<Rightarrow> bool"
    and now :: "'q \<Rightarrow> nat"
    and due :: "'q \<Rightarrow> ('u \<times> nat) set"
    and fits :: "nat \<Rightarrow> 'q \<Rightarrow> bool"
    and put :: "nat \<Rightarrow> 'u \<Rightarrow> 'q \<Rightarrow> 'q result"
    and turn :: "'q \<Rightarrow> ('q \<times> 'u list) result"
  assumes put_ok: "ok q \<Longrightarrow> fits d q \<Longrightarrow> \<exists>q'. put d u q = Inr q' \<and> ok q' \<and> now q' = now q \<and>
      due q' = insert (u, now q + d + 1) (due q) \<and> (\<forall>e. fits e q' = fits e q)"
    and turn_ok: "ok q \<Longrightarrow> \<exists>q' us. turn q = Inr (q', us) \<and> ok q' \<and> now q' = Suc (now q) \<and>
      set us = {u. (u, Suc (now q)) \<in> due q} \<and> due q' = {x \<in> due q. Suc (now q) < snd x} \<and> (\<forall>e. fits e q' = fits e q)"
    and due_later: "ok q \<Longrightarrow> (u, f) \<in> due q \<Longrightarrow> now q < f"
begin

text \<open>With \<open>D\<close> the latest deadline of an item: it stays until the turn \<open>D\<close>, and is gone with it.\<close>

lemma stays_until:
  assumes "ok q" "turn q = Inr (q', us)" "(u, D) \<in> due q" "u \<in> fst ` due q'" "\<And>f. (u, f) \<in> due q \<Longrightarrow> f \<le> D"
  shows "(u, D) \<in> due q'"
proof -
  have q': "due q' = {x \<in> due q. Suc (now q) < snd x}" using turn_ok [OF assms(1)] assms(2) by auto
  then obtain f where "(u, f) \<in> due q" "Suc (now q) < f" using assms(4) by auto
  then have "Suc (now q) < D" using assms(5) by fastforce
  then show ?thesis using q' assms(3) by simp
qed

lemma gone_at:
  assumes "ok q" "turn q = Inr (q', us)" "(u, D) \<in> due q" "u \<notin> fst ` due q'"
  shows "D = Suc (now q)" "u \<in> set us"
proof -
  have q': "due q' = {x \<in> due q. Suc (now q) < snd x}" "set us = {u. (u, Suc (now q)) \<in> due q}"
    using turn_ok [OF assms(1)] assms(2) by auto
  have "(u, D) \<notin> due q'" using assms(4) by force
  then have "D \<le> Suc (now q)" using q'(1) assms(3) by auto
  with due_later [OF assms(1,3)] show "D = Suc (now q)" by simp
  with q'(2) assms(3) show "u \<in> set us" by simp
qed

end

text \<open>A delay that the wheels represent exactly.\<close>

definition wheel_fits :: "nat \<Rightarrow> 'u wheel \<Rightarrow> bool" where
  "wheel_fits d w \<longleftrightarrow> 0 < d \<and> d < 16777215 \<and>
     (d + 1 \<le> tw_buckets w ^ tw_wheelsNum w \<or> d \<le> tw_buckets w ^ tw_wheelsNum w \<and> 1 < tw_wheelsNum w)"

interpretation tw: deadline_queue wheel_ok tw_ticks sched wheel_fits "\<lambda>d u. insertEntry d (Some (User u))" tick
proof (unfold_locales, goal_cases)
  case (1 w d u)
  then show ?case using insertEntry_exact [of w d u] by (fastforce simp: wheel_fits_def)
next
  case (2 w)
  then show ?case using tick_sched [of w] by (fastforce simp: wheel_fits_def)
next
  case (3 w u f)
  then show ?case by (rule sched_later)
qed

section \<open>The constructor\<close>

lemma wheels_loop_ok:
  assumes "1 < B" "B \<le> 4294967296" "m \<le> 4294967296" "1 \<le> n" "n = 1 \<or> B ^ (n - 1) < m" "p = B ^ n" "p \<le> size_max"
  shows "\<exists>k. wheels_loop m B p n = Some k \<and> n \<le> k \<and> m \<le> B ^ k \<and> (k = 1 \<or> B ^ (k - 1) < m)"
  using assms(4-7)
proof (induction "m - p" arbitrary: p n rule: less_induct)
  case less
  show ?case
  proof (cases "p < m")
    case True
    then have "p * B \<le> 4294967295 * 4294967296" using assms(2,3) by (intro mult_le_mono) auto
    then have mul: "szmul p B = p * B" "p * B \<le> size_max" by simp_all
    have "p < p * B" using True assms(1) less.prems(3) by simp
    then have "m - p * B < m - p" using True by linarith
    from less.hyps [OF this, of "Suc n"] less.prems True mul(2)
    have "\<exists>k. wheels_loop m B (p * B) (Suc n) = Some k \<and> Suc n \<le> k \<and> m \<le> B ^ k \<and> (k = 1 \<or> B ^ (k - 1) < m)"
      by (simp add: mult.commute)
    with True mul(1) show ?thesis by (subst wheels_loop.simps) (auto dest: Suc_leD)
  next
    case False
    with less.prems show ?thesis by (subst wheels_loop.simps) auto
  qed
qed

text \<open>
  the constructor ends and builds as many wheels as the longest timeout needs and no more: a
  well-formed, empty wheel whose range covers the timeout (for timeouts the float
  arithmetic represents exactly).
\<close>

theorem TimingWheel_new_ok:
  assumes "1 < maxTimeout" "maxTimeout < 16777216" "1 < buckets" "buckets \<le> 4294967296"
  shows "\<exists>w. TimingWheel_new maxTimeout buckets = Some (Inr w) \<and> wheel_ok w \<and> sched w = {} \<and>
    tw_buckets w = buckets \<and> maxTimeout \<le> buckets ^ tw_wheelsNum w \<and>
    (tw_wheelsNum w = 1 \<or> buckets ^ (tw_wheelsNum w - 1) < maxTimeout)"
proof -
  obtain k where "wheels_loop maxTimeout buckets buckets 1 = Some k" "1 \<le> k" "maxTimeout \<le> buckets ^ k"
    "k = 1 \<or> buckets ^ (k - 1) < maxTimeout"
    using wheels_loop_ok [of buckets maxTimeout 1 buckets] assms by auto
  with assms show ?thesis
    by (auto simp: TimingWheel_new_def wheel_ok_def sched_def sched_at_def)
qed

section \<open>The destructor\<close>

text \<open>The destructor empties the wheels from the top; what callback entries put into lower wheels is
  dropped when its turn comes.\<close>

fun owner :: "'u entry \<Rightarrow> 'u" where
  "owner (User u) = u"
| "owner (CallbackEntry a d i t e) = owner e"

definition top_ok :: "nat \<Rightarrow> 'u wheel \<Rightarrow> bool" where
  "top_ok n w \<longleftrightarrow> 0 < tw_buckets w \<and> n \<le> length (tw_wheels w) \<and>
     (\<forall>l < n. length (tw_wheels w ! l) = tw_buckets w \<and> (\<forall>b \<in> set (tw_wheels w ! l). \<forall>e \<in> set b. entry_ok l e)) \<and>
     (\<forall>l < length (tw_wheels w). n \<le> l \<longrightarrow> tw_wheels w ! l = [])"

definition owners :: "'u wheel \<Rightarrow> 'u set" where
  "owners w = owner ` (\<Union>bs \<in> set (tw_wheels w). \<Union>b \<in> set bs. set b)"

lemma owners_alt: "owners w = owner ` (\<Union>b \<in> set (concat (tw_wheels w)). set b)"
  by (auto simp: owners_def)

lemma fst_fire [simp]: "fst (fire B e p) = owner e"
  by (induction e arbitrary: p) simp_all

text \<open>What the wheels hold is what is scheduled.\<close>

lemma owners_sched:
  assumes "wheel_ok w"
  shows "owners w = fst ` sched w"
proof -
  have len: "length (tw_wheels w) = tw_wheelsNum w" "\<And>l. l < tw_wheelsNum w \<Longrightarrow> length (tw_wheels w ! l) = tw_buckets w"
    using assms by (simp_all add: wheel_ok_def)
  have "(\<Union>bs \<in> set (tw_wheels w). \<Union>b \<in> set bs. set b) = (\<Union>l < tw_wheelsNum w. \<Union>j < tw_buckets w. set (tw_wheels w ! l ! j))"
    (is "?L = ?R")
  proof (intro equalityI subsetI)
    fix e assume "e \<in> ?L"
    then obtain bs b where "bs \<in> set (tw_wheels w)" "b \<in> set bs" "e \<in> set b" by blast
    then obtain l j where "l < tw_wheelsNum w" "j < tw_buckets w" "e \<in> set (tw_wheels w ! l ! j)"
      using len by (metis in_set_conv_nth)
    then show "e \<in> ?R" by blast
  next
    fix e assume "e \<in> ?R"
    then obtain l j where l: "l < tw_wheelsNum w" "j < tw_buckets w" "e \<in> set (tw_wheels w ! l ! j)" by blast
    then have "tw_wheels w ! l \<in> set (tw_wheels w)" "tw_wheels w ! l ! j \<in> set (tw_wheels w ! l)" using len by simp_all
    with l(3) show "e \<in> ?L" by blast
  qed
  then show ?thesis by (simp add: owners_def sched_def sched_at_def image_UN image_image)
qed

lemma set_concat_update:
  "n < length xs \<Longrightarrow> set (concat (xs[n := ys])) = set ys \<union> set (concat (xs[n := []]))"
  "n < length xs \<Longrightarrow> set (concat xs) = set (xs ! n) \<union> set (concat (xs[n := []]))"
  by (induction xs arbitrary: n; auto split: nat.splits)+

lemma top_put:
  assumes "top_ok n w" "i < n" "k < tw_buckets w" "entry_ok i e"
  shows "\<exists>w'. wheel_put i k e w = Inr w' \<and> top_ok n w' \<and> owners w' = insert (owner e) (owners w) \<and>
    length (tw_wheels w') = length (tw_wheels w)"
proof -
  let ?ws = "tw_wheels w"
  let ?bs = "(?ws ! i)[k := List.insert e (?ws ! i ! k)]"
  have len: "i < length ?ws" "length (?ws ! i) = tw_buckets w" using assms unfolding top_ok_def by auto
  let ?w = "w\<lparr>tw_wheels := ?ws[i := ?bs]\<rparr>"
  have put: "wheel_put i k e w = Inr ?w" using assms(3) len by (simp add: wheel_put_def)
  have bs: "set (concat ?bs) = insert e (set (concat (?ws ! i)))"
    using set_concat_update(1) [of k "?ws ! i" "List.insert e (?ws ! i ! k)"]
      set_concat_update(2) [of k "?ws ! i"] assms(3) len(2) by simp
  have "top_ok n ?w"
    unfolding top_ok_def
  proof (intro conjI allI impI)
    fix l assume l: "l < n"
    then show "length (tw_wheels ?w ! l) = tw_buckets ?w"
      using assms(1) len by (cases "l = i") (auto simp: top_ok_def)
    show "\<forall>b \<in> set (tw_wheels ?w ! l). \<forall>e \<in> set b. entry_ok l e"
    proof (cases "l = i")
      case True
      have "\<forall>e \<in> set (concat (?ws ! i)). entry_ok i e" using assms(1,2) by (auto simp: top_ok_def)
      with bs assms(4) have "\<forall>x \<in> set (concat ?bs). entry_ok i x" by simp
      with True len show ?thesis by simp
    next
      case False
      with l assms(1) show ?thesis by (simp add: top_ok_def)
    qed
  qed (use assms(1,2) len in \<open>auto simp: top_ok_def nth_list_update\<close>)
  moreover have "set (concat (concat (tw_wheels ?w))) = insert e (set (concat (concat ?ws)))"
  proof -
    have "set (concat (concat (?ws[i := ?bs]))) = set (concat ?bs) \<union> set (concat (concat (?ws[i := []])))"
      using set_concat_update(1) [OF len(1), of ?bs] by (metis UN_Un set_concat)
    moreover have "set (concat (concat ?ws)) = set (concat (?ws ! i)) \<union> set (concat (concat (?ws[i := []])))"
      using set_concat_update(2) [OF len(1)] by (metis UN_Un set_concat)
    ultimately show ?thesis unfolding bs by simp
  qed
  then have "owners ?w = insert (owner e) (owners w)" unfolding owners_alt by (metis image_insert set_concat)
  ultimately show ?thesis using put by auto
qed

lemma clear_release:
  assumes "top_ok n w" "\<forall>e \<in> set es. entry_ok n e"
  shows "\<exists>w' d'. foldR release (w, d) es = Inr (w', d') \<and> top_ok n w' \<and>
    length (tw_wheels w') = length (tw_wheels w) \<and> owners w' \<union> set d' = owner ` set es \<union> owners w \<union> set d"
  using assms
proof (induction es arbitrary: w d)
  case (Cons e es)
  have "\<exists>w' d'. release (w, d) e = Inr (w', d') \<and> top_ok n w' \<and>
      length (tw_wheels w') = length (tw_wheels w) \<and> owners w' \<union> set d' = insert (owner e) (owners w \<union> set d)"
  proof (cases e)
    case (User u)
    with Cons.prems show ?thesis by auto
  next
    case (CallbackEntry a delay k s x)
    let ?j = "(delay + s mod tw_buckets w - 1) mod tw_buckets w"
    have "n = Suc k" "0 < delay" "entry_ok k x" "?j < tw_buckets w"
      using Cons.prems CallbackEntry by (simp_all add: top_ok_def)
    with top_put [OF Cons.prems(1), of k ?j x] CallbackEntry show ?thesis by auto
  qed
  then obtain w1 d1 where 1: "release (w, d) e = Inr (w1, d1)" "top_ok n w1"
    "length (tw_wheels w1) = length (tw_wheels w)" "owners w1 \<union> set d1 = insert (owner e) (owners w \<union> set d)" by blast
  from Cons.IH [OF 1(2), of d1] Cons.prems(2) obtain w2 d2 where
    "foldR release (w1, d1) es = Inr (w2, d2)" "top_ok n w2" "length (tw_wheels w2) = length (tw_wheels w1)"
    "owners w2 \<union> set d2 = owner ` set es \<union> owners w1 \<union> set d1" by auto
  with 1 show ?case by (auto simp: Un_assoc)
qed simp

lemma clear_wheel_ok:
  assumes "top_ok (Suc n) w"
  shows "\<exists>w' d'. clear_wheel (w, d) n = Inr (w', d') \<and> top_ok n w' \<and> length (tw_wheels w') = length (tw_wheels w) \<and>
    owners w' \<union> set d' = owners w \<union> set d"
proof -
  let ?ws = "tw_wheels w"
  let ?w = "w\<lparr>tw_wheels := ?ws[n := []]\<rparr>"
  have n: "n < length ?ws" using assms by (simp add: top_ok_def)
  have "top_ok n ?w" using assms by (auto simp: top_ok_def nth_list_update)
  moreover have "\<forall>e \<in> set (concat (?ws ! n)). entry_ok n e" using assms by (auto simp: top_ok_def)
  ultimately obtain w' d' where 1: "foldR release (?w, d) (concat (?ws ! n)) = Inr (w', d')" "top_ok n w'"
    "length (tw_wheels w') = length (tw_wheels ?w)"
    "owners w' \<union> set d' = owner ` set (concat (?ws ! n)) \<union> owners ?w \<union> set d"
    using clear_release [of n ?w "concat (?ws ! n)" d] by auto
  have "set (concat (concat ?ws)) = set (concat (?ws ! n)) \<union> set (concat (concat (tw_wheels ?w)))"
    using set_concat_update(2) [OF n] by (metis UN_Un set_concat wheel.select_convs(1) wheel.update_convs(1) wheel.surjective)
  then have "owners w = owner ` set (concat (?ws ! n)) \<union> owners ?w"
    unfolding owners_alt by (metis image_Un set_concat)
  with 1 show ?thesis by (simp add: clear_wheel_def)
qed

lemma clear_loop_ok:
  assumes "top_ok n w"
  shows "\<exists>w' d'. foldR clear_wheel (w, d) (rev [0 ..< n]) = Inr (w', d') \<and> top_ok 0 w' \<and>
    owners w' \<union> set d' = owners w \<union> set d"
  using assms
proof (induction n arbitrary: w d)
  case (Suc n)
  then show ?case using clear_wheel_ok [OF Suc.prems, of d] by auto (metis Suc.IH)
qed simp

text \<open>
  destroying a timing wheel drops every entry it holds, also those wrapped in callback entries of
  higher wheels, and no callback writes into a wheel that has been cleared already.
\<close>

theorem TimingWheel_destroy_drops_all:
  assumes "wheel_ok w"
  shows "\<exists>w' dropped. TimingWheel_destroy w = Inr (w', dropped) \<and> set dropped = owners w \<and> owners w' = {}"
proof -
  have "top_ok (length (tw_wheels w)) w"
    using assms unfolding wheel_ok_def top_ok_def by (auto simp: in_set_conv_nth) (metis in_set_conv_nth)
  from clear_loop_ok [OF this, of "[]"] obtain w' d' where
    1: "TimingWheel_destroy w = Inr (w', d')" "top_ok 0 w'" "owners w' \<union> set d' = owners w"
    by (auto simp: TimingWheel_destroy_def)
  from 1(2) have "\<forall>bs \<in> set (tw_wheels w'). bs = []" by (auto simp: top_ok_def in_set_conv_nth)
  then have "owners w' = {}" by (auto simp: owners_def)
  with 1 show ?thesis by auto
qed

section \<open>Examples\<close>

definition example_wheel :: "nat wheel" where
  "example_wheel = \<lparr>tw_wheels = replicate 2 (replicate 3 []), tw_ticks = 4, tw_wheelsNum = 2, tw_buckets = 3, tw_fresh = 0\<rparr>"

lemma example_wheel_ok: "wheel_ok example_wheel"
  by (simp add: example_wheel_def wheel_ok_def)

theorem insertEntry_exact_witness:
  "\<exists>w'. insertEntry 6 (Some (User 42)) example_wheel = Inr w' \<and> sched w' = insert (42, 11) (sched example_wheel)"
  using insertEntry_exact [OF example_wheel_ok, of 6 42] by (auto simp: example_wheel_def)

theorem tick_refines_witness:
  "\<exists>w' dropped. tick example_wheel = Inr (w', dropped) \<and> tw_ticks w' = 5"
  using tick_refines [OF example_wheel_ok] by (auto simp: example_wheel_def)

theorem TimingWheel_new_ok_witness:
  "\<exists>w :: nat wheel. TimingWheel_new 600 100 = Some (Inr w) \<and> wheel_ok w \<and> tw_buckets w = 100"
  using TimingWheel_new_ok [of 600 100] by auto

theorem TimingWheel_destroy_drops_all_witness:
  "\<exists>w' dropped. TimingWheel_destroy example_wheel = Inr (w', dropped) \<and> set dropped = owners example_wheel"
  using TimingWheel_destroy_drops_all [OF example_wheel_ok] by auto

end
