(* ===== verification/Poller.thy ===== *)
theory Poller
  imports Cooper_Prelude
begin

text \<open>
  Channels and the poller (\<^verbatim>\<open>cooper/net/Channel.*\<close>, \<^verbatim>\<open>cooper/net/EpollPoller.*\<close>,
  \<^verbatim>\<open>cooper/net/Poller.*\<close>). Channels live in a store and are named by their addresses. The calls
  of \<^verbatim>\<open>epoll_ctl\<close> are recorded in the order in which they are made; \<open>interest\<close> says what
  interest list the calls amount to and whether one of them fails. The lemmas show that no
  assertion of the poller fails, that every call succeeds, and that the interest list is at any
  time the list of the channels that are added, with their events; and they give the
  order in which the callbacks of an active channel run.
\<close>

unbundle bit_operations_syntax

section \<open>Channels\<close>

abbreviation POLLIN :: u32 where "POLLIN \<equiv> 1"
abbreviation POLLPRI :: u32 where "POLLPRI \<equiv> 2"
abbreviation POLLOUT :: u32 where "POLLOUT \<equiv> 4"
abbreviation POLLERR :: u32 where "POLLERR \<equiv> 8"
abbreviation POLLHUP :: u32 where "POLLHUP \<equiv> 16"
abbreviation POLLNVAL :: u32 where "POLLNVAL \<equiv> 32"
abbreviation POLLRDHUP :: u32 where "POLLRDHUP \<equiv> 8192"

definition kNoneEvent :: u32 where "kNoneEvent = 0"
definition kReadEvent :: u32 where "kReadEvent = POLLIN OR POLLPRI"
definition kWriteEvent :: u32 where "kWriteEvent = POLLOUT"

text \<open>The type \<open>'f\<close> of callbacks; an empty \<^verbatim>\<open>std::function\<close> is \<open>None\<close>. \<open>ch_tie\<close> is \<open>Some alive\<close> when the
  channel is tied; \<open>alive\<close> tells whether the owner still exists.\<close>

record 'f chan =
  ch_fd :: int
  ch_events :: u32
  ch_revents :: u32
  ch_index :: int
  ch_addedToLoop :: bool
  ch_readCallback :: "'f option"
  ch_writeCallback :: "'f option"
  ch_errorCallback :: "'f option"
  ch_closeCallback :: "'f option"
  ch_eventCallback :: "'f option"
  ch_tie :: "bool option"

definition Channel_new :: "int \<Rightarrow> 'f chan" where
  "Channel_new fd = \<lparr>ch_fd = fd, ch_events = 0, ch_revents = 0, ch_index = -1, ch_addedToLoop = False,
     ch_readCallback = None, ch_writeCallback = None, ch_errorCallback = None, ch_closeCallback = None,
     ch_eventCallback = None, ch_tie = None\<rparr>"

definition isNoneEvent :: "'f chan \<Rightarrow> bool" where
  "isNoneEvent c \<longleftrightarrow> ch_events c = kNoneEvent"

definition isWriting :: "'f chan \<Rightarrow> bool" where
  "isWriting c \<longleftrightarrow> ch_events c AND kWriteEvent \<noteq> 0"

definition isReading :: "'f chan \<Rightarrow> bool" where
  "isReading c \<longleftrightarrow> ch_events c AND kReadEvent \<noteq> 0"

text \<open>
  \<^verbatim>\<open>handleEvent\<close> on a state \<open>s\<close> of which \<open>get\<close> reads the channel; \<open>run\<close> runs a callback, which may
  change the state and with it the channel.
\<close>

definition call_if :: "('f \<Rightarrow> 's \<Rightarrow> 's) \<Rightarrow> ('s \<Rightarrow> 'f chan) \<Rightarrow> ('f chan \<Rightarrow> bool) \<Rightarrow> ('f chan \<Rightarrow> 'f option) \<Rightarrow> 's \<Rightarrow> 's" where
  "call_if run get cond cb s =
     (if cond (get s) then (case cb (get s) of None \<Rightarrow> s | Some f \<Rightarrow> run f s) else s)"

definition hup_only :: "'f chan \<Rightarrow> bool" where
  "hup_only c \<longleftrightarrow> ch_revents c AND POLLHUP \<noteq> 0 \<and> ch_revents c AND POLLIN = 0"

definition has_error :: "'f chan \<Rightarrow> bool" where
  "has_error c \<longleftrightarrow> ch_revents c AND (POLLNVAL OR POLLERR) \<noteq> 0"

definition has_read :: "'f chan \<Rightarrow> bool" where
  "has_read c \<longleftrightarrow> ch_revents c AND (POLLIN OR POLLPRI OR POLLRDHUP) \<noteq> 0"

definition has_write :: "'f chan \<Rightarrow> bool" where
  "has_write c \<longleftrightarrow> ch_revents c AND POLLOUT \<noteq> 0"

definition handleEventSafely :: "('f \<Rightarrow> 's \<Rightarrow> 's) \<Rightarrow> ('s \<Rightarrow> 'f chan) \<Rightarrow> 's \<Rightarrow> 's" where
  "handleEventSafely run get s =
     (case ch_eventCallback (get s) of
        Some f \<Rightarrow> run f s
      | None \<Rightarrow>
          call_if run get has_write ch_writeCallback
            (call_if run get has_read ch_readCallback
              (call_if run get has_error ch_errorCallback
                (call_if run get hup_only ch_closeCallback s))))"

definition handleEvent :: "('f \<Rightarrow> 's \<Rightarrow> 's) \<Rightarrow> ('s \<Rightarrow> 'f chan) \<Rightarrow> 's \<Rightarrow> 's" where
  "handleEvent run get s =
     (if ch_events (get s) = kNoneEvent then s
      else case ch_tie (get s) of
             None \<Rightarrow> handleEventSafely run get s
           | Some alive \<Rightarrow> (if alive then handleEventSafely run get s else s))"

section \<open>The poller\<close>

definition kNew :: int where "kNew = -1"
definition kAdded :: int where "kAdded = 1"
definition kDeleted :: int where "kDeleted = 2"

datatype ctl_op = CTL_ADD | CTL_MOD | CTL_DEL

text \<open>\<open>pl_chans\<close> is the store of channels, \<open>pl_ctl\<close> the calls of \<^verbatim>\<open>epoll_ctl\<close> so far: operation,
  descriptor, events and the address of the channel.\<close>

record 'f poller =
  pl_chans :: "nat \<Rightarrow> 'f chan"
  pl_channels :: "int \<Rightarrow> nat option"
  pl_ctl :: "(ctl_op \<times> int \<times> u32 \<times> nat) list"
  pl_eventsSize :: nat

definition EpollPoller_new :: "(nat \<Rightarrow> 'f chan) \<Rightarrow> 'f poller" where
  "EpollPoller_new chans = \<lparr>pl_chans = chans, pl_channels = Map.empty, pl_ctl = [], pl_eventsSize = 16\<rparr>"

abbreviation chan_of :: "'f poller \<Rightarrow> nat \<Rightarrow> 'f chan" where
  "chan_of p c \<equiv> pl_chans p c"

definition set_chan :: "nat \<Rightarrow> ('f chan \<Rightarrow> 'f chan) \<Rightarrow> 'f poller \<Rightarrow> 'f poller" where
  "set_chan c f p = p\<lparr>pl_chans := (pl_chans p)(c := f (pl_chans p c))\<rparr>"

definition ctl_update :: "ctl_op \<Rightarrow> nat \<Rightarrow> 'f poller \<Rightarrow> 'f poller" where
  "ctl_update op c p = p\<lparr>pl_ctl := pl_ctl p @ [(op, ch_fd (chan_of p c), ch_events (chan_of p c), c)]\<rparr>"

definition updateChannel :: "nat \<Rightarrow> 'f poller \<Rightarrow> 'f poller result" where
  "updateChannel c p =
     (let ch = chan_of p c; fd = ch_fd ch; index = ch_index ch in
      assertR (fd \<ge> 0)
       (if index = kNew \<or> index = kDeleted
        then bindR (if index = kNew
                    then assertR (pl_channels p fd = None) (Inr (p\<lparr>pl_channels := (pl_channels p)(fd \<mapsto> c)\<rparr>))
                    else assertR (pl_channels p fd \<noteq> None) (assertR (pl_channels p fd = Some c) (Inr p)))
               (\<lambda>p. Inr (ctl_update CTL_ADD c (set_chan c (\<lambda>ch. ch\<lparr>ch_index := kAdded\<rparr>) p)))
        else assertR (pl_channels p fd \<noteq> None) (assertR (pl_channels p fd = Some c)
              (assertR (index = kAdded)
                (if isNoneEvent ch
                 then Inr (set_chan c (\<lambda>ch. ch\<lparr>ch_index := kDeleted\<rparr>) (ctl_update CTL_DEL c p))
                 else Inr (ctl_update CTL_MOD c p))))))"

definition removeChannel :: "nat \<Rightarrow> 'f poller \<Rightarrow> 'f poller result" where
  "removeChannel c p =
     (let ch = chan_of p c; fd = ch_fd ch; index = ch_index ch in
      assertR (pl_channels p fd \<noteq> None) (assertR (pl_channels p fd = Some c)
       (let p = p\<lparr>pl_channels := (pl_channels p)(fd := None)\<rparr> in
        assertR (isNoneEvent ch) (assertR (index = kAdded \<or> index = kDeleted)
         (Inr (set_chan c (\<lambda>ch. ch\<lparr>ch_index := kNew\<rparr>) (if index = kAdded then ctl_update CTL_DEL c p else p)))))))"

text \<open>The operations of a channel, which go through its event loop to the poller.\<close>

definition updateEvents :: "u32 \<Rightarrow> nat \<Rightarrow> 'f poller \<Rightarrow> 'f poller result" where
  "updateEvents ev c p = updateChannel c (set_chan c (\<lambda>ch. ch\<lparr>ch_events := ev\<rparr>) p)"

definition enableReading :: "nat \<Rightarrow> 'f poller \<Rightarrow> 'f poller result" where
  "enableReading c p = updateEvents (ch_events (chan_of p c) OR kReadEvent) c p"

definition disableReading :: "nat \<Rightarrow> 'f poller \<Rightarrow> 'f poller result" where
  "disableReading c p = updateEvents (ch_events (chan_of p c) AND NOT kReadEvent) c p"

definition enableWriting :: "nat \<Rightarrow> 'f poller \<Rightarrow> 'f poller result" where
  "enableWriting c p = updateEvents (ch_events (chan_of p c) OR kWriteEvent) c p"

definition disableWriting :: "nat \<Rightarrow> 'f poller \<Rightarrow> 'f poller result" where
  "disableWriting c p = updateEvents (ch_events (chan_of p c) AND NOT kWriteEvent) c p"

definition disableAll :: "nat \<Rightarrow> 'f poller \<Rightarrow> 'f poller result" where
  "disableAll c p = updateEvents kNoneEvent c p"

definition Channel_remove :: "nat \<Rightarrow> 'f poller \<Rightarrow> 'f poller result" where
  "Channel_remove c p =
     assertR (ch_events (chan_of p c) = kNoneEvent)
       (removeChannel c (set_chan c (\<lambda>ch. ch\<lparr>ch_addedToLoop := False\<rparr>) p))"

text \<open>\<^verbatim>\<open>epoll_wait\<close> answers with an error, or with events and the channels they are for.\<close>

datatype epoll_answer = EpollError int | EpollEvents "(u32 \<times> nat) list"

fun fillActiveChannels :: "(u32 \<times> nat) list \<Rightarrow> 'f poller \<Rightarrow> nat list \<Rightarrow> ('f poller \<times> nat list) result" where
  "fillActiveChannels [] p active = Inr (p, active)"
| "fillActiveChannels ((ev, c) # evs) p active =
     (let fd = ch_fd (chan_of p c) in
      assertR (pl_channels p fd \<noteq> None) (assertR (pl_channels p fd = Some c)
        (fillActiveChannels evs (set_chan c (\<lambda>ch. ch\<lparr>ch_revents := ev\<rparr>) p) (active @ [c]))))"

fun poll :: "epoll_answer \<Rightarrow> 'f poller \<Rightarrow> ('f poller \<times> nat list) result" where
  "poll (EpollError e) p = Inr (p, [])"
| "poll (EpollEvents evs) p =
     (if evs = [] then Inr (p, [])
      else bindR (assertR (length evs \<le> pl_eventsSize p) (fillActiveChannels evs p [])) (\<lambda>(p, active).
             Inr (if length evs = pl_eventsSize p then p\<lparr>pl_eventsSize := pl_eventsSize p * 2\<rparr> else p, active)))"

section \<open>The interest list\<close>

text \<open>What the calls of \<^verbatim>\<open>epoll_ctl\<close> amount to: \<open>None\<close> when a call fails, because a descriptor is added
  twice or because one that is not in the list is changed or deleted.\<close>

fun ctl_step :: "(int \<Rightarrow> (u32 \<times> nat) option) option \<Rightarrow> ctl_op \<times> int \<times> u32 \<times> nat \<Rightarrow> (int \<Rightarrow> (u32 \<times> nat) option) option" where
  "ctl_step None x = None"
| "ctl_step (Some m) (CTL_ADD, fd, ev, c) = (if m fd = None then Some (m(fd \<mapsto> (ev, c))) else None)"
| "ctl_step (Some m) (CTL_MOD, fd, ev, c) = (if m fd \<noteq> None then Some (m(fd \<mapsto> (ev, c))) else None)"
| "ctl_step (Some m) (CTL_DEL, fd, ev, c) = (if m fd \<noteq> None then Some (m(fd := None)) else None)"

definition interest :: "(ctl_op \<times> int \<times> u32 \<times> nat) list \<Rightarrow> (int \<Rightarrow> (u32 \<times> nat) option) option" where
  "interest ops = foldl ctl_step (Some Map.empty) ops"

text \<open>The interest list that the channels ask for.\<close>

definition wanted :: "'f poller \<Rightarrow> int \<Rightarrow> (u32 \<times> nat) option" where
  "wanted p fd = (case pl_channels p fd of
     None \<Rightarrow> None
   | Some c \<Rightarrow> (if ch_index (chan_of p c) = kAdded then Some (ch_events (chan_of p c), c) else None))"

definition poller_ok :: "'f poller \<Rightarrow> bool" where
  "poller_ok p \<longleftrightarrow>
     (\<forall>c. ch_index (chan_of p c) \<in> {kNew, kAdded, kDeleted}) \<and>
     (\<forall>fd c. pl_channels p fd = Some c \<longrightarrow> ch_fd (chan_of p c) = fd) \<and>
     (\<forall>c. ch_index (chan_of p c) \<noteq> kNew \<longleftrightarrow> pl_channels p (ch_fd (chan_of p c)) = Some c) \<and>
     interest (pl_ctl p) = Some (wanted p)"

section \<open>Any sequence of channel operations\<close>

datatype chan_op = UpdateEvents u32 nat | EnableReading nat | DisableReading nat | EnableWriting nat
  | DisableWriting nat | DisableAll nat | Remove nat

fun chan_step :: "chan_op \<Rightarrow> 'f poller \<Rightarrow> 'f poller result" where
  "chan_step (UpdateEvents ev c) p = updateEvents ev c p"
| "chan_step (EnableReading c) p = enableReading c p"
| "chan_step (DisableReading c) p = disableReading c p"
| "chan_step (EnableWriting c) p = enableWriting c p"
| "chan_step (DisableWriting c) p = disableWriting c p"
| "chan_step (DisableAll c) p = disableAll c p"
| "chan_step (Remove c) p = Channel_remove c p"

text \<open>What a caller has to respect: a channel that is not registered has a descriptor that no other
  registered channel has, and only a registered channel without events is removed.\<close>

definition may_update :: "nat \<Rightarrow> 'f poller \<Rightarrow> bool" where
  "may_update c p \<longleftrightarrow> 0 \<le> ch_fd (chan_of p c) \<and>
     (ch_index (chan_of p c) = kNew \<longrightarrow> pl_channels p (ch_fd (chan_of p c)) = None)"

fun op_ok :: "chan_op \<Rightarrow> 'f poller \<Rightarrow> bool" where
  "op_ok (Remove c) p \<longleftrightarrow> ch_index (chan_of p c) \<noteq> kNew \<and> ch_events (chan_of p c) = kNoneEvent"
| "op_ok (UpdateEvents ev c) p \<longleftrightarrow> may_update c p"
| "op_ok (EnableReading c) p \<longleftrightarrow> may_update c p"
| "op_ok (DisableReading c) p \<longleftrightarrow> may_update c p"
| "op_ok (EnableWriting c) p \<longleftrightarrow> may_update c p"
| "op_ok (DisableWriting c) p \<longleftrightarrow> may_update c p"
| "op_ok (DisableAll c) p \<longleftrightarrow> may_update c p"

inductive preach :: "(nat \<Rightarrow> 'f chan) \<Rightarrow> 'f poller \<Rightarrow> bool" for chans :: "nat \<Rightarrow> 'f chan" where
  start: "\<forall>c. ch_index (chans c) = kNew \<Longrightarrow> preach chans (EpollPoller_new chans)"
| step: "preach chans p \<Longrightarrow> op_ok x p \<Longrightarrow> chan_step x p = Inr p' \<Longrightarrow> preach chans p'"

lemma index_distinct [simp]:
  "kNew \<noteq> kAdded" "kAdded \<noteq> kNew" "kNew \<noteq> kDeleted" "kDeleted \<noteq> kNew" "kAdded \<noteq> kDeleted" "kDeleted \<noteq> kAdded"
  by (simp_all add: kNew_def kAdded_def kDeleted_def)

lemma interest_snoc: "interest ops = Some m \<Longrightarrow> interest (ops @ [x]) = ctl_step (Some m) x"
  by (simp add: interest_def)

lemma poller_okD:
  assumes "poller_ok p"
  shows "ch_index (chan_of p c) \<in> {kNew, kAdded, kDeleted}"
    "pl_channels p fd = Some c \<Longrightarrow> ch_fd (chan_of p c) = fd"
    "ch_index (chan_of p c) \<noteq> kNew \<longleftrightarrow> pl_channels p (ch_fd (chan_of p c)) = Some c"
    "interest (pl_ctl p) = Some (wanted p)"
  using assms unfolding poller_ok_def by blast+

text \<open>A channel is the only registered one with its descriptor, so changing it changes one place.\<close>

lemma wanted_at:
  assumes "poller_ok p" "ch_index (chan_of p c) \<noteq> kNew \<or> pl_channels p (ch_fd (chan_of p c)) = None"
  shows "wanted p (ch_fd (chan_of p c)) =
    (if ch_index (chan_of p c) = kAdded then Some (ch_events (chan_of p c), c) else None)"
  using assms poller_okD(3) [OF assms(1), of c] by (auto simp: wanted_def)

lemma poller_ok_change:
  assumes ok: "poller_ok p" and c: "ch_index (chan_of p c) \<noteq> kNew \<or> pl_channels p (ch_fd (chan_of p c)) = None"
    and ch: "ch_fd ch' = ch_fd (chan_of p c)" "ch_index ch' \<in> {kNew, kAdded, kDeleted}"
    and q: "pl_chans q = (pl_chans p)(c := ch')"
      "pl_channels q = (pl_channels p)(ch_fd ch' := (if ch_index ch' = kNew then None else Some c))"
    and i: "interest (pl_ctl q) =
      Some ((wanted p)(ch_fd ch' := (if ch_index ch' = kAdded then Some (ch_events ch', c) else None)))"
  shows "poller_ok q"
proof -
  let ?fd = "ch_fd (chan_of p c)"
  have other: "pl_channels p fd = Some d \<Longrightarrow> d \<noteq> c" if "fd \<noteq> ?fd" for fd d
    using that poller_okD(2) [OF ok] by blast
  have "wanted q = (wanted p)(ch_fd ch' := (if ch_index ch' = kAdded then Some (ch_events ch', c) else None))"
  proof
    fix fd
    show "wanted q fd = ((wanted p)(ch_fd ch' := (if ch_index ch' = kAdded then Some (ch_events ch', c) else None))) fd"
      using other [of fd] ch(1) q by (cases "fd = ?fd") (auto simp: wanted_def split: option.splits)
  qed
  moreover have "ch_index (chan_of q d) \<noteq> kNew \<longleftrightarrow> pl_channels q (ch_fd (chan_of q d)) = Some d" for d
  proof (cases "d = c")
    case True
    then show ?thesis using q ch by simp
  next
    case False
    have "pl_channels p ?fd \<noteq> Some d" using c False poller_okD(3) [OF ok, of c] by auto
    with False show ?thesis using q ch poller_okD(3) [OF ok, of d] by auto
  qed
  moreover have "ch_fd (chan_of q d) = fd" if "pl_channels q fd = Some d" for fd d
    using that q ch poller_okD(2) [OF ok, of fd d] other [of fd d] by (cases "fd = ?fd") (auto split: if_splits)
  moreover have "ch_index (chan_of q d) \<in> {kNew, kAdded, kDeleted}" for d
    using q(1) ch(2) poller_okD(1) [OF ok, of d] by simp
  ultimately show ?thesis unfolding poller_ok_def using i by metis
qed

lemma updateEvents_ok:
  assumes ok: "poller_ok p" and c: "may_update c p"
  obtains p' where "updateEvents ev c p = Inr p'" "poller_ok p'"
    "wanted p' (ch_fd (chan_of p c)) =
       (if ch_index (chan_of p c) = kAdded \<and> ev = kNoneEvent then None else Some (ev, c))"
proof -
  let ?ch = "chan_of p c" and ?fd = "ch_fd (chan_of p c)"
  have fd: "0 \<le> ?fd" and free: "ch_index ?ch = kNew \<Longrightarrow> pl_channels p ?fd = None"
    using c by (auto simp: may_update_def)
  have reg: "ch_index ?ch \<noteq> kNew \<or> pl_channels p ?fd = None" using c by (auto simp: may_update_def)
  note wat = wanted_at [OF ok reg] and own = poller_okD(3) [OF ok, of c]
  note int = interest_snoc [OF poller_okD(4) [OF ok]]
  define new_index where "new_index = (if ch_index ?ch = kAdded \<and> ev = kNoneEvent then kDeleted else kAdded)"
  define op where "op = (if ch_index ?ch \<noteq> kAdded then CTL_ADD else if ev = kNoneEvent then CTL_DEL else CTL_MOD)"
  define p' where "p' = p\<lparr>pl_chans := (pl_chans p)(c := ?ch\<lparr>ch_events := ev, ch_index := new_index\<rparr>),
    pl_channels := (pl_channels p)(?fd \<mapsto> c), pl_ctl := pl_ctl p @ [(op, ?fd, ev, c)]\<rparr>"
  have upd: "pl_channels p ?fd = Some c \<Longrightarrow> (pl_channels p)(?fd \<mapsto> c) = pl_channels p" by auto
  have idx: "ch_index ?ch = kNew \<or> ch_index ?ch = kAdded \<or> ch_index ?ch = kDeleted"
    using poller_okD(1) [OF ok, of c] by auto
  then have step: "updateEvents ev c p = Inr p'"
  proof (elim disjE)
    assume "ch_index ?ch = kNew"
    with fd free show ?thesis
      by (simp add: updateEvents_def updateChannel_def Let_def set_chan_def ctl_update_def p'_def new_index_def op_def)
  next
    assume a: "ch_index ?ch = kAdded"
    with own have o: "pl_channels p ?fd = Some c" by simp
    have same: "?ch\<lparr>ch_events := ev, ch_index := kAdded\<rparr> = ?ch\<lparr>ch_events := ev\<rparr>"
      by (rule chan.equality) (simp_all add: a)
    from a o fd show ?thesis
      by (auto simp: updateEvents_def updateChannel_def Let_def set_chan_def ctl_update_def p'_def new_index_def op_def
          isNoneEvent_def upd same)
  next
    assume a: "ch_index ?ch = kDeleted"
    with own have o: "pl_channels p ?fd = Some c" by simp
    with a fd show ?thesis
      by (auto simp: updateEvents_def updateChannel_def Let_def set_chan_def ctl_update_def p'_def new_index_def op_def upd)
  qed
  have i: "interest (pl_ctl p') = Some ((wanted p)(?fd := (if new_index = kAdded then Some (ev, c) else None)))"
    using wat int [of "(op, ?fd, ev, c)"] by (auto simp: p'_def op_def new_index_def)
  have ok': "poller_ok p'"
    by (rule poller_ok_change [OF ok reg, of "?ch\<lparr>ch_events := ev, ch_index := new_index\<rparr>"])
      (use i in \<open>auto simp: p'_def new_index_def\<close>)
  moreover have "wanted p' ?fd = (if ch_index ?ch = kAdded \<and> ev = kNoneEvent then None else Some (ev, c))"
    by (simp add: wanted_def p'_def new_index_def)
  ultimately show thesis using step that by blast
qed

lemma Channel_remove_ok:
  assumes ok: "poller_ok p" and c: "op_ok (Remove c) p"
  obtains p' where "Channel_remove c p = Inr p'" "poller_ok p'" "wanted p' (ch_fd (chan_of p c)) = None"
    "ch_index (chan_of p' c) = kNew"
proof -
  let ?ch = "chan_of p c" and ?fd = "ch_fd (chan_of p c)"
  have reg: "ch_index ?ch \<noteq> kNew \<or> pl_channels p ?fd = None" and none: "ch_events ?ch = kNoneEvent"
    and o: "pl_channels p ?fd = Some c"
    using c poller_okD(3) [OF ok, of c] by auto
  note wat = wanted_at [OF ok reg] and int = interest_snoc [OF poller_okD(4) [OF ok]]
  define ch' where "ch' = ?ch\<lparr>ch_addedToLoop := False, ch_index := kNew\<rparr>"
  define p' where "p' = p\<lparr>pl_chans := (pl_chans p)(c := ch'), pl_channels := (pl_channels p)(?fd := None),
    pl_ctl := (if ch_index ?ch = kAdded then pl_ctl p @ [(CTL_DEL, ?fd, ch_events ?ch, c)] else pl_ctl p)\<rparr>"
  have idx: "ch_index ?ch = kAdded \<or> ch_index ?ch = kDeleted" using poller_okD(1) [OF ok, of c] c by auto
  have step: "Channel_remove c p = Inr p'"
    using idx o none
    by (auto simp: Channel_remove_def removeChannel_def Let_def set_chan_def ctl_update_def isNoneEvent_def p'_def ch'_def)
  have i: "interest (pl_ctl p') = Some ((wanted p)(?fd := None))"
    using wat int poller_okD(4) [OF ok] by (auto simp: p'_def fun_upd_idem)
  have "poller_ok p'"
    by (rule poller_ok_change [OF ok reg, of ch']) (use i in \<open>auto simp: p'_def ch'_def\<close>)
  with step show thesis by (intro that) (auto simp: p'_def ch'_def wanted_def)
qed

lemma chan_step_ok: "poller_ok p \<Longrightarrow> op_ok x p \<Longrightarrow> \<exists>p'. chan_step x p = Inr p' \<and> poller_ok p'"
proof (induction x p rule: chan_step.induct)
  case (7 c p)
  then show ?case by (metis Channel_remove_ok chan_step.simps(7))
qed (auto simp: enableReading_def disableReading_def enableWriting_def disableWriting_def disableAll_def
      elim: updateEvents_ok)

lemma poller_ok_new: "\<forall>c. ch_index (chans c) = kNew \<Longrightarrow> poller_ok (EpollPoller_new chans)"
  by (auto simp: poller_ok_def EpollPoller_new_def interest_def wanted_def)

lemma preach_ok: "preach chans p \<Longrightarrow> poller_ok p"
  by (induction rule: preach.induct) (auto intro: poller_ok_new dest: chan_step_ok)

text \<open>
  C36: the kernel's interest list mirrors the channels. After any sequence of operations on channels
  in which no two registered channels share a descriptor and only registered, event-less
  channels are removed, every call of \<^verbatim>\<open>epoll_ctl\<close> has been a valid one, the resulting interest
  list holds exactly the channels in state \<^verbatim>\<open>kAdded\<close> with their current events, and no
  further operation of that kind fails an assertion.
\<close>

theorem interest_mirrors_channels:
  assumes "preach chans p"
  shows "interest (pl_ctl p) = Some (wanted p) \<and> (op_ok x p \<longrightarrow> (\<exists>p'. chan_step x p = Inr p'))"
  using preach_ok [OF assms] poller_okD(4) chan_step_ok by blast

definition example_chans :: "nat \<Rightarrow> unit chan" where
  "example_chans c = Channel_new (int c)"

definition example_poller :: "unit poller" where
  "example_poller = (case updateEvents kReadEvent 5 (EpollPoller_new example_chans) of Inr p \<Rightarrow> p)"

lemma example_preach: "preach example_chans example_poller"
proof (rule preach.step)
  show "preach example_chans (EpollPoller_new example_chans)"
    by (rule preach.start) (simp add: example_chans_def Channel_new_def kNew_def)
  show "op_ok (UpdateEvents kReadEvent 5) (EpollPoller_new example_chans)"
    by (simp add: may_update_def EpollPoller_new_def example_chans_def Channel_new_def)
  show "chan_step (UpdateEvents kReadEvent 5) (EpollPoller_new example_chans) = Inr example_poller"
    by (simp add: example_poller_def updateEvents_def updateChannel_def EpollPoller_new_def set_chan_def
        example_chans_def Channel_new_def kNew_def)
qed

theorem interest_mirrors_channels_witness:
  "interest (pl_ctl example_poller) = Some (wanted example_poller) \<and> wanted example_poller 5 = Some (3, 5)"
  using interest_mirrors_channels [OF example_preach]
  by (simp add: wanted_def example_poller_def updateEvents_def updateChannel_def EpollPoller_new_def set_chan_def
      ctl_update_def example_chans_def Channel_new_def kNew_def kAdded_def kReadEvent_def)

text \<open>
  disabling a channel that is already disabled puts it back into the interest list. In state
  \<^verbatim>\<open>kDeleted\<close> the poller adds the channel again without looking at its events, so that after a
  second \<^verbatim>\<open>disableAll\<close> the descriptor is registered with an empty event mask, for which the kernel
  still reports errors and hang-ups.
\<close>

theorem disable_twice_readds:
  assumes "poller_ok p" "0 \<le> ch_fd (chan_of p c)" "ch_index (chan_of p c) = kDeleted"
  shows "\<exists>p'. disableAll c p = Inr p' \<and> wanted p' (ch_fd (chan_of p c)) = Some (kNoneEvent, c)"
proof -
  have "may_update c p" using assms by (simp add: may_update_def)
  from updateEvents_ok [OF assms(1) this, of kNoneEvent] obtain p' where
    "updateEvents kNoneEvent c p = Inr p'" "wanted p' (ch_fd (chan_of p c)) = Some (kNoneEvent, c)"
    using assms(3) by auto
  then show ?thesis by (simp add: disableAll_def)
qed

definition example_disabled :: "unit poller" where
  "example_disabled = (case disableAll 5 example_poller of Inr p \<Rightarrow> p)"

lemmas poller_eval = example_disabled_def example_poller_def disableAll_def updateEvents_def updateChannel_def
  EpollPoller_new_def set_chan_def ctl_update_def example_chans_def Channel_new_def kNew_def kAdded_def kDeleted_def
  kNoneEvent_def kReadEvent_def isNoneEvent_def

lemma example_disabled_ok: "poller_ok example_disabled"
proof -
  have "may_update 5 example_poller" by (simp add: may_update_def poller_eval)
  from updateEvents_ok [OF preach_ok [OF example_preach] this, of kNoneEvent]
  show ?thesis by (metis disableAll_def example_disabled_def sum.simps(6))
qed

theorem disable_twice_readds_witness:
  "\<exists>p'. disableAll 5 example_disabled = Inr p' \<and> wanted p' 5 = Some (0, 5)"
  using disable_twice_readds [OF example_disabled_ok, of 5] by (simp add: poller_eval)

section \<open>Polling\<close>

lemma fill_ok:
  assumes "\<forall>(ev, c) \<in> set evs. pl_channels p (ch_fd (chan_of p c)) = Some c"
  shows "\<exists>p'. fillActiveChannels evs p act = Inr (p', act @ map snd evs) \<and> pl_channels p' = pl_channels p \<and>
    pl_eventsSize p' = pl_eventsSize p \<and> pl_ctl p' = pl_ctl p \<and>
    (\<forall>c. chan_of p' c = (case map_of (rev (map prod.swap evs)) c of
       None \<Rightarrow> chan_of p c | Some ev \<Rightarrow> (chan_of p c)\<lparr>ch_revents := ev\<rparr>))"
  using assms
proof (induction evs arbitrary: p act)
  case (Cons x evs)
  obtain ev c where x: "x = (ev, c)" by fastforce
  let ?p = "set_chan c (\<lambda>ch. ch\<lparr>ch_revents := ev\<rparr>) p"
  have "\<forall>(ev, d) \<in> set evs. pl_channels ?p (ch_fd (chan_of ?p d)) = Some d"
    using Cons.prems by (auto simp: set_chan_def)
  from Cons.IH [OF this, of "act @ [c]"] obtain p' where
    "fillActiveChannels evs ?p (act @ [c]) = Inr (p', (act @ [c]) @ map snd evs)" "pl_channels p' = pl_channels ?p"
    "pl_eventsSize p' = pl_eventsSize ?p" "pl_ctl p' = pl_ctl ?p"
    and ch: "\<forall>d. chan_of p' d = (case map_of (rev (map prod.swap evs)) d of
       None \<Rightarrow> chan_of ?p d | Some ev \<Rightarrow> (chan_of ?p d)\<lparr>ch_revents := ev\<rparr>)" by auto
  moreover have "\<forall>d. chan_of p' d = (case map_of (rev (map prod.swap (x # evs))) d of
       None \<Rightarrow> chan_of p d | Some ev \<Rightarrow> (chan_of p d)\<lparr>ch_revents := ev\<rparr>)"
    unfolding x using ch by (auto simp: set_chan_def map_add_def split: option.splits)
  ultimately show ?case using Cons.prems x by (auto simp: set_chan_def)
qed simp

text \<open>
  one call of \<^verbatim>\<open>poll\<close>. When the kernel reports at most as many events as the event list holds, each
  for a registered channel, no assertion fails: the active channels are those of the report
  in its order, each with its reported events and nothing else changed, and the event list
  doubles exactly when it was filled.
\<close>

theorem poll_reports:
  assumes "poller_ok p" "length evs \<le> pl_eventsSize p" "distinct (map snd evs)"
    and "\<forall>(ev, c) \<in> set evs. ch_index (chan_of p c) \<noteq> kNew"
  shows "\<exists>p'. poll (EpollEvents evs) p = Inr (p', map snd evs) \<and> pl_ctl p' = pl_ctl p \<and>
    pl_eventsSize p' = (if evs \<noteq> [] \<and> length evs = pl_eventsSize p then 2 * pl_eventsSize p else pl_eventsSize p) \<and>
    (\<forall>(ev, c) \<in> set evs. chan_of p' c = (chan_of p c)\<lparr>ch_revents := ev\<rparr>) \<and>
    (\<forall>c. c \<notin> snd ` set evs \<longrightarrow> chan_of p' c = chan_of p c)"
proof (cases "evs = []")
  case False
  have "\<forall>(ev, c) \<in> set evs. pl_channels p (ch_fd (chan_of p c)) = Some c"
    using assms(4) poller_okD(3) [OF assms(1)] by auto
  from fill_ok [OF this, of "[]"] obtain p' where f: "fillActiveChannels evs p [] = Inr (p', map snd evs)"
    "pl_eventsSize p' = pl_eventsSize p" "pl_ctl p' = pl_ctl p"
    and ch: "\<forall>c. chan_of p' c = (case map_of (rev (map prod.swap evs)) c of
       None \<Rightarrow> chan_of p c | Some ev \<Rightarrow> (chan_of p c)\<lparr>ch_revents := ev\<rparr>)" by auto
  have dist: "distinct (map fst (rev (map prod.swap evs)))" using assms(3) by (simp add: rev_map [symmetric] o_def)
  have "map_of (rev (map prod.swap evs)) c = Some ev" if "(ev, c) \<in> set evs" for ev c
    using that dist by (auto simp: image_iff intro!: map_of_is_SomeI bexI [of _ "(ev, c)"])
  moreover have "map_of (rev (map prod.swap evs)) c = None" if "c \<notin> snd ` set evs" for c
    using that by (auto simp: map_of_eq_None_iff image_iff)
  ultimately show ?thesis using False f ch assms(2) by (auto simp: split_beta)
qed simp

theorem poll_reports_witness:
  "\<exists>p'. poll (EpollEvents [(1, 5)]) example_poller = Inr (p', [5]) \<and> ch_revents (chan_of p' 5) = 1"
  using poll_reports [OF preach_ok [OF example_preach], of "[(1, 5)]"] by (auto simp: poller_eval)

section \<open>Dispatch\<close>

definition wants :: "bool \<Rightarrow> 'f option \<Rightarrow> 'f list" where
  "wants b cb = (if b then (case cb of None \<Rightarrow> [] | Some f \<Rightarrow> [f]) else [])"

lemma call_if_log:
  "call_if (\<lambda>f (c, log). (c, log @ [f])) fst cond cb (c, log) = (c, log @ wants (cond c) (cb c))"
  by (simp add: call_if_def wants_def split: option.splits)

text \<open>
  the order in which the callbacks of an active channel run, for callbacks that leave the channel
  alone: close on a hang-up without data, then error, then read, then write, each only when
  its callback is set; an event callback replaces them all, and a disabled channel or one
  whose owner is gone runs nothing. With data still readable a hang-up does not close.
\<close>

theorem dispatch_order:
  "snd (handleEvent (\<lambda>f (c, log). (c, log @ [f])) fst (c, [])) =
     (if isNoneEvent c \<or> ch_tie c = Some False then []
      else case ch_eventCallback c of
        Some f \<Rightarrow> [f]
      | None \<Rightarrow> wants (hup_only c) (ch_closeCallback c) @ wants (has_error c) (ch_errorCallback c) @
                 wants (has_read c) (ch_readCallback c) @ wants (has_write c) (ch_writeCallback c))"
  by (simp add: handleEvent_def handleEventSafely_def isNoneEvent_def call_if_log split: option.splits)

end
