(* ===== verification/EventLoop.thy ===== *)
theory EventLoop
  imports LockFreeQueue TimerQueue
begin

text \<open>
  The event loop (\<^verbatim>\<open>cooper/net/EventLoop.*\<close>). A function object is a value of a type \<open>'f\<close>; what its
  body does to the loop is a list of actions, given by a function argument \<open>body\<close> (a nested
  \<^verbatim>\<open>runInLoop\<close> in the loop thread is a call, so its actions are part of the list). The queues of
  functions are the lock-free queues of theory \<^verbatim>\<open>LockFreeQueue\<close>, whose laws the proofs use
  through the locale \<open>task_queue\<close>. \<open>el_log\<close> records the functions that have run. What the
  poller delivers in each round of the loop is an input: the functions other threads have
  queued meanwhile and the handlers of the active channels. A second model interleaves the
  loop with other threads at the level of atomic accesses and shows that no wake-up is lost.
\<close>

section \<open>State\<close>

datatype 'f act = AQueue 'f | AQuit | AOnQuit 'f | AAddTimer "'f timer" int | AInvalidate nat | AErase nat | AThrow

text \<open>\<open>el_slot\<close>: the thread whose \<^verbatim>\<open>t_loopInThisThread\<close> the member \<^verbatim>\<open>threadLocalLoopPtr_\<close> points to;
  \<open>el_wakeups\<close>: the value of the event descriptor.\<close>

record 'f eloop =
  el_looping :: bool
  el_threadId :: nat
  el_quit :: bool
  el_eventHandling :: bool
  el_funcs :: "'f mpsc"
  el_timerQueue :: "'f timerq"
  el_funcsOnQuit :: "'f mpsc"
  el_callingFuncs :: bool
  el_wakeups :: nat
  el_index :: nat
  el_slot :: nat
  el_log :: "'f list"

text \<open>The constructor, in thread \<open>me\<close>, for the loop with address \<open>self\<close>; \<open>tls\<close> holds the thread-local
  pointer of every thread.\<close>

definition EventLoop_new ::
    "nat \<Rightarrow> nat \<Rightarrow> int \<Rightarrow> (nat \<Rightarrow> nat option) \<Rightarrow> ('f eloop \<times> (nat \<Rightarrow> nat option)) result" where
  "EventLoop_new self me timerfd tls =
     (if tls me \<noteq> None then Inl ProcessExit
      else Inr (\<lparr>el_looping = False, el_threadId = me, el_quit = False, el_eventHandling = False,
                 el_funcs = mpsc_new, el_timerQueue = TimerQueue_new timerfd, el_funcsOnQuit = mpsc_new,
                 el_callingFuncs = False, el_wakeups = 0, el_index = size_max, el_slot = me, el_log = []\<rparr>,
                tls(me \<mapsto> self)))"

definition isInLoopThread :: "nat \<Rightarrow> 'f eloop \<Rightarrow> bool" where
  "isInLoopThread me s \<longleftrightarrow> el_threadId s = me"

definition isRunning :: "'f eloop \<Rightarrow> bool" where
  "isRunning s \<longleftrightarrow> el_looping s \<and> \<not> el_quit s"

definition assertInLoopThread :: "nat \<Rightarrow> 'f eloop \<Rightarrow> 'a result \<Rightarrow> 'a result" where
  "assertInLoopThread me s r = (if isInLoopThread me s then r else Inl ProcessExit)"

definition wakeup :: "'f eloop \<Rightarrow> 'f eloop" where
  "wakeup s = s\<lparr>el_wakeups := Suc (el_wakeups s)\<rparr>"

definition wakeupRead :: "'f eloop \<Rightarrow> 'f eloop" where
  "wakeupRead s = s\<lparr>el_wakeups := 0\<rparr>"

definition EventLoop_quit :: "nat \<Rightarrow> 'f eloop \<Rightarrow> 'f eloop" where
  "EventLoop_quit me s =
     (let s = s\<lparr>el_quit := True\<rparr> in if \<not> isInLoopThread me s then wakeup s else s)"

definition queueInLoop :: "nat \<Rightarrow> 'f \<Rightarrow> 'f eloop \<Rightarrow> 'f eloop result" where
  "queueInLoop me f s =
     bindR (enqueue (el_funcs s) f) (\<lambda>q.
       let s = s\<lparr>el_funcs := q\<rparr> in
       Inr (if \<not> isInLoopThread me s \<or> \<not> el_looping s then wakeup s else s))"

definition runOnQuit :: "'f \<Rightarrow> 'f eloop \<Rightarrow> 'f eloop result" where
  "runOnQuit f s = bindR (enqueue (el_funcsOnQuit s) f) (\<lambda>q. Inr (s\<lparr>el_funcsOnQuit := q\<rparr>))"

section \<open>Running functions\<close>

text \<open>The body of a function, run in the loop thread; the flag tells that it has thrown. \<open>AInvalidate\<close>
  is a call of \<^verbatim>\<open>EventLoop::invalidateTimer\<close>, which does nothing unless the loop is running; \<open>AErase\<close>
  and \<open>AAddTimer\<close> are the bodies of the functions that \<^verbatim>\<open>TimerQueue::invalidateTimer\<close> and
  \<^verbatim>\<open>TimerQueue::addTimer\<close> queue when they are called in another thread.\<close>

fun perform :: "'f act list \<Rightarrow> 'f eloop \<Rightarrow> ('f eloop \<times> bool) result" where
  "perform [] s = Inr (s, False)"
| "perform (AQueue f # as) s = bindR (queueInLoop (el_threadId s) f s) (perform as)"
| "perform (AQuit # as) s = perform as (EventLoop_quit (el_threadId s) s)"
| "perform (AOnQuit f # as) s = bindR (runOnQuit f s) (perform as)"
| "perform (AAddTimer t clock # as) s =
     perform as (s\<lparr>el_timerQueue := addTimerInLoop t clock (el_timerQueue s)\<rparr>)"
| "perform (AInvalidate i # as) s =
     perform as (if isRunning s then s\<lparr>el_timerQueue := tq_invalidateTimer i (el_timerQueue s)\<rparr> else s)"
| "perform (AErase i # as) s =
     perform as (s\<lparr>el_timerQueue := tq_invalidateTimer i (el_timerQueue s)\<rparr>)"
| "perform (AThrow # as) s = Inr (s, True)"

definition run_func :: "('f \<Rightarrow> 'f act list) \<Rightarrow> 'f \<Rightarrow> 'f eloop \<Rightarrow> ('f eloop \<times> bool) result" where
  "run_func body f s = perform (body f) (s\<lparr>el_log := el_log s @ [f]\<rparr>)"

definition runInLoop :: "('f \<Rightarrow> 'f act list) \<Rightarrow> nat \<Rightarrow> 'f \<Rightarrow> 'f eloop \<Rightarrow> ('f eloop \<times> bool) result" where
  "runInLoop body me f s =
     (if isInLoopThread me s then run_func body f s
      else bindR (queueInLoop me f s) (\<lambda>s. Inr (s, False)))"

text \<open>The inner and the outer loop of \<^verbatim>\<open>doRunInLoopFuncs\<close>; \<open>None\<close> is a loop that does not end.\<close>

partial_function (option) drain_funcs :: "('f \<Rightarrow> 'f act list) \<Rightarrow> 'f eloop \<Rightarrow> ('f eloop \<times> bool) result option" where
  "drain_funcs body s =
     (case dequeue (el_funcs s) of
        Inl e \<Rightarrow> Some (Inl e)
      | Inr (None, q) \<Rightarrow> Some (Inr (s\<lparr>el_funcs := q\<rparr>, False))
      | Inr (Some f, q) \<Rightarrow>
          (case run_func body f (s\<lparr>el_funcs := q\<rparr>) of
             Inl e \<Rightarrow> Some (Inl e)
           | Inr (s', threw) \<Rightarrow> (if threw then Some (Inr (s', True)) else drain_funcs body s')))"

partial_function (option) funcs_loop :: "('f \<Rightarrow> 'f act list) \<Rightarrow> 'f eloop \<Rightarrow> ('f eloop \<times> bool) result option" where
  "funcs_loop body s =
     (case queue_empty (el_funcs s) of
        Inl e \<Rightarrow> Some (Inl e)
      | Inr emp \<Rightarrow> if emp then Some (Inr (s, False)) else
          (case drain_funcs body s of
             None \<Rightarrow> None
           | Some (Inl e) \<Rightarrow> Some (Inl e)
           | Some (Inr (s', threw)) \<Rightarrow> (if threw then Some (Inr (s', True)) else funcs_loop body s')))"

definition doRunInLoopFuncs :: "('f \<Rightarrow> 'f act list) \<Rightarrow> 'f eloop \<Rightarrow> ('f eloop \<times> bool) result option" where
  "doRunInLoopFuncs body s =
     map_option (\<lambda>r. bindR r (\<lambda>(s', threw). Inr (s'\<lparr>el_callingFuncs := False\<rparr>, threw)))
       (funcs_loop body (s\<lparr>el_callingFuncs := True\<rparr>))"

text \<open>Running a list of handlers until one throws.\<close>

fun run_all :: "('f \<Rightarrow> 'f act list) \<Rightarrow> 'f list \<Rightarrow> 'f eloop \<Rightarrow> ('f eloop \<times> bool) result" where
  "run_all body [] s = Inr (s, False)"
| "run_all body (f # fs) s =
     bindR (run_func body f s) (\<lambda>(s', threw). if threw then Inr (s', True) else run_all body fs s')"

text \<open>The rounds of \<^verbatim>\<open>loop()\<close>: what thread \<open>other\<close> queues while the loop is in \<^verbatim>\<open>poll\<close>, and the
  handlers of the active channels. When the list is used up the loop stays in \<^verbatim>\<open>poll\<close>: \<open>None\<close>.\<close>

fun loop_rounds ::
    "('f \<Rightarrow> 'f act list) \<Rightarrow> nat \<Rightarrow> ('f list \<times> 'f list) list \<Rightarrow> 'f eloop \<Rightarrow> ('f eloop \<times> bool) result option" where
  "loop_rounds body other rounds s =
     (if el_quit s then Some (Inr (s, False))
      else case rounds of
             [] \<Rightarrow> None
           | (ext, handlers) # rest \<Rightarrow>
               (case foldR (\<lambda>s f. queueInLoop other f s) s ext of
                  Inl e \<Rightarrow> Some (Inl e)
                | Inr s1 \<Rightarrow>
                    (case run_all body handlers (s1\<lparr>el_eventHandling := True\<rparr>) of
                       Inl e \<Rightarrow> Some (Inl e)
                     | Inr (s2, threw) \<Rightarrow>
                         if threw then Some (Inr (s2, True)) else
                         (case doRunInLoopFuncs body (s2\<lparr>el_eventHandling := False\<rparr>) of
                            None \<Rightarrow> None
                          | Some (Inl e) \<Rightarrow> Some (Inl e)
                          | Some (Inr (s3, threw)) \<Rightarrow>
                              if threw then Some (Inr (s3, True)) else loop_rounds body other rest s3))))"

text \<open>Running the functions for the end of the loop; an exception leaves the rest in the queue.\<close>

partial_function (option) quit_funcs :: "('f \<Rightarrow> 'f act list) \<Rightarrow> 'f eloop \<Rightarrow> ('f eloop \<times> bool) result option" where
  "quit_funcs body s =
     (case dequeue (el_funcsOnQuit s) of
        Inl e \<Rightarrow> Some (Inl e)
      | Inr (None, q) \<Rightarrow> Some (Inr (s\<lparr>el_funcsOnQuit := q\<rparr>, False))
      | Inr (Some f, q) \<Rightarrow>
          (case run_func body f (s\<lparr>el_funcsOnQuit := q\<rparr>) of
             Inl e \<Rightarrow> Some (Inl e)
           | Inr (s', threw) \<Rightarrow> (if threw then Some (Inr (s', True)) else quit_funcs body s')))"

definition EventLoop_loop ::
    "('f \<Rightarrow> 'f act list) \<Rightarrow> nat \<Rightarrow> nat \<Rightarrow> ('f list \<times> 'f list) list \<Rightarrow> 'f eloop \<Rightarrow> ('f eloop \<times> bool) result option" where
  "EventLoop_loop body me other rounds s =
     (if el_looping s then Some (Inl AssertFail)
      else if \<not> isInLoopThread me s then Some (Inl ProcessExit)
      else case loop_rounds body other rounds (s\<lparr>el_looping := True, el_quit := False\<rparr>) of
             None \<Rightarrow> None
           | Some (Inl e) \<Rightarrow> Some (Inl e)
           | Some (Inr (s1, loopException)) \<Rightarrow>
               map_option (\<lambda>r. bindR r (\<lambda>(s2, threw). Inr (s2, threw \<or> loopException)))
                 (quit_funcs body (s1\<lparr>el_looping := False\<rparr>)))"

section \<open>Timers and threads\<close>

text \<open>
  Adding a timer: the timer gets its number at once; in another thread the insertion is queued
  as a function \<open>mk t\<close>. \<open>date\<close> and \<open>now\<close> are microseconds of the system clock, \<open>clock\<close>
  nanoseconds of the steady clock, intervals microseconds.
\<close>

definition loop_addTimer ::
    "('f timer \<Rightarrow> 'f) \<Rightarrow> nat \<Rightarrow> 'f \<Rightarrow> int \<Rightarrow> int \<Rightarrow> int \<Rightarrow> 'f eloop \<Rightarrow> (nat \<times> 'f eloop) result" where
  "loop_addTimer mk me cb when interval clock s =
     (let tq = el_timerQueue s; t = Timer_new cb when interval (tq_created tq);
          s1 = s\<lparr>el_timerQueue := tq\<lparr>tq_created := Suc (tq_created tq)\<rparr>\<rparr>
      in if isInLoopThread me s
         then Inr (tm_id t, s1\<lparr>el_timerQueue := addTimerInLoop t clock (el_timerQueue s1)\<rparr>)
         else bindR (queueInLoop me (mk t) s1) (\<lambda>s2. Inr (tm_id t, s2)))"

definition runAt :: "('f timer \<Rightarrow> 'f) \<Rightarrow> nat \<Rightarrow> int \<Rightarrow> int \<Rightarrow> int \<Rightarrow> 'f \<Rightarrow> 'f eloop \<Rightarrow> (nat \<times> 'f eloop) result" where
  "runAt mk me date now clock cb s =
     (let microSeconds = date - now in loop_addTimer mk me cb (clock + 1000 * microSeconds) 0 clock s)"

definition runAfter :: "('f timer \<Rightarrow> 'f) \<Rightarrow> nat \<Rightarrow> int \<Rightarrow> int \<Rightarrow> int \<Rightarrow> int \<Rightarrow> 'f \<Rightarrow> 'f eloop \<Rightarrow> (nat \<times> 'f eloop) result" where
  "runAfter mk me delay today now clock cb s = runAt mk me (today + delay) now clock cb s"

definition runEvery :: "('f timer \<Rightarrow> 'f) \<Rightarrow> nat \<Rightarrow> int \<Rightarrow> int \<Rightarrow> 'f \<Rightarrow> 'f eloop \<Rightarrow> (nat \<times> 'f eloop) result" where
  "runEvery mk me interval clock cb s = loop_addTimer mk me cb (clock + 1000 * interval) interval clock s"

definition loop_invalidateTimer :: "(nat \<Rightarrow> 'f) \<Rightarrow> nat \<Rightarrow> nat \<Rightarrow> 'f eloop \<Rightarrow> 'f eloop result" where
  "loop_invalidateTimer mk me i s =
     (if isRunning s
      then (if isInLoopThread me s
            then Inr (s\<lparr>el_timerQueue := tq_invalidateTimer i (el_timerQueue s)\<rparr>)
            else queueInLoop me (mk i) s)
      else Inr s)"

definition resetTimerQueue :: "nat \<Rightarrow> int \<Rightarrow> int \<Rightarrow> 'f eloop \<Rightarrow> 'f eloop result" where
  "resetTimerQueue me newfd clock s =
     assertInLoopThread me s (assertR (\<not> el_looping s)
       (Inr (s\<lparr>el_timerQueue := TimerQueue_reset newfd clock (el_timerQueue s)\<rparr>)))"

definition moveToCurrentThread ::
    "nat \<Rightarrow> nat \<Rightarrow> 'f eloop \<Rightarrow> (nat \<Rightarrow> nat option) \<Rightarrow> ('f eloop \<times> (nat \<Rightarrow> nat option)) result" where
  "moveToCurrentThread self me s tls =
     (if isRunning s then Inl ProcessExit
      else if isInLoopThread me s then Inr (s, tls)
      else if tls me \<noteq> None then Inl ProcessExit
      else Inr (s\<lparr>el_slot := me, el_threadId := me\<rparr>, tls(el_slot s := None, me \<mapsto> self)))"

section \<open>What running functions does\<close>

text \<open>The functions a body queues for the loop and for its end, up to a throw.\<close>

fun queued :: "'f act list \<Rightarrow> 'f list" where
  "queued [] = []"
| "queued (a # as) = (case a of AQueue f \<Rightarrow> f # queued as | AThrow \<Rightarrow> [] | _ \<Rightarrow> queued as)"

fun on_quit :: "'f act list \<Rightarrow> 'f list" where
  "on_quit [] = []"
| "on_quit (a # as) = (case a of AOnQuit f \<Rightarrow> f # on_quit as | AThrow \<Rightarrow> [] | _ \<Rightarrow> on_quit as)"

fun quits :: "'f act list \<Rightarrow> bool" where
  "quits [] = False"
| "quits (a # as) = (case a of AQuit \<Rightarrow> True | AThrow \<Rightarrow> False | _ \<Rightarrow> quits as)"

text \<open>The contents of the two queues.\<close>

definition holds :: "'f eloop \<Rightarrow> 'f list \<Rightarrow> 'f list \<Rightarrow> bool" where
  "holds s xs zs \<longleftrightarrow> mq_holds (el_funcs s) xs \<and> mq_holds (el_funcsOnQuit s) zs"

definition same_flags :: "'f eloop \<Rightarrow> 'f eloop \<Rightarrow> bool" where
  "same_flags s s' \<longleftrightarrow> el_looping s' = el_looping s \<and> el_threadId s' = el_threadId s \<and>
     el_callingFuncs s' = el_callingFuncs s \<and> el_eventHandling s' = el_eventHandling s"

lemma same_flags_trans: "same_flags a b \<Longrightarrow> same_flags b c \<Longrightarrow> same_flags a c"
  by (simp add: same_flags_def)

lemma queueInLoop_ok:
  assumes "holds s xs zs"
  shows "\<exists>s'. queueInLoop me f s = Inr s' \<and> holds s' (xs @ [f]) zs \<and> same_flags s s' \<and> el_log s' = el_log s \<and>
    el_quit s' = el_quit s \<and> el_wakeups s' = (if me \<noteq> el_threadId s \<or> \<not> el_looping s then Suc (el_wakeups s) else el_wakeups s)"
  using mq.put_ok [of "el_funcs s" xs f] assms
  by (auto simp: queueInLoop_def holds_def same_flags_def wakeup_def isInLoopThread_def)

lemma runOnQuit_ok:
  assumes "holds s xs zs"
  shows "\<exists>s'. runOnQuit f s = Inr s' \<and> holds s' xs (zs @ [f]) \<and> same_flags s s' \<and> el_log s' = el_log s \<and>
    el_quit s' = el_quit s"
  using mq.put_ok [of "el_funcsOnQuit s" zs f] assms
  by (auto simp: runOnQuit_def holds_def same_flags_def)

lemma perform_ok:
  assumes "holds s xs zs"
  shows "\<exists>s'. perform as s = Inr (s', AThrow \<in> set as) \<and> holds s' (xs @ queued as) (zs @ on_quit as) \<and>
    same_flags s s' \<and> el_log s' = el_log s \<and> el_quit s' = (el_quit s \<or> quits as)"
  using assms
proof (induction as s arbitrary: xs zs rule: perform.induct)
  case (2 f as s)
  from queueInLoop_ok [OF "2.prems", of "el_threadId s" f] obtain s1 where
    1: "queueInLoop (el_threadId s) f s = Inr s1" "holds s1 (xs @ [f]) zs" "same_flags s s1"
      "el_log s1 = el_log s" "el_quit s1 = el_quit s" by blast
  from "2.IH" [OF 1(1,2)] 1 show ?case by (auto intro: same_flags_trans)
next
  case (4 f as s)
  from runOnQuit_ok [OF "4.prems", of f] obtain s1 where
    1: "runOnQuit f s = Inr s1" "holds s1 xs (zs @ [f])" "same_flags s s1"
      "el_log s1 = el_log s" "el_quit s1 = el_quit s" by blast
  from "4.IH" [OF 1(1,2)] 1 show ?case by (auto intro: same_flags_trans)
qed (auto simp: holds_def same_flags_def EventLoop_quit_def wakeup_def isInLoopThread_def)

lemma run_func_ok:
  assumes "holds s xs zs"
  shows "\<exists>s'. run_func body f s = Inr (s', AThrow \<in> set (body f)) \<and> holds s' (xs @ queued (body f)) (zs @ on_quit (body f)) \<and>
    same_flags s s' \<and> el_log s' = el_log s @ [f] \<and> el_quit s' = (el_quit s \<or> quits (body f))"
  using perform_ok [of "s\<lparr>el_log := el_log s @ [f]\<rparr>" xs zs "body f"] assms
  by (simp add: run_func_def holds_def same_flags_def)

text \<open>
  Working off a queue first in, first out, where running \<open>f\<close> appends \<open>next f\<close> to the queue:
  \<open>runs_to next xs ys\<close> means that this ends and runs \<open>ys\<close>.
\<close>

inductive runs_to :: "('f \<Rightarrow> 'f list) \<Rightarrow> 'f list \<Rightarrow> 'f list \<Rightarrow> bool" for "next" :: "'f \<Rightarrow> 'f list" where
  Nil: "runs_to next [] []"
| Cons: "runs_to next (xs @ next f) ys \<Longrightarrow> runs_to next (f # xs) (f # ys)"

inductive_cases runs_to_NilE: "runs_to next [] ys"
inductive_cases runs_to_ConsE: "runs_to next (f # xs) ys"

lemma runs_to_prefix: "runs_to next xs ys \<Longrightarrow> prefix xs ys"
  by (induction rule: runs_to.induct) (auto dest: append_prefixD)

text \<open>Bodies that do not throw and in which the work still to be queued gets less and less.\<close>

definition well_behaved :: "('f \<Rightarrow> 'f act list) \<Rightarrow> ('f \<Rightarrow> nat) \<Rightarrow> bool" where
  "well_behaved body weight \<longleftrightarrow> (\<forall>f. AThrow \<notin> set (body f) \<and>
     sum_list (map weight (queued (body f))) < weight f \<and> sum_list (map weight (on_quit (body f))) < weight f)"

text \<open>
  The outcome of working off a queue, whatever its functions do: \<open>works_off body xs ys left threw\<close> means that
  the functions \<open>ys\<close> run and \<open>left\<close> stays in the queue, which is not empty only when the last function
  that runs has thrown. There is no outcome when the functions keep queueing others for ever.
\<close>

inductive works_off :: "('f \<Rightarrow> 'f act list) \<Rightarrow> 'f list \<Rightarrow> 'f list \<Rightarrow> 'f list \<Rightarrow> bool \<Rightarrow> bool" for body where
  done_all: "works_off body [] [] [] False"
| throws: "AThrow \<in> set (body f) \<Longrightarrow> works_off body (f # xs) [f] (xs @ queued (body f)) True"
| goes_on: "AThrow \<notin> set (body f) \<Longrightarrow> works_off body (xs @ queued (body f)) ys left threw \<Longrightarrow>
    works_off body (f # xs) (f # ys) left threw"

lemma works_off_left: "works_off body xs ys left threw \<Longrightarrow> \<not> threw \<Longrightarrow> left = []"
  by (induction rule: works_off.induct) simp_all

lemma works_off_runs_to:
  assumes "\<forall>f. AThrow \<notin> set (body f)" "runs_to (queued \<circ> body) xs ys"
  shows "works_off body xs ys [] False"
  using assms(2) by (induction rule: runs_to.induct) (use assms(1) in \<open>auto intro: works_off.intros\<close>)

text \<open>Work that gets less and less ends.\<close>

lemma runs_to_ends:
  assumes "\<And>f. sum_list (map weight (next f)) < (weight f :: nat)"
  shows "\<exists>ys. runs_to next xs ys"
proof (induction "sum_list (map weight xs)" arbitrary: xs rule: less_induct)
  case less
  show ?case
  proof (cases xs)
    case (Cons f xs')
    have "sum_list (map weight (xs' @ next f)) < sum_list (map weight xs)" using assms [of f] Cons by simp
    from less.hyps [OF this] show ?thesis unfolding Cons by (auto intro: runs_to.Cons)
  qed (auto intro: runs_to.Nil)
qed

lemma drain_works_off:
  assumes "works_off body xs ys left threw" "holds s xs zs"
  shows "\<exists>s'. drain_funcs body s = Some (Inr (s', threw)) \<and>
    holds s' left (zs @ concat (map (on_quit \<circ> body) ys)) \<and> same_flags s s' \<and> el_log s' = el_log s @ ys \<and>
    el_quit s' = (el_quit s \<or> (\<exists>f \<in> set ys. quits (body f)))"
  using assms
proof (induction arbitrary: s zs rule: works_off.induct)
  case done_all
  then have "dequeue (el_funcs s) = Inr (None, el_funcs s)" by (simp add: holds_def mq.get_empty)
  with done_all show ?case by (subst drain_funcs.simps) (simp add: same_flags_def)
next
  case (throws f xs)
  with mq.get_item [of "el_funcs s" f xs] obtain q where
    q: "dequeue (el_funcs s) = Inr (Some f, q)" "mq_holds q xs" by (auto simp: holds_def)
  have "holds (s\<lparr>el_funcs := q\<rparr>) xs zs" using q(2) throws.prems by (simp add: holds_def)
  from run_func_ok [OF this, of body f] q(1) throws.hyps show ?case
    by (subst drain_funcs.simps) (auto simp: same_flags_def)
next
  case (goes_on f xs ys left threw)
  from goes_on.prems mq.get_item [of "el_funcs s" f xs] obtain q where
    q: "dequeue (el_funcs s) = Inr (Some f, q)" "mq_holds q xs" by (auto simp: holds_def)
  let ?s = "s\<lparr>el_funcs := q\<rparr>"
  have "holds ?s xs zs" using q(2) goes_on.prems by (simp add: holds_def)
  from run_func_ok [OF this, of body f] goes_on.hyps(1) obtain s1 where
    1: "run_func body f ?s = Inr (s1, False)" "holds s1 (xs @ queued (body f)) (zs @ on_quit (body f))"
      "same_flags ?s s1" "el_log s1 = el_log s @ [f]" "el_quit s1 = (el_quit s \<or> quits (body f))" by auto
  from goes_on.IH [OF 1(2)] obtain s2 where
    2: "drain_funcs body s1 = Some (Inr (s2, threw))"
      "holds s2 left ((zs @ on_quit (body f)) @ concat (map (on_quit \<circ> body) ys))" "same_flags s1 s2"
      "el_log s2 = el_log s1 @ ys" "el_quit s2 = (el_quit s1 \<or> (\<exists>f \<in> set ys. quits (body f)))" by blast
  have "drain_funcs body s = Some (Inr (s2, threw))" using q(1) 1(1) 2(1) by (subst drain_funcs.simps) simp
  moreover have "same_flags s s2" using 1(3) 2(3) by (simp add: same_flags_def)
  moreover have "holds s2 left (zs @ concat (map (on_quit \<circ> body) (f # ys)))" using 2(2) by simp
  ultimately show ?case using 1(4,5) 2(4,5) by (intro exI [of _ s2]) (auto simp: o_def)
qed

lemma drain_returns_works_off:
  "drain_funcs body s = Some r \<Longrightarrow> holds s xs zs \<Longrightarrow> \<exists>ys left threw. works_off body xs ys left threw"
proof (induction arbitrary: xs zs rule: drain_funcs.raw_induct [rotated, consumes 1, case_names step])
  case (step drain body s r)
  note h = step.prems
  show ?case
  proof (cases xs)
    case (Cons f xs')
    with h mq.get_item [of "el_funcs s" f xs'] obtain q where
      q: "dequeue (el_funcs s) = Inr (Some f, q)" "mq_holds q xs'" by (auto simp: holds_def)
    have "holds (s\<lparr>el_funcs := q\<rparr>) xs' zs" using q(2) h by (simp add: holds_def)
    from run_func_ok [OF this, of body f] obtain s1 where
      s1: "run_func body f (s\<lparr>el_funcs := q\<rparr>) = Inr (s1, AThrow \<in> set (body f))"
        "holds s1 (xs' @ queued (body f)) (zs @ on_quit (body f))" by blast
    show ?thesis
    proof (cases "AThrow \<in> set (body f)")
      case True
      then show ?thesis unfolding Cons by (blast intro: works_off.throws)
    next
      case False
      with step.hyps q(1) s1(1) have "drain body s1 = Some r" by simp
      from step.IH [OF this s1(2)] False show ?thesis unfolding Cons by (blast intro: works_off.goes_on)
    qed
  qed (blast intro: works_off.done_all)
qed

lemma funcs_loop_works_off:
  assumes w: "works_off body xs ys left threw" and s: "holds s xs zs"
  shows "\<exists>s'. funcs_loop body s = Some (Inr (s', threw)) \<and>
    holds s' left (zs @ concat (map (on_quit \<circ> body) ys)) \<and> same_flags s s' \<and> el_log s' = el_log s @ ys \<and>
    el_quit s' = (el_quit s \<or> (\<exists>f \<in> set ys. quits (body f)))"
proof (cases "xs = []")
  case True
  with s have "queue_empty (el_funcs s) = Inr True"
    using mq.empty_ok [of "el_funcs s" xs] by (simp add: holds_def)
  moreover from w True have "ys = [] \<and> left = [] \<and> \<not> threw" by (auto elim: works_off.cases)
  ultimately show ?thesis using True s
    by (intro exI [of _ s]) (subst funcs_loop.simps, simp add: same_flags_def)
next
  case False
  with s have e: "queue_empty (el_funcs s) = Inr False"
    using mq.empty_ok [of "el_funcs s" xs] by (simp add: holds_def)
  obtain s' where d: "drain_funcs body s = Some (Inr (s', threw))"
    "holds s' left (zs @ concat (map (on_quit \<circ> body) ys))" "same_flags s s'" "el_log s' = el_log s @ ys"
    "el_quit s' = (el_quit s \<or> (\<exists>f \<in> set ys. quits (body f)))"
    using drain_works_off [OF w s] by blast
  have "funcs_loop body s = Some (Inr (s', threw))"
  proof (cases threw)
    case True
    with e d(1) show ?thesis by (subst funcs_loop.simps) simp
  next
    case False
    with d(2) works_off_left [OF w] have "queue_empty (el_funcs s') = Inr True"
      using mq.empty_ok [of "el_funcs s'" "[]"] by (simp add: holds_def)
    then have "funcs_loop body s' = Some (Inr (s', False))" by (subst funcs_loop.simps) simp
    with e d(1) False show ?thesis by (subst funcs_loop.simps) simp
  qed
  with d show ?thesis by blast
qed

lemma funcs_loop_returns_works_off:
  assumes "funcs_loop body s = Some r" "holds s xs zs"
  shows "\<exists>ys left threw. works_off body xs ys left threw"
proof (cases "xs = []")
  case False
  with assms(2) have "queue_empty (el_funcs s) = Inr False"
    using mq.empty_ok [of "el_funcs s" xs] by (simp add: holds_def)
  with assms(1) obtain r' where "drain_funcs body s = Some r'"
    by (subst (asm) funcs_loop.simps) (auto split: option.splits)
  with drain_returns_works_off assms(2) show ?thesis by blast
qed (blast intro: works_off.done_all)

lemma funcs_loop_ok:
  assumes wb: "well_behaved body weight" and s: "holds s xs zs"
  shows "\<exists>s' ys. funcs_loop body s = Some (Inr (s', False)) \<and> runs_to (queued \<circ> body) xs ys \<and>
    holds s' [] (zs @ concat (map (on_quit \<circ> body) ys)) \<and> same_flags s s' \<and> el_log s' = el_log s @ ys \<and>
    el_quit s' = (el_quit s \<or> (\<exists>f \<in> set ys. quits (body f)))"
proof -
  have "\<exists>ys. runs_to (queued \<circ> body) xs ys"
    by (rule runs_to_ends [of weight]) (use wb in \<open>simp add: well_behaved_def\<close>)
  then obtain ys where ys: "runs_to (queued \<circ> body) xs ys" ..
  with wb have "works_off body xs ys [] False" by (intro works_off_runs_to) (auto simp: well_behaved_def)
  from funcs_loop_works_off [OF this s] ys show ?thesis by blast
qed

text \<open>
  C6: queued functions run, all of them and in order. With \<open>xs\<close> in the queue, \<^verbatim>\<open>doRunInLoopFuncs\<close> runs the
  functions in the order in which they were queued, those queued meanwhile behind the others,
  until the queue is empty or one of them throws, and clears its flag in both cases; the functions
  behind the one that has thrown stay in the queue. It does not return exactly when the functions
  keep queueing others for ever without throwing. So it returns with an empty queue, having run all
  functions, if no function throws and the work that they queue gets less and less.
\<close>

theorem doRunInLoopFuncs_runs_all:
  assumes "holds s xs zs"
  shows "(case doRunInLoopFuncs body s of
       None \<Rightarrow> \<nexists>ys left threw. works_off body xs ys left threw
     | Some (Inl e) \<Rightarrow> False
     | Some (Inr (s', threw)) \<Rightarrow> (\<exists>ys left. works_off body xs ys left threw \<and>
         holds s' left (zs @ concat (map (on_quit \<circ> body) ys)) \<and> \<not> el_callingFuncs s' \<and> el_log s' = el_log s @ ys)) \<and>
    (well_behaved body weight \<longrightarrow>
      (\<exists>s' ys. doRunInLoopFuncs body s = Some (Inr (s', False)) \<and> runs_to (queued \<circ> body) xs ys \<and> prefix xs ys \<and>
         holds s' [] (zs @ concat (map (on_quit \<circ> body) ys)) \<and> \<not> el_callingFuncs s' \<and> el_log s' = el_log s @ ys))"
  (is "?exact \<and> (_ \<longrightarrow> ?all)")
proof
  let ?s = "s\<lparr>el_callingFuncs := True\<rparr>"
  have h: "holds ?s xs zs" using assms by (simp add: holds_def)
  show ?exact
  proof (cases "\<exists>ys left threw. works_off body xs ys left threw")
    case True
    then obtain ys left threw where w: "works_off body xs ys left threw" by blast
    from funcs_loop_works_off [OF w h] obtain s' where
      "funcs_loop body ?s = Some (Inr (s', threw))" "holds s' left (zs @ concat (map (on_quit \<circ> body) ys))"
      "el_log s' = el_log s @ ys" by auto
    with w show ?thesis by (auto simp: doRunInLoopFuncs_def holds_def)
  next
    case False
    then have "funcs_loop body ?s = None" using funcs_loop_returns_works_off [OF _ h, of body] by (cases "funcs_loop body ?s") auto
    with False show ?thesis by (simp add: doRunInLoopFuncs_def)
  qed
  show "well_behaved body weight \<longrightarrow> ?all"
  proof
    assume "well_behaved body weight"
    from funcs_loop_ok [OF this h] obtain s' ys where
      "funcs_loop body ?s = Some (Inr (s', False))" "runs_to (queued \<circ> body) xs ys"
      "holds s' [] (zs @ concat (map (on_quit \<circ> body) ys))" "el_log s' = el_log s @ ys" by auto
    then show ?all
      by (intro exI [of _ "s'\<lparr>el_callingFuncs := False\<rparr>"] exI [of _ ys])
        (simp add: doRunInLoopFuncs_def holds_def runs_to_prefix)
  qed
qed

section \<open>The whole loop\<close>

lemma foldR_queue_ok:
  assumes "holds s xs zs"
  shows "\<exists>s'. foldR (\<lambda>s f. queueInLoop other f s) s ext = Inr s' \<and> holds s' (xs @ ext) zs \<and> same_flags s s' \<and>
    el_log s' = el_log s \<and> el_quit s' = el_quit s"
  using assms
proof (induction ext arbitrary: s xs)
  case (Cons f ext)
  from queueInLoop_ok [OF Cons.prems, of other f] obtain s1 where
    1: "queueInLoop other f s = Inr s1" "holds s1 (xs @ [f]) zs" "same_flags s s1" "el_log s1 = el_log s"
      "el_quit s1 = el_quit s" by blast
  from Cons.IH [OF 1(2)] 1 show ?case by (auto intro: same_flags_trans)
qed (auto simp: same_flags_def)

lemma run_all_ok:
  assumes "well_behaved body weight" "holds s xs zs"
  shows "\<exists>s'. run_all body fs s = Inr (s', False) \<and>
    holds s' (xs @ concat (map (queued \<circ> body) fs)) (zs @ concat (map (on_quit \<circ> body) fs)) \<and>
    same_flags s s' \<and> el_log s' = el_log s @ fs \<and> el_quit s' = (el_quit s \<or> (\<exists>f \<in> set fs. quits (body f)))"
  using assms(2)
proof (induction fs arbitrary: s xs zs)
  case (Cons f fs)
  from run_func_ok [OF Cons.prems, of body f] assms(1) obtain s1 where
    1: "run_func body f s = Inr (s1, False)" "holds s1 (xs @ queued (body f)) (zs @ on_quit (body f))"
      "same_flags s s1" "el_log s1 = el_log s @ [f]" "el_quit s1 = (el_quit s \<or> quits (body f))"
    by (auto simp: well_behaved_def)
  from Cons.IH [OF 1(2)] obtain s2 where
    2: "run_all body fs s1 = Inr (s2, False)"
      "holds s2 ((xs @ queued (body f)) @ concat (map (queued \<circ> body) fs)) ((zs @ on_quit (body f)) @ concat (map (on_quit \<circ> body) fs))"
      "same_flags s1 s2" "el_log s2 = el_log s1 @ fs" "el_quit s2 = (el_quit s1 \<or> (\<exists>f \<in> set fs. quits (body f)))"
    by blast
  then show ?case using 1 by (intro exI [of _ s2]) (auto simp: o_def intro: same_flags_trans)
qed (auto simp: same_flags_def)

lemma quit_funcs_ok:
  assumes wb: "well_behaved body weight" and "holds s xs zs"
  shows "\<exists>s' ys. quit_funcs body s = Some (Inr (s', False)) \<and> runs_to (on_quit \<circ> body) zs ys \<and>
    holds s' (xs @ concat (map (queued \<circ> body) ys)) [] \<and> same_flags s s' \<and> el_log s' = el_log s @ ys"
  using assms(2)
proof (induction "sum_list (map weight zs)" arbitrary: xs zs s rule: less_induct)
  case less
  show ?case
  proof (cases zs)
    case Nil
    with less.prems have "dequeue (el_funcsOnQuit s) = Inr (None, el_funcsOnQuit s)"
      by (simp add: holds_def mq.get_empty)
    with less.prems Nil show ?thesis
      by (intro exI [of _ s] exI [of _ "[]"]) (subst quit_funcs.simps, simp add: same_flags_def runs_to.Nil)
  next
    case (Cons f zs')
    with less.prems mq.get_item [of "el_funcsOnQuit s" f zs'] obtain q where
      q: "dequeue (el_funcsOnQuit s) = Inr (Some f, q)" "mq_holds q zs'" by (auto simp: holds_def)
    let ?s = "s\<lparr>el_funcsOnQuit := q\<rparr>"
    have "holds ?s xs zs'" using q(2) less.prems by (simp add: holds_def)
    from run_func_ok [OF this, of body f] wb obtain s1 where
      1: "run_func body f ?s = Inr (s1, False)" "holds s1 (xs @ queued (body f)) (zs' @ on_quit (body f))"
        "same_flags ?s s1" "el_log s1 = el_log s @ [f]"
      by (auto simp: well_behaved_def)
    have "sum_list (map weight (zs' @ on_quit (body f))) < sum_list (map weight zs)"
      using wb Cons by (simp add: well_behaved_def)
    from less.hyps [OF this 1(2)] obtain s2 ys where
      2: "quit_funcs body s1 = Some (Inr (s2, False))" "runs_to (on_quit \<circ> body) (zs' @ on_quit (body f)) ys"
        "holds s2 ((xs @ queued (body f)) @ concat (map (queued \<circ> body) ys)) []" "same_flags s1 s2"
        "el_log s2 = el_log s1 @ ys" by blast
    have "quit_funcs body s = Some (Inr (s2, False))" using q(1) 1(1) 2(1) by (subst quit_funcs.simps) simp
    moreover have "same_flags s s2" using 1(3) 2(4) by (simp add: same_flags_def)
    moreover have "runs_to (on_quit \<circ> body) zs (f # ys)" unfolding Cons using 2(2) by (intro runs_to.Cons) simp
    ultimately show ?thesis using 1 2 by (intro exI [of _ s2] exI [of _ "f # ys"]) auto
  qed
qed

declare loop_rounds.simps [simp del]

text \<open>One round of the loop with well-behaved functions: the handlers, then the queued functions.\<close>

lemma loop_round_ok:
  assumes wb: "well_behaved body weight" and s: "holds s xs zs" and q: "\<not> el_quit s"
  obtains s' ys where "loop_rounds body other ((ext, hs) # rest) s = loop_rounds body other rest s'"
    "runs_to (queued \<circ> body) (xs @ ext @ concat (map (queued \<circ> body) hs)) ys"
    "holds s' [] (zs @ concat (map (on_quit \<circ> body) (hs @ ys)))" "el_looping s' = el_looping s" "el_threadId s' = el_threadId s"
    "el_log s' = el_log s @ hs @ ys" "el_quit s' = (\<exists>f \<in> set (hs @ ys). quits (body f))"
proof -
  from foldR_queue_ok [OF s, of other ext] obtain s1 where
    1: "foldR (\<lambda>s f. queueInLoop other f s) s ext = Inr s1" "holds s1 (xs @ ext) zs" "same_flags s s1"
      "el_log s1 = el_log s" "el_quit s1 = el_quit s" by blast
  have "holds (s1\<lparr>el_eventHandling := True\<rparr>) (xs @ ext) zs" using 1(2) by (simp add: holds_def)
  from run_all_ok [OF wb this, of hs] obtain s2 where
    2: "run_all body hs (s1\<lparr>el_eventHandling := True\<rparr>) = Inr (s2, False)"
      "holds s2 ((xs @ ext) @ concat (map (queued \<circ> body) hs)) (zs @ concat (map (on_quit \<circ> body) hs))"
      "same_flags (s1\<lparr>el_eventHandling := True\<rparr>) s2" "el_log s2 = el_log s @ hs"
      "el_quit s2 = (\<exists>f \<in> set hs. quits (body f))"
    using 1(4,5) q by auto
  let ?s = "s2\<lparr>el_eventHandling := False, el_callingFuncs := True\<rparr>"
  have "holds ?s ((xs @ ext) @ concat (map (queued \<circ> body) hs)) (zs @ concat (map (on_quit \<circ> body) hs))"
    using 2(2) by (simp add: holds_def)
  from funcs_loop_ok [OF wb this] obtain s3 ys where
    3: "funcs_loop body ?s = Some (Inr (s3, False))"
      "runs_to (queued \<circ> body) ((xs @ ext) @ concat (map (queued \<circ> body) hs)) ys"
      "holds s3 [] ((zs @ concat (map (on_quit \<circ> body) hs)) @ concat (map (on_quit \<circ> body) ys))" "same_flags ?s s3"
      "el_log s3 = el_log s2 @ ys" "el_quit s3 = (el_quit s2 \<or> (\<exists>f \<in> set ys. quits (body f)))" by auto
  have "doRunInLoopFuncs body (s2\<lparr>el_eventHandling := False\<rparr>) = Some (Inr (s3\<lparr>el_callingFuncs := False\<rparr>, False))"
    using 3(1) by (simp add: doRunInLoopFuncs_def)
  then have "loop_rounds body other ((ext, hs) # rest) s = loop_rounds body other rest (s3\<lparr>el_callingFuncs := False\<rparr>)"
    using 1(1) 2(1) q by (subst loop_rounds.simps) simp
  then show thesis
    by (rule that [of "s3\<lparr>el_callingFuncs := False\<rparr>" ys])
      (use 1 2 3 in \<open>auto simp: holds_def same_flags_def\<close>)
qed

text \<open>
  C5: a request to quit from within the loop ends it, and nothing that was queued before is lost. The
  functions are assumed not to throw and not to keep each other busy for ever
  (\<open>well_behaved\<close>), and the call of \<^verbatim>\<open>quit\<close> comes while the loop runs: \<^verbatim>\<open>loop()\<close> clears the flag when
  it starts. When one of the functions that run in a round (a handler of an active channel, or a queued function) calls
  \<^verbatim>\<open>quit\<close>, the loop returns after this round: it has run the handlers, then all functions
  queued up to then, then the functions registered for the end of the loop, and the
  loop can be started again.
\<close>

theorem loop_quits_after_round:
  assumes "well_behaved body weight" "holds s xs zs" "\<not> el_looping s" "el_threadId s = me"
    and "f \<in> set hs \<union> set ext \<union> set xs" "quits (body f)"
  shows "\<exists>s' ys os. EventLoop_loop body me other ((ext, hs) # rest) s = Some (Inr (s', False)) \<and>
    el_log s' = el_log s @ hs @ ys @ os \<and> \<not> el_looping s' \<and>
    runs_to (queued \<circ> body) (xs @ ext @ concat (map (queued \<circ> body) hs)) ys \<and>
    runs_to (on_quit \<circ> body) (zs @ concat (map (on_quit \<circ> body) (hs @ ys))) os"
proof -
  let ?s = "s\<lparr>el_looping := True, el_quit := False\<rparr>"
  have hs: "holds ?s xs zs" and nq: "\<not> el_quit ?s" using assms(2) by (simp_all add: holds_def)
  obtain s1 ys where 1: "loop_rounds body other ((ext, hs) # rest) ?s = loop_rounds body other rest s1"
    "runs_to (queued \<circ> body) (xs @ ext @ concat (map (queued \<circ> body) hs)) ys"
    "holds s1 [] (zs @ concat (map (on_quit \<circ> body) (hs @ ys)))"
    "el_log s1 = el_log ?s @ hs @ ys" "el_quit s1 = (\<exists>f \<in> set (hs @ ys). quits (body f))"
    by (rule loop_round_ok [OF assms(1) hs nq, of other ext _ rest])
  have "set (xs @ ext) \<subseteq> set ys" using set_mono_prefix [OF runs_to_prefix [OF 1(2)]] by auto
  then have "el_quit s1" using 1(5) assms(5,6) by auto
  then have r: "loop_rounds body other ((ext, hs) # rest) ?s = Some (Inr (s1, False))"
    unfolding 1(1) by (subst loop_rounds.simps) simp
  have "holds (s1\<lparr>el_looping := False\<rparr>) [] (zs @ concat (map (on_quit \<circ> body) (hs @ ys)))"
    using 1(3) by (simp add: holds_def)
  from quit_funcs_ok [OF assms(1) this] obtain s2 os where
    "quit_funcs body (s1\<lparr>el_looping := False\<rparr>) = Some (Inr (s2, False))"
    "runs_to (on_quit \<circ> body) (zs @ concat (map (on_quit \<circ> body) (hs @ ys))) os"
    "same_flags (s1\<lparr>el_looping := False\<rparr>) s2" "el_log s2 = el_log s1 @ os" by auto
  with r 1(2,4) assms(3,4) show ?thesis
    by (intro exI [of _ s2] exI [of _ ys] exI [of _ os])
      (auto simp: EventLoop_loop_def isInLoopThread_def same_flags_def)
qed

section \<open>Example\<close>

definition example_body :: "nat \<Rightarrow> nat act list" where
  "example_body n = (if n = 1 then [AQueue 2] else if n = 2 then [AOnQuit 9, AQuit] else [])"

definition example_weight :: "nat \<Rightarrow> nat" where
  "example_weight n = (if n = 1 then 3 else if n = 2 then 2 else 1)"

definition example_loop :: "nat eloop" where
  "example_loop = (case EventLoop_new 0 7 3 Map.empty of Inr (s, tls) \<Rightarrow> s)"

lemma example_well_behaved: "well_behaved example_body example_weight"
  by (simp add: well_behaved_def example_body_def example_weight_def)

lemma example_holds: "holds example_loop [] []"
  by (simp add: example_loop_def EventLoop_new_def holds_def mq_holds_new)

text \<open>Two functions in the queue, of which the first queues a third.\<close>

definition example_busy :: "nat eloop" where
  "example_busy = (case foldR (\<lambda>s f. queueInLoop 8 f s) example_loop [1, 5] of Inr s \<Rightarrow> s)"

lemma example_busy_holds: "holds example_busy [1, 5] [] \<and> el_log example_busy = []"
proof -
  from foldR_queue_ok [OF example_holds, of 8 "[1, 5]"] show ?thesis
    by (auto simp: example_busy_def example_loop_def EventLoop_new_def)
qed

lemma example_runs_to: "runs_to (queued \<circ> example_body) [1, 5] ys \<Longrightarrow> ys = [1, 5, 2]"
  by (auto simp: example_body_def elim!: runs_to_ConsE runs_to_NilE)

theorem doRunInLoopFuncs_runs_all_witness:
  "\<exists>s'. doRunInLoopFuncs example_body example_busy = Some (Inr (s', False)) \<and> holds s' [] [9] \<and>
     \<not> el_callingFuncs s' \<and> el_log s' = [1, 5, 2]"
proof -
  note b = example_busy_holds [THEN conjunct1] example_busy_holds [THEN conjunct2]
  from doRunInLoopFuncs_runs_all [OF b(1), of example_body example_weight, THEN conjunct2, rule_format, OF example_well_behaved]
  obtain s' ys where r: "doRunInLoopFuncs example_body example_busy = Some (Inr (s', False))"
    "runs_to (queued \<circ> example_body) [1, 5] ys" "holds s' [] ([] @ concat (map (on_quit \<circ> example_body) ys))"
    "\<not> el_callingFuncs s'" "el_log s' = el_log example_busy @ ys" by blast
  from example_runs_to [OF r(2)] r(3) have "holds s' [] [9]" by (simp add: example_body_def)
  with r example_runs_to [OF r(2)] b(2) show ?thesis by auto
qed

lemma example_runs_to2:
  "runs_to (queued \<circ> example_body) [1, 2] ys \<Longrightarrow> ys = [1, 2, 2]"
  "runs_to (on_quit \<circ> example_body) [9, 9] os \<Longrightarrow> os = [9, 9]"
  by (auto simp: example_body_def elim!: runs_to_ConsE runs_to_NilE)

theorem loop_quits_after_round_witness:
  "\<exists>s'. EventLoop_loop example_body 7 8 [([1, 2], [5]), ([], [])] example_loop = Some (Inr (s', False)) \<and>
     el_log s' = [5, 1, 2, 2, 9, 9] \<and> \<not> el_looping s'"
proof -
  from loop_quits_after_round [OF example_well_behaved example_holds, of 7 2 "[5]" "[1, 2]" 8 "[([], [])]"]
  obtain s' ys os where r: "EventLoop_loop example_body 7 8 [([1, 2], [5]), ([], [])] example_loop = Some (Inr (s', False))"
    "el_log s' = el_log example_loop @ [5] @ ys @ os" "\<not> el_looping s'"
    "runs_to (queued \<circ> example_body) ([] @ [1, 2] @ concat (map (queued \<circ> example_body) [5])) ys"
    "runs_to (on_quit \<circ> example_body) ([] @ concat (map (on_quit \<circ> example_body) ([5] @ ys))) os"
    by (auto simp: example_loop_def EventLoop_new_def example_body_def)
  from r(4) have ys: "ys = [1, 2, 2]" by (intro example_runs_to2) (simp add: example_body_def)
  from r(5) have "os = [9, 9]" unfolding ys by (intro example_runs_to2) (simp add: example_body_def)
  with r ys show ?thesis by (auto simp: example_loop_def EventLoop_new_def)
qed

section \<open>Waking up the loop from other threads\<close>

text \<open>
  The queue of functions with the loop thread (number 0) as consumer. A call of \<^verbatim>\<open>queueInLoop\<close> in
  another thread is the exchange, the store and then the write to the event descriptor;
  \<open>ls_due\<close> are the threads between the first and the last of these. The loop thread also queues
  functions, while it handles events or runs functions, and does not wake itself up then.
\<close>

datatype phase = Polling | Handling | Running

record 'f lsys =
  ls_m :: "'f msys"
  ls_phase :: phase
  ls_wake :: nat
  ls_due :: "nat set"

definition lsys_init :: "'f lsys" where
  "lsys_init = \<lparr>ls_m = msys_init, ls_phase = Polling, ls_wake = 0, ls_due = {}\<rparr>"

inductive lstep :: "'f lsys \<Rightarrow> 'f lsys \<Rightarrow> bool" where
  other_exchange: "t \<noteq> 0 \<Longrightarrow> t \<notin> ls_due s \<Longrightarrow> exec (Exchange t n v) (ls_m s) = Some (Inr m) \<Longrightarrow>
    lstep s (s\<lparr>ls_m := m, ls_due := insert t (ls_due s)\<rparr>)"
| other_link: "t \<noteq> 0 \<Longrightarrow> exec (Link t) (ls_m s) = Some (Inr m) \<Longrightarrow> lstep s (s\<lparr>ls_m := m\<rparr>)"
| other_wakeup: "t \<in> ls_due s \<Longrightarrow> ms_prod (ls_m s) t = None \<Longrightarrow>
    lstep s (s\<lparr>ls_wake := Suc (ls_wake s), ls_due := ls_due s - {t}\<rparr>)"
| poll_returns: "ls_phase s = Polling \<Longrightarrow> lstep s (s\<lparr>ls_phase := Handling\<rparr>)"
| wakeup_read: "ls_phase s = Handling \<Longrightarrow> lstep s (s\<lparr>ls_wake := 0\<rparr>)"
| loop_exchange: "ls_phase s \<noteq> Polling \<Longrightarrow> exec (Exchange 0 n v) (ls_m s) = Some (Inr m) \<Longrightarrow> lstep s (s\<lparr>ls_m := m\<rparr>)"
| loop_link: "ls_phase s \<noteq> Polling \<Longrightarrow> exec (Link 0) (ls_m s) = Some (Inr m) \<Longrightarrow> lstep s (s\<lparr>ls_m := m\<rparr>)"
| handled: "ls_phase s = Handling \<Longrightarrow> ms_prod (ls_m s) 0 = None \<Longrightarrow> lstep s (s\<lparr>ls_phase := Running\<rparr>)"
| loop_load: "ls_phase s = Running \<Longrightarrow> exec Load (ls_m s) = Some (Inr m) \<Longrightarrow> lstep s (s\<lparr>ls_m := m\<rparr>)"
| loop_commit: "ls_phase s = Running \<Longrightarrow> exec Commit (ls_m s) = Some (Inr m) \<Longrightarrow> lstep s (s\<lparr>ls_m := m\<rparr>)"
| next_round: "ls_phase s = Running \<Longrightarrow> ms_prod (ls_m s) 0 = None \<Longrightarrow> ms_cons (ls_m s) = None \<Longrightarrow>
    queue_empty (ms_q (ls_m s)) = Inr True \<Longrightarrow> lstep s (s\<lparr>ls_phase := Polling\<rparr>)"

inductive lreach :: "'f lsys \<Rightarrow> bool" where
  start: "lreach lsys_init"
| step: "lreach s \<Longrightarrow> lstep s s' \<Longrightarrow> lreach s'"

definition linv :: "'f lsys \<Rightarrow> bool" where
  "linv s \<longleftrightarrow> minv (ls_m s) \<and> (\<forall>t. t \<noteq> 0 \<longrightarrow> ms_prod (ls_m s) t \<noteq> None \<longrightarrow> t \<in> ls_due s) \<and>
     (ls_phase s = Polling \<longrightarrow> ms_prod (ls_m s) 0 = None \<and> ms_cons (ls_m s) = None \<and>
        (ms_in (ls_m s) \<noteq> ms_out (ls_m s) \<longrightarrow> 0 < ls_wake s \<or> ls_due s \<noteq> {}))"

lemma linv_init: "linv lsys_init"
  by (simp add: linv_def lsys_init_def minv_init) (simp add: msys_init_def)

lemma linvD:
  assumes "linv s"
  shows "minv (ls_m s)" "t \<noteq> 0 \<Longrightarrow> ms_prod (ls_m s) t \<noteq> None \<Longrightarrow> t \<in> ls_due s"
    "ls_phase s = Polling \<Longrightarrow> ms_prod (ls_m s) 0 = None"
    "ls_phase s = Polling \<Longrightarrow> ms_cons (ls_m s) = None"
    "ls_phase s = Polling \<Longrightarrow> ms_in (ls_m s) \<noteq> ms_out (ls_m s) \<Longrightarrow> 0 < ls_wake s \<or> ls_due s \<noteq> {}"
  using assms unfolding linv_def by blast+

lemma linv_quiet:
  assumes "linv s" "minv m" "\<forall>t. t \<noteq> 0 \<longrightarrow> ms_prod m t \<noteq> None \<longrightarrow> t \<in> due" "ls_phase s \<noteq> Polling"
  shows "linv (s\<lparr>ls_m := m, ls_due := due\<rparr>)"
  using assms by (simp add: linv_def)

lemma linv_step: "lstep s s' \<Longrightarrow> linv s \<Longrightarrow> linv s'"
proof (induction rule: lstep.induct)
  case (other_exchange t s n v m)
  note inv = linvD [OF other_exchange.prems] and f = exec_fields(1) [OF other_exchange.hyps(3)]
  have "minv m" by (rule minv_next [OF inv(1) other_exchange.hyps(3)])
  moreover have "\<forall>u. u \<noteq> 0 \<longrightarrow> ms_prod m u \<noteq> None \<longrightarrow> u \<in> insert t (ls_due s)" using inv(2) f by (metis insertCI)
  ultimately show ?case using inv(3,4) f other_exchange.hyps(1) by (simp add: linv_def)
next
  case (other_link t s m)
  note inv = linvD [OF other_link.prems] and f = exec_fields(2) [OF other_link.hyps(2)]
  have "minv m" by (rule minv_next [OF inv(1) other_link.hyps(2)])
  moreover have "\<forall>u. u \<noteq> 0 \<longrightarrow> ms_prod m u \<noteq> None \<longrightarrow> u \<in> ls_due s" "ls_due s \<noteq> {}"
    using inv(2) f other_link.hyps(1) by (metis, blast)
  ultimately show ?case using inv(3,4) f other_link.hyps(1) by (simp add: linv_def)
next
  case (loop_exchange s n v m)
  note inv = linvD [OF loop_exchange.prems] and f = exec_fields(1) [OF loop_exchange.hyps(2)]
  have "\<forall>u. u \<noteq> 0 \<longrightarrow> ms_prod m u \<noteq> None \<longrightarrow> u \<in> ls_due s" using inv(2) f by metis
  from linv_quiet [OF loop_exchange.prems minv_next [OF inv(1) loop_exchange.hyps(2)] this loop_exchange.hyps(1)]
  show ?case by simp
next
  case (loop_link s m)
  note inv = linvD [OF loop_link.prems] and f = exec_fields(2) [OF loop_link.hyps(2)]
  have "\<forall>u. u \<noteq> 0 \<longrightarrow> ms_prod m u \<noteq> None \<longrightarrow> u \<in> ls_due s" using inv(2) f by metis
  from linv_quiet [OF loop_link.prems minv_next [OF inv(1) loop_link.hyps(2)] this loop_link.hyps(1)]
  show ?case by simp
next
  case (loop_load s m)
  note inv = linvD [OF loop_load.prems] and f = exec_fields(3) [OF loop_load.hyps(2)]
  have "\<forall>u. u \<noteq> 0 \<longrightarrow> ms_prod m u \<noteq> None \<longrightarrow> u \<in> ls_due s" using inv(2) f by metis
  from linv_quiet [OF loop_load.prems minv_next [OF inv(1) loop_load.hyps(2)] this] loop_load.hyps(1)
  show ?case by simp
next
  case (loop_commit s m)
  note inv = linvD [OF loop_commit.prems] and f = exec_fields(4) [OF loop_commit.hyps(2)]
  have "\<forall>u. u \<noteq> 0 \<longrightarrow> ms_prod m u \<noteq> None \<longrightarrow> u \<in> ls_due s" using inv(2) f by metis
  from linv_quiet [OF loop_commit.prems minv_next [OF inv(1) loop_commit.hyps(2)] this] loop_commit.hyps(1)
  show ?case by simp
next
  case (next_round s)
  note inv = linvD [OF next_round.prems]
  have "ls_due s \<noteq> {}" if "ms_in (ls_m s) \<noteq> ms_out (ls_m s)"
    using empty_pending [OF inv(1) next_round.hyps(4) that] inv(2) next_round.hyps(2) by (metis empty_iff)
  with next_round show ?case by (simp add: linv_def)
qed (auto simp: linv_def)

lemma due_others: "lreach s \<Longrightarrow> linv s \<and> 0 \<notin> ls_due s"
proof (induction rule: lreach.induct)
  case start
  show ?case using linv_init by (simp add: lsys_init_def)
next
  case (step s s')
  from step.hyps(2) step.IH have "0 \<notin> ls_due s'" by (cases rule: lstep.cases) auto
  with step linv_step show ?case by blast
qed

text \<open>
  C1: no wake-up is lost. In every reachable state of the loop and its client threads: when the loop
  blocks in \<^verbatim>\<open>poll\<close> although a function is waiting in its queue, then the event descriptor is
  readable, so that \<^verbatim>\<open>poll\<close> returns, or a thread that has queued a function is still on its way
  to write to it. Functions queued by the loop thread itself, which does not wake itself
  up, are always run before the next \<^verbatim>\<open>poll\<close>.
\<close>

theorem no_lost_wakeup:
  assumes "lreach s" "ls_phase s = Polling" "ms_in (ls_m s) \<noteq> ms_out (ls_m s)"
  shows "0 < ls_wake s \<or> (\<exists>t \<in> ls_due s. t \<noteq> 0)"
proof -
  from due_others [OF assms(1)] have "linv s" "0 \<notin> ls_due s" by simp_all
  with linvD(5) [OF this(1) assms(2,3)] show ?thesis by (metis ex_in_conv)
qed

text \<open>A thread has queued a function and not yet written to the descriptor.\<close>

definition example_lsys :: "nat lsys" where
  "example_lsys = lsys_init\<lparr>ls_m := (case run_events msys_init [Exchange 1 1 10, Link 1] of
     Some (Inr m) \<Rightarrow> m | _ \<Rightarrow> msys_init), ls_due := {1}\<rparr>"

lemma example_lreach: "lreach example_lsys"
proof -
  define m1 :: "nat msys" where "m1 = (case exec (Exchange 1 1 10) msys_init of Some (Inr m) \<Rightarrow> m)"
  define m2 where "m2 = (case exec (Link 1) m1 of Some (Inr m) \<Rightarrow> m)"
  let ?s1 = "lsys_init\<lparr>ls_m := m1, ls_due := insert 1 (ls_due (lsys_init :: nat lsys))\<rparr>"
  have m: "exec (Exchange 1 1 10) (ls_m lsys_init) = Some (Inr m1)" "exec (Link 1) m1 = Some (Inr m2)"
    by (simp_all add: m1_def m2_def lsys_init_def example_eval)
  have "lreach ?s1"
    by (rule lreach.step [OF lreach.start lstep.other_exchange [OF _ _ m(1)]]) (simp_all add: lsys_init_def)
  moreover have "lstep ?s1 (?s1\<lparr>ls_m := m2\<rparr>)" by (rule lstep.other_link [of 1]) (use m(2) in simp_all)
  ultimately have "lreach (?s1\<lparr>ls_m := m2\<rparr>)" by (rule lreach.step)
  then show ?thesis using m by (simp add: example_lsys_def lsys_init_def)
qed

theorem no_lost_wakeup_witness:
  "ms_in (ls_m example_lsys) \<noteq> ms_out (ls_m example_lsys) \<and>
   (0 < ls_wake example_lsys \<or> (\<exists>t \<in> ls_due example_lsys. t \<noteq> 0))"
  using no_lost_wakeup [OF example_lreach] by (simp add: example_lsys_def lsys_init_def example_eval)

section \<open>Threads and timers\<close>

text \<open>While the loop is not running, \<^verbatim>\<open>invalidateTimer\<close> does nothing: a timer added and invalidated before
  the start of the loop still runs.\<close>

lemma invalidate_before_loop_ignored: "\<not> isRunning s \<Longrightarrow> loop_invalidateTimer mk me i s = Inr s"
  by (simp add: loop_invalidateTimer_def)

text \<open>At most one loop per thread: the thread-local pointer of a loop's thread points to it.\<close>

definition tls_ok :: "nat \<Rightarrow> 'f eloop \<Rightarrow> (nat \<Rightarrow> nat option) \<Rightarrow> bool" where
  "tls_ok self s tls \<longleftrightarrow> el_slot s = el_threadId s \<and> (\<forall>t. tls t = Some self \<longleftrightarrow> t = el_threadId s)"

lemma EventLoop_new_tls:
  assumes "EventLoop_new self me fd tls = Inr (s, tls')" "\<forall>t. tls t \<noteq> Some self"
  shows "tls_ok self s tls' \<and> el_threadId s = me \<and> (\<forall>t. t \<noteq> me \<longrightarrow> tls' t = tls t)"
  using assms by (auto simp: EventLoop_new_def tls_ok_def split: if_splits)

lemma moveToCurrentThread_tls:
  assumes "tls_ok self s tls" "moveToCurrentThread self me s tls = Inr (s', tls')"
  shows "tls_ok self s' tls' \<and> el_threadId s' = me \<and>
    (\<forall>t l. l \<noteq> self \<longrightarrow> tls' t = Some l \<longleftrightarrow> tls t = Some l)"
proof -
  have "tls (el_threadId s) = Some self" using assms(1) by (simp add: tls_ok_def)
  with assms show ?thesis
    by (auto simp: moveToCurrentThread_def tls_ok_def isInLoopThread_def split: if_splits) (metis option.inject)
qed

end
