(* ===== verification/Numbers.thy ===== *)
theory Numbers
  imports Cooper_Prelude
begin

text \<open>
  Numbers as text, as the standard library reads and prints them: \<^verbatim>\<open>std::stoul\<close>, \<^verbatim>\<open>std::stol\<close>, \<^verbatim>\<open>std::to_string\<close> and the conversions
  \<^verbatim>\<open>%d\<close> and \<^verbatim>\<open>%0nd\<close> of \<^verbatim>\<open>printf\<close>. What is printed is read back.
\<close>

section \<open>Reading\<close>

text \<open>\<^verbatim>\<open>std::stoul\<close> in base ten: white space, a sign, digits; what follows is ignored.\<close>

definition is_space :: "char \<Rightarrow> bool" where
  "is_space c \<longleftrightarrow> c = CHR '' '' \<or> (let n = of_char c :: nat in 9 \<le> n \<and> n \<le> 13)"

definition is_digit :: "char \<Rightarrow> bool" where
  "is_digit c \<longleftrightarrow> (let n = of_char c :: nat in 48 \<le> n \<and> n \<le> 57)"

definition digits_value :: "string \<Rightarrow> nat" where
  "digits_value ds = foldl (\<lambda>v c. 10 * v + (of_char c - 48)) 0 ds"

definition stoul :: "string \<Rightarrow> nat result" where
  "stoul s =
     (let s = dropWhile is_space s;
          neg = (s \<noteq> [] \<and> hd s = CHR ''-'');
          s = (if s \<noteq> [] \<and> (hd s = CHR ''-'' \<or> hd s = CHR ''+'') then tl s else s);
          ds = takeWhile is_digit s; v = digits_value ds
      in if ds = [] then Inl InvalidArgument
         else if v > size_max then Inl OutOfRange
         else Inr (if neg then szsub 0 v else v))"

text \<open>\<^verbatim>\<open>std::stol\<close>; a \<^verbatim>\<open>long\<close> has 64 bits.\<close>

definition stol :: "string \<Rightarrow> int result" where
  "stol s =
     (let s = dropWhile is_space s;
          neg = (s \<noteq> [] \<and> hd s = CHR ''-'');
          s = (if s \<noteq> [] \<and> (hd s = CHR ''-'' \<or> hd s = CHR ''+'') then tl s else s);
          ds = takeWhile is_digit s; v = (if neg then - int (digits_value ds) else int (digits_value ds))
      in if ds = [] then Inl InvalidArgument
         else if v < - (2 ^ 63) \<or> 2 ^ 63 \<le> v then Inl OutOfRange
         else Inr v)"

section \<open>Printing\<close>

text \<open>\<^verbatim>\<open>std::to_string\<close>\<close>

fun to_string :: "nat \<Rightarrow> string" where
  "to_string n = (if n < 10 then [char_of (48 + n)] else to_string (n div 10) @ [char_of (48 + n mod 10)])"

declare to_string.simps [simp del]

definition to_string_int :: "int \<Rightarrow> string" where
  "to_string_int i = (if i < 0 then CHR ''-'' # to_string (nat (- i)) else to_string (nat i))"

text \<open>\<^verbatim>\<open>%0wd\<close> and \<^verbatim>\<open>%wd\<close>: at least \<open>w\<close> characters, filled from the left with zeros (after the sign) or with blanks.\<close>

definition print_zeros :: "nat \<Rightarrow> int \<Rightarrow> string" where
  "print_zeros w i =
     (if i < 0 then CHR ''-'' # replicate (w - 1 - length (to_string (nat (- i)))) (CHR ''0'') @ to_string (nat (- i))
      else replicate (w - length (to_string (nat i))) (CHR ''0'') @ to_string (nat i))"

definition print_blanks :: "nat \<Rightarrow> int \<Rightarrow> string" where
  "print_blanks w i = replicate (w - length (to_string_int i)) (CHR '' '') @ to_string_int i"

section \<open>Numbers survive printing\<close>

lemma of_char_digit: "d < 10 \<Longrightarrow> (of_char (char_of (48 + d) :: char) :: nat) = 48 + d"
  by simp

lemma to_string_digits: "ds = to_string n \<Longrightarrow> ds \<noteq> [] \<and> (\<forall>c \<in> set ds. is_digit c)"
proof (induction n arbitrary: ds rule: to_string.induct)
  case (1 n)
  have d: "is_digit (char_of (48 + n mod 10))" "n < 10 \<Longrightarrow> is_digit (char_of (48 + n))"
    by (simp_all add: is_digit_def)
  show ?case
  proof (cases "n < 10")
    case True
    with d show ?thesis by (simp add: 1(2) to_string.simps [of n])
  next
    case False
    from 1(1) [OF False refl] d show ?thesis by (auto simp: 1(2) to_string.simps [of n] False)
  qed
qed

lemma digits_value_to_string: "digits_value (to_string n) = n"
proof (induction n rule: to_string.induct)
  case (1 n)
  show ?case
  proof (cases "n < 10")
    case True
    then show ?thesis by (simp add: to_string.simps [of n] digits_value_def)
  next
    case False
    from 1 [OF False] show ?thesis by (simp add: to_string.simps [of n] False digits_value_def)
  qed
qed

lemma digit_not_space: "is_digit c \<Longrightarrow> \<not> is_space c"
  by (auto simp: is_digit_def is_space_def Let_def)

lemma digit_not_sign: "is_digit c \<Longrightarrow> c \<noteq> CHR ''-'' \<and> c \<noteq> CHR ''+''"
  by (auto simp: is_digit_def Let_def)

lemma stoul_to_string:
  assumes "n \<le> size_max"
  shows "stoul (to_string n) = Inr n"
proof -
  note ds = to_string_digits [OF refl, of n]
  then obtain c cs where c: "to_string n = c # cs" "is_digit c" by (cases "to_string n") auto
  have tw: "takeWhile is_digit cs = cs" using ds c(1) by (simp add: takeWhile_eq_all_conv)
  have "digits_value (c # cs) = n" using digits_value_to_string [of n] c(1) by simp
  then show ?thesis using c(2) digit_not_sign [OF c(2)] digit_not_space [OF c(2)] assms
    unfolding stoul_def c(1) by (simp add: Let_def tw)
qed

lemma stol_digits:
  assumes "ds \<noteq> []" "\<forall>c \<in> set ds. is_digit c" "digits_value ds < 2 ^ 63"
  shows "stol ds = Inr (int (digits_value ds))"
proof -
  from assms(1,2) obtain c cs where c: "ds = c # cs" "is_digit c" by (cases ds) auto
  have tw: "takeWhile is_digit cs = cs" using assms(2) c(1) by (simp add: takeWhile_eq_all_conv)
  show ?thesis
    using c digit_not_sign [OF c(2)] digit_not_space [OF c(2)] assms(3)
    unfolding stol_def by (simp add: Let_def tw)
qed

lemma digits_value_Cons: "digits_value (c # cs) = (of_char c - 48) * 10 ^ length cs + digits_value cs"
proof -
  have "foldl (\<lambda>v c. 10 * v + (of_char c - 48)) k cs = k * 10 ^ length cs + foldl (\<lambda>v c. 10 * v + (of_char c - 48)) 0 cs" for k :: nat
  proof (induction cs arbitrary: k)
    case (Cons x xs)
    show ?case
      using Cons [of "10 * k + (of_char x - 48)"] Cons [of "of_char x - 48"] by (simp add: algebra_simps)
  qed simp
  from this [of "of_char c - 48"] show ?thesis by (simp add: digits_value_def)
qed

lemma digits_value_append: "digits_value (xs @ ys) = digits_value xs * 10 ^ length ys + digits_value ys"
  by (induction xs) (simp_all add: digits_value_Cons digits_value_def [of "[]"] power_add algebra_simps)

lemma digits_value_zeros: "digits_value (replicate k (CHR ''0'') @ ds) = digits_value ds"
  by (induction k) (simp_all add: digits_value_Cons)

lemma to_string_length: "length (to_string n) \<le> k \<longleftrightarrow> n < 10 ^ k \<and> 0 < k"
proof (induction n arbitrary: k rule: to_string.induct)
  case (1 n)
  show ?case
  proof (cases "n < 10")
    case True
    have "n < 10 ^ k" if "0 < k" using True that self_le_power [of "10 :: nat" k] by simp
    then show ?thesis using True by (auto simp: to_string.simps [of n] Suc_le_eq)
  next
    case False
    have "n < 10 ^ Suc j \<longleftrightarrow> n div 10 < 10 ^ j" for j by (simp add: div_less_iff_less_mult mult.commute)
    moreover have "0 < n div 10" using False by (simp add: div_greater_zero_iff)
    ultimately show ?thesis using False 1 [OF False, of "k - 1"] by (cases k) (auto simp: to_string.simps [of n] False)
  qed
qed

lemma print_zeros_digits:
  assumes "0 \<le> i"
  shows "print_zeros w i \<noteq> []" "\<forall>c \<in> set (print_zeros w i). is_digit c" "int (digits_value (print_zeros w i)) = i"
proof -
  have z: "is_digit (CHR ''0'')" by (simp add: is_digit_def)
  note t = to_string_digits [OF refl, of "nat i"]
  show "print_zeros w i \<noteq> []" using assms t by (simp add: print_zeros_def)
  show "\<forall>c \<in> set (print_zeros w i). is_digit c" using assms t z by (auto simp: print_zeros_def)
  show "int (digits_value (print_zeros w i)) = i"
    using assms by (simp add: print_zeros_def digits_value_zeros digits_value_to_string)
qed

lemma length_print_zeros: "0 \<le> i \<Longrightarrow> i < 10 ^ w \<Longrightarrow> 0 < w \<Longrightarrow> length (print_zeros w i) = w"
  using to_string_length [of "nat i" w] by (simp add: print_zeros_def nat_less_iff)

lemma stol_print_zeros: "0 \<le> i \<Longrightarrow> i < 2 ^ 63 \<Longrightarrow> stol (print_zeros w i) = Inr i"
  using stol_digits [OF print_zeros_digits(1,2), of i w] print_zeros_digits(3) [of i w] by simp

end
