(* ===== verification/Http.thy ===== *)
theory Http
  imports MsgBuffer Utilities Numbers
begin

text \<open>
  HTTP requests (\<^verbatim>\<open>cooper/net/Http.*\<close>): the tables of methods and status codes, the header map with
  its hash and its comparison, the parser of request line, headers and body over a message
  buffer, and the parser of multipart bodies. \<^verbatim>\<open>std::hash<std::string>\<close> is a parameter \<open>H\<close>. A request
  that a client prints in the usual form is parsed back to the same method, path, headers and
  body; the bad inputs for which the parser throws or does not end are theorems as well.
\<close>

section \<open>Tables\<close>

definition methods :: "string set" where
  "methods = {''GET'', ''HEAD'', ''POST'', ''PUT'', ''DELETE'', ''CONNECT'', ''OPTIONS'', ''TRACE'', ''PATCH'', ''PRI''}"

definition status_table :: "(nat \<times> string) list" where
  "status_table =
    [(100, ''Continue''), (101, ''Switching''), (102, ''Processing''),
     (200, ''OK''), (201, ''Created''), (202, ''Accepted''), (203, ''Non-Authoritative Information''),
     (204, ''No Content''), (205, ''Reset Content''), (206, ''Partial Content''), (207, ''Multi-HttpStatus''),
     (226, ''IM Used''),
     (300, ''Multiple Choices''), (301, ''Moved Permanently''), (302, ''Moved Temporarily''), (303, ''See Other''),
     (304, ''Not Modified''), (305, ''Use Proxy''), (306, ''Reserved''), (307, ''Temporary Redirect''),
     (400, ''Bad Request''), (401, ''Unauthorized''), (402, ''Payment Required''), (403, ''Forbidden''),
     (404, ''Not Found''), (405, ''Method Not Allowed''), (406, ''Not Acceptable''),
     (407, ''Proxy Authentication Required''), (408, ''Request Timeout''), (409, ''Conflict''), (410, ''Gone''),
     (411, ''Length Required''), (412, ''Precondition Failed''), (413, ''Request Entity Too Large''),
     (414, ''Request-URI Too Large''), (415, ''Unsupported Media Type''), (416, ''Requested Range Not Satisfiable''),
     (417, ''Expectation Failed''), (418, ''I'' @ [CHR 0x27] @ ''m a Teapot''), (422, ''Unprocessable Entity''), (423, ''Locked''),
     (424, ''Failed Dependency''), (425, ''Unordered Collection''), (426, ''Upgrade Required''),
     (428, ''Precondition Required''), (429, ''Too Many Requests''), (431, ''Request HttpHeader Fields Too Large''),
     (434, ''Requested host unavailable''), (444, ''Close connection without sending headers''), (449, ''Retry With''),
     (451, ''Unavailable For Legal Reasons''),
     (500, ''Internal Server Error''), (501, ''Not Implemented''), (502, ''Bad Gateway''), (503, ''Service Unavailable''),
     (504, ''Gateway Timeout''), (505, ''HTTP Version Not Supported''), (506, ''Variant Also Negotiates''),
     (507, ''Insufficient Storage''), (508, ''Loop Detected''), (509, ''Bandwidth Limit Exceeded''),
     (510, ''Not Extended''), (511, ''Network Authentication Required'')]"

definition status_description :: "nat \<Rightarrow> string" where
  "status_description code = (case map_of status_table code of Some d \<Rightarrow> d | None \<Rightarrow> [])"

definition CONNECTION :: string where "CONNECTION = ''Connection''"
definition CONTENT_LENGTH :: string where "CONTENT_LENGTH = ''Content-Length''"
definition CONTENT_TYPE :: string where "CONTENT_TYPE = ''Content-Type''"
definition SERVER :: string where "SERVER = ''Server''"
definition SERVER_VALUE :: string where "SERVER_VALUE = ''cooper/1.0''"
definition CONNECTION_CLOSE :: string where "CONNECTION_CLOSE = ''close''"
definition CONNECTION_KEEP_ALIVE :: string where "CONNECTION_KEEP_ALIVE = ''keep-alive''"

section \<open>The header map\<close>

text \<open>\<^verbatim>\<open>std::lexicographical_compare\<close> with a comparison of characters.\<close>

fun lexicographical_compare :: "(char \<Rightarrow> char \<Rightarrow> bool) \<Rightarrow> string \<Rightarrow> string \<Rightarrow> bool" where
  "lexicographical_compare lt [] [] = False"
| "lexicographical_compare lt [] (y # ys) = True"
| "lexicographical_compare lt (x # xs) [] = False"
| "lexicographical_compare lt (x # xs) (y # ys) =
     (if lt x y then True else if lt y x then False else lexicographical_compare lt xs ys)"

definition ci :: "string \<Rightarrow> string \<Rightarrow> bool" where
  "ci s t = lexicographical_compare (\<lambda>a b. lower a = lower b) s t"

definition header_hash :: "(string \<Rightarrow> nat) \<Rightarrow> string \<Rightarrow> nat" where
  "header_hash H s = H (map lower s)"

type_synonym headers = "(string \<times> string) list"

text \<open>The nodes of the unordered map; a node matches a key if the hash values agree and the
  comparison holds. The order of iteration is not specified; here it is the order of insertion.\<close>

definition header_match :: "(string \<Rightarrow> nat) \<Rightarrow> string \<Rightarrow> string \<times> string \<Rightarrow> bool" where
  "header_match H k n \<longleftrightarrow> header_hash H k = header_hash H (fst n) \<and> ci k (fst n)"

definition find_header :: "(string \<Rightarrow> nat) \<Rightarrow> string \<Rightarrow> headers \<Rightarrow> string option" where
  "find_header H k hs = map_option snd (List.find (header_match H k) hs)"

fun set_header :: "(string \<Rightarrow> nat) \<Rightarrow> string \<Rightarrow> string \<Rightarrow> headers \<Rightarrow> headers" where
  "set_header H k v [] = [(k, v)]"
| "set_header H k v (n # hs) = (if header_match H k n then (fst n, v) # hs else n # set_header H k v hs)"

definition index_header :: "(string \<Rightarrow> nat) \<Rightarrow> string \<Rightarrow> headers \<Rightarrow> string \<times> headers" where
  "index_header H k hs = (case find_header H k hs of Some v \<Rightarrow> (v, hs) | None \<Rightarrow> ([], set_header H k [] hs))"

section \<open>Requests\<close>

record multipart =
  mp_dashBoundaryCrlf :: string
  mp_crlfDashBoundary :: string
  mp_state :: nat
  mp_name :: string
  mp_filename :: string
  mp_contentType :: string

record request =
  rq_method :: string
  rq_path :: string
  rq_version :: string
  rq_headers :: headers
  rq_body :: string
  rq_buffer :: msgbuf
  rq_parser :: multipart

definition new_request :: "msgbuf \<Rightarrow> request" where
  "new_request b = \<lparr>rq_method = [], rq_path = [], rq_version = [], rq_headers = [], rq_body = [], rq_buffer = b,
     rq_parser = \<lparr>mp_dashBoundaryCrlf = [], mp_crlfDashBoundary = [], mp_state = 0, mp_name = [], mp_filename = [],
       mp_contentType = []\<rparr>\<rparr>"

text \<open>Take a line up to CRLF out of the buffer.\<close>

definition take_line :: "msgbuf \<Rightarrow> (string \<times> msgbuf) option result" where
  "take_line b =
     bindR (findCRLF b) (\<lambda>ret.
       case ret of
         None \<Rightarrow> Inr None
       | Some e \<Rightarrow> bindR (readUntil b e) (\<lambda>(line, b1). bindR (retrieve b1 2) (\<lambda>b2. Inr (Some (line, b2)))))"

definition parseRequestStartingLine :: "request \<Rightarrow> (bool \<times> request) result" where
  "parseRequestStartingLine r =
     bindR (take_line (rq_buffer r)) (\<lambda>ret.
       case ret of
         None \<Rightarrow> Inr (False, r)
       | Some (line, b) \<Rightarrow>
           (let ps = split line CHR '' '';
                r = r\<lparr>rq_buffer := b, rq_method := (if length ps > 0 then ps ! 0 else rq_method r),
                      rq_path := (if length ps > 1 then ps ! 1 else rq_path r),
                      rq_version := (if length ps > 2 then ps ! 2 else rq_version r)\<rparr>
            in Inr (length ps = 3 \<and> rq_method r \<in> methods \<and>
                    (rq_version r = ''HTTP/1.1'' \<or> rq_version r = ''HTTP/1.0''), r)))"

text \<open>One header line: \<open>None\<close> when there is no colon, \<open>Some None\<close> when the value is empty.\<close>

definition parse_header_line :: "string \<Rightarrow> (string \<times> string) option option" where
  "parse_header_line line =
     (let l = rev (dropWhile isSpaceOrTab (rev line)); rest = dropWhile (\<lambda>c. c \<noteq> CHR '':'') l in
      if rest = [] then None
      else (let v = dropWhile isSpaceOrTab (tl rest)
            in if v \<noteq> [] then Some (Some (takeWhile (\<lambda>c. c \<noteq> CHR '':'') l, v)) else Some None))"

text \<open>The loop of \<^verbatim>\<open>parseHeaders\<close>; every round takes a line of at least two bytes out of the buffer, so
  that as many rounds as there are readable bytes are enough.\<close>

fun headers_loop :: "(string \<Rightarrow> nat) \<Rightarrow> nat \<Rightarrow> request \<Rightarrow> (bool \<times> request) result" where
  "headers_loop H 0 r = Inl Diverges"
| "headers_loop H (Suc fuel) r =
     bindR (take_line (rq_buffer r)) (\<lambda>ret.
       case ret of
         None \<Rightarrow> Inr (False, r)
       | Some (line, b) \<Rightarrow>
           (let r = r\<lparr>rq_buffer := b\<rparr> in
            if line = [] then Inr (True, r)
            else case parse_header_line line of
                   None \<Rightarrow> Inr (False, r)
                 | Some None \<Rightarrow> headers_loop H fuel r
                 | Some (Some (k, v)) \<Rightarrow>
                     headers_loop H fuel (r\<lparr>rq_headers := set_header H k v (rq_headers r)\<rparr>)))"

definition parseHeaders :: "(string \<Rightarrow> nat) \<Rightarrow> request \<Rightarrow> (bool \<times> request) result" where
  "parseHeaders H r = headers_loop H (Suc (readableBytes (rq_buffer r))) r"

definition getHeaderValue :: "(string \<Rightarrow> nat) \<Rightarrow> string \<Rightarrow> request \<Rightarrow> string" where
  "getHeaderValue H k r = (case find_header H k (rq_headers r) of None \<Rightarrow> [] | Some v \<Rightarrow> v)"

definition isMultipartFormData :: "(string \<Rightarrow> nat) \<Rightarrow> request \<Rightarrow> bool" where
  "isMultipartFormData H r =
     (case find_header H CONTENT_TYPE (rq_headers r) of
        None \<Rightarrow> False
      | Some v \<Rightarrow> take 19 v = ''multipart/form-data'')"

definition parseMultipartBoundary :: "string \<Rightarrow> bool \<times> string" where
  "parseMultipartBoundary contentType =
     (case find_str ''boundary='' contentType of
        None \<Rightarrow> (False, [])
      | Some pos \<Rightarrow>
          (let rest = drop (pos + 9) contentType;
               v = (case find_char CHR '';'' (drop pos contentType) of
                      None \<Rightarrow> rest
                    | Some e \<Rightarrow> take (pos + e - (pos + 9)) rest);
               boundary = trimDoubleQuotesCopy v
           in (boundary \<noteq> [], boundary)))"

definition setBoundary :: "string \<Rightarrow> multipart \<Rightarrow> multipart" where
  "setBoundary boundary p =
     p\<lparr>mp_dashBoundaryCrlf := ''--'' @ boundary @ CRLF, mp_crlfDashBoundary := CRLF @ ''--'' @ boundary\<rparr>"

definition parseBody :: "(string \<Rightarrow> nat) \<Rightarrow> request \<Rightarrow> (bool \<times> request) result" where
  "parseBody H r =
     (if isMultipartFormData H r
      then (let (contentType, hs) = index_header H CONTENT_TYPE (rq_headers r);
                (ok, boundary) = parseMultipartBoundary contentType
            in if \<not> ok then Inr (False, r\<lparr>rq_headers := hs\<rparr>)
               else Inr (True, r\<lparr>rq_headers := hs, rq_parser := setBoundary boundary (rq_parser r)\<rparr>))
      else (let (contentLength, hs) = index_header H CONTENT_LENGTH (rq_headers r);
                r = r\<lparr>rq_headers := hs\<rparr>; b = rq_buffer r
            in if contentLength = []
               then bindR (peek_bytes b (readableBytes b)) (\<lambda>body.
                      bindR (retrieveAll b) (\<lambda>b'. Inr (True, r\<lparr>rq_body := body, rq_buffer := b'\<rparr>)))
               else bindR (stoul contentLength) (\<lambda>len.
                      if len > readableBytes b then Inr (False, r)
                      else bindR (read_bytes b len) (\<lambda>(body, b'). Inr (True, r\<lparr>rq_body := body, rq_buffer := b'\<rparr>)))))"

text \<open>The three parsing steps as \<^verbatim>\<open>HttpServer::recvMsgCallback\<close> calls them.\<close>

definition parse_request :: "(string \<Rightarrow> nat) \<Rightarrow> request \<Rightarrow> (bool \<times> request) result" where
  "parse_request H r =
     bindR (parseRequestStartingLine r) (\<lambda>(ok, r). if \<not> ok then Inr (False, r) else
     bindR (parseHeaders H r) (\<lambda>(ok, r). if \<not> ok then Inr (False, r) else parseBody H r))"

section \<open>Multipart bodies\<close>

definition startWithCaseIgnore :: "string \<Rightarrow> string \<Rightarrow> bool" where
  "startWithCaseIgnore a b \<longleftrightarrow> length b \<le> length a \<and> map lower (take (length b) a) = map lower b"

text \<open>The match of the regular expression \<^verbatim>\<open>^Content-Disposition:\s*form-data;\s*(.*)$\<close>, ignoring case; the
  result is the group.\<close>

definition match_disposition :: "string \<Rightarrow> string option" where
  "match_disposition s =
     (if startWithCaseIgnore s ''Content-Disposition:''
      then (let s = dropWhile is_space (drop (length ''Content-Disposition:'') s)
            in if startWithCaseIgnore s ''form-data;''
               then (let g = dropWhile is_space (drop (length ''form-data;'') s)
                     in if CHR 0x0A \<in> set g \<or> CHR 0x0D \<in> set g then None else Some g)
               else None)
      else None)"

definition clearFileInfo :: "multipart \<Rightarrow> multipart" where
  "clearFileInfo p = p\<lparr>mp_name := [], mp_filename := [], mp_contentType := []\<rparr>"

text \<open>What the parser hands to the callback of a part: its name and file name, then pieces of its content.\<close>

datatype mp_event = MpFile string string string | MpContent string string

definition mp_emit :: "(string \<Rightarrow> bool) \<Rightarrow> multipart \<Rightarrow> mp_event \<Rightarrow> mp_event list" where
  "mp_emit hasCallback p e = (if hasCallback (mp_name p) then [e] else [])"

text \<open>One header of a part; \<open>None\<close> is the return of \<^verbatim>\<open>false\<close>.\<close>

definition mp_header :: "string \<Rightarrow> multipart \<Rightarrow> multipart option" where
  "mp_header header p =
     (if startWithCaseIgnore header ''content-type:''
      then Some (p\<lparr>mp_contentType := trimCopy (drop (length ''content-type:'') header)\<rparr>)
      else case match_disposition header of
             None \<Rightarrow> None
           | Some g \<Rightarrow>
               (let params = parseDispositionParams g in
                case map_of params ''name'' of
                  None \<Rightarrow> None
                | Some n \<Rightarrow>
                    (let p = p\<lparr>mp_name := n\<rparr> in
                     case map_of params ''filename'' of
                       None \<Rightarrow> Some p
                     | Some f \<Rightarrow> Some (p\<lparr>mp_filename := f\<rparr>))))"

text \<open>The inner loop of state 2, on the position \<^verbatim>\<open>crlf\<close>; the flag tells that all went well so far.\<close>

fun mp_headers :: "nat \<Rightarrow> nat option \<Rightarrow> multipart \<Rightarrow> msgbuf \<Rightarrow> (bool \<times> multipart \<times> msgbuf) result" where
  "mp_headers 0 crlf p b = Inl Diverges"
| "mp_headers (Suc fuel) None p b = Inr (True, p, b)"
| "mp_headers (Suc fuel) (Some crlf) p b =
     (if crlf = peek b
      then bindR (retrieve b 2) (\<lambda>b. Inr (True, p\<lparr>mp_state := 3\<rparr>, b))
      else bindR (peek_bytes b (crlf - peek b)) (\<lambda>header.
           case mp_header header p of
             None \<Rightarrow> Inr (False, p, b)
           | Some p \<Rightarrow>
               bindR (retrieve b (crlf - peek b + 2)) (\<lambda>b.
               bindR (find_bytes b CRLF) (\<lambda>crlf. mp_headers fuel crlf p b))))"

text \<open>The outcome of one round of the outer loop: return, or another round with or without reading.\<close>

datatype mp_next = MpReturn bool | MpAgain bool

definition mp_state0 :: "multipart \<Rightarrow> msgbuf \<Rightarrow> (mp_next \<times> multipart \<times> msgbuf) result" where
  "mp_state0 p b =
     (if readableBytes b < length (mp_dashBoundaryCrlf p) then Inr (MpAgain False, p, b)
      else bindR (find_bytes b (mp_dashBoundaryCrlf p)) (\<lambda>pos.
           case pos of
             None \<Rightarrow> Inr (MpReturn False, p, b)
           | Some e \<Rightarrow> bindR (retrieveUntil b (e + length (mp_dashBoundaryCrlf p))) (\<lambda>b.
               Inr (MpAgain False, p\<lparr>mp_state := 1\<rparr>, b))))"

definition mp_state2 ::
    "(string \<Rightarrow> bool) \<Rightarrow> multipart \<Rightarrow> msgbuf \<Rightarrow> (mp_next \<times> multipart \<times> msgbuf \<times> mp_event list) result" where
  "mp_state2 hasCallback p b =
     (if readableBytes b < 2 then Inr (MpAgain True, p, b, [])
      else bindR (find_bytes b CRLF) (\<lambda>crlf.
           bindR (mp_headers (Suc (readableBytes b)) crlf p b) (\<lambda>(ok, p, b).
           if \<not> ok \<or> mp_state p \<noteq> 3 then Inr (MpReturn False, p, b, [])
           else Inr (MpAgain False, p, b, mp_emit hasCallback p (MpFile (mp_name p) (mp_filename p) (mp_contentType p))))))"

definition mp_state3 ::
    "(string \<Rightarrow> bool) \<Rightarrow> multipart \<Rightarrow> msgbuf \<Rightarrow> (mp_next \<times> multipart \<times> msgbuf \<times> mp_event list) result" where
  "mp_state3 hasCallback p b =
     (let d = mp_crlfDashBoundary p in
      if readableBytes b < length d then Inr (MpAgain True, p, b, [])
      else bindR (find_bytes b d) (\<lambda>pos.
           case pos of
             Some e \<Rightarrow>
               bindR (peek_bytes b (e - peek b)) (\<lambda>c.
               bindR (retrieve b (e - peek b + length d)) (\<lambda>b'.
               Inr (MpAgain False, p\<lparr>mp_state := 4\<rparr>, b', mp_emit hasCallback p (MpContent (mp_name p) c))))
           | None \<Rightarrow>
               (let len = readableBytes b - length d in
                if len > 0
                then bindR (peek_bytes b len) (\<lambda>c. bindR (retrieve b len) (\<lambda>b'.
                       Inr (MpAgain True, p, b', mp_emit hasCallback p (MpContent (mp_name p) c))))
                else Inr (MpAgain True, p, b, []))))"

definition mp_state4 :: "multipart \<Rightarrow> msgbuf \<Rightarrow> (mp_next \<times> multipart \<times> msgbuf) result" where
  "mp_state4 p b =
     (if readableBytes b < 2 then Inr (MpAgain True, p, b)
      else bindR (find_bytes b CRLF) (\<lambda>crlf.
           if crlf = Some (peek b)
           then bindR (retrieve b 2) (\<lambda>b. Inr (MpAgain False, p\<lparr>mp_state := 1\<rparr>, b))
           else bindR (find_bytes b ''--'') (\<lambda>dash.
                if dash = Some (peek b) then bindR (retrieveAll b) (\<lambda>b. Inr (MpReturn True, p, b))
                else Inr (MpReturn False, p, b))))"

definition mp_round ::
    "(string \<Rightarrow> bool) \<Rightarrow> multipart \<Rightarrow> msgbuf \<Rightarrow> (mp_next \<times> multipart \<times> msgbuf \<times> mp_event list) result" where
  "mp_round hasCallback p b =
     (let quiet = (\<lambda>(n, p, b). Inr (n, p, b, [])) in
      if mp_state p = 0 then bindR (mp_state0 p b) quiet
      else if mp_state p = 1 then Inr (MpAgain False, (clearFileInfo p)\<lparr>mp_state := 2\<rparr>, b, [])
      else if mp_state p = 2 then mp_state2 hasCallback p b
      else if mp_state p = 3 then mp_state3 hasCallback p b
      else if mp_state p = 4 then bindR (mp_state4 p b) quiet
      else Inr (MpAgain False, p, b, []))"

text \<open>
  The outer loop. \<open>reads\<close> are the answers of the socket; when they are used up the socket has
  nothing more and answers \<^verbatim>\<open>EAGAIN\<close>. \<open>needMore\<close> is \<^verbatim>\<open>needToReadMore\<close>, which a round only ever sets and a
  successful read clears. Running out of fuel is \<^const>\<open>Diverges\<close>.
\<close>

abbreviation EAGAIN :: int where "EAGAIN \<equiv> 11"
abbreviation EPIPE :: int where "EPIPE \<equiv> 32"
abbreviation ECONNRESET :: int where "ECONNRESET \<equiv> 104"

definition next_read :: "sys_read list \<Rightarrow> sys_read \<times> sys_read list" where
  "next_read reads = (case reads of [] \<Rightarrow> (ReadErr EAGAIN, []) | r # rs \<Rightarrow> (r, rs))"

text \<open>The lambda \<^verbatim>\<open>readMore\<close>: its return value, \<^verbatim>\<open>needToReadMore\<close> afterwards, and the buffer.\<close>

definition readMore :: "sys_read \<Rightarrow> msgbuf \<Rightarrow> (int \<times> bool \<times> msgbuf) result" where
  "readMore r b =
     bindR (readFd b r) (\<lambda>(n, err, b).
       if n < 0 \<and> err = Some EAGAIN then Inr (2, True, b)
       else if n < 0 \<and> (err = Some EPIPE \<or> err = Some ECONNRESET) then Inr (-1, True, b)
       else Inr (1, False, b))"

fun mp_run :: "nat \<Rightarrow> (string \<Rightarrow> bool) \<Rightarrow> sys_read list \<Rightarrow> bool \<Rightarrow> multipart \<Rightarrow> msgbuf \<Rightarrow> mp_event list \<Rightarrow>
    (bool \<times> multipart \<times> msgbuf \<times> mp_event list) result" where
  "mp_run 0 hasCallback reads needMore p b out = Inl Diverges"
| "mp_run (Suc fuel) hasCallback reads needMore p b out =
     (let (r, reads') = next_read reads in
      bindR (if needMore then readMore r b else Inr (1, False, b)) (\<lambda>(ret, needMore', b).
        let reads'' = (if needMore then reads' else reads) in
        if ret = -1 then Inr (False, p, b, out)
        else if ret = 2 then mp_run fuel hasCallback reads'' needMore' p b out
        else bindR (mp_round hasCallback p b) (\<lambda>(n, p, b, evs).
             case n of
               MpReturn v \<Rightarrow> Inr (v, p, b, out @ evs)
             | MpAgain m \<Rightarrow> mp_run fuel hasCallback reads'' (needMore' \<or> m) p b (out @ evs))))"

section \<open>The header map is case insensitive\<close>

lemma ci_nonempty: "s \<noteq> [] \<Longrightarrow> t \<noteq> [] \<Longrightarrow> lower (hd s) = lower (hd t) \<Longrightarrow> ci s t"
  by (cases s; cases t) (simp_all add: ci_def)

lemma ci_same_lower:
  assumes "map lower s = map lower t"
  shows "ci s t \<longleftrightarrow> s \<noteq> []"
proof (cases s)
  case Nil
  with assms show ?thesis by (simp add: ci_def)
next
  case (Cons a s')
  with assms obtain b t' where "t = b # t'" "lower a = lower b" by (cases t) auto
  with Cons show ?thesis by (simp add: ci_def)
qed

text \<open>No two of the given keys collide: equal hash values mean equal names up to case.\<close>

definition collision_free :: "(string \<Rightarrow> nat) \<Rightarrow> string set \<Rightarrow> bool" where
  "collision_free H K \<longleftrightarrow> (\<forall>a \<in> K. \<forall>b \<in> K. header_hash H a = header_hash H b \<longrightarrow> map lower a = map lower b)"

lemma header_match_iff:
  assumes "collision_free H K" "k \<in> K" "fst n \<in> K" "k \<noteq> []"
  shows "header_match H k n \<longleftrightarrow> map lower k = map lower (fst n)"
  using assms ci_same_lower [of k "fst n"] unfolding collision_free_def header_match_def
  by (auto simp: header_hash_def)

lemma find_header_Cons:
  "find_header H k (n # hs) = (if header_match H k n then Some (snd n) else find_header H k hs)"
  by (simp add: find_header_def)

lemma find_header_Nil [simp]: "find_header H k [] = None"
  by (simp add: find_header_def)

text \<open>
  the header map looks names up without regard to case. The comparison it uses is not an
  equality (it holds for any two names with the same first letter), but together with the
  hash of the lower-case name it decides correctly as long as the hash does not collide on
  the names in use: a value stored under a name is found under every spelling of it and
  under no other name.
\<close>

theorem header_map_case_insensitive:
  assumes "collision_free H K" "k \<in> K" "k' \<in> K" "fst ` set hs \<subseteq> K" "k \<noteq> []" "k' \<noteq> []"
  shows "find_header H k' (set_header H k v hs) =
    (if map lower k' = map lower k then Some v else find_header H k' hs)"
  using assms(4)
proof (induction hs)
  case Nil
  show ?case using header_match_iff [OF assms(1,3) _ assms(6), of "(k, v)"] assms(2)
    by (simp add: find_header_Cons)
next
  case (Cons n hs)
  then have n: "fst n \<in> K" by auto
  note m = header_match_iff [OF assms(1,2) n assms(5)] header_match_iff [OF assms(1,3) n assms(6)]
  have "header_match H k' (fst n, v) = header_match H k' n" by (simp add: header_match_def)
  with Cons m show ?case by (auto simp: find_header_Cons)
qed

lemma example_collision_free: "collision_free length {''Content-Type'', ''content-type'', ''Connection''}"
  by code_simp

lemma example_lower: "map lower ''content-type'' = map lower ''Content-Type''"
  by code_simp

theorem header_map_case_insensitive_witness:
  "find_header length ''content-type'' (set_header length ''Content-Type'' ''text/html'' [(''Connection'', ''close'')])
     = Some ''text/html''"
  by (subst header_map_case_insensitive [OF example_collision_free]) (simp_all only: example_lower, simp_all)

section \<open>Taking lines\<close>

lemma search_CRLF:
  assumes "CHR 0x0A \<notin> set l"
  shows "search CRLF (l @ CRLF @ r) = Some (length l)"
proof (rule search_append_found)
  show "\<forall>j<length l. take (length CRLF) (drop j (l @ CRLF @ r)) \<noteq> CRLF"
  proof (intro allI impI notI)
    fix j assume j: "j < length l" and "take (length CRLF) (drop j (l @ CRLF @ r)) = CRLF"
    then have "(drop j (l @ CRLF @ r)) ! 1 = CHR 0x0A"
      by (metis CRLF_def One_nat_def length_Cons lessI list.size(3) nth_Cons_0 nth_Cons_Suc nth_take)
    moreover have "drop j (l @ CRLF @ r) ! 1 = (l @ CRLF @ r) ! Suc j" using j by (subst nth_drop) simp_all
    ultimately have "(l @ CRLF @ r) ! Suc j = CHR 0x0A" by simp
    moreover have "(l @ CRLF @ r) ! Suc j \<in> insert (CHR 0x0D) (set l)"
      using j by (cases "Suc j < length l") (auto simp: nth_append CRLF_def)
    ultimately show False using assms by auto
  qed
qed (simp add: CRLF_def)

lemma take_line_ok:
  assumes "wf_buf b" "contents b = l @ CRLF @ r" "CHR 0x0A \<notin> set l"
  obtains b' where "take_line b = Inr (Some (l, b'))" "wf_buf b'" "contents b' = r"
proof -
  have f: "findCRLF b = Inr (Some (peek b + length l))"
    using find_bytes_wf [OF assms(1), of CRLF] search_CRLF [OF assms(3), of r] assms(2)
    by (simp add: findCRLF_def CRLF_def)
  obtain b1 where 1: "readUntil b (peek b + length l) = Inr (take (length l) (contents b), b1)" "wf_buf b1"
    "contents b1 = drop (length l) (contents b)"
    by (rule readUntil_ok [OF assms(1), of "length l"]) (use assms(2) in auto)
  obtain b2 where "retrieve b1 2 = Inr b2" "wf_buf b2" "contents b2 = drop 2 (contents b1)"
    by (rule retrieve_ok [OF 1(2), of 2])
  then show thesis
    by (intro that [of b2]) (use f 1 assms(2) in \<open>simp_all add: take_line_def CRLF_def\<close>)
qed

section \<open>Requests as a client prints them\<close>

definition print_header :: "string \<times> string \<Rightarrow> string" where
  "print_header h = fst h @ '': '' @ snd h @ CRLF"

definition print_head :: "string \<Rightarrow> string \<Rightarrow> string \<Rightarrow> headers \<Rightarrow> string" where
  "print_head m p v hs = m @ '' '' @ p @ '' '' @ v @ CRLF @ concat (map print_header hs) @ CRLF"

text \<open>A path without blanks and line ends; header names without colons and line ends, values that
  are not empty and neither begin nor end with a blank; different names have different hashes.\<close>

definition plain_path :: "string \<Rightarrow> bool" where
  "plain_path p \<longleftrightarrow> p \<noteq> [] \<and> (\<forall>c \<in> set p. \<not> isSpaceOrTab c \<and> c \<noteq> CHR 0x0A)"

definition plain_header :: "string \<times> string \<Rightarrow> bool" where
  "plain_header h \<longleftrightarrow> fst h \<noteq> [] \<and> snd h \<noteq> [] \<and> (\<forall>c \<in> set (fst h). c \<noteq> CHR '':'' \<and> c \<noteq> CHR 0x0A) \<and>
     CHR 0x0A \<notin> set (snd h) \<and> \<not> isSpaceOrTab (hd (snd h)) \<and> \<not> isSpaceOrTab (last (snd h))"

definition plain_request :: "(string \<Rightarrow> nat) \<Rightarrow> string \<Rightarrow> string \<Rightarrow> string \<Rightarrow> headers \<Rightarrow> bool" where
  "plain_request H m p v hs \<longleftrightarrow> m \<in> methods \<and> plain_path p \<and> v \<in> {''HTTP/1.1'', ''HTTP/1.0''} \<and>
     (\<forall>h \<in> set hs. plain_header h) \<and> distinct (map (header_hash H \<circ> fst) hs)"

lemma parse_header_line_print:
  assumes "plain_header (k, v)"
  shows "parse_header_line (k @ '': '' @ v) = Some (Some (k, v))"
proof -
  have v: "v \<noteq> []" "\<not> isSpaceOrTab (hd v)" "\<not> isSpaceOrTab (last v)" and k: "\<forall>c \<in> set k. c \<noteq> CHR '':''"
    using assms by (simp_all add: plain_header_def)
  obtain v' x where "v = v' @ [x]" using v(1) by (cases v rule: rev_cases) auto
  then have "dropWhile isSpaceOrTab (rev (k @ '': '' @ v)) = rev (k @ '': '' @ v)" using v(3) by simp
  then have l: "rev (dropWhile isSpaceOrTab (rev (k @ '': '' @ v))) = k @ '': '' @ v" by simp
  have tw: "takeWhile (\<lambda>c. c \<noteq> CHR '':'') (k @ '': '' @ v) = k"
    "dropWhile (\<lambda>c. c \<noteq> CHR '':'') (k @ '': '' @ v) = '': '' @ v"
    using k by (simp_all add: takeWhile_append2 dropWhile_append2)
  have "dropWhile isSpaceOrTab ('' '' @ v) = v"
    using v(1,2) by (cases v) (auto simp: isSpaceOrTab_def)
  with l tw v(1) show ?thesis unfolding parse_header_line_def by (simp add: Let_def)
qed

lemma set_header_new:
  assumes "\<forall>n \<in> set hs. header_hash H (fst n) \<noteq> header_hash H k"
  shows "set_header H k v hs = hs @ [(k, v)]"
  using assms by (induction hs) (auto simp: header_match_def)

lemma headers_loop_ok:
  assumes "wf_buf (rq_buffer r)" "contents (rq_buffer r) = concat (map print_header hs) @ CRLF @ data"
    "\<forall>h \<in> set hs. plain_header h" "distinct (map (header_hash H \<circ> fst) (rq_headers r @ hs))" "length hs < fuel"
  shows "\<exists>b'. headers_loop H fuel r = Inr (True, r\<lparr>rq_headers := rq_headers r @ hs, rq_buffer := b'\<rparr>) \<and>
    wf_buf b' \<and> contents b' = data"
  using assms
proof (induction hs arbitrary: r fuel)
  case Nil
  then obtain f where f: "fuel = Suc f" by (cases fuel) auto
  obtain b' where "take_line (rq_buffer r) = Inr (Some ([], b'))" "wf_buf b'" "contents b' = data"
    by (rule take_line_ok [OF Nil.prems(1), of "[]" data]) (use Nil.prems(2) in auto)
  then show ?case by (intro exI [of _ b']) (simp add: f Let_def)
next
  case (Cons h hs)
  then obtain f where f: "fuel = Suc f" by (cases fuel) auto
  obtain k v where h: "h = (k, v)" by fastforce
  have ph: "plain_header (k, v)" using Cons.prems(3) h by simp
  let ?line = "k @ '': '' @ v"
  have lc: "contents (rq_buffer r) = ?line @ CRLF @ concat (map print_header hs) @ CRLF @ data"
    using Cons.prems(2) by (simp add: h print_header_def [of "(k, v)"])
  have lf: "CHR 0x0A \<notin> set ?line" using ph unfolding plain_header_def by auto
  obtain b' where b: "take_line (rq_buffer r) = Inr (Some (?line, b'))" "wf_buf b'"
    "contents b' = concat (map print_header hs) @ CRLF @ data"
    by (rule take_line_ok [OF Cons.prems(1) lc lf])
  let ?r = "r\<lparr>rq_buffer := b', rq_headers := rq_headers r @ [(k, v)]\<rparr>"
  have "header_hash H k \<notin> set (map (header_hash H \<circ> fst) (rq_headers r))"
    using Cons.prems(4) h by auto
  then have "set_header H k v (rq_headers r) = rq_headers r @ [(k, v)]"
    by (intro set_header_new) (auto simp: image_iff)
  then have "headers_loop H fuel r = headers_loop H f ?r"
    using b(1) parse_header_line_print [OF ph] ph by (simp add: f plain_header_def Let_def)
  moreover obtain b'' where "headers_loop H f ?r = Inr (True, ?r\<lparr>rq_headers := rq_headers ?r @ hs, rq_buffer := b''\<rparr>)"
    "wf_buf b''" "contents b'' = data"
    using Cons.IH [of ?r f] b(2,3) Cons.prems f h by auto
  ultimately show ?case by (auto simp: h)
qed

lemma strip_plain: "\<forall>c \<in> set s. \<not> isSpaceOrTab c \<Longrightarrow> strip s = s"
proof -
  have dw: "dropWhile isSpaceOrTab t = t" if "\<forall>c \<in> set t. \<not> isSpaceOrTab c" for t
    using that by (cases t) auto
  assume "\<forall>c \<in> set s. \<not> isSpaceOrTab c"
  then show ?thesis by (simp add: strip_def dw)
qed

lemma split_words:
  assumes "\<forall>c \<in> set (m @ p @ v). \<not> isSpaceOrTab c" "m \<noteq> []" "p \<noteq> []" "v \<noteq> []"
  shows "split (m @ '' '' @ p @ '' '' @ v) CHR '' '' = [m, p, v]"
proof -
  have nb: "CHR '' '' \<notin> set m" "CHR '' '' \<notin> set p" "CHR '' '' \<notin> set v" using assms(1) by (auto simp: isSpaceOrTab_def)
  have "split_on CHR '' '' (m @ '' '' @ p @ '' '' @ v) = [m, p, v]"
    using split_on_append [OF nb(1), of "p @ '' '' @ v"] split_on_append [OF nb(2), of v] split_on_single [OF nb(3)] by simp
  moreover have "strip m = m" "strip p = p" "strip v = v" using assms(1) by (auto intro!: strip_plain)
  ultimately show ?thesis using assms(2-4) by (simp add: split_eq)
qed

lemma methods_plain: "m \<in> methods \<Longrightarrow> m \<noteq> [] \<and> (\<forall>c \<in> set m. \<not> isSpaceOrTab c \<and> c \<noteq> CHR 0x0A)"
  by (auto simp: methods_def isSpaceOrTab_def)

lemma parse_head_ok:
  assumes w: "wf_buf b" and c: "contents b = print_head m p v hs @ data" and pl: "plain_request H m p v hs"
  shows "\<exists>b'. parse_request H (new_request b) = parseBody H ((new_request b)\<lparr>rq_method := m, rq_path := p,
      rq_version := v, rq_headers := hs, rq_buffer := b'\<rparr>) \<and> wf_buf b' \<and> contents b' = data"
proof -
  have m: "m \<in> methods" "m \<noteq> []" "\<forall>c \<in> set m. \<not> isSpaceOrTab c \<and> c \<noteq> CHR 0x0A"
    using pl methods_plain by (auto simp: plain_request_def)
  have p: "p \<noteq> []" "\<forall>c \<in> set p. \<not> isSpaceOrTab c \<and> c \<noteq> CHR 0x0A" using pl by (simp_all add: plain_request_def plain_path_def)
  have v: "v = ''HTTP/1.1'' \<or> v = ''HTTP/1.0''" using pl by (simp add: plain_request_def)
  then have v': "v \<noteq> []" "\<forall>c \<in> set v. \<not> isSpaceOrTab c \<and> c \<noteq> CHR 0x0A" by (auto simp: isSpaceOrTab_def)
  let ?line = "m @ '' '' @ p @ '' '' @ v" and ?rest = "concat (map print_header hs) @ CRLF @ data"
  obtain b1 where b1: "take_line b = Inr (Some (?line, b1))" "wf_buf b1" "contents b1 = ?rest"
    by (rule take_line_ok [OF w, of ?line ?rest]) (use c m p v' in \<open>auto simp: print_head_def\<close>)
  let ?r1 = "(new_request b)\<lparr>rq_buffer := b1, rq_method := m, rq_path := p, rq_version := v\<rparr>"
  have "split ?line CHR '' '' = [m, p, v]" using m p v' by (intro split_words) auto
  then have 1: "parseRequestStartingLine (new_request b) = Inr (True, ?r1)"
    using b1(1) m(1) v by (auto simp: parseRequestStartingLine_def new_request_def Let_def)
  have len: "length hs < Suc (readableBytes b1)"
  proof -
    have "length hs \<le> length (concat (map print_header hs))"
      by (induction hs) (auto simp: print_header_def)
    then have "length hs \<le> length (contents b1)" using b1(3) by simp
    then show ?thesis using readableBytes_contents [OF b1(2)] by simp
  qed
  obtain b' where "headers_loop H (Suc (readableBytes b1)) ?r1 =
      Inr (True, ?r1\<lparr>rq_headers := rq_headers ?r1 @ hs, rq_buffer := b'\<rparr>)" "wf_buf b'" "contents b' = data"
    using headers_loop_ok [of ?r1 hs data H "Suc (readableBytes b1)"] b1(2,3) len pl
    by (auto simp: plain_request_def new_request_def)
  with 1 show ?thesis
    by (intro exI [of _ b']) (simp add: parse_request_def parseHeaders_def new_request_def del: headers_loop.simps)
qed

lemma parse_printed:
  assumes "wf_buf b" "contents b = print_head m p v hs @ data" "plain_request H m p v hs"
    and "find_header H CONTENT_LENGTH hs = Some cl" "cl \<noteq> []"
    and "\<forall>t. find_header H CONTENT_TYPE hs = Some t \<longrightarrow> take 19 t \<noteq> ''multipart/form-data''"
  shows "case stoul cl of
      Inl e \<Rightarrow> parse_request H (new_request b) = Inl e
    | Inr n \<Rightarrow> \<exists>r. parse_request H (new_request b) = Inr (n \<le> length data, r) \<and> rq_method r = m \<and> rq_path r = p \<and>
        rq_version r = v \<and> rq_headers r = hs \<and> wf_buf (rq_buffer r) \<and>
        (if n \<le> length data then rq_body r = take n data \<and> contents (rq_buffer r) = drop n data
         else rq_body r = [] \<and> contents (rq_buffer r) = data)"
proof -
  obtain b' where b': "parse_request H (new_request b) = parseBody H ((new_request b)\<lparr>rq_method := m, rq_path := p,
      rq_version := v, rq_headers := hs, rq_buffer := b'\<rparr>)" "wf_buf b'" "contents b' = data"
    using parse_head_ok [OF assms(1-3)] by blast
  let ?r = "(new_request b)\<lparr>rq_method := m, rq_path := p, rq_version := v, rq_headers := hs, rq_buffer := b'\<rparr>"
  have nm: "\<not> isMultipartFormData H ?r"
    using assms(6) by (auto simp: isMultipartFormData_def split: option.splits)
  have ix: "index_header H CONTENT_LENGTH hs = (cl, hs)" using assms(4) by (simp add: index_header_def)
  show ?thesis
  proof (cases "stoul cl")
    case (Inl e)
    then show ?thesis using b'(1) nm ix assms(5) by (simp add: parseBody_def)
  next
    case (Inr n)
    have rb: "readableBytes b' = length data" using readableBytes_contents [OF b'(2)] b'(3) by simp
    obtain b2 where "read_bytes b' n = Inr (take n (contents b'), b2)" "wf_buf b2" "contents b2 = drop n (contents b')"
      by (rule read_bytes_ok [OF b'(2), of n])
    note rd = this
    have "parse_request H (new_request b) =
        (if n > length data then Inr (False, ?r) else Inr (True, ?r\<lparr>rq_body := take n data, rq_buffer := b2\<rparr>))"
      using Inr b'(1,3) nm ix rb rd(1) assms(5) by (simp add: parseBody_def Let_def)
    with Inr rd b'(2,3) show ?thesis by (simp add: new_request_def)
  qed
qed

text \<open>
  C7: a request arrives as it was sent. For a request in the usual form with a Content-Length header the
  parser returns the method, path, version and all headers of the client; the body is the given
  number of bytes and what follows stays in the buffer. If fewer bytes have arrived than
  announced the request is refused (the parser does not wait for the rest), and if the value is
  not a number the exception of \<^verbatim>\<open>std::stoul\<close> leaves the parser.
\<close>

theorem parse_request_printed:
  assumes "wf_buf b" "contents b = print_head m p v hs @ data" "plain_request H m p v hs"
    and "find_header H CONTENT_LENGTH hs = Some cl" "cl \<noteq> []"
    and "\<forall>t. find_header H CONTENT_TYPE hs = Some t \<longrightarrow> take 19 t \<noteq> ''multipart/form-data''"
  shows "case stoul cl of
      Inl e \<Rightarrow> parse_request H (new_request b) = Inl e
    | Inr n \<Rightarrow> \<exists>r. parse_request H (new_request b) = Inr (n \<le> length data, r) \<and> rq_method r = m \<and> rq_path r = p \<and>
        rq_version r = v \<and> rq_headers r = hs \<and> wf_buf (rq_buffer r) \<and>
        (if n \<le> length data then rq_body r = take n data \<and> contents (rq_buffer r) = drop n data
         else rq_body r = [] \<and> contents (rq_buffer r) = data)"
  by (rule parse_printed [OF assms])

definition example_head :: string where
  "example_head = print_head ''POST'' ''/a'' ''HTTP/1.1'' [(''Content-Length'', ''2'')] @ ''hiGET''"

definition example_request_buf :: msgbuf where
  "example_request_buf = \<lparr>mb_head = 0, mb_initCap = 8, mb_buffer = example_head, mb_tail = length example_head\<rparr>"

lemma example_request_buf: "wf_buf example_request_buf" "contents example_request_buf = example_head"
  by (simp_all add: example_request_buf_def wf_buf_def contents_def example_head_def print_head_def print_header_def CRLF_def)

theorem parse_request_printed_witness:
  "\<exists>r. parse_request length (new_request example_request_buf) = Inr (True, r) \<and> rq_method r = ''POST'' \<and>
     rq_path r = ''/a'' \<and> rq_body r = ''hi'' \<and> contents (rq_buffer r) = ''GET''"
proof -
  have "plain_request length ''POST'' ''/a'' ''HTTP/1.1'' [(''Content-Length'', ''2'')]"
    by (simp add: plain_request_def methods_def plain_path_def plain_header_def isSpaceOrTab_def)
  moreover have "find_header length CONTENT_LENGTH [(''Content-Length'', ''2'')] = Some ''2''"
    "find_header length CONTENT_TYPE [(''Content-Length'', ''2'')] = None"
    by code_simp+
  moreover have "stoul ''2'' = Inr 2"
    by (simp add: stoul_def is_space_def is_digit_def digits_value_def Let_def)
  ultimately show ?thesis
    using parse_request_printed [OF example_request_buf(1), of "''POST''" "''/a''" "''HTTP/1.1''" "[(''Content-Length'', ''2'')]"
        "''hiGET''" length "''2''"] example_request_buf(2)
    by (auto simp: example_head_def)
qed

section \<open>The content of a part\<close>

text \<open>The delimiter does not occur before the end of the content.\<close>

definition delimits :: "string \<Rightarrow> string \<Rightarrow> bool" where
  "delimits d c \<longleftrightarrow> d \<noteq> [] \<and> (\<forall>j<length c. take (length d) (drop j (c @ d)) \<noteq> d)"

fun delivered :: "mp_event list \<Rightarrow> string" where
  "delivered [] = []"
| "delivered (MpContent n c # evs) = c @ delivered evs"
| "delivered (MpFile n f t # evs) = delivered evs"

lemma delivered_append [simp]: "delivered (xs @ ys) = delivered xs @ delivered ys"
  by (induction xs rule: delivered.induct) auto

lemma delimits_take:
  assumes "delimits d c" "j < length c"
  shows "take (length d) (drop j (c @ d @ r)) \<noteq> d"
  using assms by (auto simp: delimits_def)

lemma delimits_drop: "delimits d (c @ c') \<Longrightarrow> delimits d c'"
  unfolding delimits_def
proof (intro conjI allI impI)
  fix j assume a: "d \<noteq> [] \<and> (\<forall>j<length (c @ c'). take (length d) (drop j ((c @ c') @ d)) \<noteq> d)" "j < length c'"
  have "length c + j < length (c @ c')" using a(2) by simp
  with a(1) have "take (length d) (drop (length c + j) ((c @ c') @ d)) \<noteq> d" by blast
  then show "take (length d) (drop j (c' @ d)) \<noteq> d" by simp
qed simp

text \<open>Search in what has arrived of a stream: the delimiter is found at the end of the content or
  has not arrived completely.\<close>

lemma search_stream:
  assumes "s @ fut = c @ d @ rest" "delimits d c"
  shows "search d s = (if length c + length d \<le> length s then Some (length c) else None)"
proof -
  have pre: "take (length d) (drop j s) = take (length d) (drop j (c @ d @ rest))" if "j + length d \<le> length s" for j
    using that by (subst assms(1) [symmetric]) simp
  have short: "take (length d) (drop j s) \<noteq> d" if "\<not> j + length d \<le> length s" for j
    using that assms(2) by (auto simp: delimits_def dest!: arg_cong [of _ d length])
  have ne: "take (length d) (drop j s) \<noteq> d" if "j < length c" for j
    using that pre [of j] short [of j] delimits_take [OF assms(2) that, of rest] by metis
  show ?thesis
  proof (cases "length c + length d \<le> length s")
    case True
    then show ?thesis using pre [of "length c"] ne by (simp add: search_Some_iff)
  next
    case False
    then have "take (length d) (drop j s) \<noteq> d" for j using ne [of j] short [of j] by linarith
    with False show ?thesis by (simp add: search_None_iff)
  qed
qed

lemma state3_found:
  assumes "wf_buf b" "contents b @ fut = c @ mp_crlfDashBoundary p @ rest" "delimits (mp_crlfDashBoundary p) c"
    "length c + length (mp_crlfDashBoundary p) \<le> readableBytes b"
  obtains b' where "mp_state3 hc p b = Inr (MpAgain False, p\<lparr>mp_state := 4\<rparr>, b', mp_emit hc p (MpContent (mp_name p) c))"
    "wf_buf b'" "contents b' @ fut = rest"
proof -
  let ?d = "mp_crlfDashBoundary p"
  have d: "?d \<noteq> []" using assms(3) by (simp add: delimits_def)
  have len: "length c + length ?d \<le> length (contents b)" using assms(1,4) by simp
  then have "search ?d (contents b) = Some (length c)" using search_stream [OF assms(2,3)] by simp
  then have f: "find_bytes b ?d = Inr (Some (peek b + length c))" using find_bytes_wf [OF assms(1) d] by simp
  have "take (length c) (contents b @ fut) = c" using assms(2) by simp
  then have p: "peek_bytes b (length c) = Inr c" using assms(1) len by simp
  obtain b' where b': "retrieve b (length c + length ?d) = Inr b'" "wf_buf b'"
    "contents b' = drop (length c + length ?d) (contents b)"
    by (rule retrieve_ok [OF assms(1)])
  have "drop (length c + length ?d) (contents b @ fut) = rest" by (simp add: assms(2))
  then have "contents b' @ fut = rest" using b'(3) len by simp
  then show thesis using that b' f p assms(4) by (simp add: mp_state3_def Let_def)
qed

lemma state3_partial:
  assumes "wf_buf b" "contents b @ fut = c @ mp_crlfDashBoundary p @ rest" "delimits (mp_crlfDashBoundary p) c"
    "readableBytes b < length c + length (mp_crlfDashBoundary p)"
  obtains b' c1 c2 where "c = c1 @ c2"
    "mp_state3 hc p b = Inr (MpAgain True, p, b', if c1 = [] then [] else mp_emit hc p (MpContent (mp_name p) c1))"
    "wf_buf b'" "contents b' @ fut = c2 @ mp_crlfDashBoundary p @ rest"
proof (cases "readableBytes b \<le> length (mp_crlfDashBoundary p)")
  case True
  let ?d = "mp_crlfDashBoundary p"
  have "find_bytes b ?d = Inr None" 
    using assms find_bytes_wf [OF assms(1), of ?d] search_stream [OF assms(2,3)] by (simp add: delimits_def)
  with True show thesis using that [of "[]" c b] assms(1,2) by (simp add: mp_state3_def Let_def)
next
  case False
  let ?d = "mp_crlfDashBoundary p" and ?n = "readableBytes b - length (mp_crlfDashBoundary p)"
  have f: "find_bytes b ?d = Inr None"
    using assms find_bytes_wf [OF assms(1), of ?d] search_stream [OF assms(2,3)] by (simp add: delimits_def)
  have n: "?n < length c" "0 < ?n" "?n \<le> length (contents b)" using False assms(1,4) by auto
  have "take ?n (contents b @ fut) = take ?n c" using n by (simp add: assms(2))
  then have t: "take ?n (contents b) = take ?n c" using n(3) by simp
  obtain b' where b': "retrieve b ?n = Inr b'" "wf_buf b'" "contents b' = drop ?n (contents b)"
    by (rule retrieve_ok [OF assms(1)])
  have "drop ?n (contents b @ fut) = drop ?n c @ ?d @ rest" using n by (simp add: assms(2))
  then have "contents b' @ fut = drop ?n c @ ?d @ rest" using b'(3) n(3) by simp
  moreover have "peek_bytes b ?n = Inr (take ?n c)" using t assms(1) n(3) by simp
  moreover have "take ?n c \<noteq> []" using n by auto
  ultimately show thesis using that [of "take ?n c" "drop ?n c" b'] b'(1,2) f False
    by (simp add: mp_state3_def Let_def)
qed

text \<open>
  The parser while it is in the content of a part (state 3): rounds of the loop and reads of the socket in
  any order. The last two arguments are the bytes read and the events so far.
\<close>

inductive part_run ::
    "(string \<Rightarrow> bool) \<Rightarrow> multipart \<Rightarrow> msgbuf \<Rightarrow> multipart \<Rightarrow> msgbuf \<Rightarrow> string \<Rightarrow> mp_event list \<Rightarrow> bool"
  for hc :: "string \<Rightarrow> bool" and p :: multipart and b :: msgbuf where
  start: "part_run hc p b p b [] []"
| round: "part_run hc p b q b1 arr evs \<Longrightarrow> mp_state q = 3 \<Longrightarrow> mp_round hc q b1 = Inr (n, q', b2, evs') \<Longrightarrow>
    part_run hc p b q' b2 arr (evs @ evs')"
| read: "part_run hc p b q b1 arr evs \<Longrightarrow> mp_state q = 3 \<Longrightarrow> writableBytes b1 < 2147483648 \<Longrightarrow>
    length ds \<le> readv_capacity (writableBytes b1) \<Longrightarrow> readMore (ReadData ds) b1 = Inr (ret, nm, b2) \<Longrightarrow>
    part_run hc p b q b2 (arr @ ds) evs"

lemma readMore_ok:
  assumes "wf_buf b" "writableBytes b < 2147483648" "length ds \<le> readv_capacity (writableBytes b)"
    "readMore (ReadData ds) b = Inr (ret, nm, b')"
  shows "wf_buf b' \<and> contents b' = contents b @ ds"
proof -
  obtain n e b1 where r: "readFd b (ReadData ds) = Inr (n, e, b1)"
    using assms(4) by (auto simp: readMore_def bindR_eq_Inr)
  note ok = readFd_ok [OF assms(1-3) r]
  then have "b' = b1" using assms(4) r by (simp add: readMore_def)
  with ok show ?thesis by simp
qed

lemma mp_round_3: "mp_state p = 3 \<Longrightarrow> mp_round hc p b = mp_state3 hc p b"
  by (simp add: mp_round_def)

text \<open>
  C11: from the moment the parser has read the headers of a part of a multipart body (its state 3) until it leaves
  the part, and with a content handler for the part's name, the content of that part reaches the handler unchanged,
  however the network cuts the content and the delimiter behind it up; a content is what the delimiter
  ends the first time it appears (\<open>delimits\<close>). The boundary line and the part headers before it are not the subject: the parser
  does not accept those in every cut. At every moment the bytes handed over are the beginning of the content and the rest is in the
  buffer or still to come; the parser leaves the part only after all of the content and exactly up to
  the delimiter, and it does leave it in the first round after the delimiter has arrived.
\<close>

theorem multipart_content_exact:
  assumes "part_run hc p b q b' arr evs" "mp_state p = 3" "wf_buf b" "hc (mp_name p)"
    and "delimits (mp_crlfDashBoundary p) c" "contents b @ arr @ fut = c @ mp_crlfDashBoundary p @ rest"
  shows "q = p\<lparr>mp_state := 4\<rparr> \<and> delivered evs = c \<and> wf_buf b' \<and> contents b' @ fut = rest \<or>
    (\<exists>c'. (q = p \<and> c = delivered evs @ c' \<and> wf_buf b' \<and> contents b' @ fut = c' @ mp_crlfDashBoundary p @ rest) \<and>
       (length c' + length (mp_crlfDashBoundary p) \<le> length (contents b') \<longrightarrow>
          (\<exists>b''. mp_round hc p b' =
             Inr (MpAgain False, p\<lparr>mp_state := 4\<rparr>, b'', [MpContent (mp_name p) c']) \<and> contents b'' @ fut = rest)))"
    (is "?done q evs b' fut \<or> (\<exists>c'. ?busy c' q evs b' fut \<and> ?leaves c' b' fut)")
proof -
  let ?d = "mp_crlfDashBoundary p"
  have del: "delimits ?d c'" if "c = x @ c'" for x c' :: string using delimits_drop assms(5) that by blast
  have "?done q evs b' fut \<or> (\<exists>c'. ?busy c' q evs b' fut)"
    using assms(1,6)
  proof (induction arbitrary: fut)
    case start
    then show ?case using assms(3) by auto
  next
    case (round q b1 arr evs n q' b2 evs')
    then obtain c' where c': "?busy c' q evs b1 fut" using assms(2) by fastforce
    then have q: "q = p" by simp
    show ?case
    proof (cases "length c' + length ?d \<le> readableBytes b1")
      case True
      obtain b'' where "mp_state3 hc p b1 = Inr (MpAgain False, p\<lparr>mp_state := 4\<rparr>, b'', mp_emit hc p (MpContent (mp_name p) c'))"
        "wf_buf b''" "contents b'' @ fut = rest"
        by (rule state3_found [of b1 fut c' p rest hc]) (use c' True del in auto)
      with round.hyps(3) mp_round_3 [OF assms(2)] q c' show ?thesis by (auto simp: mp_emit_def assms(4))
    next
      case False
      obtain b'' c1 c2 where c12: "c' = c1 @ c2"
        "mp_state3 hc p b1 = Inr (MpAgain True, p, b'', if c1 = [] then [] else mp_emit hc p (MpContent (mp_name p) c1))"
        "wf_buf b''" "contents b'' @ fut = c2 @ ?d @ rest"
        by (rule state3_partial [of b1 fut c' p rest hc]) (use c' False del in auto)
      then have "b2 = b'' \<and> q' = p \<and> delivered evs' = c1"
        using round.hyps(3) mp_round_3 [OF assms(2)] q assms(4) by (auto simp: mp_emit_def)
      with c12 c' show ?thesis by auto
    qed
  next
    case (read q b1 arr evs ds ret nm b2)
    from read.IH [of "ds @ fut"] read.prems read.hyps(2) obtain c' where c': "?busy c' q evs b1 (ds @ fut)"
      using assms(2) by fastforce
    with readMore_ok [of b1 ds ret nm b2] read.hyps show ?case by auto
  qed
  moreover have "?leaves c' b' fut" if b: "?busy c' q evs b' fut" for c' :: string
  proof
    assume "length c' + length ?d \<le> length (contents b')"
    then have "length c' + length ?d \<le> readableBytes b'" using b by simp
    from state3_found [of b' fut c' p rest hc, OF _ _ del this] b
    show "\<exists>b''. mp_round hc p b' = Inr (MpAgain False, p\<lparr>mp_state := 4\<rparr>, b'', [MpContent (mp_name p) c']) \<and> contents b'' @ fut = rest"
      using mp_round_3 [OF assms(2)] by (metis mp_emit_def assms(4))
  qed
  ultimately show ?thesis by blast
qed

definition example_part :: multipart where
  "example_part = \<lparr>mp_dashBoundaryCrlf = ''--X'' @ CRLF, mp_crlfDashBoundary = CRLF @ ''--X'', mp_state = 3,
     mp_name = ''f'', mp_filename = [], mp_contentType = []\<rparr>"

definition example_part_buf :: msgbuf where
  "example_part_buf = \<lparr>mb_head = 0, mb_initCap = 8, mb_buffer = ''0123456789'' @ CRLF @ ''--'', mb_tail = 14\<rparr>"

theorem multipart_content_exact_witness:
  "\<exists>q b'. part_run (\<lambda>_. True) example_part example_part_buf q b' [] [MpContent ''f'' ''012345678''] \<and>
     contents b' @ ''X--'' = ''9'' @ mp_crlfDashBoundary example_part @ ''--''"
proof -
  let ?d = "mp_crlfDashBoundary example_part"
  have w: "wf_buf example_part_buf" "contents example_part_buf = ''0123456789'' @ CRLF @ ''--''"
    by (simp_all add: example_part_buf_def wf_buf_def contents_def CRLF_def)
  have d: "delimits ?d ''0123456789''"
    unfolding delimits_def example_part_def CRLF_def by code_simp
  have n: "mp_name example_part = ''f''" "mp_state example_part = 3" by (simp_all add: example_part_def)
  have stream: "contents example_part_buf @ ''X--'' = ''0123456789'' @ ?d @ ''--''"
    using w(2) by (simp add: example_part_def)
  have m: "mp_round (\<lambda>_. True) example_part example_part_buf =
      Inr (MpAgain True, example_part, example_part_buf\<lparr>mb_head := 9\<rparr>, [MpContent ''f'' ''012345678''])"
  proof -
    have "find_bytes example_part_buf ?d = Inr None"
      using find_bytes_wf [OF w(1), of ?d] search_stream [of "contents example_part_buf" _ _ ?d, OF _ d] stream w(2)
      by (simp add: example_part_def CRLF_def)
    then show ?thesis unfolding mp_round_3 [OF n(2)] mp_state3_def
      by (simp add: w(1) w(2)) (simp add: example_part_def example_part_buf_def mp_emit_def retrieve_def peek_bytes_def mem_read_def peek_def readableBytes_def CRLF_def)
  qed
  note run = part_run.round [OF part_run.start n(2) m]
  from multipart_content_exact [OF run n(2) w(1) _ d, of "''X--''" "''--''"] stream run show ?thesis by (auto simp: n example_part_def)
qed

text \<open>
  a multipart body of which fewer bytes than its first delimiter have arrived blocks the thread. The
  parser then neither reads from the socket nor returns: with any amount of fuel its loop goes on.
\<close>

theorem multipart_short_start_hangs:
  assumes "mp_state p = 0" "readableBytes b < length (mp_dashBoundaryCrlf p)"
  shows "mp_run fuel hc reads False p b out = Inl Diverges"
proof (induction fuel)
  case (Suc fuel)
  have "mp_round hc p b = Inr (MpAgain False, p, b, [])" using assms by (simp add: mp_round_def mp_state0_def)
  with Suc show ?case by (cases "next_read reads") simp
qed simp

theorem multipart_short_start_hangs_witness:
  "mp_run 1000 (\<lambda>_. True) [ReadData ''--X''] False (setBoundary ''X'' (rq_parser (new_request example_part_buf)))
     (example_part_buf\<lparr>mb_tail := 0\<rparr>) [] = Inl Diverges"
  by (rule multipart_short_start_hangs) (simp_all add: setBoundary_def new_request_def readableBytes_def example_part_buf_def)

end
