(* ===== verification/HttpServer.thy ===== *)
theory HttpServer
  imports Http
begin

text \<open>
  The HTTP server (\<^verbatim>\<open>cooper/net/HttpServer.*\<close>): routes, mount points, keep-alive bookkeeping and the
  callback that answers a message. What happens on the connection is a list of actions. The file system
  is a parameter (the answers of \<^verbatim>\<open>stat\<close>), handlers and the file authorisation are functions. The theorems
  show that only regular files below a mounted directory are served, that every message gets
  exactly one response with a correct length, and that a connection is closed in time.
\<close>

section \<open>State\<close>

datatype file_stat = Directory | RegularFile nat | OtherFile

type_synonym file_system = "string \<Rightarrow> file_stat option"

definition isDir :: "file_system \<Rightarrow> string \<Rightarrow> bool" where
  "isDir fs path = (fs path = Some Directory)"

definition isFile :: "file_system \<Rightarrow> string \<Rightarrow> bool" where
  "isFile fs path = (case fs path of Some (RegularFile n) \<Rightarrow> True | _ \<Rightarrow> False)"

text \<open>The size that \<^verbatim>\<open>stat\<close> reports for anything but a regular file is not specified; here it is 0.\<close>

definition getFileSize :: "file_system \<Rightarrow> string \<Rightarrow> nat" where
  "getFileSize fs path = (case fs path of Some (RegularFile n) \<Rightarrow> n | _ \<Rightarrow> 0)"

record response =
  rs_version :: string
  rs_code :: int
  rs_description :: string
  rs_headers :: headers
  rs_body :: string
  rs_writer :: "(string \<times> string) option"

definition set_status :: "nat \<Rightarrow> response \<Rightarrow> response" where
  "set_status code rs = rs\<lparr>rs_code := int code, rs_description := status_description code\<rparr>"

definition new_response :: response where
  "new_response = set_status 200
     \<lparr>rs_version = ''HTTP/1.1'', rs_code = 0, rs_description = [], rs_headers = [], rs_body = [], rs_writer = None\<rparr>"

type_synonym http_handler = "request \<Rightarrow> response \<Rightarrow> request \<times> response"

record mount_entry =
  mt_mountPoint :: string
  mt_baseDir :: string
  mt_headers :: headers

record server =
  sv_keepAliveTimeout :: nat
  sv_maxKeepAliveRequests :: int
  sv_getRoutes :: "string \<rightharpoonup> http_handler"
  sv_postRoutes :: "string \<rightharpoonup> http_handler"
  sv_baseDirs :: "mount_entry list"
  sv_fileAuth :: "(string \<Rightarrow> bool) option"

definition HttpServer_new :: server where
  "HttpServer_new = \<lparr>sv_keepAliveTimeout = 60, sv_maxKeepAliveRequests = 100, sv_getRoutes = Map.empty,
     sv_postRoutes = Map.empty, sv_baseDirs = [], sv_fileAuth = None\<rparr>"

definition setKeepAliveTimeout :: "nat \<Rightarrow> server \<Rightarrow> server" where
  "setKeepAliveTimeout timeout sv = sv\<lparr>sv_keepAliveTimeout := timeout\<rparr>"

definition setMaxKeepAliveRequests :: "int \<Rightarrow> server \<Rightarrow> server" where
  "setMaxKeepAliveRequests n sv = sv\<lparr>sv_maxKeepAliveRequests := n\<rparr>"

definition setFileAuthCallback :: "(string \<Rightarrow> bool) \<Rightarrow> server \<Rightarrow> server" where
  "setFileAuthCallback cb sv = sv\<lparr>sv_fileAuth := Some cb\<rparr>"

definition addEndpoint :: "string \<Rightarrow> string \<Rightarrow> http_handler \<Rightarrow> server \<Rightarrow> server" where
  "addEndpoint method path handler sv =
     (if method \<notin> methods then sv
      else if path = [] then sv
      else if sv_getRoutes sv path \<noteq> None \<or> sv_postRoutes sv path \<noteq> None then sv
      else if method = ''GET'' then sv\<lparr>sv_getRoutes := (sv_getRoutes sv)(path \<mapsto> handler)\<rparr>
      else if method = ''POST'' then sv\<lparr>sv_postRoutes := (sv_postRoutes sv)(path \<mapsto> handler)\<rparr>
      else sv)"

definition addMountPoint :: "file_system \<Rightarrow> string \<Rightarrow> string \<Rightarrow> headers \<Rightarrow> server \<Rightarrow> bool \<times> server" where
  "addMountPoint fs mountPoint dir hs sv =
     (if isDir fs dir
      then (let mnt = (if mountPoint \<noteq> [] then mountPoint else ''/'') in
            if mnt \<noteq> [] \<and> hd mnt = CHR ''/''
            then (True, sv\<lparr>sv_baseDirs := sv_baseDirs sv @ [\<lparr>mt_mountPoint = mnt, mt_baseDir = dir, mt_headers = hs\<rparr>]\<rparr>)
            else (False, sv))
      else (False, sv))"

fun remove_mount :: "string \<Rightarrow> mount_entry list \<Rightarrow> bool \<times> mount_entry list" where
  "remove_mount m [] = (False, [])"
| "remove_mount m (e # es) =
     (if mt_mountPoint e = m then (True, es) else (let (r, es') = remove_mount m es in (r, e # es')))"

definition removeMountPoint :: "string \<Rightarrow> server \<Rightarrow> bool \<times> server" where
  "removeMountPoint m sv = (let (r, es) = remove_mount m (sv_baseDirs sv) in (r, sv\<lparr>sv_baseDirs := es\<rparr>))"

section \<open>Answering a message\<close>

type_synonym conn = nat
type_synonym keep_alive = "conn \<Rightarrow> (int \<times> int) option"

datatype http_action = Send conn string | SendFile conn string nat | ForceClose conn

text \<open>\<^verbatim>\<open>keepAliveRequests[conn]\<close>: a missing entry is created with two zeros.\<close>

definition ka_entry :: "keep_alive \<Rightarrow> conn \<Rightarrow> int \<times> int" where
  "ka_entry ka c = (case ka c of None \<Rightarrow> (0, 0) | Some e \<Rightarrow> e)"

definition ka_touch :: "keep_alive \<Rightarrow> conn \<Rightarrow> keep_alive" where
  "ka_touch ka c = ka(c \<mapsto> ka_entry ka c)"

definition content_write :: "conn \<Rightarrow> string \<Rightarrow> nat \<Rightarrow> http_action list" where
  "content_write c file len = (if file = [] \<or> len = 0 then [] else [SendFile c file len])"

definition print_response :: "response \<Rightarrow> string" where
  "print_response rs =
     rs_version rs @ '' '' @ to_string_int (rs_code rs) @ '' '' @ rs_description rs @ CRLF @
     concat (map (\<lambda>h. fst h @ '': '' @ snd h @ CRLF) (rs_headers rs)) @ CRLF @
     (if rs_writer rs = None then rs_body rs else [])"

definition response_headers :: "(string \<Rightarrow> nat) \<Rightarrow> file_system \<Rightarrow> server \<Rightarrow> int \<Rightarrow> response \<Rightarrow> headers" where
  "response_headers H fs sv second rs =
     (let hs = set_header H SERVER SERVER_VALUE (rs_headers rs);
          hs = (if second = 0
                then set_header H CONNECTION (''timeout='' @ to_string (sv_keepAliveTimeout sv) @ '', max='' @ to_string_int second) hs
                else hs);
          hs = (if rs_body rs \<noteq> [] then set_header H CONTENT_LENGTH (to_string (length (rs_body rs))) hs else hs)
      in case rs_writer rs of
           None \<Rightarrow> hs
         | Some (file, contentType) \<Rightarrow>
             (let len = getFileSize fs file; hs = set_header H CONTENT_TYPE contentType hs
              in if len > 0 then set_header H CONTENT_LENGTH (to_string len) hs else hs))"

definition sendResponse ::
    "(string \<Rightarrow> nat) \<Rightarrow> file_system \<Rightarrow> server \<Rightarrow> keep_alive \<Rightarrow> conn \<Rightarrow> response \<Rightarrow> keep_alive \<times> response \<times> http_action list" where
  "sendResponse H fs sv ka c rs =
     (let ka = ka_touch ka c;
          rs = rs\<lparr>rs_headers := response_headers H fs sv (snd (ka_entry ka c)) rs\<rparr>
      in (ka, rs, Send c (print_response rs) #
            (case rs_writer rs of None \<Rightarrow> [] | Some (file, _) \<Rightarrow> content_write c file (getFileSize fs file))))"

definition handleRequest ::
    "(string \<Rightarrow> nat) \<Rightarrow> file_system \<Rightarrow> server \<Rightarrow> keep_alive \<Rightarrow> conn \<Rightarrow> request \<Rightarrow> response \<Rightarrow>
     keep_alive \<times> request \<times> response \<times> http_action list" where
  "handleRequest H fs sv ka c rq rs =
     (let routed = (\<lambda>routes.
        case routes (rq_path rq) of
          None \<Rightarrow> (let (ka, rs, acts) = sendResponse H fs sv ka c (set_status 404 rs) in (ka, rq, rs, acts))
        | Some handler \<Rightarrow>
            (let (rq, rs) = handler rq rs; (ka, rs, acts) = sendResponse H fs sv ka c rs in (ka, rq, rs, acts)))
      in if rq_method rq = ''GET'' then routed (sv_getRoutes sv)
         else if rq_method rq = ''POST'' then routed (sv_postRoutes sv)
         else (let (ka, rs, acts) = sendResponse H fs sv ka c (set_status 405 rs) in (ka, rq, rs, acts)))"

text \<open>The path of the file that a mount point gives for a request path.\<close>

definition mounted_path :: "mount_entry \<Rightarrow> string \<Rightarrow> string" where
  "mounted_path e subPath =
     (let path = mt_baseDir e @ subPath in if last path = CHR ''/'' then path @ ''index.html'' else path)"

text \<open>The loop over the mount points; \<open>None\<close> is the return of \<^verbatim>\<open>false\<close>.\<close>

fun file_loop ::
    "(string \<Rightarrow> nat) \<Rightarrow> file_system \<Rightarrow> server \<Rightarrow> keep_alive \<Rightarrow> conn \<Rightarrow> request \<Rightarrow> response \<Rightarrow> mount_entry list \<Rightarrow>
     (keep_alive \<times> response \<times> http_action list) option result" where
  "file_loop H fs sv ka c rq rs [] = Inr None"
| "file_loop H fs sv ka c rq rs (e # es) =
     (let n = length (mt_mountPoint e) in
      if take n (rq_path rq) = mt_mountPoint e
      then (let subPath = CHR ''/'' # drop n (rq_path rq) in
            bindR (isValidPath subPath) (\<lambda>valid.
            let path = mounted_path e subPath in
            if valid \<and> isFile fs path
            then (if (case sv_fileAuth sv of None \<Rightarrow> True | Some cb \<Rightarrow> cb path)
                  then Inr (Some (sendResponse H fs sv ka c
                         (rs\<lparr>rs_headers := foldl (\<lambda>hs kv. set_header H (fst kv) (snd kv) hs) (rs_headers rs) (mt_headers e),
                             rs_writer := Some (path, findContentType path)\<rparr>)))
                  else Inr (Some (sendResponse H fs sv ka c (set_status 403 rs))))
            else file_loop H fs sv ka c rq rs es))
      else file_loop H fs sv ka c rq rs es)"

definition handleFileRequest ::
    "(string \<Rightarrow> nat) \<Rightarrow> file_system \<Rightarrow> server \<Rightarrow> keep_alive \<Rightarrow> conn \<Rightarrow> request \<Rightarrow> response \<Rightarrow>
     (keep_alive \<times> response \<times> http_action list) option result" where
  "handleFileRequest H fs sv ka c rq rs =
     (if rq_method rq \<noteq> ''GET'' then Inr None else file_loop H fs sv ka c rq rs (sv_baseDirs sv))"

text \<open>The entry of a new connection; \<^verbatim>\<open>operator[]\<close> on the headers adds an empty Connection header.\<close>

definition open_keepalive ::
    "(string \<Rightarrow> nat) \<Rightarrow> server \<Rightarrow> keep_alive \<Rightarrow> conn \<Rightarrow> request \<Rightarrow> keep_alive \<times> request" where
  "open_keepalive H sv ka c rq =
     (if ka c \<noteq> None then (ka, rq)
      else (let v10 = (rq_version rq = ''HTTP/1.0''); v11 = (rq_version rq = ''HTTP/1.1'');
                (v, hs) = (if v10 \<or> v11 then index_header H CONNECTION (rq_headers rq) else ([], rq_headers rq));
                keep = (v10 \<and> v = CONNECTION_KEEP_ALIVE) \<or> (v11 \<and> v \<noteq> CONNECTION_CLOSE)
            in (ka(c \<mapsto> (0, if keep then sv_maxKeepAliveRequests sv else 0)), rq\<lparr>rq_headers := hs\<rparr>)))"

text \<open>What follows the response: closing after an error, counting, closing after the last request.\<close>

definition count_request :: "keep_alive \<Rightarrow> conn \<Rightarrow> int \<Rightarrow> keep_alive \<times> http_action list" where
  "count_request ka c code =
     (let (ka, a1) = (if code \<noteq> 200 then (ka(c := None), [ForceClose c]) else (ka, []));
          (n, m) = ka_entry ka c; ka = ka(c \<mapsto> (n + 1, m))
      in if n + 1 \<ge> m then (ka(c := None), a1 @ [ForceClose c]) else (ka, a1))"

definition recvMsgCallback ::
    "(string \<Rightarrow> nat) \<Rightarrow> file_system \<Rightarrow> server \<Rightarrow> keep_alive \<Rightarrow> conn \<Rightarrow> msgbuf \<Rightarrow>
     (keep_alive \<times> msgbuf \<times> http_action list) result" where
  "recvMsgCallback H fs sv ka c b =
     bindR (parse_request H (new_request b)) (\<lambda>(ok, rq).
       if \<not> ok
       then (let (ka, rs, acts) = sendResponse H fs sv ka c (set_status 400 new_response)
             in Inr (ka(c := None), rq_buffer rq, acts @ [ForceClose c]))
       else (let (ka, rq) = open_keepalive H sv ka c rq in
             bindR (handleFileRequest H fs sv ka c rq new_response) (\<lambda>ret.
             let (ka, rq, rs, acts) =
                   (case ret of
                      Some (ka, rs, acts) \<Rightarrow> (ka, rq, rs, acts)
                    | None \<Rightarrow> handleRequest H fs sv ka c rq new_response);
                 (ka, acts') = count_request ka c (rs_code rs)
             in Inr (ka, rq_buffer rq, acts @ acts'))))"

section \<open>Only files below the mounted directories\<close>

lemma isValidPath_resolve: "isValidPath p = Inr (resolve [] (path_components p) \<noteq> None)"
  using valid_loop_resolve [OF dropWhile_stops, of "[]"] by (simp add: isValidPath_def)

text \<open>A file that the server may send for a request path: a mount point is a prefix of the path, the
  rest stays below the mounted directory when it is resolved, and it is a regular file that the
  authorisation callback accepts.\<close>

definition may_serve :: "file_system \<Rightarrow> server \<Rightarrow> string \<Rightarrow> string \<Rightarrow> bool" where
  "may_serve fs sv reqPath file \<longleftrightarrow>
     (\<exists>e \<in> set (sv_baseDirs sv). \<exists>sub. reqPath = mt_mountPoint e @ sub \<and>
        resolve [] (path_components sub) \<noteq> None \<and> file = mounted_path e (CHR ''/'' # sub) \<and>
        isFile fs file \<and> (\<forall>cb. sv_fileAuth sv = Some cb \<longrightarrow> cb file))"

lemma sendResponse_files:
  assumes "sendResponse H fs sv ka c rs = (ka', rs', acts)" "SendFile c' file n \<in> set acts"
  shows "c' = c \<and> n = getFileSize fs file \<and> (\<exists>t. rs_writer rs = Some (file, t))"
  using assms by (auto simp: sendResponse_def content_write_def Let_def split: option.splits if_splits)

lemma file_loop_files:
  assumes "file_loop H fs sv ka c rq rs es = Inr (Some (ka', rs', acts))" "SendFile c' file n \<in> set acts"
    "rs_writer rs = None" "set es \<subseteq> set (sv_baseDirs sv)"
  shows "c' = c \<and> n = getFileSize fs file \<and> may_serve fs sv (rq_path rq) file"
  using assms(1,4)
proof (induction es)
  case (Cons e es)
  let ?n = "length (mt_mountPoint e)" and ?sub = "drop (length (mt_mountPoint e)) (rq_path rq)"
  let ?path = "mounted_path e (CHR ''/'' # ?sub)"
  let ?auth = "case sv_fileAuth sv of None \<Rightarrow> True | Some cb \<Rightarrow> cb ?path"
  let ?valid = "resolve [] (path_components ?sub) \<noteq> None"
  show ?case
  proof (cases "take ?n (rq_path rq) = mt_mountPoint e \<and> ?valid \<and> isFile fs ?path")
    case False
    then have "file_loop H fs sv ka c rq rs es = Inr (Some (ka', rs', acts))"
      using Cons.prems(1) by (auto simp: Let_def isValidPath_resolve split: if_splits)
    with Cons.IH Cons.prems(2) show ?thesis by simp
  next
    case True
    have auth: ?auth and send: "sendResponse H fs sv ka c
        (rs\<lparr>rs_headers := foldl (\<lambda>hs kv. set_header H (fst kv) (snd kv) hs) (rs_headers rs) (mt_headers e),
          rs_writer := Some (?path, findContentType ?path)\<rparr>) = (ka', rs', acts)"
      using Cons.prems(1) True sendResponse_files [OF _ assms(2), of H fs sv ka c "set_status 403 rs" ka' rs'] assms(3)
      by (auto simp: Let_def isValidPath_resolve set_status_def split: if_splits)
    have f: "c' = c" "n = getFileSize fs file" "file = ?path" using sendResponse_files [OF send assms(2)] by auto
    moreover have "rq_path rq = mt_mountPoint e @ ?sub" using True append_take_drop_id by metis
    ultimately show ?thesis using True auth Cons.prems(2) unfolding may_serve_def by (auto split: option.splits)
  qed
qed simp

text \<open>Handlers cannot reach the content writer of a response: it is a private field.\<close>

definition handlers_ok :: "server \<Rightarrow> bool" where
  "handlers_ok sv \<longleftrightarrow> (\<forall>h \<in> Map.ran (sv_getRoutes sv) \<union> Map.ran (sv_postRoutes sv).
     \<forall>rq rs. rs_writer (snd (h rq rs)) = rs_writer rs)"

lemma set_status_writer [simp]: "rs_writer (set_status code rs) = rs_writer rs"
  by (simp add: set_status_def)

lemma new_response_simps [simp]: "rs_writer new_response = None" "rs_code new_response = 200" "rs_body new_response = []"
  by (simp_all add: new_response_def set_status_def)

text \<open>Every branch of \<^verbatim>\<open>handleRequest\<close> sends one response.\<close>

lemma handleRequest_sends:
  assumes "handleRequest H fs sv ka c rq rs = (ka', rq', rs', acts)"
  obtains rs1 where "sendResponse H fs sv ka c rs1 = (ka', rs', acts)"
    "handlers_ok sv \<Longrightarrow> rs_writer rs = None \<Longrightarrow> rs_writer rs1 = None"
proof -
  let ?routes = "if rq_method rq = ''GET'' then sv_getRoutes sv else sv_postRoutes sv"
  consider h where "?routes (rq_path rq) = Some h" "h \<in> Map.ran (sv_getRoutes sv) \<union> Map.ran (sv_postRoutes sv)"
      "sendResponse H fs sv ka c (snd (h rq rs)) = (ka', rs', acts)"
    | code where "sendResponse H fs sv ka c (set_status code rs) = (ka', rs', acts)"
    using assms unfolding handleRequest_def
    by (cases "?routes (rq_path rq)")
      (auto simp: Let_def case_prod_unfold prod_eq_iff ran_def split: if_splits)
  then show thesis
  proof cases
    case (1 h)
    show thesis by (rule that [OF 1(3)]) (use 1(2) in \<open>auto simp: handlers_ok_def\<close>)
  next
    case (2 code)
    show thesis by (rule that [OF 2]) simp
  qed
qed

lemma file_loop_sends:
  "file_loop H fs sv ka c rq rs es = Inr (Some (ka', rs', acts)) \<Longrightarrow>
   \<exists>rs1. sendResponse H fs sv ka c rs1 = (ka', rs', acts)"
  by (induction es) (auto simp: Let_def isValidPath_resolve split: if_splits)

lemma file_loop_total: "\<exists>ret. file_loop H fs sv ka c rq rs es = Inr ret"
  by (induction es) (auto simp: Let_def isValidPath_resolve)

text \<open>
  The shape of an answer: for a request that cannot be parsed a 400 response and a close; otherwise one
  response, made by a file or by \<^verbatim>\<open>handleRequest\<close>, and the bookkeeping after it.
\<close>

lemma recvMsgCallback_cases:
  assumes "recvMsgCallback H fs sv ka c b = Inr (ka', b', acts)"
  obtains (bad) rq ka1 rs1 acts1 where "parse_request H (new_request b) = Inr (False, rq)"
      "sendResponse H fs sv ka c (set_status 400 new_response) = (ka1, rs1, acts1)"
      "ka' = ka1(c := None)" "acts = acts1 @ [ForceClose c]"
  | (mounted) rq0 rq ka0 ka1 rs1 acts1 acts2 where "parse_request H (new_request b) = Inr (True, rq0)"
      "open_keepalive H sv ka c rq0 = (ka0, rq)"
      "handleFileRequest H fs sv ka0 c rq new_response = Inr (Some (ka1, rs1, acts1))"
      "count_request ka1 c (rs_code rs1) = (ka', acts2)" "acts = acts1 @ acts2"
  | (route) rq0 rq ka0 rq1 ka1 rs1 acts1 acts2 where "parse_request H (new_request b) = Inr (True, rq0)"
      "open_keepalive H sv ka c rq0 = (ka0, rq)"
      "handleRequest H fs sv ka0 c rq new_response = (ka1, rq1, rs1, acts1)"
      "count_request ka1 c (rs_code rs1) = (ka', acts2)" "acts = acts1 @ acts2"
proof -
  obtain ok rq0 where p: "parse_request H (new_request b) = Inr (ok, rq0)"
    using assms by (auto simp: recvMsgCallback_def bindR_eq_Inr)
  show thesis
  proof (cases ok)
    case False
    then show thesis using bad p assms by (auto simp: recvMsgCallback_def Let_def split: prod.splits)
  next
    case True
    obtain ka0 rq where o: "open_keepalive H sv ka c rq0 = (ka0, rq)" by fastforce
    obtain ret where f: "handleFileRequest H fs sv ka0 c rq new_response = Inr ret"
      using file_loop_total [of H fs sv ka0 c rq new_response "sv_baseDirs sv"]
      by (cases "rq_method rq = ''GET''") (auto simp: handleFileRequest_def)
    show thesis
    proof (cases ret)
      case None
      obtain ka1 rq1 rs1 acts1 where h: "handleRequest H fs sv ka0 c rq new_response = (ka1, rq1, rs1, acts1)"
        using prod_cases4 by blast
      obtain ka2 acts2 where k: "count_request ka1 c (rs_code rs1) = (ka2, acts2)" by fastforce
      show thesis
        by (rule route [of rq0 ka0 rq ka1 rq1 rs1 acts1 acts2])
          (use assms p True o f None h k in \<open>auto simp: recvMsgCallback_def Let_def\<close>)
    next
      case (Some r)
      obtain ka1 rs1 acts1 where r: "r = (ka1, rs1, acts1)" using prod_cases3 by blast
      obtain ka2 acts2 where k: "count_request ka1 c (rs_code rs1) = (ka2, acts2)" by fastforce
      show thesis
        by (rule mounted [of rq0 ka0 rq ka1 rs1 acts1 acts2])
          (use assms p True o f Some r k in \<open>auto simp: recvMsgCallback_def Let_def\<close>)
    qed
  qed
qed

lemma open_keepalive_path: "open_keepalive H sv ka c rq = (ka', rq') \<Longrightarrow> rq_path rq' = rq_path rq"
  by (auto simp: open_keepalive_def Let_def split: if_splits prod.splits)

lemma count_request_files: "count_request ka c code = (ka', acts) \<Longrightarrow> SendFile c' f n \<notin> set acts"
  by (auto simp: count_request_def Let_def split: if_splits prod.splits)

text \<open>
  C15: the server never sends a file outside the mounted directories. Whatever bytes arrive, a file that is sent
  goes to the connection they came from, is a regular file reached from a mount point whose
  prefix the request path has, by a path that does not climb out of the mounted directory, and
  the authorisation callback (if there is one) has accepted it; all of its bytes are sent.
\<close>

theorem only_mounted_files_served:
  assumes "handlers_ok sv" "recvMsgCallback H fs sv ka c b = Inr (ka', b', acts)" "SendFile c' file n \<in> set acts"
  shows "\<exists>rq. parse_request H (new_request b) = Inr (True, rq) \<and> c' = c \<and> n = getFileSize fs file \<and>
    may_serve fs sv (rq_path rq) file"
  using assms(2)
proof (cases rule: recvMsgCallback_cases)
  case (bad rq ka1 rs1 acts1)
  then have "SendFile c' file n \<in> set acts1" using assms(3) by auto
  from sendResponse_files [OF bad(2) this] show ?thesis by simp
next
  case (mounted rq0 rq ka0 ka1 rs1 acts1 acts2)
  then have s: "SendFile c' file n \<in> set acts1" using assms(3) count_request_files by auto
  have "file_loop H fs sv ka0 c rq new_response (sv_baseDirs sv) = Inr (Some (ka1, rs1, acts1))"
    using mounted(3) by (auto simp: handleFileRequest_def split: if_splits)
  from file_loop_files [OF this s] open_keepalive_path [OF mounted(2)] mounted(1) show ?thesis by simp
next
  case (route rq0 rq ka0 rq1 ka1 rs1 acts1 acts2)
  then have s: "SendFile c' file n \<in> set acts1" using assms(3) count_request_files by auto
  obtain rs0 where "sendResponse H fs sv ka0 c rs0 = (ka1, rs1, acts1)" "rs_writer rs0 = None"
    by (rule handleRequest_sends [OF route(3)]) (use assms(1) in auto)
  from sendResponse_files [OF this(1) s] this(2) show ?thesis by simp
qed

section \<open>Keep-alive\<close>

lemma count_request_effect:
  assumes "count_request ka c code = (ka', acts)" "ka c = Some (n, m)"
  shows "if code = 200 \<and> n + 1 < m then ka' = ka(c \<mapsto> (n + 1, m)) \<and> acts = []
    else ka' = ka(c := None) \<and> set acts = {ForceClose c}"
  using assms by (auto simp: count_request_def ka_entry_def split: if_splits)

lemma sendResponse_state:
  assumes "sendResponse H fs sv ka c rs = (ka', rs', acts)"
  shows "ka' = ka_touch ka c \<and> ForceClose d \<notin> set acts"
  using assms by (auto simp: sendResponse_def content_write_def Let_def split: option.splits if_splits)

lemma ka_touch_other [simp]: "d \<noteq> c \<Longrightarrow> ka_touch ka c d = ka d" "ka c = Some e \<Longrightarrow> ka_touch ka c = ka"
  by (auto simp: ka_touch_def ka_entry_def)

lemma open_keepalive_effect:
  assumes "open_keepalive H sv ka c rq = (ka', rq')"
  obtains n m where "ka' = ka(c \<mapsto> (n, m))" "case ka c of None \<Rightarrow> n = 0 \<and> m \<in> {0, sv_maxKeepAliveRequests sv} | Some e \<Rightarrow> (n, m) = e"
  using assms by (cases "ka c") (auto simp: open_keepalive_def Let_def map_upd_triv split: if_splits prod.splits)

lemma recv_keepalive:
  assumes "recvMsgCallback H fs sv ka c b = Inr (ka', b', acts)"
  shows "(\<forall>d. d \<noteq> c \<longrightarrow> ka' d = ka d) \<and>
    (if ForceClose c \<in> set acts then ka' c = None
     else \<exists>n m. ka' c = Some (n, m) \<and> n < m \<and>
       (case ka c of None \<Rightarrow> n = 1 \<and> m = sv_maxKeepAliveRequests sv | Some (n0, m0) \<Rightarrow> n = n0 + 1 \<and> m = m0))"
proof -
  have answered: ?thesis
    if o: "open_keepalive H sv ka c rq0 = (ka0, rq)" and s: "sendResponse H fs sv ka0 c rs0 = (ka1, rs1, acts1)"
      and k: "count_request ka1 c code = (ka', acts2)" and a: "acts = acts1 @ acts2" for rq0 ka0 rq rs0 ka1 rs1 acts1 code acts2
  proof -
    obtain n m where nm: "ka0 = ka(c \<mapsto> (n, m))"
      "case ka c of None \<Rightarrow> n = 0 \<and> m \<in> {0, sv_maxKeepAliveRequests sv} | Some e \<Rightarrow> (n, m) = e"
      by (rule open_keepalive_effect [OF o])
    have "ka1 = ka0" using sendResponse_state [OF s] nm(1) by simp
    with count_request_effect [of ka1 c code ka' acts2 n m] k nm(1)
    have "if code = 200 \<and> n + 1 < m then ka' = ka(c \<mapsto> (n + 1, m)) \<and> acts2 = [] else ka' = ka(c := None) \<and> set acts2 = {ForceClose c}"
      by simp
    moreover have "ForceClose c \<notin> set acts1" using sendResponse_state [OF s] by simp
    ultimately show ?thesis using nm(2) a by (cases "ka c") (auto split: if_splits)
  qed
  from assms show ?thesis
  proof (cases rule: recvMsgCallback_cases)
    case (bad rq ka1 rs1 acts1)
    from sendResponse_state [OF bad(2)] bad(3,4) show ?thesis by auto
  next
    case (mounted rq0 rq ka0 ka1 rs1 acts1 acts2)
    obtain rs0 where "sendResponse H fs sv ka0 c rs0 = (ka1, rs1, acts1)"
      using mounted(3) file_loop_sends by (fastforce simp: handleFileRequest_def split: if_splits)
    with mounted answered show ?thesis by blast
  next
    case (route rq0 rq ka0 rq1 ka1 rs1 acts1 acts2)
    obtain rs0 where "sendResponse H fs sv ka0 c rs0 = (ka1, rs1, acts1)" by (rule handleRequest_sends [OF route(3)])
    with route answered show ?thesis by blast
  qed
qed

text \<open>
  A connection that has stayed open through a number of answered messages, while messages of other
  connections of the same loop are answered in between.
\<close>

inductive kept :: "(string \<Rightarrow> nat) \<Rightarrow> file_system \<Rightarrow> server \<Rightarrow> conn \<Rightarrow> nat \<Rightarrow> keep_alive \<Rightarrow> bool"
  for H :: "string \<Rightarrow> nat" and fs :: file_system and sv :: server and c :: conn where
  kept_new: "ka c = None \<Longrightarrow> kept H fs sv c 0 ka"
| kept_msg: "kept H fs sv c n ka \<Longrightarrow> recvMsgCallback H fs sv ka c b = Inr (ka', b', acts) \<Longrightarrow>
    ForceClose c \<notin> set acts \<Longrightarrow> kept H fs sv c (Suc n) ka'"
| kept_other: "kept H fs sv c n ka \<Longrightarrow> d \<noteq> c \<Longrightarrow> recvMsgCallback H fs sv ka d b = Inr (ka', b', acts) \<Longrightarrow>
    kept H fs sv c n ka'"

text \<open>
  C18: the keep-alive limit is enforced. Take a connection that starts without an entry in the keep-alive table of its
  thread and whose messages, like those of other connections in between, are handled without an exception. As
  long as the server has not closed it, its counter is the number of messages answered on it and below the limit; so at
  the latest the message that reaches the limit makes the server close it.
\<close>

theorem keepalive_bounded:
  assumes "kept H fs sv c n ka"
  shows "if n = 0 then ka c = None
    else ka c = Some (int n, sv_maxKeepAliveRequests sv) \<and> int n < sv_maxKeepAliveRequests sv"
  using assms
proof induction
  case (kept_msg n ka b ka' b' acts)
  from recv_keepalive [OF kept_msg.hyps(2)] kept_msg.hyps(3) kept_msg.IH show ?case by (cases n) auto
next
  case (kept_other n ka d b ka' b' acts)
  from recv_keepalive [OF kept_other.hyps(3)] kept_other.hyps(2) kept_other.IH show ?case by auto
qed simp

section \<open>One response per message\<close>

lemma find_set_header:
  assumes "k \<noteq> []"
  shows "find_header H k (set_header H k v hs) = Some v"
proof (induction hs)
  case Nil
  show ?case using ci_same_lower [of k k] assms by (simp add: find_header_Cons header_match_def)
next
  case (Cons n hs)
  have "header_match H k (fst n, v) = header_match H k n" by (simp add: header_match_def)
  with Cons show ?case by (simp add: find_header_Cons)
qed

text \<open>The bytes that follow the head of a response: the body, or the file.\<close>

definition payload_length :: "file_system \<Rightarrow> response \<Rightarrow> nat" where
  "payload_length fs rs = (case rs_writer rs of None \<Rightarrow> length (rs_body rs) | Some (file, t) \<Rightarrow> getFileSize fs file)"

definition sent_files :: "file_system \<Rightarrow> conn \<Rightarrow> response \<Rightarrow> http_action list" where
  "sent_files fs c rs = (case rs_writer rs of None \<Rightarrow> [] | Some (file, t) \<Rightarrow> content_write c file (getFileSize fs file))"

lemma sendResponse_answer:
  assumes "sendResponse H fs sv ka c rs = (ka', rs', acts)"
  shows "acts = Send c (print_response rs') # sent_files fs c rs' \<and>
    (payload_length fs rs' > 0 \<longrightarrow> find_header H CONTENT_LENGTH (rs_headers rs') = Some (to_string (payload_length fs rs')))"
proof -
  have "CONTENT_LENGTH \<noteq> []" by (simp add: CONTENT_LENGTH_def)
  note f = find_set_header [OF this, of H]
  show ?thesis using assms
    by (auto simp: sendResponse_def response_headers_def payload_length_def sent_files_def f Let_def split: option.splits)
qed

lemma answer_form:
  assumes "recvMsgCallback H fs sv ka c b = Inr (ka', b', acts)"
  shows "\<exists>rs closes. acts = Send c (print_response rs) # sent_files fs c rs @ closes \<and> set closes \<subseteq> {ForceClose c} \<and>
    (0 < payload_length fs rs \<and> payload_length fs rs \<le> size_max \<longrightarrow>
       (\<exists>v. find_header H CONTENT_LENGTH (rs_headers rs) = Some v \<and> stoul v = Inr (payload_length fs rs)))"
proof -
  have answered: ?thesis if s: "sendResponse H fs sv ka0 c rs0 = (ka1, rs1, acts1)" and a: "acts = acts1 @ acts2"
    "set acts2 \<subseteq> {ForceClose c}" for ka0 rs0 ka1 rs1 acts1 acts2
    using sendResponse_answer [OF s] a stoul_to_string
    by (intro exI [of _ rs1] exI [of _ acts2]) auto
  have closes: "set acts2 \<subseteq> {ForceClose c}" if "count_request ka1 c code = (ka', acts2)" for ka1 code acts2
    using that by (auto simp: count_request_def Let_def split: if_splits prod.splits)
  from assms show ?thesis
  proof (cases rule: recvMsgCallback_cases)
    case (bad rq ka1 rs1 acts1)
    then show ?thesis by (intro answered [OF bad(2)]) auto
  next
    case (mounted rq0 rq ka0 ka1 rs1 acts1 acts2)
    obtain rs0 where "sendResponse H fs sv ka0 c rs0 = (ka1, rs1, acts1)"
      using mounted(3) file_loop_sends by (fastforce simp: handleFileRequest_def split: if_splits)
    with mounted answered closes show ?thesis by blast
  next
    case (route rq0 rq ka0 rq1 ka1 rs1 acts1 acts2)
    obtain rs0 where "sendResponse H fs sv ka0 c rs0 = (ka1, rs1, acts1)" by (rule handleRequest_sends [OF route(3)])
    with route answered closes show ?thesis by blast
  qed
qed

text \<open>
  C19: a message whose callback returns (the parser or a handler may throw instead, and then nothing is claimed)
  is answered by exactly one response on the connection it came from. The response comes first,
  then the file if there is one, then the close; and when the body or the file behind the head of the
  response is not empty, the response has a Content-Length header that reads as the number of bytes of it (for an
  empty one the server sets no such header).
\<close>

theorem one_response_per_message:
  assumes "recvMsgCallback H fs sv ka c b = Inr (ka', b', acts)"
  shows "\<exists>rs closes. acts = Send c (print_response rs) # sent_files fs c rs @ closes \<and> set closes \<subseteq> {ForceClose c} \<and>
    (0 < payload_length fs rs \<and> payload_length fs rs \<le> size_max \<longrightarrow>
       (\<exists>v. find_header H CONTENT_LENGTH (rs_headers rs) = Some v \<and> stoul v = Inr (payload_length fs rs)))"
  by (rule answer_form [OF assms])

section \<open>An example\<close>

text \<open>A server with one mounted directory, and a request for its index page.\<close>

definition example_fs :: file_system where
  "example_fs = [''www'' \<mapsto> Directory, ''www/index.html'' \<mapsto> RegularFile 5]"

definition example_server :: server where
  "example_server = snd (addMountPoint example_fs [] ''www'' [] HttpServer_new)"

definition example_get :: string where
  "example_get = print_head ''GET'' ''/'' ''HTTP/1.1'' [(''Content-Length'', ''0'')]"

definition example_get_buf :: msgbuf where
  "example_get_buf = \<lparr>mb_head = 0, mb_initCap = 8, mb_buffer = example_get, mb_tail = length example_get\<rparr>"

lemma example_get_parsed:
  "\<exists>rq. parse_request length (new_request example_get_buf) = Inr (True, rq) \<and> rq_method rq = ''GET'' \<and>
     rq_path rq = ''/'' \<and> rq_version rq = ''HTTP/1.1'' \<and> rq_headers rq = [(''Content-Length'', ''0'')]"
proof -
  have "wf_buf example_get_buf" "contents example_get_buf = example_get @ []"
    by (simp_all add: example_get_buf_def wf_buf_def contents_def example_get_def print_head_def print_header_def CRLF_def)
  moreover have "plain_request length ''GET'' ''/'' ''HTTP/1.1'' [(''Content-Length'', ''0'')]"
    by (simp add: plain_request_def methods_def plain_path_def plain_header_def isSpaceOrTab_def)
  moreover have "find_header length CONTENT_LENGTH [(''Content-Length'', ''0'')] = Some ''0''"
    "find_header length CONTENT_TYPE [(''Content-Length'', ''0'')] = None"
    by code_simp+
  moreover have "stoul ''0'' = Inr 0"
    by (simp add: stoul_def is_space_def is_digit_def digits_value_def Let_def)
  ultimately show ?thesis
    using parse_printed [of example_get_buf "''GET''" "''/''" "''HTTP/1.1''" "[(''Content-Length'', ''0'')]"
        "[]" length "''0''"]
    by (auto simp: example_get_def)
qed

lemma example_server_mounts:
  "sv_baseDirs example_server = [\<lparr>mt_mountPoint = ''/'', mt_baseDir = ''www'', mt_headers = []\<rparr>]"
  "sv_maxKeepAliveRequests example_server = 100" "sv_fileAuth example_server = None" "handlers_ok example_server"
  by (simp_all add: example_server_def addMountPoint_def isDir_def example_fs_def HttpServer_new_def handlers_ok_def Let_def)

definition example_response :: response where
  "example_response =
     (let rs = \<lparr>rs_version = ''HTTP/1.1'', rs_code = 200, rs_description = status_description 200, rs_headers = [], rs_body = [],
        rs_writer = Some (''www/index.html'', findContentType ''www/index.html'')\<rparr>
      in rs\<lparr>rs_headers := response_headers length example_fs example_server 100 rs\<rparr>)"

lemma set_header_length:
  "length (concat (map (\<lambda>h. fst h @ '': '' @ snd h @ CRLF) (set_header H k v hs))) \<le>
     length (concat (map (\<lambda>h. fst h @ '': '' @ snd h @ CRLF) hs)) + length k + length v + 4"
  by (induction hs) (auto simp: CRLF_def)

lemma findContentType_length: "length (findContentType p) \<le> 100"
proof -
  have "list_all (\<lambda>e. length (snd e) \<le> 100) content_types" by (simp add: content_types_def)
  then show ?thesis by (fastforce simp: findContentType_def Let_def list_all_iff find_Some_iff split: option.splits dest: nth_mem)
qed

lemma example_response_length: "length (print_response example_response) \<le> vec_max"
proof -
  let ?p = "\<lambda>hs. length (concat (map (\<lambda>h. fst h @ '': '' @ snd h @ CRLF) hs))"
  let ?t = "findContentType ''www/index.html''"
  let ?h = "set_header length CONTENT_TYPE ?t [(SERVER, SERVER_VALUE)]"
  have h: "rs_headers example_response = set_header length CONTENT_LENGTH (to_string 5) ?h"
    by (simp add: example_response_def response_headers_def Let_def getFileSize_def example_fs_def del: to_string.simps)
  have t: "length (to_string 5) \<le> 5" "length (to_string 200) \<le> 5" using to_string_length [of _ 5] by simp_all
  have "?p (rs_headers example_response) \<le> ?p [(SERVER, SERVER_VALUE)] + length CONTENT_TYPE + length ?t + length CONTENT_LENGTH + length (to_string 5) + 8"
    using set_header_length [of length CONTENT_LENGTH "to_string 5" ?h] set_header_length [of length CONTENT_TYPE ?t "[(SERVER, SERVER_VALUE)]"]
    unfolding h by linarith
  also have "\<dots> \<le> 1000"
    using t(1) findContentType_length [of "''www/index.html''"]
    by (simp add: CONTENT_LENGTH_def CONTENT_TYPE_def SERVER_def SERVER_VALUE_def CRLF_def del: to_string.simps)
  finally have "?p (rs_headers example_response) \<le> 1000" .
  moreover have "rs_version example_response = ''HTTP/1.1''" "rs_code example_response = 200" "rs_description example_response = ''OK''"
    "rs_body example_response = []"
    by (simp_all add: example_response_def Let_def status_description_def status_table_def)
  ultimately show ?thesis using t(2) by (simp add: print_response_def to_string_int_def CRLF_def del: to_string.simps)
qed

lemma example_answer:
  "\<exists>ka' b' res. recvMsgCallback length example_fs example_server Map.empty 7 example_get_buf =
     Inr (ka', b', [Send 7 res, SendFile 7 ''www/index.html'' 5]) \<and> length res \<le> vec_max"
proof -
  obtain rq where rq: "parse_request length (new_request example_get_buf) = Inr (True, rq)" "rq_method rq = ''GET''"
    "rq_path rq = ''/''" "rq_version rq = ''HTTP/1.1''" "rq_headers rq = [(''Content-Length'', ''0'')]"
    using example_get_parsed by blast
  have "\<not> header_match length CONNECTION (''Content-Length'', ''0'')" by code_simp
  then have ix: "index_header length CONNECTION (rq_headers rq) = ([], [(''Content-Length'', ''0''), (CONNECTION, [])])"
    by (simp add: index_header_def find_header_Cons rq(5))
  have o: "open_keepalive length example_server Map.empty 7 rq =
      ([7 \<mapsto> (0, 100)], rq\<lparr>rq_headers := [(''Content-Length'', ''0''), (CONNECTION, [])]\<rparr>)"
    using rq(4) ix by (simp add: open_keepalive_def example_server_mounts CONNECTION_CLOSE_def Let_def)
  have v: "isValidPath ''/'' = Inr True" by (simp add: isValidPath_resolve)
  have f: "isFile example_fs ''www/index.html''" "getFileSize example_fs ''www/index.html'' = 5"
    by (simp_all add: isFile_def getFileSize_def example_fs_def)
  show ?thesis unfolding recvMsgCallback_def rq(1)
    using example_response_length unfolding example_response_def
    by (simp add: o handleFileRequest_def rq example_server_mounts v mounted_path_def f sendResponse_def content_write_def
        new_response_def set_status_def count_request_def ka_touch_def ka_entry_def Let_def)
qed

theorem only_mounted_files_served_witness:
  "\<exists>rq. parse_request length (new_request example_get_buf) = Inr (True, rq) \<and> 5 = getFileSize example_fs ''www/index.html'' \<and> may_serve example_fs example_server (rq_path rq) ''www/index.html''"
proof -
  obtain ka' b' res where "recvMsgCallback length example_fs example_server Map.empty 7 example_get_buf =
     Inr (ka', b', [Send 7 res, SendFile 7 ''www/index.html'' 5])" using example_answer by blast
  from only_mounted_files_served [OF example_server_mounts(4) this] show ?thesis by simp
qed

theorem keepalive_bounded_witness:
  "\<exists>ka. kept length example_fs example_server 7 1 ka \<and> ka 7 = Some (1, 100)"
proof -
  obtain ka' b' res where "recvMsgCallback length example_fs example_server Map.empty 7 example_get_buf =
     Inr (ka', b', [Send 7 res, SendFile 7 ''www/index.html'' 5])" using example_answer by blast
  then have "kept length example_fs example_server 7 (Suc 0) ka'"
    by (intro kept_msg [of length example_fs example_server 7 0 Map.empty]) (auto intro: kept_new)
  from this keepalive_bounded [OF this] show ?thesis by (auto simp: example_server_mounts)
qed

theorem one_response_per_message_witness:
  "\<exists>ka' b' rs v. recvMsgCallback length example_fs example_server Map.empty 7 example_get_buf =
       Inr (ka', b', [Send 7 (print_response rs), SendFile 7 ''www/index.html'' 5]) \<and>
     find_header length CONTENT_LENGTH (rs_headers rs) = Some v \<and> stoul v = Inr 5"
proof -
  obtain ka' b' res where r: "recvMsgCallback length example_fs example_server Map.empty 7 example_get_buf =
     Inr (ka', b', [Send 7 res, SendFile 7 ''www/index.html'' 5])" using example_answer by blast
  from one_response_per_message [OF this] obtain rs closes where
    rs: "[Send 7 res, SendFile 7 ''www/index.html'' 5] = Send 7 (print_response rs) # sent_files example_fs 7 rs @ closes"
    "set closes \<subseteq> {ForceClose 7}"
    and v: "0 < payload_length example_fs rs \<and> payload_length example_fs rs \<le> size_max \<longrightarrow>
      (\<exists>v. find_header length CONTENT_LENGTH (rs_headers rs) = Some v \<and> stoul v = Inr (payload_length example_fs rs))" by blast
  from rs have "sent_files example_fs 7 rs = [SendFile 7 ''www/index.html'' 5]"
    by (cases "sent_files example_fs 7 rs") auto
  then have "payload_length example_fs rs = 5"
    by (auto simp: sent_files_def payload_length_def content_write_def split: option.splits if_splits)
  with v r rs(1) show ?thesis by auto
qed

end
