(* ===== verification/TLS.thy ===== *)
theory TLS
  imports Cooper_Prelude Utilities
begin

text \<open>
  The TLS layer apart from the connection (\<^verbatim>\<open>cooper/net/TLSPolicy.hpp\<close>, \<^verbatim>\<open>OpenSSLProvider.cpp\<close>): policies, the
  validation of peer certificates, the choice of an application protocol, the cache of client
  sessions and the configuration of a context. OpenSSL is not part of the repository: what it reports is
  an argument, the calls made to it are a list.
\<close>

section \<open>Policies\<close>

record tls_policy =
  pl_confCmds :: "(string \<times> string) list"
  pl_hostname :: string
  pl_certPath :: string
  pl_keyPath :: string
  pl_caPath :: string
  pl_alpnProtocols :: "string list"
  pl_useOldTLS :: bool
  pl_validate :: bool
  pl_allowBrokenChain :: bool
  pl_useSystemCertStore :: bool

definition TLSPolicy_new :: tls_policy where
  "TLSPolicy_new = \<lparr>pl_confCmds = [], pl_hostname = [], pl_certPath = [], pl_keyPath = [], pl_caPath = [],
     pl_alpnProtocols = [], pl_useOldTLS = False, pl_validate = True, pl_allowBrokenChain = False,
     pl_useSystemCertStore = True\<rparr>"

definition setConfCmds :: "(string \<times> string) list \<Rightarrow> tls_policy \<Rightarrow> tls_policy" where
  "setConfCmds cmds p = p\<lparr>pl_confCmds := cmds\<rparr>"

definition setHostname :: "string \<Rightarrow> tls_policy \<Rightarrow> tls_policy" where
  "setHostname hostname p = p\<lparr>pl_hostname := hostname\<rparr>"

definition setCertPath :: "string \<Rightarrow> tls_policy \<Rightarrow> tls_policy" where
  "setCertPath certPath p = p\<lparr>pl_certPath := certPath\<rparr>"

definition setKeyPath :: "string \<Rightarrow> tls_policy \<Rightarrow> tls_policy" where
  "setKeyPath keyPath p = p\<lparr>pl_keyPath := keyPath\<rparr>"

definition setCaPath :: "string \<Rightarrow> tls_policy \<Rightarrow> tls_policy" where
  "setCaPath caPath p = p\<lparr>pl_caPath := caPath\<rparr>"

definition setUseOldTLS :: "bool \<Rightarrow> tls_policy \<Rightarrow> tls_policy" where
  "setUseOldTLS useOldTLS p = p\<lparr>pl_useOldTLS := useOldTLS\<rparr>"

definition setAlpnProtocols :: "string list \<Rightarrow> tls_policy \<Rightarrow> tls_policy" where
  "setAlpnProtocols protocols p = p\<lparr>pl_alpnProtocols := protocols\<rparr>"

definition setUseSystemCertStore :: "bool \<Rightarrow> tls_policy \<Rightarrow> tls_policy" where
  "setUseSystemCertStore b p = p\<lparr>pl_useSystemCertStore := b\<rparr>"

definition setValidate :: "bool \<Rightarrow> tls_policy \<Rightarrow> tls_policy" where
  "setValidate enable p = p\<lparr>pl_validate := enable\<rparr>"

definition setAllowBrokenChain :: "bool \<Rightarrow> tls_policy \<Rightarrow> tls_policy" where
  "setAllowBrokenChain allow p = p\<lparr>pl_allowBrokenChain := allow\<rparr>"

definition defaultServerPolicy :: "string \<Rightarrow> string \<Rightarrow> tls_policy" where
  "defaultServerPolicy certPath keyPath =
     setKeyPath keyPath (setCertPath certPath (setUseSystemCertStore False (setUseOldTLS False (setValidate False TLSPolicy_new))))"

definition defaultClientPolicy :: "string \<Rightarrow> tls_policy" where
  "defaultClientPolicy hostname =
     setHostname hostname (setUseSystemCertStore True (setUseOldTLS False (setValidate True TLSPolicy_new)))"

section \<open>Validation of the peer certificate\<close>

text \<open>
  What OpenSSL reports of a certificate: the subject (\<open>None\<close> for a null pointer) with its common name
  (\<open>None\<close> when the length is -1), and the alternative names.
\<close>

datatype general_name = GEN_DNS string | GEN_OTHER

record certificate =
  ct_subject :: "string option option"
  ct_altNames :: "general_name list option"

definition verifyCommonName :: "certificate \<Rightarrow> string \<Rightarrow> bool" where
  "verifyCommonName cert hostname =
     (case ct_subject cert of
        Some (Some name) \<Rightarrow> verifySslName name hostname
      | Some None \<Rightarrow> False
      | None \<Rightarrow> False)"

fun alt_loop :: "string \<Rightarrow> general_name list \<Rightarrow> bool" where
  "alt_loop hostname [] = False"
| "alt_loop hostname (GEN_OTHER # ns) = alt_loop hostname ns"
| "alt_loop hostname (GEN_DNS name # ns) = (if verifySslName name hostname then True else alt_loop hostname ns)"

definition verifyAltName :: "certificate \<Rightarrow> string \<Rightarrow> bool" where
  "verifyAltName cert hostname = (case ct_altNames cert of None \<Rightarrow> False | Some ns \<Rightarrow> alt_loop hostname ns)"

abbreviation X509_V_OK :: int where "X509_V_OK \<equiv> 0"
abbreviation X509_V_ERR_CERT_NOT_YET_VALID :: int where "X509_V_ERR_CERT_NOT_YET_VALID \<equiv> 9"
abbreviation X509_V_ERR_CERT_HAS_EXPIRED :: int where "X509_V_ERR_CERT_HAS_EXPIRED \<equiv> 10"

text \<open>The first argument is the answer of \<^verbatim>\<open>SSL_get_verify_result\<close>.\<close>

definition validatePeerCertificate :: "int \<Rightarrow> certificate \<Rightarrow> string \<Rightarrow> bool \<Rightarrow> bool \<Rightarrow> bool" where
  "validatePeerCertificate verifyResult cert hostname allowBrokenChain isServer =
     (if isServer \<and> \<not> (verifyCommonName cert hostname \<or> verifyAltName cert hostname) then False
      else if verifyResult = X509_V_ERR_CERT_NOT_YET_VALID \<or> verifyResult = X509_V_ERR_CERT_HAS_EXPIRED then False
      else if verifyResult \<noteq> X509_V_OK \<and> \<not> allowBrokenChain then False
      else True)"

section \<open>The choice of an application protocol\<close>

text \<open>
  \<^verbatim>\<open>cur\<close> is an index into the input. The inner loop is left with a decision (\<open>Some\<close>: no
  acknowledgement, or the position and length of the choice) or at the end of the input.
\<close>

datatype alpn_result = ALPN_NOACK | ALPN_OK nat nat

function select_loop :: "byte list \<Rightarrow> string \<Rightarrow> nat \<Rightarrow> alpn_result option" where
  "select_loop inp protocol cur =
     (if cur < length inp
      then (let len = of_char (inp ! cur) :: nat; cur = Suc cur in
            if cur + len > length inp then Some ALPN_NOACK
            else if length protocol = len \<and> take len (drop cur inp) = protocol then Some (ALPN_OK cur len)
            else select_loop inp protocol cur)
      else None)"
  by pat_completeness auto
termination
  by (relation "measure (\<lambda>(inp, protocol, cur). length inp - cur)") auto

declare select_loop.simps [simp del]

fun select_protocols :: "byte list \<Rightarrow> string list \<Rightarrow> alpn_result" where
  "select_protocols inp [] = ALPN_NOACK"
| "select_protocols inp (p # ps) = (case select_loop inp p 0 of Some r \<Rightarrow> r | None \<Rightarrow> select_protocols inp ps)"

definition serverSelectProtocol :: "byte list \<Rightarrow> string list \<Rightarrow> alpn_result" where
  "serverSelectProtocol inp protocols = (if protocols = [] then ALPN_NOACK else select_protocols inp protocols)"

text \<open>The list a client sends, as \<^verbatim>\<open>OpenSSLProvider::startEncryption\<close> builds it.\<close>

definition alpn_list :: "string list \<Rightarrow> byte list" where
  "alpn_list protos = concat (map (\<lambda>p. char_of (length p mod 256) # p) protos)"

section \<open>The session cache\<close>

text \<open>
  A node of the list \<^verbatim>\<open>sessions_\<close> carries an address, the iterator that the map stores, and the loop whose timer
  brings its expiry. Sessions and loops are numbers, and the number of a loop is also that of its thread;
  \<open>sm_refs\<close> is the number of references the cache holds, \<open>sm_timers\<close> are the valid timers: number, loop, and
  the key whose expiry they bring. \<open>sm_queues\<close> are the functions that \<^verbatim>\<open>addTimer\<close> and \<^verbatim>\<open>invalidateTimer\<close>
  have queued for a loop from another thread and that the loop has not run yet. The numbers of timers are unique in
  the program (\<^verbatim>\<open>Timer::timersCreated_\<close>). The loops are assumed to live as long as the cache uses them.
\<close>

datatype timer_fn = AddTimerFn nat string | EraseTimerFn nat

record session_data =
  sd_addr :: nat
  sd_session :: nat
  sd_key :: string
  sd_timer :: nat
  sd_loop :: nat

record session_manager =
  sm_sessions :: "session_data list"
  sm_map :: "string \<rightharpoonup> nat"
  sm_refs :: "nat \<Rightarrow> int"
  sm_timers :: "(nat \<times> nat \<times> string) list"
  sm_queues :: "nat \<Rightarrow> timer_fn list"
  sm_next :: nat

abbreviation maxSessions :: nat where "maxSessions \<equiv> 150"
abbreviation mexExtendSize :: nat where "mexExtendSize \<equiv> 20"

definition SessionManager_new :: session_manager where
  "SessionManager_new = \<lparr>sm_sessions = [], sm_map = Map.empty, sm_refs = (\<lambda>_. 0), sm_timers = [],
     sm_queues = (\<lambda>_. []), sm_next = 0\<rparr>"

definition session_at :: "session_manager \<Rightarrow> nat \<Rightarrow> session_data option" where
  "session_at m a = List.find (\<lambda>d. sd_addr d = a) (sm_sessions m)"

definition free_session :: "nat \<Rightarrow> session_manager \<Rightarrow> session_manager" where
  "free_session s m = m\<lparr>sm_refs := (sm_refs m)(s := sm_refs m s - 1)\<rparr>"

definition erase_node :: "session_data \<Rightarrow> session_manager \<Rightarrow> session_manager" where
  "erase_node d m = m\<lparr>sm_sessions := filter (\<lambda>x. sd_addr x \<noteq> sd_addr d) (sm_sessions m)\<rparr>"

text \<open>What the two operations on timers do in the thread of the loop, and how they get there from thread \<open>me\<close>.\<close>

fun run_timer_fn :: "nat \<Rightarrow> timer_fn \<Rightarrow> session_manager \<Rightarrow> session_manager" where
  "run_timer_fn loop (AddTimerFn t key) m = m\<lparr>sm_timers := (t, loop, key) # sm_timers m\<rparr>"
| "run_timer_fn loop (EraseTimerFn t) m = m\<lparr>sm_timers := filter (\<lambda>x. \<not> (fst x = t \<and> fst (snd x) = loop)) (sm_timers m)\<rparr>"

definition in_loop_of :: "nat \<Rightarrow> nat \<Rightarrow> timer_fn \<Rightarrow> session_manager \<Rightarrow> session_manager" where
  "in_loop_of me loop f m =
     (if me = loop then run_timer_fn loop f m
      else m\<lparr>sm_queues := (sm_queues m)(loop := sm_queues m loop @ [f])\<rparr>)"

text \<open>A loop runs the first function of its queue.\<close>

definition run_queued_fn :: "nat \<Rightarrow> session_manager \<Rightarrow> session_manager" where
  "run_queued_fn loop m =
     (case sm_queues m loop of
        [] \<Rightarrow> m
      | f # fs \<Rightarrow> run_timer_fn loop f (m\<lparr>sm_queues := (sm_queues m)(loop := fs)\<rparr>))"

text \<open>\<^verbatim>\<open>EventLoop::invalidateTimer\<close> does nothing when the loop is not running.\<close>

definition stop_timer :: "(nat \<Rightarrow> bool) \<Rightarrow> nat \<Rightarrow> session_data \<Rightarrow> session_manager \<Rightarrow> session_manager" where
  "stop_timer running me d m =
     (if running (sd_loop d) then in_loop_of me (sd_loop d) (EraseTimerFn (sd_timer d)) m else m)"

definition erase_key :: "string \<Rightarrow> session_manager \<Rightarrow> session_manager" where
  "erase_key k m = m\<lparr>sm_map := (sm_map m)(k := None)\<rparr>"

definition toKey :: "string \<Rightarrow> string \<Rightarrow> string" where
  "toKey hostname ipPort = hostname @ ipPort"

definition session_get :: "string \<Rightarrow> string \<Rightarrow> session_manager \<Rightarrow> nat option" where
  "session_get hostname ipPort m =
     (case sm_map m (toKey hostname ipPort) of
        None \<Rightarrow> None
      | Some a \<Rightarrow> map_option sd_session (session_at m a))"

definition removeExcessSession :: "(nat \<Rightarrow> bool) \<Rightarrow> nat \<Rightarrow> session_manager \<Rightarrow> session_manager" where
  "removeExcessSession running me m =
     (if length (sm_sessions m) < maxSessions + mexExtendSize then m
      else if length (sm_sessions m) > maxSessions
      then (let d = last (sm_sessions m)
            in erase_node d (erase_key (sd_key d) (stop_timer running me d (free_session (sd_session d) m))))
      else m)"

definition drop_old :: "(nat \<Rightarrow> bool) \<Rightarrow> nat \<Rightarrow> string \<Rightarrow> session_manager \<Rightarrow> session_manager result" where
  "drop_old running me key m =
     (case sm_map m key of
        None \<Rightarrow> Inr m
      | Some a \<Rightarrow>
          (case session_at m a of
             None \<Rightarrow> Inl OutOfBounds
           | Some d \<Rightarrow> Inr (erase_key key (erase_node d (stop_timer running me d (free_session (sd_session d) m))))))"

text \<open>The part of \<^verbatim>\<open>store\<close> under its own lock, in thread \<open>me\<close> and for the loop \<open>loop\<close>; \<open>running\<close> tells which
  loops are running. \<^verbatim>\<open>removeExcessSession\<close> then takes the lock again.\<close>

definition store_locked ::
    "(nat \<Rightarrow> bool) \<Rightarrow> nat \<Rightarrow> nat \<Rightarrow> string \<Rightarrow> nat \<Rightarrow> session_manager \<Rightarrow> session_manager result" where
  "store_locked running me loop key s m =
     bindR (drop_old running me key m) (\<lambda>m.
       let n = sm_next m;
           m = in_loop_of me loop (AddTimerFn n key) (m\<lparr>sm_refs := (sm_refs m)(s := sm_refs m s + 1), sm_next := Suc n\<rparr>)
       in Inr (m\<lparr>sm_sessions := \<lparr>sd_addr = n, sd_session = s, sd_key = key, sd_timer = n, sd_loop = loop\<rparr> # sm_sessions m,
                 sm_map := (sm_map m)(key \<mapsto> n)\<rparr>))"

definition session_store ::
    "(nat \<Rightarrow> bool) \<Rightarrow> nat \<Rightarrow> nat \<Rightarrow> string \<Rightarrow> string \<Rightarrow> nat \<Rightarrow> session_manager \<Rightarrow> session_manager result" where
  "session_store running me loop hostname ipPort s m =
     bindR (store_locked running me loop (toKey hostname ipPort) s m) (\<lambda>m. Inr (removeExcessSession running me m))"

text \<open>The function that the timer of a session runs.\<close>

definition session_expire :: "nat \<times> nat \<times> string \<Rightarrow> session_manager \<Rightarrow> session_manager result" where
  "session_expire t m =
     (let m = m\<lparr>sm_timers := filter (\<lambda>x. x \<noteq> t) (sm_timers m)\<rparr>; key = snd (snd t) in
      case sm_map m key of
        None \<Rightarrow> Inr m
      | Some a \<Rightarrow>
          (case session_at m a of
             None \<Rightarrow> Inl OutOfBounds
           | Some d \<Rightarrow> Inr (erase_key key (erase_node d (free_session (sd_session d) m)))))"

section \<open>Configuration of a context\<close>

text \<open>
  The calls to OpenSSL that set up a context, in the order of the code; an argument tells which of them succeed.
  Only some of the answers are looked at: those of \<^verbatim>\<open>SSL_CONF_cmd\<close>, \<^verbatim>\<open>SSL_CTX_set_min_proto_version\<close> and
  \<^verbatim>\<open>SSL_CTX_set_default_verify_paths\<close> are ignored.
\<close>

datatype ssl_call =
    CtxNew
  | SetMinProtoTLS12
  | ConfCmd string string
  | UseCertificateChainFile string
  | UsePrivateKeyFile string
  | CheckPrivateKey
  | SetDefaultVerifyPaths
  | LoadVerifyLocations string
  | LoadClientCAFile string
  | SetClientCAList string
  | SetVerifyPeerFailIfNone
  | StoreLoadLocations string
  | SetCertStore string
  | SetAlpnSelect "string list"
  | SetSessionCacheOff
  | SetCipherList string

type_synonym config = "string + ssl_call list"

text \<open>A call that must succeed: the first argument tells which calls OpenSSL answers with success.\<close>

definition require :: "(ssl_call \<Rightarrow> bool) \<Rightarrow> ssl_call \<Rightarrow> string \<Rightarrow> ssl_call list \<Rightarrow> config" where
  "require ans call err calls = (if ans call then Inr (calls @ [call]) else Inl err)"

definition bindC :: "config \<Rightarrow> (ssl_call list \<Rightarrow> config) \<Rightarrow> config" where
  "bindC m f = (case m of Inl e \<Rightarrow> Inl e | Inr calls \<Rightarrow> f calls)"

definition SSLContext_new :: "(ssl_call \<Rightarrow> bool) \<Rightarrow> bool \<Rightarrow> (string \<times> string) list \<Rightarrow> config" where
  "SSLContext_new ans useOldTLS cmds =
     bindC (require ans CtxNew ''Failed to create SSL context'' [])
       (\<lambda>c. Inr (c @ map (\<lambda>c. ConfCmd (fst c) (snd c)) cmds @ (if \<not> useOldTLS then [SetMinProtoTLS12] else [])))"

definition cipher_list :: string where
  "cipher_list = ''MEDIUM:HIGH:!aNULL!MD5:!RC4!3DES''"

definition newSSLContext :: "(ssl_call \<Rightarrow> bool) \<Rightarrow> tls_policy \<Rightarrow> bool \<Rightarrow> config" where
  "newSSLContext ans policy isServer =
     bindC (SSLContext_new ans (pl_useOldTLS policy) (pl_confCmds policy)) (\<lambda>c.
     bindC (if pl_certPath policy \<noteq> [] \<and> pl_keyPath policy \<noteq> []
            then bindC (require ans (UseCertificateChainFile (pl_certPath policy))
                         (''Failed to load certificate '' @ pl_certPath policy) c)
                   (\<lambda>c. bindC (require ans (UsePrivateKeyFile (pl_keyPath policy)) ''Failed to load private key'' c)
                   (require ans CheckPrivateKey ''Private key does not match the certificate public key''))
            else Inr c)
     (\<lambda>c. let c = (if pl_validate policy \<and> pl_useSystemCertStore policy then c @ [SetDefaultVerifyPaths] else c) in
     bindC (if pl_caPath policy = [] then Inr c
            else if isServer
            then bindC (require ans (LoadVerifyLocations (pl_caPath policy)) ''Failed to load CA certificate'' c)
                   (\<lambda>c. bindC (require ans (LoadClientCAFile (pl_caPath policy)) ''Not CA names found in file'' c)
                   (\<lambda>c. Inr (c @ [SetClientCAList (pl_caPath policy), SetVerifyPeerFailIfNone])))
            else bindC (require ans (StoreLoadLocations (pl_caPath policy)) ''Failed to load CA certificate'' c)
                   (\<lambda>c. Inr (c @ [SetCertStore (pl_caPath policy)])))
     (\<lambda>c. let c = (if pl_alpnProtocols policy \<noteq> [] \<and> isServer then c @ [SetAlpnSelect (pl_alpnProtocols policy)] else c);
              c = (if \<not> isServer then c @ [SetSessionCacheOff] else c)
          in require ans (SetCipherList cipher_list) ''Failed to select secure ciphers'' c)))"

section \<open>The cache stays consistent\<close>

lemma count_without:
  assumes "distinct (map f xs)" "d \<in> set xs"
  shows "length (filter P xs) = length (filter P (filter (\<lambda>x. f x \<noteq> f d) xs)) + (if P d then 1 else 0)"
  using assms
proof (induction xs)
  case (Cons x xs)
  show ?case
  proof (cases "x = d")
    case True
    then have "f y \<noteq> f d" if "y \<in> set xs" for y using Cons.prems(1) that by (metis distinct.simps(2) image_eqI list.set_map list.simps(9))
    then have "filter (\<lambda>y. f y \<noteq> f d) xs = xs" by (simp add: filter_id_conv)
    with True show ?thesis by simp
  next
    case False
    with Cons.prems have "f x \<noteq> f d" by auto
    with False Cons show ?thesis by auto
  qed
qed simp

lemma distinct_map_inj: "distinct (map f xs) \<Longrightarrow> x \<in> set xs \<Longrightarrow> y \<in> set xs \<Longrightarrow> f x = f y \<Longrightarrow> x = y"
  by (auto simp: distinct_map inj_on_def)

text \<open>Every entry has its timer, in its loop or on its way there, and nothing on its way that would cancel it. There
  may be other timers: those of entries that are gone and that were not, or not yet, cancelled.\<close>

definition timer_ok :: "session_manager \<Rightarrow> session_data \<Rightarrow> bool" where
  "timer_ok m d \<longleftrightarrow>
     ((sd_timer d, sd_loop d, sd_key d) \<in> set (sm_timers m) \<or> AddTimerFn (sd_timer d) (sd_key d) \<in> set (sm_queues m (sd_loop d))) \<and>
     (\<forall>l. EraseTimerFn (sd_timer d) \<notin> set (sm_queues m l)) \<and>
     (\<forall>l k. (sd_timer d, l, k) \<in> set (sm_timers m) \<longrightarrow> k = sd_key d) \<and>
     (\<forall>l k. AddTimerFn (sd_timer d) k \<in> set (sm_queues m l) \<longrightarrow> k = sd_key d)"

text \<open>No timer has a number that is still to be given out.\<close>

definition timers_old :: "session_manager \<Rightarrow> bool" where
  "timers_old m \<longleftrightarrow> (\<forall>x \<in> set (sm_timers m). fst x < sm_next m) \<and>
     (\<forall>l k t. AddTimerFn t k \<in> set (sm_queues m l) \<longrightarrow> t < sm_next m) \<and>
     (\<forall>l t. EraseTimerFn t \<in> set (sm_queues m l) \<longrightarrow> t < sm_next m)"

definition sm_inv :: "session_manager \<Rightarrow> bool" where
  "sm_inv m \<longleftrightarrow> distinct (map sd_addr (sm_sessions m)) \<and> distinct (map sd_key (sm_sessions m)) \<and>
     (\<forall>k a. sm_map m k = Some a \<longleftrightarrow> (\<exists>d \<in> set (sm_sessions m). sd_key d = k \<and> sd_addr d = a)) \<and>
     (\<forall>s. sm_refs m s = int (length (filter (\<lambda>d. sd_session d = s) (sm_sessions m)))) \<and>
     (\<forall>d \<in> set (sm_sessions m). sd_addr d < sm_next m \<and> sd_timer d = sd_addr d) \<and>
     (\<forall>d \<in> set (sm_sessions m). timer_ok m d) \<and> timers_old m"

lemma sm_invD:
  assumes "sm_inv m"
  shows "distinct (map sd_addr (sm_sessions m))" "distinct (map sd_key (sm_sessions m))"
    "sm_map m k = Some a \<longleftrightarrow> (\<exists>d \<in> set (sm_sessions m). sd_key d = k \<and> sd_addr d = a)"
    "sm_refs m s = int (length (filter (\<lambda>d. sd_session d = s) (sm_sessions m)))"
    "d \<in> set (sm_sessions m) \<Longrightarrow> sd_addr d < sm_next m \<and> sd_timer d = sd_addr d"
    "d \<in> set (sm_sessions m) \<Longrightarrow> timer_ok m d" "timers_old m"
  using assms by (auto simp: sm_inv_def)

lemma run_timer_fn_sel [simp]:
  "sm_sessions (run_timer_fn l f m) = sm_sessions m" "sm_map (run_timer_fn l f m) = sm_map m"
  "sm_refs (run_timer_fn l f m) = sm_refs m" "sm_queues (run_timer_fn l f m) = sm_queues m"
  "sm_next (run_timer_fn l f m) = sm_next m"
  by (cases f; simp)+

lemma in_loop_of_sel [simp]:
  "sm_sessions (in_loop_of me l f m) = sm_sessions m" "sm_map (in_loop_of me l f m) = sm_map m"
  "sm_refs (in_loop_of me l f m) = sm_refs m" "sm_next (in_loop_of me l f m) = sm_next m"
  by (simp_all add: in_loop_of_def)

lemma stop_timer_sel [simp]:
  "sm_sessions (stop_timer r me d m) = sm_sessions m" "sm_map (stop_timer r me d m) = sm_map m"
  "sm_refs (stop_timer r me d m) = sm_refs m" "sm_next (stop_timer r me d m) = sm_next m"
  by (simp_all add: stop_timer_def)

text \<open>What the operations on timers do to the timer of an entry.\<close>

lemma timer_ok_cong:
  "sm_timers m' = sm_timers m \<Longrightarrow> sm_queues m' = sm_queues m \<Longrightarrow> timer_ok m' d = timer_ok m d"
  by (simp add: timer_ok_def)

lemma timers_old_cong:
  "sm_timers m' = sm_timers m \<Longrightarrow> sm_queues m' = sm_queues m \<Longrightarrow> sm_next m' = sm_next m \<Longrightarrow> timers_old m' = timers_old m"
  by (simp add: timers_old_def)

lemma timer_ok_erase:
  "timer_ok m d \<Longrightarrow> sd_timer d \<noteq> t \<Longrightarrow> timer_ok (in_loop_of me l (EraseTimerFn t) m) d"
  by (auto simp: timer_ok_def in_loop_of_def)

lemma timer_ok_stop: "timer_ok m x \<Longrightarrow> sd_timer x \<noteq> sd_timer d \<Longrightarrow> timer_ok (stop_timer r me d m) x"
  by (simp add: stop_timer_def timer_ok_erase)

lemma timers_old_stop: "timers_old m \<Longrightarrow> sd_timer d < sm_next m \<Longrightarrow> timers_old (stop_timer r me d m)"
  by (auto simp: timers_old_def stop_timer_def in_loop_of_def)

lemma timer_okD:
  assumes "timer_ok m d"
  shows "(sd_timer d, sd_loop d, sd_key d) \<in> set (sm_timers m) \<or> AddTimerFn (sd_timer d) (sd_key d) \<in> set (sm_queues m (sd_loop d))"
    "EraseTimerFn (sd_timer d) \<notin> set (sm_queues m l)"
    "(sd_timer d, l, k) \<in> set (sm_timers m) \<Longrightarrow> k = sd_key d"
    "AddTimerFn (sd_timer d) k \<in> set (sm_queues m l) \<Longrightarrow> k = sd_key d"
  using assms unfolding timer_ok_def by blast+

lemma timer_ok_queued:
  assumes ok: "timer_ok m d"
  shows "timer_ok (run_queued_fn l m) d"
proof (cases "sm_queues m l")
  case (Cons f fs)
  note D = timer_okD [OF ok]
  have sub: "\<And>x l'. x \<in> set (((sm_queues m)(l := fs)) l') \<Longrightarrow> x \<in> set (sm_queues m l')"
    and head: "f \<in> set (sm_queues m l)" using Cons by (auto split: if_splits)
  have q: "sm_queues (run_queued_fn l m) = (sm_queues m)(l := fs)" using Cons by (simp add: run_queued_fn_def)
  show ?thesis
  proof (cases f)
    case (AddTimerFn t k)
    have tm: "sm_timers (run_queued_fn l m) = (t, l, k) # sm_timers m" using Cons AddTimerFn by (simp add: run_queued_fn_def)
    have "(sd_timer d, sd_loop d, sd_key d) \<in> set ((t, l, k) # sm_timers m) \<or>
        AddTimerFn (sd_timer d) (sd_key d) \<in> set (((sm_queues m)(l := fs)) (sd_loop d))"
      using D(1) Cons AddTimerFn by (cases "sd_loop d = l") auto
    moreover have "k' = sd_key d" if "(sd_timer d, l', k') \<in> set ((t, l, k) # sm_timers m)" for l' k'
      using that D(3) D(4) [of k l] head AddTimerFn by auto
    ultimately show ?thesis unfolding timer_ok_def tm q using D(2,4) sub by blast
  next
    case (EraseTimerFn t)
    have t: "sd_timer d \<noteq> t" using D(2) head EraseTimerFn by auto
    have tm: "sm_timers (run_queued_fn l m) = filter (\<lambda>x. \<not> (fst x = t \<and> fst (snd x) = l)) (sm_timers m)"
      using Cons EraseTimerFn by (simp add: run_queued_fn_def)
    have "AddTimerFn (sd_timer d) (sd_key d) \<in> set (((sm_queues m)(l := fs)) (sd_loop d))"
      if "AddTimerFn (sd_timer d) (sd_key d) \<in> set (sm_queues m (sd_loop d))"
      using that Cons EraseTimerFn by (cases "sd_loop d = l") auto
    then have "(sd_timer d, sd_loop d, sd_key d) \<in> set (filter (\<lambda>x. \<not> (fst x = t \<and> fst (snd x) = l)) (sm_timers m)) \<or>
        AddTimerFn (sd_timer d) (sd_key d) \<in> set (((sm_queues m)(l := fs)) (sd_loop d))" using D(1) t by auto
    moreover have "k' = sd_key d"
      if "(sd_timer d, l', k') \<in> set (filter (\<lambda>x. \<not> (fst x = t \<and> fst (snd x) = l)) (sm_timers m))" for l' k'
      using that D(3) [of l' k'] by simp
    ultimately show ?thesis unfolding timer_ok_def tm q using D(2,4) sub by blast
  qed
qed (use ok in \<open>simp add: run_queued_fn_def\<close>)

lemma timers_old_queued: "timers_old m \<Longrightarrow> timers_old (run_queued_fn l m)"
proof (cases "sm_queues m l")
  case (Cons f fs)
  assume old: "timers_old m"
  have f: "f \<in> set (sm_queues m l)" and sub: "\<And>x l'. x \<in> set (((sm_queues m)(l := fs)) l') \<Longrightarrow> x \<in> set (sm_queues m l')"
    using Cons by (auto split: if_splits)
  have "fst x < sm_next m" if "x \<in> set (sm_timers (run_queued_fn l m))" for x
  proof (cases f)
    case (AddTimerFn t k)
    with old f have "t < sm_next m" by (auto simp: timers_old_def)
    with that old Cons AddTimerFn show ?thesis by (auto simp: timers_old_def run_queued_fn_def)
  next
    case (EraseTimerFn t)
    with that old Cons show ?thesis by (auto simp: timers_old_def run_queued_fn_def)
  qed
  moreover have "sm_queues (run_queued_fn l m) = (sm_queues m)(l := fs)" "sm_next (run_queued_fn l m) = sm_next m"
    using Cons by (simp_all add: run_queued_fn_def)
  ultimately show ?thesis using old sub unfolding timers_old_def by metis
qed (simp add: run_queued_fn_def)

lemma run_queued_sel [simp]:
  "sm_sessions (run_queued_fn l m) = sm_sessions m" "sm_map (run_queued_fn l m) = sm_map m"
  "sm_refs (run_queued_fn l m) = sm_refs m" "sm_next (run_queued_fn l m) = sm_next m"
  by (simp_all add: run_queued_fn_def split: list.split)

lemma run_queued_inv: "sm_inv m \<Longrightarrow> sm_inv (run_queued_fn l m)"
  by (auto simp: sm_inv_def timer_ok_queued timers_old_queued)

lemma session_at_node:
  assumes "sm_inv m" "d \<in> set (sm_sessions m)"
  shows "session_at m (sd_addr d) = Some d"
proof -
  have "\<exists>x. session_at m (sd_addr d) = Some x" unfolding session_at_def
    using assms(2) by (cases "List.find (\<lambda>x. sd_addr x = sd_addr d) (sm_sessions m)") (auto simp: find_None_iff)
  then obtain x where x: "session_at m (sd_addr d) = Some x" by blast
  then have "x \<in> set (sm_sessions m)" "sd_addr x = sd_addr d" by (auto simp: session_at_def find_Some_iff)
  with sm_invD(1) [OF assms(1)] assms(2) have "x = d" by (metis distinct_map_inj)
  with x show ?thesis by simp
qed

definition drop_node :: "(nat \<Rightarrow> bool) \<Rightarrow> nat \<Rightarrow> session_data \<Rightarrow> session_manager \<Rightarrow> session_manager" where
  "drop_node r me d m = erase_key (sd_key d) (erase_node d (stop_timer r me d (free_session (sd_session d) m)))"

lemma drop_node_sessions: "sm_sessions (drop_node r me d m) = filter (\<lambda>x. sd_addr x \<noteq> sd_addr d) (sm_sessions m)"
  by (simp add: drop_node_def erase_key_def erase_node_def free_session_def)

text \<open>Taking an entry out keeps the invariant if the timers of the others are left alone.\<close>

lemma take_out_inv:
  assumes "sm_inv m" "d \<in> set (sm_sessions m)"
    and f: "sm_sessions m' = filter (\<lambda>x. sd_addr x \<noteq> sd_addr d) (sm_sessions m)" "sm_map m' = (sm_map m)(sd_key d := None)"
      "sm_refs m' = (sm_refs m)(sd_session d := sm_refs m (sd_session d) - 1)" "sm_next m' = sm_next m"
    and t: "\<And>x. x \<in> set (sm_sessions m) \<Longrightarrow> sd_addr x \<noteq> sd_addr d \<Longrightarrow> timer_ok m' x" "timers_old m'"
  shows "sm_inv m'"
proof -
  note i = sm_invD [OF assms(1)]
  let ?ss = "filter (\<lambda>x. sd_addr x \<noteq> sd_addr d) (sm_sessions m)"
  have keys: "sd_key x \<noteq> sd_key d" if "x \<in> set ?ss" for x
    using that distinct_map_inj [OF i(2), of x d] assms(2) by auto
  have m: "((sm_map m)(sd_key d := None)) k = Some a \<longleftrightarrow> (\<exists>x \<in> set ?ss. sd_key x = k \<and> sd_addr x = a)" for k a
    using i(3) [of k a] keys distinct_map_inj [OF i(1), of _ d] assms(2) by (cases "k = sd_key d") auto
  have r: "((sm_refs m)(sd_session d := sm_refs m (sd_session d) - 1)) s = int (length (filter (\<lambda>x. sd_session x = s) ?ss))" for s
    using i(4) [of s] count_without [OF i(1) assms(2), of "\<lambda>x. sd_session x = s"] by auto
  show ?thesis unfolding sm_inv_def f
    using i(1,2,5) m r t by (auto simp: distinct_map_filter)
qed

lemma drop_node_inv:
  assumes "sm_inv m" "d \<in> set (sm_sessions m)"
  shows "sm_inv (drop_node r me d m)"
proof (rule take_out_inv [OF assms])
  note i = sm_invD [OF assms(1)]
  let ?m = "stop_timer r me d (free_session (sd_session d) m)"
  have eq: "sm_timers (drop_node r me d m) = sm_timers ?m" "sm_queues (drop_node r me d m) = sm_queues ?m"
    "sm_next (drop_node r me d m) = sm_next ?m"
    by (simp_all add: drop_node_def erase_key_def erase_node_def)
  have free: "sm_timers (free_session n m) = sm_timers m" "sm_queues (free_session n m) = sm_queues m"
    "sm_next (free_session n m) = sm_next m" for n by (simp_all add: free_session_def)
  show "timer_ok (drop_node r me d m) x" if "x \<in> set (sm_sessions m)" "sd_addr x \<noteq> sd_addr d" for x
  proof -
    have "sd_timer x \<noteq> sd_timer d" using that i(5) assms(2) by simp
    moreover have "timer_ok (free_session (sd_session d) m) x" using i(6) [OF that(1)] timer_ok_cong [OF free(1,2)] by simp
    ultimately show ?thesis unfolding timer_ok_cong [OF eq(1,2)] by (rule timer_ok_stop [rotated])
  qed
  have "timers_old (free_session (sd_session d) m)" using i(7) timers_old_cong [OF free] by simp
  then show "timers_old (drop_node r me d m)"
    unfolding timers_old_cong [OF eq] by (rule timers_old_stop) (use i(5) assms(2) free(3) in auto)
qed (simp_all add: drop_node_def erase_key_def erase_node_def free_session_def)

lemma drop_old_ok:
  assumes "sm_inv m"
  obtains m' where "drop_old r me k m = Inr m'" "sm_inv m'" "sm_map m' k = None" "set (sm_sessions m') \<subseteq> set (sm_sessions m)"
    "length (sm_sessions m') \<le> length (sm_sessions m)"
proof (cases "sm_map m k")
  case None
  then show thesis using that assms by (simp add: drop_old_def)
next
  case (Some a)
  with sm_invD(3) [OF assms] obtain d where d: "d \<in> set (sm_sessions m)" "sd_key d = k" "sd_addr d = a" by auto
  have "drop_old r me k m = Inr (drop_node r me d m)"
    using Some session_at_node [OF assms d(1)] d by (simp add: drop_old_def drop_node_def)
  moreover have "sm_map (drop_node r me d m) k = None" using d(2) by (simp add: drop_node_def erase_key_def)
  ultimately show thesis using that drop_node_inv [OF assms d(1)] by (auto simp: drop_node_sessions)
qed

text \<open>A new entry in front of the list.\<close>

definition push_session :: "nat \<Rightarrow> nat \<Rightarrow> string \<Rightarrow> nat \<Rightarrow> session_manager \<Rightarrow> session_manager" where
  "push_session me loop key s m =
     (let n = sm_next m;
          m = in_loop_of me loop (AddTimerFn n key) (m\<lparr>sm_refs := (sm_refs m)(s := sm_refs m s + 1), sm_next := Suc n\<rparr>)
      in m\<lparr>sm_sessions := \<lparr>sd_addr = n, sd_session = s, sd_key = key, sd_timer = n, sd_loop = loop\<rparr> # sm_sessions m,
           sm_map := (sm_map m)(key \<mapsto> n)\<rparr>)"

lemma push_session_fields:
  "sm_sessions (push_session me loop key s m) =
     \<lparr>sd_addr = sm_next m, sd_session = s, sd_key = key, sd_timer = sm_next m, sd_loop = loop\<rparr> # sm_sessions m"
  "sm_map (push_session me loop key s m) = (sm_map m)(key \<mapsto> sm_next m)"
  "sm_refs (push_session me loop key s m) = (sm_refs m)(s := sm_refs m s + 1)"
  "sm_next (push_session me loop key s m) = Suc (sm_next m)"
  "sm_timers (push_session me loop key s m) = (if me = loop then [(sm_next m, loop, key)] else []) @ sm_timers m"
  "sm_queues (push_session me loop key s m) =
     (if me = loop then sm_queues m else (sm_queues m)(loop := sm_queues m loop @ [AddTimerFn (sm_next m) key]))"
  by (simp_all add: push_session_def Let_def in_loop_of_def)

lemma push_session_timers:
  assumes "sm_inv m"
  shows "d \<in> set (sm_sessions m) \<Longrightarrow> timer_ok (push_session me loop key s m) d" "timers_old (push_session me loop key s m)"
    "timer_ok (push_session me loop key s m)
       \<lparr>sd_addr = sm_next m, sd_session = s, sd_key = key, sd_timer = sm_next m, sd_loop = loop\<rparr>"
proof -
  note i = sm_invD [OF assms]
  have fresh: "(sm_next m, l, k) \<notin> set (sm_timers m)" "AddTimerFn (sm_next m) k \<notin> set (sm_queues m l)"
    "EraseTimerFn (sm_next m) \<notin> set (sm_queues m l)" for l k
    using i(7) unfolding timers_old_def by fastforce+
  show "timer_ok (push_session me loop key s m) d" if d: "d \<in> set (sm_sessions m)"
  proof -
    have "sd_timer d \<noteq> sm_next m" using i(5) [OF d] by simp
    with i(6) [OF d] show ?thesis unfolding timer_ok_def push_session_fields by auto
  qed
  show "timers_old (push_session me loop key s m)"
    using i(7) unfolding timers_old_def push_session_fields by (auto simp: less_Suc_eq)
  show "timer_ok (push_session me loop key s m)
      \<lparr>sd_addr = sm_next m, sd_session = s, sd_key = key, sd_timer = sm_next m, sd_loop = loop\<rparr>"
    unfolding timer_ok_def push_session_fields using fresh by auto
qed

lemma push_session_inv:
  assumes "sm_inv m" "sm_map m key = None"
  shows "sm_inv (push_session me loop key s m)"
proof -
  note i = sm_invD [OF assms(1)] and t = push_session_timers [OF assms(1), where me = me and loop = loop and key = key and s = s]
  have k: "sd_key d \<noteq> key" "sd_addr d \<noteq> sm_next m" if "d \<in> set (sm_sessions m)" for d
    using i(3) [of key "sd_addr d"] i(5) [OF that] that assms(2) by auto
  have mp: "((sm_map m)(key \<mapsto> sm_next m)) k = Some a \<longleftrightarrow>
      (k = key \<and> a = sm_next m) \<or> (\<exists>d \<in> set (sm_sessions m). sd_key d = k \<and> sd_addr d = a)" for k a
    using i(3) [of k a] k assms(2) by auto
  show ?thesis unfolding sm_inv_def
  proof (intro conjI)
    show "\<forall>k a. sm_map (push_session me loop key s m) k = Some a \<longleftrightarrow>
        (\<exists>d \<in> set (sm_sessions (push_session me loop key s m)). sd_key d = k \<and> sd_addr d = a)"
      unfolding push_session_fields mp by auto
    show "\<forall>d \<in> set (sm_sessions (push_session me loop key s m)). timer_ok (push_session me loop key s m) d"
      using t(1,3) by (simp add: push_session_fields(1))
    have "sm_next m \<notin> sd_addr ` set (sm_sessions m)" using k(2) by (metis imageE)
    then show "distinct (map sd_addr (sm_sessions (push_session me loop key s m)))"
      using i(1) by (simp add: push_session_fields(1))
  qed (use i(1,2,4,5) k(1) t(2) in \<open>auto simp: push_session_fields(1,3,4) less_Suc_eq\<close>)
qed

lemma removeExcess_ok:
  assumes "sm_inv m"
  shows "sm_inv (removeExcessSession r me m)"
    "length (sm_sessions (removeExcessSession r me m)) \<le> max (maxSessions + mexExtendSize - 1) (length (sm_sessions m) - 1)"
    "sm_sessions m = d # ds \<Longrightarrow> d \<in> set (sm_sessions (removeExcessSession r me m))"
    "set (sm_sessions (removeExcessSession r me m)) \<subseteq> set (sm_sessions m)"
proof -
  let ?l = "last (sm_sessions m)"
  show "set (sm_sessions (removeExcessSession r me m)) \<subseteq> set (sm_sessions m)"
    by (auto simp: removeExcessSession_def Let_def erase_node_def erase_key_def free_session_def)
  have *: "sm_inv (removeExcessSession r me m) \<and>
      length (sm_sessions (removeExcessSession r me m)) \<le> max (maxSessions + mexExtendSize - 1) (length (sm_sessions m) - 1) \<and>
      (\<forall>d ds. sm_sessions m = d # ds \<longrightarrow> d \<in> set (sm_sessions (removeExcessSession r me m)))"
  proof (cases "length (sm_sessions m) < maxSessions + mexExtendSize")
    case True
    then have "removeExcessSession r me m = m" by (simp add: removeExcessSession_def)
    with True assms(1) show ?thesis by auto
  next
    case False
    then have len: "maxSessions + mexExtendSize \<le> length (sm_sessions m)" by simp
    then have l: "?l \<in> set (sm_sessions m)" by (intro last_in_set) auto
    have x: "removeExcessSession r me m = drop_node r me ?l m"
      using len by (simp add: removeExcessSession_def drop_node_def erase_node_def erase_key_def Let_def)
    have "length (sm_sessions (drop_node r me ?l m)) < length (sm_sessions m)"
      unfolding drop_node_sessions using l by (intro length_filter_less [of ?l]) auto
    moreover have "d \<in> set (sm_sessions (drop_node r me ?l m))" if d: "sm_sessions m = d # ds" for d ds
    proof -
      have "ds \<noteq> []" using d len by auto
      then have "?l \<in> set ds" using d by simp
      then have "sd_addr d \<noteq> sd_addr ?l" using sm_invD(1) [OF assms(1)] d by (auto simp: image_iff)
      then show ?thesis unfolding drop_node_sessions using d by simp
    qed
    ultimately show ?thesis unfolding x using drop_node_inv [OF assms(1) l] len by auto
  qed
  then show "sm_inv (removeExcessSession r me m)"
    "length (sm_sessions (removeExcessSession r me m)) \<le> max (maxSessions + mexExtendSize - 1) (length (sm_sessions m) - 1)"
    "sm_sessions m = d # ds \<Longrightarrow> d \<in> set (sm_sessions (removeExcessSession r me m))" by blast+
qed

definition cache_ok :: "session_manager \<Rightarrow> bool" where
  "cache_ok m \<longleftrightarrow> sm_inv m \<and> length (sm_sessions m) < maxSessions + mexExtendSize"

lemma session_get_iff:
  assumes "sm_inv m"
  shows "session_get h p m = Some s \<longleftrightarrow> (\<exists>d \<in> set (sm_sessions m). sd_key d = toKey h p \<and> sd_session d = s)"
proof (cases "sm_map m (toKey h p)")
  case None
  then show ?thesis using sm_invD(3) [OF assms, of "toKey h p"] by (auto simp: session_get_def)
next
  case (Some a)
  with sm_invD(3) [OF assms] obtain d where d: "d \<in> set (sm_sessions m)" "sd_key d = toKey h p" "sd_addr d = a" by auto
  have "session_get h p m = Some (sd_session d)" using Some session_at_node [OF assms d(1)] d(3) by (simp add: session_get_def)
  moreover have "x = d" if "x \<in> set (sm_sessions m)" "sd_key x = toKey h p" for x
    using distinct_map_inj [OF sm_invD(2) [OF assms], of x d] that d by simp
  ultimately show ?thesis using d by (metis option.inject)
qed

lemma store_locked_ok:
  assumes "sm_inv m"
  obtains m1 where "store_locked r me loop k s m = Inr (push_session me loop k s m1)" "sm_inv (push_session me loop k s m1)"
    "set (sm_sessions m1) \<subseteq> set (sm_sessions m)" "length (sm_sessions m1) \<le> length (sm_sessions m)"
proof -
  obtain m1 where m1: "drop_old r me k m = Inr m1" "sm_inv m1" "sm_map m1 k = None" "set (sm_sessions m1) \<subseteq> set (sm_sessions m)"
    "length (sm_sessions m1) \<le> length (sm_sessions m)" by (rule drop_old_ok [OF assms])
  moreover have "store_locked r me loop k s m = Inr (push_session me loop k s m1)"
    using m1(1) by (simp add: store_locked_def push_session_def Let_def)
  ultimately show thesis using that push_session_inv by blast
qed

lemma session_store_ok:
  assumes "sm_inv m"
  shows "\<exists>m'. session_store r me loop h p s m = Inr m' \<and> sm_inv m' \<and> session_get h p m' = Some s \<and>
    length (sm_sessions m') \<le> max (maxSessions + mexExtendSize - 1) (length (sm_sessions m)) \<and>
    (\<forall>h' p' s'. toKey h' p' \<noteq> toKey h p \<and> session_get h' p' m' = Some s' \<longrightarrow> session_get h' p' m = Some s')"
proof -
  let ?k = "toKey h p"
  obtain m1 where m1: "store_locked r me loop ?k s m = Inr (push_session me loop ?k s m1)" "sm_inv (push_session me loop ?k s m1)"
    "set (sm_sessions m1) \<subseteq> set (sm_sessions m)" "length (sm_sessions m1) \<le> length (sm_sessions m)"
    by (rule store_locked_ok [OF assms])
  let ?m2 = "push_session me loop ?k s m1" and ?m3 = "removeExcessSession r me (push_session me loop ?k s m1)"
  note x = removeExcess_ok [OF m1(2), where r = r and me = me]
  have "session_store r me loop h p s m = Inr ?m3" using m1(1) by (simp add: session_store_def)
  moreover have "length (sm_sessions ?m3) \<le> max (maxSessions + mexExtendSize - 1) (length (sm_sessions m))"
    using x(2) m1(4) by (simp add: push_session_fields(1) max_def split: if_splits)
  moreover have "session_get h p ?m3 = Some s"
    unfolding session_get_iff [OF x(1)] by (intro bexI [OF _ x(3) [OF push_session_fields(1)]]) simp
  moreover have "session_get h' p' m = Some s'" if "toKey h' p' \<noteq> ?k" "session_get h' p' ?m3 = Some s'" for h' p' s'
  proof -
    from that(2) obtain d where d: "d \<in> set (sm_sessions ?m3)" "sd_key d = toKey h' p'" "sd_session d = s'"
      unfolding session_get_iff [OF x(1)] by blast
    then have "d \<in> set (sm_sessions ?m2)" using x(4) by blast
    then have "d \<in> set (sm_sessions m)" using d(2) that(1) m1(3) unfolding push_session_fields by auto
    with d show ?thesis unfolding session_get_iff [OF assms] by blast
  qed
  ultimately show ?thesis using x(1) by blast
qed

text \<open>The timer that runs out takes the entry of its key along, whichever that is by now.\<close>

lemma session_expire_ok:
  assumes "sm_inv m"
  shows "\<exists>m'. session_expire t m = Inr m' \<and> sm_inv m' \<and> sm_map m' (snd (snd t)) = None \<and>
    sm_sessions m' = filter (\<lambda>d. sd_key d \<noteq> snd (snd t)) (sm_sessions m)"
proof -
  note i = sm_invD [OF assms]
  let ?k = "snd (snd t)" and ?m = "m\<lparr>sm_timers := filter (\<lambda>x. x \<noteq> t) (sm_timers m)\<rparr>"
  have keep: "timer_ok m' x" if "x \<in> set (sm_sessions m)" "sd_key x \<noteq> ?k" "sm_timers m' = sm_timers ?m" "sm_queues m' = sm_queues m"
    for x m'
  proof -
    have "(sd_timer x, sd_loop x, sd_key x) \<noteq> t" using that(2) by auto
    with i(6) [OF that(1)] show ?thesis by (auto simp: timer_ok_def that(3,4))
  qed
  have old: "timers_old m'" if "sm_timers m' = sm_timers ?m" "sm_queues m' = sm_queues m" "sm_next m' = sm_next m" for m'
    using i(7) by (auto simp: timers_old_def that)
  show ?thesis
  proof (cases "sm_map m ?k")
    case None
    then have ks: "\<forall>d \<in> set (sm_sessions m). sd_key d \<noteq> ?k" using i(3) [of ?k] by auto
    have "sm_inv ?m" unfolding sm_inv_def using i(1-5) keep [of _ ?m] old [of ?m] ks by auto
    moreover have "session_expire t m = Inr ?m" using None by (simp add: session_expire_def Let_def)
    ultimately show ?thesis using None ks by (simp add: filter_id_conv)
  next
    case (Some a)
    with i(3) obtain d where d: "d \<in> set (sm_sessions m)" "sd_key d = ?k" "sd_addr d = a" by auto
    have same: "sd_addr x = sd_addr d \<longleftrightarrow> sd_key x = ?k" if "x \<in> set (sm_sessions m)" for x
      using distinct_map_inj [OF i(1) that d(1)] distinct_map_inj [OF i(2) that d(1)] d(2) by auto
    let ?m' = "erase_key ?k (erase_node d (free_session (sd_session d) ?m))"
    have at: "session_at ?m a = Some d" using session_at_node [OF assms d(1)] d(3) by (simp add: session_at_def)
    have "session_expire t m = Inr ?m'" using Some at by (simp add: session_expire_def Let_def)
    moreover have "sm_inv ?m'"
    proof (rule take_out_inv [OF assms d(1)])
      show "timer_ok ?m' x" if "x \<in> set (sm_sessions m)" "sd_addr x \<noteq> sd_addr d" for x
        by (rule keep) (use that same in \<open>simp_all add: erase_key_def erase_node_def free_session_def\<close>)
      show "timers_old ?m'" by (rule old) (simp_all add: erase_key_def erase_node_def free_session_def)
    qed (simp_all add: d(2) erase_key_def erase_node_def free_session_def)
    moreover have "sm_sessions ?m' = filter (\<lambda>d. sd_key d \<noteq> ?k) (sm_sessions m)"
      using same by (simp add: erase_key_def erase_node_def free_session_def cong: filter_cong)
    ultimately show ?thesis by (intro exI [of _ ?m']) (simp add: erase_key_def)
  qed
qed

text \<open>
  A cache that answers with the last value stored under a key or with nothing. It may forget entries;
  what it does return is always the newest.
\<close>

locale keyed_cache =
  fixes ok :: "'m \<Rightarrow> bool"
    and mk :: "'m"
    and look :: "'k \<Rightarrow> 'm \<Rightarrow> 'v option"
    and put :: "'k \<Rightarrow> 'v \<Rightarrow> 'm \<Rightarrow> 'm result"
  assumes ok_mk: "ok mk"
    and look_mk: "look k mk = None"
    and put_ok: "ok m \<Longrightarrow> \<exists>m'. put k v m = Inr m' \<and> ok m' \<and> look k m' = Some v \<and>
      (\<forall>k' v'. k' \<noteq> k \<and> look k' m' = Some v' \<longrightarrow> look k' m = Some v')"
begin

lemma puts_from:
  assumes "ok m" "\<And>k v. look k m = Some v \<Longrightarrow> old k = Some v"
  shows "\<exists>m'. foldR (\<lambda>m (k, v). put k v m) m kvs = Inr m' \<and> ok m' \<and>
    (\<forall>k v. look k m' = Some v \<longrightarrow> (old ++ map_of (rev kvs)) k = Some v)"
  using assms
proof (induction kvs arbitrary: m old)
  case (Cons kv kvs)
  obtain k v where kv: "kv = (k, v)" by fastforce
  from put_ok [OF Cons.prems(1), of k v] obtain m1 where m1: "put k v m = Inr m1" "ok m1" "look k m1 = Some v"
    "\<And>k' v'. k' \<noteq> k \<Longrightarrow> look k' m1 = Some v' \<Longrightarrow> look k' m = Some v'" by blast
  have "(old(k \<mapsto> v)) k' = Some v'" if "look k' m1 = Some v'" for k' v'
    using that m1(3,4) Cons.prems(2) by (cases "k' = k") auto
  note IH = Cons.IH [of m1 "old(k \<mapsto> v)", OF m1(2) this]
  have "old ++ map_of (rev (kv # kvs)) = old(k \<mapsto> v) ++ map_of (rev kvs)" by (simp add: kv map_add_assoc)
  then show ?case unfolding foldR.simps kv prod.case m1(1) bindR_simps using IH by (simp only: kv)
qed simp

lemma puts_latest:
  "\<exists>m. foldR (\<lambda>m (k, v). put k v m) mk kvs = Inr m \<and> ok m \<and>
     (\<forall>k v. look k m = Some v \<longrightarrow> map_of (rev kvs) k = Some v)"
  using puts_from [OF ok_mk, of Map.empty kvs] look_mk by simp

end

lemma session_get_key: "session_get h p = session_get [] (toKey h p)"
  by (rule ext) (simp add: session_get_def toKey_def)

lemma cache_ok_new: "cache_ok SessionManager_new"
  by (simp add: cache_ok_def sm_inv_def timers_old_def SessionManager_new_def)

interpretation sc: keyed_cache cache_ok SessionManager_new "session_get []" "session_store r me loop []" for r me loop
proof unfold_locales
  show "cache_ok SessionManager_new" by (rule cache_ok_new)
  show "session_get [] k SessionManager_new = None" for k by (simp add: session_get_def SessionManager_new_def)
  show "\<exists>m'. session_store r me loop [] k v m = Inr m' \<and> cache_ok m' \<and> session_get [] k m' = Some v \<and>
      (\<forall>k' v'. k' \<noteq> k \<and> session_get [] k' m' = Some v' \<longrightarrow> session_get [] k' m = Some v')" if "cache_ok m" for m k v
    using session_store_ok [of m r me loop "[]" k v] that by (auto simp: toKey_def cache_ok_def max_def split: if_splits)
qed

section \<open>Properties of the TLS layer\<close>

text \<open>
  the cache of TLS sessions answers with the newest session. After any sequence of stores (none of which
  fails) it holds fewer than 170 sessions, and a session that it returns for a host and address is
  the last one stored under the key of that host and address.
\<close>

theorem session_cache_latest:
  "\<exists>m. foldR (\<lambda>m ((h, p), s). session_store r me loop h p s m) SessionManager_new ops = Inr m \<and>
     length (sm_sessions m) < maxSessions + mexExtendSize \<and>
     (\<forall>h p s. session_get h p m = Some s \<longrightarrow> map_of (rev (map (\<lambda>((h, p), s). (toKey h p, s)) ops)) (toKey h p) = Some s)"
proof -
  let ?kvs = "map (\<lambda>((h, p), s). (toKey h p, s)) ops"
  have run: "foldR (\<lambda>m ((h, p), s). session_store r me loop h p s m) m ops =
      foldR (\<lambda>m (k, v). session_store r me loop [] k v m) m (map (\<lambda>((h, p), s). (toKey h p, s)) ops)" for m
  proof (induction ops arbitrary: m)
    case (Cons x ops)
    obtain h p s where x: "x = ((h, p), s)" by (metis surj_pair)
    have "session_store r me loop h p s m = session_store r me loop [] (toKey h p) s m" by (simp add: session_store_def toKey_def)
    then show ?case by (simp add: x Cons.IH)
  qed simp
  from sc.puts_latest [of r me loop ?kvs] obtain m where
    "foldR (\<lambda>m (k, v). session_store r me loop [] k v m) SessionManager_new ?kvs = Inr m"
    "cache_ok m" "\<forall>k v. session_get [] k m = Some v \<longrightarrow> map_of (rev ?kvs) k = Some v" by blast
  then show ?thesis unfolding run using session_get_key by (intro exI [of _ m]) (auto simp: cache_ok_def)
qed

text \<open>Reachable states of the cache, with the number of threads that have stored a session and not yet come to
  \<^verbatim>\<open>removeExcessSession\<close>: the locked part of a store and the trimming, in any thread; a loop that runs the next
  function of its queue; and a valid timer that runs out.\<close>

inductive cache_run :: "session_manager \<Rightarrow> nat \<Rightarrow> bool" where
  start: "cache_run SessionManager_new 0"
| stored: "cache_run m n \<Longrightarrow> store_locked running me loop key s m = Inr m' \<Longrightarrow> cache_run m' (Suc n)"
| trimmed: "cache_run m (Suc n) \<Longrightarrow> cache_run (removeExcessSession running me m) n"
| queued_fn: "cache_run m n \<Longrightarrow> cache_run (run_queued_fn loop m) n"
| expired: "cache_run m n \<Longrightarrow> t \<in> set (sm_timers m) \<Longrightarrow> session_expire t m = Inr m' \<Longrightarrow> cache_run m' n"

lemma cache_run_inv: "cache_run m n \<Longrightarrow> sm_inv m \<and> length (sm_sessions m) < maxSessions + mexExtendSize + n"
proof (induction rule: cache_run.induct)
  case start
  show ?case using cache_ok_new by (simp add: cache_ok_def)
next
  case (stored m n running me loop key s m')
  obtain m1 where m1: "store_locked running me loop key s m = Inr (push_session me loop key s m1)" "sm_inv (push_session me loop key s m1)"
    "length (sm_sessions m1) \<le> length (sm_sessions m)"
    using store_locked_ok [of m running me loop key s] stored.IH by blast
  with stored.hyps(2) have "m' = push_session me loop key s m1" by simp
  with m1(2,3) stored.IH show ?case by (simp add: push_session_fields(1))
next
  case (trimmed m n running me)
  with removeExcess_ok(1,2) [of m running me] show ?case by auto
next
  case (queued_fn m n loop)
  then show ?case by (simp add: run_queued_inv)
next
  case (expired m n t m')
  with session_expire_ok [of m t] show ?case by (auto intro: le_less_trans [OF length_filter_le])
qed

text \<open>
  C22: the session cache keeps its books. In every interleaving of stores by any threads, of trimming, of the functions
  that timers queue for the loops and of timers that run out, whichever loops are running at the time: no iterator of the map dangles,
  so that stores and expiries succeed; the cache owns exactly one reference to OpenSSL for every entry (nothing leaks and
  nothing is freed twice); it has fewer than 170 entries besides those of threads that are still to trim it. Every entry
  has its timer, valid in its loop or in the queue of that loop, and nothing is queued that would cancel it, so no entry stays
  for ever; timers without an entry may be left. A store is found at once, and a timer that runs out removes
  the entry of its key, whichever that is, and no other.
\<close>

theorem session_cache_sound:
  assumes "cache_run m n"
  shows "(\<forall>s. sm_refs m s = int (length (filter (\<lambda>d. sd_session d = s) (sm_sessions m)))) \<and>
    length (sm_sessions m) < 170 + n \<and>
    (\<forall>d \<in> set (sm_sessions m).
       ((sd_timer d, sd_loop d, sd_key d) \<in> set (sm_timers m) \<or> AddTimerFn (sd_timer d) (sd_key d) \<in> set (sm_queues m (sd_loop d))) \<and>
       (\<forall>l. EraseTimerFn (sd_timer d) \<notin> set (sm_queues m l))) \<and>
    (\<forall>running me loop h p s. \<exists>m'. session_store running me loop h p s m = Inr m' \<and> session_get h p m' = Some s) \<and>
    (\<forall>t \<in> set (sm_timers m). \<exists>m'. session_expire t m = Inr m' \<and> sm_map m' (snd (snd t)) = None \<and>
       sm_sessions m' = filter (\<lambda>d. sd_key d \<noteq> snd (snd t)) (sm_sessions m))"
proof -
  from cache_run_inv [OF assms] have i: "sm_inv m" and len: "length (sm_sessions m) < 170 + n" by simp_all
  have "\<exists>m'. session_store running me loop h p s m = Inr m' \<and> session_get h p m' = Some s" for running me loop h p s
    using session_store_ok [OF i, of running me loop h p s] by blast
  moreover have "\<exists>m'. session_expire t m = Inr m' \<and> sm_map m' (snd (snd t)) = None \<and>
      sm_sessions m' = filter (\<lambda>d. sd_key d \<noteq> snd (snd t)) (sm_sessions m)" for t
    using session_expire_ok [OF i, of t] by blast
  moreover have "((sd_timer d, sd_loop d, sd_key d) \<in> set (sm_timers m) \<or> AddTimerFn (sd_timer d) (sd_key d) \<in> set (sm_queues m (sd_loop d))) \<and>
      (\<forall>l. EraseTimerFn (sd_timer d) \<notin> set (sm_queues m l))" if "d \<in> set (sm_sessions m)" for d
    using sm_invD(6) [OF i that] by (simp add: timer_ok_def)
  ultimately show ?thesis using sm_invD(4) [OF i] len by blast
qed

text \<open>
  Two sessions for one host: the first belongs to loop 1, the second comes from the thread of loop 2. While loop 1 runs, its
  timer is cancelled through its queue; when it is not running, the timer stays and later removes the entry of the second session.
\<close>

definition two_sessions :: "bool \<Rightarrow> session_manager" where
  "two_sessions running1 = projr (bindR (store_locked (\<lambda>_. True) 1 1 ''a.org1.2.3.4:443'' 5 SessionManager_new)
     (store_locked (\<lambda>l. l = 1 \<longrightarrow> running1) 2 2 ''a.org1.2.3.4:443'' 6))"

lemmas cache_eval = two_sessions_def store_locked_def drop_old_def SessionManager_new_def Let_def in_loop_of_def session_at_def
  erase_key_def erase_node_def stop_timer_def free_session_def

lemma two_sessions_state:
  "sm_sessions (two_sessions b) = [\<lparr>sd_addr = 1, sd_session = 6, sd_key = ''a.org1.2.3.4:443'', sd_timer = 1, sd_loop = 2\<rparr>]"
  "sm_timers (two_sessions b) = [(1, 2, ''a.org1.2.3.4:443''), (0, 1, ''a.org1.2.3.4:443'')]"
  "sm_queues (two_sessions b) 1 = (if b then [EraseTimerFn 0] else [])"
  by (simp_all add: cache_eval)

lemma two_sessions_run: "cache_run (two_sessions b) 2"
proof -
  define m1 where "m1 = projr (store_locked (\<lambda>_. True) 1 1 ''a.org1.2.3.4:443'' 5 SessionManager_new)"
  have 1: "store_locked (\<lambda>_. True) 1 1 ''a.org1.2.3.4:443'' 5 SessionManager_new = Inr m1"
    by (simp add: m1_def cache_eval)
  have "store_locked (\<lambda>l. l = 1 \<longrightarrow> b) 2 2 ''a.org1.2.3.4:443'' 6 m1 = Inr (two_sessions b)"
    unfolding two_sessions_def 1 by (simp add: m1_def cache_eval)
  from cache_run.stored [OF cache_run.stored [OF cache_run.start 1] this] show ?thesis by (simp add: numeral_2_eq_2)
qed

lemma stale_timer_expires_successor:
  "session_expire (0, 1, ''a.org1.2.3.4:443'') (two_sessions False) = Inr m' \<Longrightarrow> sm_sessions m' = []"
  using session_expire_ok [OF cache_run_inv [OF two_sessions_run, THEN conjunct1], of "(0, 1, ''a.org1.2.3.4:443'')" False]
  by (auto simp: two_sessions_state)

theorem session_cache_sound_witness:
  "sm_refs (two_sessions True) 6 = 1 \<and> sm_refs (two_sessions True) 5 = 0 \<and>
   EraseTimerFn 0 \<in> set (sm_queues (two_sessions True) 1) \<and>
   (\<exists>m'. session_expire (1, 2, ''a.org1.2.3.4:443'') (two_sessions True) = Inr m' \<and> sm_sessions m' = [])"
  using session_cache_sound [OF two_sessions_run, of True] two_sessions_state(3) [of True] by (auto simp: two_sessions_state)

lemma select_loop_sound:
  "select_loop inp p cur = Some (ALPN_OK pos len) \<Longrightarrow> pos + len \<le> length inp \<and> take len (drop pos inp) = p"
proof (induction inp p cur rule: select_loop.induct)
  case (1 inp p cur)
  show ?case using 1(2) 1(1) [OF _ refl refl]
    by (subst (asm) select_loop.simps) (auto simp: Let_def split: if_splits)
qed

text \<open>
  the choice of an application protocol is memory safe and sound. Whatever bytes a client sends, a
  protocol that is chosen lies completely inside the client's list and is one of the server's.
\<close>

theorem alpn_choice_sound:
  assumes "serverSelectProtocol inp protocols = ALPN_OK pos len"
  shows "pos + len \<le> length inp \<and> take len (drop pos inp) \<in> set protocols"
proof -
  have "select_protocols inp protocols = ALPN_OK pos len"
    using assms by (auto simp: serverSelectProtocol_def split: if_splits)
  then show ?thesis
    by (induction protocols) (auto dest!: select_loop_sound split: option.splits)
qed

theorem alpn_choice_sound_witness:
  "take 2 (drop 1 (alpn_list [''h2'', ''spdy''])) \<in> set [''http/1.1'', ''h2'']"
proof -
  have "serverSelectProtocol (alpn_list [''h2'', ''spdy'']) [''h2''] = ALPN_OK 1 2"
    by (simp add: serverSelectProtocol_def alpn_list_def select_loop.simps [of _ _ 0] Let_def)
  from alpn_choice_sound [OF this] show ?thesis by simp
qed

text \<open>
  only the first protocol a client offers counts. The loop does not step over the name of a
  protocol, so after the first one it takes a letter for a length: with a first name in lower-case
  letters and a list of at most 98 bytes nothing behind the first name is ever chosen, even if
  the server supports it.
\<close>

theorem alpn_only_first_offer:
  assumes "p \<noteq> []" "length p < 256" "97 \<le> (of_char (hd p) :: nat)" "length (alpn_list (p # offers)) \<le> 98" "p \<notin> set protocols"
  shows "serverSelectProtocol (alpn_list (p # offers)) protocols = ALPN_NOACK"
proof -
  let ?inp = "alpn_list (p # offers)"
  obtain c cs where p: "p = c # cs" using assms(1) by (cases p) auto
  have inp: "?inp = char_of (length p) # p @ alpn_list offers" using assms(2) by (simp add: alpn_list_def)
  have "select_loop ?inp q 1 = Some ALPN_NOACK" for q
    using assms(3,4) inp p by (subst select_loop.simps) (simp add: Let_def)
  then have "select_loop ?inp q 0 = Some ALPN_NOACK" if "q \<noteq> p" for q
    using that assms(2) inp p by (subst select_loop.simps) (auto simp: Let_def)
  then show ?thesis using assms(5) by (cases protocols) (auto simp: serverSelectProtocol_def)
qed

theorem alpn_only_first_offer_witness:
  "serverSelectProtocol (alpn_list [''http/1.1'', ''h2'']) [''h2''] = ALPN_NOACK"
  by (rule alpn_only_first_offer) (simp_all add: alpn_list_def)

text \<open>
  what the validation of a certificate guarantees. A certificate that a server accepts from a peer carries
  the host name of the policy as common name or alternative name; OpenSSL's verification of an accepted certificate did not end with
  one of the two errors of date, and it succeeded unless broken chains are allowed (with a broken chain OpenSSL may
  report the error of the chain and not that of the date).
  On the client side the host name is not looked at: the decision does not depend on it.
\<close>

theorem certificate_validation:
  "(validatePeerCertificate res cert host broken True \<longrightarrow>
      (\<exists>name. ct_subject cert = Some (Some name) \<and> verifySslName name host) \<or>
      (\<exists>ns name. ct_altNames cert = Some ns \<and> GEN_DNS name \<in> set ns \<and> verifySslName name host)) \<and>
   (validatePeerCertificate res cert host broken srv \<longrightarrow>
      res \<notin> {X509_V_ERR_CERT_NOT_YET_VALID, X509_V_ERR_CERT_HAS_EXPIRED} \<and> (res = X509_V_OK \<or> broken)) \<and>
   validatePeerCertificate res cert host broken False = validatePeerCertificate res cert host' broken False"
proof -
  have alt: "alt_loop host ns \<Longrightarrow> \<exists>name. GEN_DNS name \<in> set ns \<and> verifySslName name host" for ns
    by (induction host ns rule: alt_loop.induct) (auto split: if_splits)
  show ?thesis
    by (auto simp: validatePeerCertificate_def verifyCommonName_def verifyAltName_def
        split: if_splits option.splits dest!: alt)
qed

theorem certificate_validation_witness:
  "\<exists>name. ct_subject \<lparr>ct_subject = Some (Some ''a.org''), ct_altNames = None\<rparr> = Some (Some name) \<and> verifySslName name ''a.org''"
proof -
  let ?c = "\<lparr>ct_subject = Some (Some ''a.org''), ct_altNames = None\<rparr>"
  have "verifySslName ''a.org'' ''a.org''" by (simp add: verifySslName_exact)
  then have "validatePeerCertificate 0 ?c ''a.org'' False True"
    by (simp add: validatePeerCertificate_def verifyCommonName_def)
  with certificate_validation [of 0 ?c "''a.org''" False] show ?thesis by auto
qed

text \<open>
  The calls of \<^verbatim>\<open>newSSLContext\<close> as a list, each with the text of the exception that its failure brings, or with none if its answer
  is ignored.
\<close>

definition context_plan :: "tls_policy \<Rightarrow> bool \<Rightarrow> (ssl_call \<times> string option) list" where
  "context_plan policy isServer =
     [(CtxNew, Some ''Failed to create SSL context'')] @
     map (\<lambda>c. (ConfCmd (fst c) (snd c), None)) (pl_confCmds policy) @
     (if \<not> pl_useOldTLS policy then [(SetMinProtoTLS12, None)] else []) @
     (if pl_certPath policy \<noteq> [] \<and> pl_keyPath policy \<noteq> []
      then [(UseCertificateChainFile (pl_certPath policy), Some (''Failed to load certificate '' @ pl_certPath policy)),
            (UsePrivateKeyFile (pl_keyPath policy), Some ''Failed to load private key''),
            (CheckPrivateKey, Some ''Private key does not match the certificate public key'')] else []) @
     (if pl_validate policy \<and> pl_useSystemCertStore policy then [(SetDefaultVerifyPaths, None)] else []) @
     (if pl_caPath policy = [] then []
      else if isServer
      then [(LoadVerifyLocations (pl_caPath policy), Some ''Failed to load CA certificate''),
            (LoadClientCAFile (pl_caPath policy), Some ''Not CA names found in file''),
            (SetClientCAList (pl_caPath policy), None), (SetVerifyPeerFailIfNone, None)]
      else [(StoreLoadLocations (pl_caPath policy), Some ''Failed to load CA certificate''), (SetCertStore (pl_caPath policy), None)]) @
     (if pl_alpnProtocols policy \<noteq> [] \<and> isServer then [(SetAlpnSelect (pl_alpnProtocols policy), None)] else []) @
     (if \<not> isServer then [(SetSessionCacheOff, None)] else []) @
     [(SetCipherList cipher_list, Some ''Failed to select secure ciphers'')]"

definition fails :: "(ssl_call \<Rightarrow> bool) \<Rightarrow> ssl_call \<times> string option \<Rightarrow> bool" where
  "fails ans p \<longleftrightarrow> snd p \<noteq> None \<and> \<not> ans (fst p)"

fun run_plan :: "(ssl_call \<Rightarrow> bool) \<Rightarrow> (ssl_call \<times> string option) list \<Rightarrow> ssl_call list \<Rightarrow> config" where
  "run_plan ans [] c = Inr c"
| "run_plan ans (p # ps) c = (if fails ans p then Inl (the (snd p)) else run_plan ans ps (c @ [fst p]))"

lemma run_plan_append: "run_plan ans (xs @ ys) c = bindC (run_plan ans xs c) (run_plan ans ys)"
  by (induction xs arbitrary: c) (simp_all add: bindC_def)

lemma run_plan_ignored: "\<forall>p \<in> set ps. snd p = None \<Longrightarrow> run_plan ans ps c = Inr (c @ map fst ps)"
  by (induction ps arbitrary: c) (simp_all add: fails_def)

lemma run_plan_find:
  "run_plan ans ps c = (case List.find (fails ans) ps of None \<Rightarrow> Inr (c @ map fst ps) | Some p \<Rightarrow> Inl (the (snd p)))"
  by (induction ps arbitrary: c) (simp_all split: option.split)

lemma require_plan: "require ans call err c = run_plan ans [(call, Some err)] c"
  by (simp add: require_def fails_def)

lemma bindC_assoc: "bindC (bindC m f) g = bindC m (\<lambda>c. bindC (f c) g)"
  by (cases m) (simp_all add: bindC_def)

lemma bindC_Inr [simp]: "bindC (Inr c) f = f c" "bindC (Inl e) f = Inl e"
  by (simp_all add: bindC_def)

lemma SSLContext_new_plan:
  "SSLContext_new ans old cmds = run_plan ans ([(CtxNew, Some ''Failed to create SSL context'')] @
     map (\<lambda>c. (ConfCmd (fst c) (snd c), None)) cmds @ (if \<not> old then [(SetMinProtoTLS12, None)] else [])) []"
  unfolding SSLContext_new_def require_plan run_plan_append
  by (rule arg_cong [of _ _ "bindC _"]) (simp add: run_plan_ignored fails_def fun_eq_iff o_def)

lemma newSSLContext_plan: "newSSLContext ans policy isServer = run_plan ans (context_plan policy isServer) []"
proof -
  let ?cert = "if pl_certPath policy \<noteq> [] \<and> pl_keyPath policy \<noteq> []
      then [(UseCertificateChainFile (pl_certPath policy), Some (''Failed to load certificate '' @ pl_certPath policy)),
            (UsePrivateKeyFile (pl_keyPath policy), Some ''Failed to load private key''),
            (CheckPrivateKey, Some ''Private key does not match the certificate public key'')] else []"
  let ?ca = "if pl_caPath policy = [] then []
      else if isServer
      then [(LoadVerifyLocations (pl_caPath policy), Some ''Failed to load CA certificate''),
            (LoadClientCAFile (pl_caPath policy), Some ''Not CA names found in file''),
            (SetClientCAList (pl_caPath policy), None), (SetVerifyPeerFailIfNone, None)]
      else [(StoreLoadLocations (pl_caPath policy), Some ''Failed to load CA certificate''), (SetCertStore (pl_caPath policy), None)]"
  let ?sys = "if pl_validate policy \<and> pl_useSystemCertStore policy then [(SetDefaultVerifyPaths, None)] else []"
  let ?rest = "(if pl_alpnProtocols policy \<noteq> [] \<and> isServer then [(SetAlpnSelect (pl_alpnProtocols policy), None)] else []) @
     (if \<not> isServer then [(SetSessionCacheOff, None)] else []) @
     [(SetCipherList cipher_list, Some ''Failed to select secure ciphers'')]"
  have cert: "(if pl_certPath policy \<noteq> [] \<and> pl_keyPath policy \<noteq> []
            then bindC (require ans (UseCertificateChainFile (pl_certPath policy))
                         (''Failed to load certificate '' @ pl_certPath policy) c)
                   (\<lambda>c. bindC (require ans (UsePrivateKeyFile (pl_keyPath policy)) ''Failed to load private key'' c)
                   (require ans CheckPrivateKey ''Private key does not match the certificate public key''))
            else Inr c) = run_plan ans ?cert c" for c
    by (simp add: require_def fails_def)
  have ca: "(if pl_caPath policy = [] then Inr c
            else if isServer
            then bindC (require ans (LoadVerifyLocations (pl_caPath policy)) ''Failed to load CA certificate'' c)
                   (\<lambda>c. bindC (require ans (LoadClientCAFile (pl_caPath policy)) ''Not CA names found in file'' c)
                   (\<lambda>c. Inr (c @ [SetClientCAList (pl_caPath policy), SetVerifyPeerFailIfNone])))
            else bindC (require ans (StoreLoadLocations (pl_caPath policy)) ''Failed to load CA certificate'' c)
                   (\<lambda>c. Inr (c @ [SetCertStore (pl_caPath policy)]))) = run_plan ans ?ca c" for c
    by (simp add: require_def fails_def)
  have rest: "(let c = (if pl_alpnProtocols policy \<noteq> [] \<and> isServer then c @ [SetAlpnSelect (pl_alpnProtocols policy)] else c);
              c = (if \<not> isServer then c @ [SetSessionCacheOff] else c)
          in require ans (SetCipherList cipher_list) ''Failed to select secure ciphers'' c) = run_plan ans ?rest c" for c
    by (simp add: require_def fails_def Let_def)
  have sys: "bindC (run_plan ans ?sys c) f = f (if pl_validate policy \<and> pl_useSystemCertStore policy then c @ [SetDefaultVerifyPaths] else c)"
    for c f by (simp add: fails_def)
  have "context_plan policy isServer = ([(CtxNew, Some ''Failed to create SSL context'')] @
      map (\<lambda>c. (ConfCmd (fst c) (snd c), None)) (pl_confCmds policy) @ (if \<not> pl_useOldTLS policy then [(SetMinProtoTLS12, None)] else [])) @
      ?cert @ ?sys @ ?ca @ ?rest" unfolding context_plan_def by (simp only: append_assoc)
  then have "run_plan ans (context_plan policy isServer) [] =
      bindC (SSLContext_new ans (pl_useOldTLS policy) (pl_confCmds policy)) (\<lambda>c. bindC (run_plan ans ?cert c)
        (\<lambda>c. bindC (run_plan ans ?sys c) (\<lambda>c. bindC (run_plan ans ?ca c) (run_plan ans ?rest))))"
    unfolding SSLContext_new_plan by (simp only: run_plan_append [abs_def])
  also have "\<dots> = newSSLContext ans policy isServer"
    unfolding newSSLContext_def sys by (simp only: cert ca rest [unfolded Let_def] Let_def)
  finally show ?thesis by simp
qed

lemma context_plan_hardened:
  fixes policy :: tls_policy and isServer :: bool
  defines "P \<equiv> context_plan policy isServer"
  shows "last (map fst P) = SetCipherList cipher_list"
    "\<not> pl_useOldTLS policy \<Longrightarrow> \<exists>xs ys. map fst P = xs @ SetMinProtoTLS12 # ys \<and> (\<forall>a b. ConfCmd a b \<notin> set ys)"
    "(SetCipherList cipher_list, Some ''Failed to select secure ciphers'') \<in> set P"
    "pl_certPath policy \<noteq> [] \<Longrightarrow> pl_keyPath policy \<noteq> [] \<Longrightarrow>
       {(UseCertificateChainFile (pl_certPath policy), Some (''Failed to load certificate '' @ pl_certPath policy)),
        (UsePrivateKeyFile (pl_keyPath policy), Some ''Failed to load private key''),
        (CheckPrivateKey, Some ''Private key does not match the certificate public key'')} \<subseteq> set P"
    "isServer \<Longrightarrow> pl_caPath policy \<noteq> [] \<Longrightarrow>
       {(LoadVerifyLocations (pl_caPath policy), Some ''Failed to load CA certificate''), (SetVerifyPeerFailIfNone, None)} \<subseteq> set P"
proof -
  show "last (map fst P) = SetCipherList cipher_list" unfolding P_def context_plan_def by (simp add: last_map)
  show "\<exists>xs ys. map fst P = xs @ SetMinProtoTLS12 # ys \<and> (\<forall>a b. ConfCmd a b \<notin> set ys)" if "\<not> pl_useOldTLS policy"
  proof (intro exI conjI allI)
    show "map fst P = (CtxNew # map (\<lambda>c. ConfCmd (fst c) (snd c)) (pl_confCmds policy)) @
        SetMinProtoTLS12 # drop (Suc (length (CtxNew # map (\<lambda>c. ConfCmd (fst c) (snd c)) (pl_confCmds policy)))) (map fst P)"
      using that unfolding P_def context_plan_def by (simp add: o_def)
    show "ConfCmd a b \<notin> set (drop (Suc (length (CtxNew # map (\<lambda>c. ConfCmd (fst c) (snd c)) (pl_confCmds policy)))) (map fst P))" for a b
      using that unfolding P_def context_plan_def by (auto simp: o_def split: if_splits)
  qed
qed (auto simp: P_def context_plan_def)

text \<open>
  C38: a context is only handed out configured. \<^verbatim>\<open>newSSLContext\<close> makes exactly the calls of \<^term>\<open>context_plan\<close> in that order and
  ends with the exception of the first one that fails, if its answer is looked at; the answers to the configuration
  commands, to the setting of the minimal version and to the loading of the system's certificates are ignored. So when it returns, the
  cipher list has been restricted successfully and as the last call; the minimal version TLS 1.2 has been asked for, after all
  configuration commands, unless old versions are allowed; a configured certificate and key have been loaded and match; and a server with a
  CA file has loaded it and demands a client certificate.
\<close>

theorem newSSLContext_hardened:
  "(case List.find (\<lambda>(call, err). err \<noteq> None \<and> \<not> ans call) (context_plan policy isServer) of
      None \<Rightarrow> newSSLContext ans policy isServer = Inr (map fst (context_plan policy isServer))
    | Some (call, err) \<Rightarrow> newSSLContext ans policy isServer = Inl (the err)) \<and>
   (newSSLContext ans policy isServer = Inr calls \<longrightarrow>
      ans (SetCipherList cipher_list) \<and> last calls = SetCipherList cipher_list \<and>
      (\<not> pl_useOldTLS policy \<longrightarrow> (\<exists>xs ys. calls = xs @ SetMinProtoTLS12 # ys \<and> (\<forall>a b. ConfCmd a b \<notin> set ys))) \<and>
      (pl_certPath policy \<noteq> [] \<and> pl_keyPath policy \<noteq> [] \<longrightarrow>
         ans (UseCertificateChainFile (pl_certPath policy)) \<and> ans (UsePrivateKeyFile (pl_keyPath policy)) \<and> ans CheckPrivateKey) \<and>
      (isServer \<and> pl_caPath policy \<noteq> [] \<longrightarrow>
         ans (LoadVerifyLocations (pl_caPath policy)) \<and> SetVerifyPeerFailIfNone \<in> set calls))"
proof -
  have f: "(\<lambda>(call, err). err \<noteq> None \<and> \<not> ans call) = fails ans" by (auto simp: fails_def fun_eq_iff)
  note run = run_plan_find [of ans "context_plan policy isServer" "[]", folded newSSLContext_plan]
  note h = context_plan_hardened [where policy = policy and isServer = isServer]
  show ?thesis
  proof (intro conjI impI)
    show "case List.find (\<lambda>(call, err). err \<noteq> None \<and> \<not> ans call) (context_plan policy isServer) of
        None \<Rightarrow> newSSLContext ans policy isServer = Inr (map fst (context_plan policy isServer))
      | Some (call, err) \<Rightarrow> newSSLContext ans policy isServer = Inl (the err)"
      unfolding f using run by (auto split: option.splits)
    assume "newSSLContext ans policy isServer = Inr calls"
    with run have none: "List.find (fails ans) (context_plan policy isServer) = None" and
      calls: "calls = map fst (context_plan policy isServer)" by (auto split: option.splits)
    have ok: "ans call" if "(call, Some err) \<in> set (context_plan policy isServer)" for call err
      using none that by (auto simp: find_None_iff fails_def)
    show "ans (SetCipherList cipher_list)" using ok h(3) by blast
    show "last calls = SetCipherList cipher_list" unfolding calls by (rule h(1))
    show "\<exists>xs ys. calls = xs @ SetMinProtoTLS12 # ys \<and> (\<forall>a b. ConfCmd a b \<notin> set ys)" if "\<not> pl_useOldTLS policy"
      unfolding calls by (rule h(2) [OF that])
    show "ans (UseCertificateChainFile (pl_certPath policy))" "ans (UsePrivateKeyFile (pl_keyPath policy))" "ans CheckPrivateKey"
      if "pl_certPath policy \<noteq> [] \<and> pl_keyPath policy \<noteq> []" using ok h(4) that by blast+
    show "ans (LoadVerifyLocations (pl_caPath policy))" "SetVerifyPeerFailIfNone \<in> set calls"
      if "isServer \<and> pl_caPath policy \<noteq> []" using ok h(5) that unfolding calls by force+
  qed
qed

text \<open>A server whose private key does not match its certificate, and one whose minimal version could not be set.\<close>

definition example_policy :: tls_policy where
  "example_policy = defaultServerPolicy ''c.pem'' ''k.pem''"

lemmas policy_eval = example_policy_def defaultServerPolicy_def setKeyPath_def setCertPath_def setUseSystemCertStore_def
  setUseOldTLS_def setValidate_def TLSPolicy_new_def

theorem newSSLContext_hardened_witness:
  "newSSLContext (\<lambda>c. c \<noteq> CheckPrivateKey) example_policy True = Inl ''Private key does not match the certificate public key'' \<and>
   newSSLContext (\<lambda>c. c \<noteq> SetMinProtoTLS12) example_policy True =
     Inr [CtxNew, SetMinProtoTLS12, UseCertificateChainFile ''c.pem'', UsePrivateKeyFile ''k.pem'', CheckPrivateKey, SetCipherList cipher_list]"
  using newSSLContext_hardened [of "\<lambda>c. c \<noteq> CheckPrivateKey" example_policy True]
    newSSLContext_hardened [of "\<lambda>c. c \<noteq> SetMinProtoTLS12" example_policy True]
  by (simp add: context_plan_def policy_eval)

end
