(* ===== verification/TcpConnection.thy ===== *)
theory TcpConnection
  imports MsgBuffer TLS
begin

text \<open>
  Connections (\<^verbatim>\<open>cooper/net/TcpConnectionImpl.*\<close>) with their TLS layer (\<^verbatim>\<open>TLSProvider.hpp\<close> and the provider
  in \<^verbatim>\<open>OpenSSLProvider.cpp\<close>): the status of a connection, the list of buffers, files and streams that
  wait to be written, sending from any thread, the handlers of the channel, closing and shutting down,
  and idle timeouts. The kernel is a list of the answers that \<^verbatim>\<open>write\<close> and \<^verbatim>\<open>sendfile\<close> will give; the bytes it
  has taken are kept in \<open>cn_wire\<close>. OpenSSL is a record of functions on an engine state. Callbacks of the user are
  recorded as events; what a callback calls is a following operation.
\<close>

section \<open>State\<close>

datatype conn_status = Disconnected | Connecting | Connected | Disconnecting

text \<open>
  A node of the list of things to write (\<^verbatim>\<open>BufferNode\<close>): a buffer, an open file, or a stream. The file is what its
  descriptor gives to read (\<open>None\<close> when reading fails); a stream is the list of the chunks its callback will
  return, and an empty chunk or the end of the list ends it.
\<close>

record buffer_node =
  nd_sendFd :: int
  nd_offset :: nat
  nd_fileBytesToSend :: int
  nd_file :: "byte list option"
  nd_stream :: "byte list list option"
  nd_msgBuffer :: msgbuf

definition isFile_node :: "buffer_node \<Rightarrow> bool" where
  "isFile_node nd = (if nd_stream nd \<noteq> None then True else if nd_sendFd nd \<ge> 0 then True else False)"

datatype ssl_error = kSSLHandshakeError | kSSLInvalidCertificate | kSSLProtocolError

datatype conn_event =
    ConnectionCb conn_status
  | RecvMsgCb
  | CloseCb
  | WriteCompleteCb
  | HighWaterMarkCb nat
  | SslErrorCb ssl_error
  | UpgradeCb
  | StoreSession string
  | WheelInsert nat
  | CloseFile int
  | StreamCleanup
  | ChannelRemoved

datatype sys_write = WriteErr int | WriteOk nat

text \<open>What is queued in the loop for the connection.\<close>

datatype task = TaskSend "byte list" | TaskNode buffer_node | TaskShutdown | TaskForceClose | TaskEstablished

record 'e tls =
  tl_ssl :: 'e
  tl_policy :: tls_policy
  tl_isServer :: bool
  tl_writeBuffer :: msgbuf
  tl_recvBuffer :: msgbuf
  tl_processedHandshakeError :: bool
  tl_processedSslError :: bool
  tl_applicationProtocol :: string
  tl_sniName :: string
  tl_peerCertificate :: "certificate option"

record 'e conn =
  cn_status :: conn_status
  cn_reading :: bool
  cn_writing :: bool
  cn_readBuffer :: msgbuf
  cn_writeBufferList :: "buffer_node list"
  cn_fileBuffer :: "byte list option"
  cn_sendNum :: nat
  cn_queue :: "task list"
  cn_bytesSent :: nat
  cn_bytesReceived :: nat
  cn_closeOnEmpty :: bool
  cn_writeClosed :: bool
  cn_tls :: "'e tls option"
  cn_upgradeCallback :: bool
  cn_connectionCallback :: bool
  cn_recvMsgCallback :: bool
  cn_closeCallback :: bool
  cn_writeCompleteCallback :: bool
  cn_sslErrorCallback :: bool
  cn_highWaterMark :: "nat option"
  cn_idleTimeout :: nat
  cn_lastTimingWheelUpdate :: int
  cn_kickoffEntry :: "bool option"
  cn_timingWheel :: bool
  cn_clock :: int
  cn_kernel :: "sys_write list"
  cn_errno :: int
  cn_wire :: "byte list"
  cn_events :: "conn_event list"

text \<open>The functions of OpenSSL that the provider calls, on the state of an SSL object and its two memory BIOs.\<close>

record 'e ssl_engine =
  eg_write :: "byte list \<Rightarrow> 'e \<Rightarrow> int \<times> 'e"
  eg_read :: "nat \<Rightarrow> 'e \<Rightarrow> int \<times> byte list \<times> 'e"
  eg_bio_write :: "byte list \<Rightarrow> 'e \<Rightarrow> int \<times> 'e"
  eg_bio_pending :: "'e \<Rightarrow> nat"
  eg_wbio_data :: "'e \<Rightarrow> byte list option"
  eg_wbio_reset :: "'e \<Rightarrow> 'e"
  eg_init_finished :: "'e \<Rightarrow> bool"
  eg_do_handshake :: "'e \<Rightarrow> int \<times> 'e"
  eg_get_error :: "int \<Rightarrow> 'e \<Rightarrow> int"
  eg_received_shutdown :: "'e \<Rightarrow> bool"
  eg_shutdown :: "'e \<Rightarrow> 'e"
  eg_set_state :: "bool \<Rightarrow> byte list \<Rightarrow> 'e \<Rightarrow> 'e"
  eg_servername :: "'e \<Rightarrow> string option"
  eg_alpn_selected :: "'e \<Rightarrow> string option"
  eg_session_storable :: "'e \<Rightarrow> bool"
  eg_peer_certificate :: "'e \<Rightarrow> certificate option"
  eg_verify_result :: "'e \<Rightarrow> int"

abbreviation EAGAIN :: int where "EAGAIN \<equiv> 11"
abbreviation EPIPE :: int where "EPIPE \<equiv> 32"
abbreviation ECONNRESET :: int where "ECONNRESET \<equiv> 104"
abbreviation SSL_ERROR_SSL :: int where "SSL_ERROR_SSL \<equiv> 1"
abbreviation SSL_ERROR_WANT_READ :: int where "SSL_ERROR_WANT_READ \<equiv> 2"
abbreviation SSL_ERROR_WANT_WRITE :: int where "SSL_ERROR_WANT_WRITE \<equiv> 3"
abbreviation SSL_ERROR_SYSCALL :: int where "SSL_ERROR_SYSCALL \<equiv> 5"
abbreviation kMaxSendFileBufferSize :: nat where "kMaxSendFileBufferSize \<equiv> 16384"

definition emit :: "conn_event \<Rightarrow> 'e conn \<Rightarrow> 'e conn" where
  "emit ev c = c\<lparr>cn_events := cn_events c @ [ev]\<rparr>"

definition io_enableWriting :: "'e conn \<Rightarrow> 'e conn" where
  "io_enableWriting c = c\<lparr>cn_writing := True\<rparr>"

definition io_disableWriting :: "'e conn \<Rightarrow> 'e conn" where
  "io_disableWriting c = c\<lparr>cn_writing := False\<rparr>"

definition io_disableAll :: "'e conn \<Rightarrow> 'e conn" where
  "io_disableAll c = c\<lparr>cn_reading := False, cn_writing := False\<rparr>"

definition closeWrite :: "'e conn \<Rightarrow> 'e conn" where
  "closeWrite c = c\<lparr>cn_writeClosed := True\<rparr>"

section \<open>Writing to the socket\<close>

text \<open>
  \<^verbatim>\<open>write\<close> takes some of the bytes or fails and sets \<^verbatim>\<open>errno\<close>; Linux never takes more than \<open>0x7ffff000\<close>
  bytes at once, so that the \<^verbatim>\<open>int\<close> it is stored in does not overflow. A kernel that has no answer left would block.
\<close>

definition k_write :: "byte list \<Rightarrow> 'e conn \<Rightarrow> int \<times> 'e conn" where
  "k_write d c =
     (case cn_kernel c of
        [] \<Rightarrow> (-1, c\<lparr>cn_errno := EAGAIN\<rparr>)
      | WriteErr e # ks \<Rightarrow> (-1, c\<lparr>cn_kernel := ks, cn_errno := e\<rparr>)
      | WriteOk n # ks \<Rightarrow>
          (let m = min (min n (length d)) 2147479552
           in (int m, c\<lparr>cn_kernel := ks, cn_wire := cn_wire c @ take m d\<rparr>)))"

definition writeRaw :: "byte list \<Rightarrow> 'e conn \<Rightarrow> int \<times> 'e conn" where
  "writeRaw d c =
     (let (nWritten, c) = k_write d c
      in (nWritten, if nWritten > 0 then c\<lparr>cn_bytesSent := szadd (cn_bytesSent c) (nat nWritten)\<rparr> else c))"

section \<open>The TLS provider, sending\<close>

definition with_tls :: "('e tls \<Rightarrow> 'e tls) \<Rightarrow> 'e conn \<Rightarrow> 'e conn" where
  "with_tls f c = c\<lparr>cn_tls := map_option f (cn_tls c)\<rparr>"

definition buffered :: "'e conn \<Rightarrow> nat" where
  "buffered c = (case cn_tls c of None \<Rightarrow> 0 | Some t \<Rightarrow> readableBytes (tl_writeBuffer t))"

definition appendToWriteBuffer :: "byte list \<Rightarrow> 'e conn \<Rightarrow> 'e conn result" where
  "appendToWriteBuffer d c =
     (case cn_tls c of
        None \<Rightarrow> Inl NullCall
      | Some t \<Rightarrow>
          bindR (ensureWritableBytes (tl_writeBuffer t) (length d)) (\<lambda>b.
          bindR (append_bytes b d) (\<lambda>b. Inr (with_tls (\<lambda>t. t\<lparr>tl_writeBuffer := b\<rparr>) c))))"

definition sendBufferedData :: "'e conn \<Rightarrow> (bool \<times> 'e conn) result" where
  "sendBufferedData c =
     (case cn_tls c of
        None \<Rightarrow> Inl NullCall
      | Some t \<Rightarrow>
          (let b = tl_writeBuffer t in
           if readableBytes b = 0 then Inr (True, c)
           else bindR (peek_bytes b (readableBytes b)) (\<lambda>d.
                let (n, c) = writeRaw d c in
                if n = -1 then Inr (False, c)
                else if nat n \<noteq> readableBytes b
                then bindR (retrieve b (nat n)) (\<lambda>b. Inr (False, with_tls (\<lambda>t. t\<lparr>tl_writeBuffer := b\<rparr>) c))
                else bindR (retrieveAll b) (\<lambda>b. Inr (True, with_tls (\<lambda>t. t\<lparr>tl_writeBuffer := b\<rparr>) c)))))"

text \<open>\<^verbatim>\<open>sendTLSData\<close>: what the engine has produced goes to the socket, the rest into the write buffer.\<close>

definition sendTLSData :: "'e ssl_engine \<Rightarrow> 'e conn \<Rightarrow> (int \<times> 'e conn) result" where
  "sendTLSData E c =
     (case cn_tls c of
        None \<Rightarrow> Inl NullCall
      | Some t \<Rightarrow>
          (case eg_wbio_data E (tl_ssl t) of
             None \<Rightarrow> Inr (-1, c)
           | Some d \<Rightarrow>
               if d = [] then Inr (0, c)
               else (let (n, c) = writeRaw d c;
                         offset = (if n = -1 then 0 else nat n)
                     in bindR (appendToWriteBuffer (drop offset d) c) (\<lambda>c.
                        Inr (int (length d), with_tls (\<lambda>t. t\<lparr>tl_ssl := eg_wbio_reset E (tl_ssl t)\<rparr>) c)))))"

definition tls_close :: "'e ssl_engine \<Rightarrow> 'e conn \<Rightarrow> 'e conn result" where
  "tls_close E c =
     (case cn_tls c of
        None \<Rightarrow> Inl NullCall
      | Some t \<Rightarrow>
          if \<not> eg_init_finished E (tl_ssl t) then Inr c
          else bindR (sendTLSData E (with_tls (\<lambda>t. t\<lparr>tl_ssl := eg_shutdown E (tl_ssl t)\<rparr>) c)) (\<lambda>(n, c). Inr c))"

section \<open>Closing\<close>

definition handleClose :: "'e conn \<Rightarrow> 'e conn" where
  "handleClose c =
     (let c = io_disableAll (c\<lparr>cn_status := Disconnected\<rparr>);
          c = (if cn_connectionCallback c then emit (ConnectionCb Disconnected) c else c)
      in if cn_closeCallback c then emit CloseCb c else c)"

definition forceClose_inLoop :: "'e conn \<Rightarrow> 'e conn" where
  "forceClose_inLoop c =
     (if cn_status c = Connected \<or> cn_status c = Disconnecting
      then handleClose (c\<lparr>cn_status := Disconnecting\<rparr>) else c)"

definition forceClose :: "bool \<Rightarrow> 'e conn \<Rightarrow> 'e conn" where
  "forceClose inLoop c = (if inLoop then forceClose_inLoop c else c\<lparr>cn_queue := cn_queue c @ [TaskForceClose]\<rparr>)"

definition shutdown_inLoop :: "'e ssl_engine \<Rightarrow> 'e conn \<Rightarrow> 'e conn result" where
  "shutdown_inLoop E c =
     (if cn_status c = Connected
      then (if cn_tls c \<noteq> None \<and> (buffered c \<noteq> 0 \<or> cn_writeBufferList c \<noteq> [])
            then Inr (c\<lparr>cn_closeOnEmpty := True\<rparr>)
            else bindR (if cn_tls c \<noteq> None then tls_close E c else Inr c) (\<lambda>c.
              if cn_tls c = None \<and> cn_writeBufferList c \<noteq> [] then Inr (c\<lparr>cn_closeOnEmpty := True\<rparr>)
              else (let c = c\<lparr>cn_status := Disconnecting\<rparr>
                    in Inr (if \<not> cn_writing c then closeWrite c else c))))
      else Inr c)"

definition shutdown :: "'e ssl_engine \<Rightarrow> bool \<Rightarrow> 'e conn \<Rightarrow> 'e conn result" where
  "shutdown E inLoop c =
     (if inLoop then shutdown_inLoop E c else Inr (c\<lparr>cn_queue := cn_queue c @ [TaskShutdown]\<rparr>))"

definition connectDestroyed :: "'e conn \<Rightarrow> 'e conn" where
  "connectDestroyed c =
     (let c = (if cn_status c = Connected
               then emit (ConnectionCb Disconnected) (io_disableAll (c\<lparr>cn_status := Disconnected\<rparr>)) else c)
      in emit ChannelRemoved c)"

definition TcpConnection_delete :: "'e ssl_engine \<Rightarrow> 'e conn \<Rightarrow> 'e conn result" where
  "TcpConnection_delete E c = (if cn_tls c \<noteq> None \<and> cn_status c = Connected then tls_close E c else Inr c)"

definition onSslError :: "ssl_error \<Rightarrow> 'e conn \<Rightarrow> 'e conn" where
  "onSslError err c =
     (let c = forceClose True c in if cn_sslErrorCallback c then emit (SslErrorCb err) c else c)"

definition handleSSLError :: "'e ssl_engine \<Rightarrow> ssl_error \<Rightarrow> 'e conn \<Rightarrow> 'e conn result" where
  "handleSSLError E err c =
     bindR (sendTLSData E c) (\<lambda>(n, c).
       case cn_tls c of
         None \<Rightarrow> Inl NullCall
       | Some t \<Rightarrow> if tl_processedSslError t then Inr c
                   else Inr (onSslError err (with_tls (\<lambda>t. t\<lparr>tl_processedSslError := True\<rparr>) c)))"

definition tls_sendData :: "'e ssl_engine \<Rightarrow> byte list \<Rightarrow> 'e conn \<Rightarrow> (int \<times> 'e conn) result" where
  "tls_sendData E d c =
     (case cn_tls c of
        None \<Rightarrow> Inl NullCall
      | Some t \<Rightarrow>
          if buffered c \<noteq> 0 then Inr (-1, c\<lparr>cn_errno := EAGAIN\<rparr>)
          else (let d = take 65536 d; (n, e) = eg_write E d (tl_ssl t);
                    c = with_tls (\<lambda>t. t\<lparr>tl_ssl := e\<rparr>) c
                in if n \<le> 0 \<and> d \<noteq> [] then bindR (handleSSLError E kSSLProtocolError c) (\<lambda>c. Inr (-1, c))
                   else bindR (sendTLSData E c) (\<lambda>(num, c).
                        if num = -1 then Inr (-1, c) else Inr (int (length d), c))))"

definition writeInLoop :: "'e ssl_engine \<Rightarrow> byte list \<Rightarrow> 'e conn \<Rightarrow> (int \<times> 'e conn) result" where
  "writeInLoop E d c = (if cn_tls c \<noteq> None then tls_sendData E d c else Inr (writeRaw d c))"

section \<open>Idle timeouts\<close>

text \<open>\<open>cn_kickoffEntry\<close> is \<open>None\<close> when the entry of the timing wheel has expired; the flag tells whether the entry still
  refers to the connection. Times are microseconds; \<open>cn_clock\<close> is what \<^verbatim>\<open>Date::date()\<close> returns.\<close>

definition extendLife :: "'e conn \<Rightarrow> 'e conn" where
  "extendLife c =
     (if cn_idleTimeout c > 0
      then (if cn_clock c < cn_lastTimingWheelUpdate c + 1000000 then c
            else (let c = c\<lparr>cn_lastTimingWheelUpdate := cn_clock c\<rparr>
                  in if cn_kickoffEntry c \<noteq> None \<and> cn_timingWheel c then emit (WheelInsert (cn_idleTimeout c)) c else c))
      else c)"

definition enableKickingOff :: "nat \<Rightarrow> 'e conn \<Rightarrow> 'e conn result" where
  "enableKickingOff timeout c =
     assertR (timeout > 0)
       (Inr (emit (WheelInsert timeout)
         (c\<lparr>cn_kickoffEntry := Some True, cn_timingWheel := True, cn_idleTimeout := timeout\<rparr>)))"

definition keepAlive :: "'e conn \<Rightarrow> 'e conn" where
  "keepAlive c = c\<lparr>cn_idleTimeout := 0, cn_kickoffEntry := map_option (\<lambda>_. False) (cn_kickoffEntry c)\<rparr>"

definition isKeepAlive :: "'e conn \<Rightarrow> bool" where
  "isKeepAlive c = (cn_idleTimeout c = 0)"

text \<open>The destructor of the entry, when the wheel drops its last reference.\<close>

definition kickoff_expired :: "'e conn \<Rightarrow> 'e conn" where
  "kickoff_expired c =
     (let live = (cn_kickoffEntry c = Some True); c = c\<lparr>cn_kickoffEntry := None\<rparr>
      in if live then forceClose True c else c)"

section \<open>Files and streams\<close>

definition upd_front :: "(buffer_node \<Rightarrow> buffer_node) \<Rightarrow> 'e conn \<Rightarrow> 'e conn" where
  "upd_front f c = c\<lparr>cn_writeBufferList := (case cn_writeBufferList c of [] \<Rightarrow> [] | nd # nds \<Rightarrow> f nd # nds)\<rparr>"

definition ensure_writing :: "'e conn \<Rightarrow> 'e conn" where
  "ensure_writing c = (if \<not> cn_writing c then io_enableWriting c else c)"

definition sys_sendfile :: "buffer_node \<Rightarrow> 'e conn \<Rightarrow> int \<times> 'e conn" where
  "sys_sendfile nd c =
     (case nd_file nd of
        None \<Rightarrow> (-1, c\<lparr>cn_errno := 5\<rparr>)
      | Some f \<Rightarrow>
          (case cn_kernel c of
             [] \<Rightarrow> (-1, c\<lparr>cn_errno := EAGAIN\<rparr>)
           | WriteErr e # ks \<Rightarrow> (-1, c\<lparr>cn_kernel := ks, cn_errno := e\<rparr>)
           | WriteOk n # ks \<Rightarrow>
               (let m = min (min n (nat (nd_fileBytesToSend nd))) (min (length f - nd_offset nd) 2147479552)
                in (int m, upd_front (\<lambda>nd. nd\<lparr>nd_offset := nd_offset nd + m\<rparr>)
                      (c\<lparr>cn_kernel := ks, cn_wire := cn_wire c @ take m (drop (nd_offset nd) f)\<rparr>)))))"

definition next_chunk :: "buffer_node \<Rightarrow> byte list \<times> buffer_node" where
  "next_chunk nd =
     (case nd_stream nd of
        Some (ch # chs) \<Rightarrow> (take kMaxSendFileBufferSize ch, nd\<lparr>nd_stream := Some chs\<rparr>)
      | _ \<Rightarrow> ([], nd))"

definition file_buf :: "'e conn \<Rightarrow> byte list" where
  "file_buf c = (case cn_fileBuffer c of None \<Rightarrow> [] | Some b \<Rightarrow> b)"

text \<open>Fetching the next chunk of the stream at the front into an empty file buffer.\<close>

definition fetch_chunk :: "'e conn \<Rightarrow> 'e conn" where
  "fetch_chunk c =
     (case cn_writeBufferList c of
        [] \<Rightarrow> c
      | nd # nds \<Rightarrow>
          (let (chunk, nd) = next_chunk nd;
               nd = (if chunk = [] then nd\<lparr>nd_fileBytesToSend := 0\<rparr> else nd)
           in c\<lparr>cn_fileBuffer := Some chunk, cn_writeBufferList := nd # nds\<rparr>))"

text \<open>The loop of a stream; the flag tells that the loop was left at its end, not by a return.\<close>

fun stream_loop :: "nat \<Rightarrow> 'e ssl_engine \<Rightarrow> 'e conn \<Rightarrow> (bool \<times> 'e conn) result" where
  "stream_loop 0 E c = Inl Diverges"
| "stream_loop (Suc fuel) E c =
     (if \<not> (nd_fileBytesToSend (hd (cn_writeBufferList c)) > 0 \<or> file_buf c \<noteq> []) then Inr (True, c)
      else (let c = (if file_buf c = [] then fetch_chunk c else c); fb = file_buf c in
            if fb = [] then Inr (True, c)
            else bindR (writeInLoop E fb c) (\<lambda>(nWritten, c).
                 if nWritten \<ge> 0
                 then (if nat nWritten < length fb
                       then Inr (False, ensure_writing (c\<lparr>cn_fileBuffer := Some (drop (nat nWritten) fb)\<rparr>))
                       else stream_loop fuel E (c\<lparr>cn_fileBuffer := Some []\<rparr>))
                 else if cn_errno c \<noteq> EAGAIN
                 then Inr (False, upd_front (\<lambda>nd. nd\<lparr>nd_fileBytesToSend := 0\<rparr>) c)
                 else Inr (True, c))))"

text \<open>The loop that reads a file and writes it through TLS.\<close>

fun tls_file_loop :: "nat \<Rightarrow> 'e ssl_engine \<Rightarrow> 'e conn \<Rightarrow> (bool \<times> 'e conn) result" where
  "tls_file_loop 0 E c = Inl Diverges"
| "tls_file_loop (Suc fuel) E c =
     (let nd = hd (cn_writeBufferList c) in
      if \<not> nd_fileBytesToSend nd > 0 then Inr (True, c)
      else case nd_file nd of
        None \<Rightarrow> Inr (False, if cn_writing c then io_disableWriting c else c)
      | Some f \<Rightarrow>
          (let d = take (min (length (file_buf c)) (nat (nd_fileBytesToSend nd))) (drop (nd_offset nd) f);
               c = c\<lparr>cn_fileBuffer := Some (d @ drop (length d) (file_buf c))\<rparr>
           in if d = [] then Inr (False, c)
              else bindR (writeInLoop E d c) (\<lambda>(nSend, c).
                   if nSend \<ge> 0
                   then (let c = upd_front (\<lambda>nd. nd\<lparr>nd_fileBytesToSend := nd_fileBytesToSend nd - nSend,
                                                    nd_offset := nd_offset nd + nat nSend\<rparr>) c
                         in if nat nSend < length d then Inr (False, ensure_writing c)
                            else tls_file_loop fuel E c)
                   else if cn_errno c \<noteq> EAGAIN then Inr (False, c)
                   else Inr (True, c))))"

text \<open>\<^verbatim>\<open>sendFileInLoop\<close> is only ever called with the front of the list.\<close>

definition sendFileInLoop :: "'e ssl_engine \<Rightarrow> 'e conn \<Rightarrow> 'e conn result" where
  "sendFileInLoop E c =
     (case cn_writeBufferList c of
        [] \<Rightarrow> Inl NullCall
      | nd # nds \<Rightarrow>
          assertR (isFile_node nd)
            (if nd_stream nd = None \<and> cn_tls c = None
             then (let (bytesSent, c) = sys_sendfile nd c in
                   if bytesSent < 0
                   then Inr (if cn_errno c \<noteq> EAGAIN \<and> cn_writing c then io_disableWriting c else c)
                   else if bytesSent < nd_fileBytesToSend nd \<and> bytesSent = 0 then Inr c
                   else Inr (ensure_writing
                          (upd_front (\<lambda>nd. nd\<lparr>nd_fileBytesToSend := nd_fileBytesToSend nd - bytesSent\<rparr>) c)))
             else if nd_stream nd \<noteq> None
             then bindR (stream_loop (Suc (Suc (length (the (nd_stream nd))))) E
                          (c\<lparr>cn_fileBuffer := Some (file_buf c)\<rparr>))
                    (\<lambda>(atEnd, c). Inr (if atEnd then ensure_writing c else c))
             else bindR (tls_file_loop (Suc (nat (nd_fileBytesToSend nd))) E
                          (c\<lparr>cn_fileBuffer := Some (file_buf c @ replicate (kMaxSendFileBufferSize - length (file_buf c)) (CHR 0x00))\<rparr>))
                    (\<lambda>(atEnd, c). Inr (if atEnd then ensure_writing c else c))))"

section \<open>Sending\<close>

definition new_buffer_node :: "buffer_node result" where
  "new_buffer_node = bindR (MsgBuffer_new kBufferDefaultLength) (\<lambda>b.
     Inr \<lparr>nd_sendFd = -1, nd_offset = 0, nd_fileBytesToSend = 0, nd_file = None, nd_stream = None, nd_msgBuffer = b\<rparr>)"

definition append_last :: "byte list \<Rightarrow> buffer_node list \<Rightarrow> buffer_node list result" where
  "append_last d nds =
     bindR (append_bytes (nd_msgBuffer (last nds)) d) (\<lambda>b. Inr (butlast nds @ [(last nds)\<lparr>nd_msgBuffer := b\<rparr>]))"

definition high_water :: "'e conn \<Rightarrow> 'e conn" where
  "high_water c =
     (case cn_highWaterMark c of
        None \<Rightarrow> c
      | Some mark \<Rightarrow>
          (let n = readableBytes (nd_msgBuffer (last (cn_writeBufferList c)));
               c = (if n > mark then emit (HighWaterMarkCb n) c else c)
           in if cn_tls c \<noteq> None \<and> buffered c > mark then emit (HighWaterMarkCb (buffered c)) c else c))"

text \<open>Queueing the rest of a message that could not be written at once.\<close>

definition queue_rest :: "byte list \<Rightarrow> 'e conn \<Rightarrow> 'e conn result" where
  "queue_rest d c =
     bindR (if cn_writeBufferList c = [] \<or> isFile_node (last (cn_writeBufferList c))
            then bindR new_buffer_node (\<lambda>nd. Inr (cn_writeBufferList c @ [nd]))
            else Inr (cn_writeBufferList c)) (\<lambda>nds.
     bindR (append_last d nds) (\<lambda>nds.
     Inr (high_water (ensure_writing (c\<lparr>cn_writeBufferList := nds\<rparr>)))))"

definition sendInLoop :: "'e ssl_engine \<Rightarrow> byte list \<Rightarrow> 'e conn \<Rightarrow> 'e conn result" where
  "sendInLoop E d c =
     (if cn_status c \<noteq> Connected then Inr c
      else (let c = extendLife c in
            bindR (if \<not> cn_writing c \<and> cn_writeBufferList c = []
                   then writeInLoop E d c
                   else Inr (0, c)) (\<lambda>(sendLen, c').
            let direct = (\<not> cn_writing c \<and> cn_writeBufferList c = []) in
            if direct \<and> sendLen < 0 \<and> cn_errno c' \<noteq> EAGAIN then Inr c'
            else (let rest = drop (if sendLen < 0 then 0 else nat sendLen) d in
                  if rest \<noteq> [] \<and> cn_status c' = Connected then queue_rest rest c' else Inr c'))))"

text \<open>
  The protocol shared by all functions that send: in the loop thread, when nothing of this connection is
  queued, the work is done at once, otherwise it is queued behind what is there; \<^verbatim>\<open>sendNum_\<close> counts
  the queued sends.
\<close>

definition send_or_queue :: "bool \<Rightarrow> task \<Rightarrow> ('e conn \<Rightarrow> 'e conn result) \<Rightarrow> 'e conn \<Rightarrow> 'e conn result" where
  "send_or_queue inLoop t now c =
     (if inLoop \<and> cn_sendNum c = 0 then now c
      else Inr (c\<lparr>cn_sendNum := szadd (cn_sendNum c) 1, cn_queue := cn_queue c @ [t]\<rparr>))"

definition send_data :: "'e ssl_engine \<Rightarrow> bool \<Rightarrow> byte list \<Rightarrow> 'e conn \<Rightarrow> 'e conn result" where
  "send_data E inLoop d c = send_or_queue inLoop (TaskSend d) (sendInLoop E d) c"

definition send_charp :: "'e ssl_engine \<Rightarrow> bool \<Rightarrow> byte list \<Rightarrow> nat \<Rightarrow> 'e conn \<Rightarrow> 'e conn result" where
  "send_charp E inLoop msg len c = bindR (mem_read msg 0 len) (\<lambda>d. send_data E inLoop d c)"

definition send_voidp :: "'e ssl_engine \<Rightarrow> bool \<Rightarrow> byte list \<Rightarrow> nat \<Rightarrow> 'e conn \<Rightarrow> 'e conn result" where
  "send_voidp E inLoop msg len c = bindR (mem_read msg 0 len) (\<lambda>d. send_data E inLoop d c)"

definition send_string :: "'e ssl_engine \<Rightarrow> bool \<Rightarrow> string \<Rightarrow> 'e conn \<Rightarrow> 'e conn result" where
  "send_string E inLoop msg c = send_data E inLoop msg c"

definition send_string_move :: "'e ssl_engine \<Rightarrow> bool \<Rightarrow> string \<Rightarrow> 'e conn \<Rightarrow> 'e conn result" where
  "send_string_move E inLoop msg c = send_data E inLoop msg c"

definition send_shared_string :: "'e ssl_engine \<Rightarrow> bool \<Rightarrow> string \<Rightarrow> 'e conn \<Rightarrow> 'e conn result" where
  "send_shared_string E inLoop msg c = send_data E inLoop msg c"

definition send_buffer :: "'e ssl_engine \<Rightarrow> bool \<Rightarrow> msgbuf \<Rightarrow> 'e conn \<Rightarrow> 'e conn result" where
  "send_buffer E inLoop b c = bindR (peek_bytes b (readableBytes b)) (\<lambda>d. send_data E inLoop d c)"

definition send_buffer_move :: "'e ssl_engine \<Rightarrow> bool \<Rightarrow> msgbuf \<Rightarrow> 'e conn \<Rightarrow> 'e conn result" where
  "send_buffer_move E inLoop b c = bindR (peek_bytes b (readableBytes b)) (\<lambda>d. send_data E inLoop d c)"

definition send_shared_buffer :: "'e ssl_engine \<Rightarrow> bool \<Rightarrow> msgbuf \<Rightarrow> 'e conn \<Rightarrow> 'e conn result" where
  "send_shared_buffer E inLoop b c = bindR (peek_bytes b (readableBytes b)) (\<lambda>d. send_data E inLoop d c)"

text \<open>\<^verbatim>\<open>sendJson\<close> sends the text of a JSON value behind its length in four bytes; the text is the argument. The
  length is kept in an \<^verbatim>\<open>int\<close>; a text that does not fit makes the size of the vector negative.\<close>

definition json_packet :: "string \<Rightarrow> byte list" where
  "json_packet str = le_bytes 4 (length str) @ str"

definition sendJson :: "'e ssl_engine \<Rightarrow> bool \<Rightarrow> string \<Rightarrow> 'e conn \<Rightarrow> 'e conn result" where
  "sendJson E inLoop str c =
     (if length str \<ge> 2147483648 then Inl LengthError
      else send_charp E inLoop (json_packet str) (length (json_packet str)) c)"

definition push_node :: "'e ssl_engine \<Rightarrow> buffer_node \<Rightarrow> 'e conn \<Rightarrow> 'e conn result" where
  "push_node E nd c =
     (let c = c\<lparr>cn_writeBufferList := cn_writeBufferList c @ [nd]\<rparr>
      in if length (cn_writeBufferList c) = 1 then sendFileInLoop E c else Inr c)"

definition send_node :: "'e ssl_engine \<Rightarrow> bool \<Rightarrow> buffer_node \<Rightarrow> 'e conn \<Rightarrow> 'e conn result" where
  "send_node E inLoop nd c = send_or_queue inLoop (TaskNode nd) (push_node E nd) c"

text \<open>The length is a \<^verbatim>\<open>size_t\<close>, the member of the node a signed number of the same width.\<close>

definition to_ssize :: "nat \<Rightarrow> int" where
  "to_ssize n = (let m = n mod (size_max + 1) in if m \<le> vec_max then int m else int m - (int size_max + 1))"

lemma to_ssize_small [simp]: "n \<le> vec_max \<Longrightarrow> to_ssize n = int n"
  by (simp add: to_ssize_def)

definition sendFile_fd :: "'e ssl_engine \<Rightarrow> bool \<Rightarrow> int \<Rightarrow> byte list option \<Rightarrow> nat \<Rightarrow> nat \<Rightarrow> 'e conn \<Rightarrow> 'e conn result" where
  "sendFile_fd E inLoop sfd f offset len c =
     assertR (len > 0) (assertR (sfd \<ge> 0)
       (bindR new_buffer_node (\<lambda>nd.
          send_node E inLoop (nd\<lparr>nd_sendFd := sfd, nd_offset := offset, nd_fileBytesToSend := to_ssize len, nd_file := f\<rparr>) c)))"

text \<open>The path is opened by \<open>openFile\<close>, which gives a descriptor and what can be read from it.\<close>

definition sendFile :: "'e ssl_engine \<Rightarrow> bool \<Rightarrow> (int \<times> byte list) option \<Rightarrow> nat \<Rightarrow> nat \<Rightarrow> 'e conn \<Rightarrow> 'e conn result" where
  "sendFile E inLoop openFile offset len c =
     (case openFile of
        None \<Rightarrow> Inr c
      | Some (fd, f) \<Rightarrow> sendFile_fd E inLoop fd (Some f) offset (if len = 0 then length f else len) c)"

definition sendStream :: "'e ssl_engine \<Rightarrow> bool \<Rightarrow> byte list list \<Rightarrow> 'e conn \<Rightarrow> 'e conn result" where
  "sendStream E inLoop chunks c =
     bindR new_buffer_node (\<lambda>nd.
       send_node E inLoop (nd\<lparr>nd_offset := 0, nd_fileBytesToSend := 1, nd_stream := Some chunks\<rparr>) c)"

section \<open>Handlers of the channel\<close>

text \<open>Removing the front of the list destroys the node: a file is closed, a stream is told to clean up.\<close>

definition pop_front :: "'e conn \<Rightarrow> 'e conn" where
  "pop_front c =
     (case cn_writeBufferList c of
        [] \<Rightarrow> c
      | nd # nds \<Rightarrow>
          (let c = c\<lparr>cn_writeBufferList := nds\<rparr>;
               c = (if nd_sendFd nd \<ge> 0 then emit (CloseFile (nd_sendFd nd)) c else c)
           in if nd_stream nd \<noteq> None then emit StreamCleanup c else c))"

definition all_written :: "'e conn \<Rightarrow> 'e conn" where
  "all_written c =
     (let c = io_disableWriting c;
          c = (if cn_writeCompleteCallback c then emit WriteCompleteCb c else c)
      in if cn_status c = Disconnecting then closeWrite c else c)"

text \<open>Writing from the buffer at the front; the flag is false when the handler returns because of an error.\<close>

definition write_front :: "'e ssl_engine \<Rightarrow> 'e conn \<Rightarrow> (bool \<times> 'e conn) result" where
  "write_front E c =
     (case cn_writeBufferList c of
        [] \<Rightarrow> Inl NullCall
      | nd # nds \<Rightarrow>
          (let b = nd_msgBuffer nd in
           bindR (peek_bytes b (readableBytes b)) (\<lambda>d.
           bindR (writeInLoop E d c) (\<lambda>(n, c).
           if n \<ge> 0 then bindR (retrieve b (nat n)) (\<lambda>b. Inr (True, upd_front (\<lambda>nd. nd\<lparr>nd_msgBuffer := b\<rparr>) c))
           else Inr (cn_errno c = EAGAIN, c)))))"

definition write_step :: "'e ssl_engine \<Rightarrow> 'e conn \<Rightarrow> (bool \<times> 'e conn) result" where
  "write_step E c =
     (case cn_writeBufferList c of
        [] \<Rightarrow> Inl AssertFail
      | nd # nds \<Rightarrow>
          (let go_on = (\<lambda>r. bindR r (\<lambda>c. Inr (True, c))) in
           if \<not> isFile_node nd
           then (if readableBytes (nd_msgBuffer nd) \<le> 0
                 then (let c = pop_front c in
                       case cn_writeBufferList c of
                         [] \<Rightarrow> Inr (True, all_written c)
                       | nd' # _ \<Rightarrow> assertR (isFile_node nd') (go_on (sendFileInLoop E c)))
                 else write_front E c)
           else (if nd_fileBytesToSend nd \<le> 0
                 then (let c = pop_front c in
                       case cn_writeBufferList c of
                         [] \<Rightarrow> Inr (True, all_written c)
                       | nd' # _ \<Rightarrow> if \<not> isFile_node nd' then write_front E c else go_on (sendFileInLoop E c))
                 else go_on (sendFileInLoop E c))))"

definition writeCallback :: "'e ssl_engine \<Rightarrow> 'e conn \<Rightarrow> 'e conn result" where
  "writeCallback E c =
     (let c = extendLife c in
      if \<not> cn_writing c then Inr c
      else bindR (if cn_tls c \<noteq> None then sendBufferedData c else Inr (True, c)) (\<lambda>(sentAll, c).
           if \<not> sentAll then Inr (io_enableWriting c)
           else bindR (write_step E c) (\<lambda>(more, c).
                if more \<and> cn_closeOnEmpty c \<and> (cn_writeBufferList c = [] \<or> cn_tls c = None \<or> buffered c = 0)
                then shutdown E True c else Inr c)))"

text \<open>\<^verbatim>\<open>handleError\<close> only logs what \<^verbatim>\<open>getSocketError\<close> reports.\<close>

definition handleError :: "int \<Rightarrow> 'e conn \<Rightarrow> 'e conn" where
  "handleError err c = c"

section \<open>The TLS provider, receiving\<close>

definition onHandshakeFinished :: "'e conn \<Rightarrow> 'e conn" where
  "onHandshakeFinished c =
     (if cn_upgradeCallback c then emit UpgradeCb (c\<lparr>cn_upgradeCallback := False\<rparr>)
      else if cn_connectionCallback c then emit (ConnectionCb (cn_status c)) c else c)"

definition onSslMessage :: "'e conn \<Rightarrow> 'e conn" where
  "onSslMessage c = (if cn_recvMsgCallback c then emit RecvMsgCb c else c)"

definition discard_num :: "(int \<times> 'e conn) result \<Rightarrow> 'e conn result" where
  "discard_num r = bindR r (\<lambda>(n, c). Inr c)"

text \<open>The client side of a finished handshake; \<open>None\<close> is the return after a missing protocol.\<close>

definition client_names :: "'e ssl_engine \<Rightarrow> 'e tls \<Rightarrow> 'e conn \<Rightarrow> (bool \<times> 'e conn) result" where
  "client_names E t c =
     (let host = pl_hostname (tl_policy t);
          c = with_tls (\<lambda>t. t\<lparr>tl_sniName := host\<rparr>) c;
          stored = (\<lambda>c. Inr (True, if eg_session_storable E (tl_ssl t) then emit (StoreSession host) c else c))
      in if pl_alpnProtocols (tl_policy t) \<noteq> []
         then (case eg_alpn_selected E (tl_ssl t) of
                 None \<Rightarrow> bindR (handleSSLError E kSSLHandshakeError c) (\<lambda>c. Inr (False, c))
               | Some a \<Rightarrow> stored (with_tls (\<lambda>t. t\<lparr>tl_applicationProtocol := a\<rparr>) c))
         else stored c)"

definition server_names :: "'e ssl_engine \<Rightarrow> 'e tls \<Rightarrow> 'e conn \<Rightarrow> 'e conn" where
  "server_names E t c =
     with_tls (\<lambda>t. t\<lparr>tl_sniName := (case eg_servername E (tl_ssl t) of None \<Rightarrow> tl_sniName t | Some n \<Rightarrow> n),
                     tl_applicationProtocol := (case eg_alpn_selected E (tl_ssl t) of None \<Rightarrow> tl_applicationProtocol t | Some a \<Rightarrow> a)\<rparr>) c"

definition peer_accepted :: "'e ssl_engine \<Rightarrow> 'e tls \<Rightarrow> bool" where
  "peer_accepted E t =
     (\<not> pl_validate (tl_policy t) \<or>
      (case eg_peer_certificate E (tl_ssl t) of
         None \<Rightarrow> False
       | Some cert \<Rightarrow> validatePeerCertificate (eg_verify_result E (tl_ssl t)) cert (pl_hostname (tl_policy t))
                        (pl_allowBrokenChain (tl_policy t)) (tl_isServer t)))"

definition handshake_done :: "'e ssl_engine \<Rightarrow> 'e tls \<Rightarrow> 'e conn \<Rightarrow> (bool \<times> 'e conn) result" where
  "handshake_done E t c =
     bindR (if tl_isServer t then Inr (True, server_names E t c) else client_names E t c) (\<lambda>(ok, c).
     if \<not> ok then Inr (False, c)
     else (let c = (case eg_peer_certificate E (tl_ssl t) of
                      None \<Rightarrow> c | Some cert \<Rightarrow> with_tls (\<lambda>t. t\<lparr>tl_peerCertificate := Some cert\<rparr>) c)
           in if \<not> peer_accepted E t
              then bindR (handleSSLError E kSSLInvalidCertificate
                     (with_tls (\<lambda>t. t\<lparr>tl_ssl := eg_shutdown E (tl_ssl t)\<rparr>) c)) (\<lambda>c. Inr (False, c))
              else bindR (sendTLSData E (onHandshakeFinished c)) (\<lambda>(n, c). Inr (True, c))))"

definition processHandshake :: "'e ssl_engine \<Rightarrow> 'e conn \<Rightarrow> (bool \<times> 'e conn) result" where
  "processHandshake E c =
     (case cn_tls c of
        None \<Rightarrow> Inl NullCall
      | Some t \<Rightarrow>
          (let (ret, e) = eg_do_handshake E (tl_ssl t);
               t = t\<lparr>tl_ssl := e\<rparr>; c = c\<lparr>cn_tls := Some t\<rparr>; err = eg_get_error E ret e
           in if ret = 1 then handshake_done E t c
              else if err = SSL_ERROR_WANT_READ \<or> err = SSL_ERROR_WANT_WRITE
              then bindR (sendTLSData E c) (\<lambda>(n, c). Inr (False, c))
              else if tl_processedHandshakeError t then Inr (False, c)
              else bindR (shutdown E True (c\<lparr>cn_tls := Some (t\<lparr>tl_processedHandshakeError := True\<rparr>)\<rparr>)) (\<lambda>c.
                   bindR (handleSSLError E kSSLHandshakeError c) (\<lambda>c. Inr (False, c)))))"

text \<open>Reading what OpenSSL has decrypted, until it gives nothing more; running out of fuel is \<^const>\<open>Diverges\<close>.\<close>

fun processApplicationData :: "nat \<Rightarrow> 'e ssl_engine \<Rightarrow> 'e conn \<Rightarrow> 'e conn result" where
  "processApplicationData 0 E c = Inl Diverges"
| "processApplicationData (Suc fuel) E c =
     (case cn_tls c of
        None \<Rightarrow> Inl NullCall
      | Some t \<Rightarrow>
          (let pending = max 1024 (eg_bio_pending E (tl_ssl t)) in
           bindR (ensureWritableBytes (tl_recvBuffer t) (min 131072 pending)) (\<lambda>b.
           let (n, d, e) = eg_read E (min 2147483647 (writableBytes b)) (tl_ssl t);
               c = c\<lparr>cn_tls := Some (t\<lparr>tl_recvBuffer := b, tl_ssl := e\<rparr>)\<rparr>
           in if n = 0 \<and> eg_received_shutdown E e then shutdown E True c
              else if n > 0
              then bindR (store_at_tail d b) (\<lambda>b.
                   processApplicationData fuel E
                     (onSslMessage (with_tls (\<lambda>t. t\<lparr>tl_recvBuffer := b\<rparr>) c)))
              else if eg_get_error E n e = SSL_ERROR_SSL \<or> eg_get_error E n e = SSL_ERROR_SYSCALL
              then handleSSLError E kSSLProtocolError c
              else Inr c)))"

fun recvData :: "nat \<Rightarrow> 'e ssl_engine \<Rightarrow> 'e conn \<Rightarrow> 'e conn result" where
  "recvData 0 E c = Inl Diverges"
| "recvData (Suc fuel) E c =
     (case cn_tls c of
        None \<Rightarrow> Inl NullCall
      | Some t \<Rightarrow>
          (let b = cn_readBuffer c in
           if readableBytes b = 0 then Inr c
           else bindR (peek_bytes b (readableBytes b)) (\<lambda>d.
                let (n, e) = eg_bio_write E d (tl_ssl t); c = c\<lparr>cn_tls := Some (t\<lparr>tl_ssl := e\<rparr>)\<rparr> in
                if n \<le> 0 then handleSSLError E kSSLHandshakeError c
                else bindR (retrieve b (nat n)) (\<lambda>b.
                     let c = c\<lparr>cn_readBuffer := b\<rparr> in
                     bindR (if \<not> eg_init_finished E e
                            then bindR (processHandshake E c) (\<lambda>(ok, c).
                                   if ok then processApplicationData fuel E c else Inr c)
                            else processApplicationData fuel E c)
                       (recvData fuel E)))))"

definition tls_startEncryption :: "'e ssl_engine \<Rightarrow> 'e conn \<Rightarrow> 'e conn result" where
  "tls_startEncryption E c =
     (case cn_tls c of
        None \<Rightarrow> Inl NullCall
      | Some t \<Rightarrow>
          (let protos = (if tl_isServer t then [] else alpn_list (pl_alpnProtocols (tl_policy t)))
           in bindR (processHandshake E (with_tls (\<lambda>t. t\<lparr>tl_ssl := eg_set_state E (tl_isServer t) protos (tl_ssl t)\<rparr>) c))
                (\<lambda>(ok, c). Inr c)))"

definition OpenSSLProvider_new :: "tls_policy \<Rightarrow> bool \<Rightarrow> 'e \<Rightarrow> 'e tls result" where
  "OpenSSLProvider_new policy isServer ssl =
     bindR (MsgBuffer_new kBufferDefaultLength) (\<lambda>w. bindR (MsgBuffer_new kBufferDefaultLength) (\<lambda>r.
       Inr \<lparr>tl_ssl = ssl, tl_policy = policy, tl_isServer = isServer, tl_writeBuffer = w, tl_recvBuffer = r,
            tl_processedHandshakeError = False, tl_processedSslError = False, tl_applicationProtocol = [],
            tl_sniName = [], tl_peerCertificate = None\<rparr>))"

text \<open>Upgrading a connection to TLS; \<open>ssl\<close> is the new object of the engine.\<close>

definition startEncryption :: "'e ssl_engine \<Rightarrow> tls_policy \<Rightarrow> bool \<Rightarrow> 'e \<Rightarrow> bool \<Rightarrow> 'e conn \<Rightarrow> 'e conn result" where
  "startEncryption E policy isServer ssl upgradeCallback c =
     (if cn_tls c \<noteq> None \<or> cn_upgradeCallback c then Inr c
      else bindR (OpenSSLProvider_new policy isServer ssl) (\<lambda>t.
           bindR (tls_startEncryption E (c\<lparr>cn_tls := Some t\<rparr>)) (\<lambda>c.
           Inr (c\<lparr>cn_upgradeCallback := upgradeCallback\<rparr>))))"

section \<open>Life of a connection\<close>

text \<open>The callbacks that are set and the mark are arguments; the provider is given for a TLS connection.\<close>

definition TcpConnection_new :: "'e tls option \<Rightarrow> sys_write list \<Rightarrow> int \<Rightarrow> 'e conn result" where
  "TcpConnection_new t answers clock =
     bindR (MsgBuffer_new kBufferDefaultLength) (\<lambda>b.
       Inr \<lparr>cn_status = Connecting, cn_reading = False, cn_writing = False, cn_readBuffer = b, cn_writeBufferList = [],
            cn_fileBuffer = None, cn_sendNum = 0, cn_queue = [], cn_bytesSent = 0, cn_bytesReceived = 0,
            cn_closeOnEmpty = False, cn_writeClosed = False, cn_tls = t, cn_upgradeCallback = False,
            cn_connectionCallback = True, cn_recvMsgCallback = True, cn_closeCallback = True,
            cn_writeCompleteCallback = False, cn_sslErrorCallback = False, cn_highWaterMark = None,
            cn_idleTimeout = 0, cn_lastTimingWheelUpdate = 0, cn_kickoffEntry = None, cn_timingWheel = False,
            cn_clock = clock, cn_kernel = answers, cn_errno = 0, cn_wire = [], cn_events = []\<rparr>)"

definition setHighWaterMarkCallback :: "nat \<Rightarrow> 'e conn \<Rightarrow> 'e conn" where
  "setHighWaterMarkCallback markLen c = c\<lparr>cn_highWaterMark := Some markLen\<rparr>"

definition connected :: "'e conn \<Rightarrow> bool" where
  "connected c = (cn_status c = Connected)"

definition disconnected :: "'e conn \<Rightarrow> bool" where
  "disconnected c = (cn_status c = Disconnected)"

definition established_inLoop :: "'e ssl_engine \<Rightarrow> 'e conn \<Rightarrow> 'e conn result" where
  "established_inLoop E c =
     assertR (cn_status c = Connecting)
       (let c = c\<lparr>cn_reading := True, cn_status := Connected\<rparr> in
        if cn_tls c \<noteq> None then tls_startEncryption E c
        else Inr (if cn_connectionCallback c then emit (ConnectionCb Connected) c else c))"

definition connectEstablished :: "'e ssl_engine \<Rightarrow> bool \<Rightarrow> 'e conn \<Rightarrow> 'e conn result" where
  "connectEstablished E inLoop c =
     (if inLoop then established_inLoop E c else Inr (c\<lparr>cn_queue := cn_queue c @ [TaskEstablished]\<rparr>))"

definition readCallback :: "nat \<Rightarrow> 'e ssl_engine \<Rightarrow> sys_read \<Rightarrow> 'e conn \<Rightarrow> 'e conn result" where
  "readCallback fuel E r c =
     bindR (readFd (cn_readBuffer c) r) (\<lambda>(n, err, b).
       let c = c\<lparr>cn_readBuffer := b\<rparr> in
       if n < 0
       then (if err = Some EPIPE \<or> err = Some ECONNRESET \<or> err = Some EAGAIN then Inr c else Inr (handleClose c))
       else (let c = extendLife (if n = 0 then handleClose c else c) in
             if n > 0
             then (let c = c\<lparr>cn_bytesReceived := szadd (cn_bytesReceived c) (nat n)\<rparr> in
                   if cn_tls c \<noteq> None then recvData fuel E c
                   else Inr (if cn_recvMsgCallback c then emit RecvMsgCb c else c))
             else Inr c))"

text \<open>The next queued task of the connection.\<close>

fun run_task :: "'e ssl_engine \<Rightarrow> task \<Rightarrow> 'e conn \<Rightarrow> 'e conn result" where
  "run_task E (TaskSend d) c =
     bindR (sendInLoop E d c) (\<lambda>c. Inr (c\<lparr>cn_sendNum := szsub (cn_sendNum c) 1\<rparr>))"
| "run_task E (TaskNode nd) c = push_node E nd (c\<lparr>cn_sendNum := szsub (cn_sendNum c) 1\<rparr>)"
| "run_task E TaskShutdown c = shutdown_inLoop E c"
| "run_task E TaskForceClose c = Inr (forceClose_inLoop c)"
| "run_task E TaskEstablished c = established_inLoop E c"

definition run_next :: "'e ssl_engine \<Rightarrow> 'e conn \<Rightarrow> 'e conn result" where
  "run_next E c =
     (case cn_queue c of [] \<Rightarrow> Inr c | t # ts \<Rightarrow> run_task E t (c\<lparr>cn_queue := ts\<rparr>))"

text \<open>An engine for connections without TLS, whose functions are never called.\<close>

definition null_engine :: "unit ssl_engine" where
  "null_engine = \<lparr>eg_write = \<lambda>d e. (-1, e), eg_read = \<lambda>n e. (-1, [], e), eg_bio_write = \<lambda>d e. (-1, e), eg_bio_pending = \<lambda>e. 0,
     eg_wbio_data = \<lambda>e. None, eg_wbio_reset = \<lambda>e. e, eg_init_finished = \<lambda>e. False, eg_do_handshake = \<lambda>e. (-1, e),
     eg_get_error = \<lambda>n e. 1, eg_received_shutdown = \<lambda>e. False, eg_shutdown = \<lambda>e. e, eg_set_state = \<lambda>b d e. e,
     eg_servername = \<lambda>e. None, eg_alpn_selected = \<lambda>e. None, eg_session_storable = \<lambda>e. False,
     eg_peer_certificate = \<lambda>e. None, eg_verify_result = \<lambda>e. 0\<rparr>"

end
