(* ===== verification/SendOrder.thy ===== *)
theory SendOrder
  imports TcpConnection
begin

text \<open>
  What a connection without TLS promises to those who send: the bytes leave in the order of the calls, from
  whatever thread they are made, whether they are messages, files or streams, and however little the
  socket takes at a time; nothing is lost, repeated or reordered, and no assertion of the code fails. The
  abstraction is the concatenation of what the kernel has taken, what waits in the list and what is
  queued in the loop; every operation either appends to it or leaves it alone.
\<close>

section \<open>The abstraction\<close>

definition chunk_bytes :: "byte list list \<Rightarrow> byte list" where
  "chunk_bytes chs = concat (takeWhile (\<lambda>ch. ch \<noteq> []) (map (take kMaxSendFileBufferSize) chs))"

definition node_bytes :: "buffer_node \<Rightarrow> byte list" where
  "node_bytes nd =
     (case nd_stream nd of
        Some chs \<Rightarrow> if nd_fileBytesToSend nd > 0 then chunk_bytes chs else []
      | None \<Rightarrow> if nd_sendFd nd \<ge> 0
                 then (case nd_file nd of None \<Rightarrow> [] | Some f \<Rightarrow> take (nat (nd_fileBytesToSend nd)) (drop (nd_offset nd) f))
                 else contents (nd_msgBuffer nd))"

definition pending :: "'e conn \<Rightarrow> byte list" where
  "pending c = file_buf c @ concat (map node_bytes (cn_writeBufferList c))"

fun task_bytes :: "task \<Rightarrow> byte list" where
  "task_bytes (TaskSend d) = d"
| "task_bytes (TaskNode nd) = node_bytes nd"
| "task_bytes _ = []"

definition queued :: "'e conn \<Rightarrow> byte list" where
  "queued c = concat (map task_bytes (cn_queue c))"

definition sent :: "'e conn \<Rightarrow> byte list" where
  "sent c = cn_wire c @ pending c"

section \<open>The invariant\<close>

definition node_ok :: "buffer_node \<Rightarrow> bool" where
  "node_ok nd \<longleftrightarrow>
     (case nd_stream nd of
        Some chs \<Rightarrow> True
      | None \<Rightarrow> if nd_sendFd nd \<ge> 0
                 then (\<exists>f. nd_file nd = Some f \<and> nd_fileBytesToSend nd \<ge> 0 \<and> nd_offset nd + nat (nd_fileBytesToSend nd) \<le> length f)
                 else wf_buf (nd_msgBuffer nd))"

text \<open>Two buffers never follow each other: a message is appended to the buffer at the end if there is one.\<close>

definition nodes_ok :: "buffer_node list \<Rightarrow> bool" where
  "nodes_ok nds \<longleftrightarrow> (\<forall>nd \<in> set nds. node_ok nd) \<and> successively (\<lambda>a b. isFile_node a \<or> isFile_node b) nds"

text \<open>The file buffer holds bytes only while a stream is at the front.\<close>

definition fb_ok :: "'e conn \<Rightarrow> bool" where
  "fb_ok c \<longleftrightarrow> (file_buf c \<noteq> [] \<longrightarrow> (\<exists>nd nds. cn_writeBufferList c = nd # nds \<and> nd_stream nd \<noteq> None \<and> nd_fileBytesToSend nd > 0))"

text \<open>A kernel that takes bytes or has no room, but does not break the connection.\<close>

definition benign :: "sys_write list \<Rightarrow> bool" where
  "benign ks \<longleftrightarrow> (\<forall>k \<in> set ks. \<forall>e. k = WriteErr e \<longrightarrow> e = EAGAIN)"

definition conn_ok :: "'e conn \<Rightarrow> bool" where
  "conn_ok c \<longleftrightarrow> cn_tls c = None \<and> benign (cn_kernel c) \<and> nodes_ok (cn_writeBufferList c) \<and> fb_ok c \<and>
     (cn_writing c \<longrightarrow> cn_writeBufferList c \<noteq> [])"

text \<open>What the operations of this theory leave alone.\<close>

definition same_core :: "'e conn \<Rightarrow> 'e conn \<Rightarrow> bool" where
  "same_core c c' \<longleftrightarrow> cn_status c' = cn_status c \<and> cn_queue c' = cn_queue c \<and> cn_sendNum c' = cn_sendNum c \<and>
     cn_closeOnEmpty c' = cn_closeOnEmpty c \<and> (cn_status c = Connected \<longrightarrow> cn_writeClosed c' = cn_writeClosed c)"

definition adds :: "byte list \<Rightarrow> 'e conn \<Rightarrow> 'e conn \<Rightarrow> bool" where
  "adds d c c' \<longleftrightarrow> conn_ok c' \<and> sent c' = sent c @ d \<and> same_core c c'"

lemmas conn_defs = conn_ok_def fb_ok_def same_core_def adds_def sent_def pending_def file_buf_def

lemma adds_trans: "adds d c c1 \<Longrightarrow> adds e c1 c2 \<Longrightarrow> adds (d @ e) c c2"
  by (simp add: adds_def same_core_def)

lemma adds_Nil_trans: "adds [] c c1 \<Longrightarrow> adds d c1 c2 \<Longrightarrow> adds d c c2"
  using adds_trans [of "[]"] by simp

lemma conn_okD:
  assumes "conn_ok c"
  shows "cn_tls c = None" "benign (cn_kernel c)" "nodes_ok (cn_writeBufferList c)" "fb_ok c"
    "cn_writing c \<Longrightarrow> cn_writeBufferList c \<noteq> []"
  using assms by (auto simp: conn_ok_def)

lemma benign_tl: "benign (k # ks) \<Longrightarrow> benign ks"
  by (simp add: benign_def)

lemma nodes_ok_Cons:
  "nodes_ok (nd # nds) \<longleftrightarrow> node_ok nd \<and> nodes_ok nds \<and> (nds = [] \<or> isFile_node nd \<or> isFile_node (hd nds))"
  by (cases nds) (auto simp: nodes_ok_def)

lemma nodes_ok_Nil [simp]: "nodes_ok []"
  by (simp add: nodes_ok_def)

lemma nodes_ok_append:
  assumes "nodes_ok nds" "node_ok nd" "nds = [] \<or> isFile_node (last nds) \<or> isFile_node nd"
  shows "nodes_ok (nds @ [nd])"
  using assms by (auto simp: nodes_ok_def successively_append_iff)

section \<open>Writing\<close>

text \<open>The effect of a write: some prefix of the bytes goes to the kernel, nothing else changes.\<close>

lemma writeRaw_effect:
  assumes "benign (cn_kernel c)" "writeRaw d c = (n, c')"
  obtains ks e m where "c' = c\<lparr>cn_kernel := ks, cn_errno := e, cn_wire := cn_wire c @ take (nat n) d, cn_bytesSent := m\<rparr>"
    "benign ks" "n < 0 \<longrightarrow> e = EAGAIN" "nat n \<le> length d"
proof (cases "cn_kernel c")
  case Nil
  with assms show thesis
    by (intro that [of "cn_bytesSent c" EAGAIN "[]"]) (auto simp: writeRaw_def k_write_def benign_def)
next
  case (Cons k ks)
  show thesis
  proof (cases k)
    case (WriteErr e)
    with Cons assms show thesis
      by (intro that [of "cn_bytesSent c" e ks]) (auto simp: writeRaw_def k_write_def benign_def)
  next
    case (WriteOk w)
    with Cons assms show thesis
      by (intro that [of "cn_bytesSent c'" "cn_errno c" ks])
        (auto simp: writeRaw_def k_write_def benign_def Let_def split: if_splits)
  qed
qed

lemma ensure_writing_fields [simp]:
  "cn_wire (ensure_writing c) = cn_wire c" "cn_writeBufferList (ensure_writing c) = cn_writeBufferList c"
  "cn_fileBuffer (ensure_writing c) = cn_fileBuffer c" "cn_status (ensure_writing c) = cn_status c"
  "cn_queue (ensure_writing c) = cn_queue c" "cn_sendNum (ensure_writing c) = cn_sendNum c"
  "cn_closeOnEmpty (ensure_writing c) = cn_closeOnEmpty c" "cn_tls (ensure_writing c) = cn_tls c"
  "cn_kernel (ensure_writing c) = cn_kernel c" "cn_writing (ensure_writing c)"
  "cn_highWaterMark (ensure_writing c) = cn_highWaterMark c" "cn_writeClosed (ensure_writing c) = cn_writeClosed c"
  by (simp_all add: ensure_writing_def io_enableWriting_def)

lemma ensure_writing_adds: "adds d c c' \<Longrightarrow> cn_writeBufferList c' \<noteq> [] \<Longrightarrow> adds d c (ensure_writing c')"
  by (simp add: conn_defs)

section \<open>Files\<close>

lemma node_file:
  assumes "node_ok nd" "isFile_node nd" "nd_stream nd = None"
  obtains f where "nd_sendFd nd \<ge> 0" "nd_file nd = Some f" "nd_fileBytesToSend nd \<ge> 0"
    "nd_offset nd + nat (nd_fileBytesToSend nd) \<le> length f"
    "node_bytes nd = take (nat (nd_fileBytesToSend nd)) (drop (nd_offset nd) f)"
  using assms by (auto simp: node_ok_def isFile_node_def node_bytes_def split: if_splits)

lemma take_split: "m \<le> n \<Longrightarrow> take m xs @ take (n - m) (drop m xs) = take n xs"
  by (metis append_take_drop_id drop_take length_take min_absorb2 take_all_iff take_take min_def nat_le_linear)

text \<open>Sending \<open>m\<close> bytes of the file at the front.\<close>

lemma file_advance:
  assumes ok: "conn_ok c" and l: "cn_writeBufferList c = nd # nds" "isFile_node nd" "nd_stream nd = None"
    and f: "nd_file nd = Some f" and m: "m \<le> nat (nd_fileBytesToSend nd)" and ks: "benign ks"
    and c': "c' = c\<lparr>cn_kernel := ks, cn_errno := e, cn_wire := cn_wire c @ take m (drop (nd_offset nd) f),
      cn_writeBufferList := nd\<lparr>nd_offset := nd_offset nd + m, nd_fileBytesToSend := nd_fileBytesToSend nd - int m\<rparr> # nds\<rparr>"
  shows "adds [] c c'"
proof -
  let ?nd = "nd\<lparr>nd_offset := nd_offset nd + m, nd_fileBytesToSend := nd_fileBytesToSend nd - int m\<rparr>"
  have n: "node_ok nd" "nodes_ok nds" "nds = [] \<or> isFile_node nd \<or> isFile_node (hd nds)"
    using conn_okD(3) [OF ok] l(1) by (simp_all add: nodes_ok_Cons)
  from node_file [OF n(1) l(2,3)] f have nd: "nd_sendFd nd \<ge> 0" "nd_fileBytesToSend nd \<ge> 0"
    "nd_offset nd + nat (nd_fileBytesToSend nd) \<le> length f"
    "node_bytes nd = take (nat (nd_fileBytesToSend nd)) (drop (nd_offset nd) f)" by (metis option.inject)+
  have isf: "isFile_node ?nd" using l(2) by (auto simp: isFile_node_def split: if_splits)
  have "nat (nd_fileBytesToSend nd - int m) = nat (nd_fileBytesToSend nd) - m" by simp
  then have b: "node_bytes ?nd = take (nat (nd_fileBytesToSend nd) - m) (drop m (drop (nd_offset nd) f))"
    using nd(1) l(3) f by (simp add: node_bytes_def add.commute)
  have sum: "take m (drop (nd_offset nd) f) @ node_bytes ?nd = node_bytes nd"
    unfolding b nd(4) by (rule take_split [OF m])
  have okn: "node_ok ?nd" using nd(1-3) l(3) f m by (simp add: node_ok_def) linarith
  have fb: "file_buf c = []" using conn_okD(4) [OF ok] l(1,3) by (auto simp: fb_ok_def)
  have "nodes_ok (?nd # nds)" unfolding nodes_ok_Cons using okn n(2) isf by blast
  then show ?thesis
    using conn_okD [OF ok] ks fb l(1) sum by (auto simp: c' conn_defs)
qed

lemma sendfile_adds:
  assumes ok: "conn_ok c" and l: "cn_writeBufferList c = nd # nds" "isFile_node nd" "nd_stream nd = None"
  shows "\<exists>c'. sendFileInLoop E c = Inr c' \<and> adds [] c c' \<and> cn_writeBufferList c' \<noteq> []"
proof -
  have n: "node_ok nd" using conn_okD(3) [OF ok] l(1) by (simp add: nodes_ok_Cons)
  obtain f where f: "nd_file nd = Some f" "nd_fileBytesToSend nd \<ge> 0"
    "nd_offset nd + nat (nd_fileBytesToSend nd) \<le> length f" by (rule node_file [OF n l(2,3)])
  have adv: "adds [] c (c\<lparr>cn_kernel := ks, cn_errno := e, cn_wire := cn_wire c @ take m (drop (nd_offset nd) f),
      cn_writeBufferList := nd\<lparr>nd_offset := nd_offset nd + m, nd_fileBytesToSend := nd_fileBytesToSend nd - int m\<rparr> # nds\<rparr>)"
    if "m \<le> nat (nd_fileBytesToSend nd)" "benign ks" for m ks e
    by (rule file_advance [OF ok l f(1) that refl])
  have bk: "benign (cn_kernel c)" by (rule conn_okD(2) [OF ok])
  have t: "cn_tls c = None" by (rule conn_okD(1) [OF ok])
  show ?thesis
  proof (cases "cn_kernel c")
    case Nil
    have "sendFileInLoop E c = Inr (c\<lparr>cn_errno := EAGAIN\<rparr>)"
      using l t f(1) Nil by (simp add: sendFileInLoop_def sys_sendfile_def)
    then show ?thesis using ok l(1) by (auto simp: conn_defs)
  next
    case (Cons k ks)
    show ?thesis
    proof (cases k)
      case (WriteErr e)
      then have "e = EAGAIN" using bk Cons by (simp add: benign_def)
      then have "sendFileInLoop E c = Inr (c\<lparr>cn_kernel := ks, cn_errno := EAGAIN\<rparr>)"
        using l t f(1) Cons WriteErr by (simp add: sendFileInLoop_def sys_sendfile_def)
      then show ?thesis using ok l(1) bk Cons benign_tl by (auto simp: conn_defs)
    next
      case (WriteOk w)
      let ?m = "min (min w (nat (nd_fileBytesToSend nd))) (min (length f - nd_offset nd) 2147479552)"
      have bks: "benign ks" using bk Cons benign_tl by simp
      let ?c = "c\<lparr>cn_kernel := ks, cn_errno := cn_errno c, cn_wire := cn_wire c @ take ?m (drop (nd_offset nd) f),
        cn_writeBufferList := nd\<lparr>nd_offset := nd_offset nd + ?m, nd_fileBytesToSend := nd_fileBytesToSend nd - int ?m\<rparr> # nds\<rparr>"
      have a: "adds [] c ?c" by (rule adv [OF _ bks]) simp
      have s: "sys_sendfile nd c = (int ?m, upd_front (\<lambda>nd. nd\<lparr>nd_offset := nd_offset nd + ?m\<rparr>)
          (c\<lparr>cn_kernel := ks, cn_wire := cn_wire c @ take ?m (drop (nd_offset nd) f)\<rparr>))"
        using f(1) Cons WriteOk by (simp add: sys_sendfile_def Let_def)
      show ?thesis
      proof (cases "int ?m < nd_fileBytesToSend nd \<and> ?m = 0")
        case True
        then have "sendFileInLoop E c = Inr ?c" using l t s by (auto simp: sendFileInLoop_def upd_front_def)
        with a show ?thesis by simp
      next
        case False
        then have "sendFileInLoop E c = Inr (ensure_writing ?c)"
          using l t s by (auto simp: sendFileInLoop_def upd_front_def)
        with ensure_writing_adds [OF a] show ?thesis by simp
      qed
    qed
  qed
qed

section \<open>Streams\<close>

lemma fb_write_adds:
  assumes "conn_ok c" "file_buf c \<noteq> []" "benign ks"
  shows "adds [] c (c\<lparr>cn_kernel := ks, cn_errno := e, cn_wire := cn_wire c @ take k (file_buf c), cn_bytesSent := m,
    cn_fileBuffer := Some (drop k (file_buf c))\<rparr>)"
  using assms by (auto simp: conn_defs)

text \<open>Fetching a chunk moves it from the stream to the file buffer.\<close>

lemma fetch_chunk_adds:
  assumes ok: "conn_ok c" and l: "cn_writeBufferList c = nd # nds" "nd_stream nd = Some chs"
    and e: "file_buf c = []" "nd_fileBytesToSend nd > 0"
  shows "adds [] c (fetch_chunk c) \<and>
    (\<exists>nd'. cn_writeBufferList (fetch_chunk c) = nd' # nds \<and> nd_stream nd' = Some (tl chs)) \<and>
    (file_buf (fetch_chunk c) \<noteq> [] \<longrightarrow> chs \<noteq> [])"
proof -
  have n: "nodes_ok nds" using conn_okD(3) [OF ok] l(1) by (simp add: nodes_ok_Cons)
  define chunk where "chunk = (case chs of [] \<Rightarrow> [] | ch # _ \<Rightarrow> take kMaxSendFileBufferSize ch)"
  define nd' where "nd' = (if chunk = [] then nd\<lparr>nd_stream := Some (tl chs), nd_fileBytesToSend := 0\<rparr>
    else nd\<lparr>nd_stream := Some (tl chs)\<rparr>)"
  have fc: "fetch_chunk c = c\<lparr>cn_fileBuffer := Some chunk, cn_writeBufferList := nd' # nds\<rparr>"
    using l by (cases chs) (auto simp: fetch_chunk_def next_chunk_def chunk_def nd'_def)
  have st: "nd_stream nd' = Some (tl chs)" "chunk \<noteq> [] \<Longrightarrow> nd_fileBytesToSend nd' > 0" "chunk \<noteq> [] \<Longrightarrow> chs \<noteq> []"
    using e(2) by (auto simp: nd'_def chunk_def)
  have "isFile_node nd'" "node_ok nd'" using st(1) by (simp_all add: isFile_node_def node_ok_def)
  then have "nodes_ok (nd' # nds)" using n by (simp add: nodes_ok_Cons)
  moreover have "chunk @ node_bytes nd' = node_bytes nd"
    using l(2) e(2) by (cases chs) (auto simp: node_bytes_def nd'_def chunk_def chunk_bytes_def)
  ultimately have "adds [] c (fetch_chunk c)"
    using ok e(1) st l(1) unfolding fc by (auto simp: conn_defs)
  then show ?thesis using st(1,3) by (auto simp: fc file_buf_def)
qed

lemma stream_loop_adds:
  assumes "conn_ok c" "cn_writeBufferList c = nd # nds" "nd_stream nd = Some chs"
    "length chs + (if file_buf c = [] then 0 else 1) < fuel"
  shows "\<exists>atEnd c'. stream_loop fuel E c = Inr (atEnd, c') \<and> adds [] c c' \<and> cn_writeBufferList c' \<noteq> []"
  using assms
proof (induction fuel arbitrary: c nd chs)
  case (Suc fuel)
  note ok = Suc.prems(1) and l = Suc.prems(2,3)
  show ?case
  proof (cases "nd_fileBytesToSend nd > 0 \<or> file_buf c \<noteq> []")
    case False
    then have "stream_loop (Suc fuel) E c = Inr (True, c)" using l by simp
    then show ?thesis using ok l(1) by (auto simp: conn_defs)
  next
    case True
    let ?c1 = "if file_buf c = [] then fetch_chunk c else c"
    obtain nd1 chs1 where c1: "adds [] c ?c1" "cn_writeBufferList ?c1 = nd1 # nds" "nd_stream nd1 = Some chs1"
      "file_buf ?c1 \<noteq> [] \<Longrightarrow> length chs1 < fuel"
    proof (cases "file_buf c = []")
      case True
      with \<open>nd_fileBytesToSend nd > 0 \<or> file_buf c \<noteq> []\<close> fetch_chunk_adds [OF ok l True] obtain nd' where
        "adds [] c (fetch_chunk c)" "cn_writeBufferList (fetch_chunk c) = nd' # nds" "nd_stream nd' = Some (tl chs)"
        "file_buf (fetch_chunk c) \<noteq> [] \<Longrightarrow> chs \<noteq> []" by auto
      with True Suc.prems(4) show thesis by (intro that [of nd' "tl chs"]) (auto simp: neq_Nil_conv)
    next
      case False
      with Suc.prems show thesis by (intro that [of nd chs]) (auto simp: conn_defs)
    qed
    have ok1: "conn_ok ?c1" using c1(1) by (simp add: adds_def)
    let ?fb = "file_buf ?c1"
    obtain n c2 where w: "writeRaw ?fb ?c1 = (n, c2)" by fastforce
    have wl: "writeInLoop E ?fb ?c1 = Inr (n, c2)" using conn_okD(1) [OF ok1] w by (simp add: writeInLoop_def)
    have step: "stream_loop (Suc fuel) E c =
      (if ?fb = [] then Inr (True, ?c1)
       else if n \<ge> 0
       then (if nat n < length ?fb then Inr (False, ensure_writing (c2\<lparr>cn_fileBuffer := Some (drop (nat n) ?fb)\<rparr>))
             else stream_loop fuel E (c2\<lparr>cn_fileBuffer := Some []\<rparr>))
       else if cn_errno c2 \<noteq> EAGAIN then Inr (False, upd_front (\<lambda>nd. nd\<lparr>nd_fileBytesToSend := 0\<rparr>) c2)
       else Inr (True, c2))"
      using True l(1) wl by (simp add: Let_def)
    show ?thesis
    proof (cases "?fb = []")
      case True
      then have "stream_loop (Suc fuel) E c = Inr (True, ?c1)" unfolding step by simp
      with c1 show ?thesis by (intro exI conjI) (assumption | simp)+
    next
      case False
      obtain ks e m where c2: "c2 = ?c1\<lparr>cn_kernel := ks, cn_errno := e, cn_wire := cn_wire ?c1 @ take (nat n) ?fb, cn_bytesSent := m\<rparr>"
        "benign ks" "n < 0 \<longrightarrow> e = EAGAIN" "nat n \<le> length ?fb"
        by (rule writeRaw_effect [OF conn_okD(2) [OF ok1] w])
      note a = fb_write_adds [where e = e and k = "nat n" and m = m, OF ok1 False c2(2)]
      note a' = adds_Nil_trans [OF c1(1) a]
      show ?thesis
      proof (cases "n \<ge> 0")
        case neg: False
        then have "stream_loop (Suc fuel) E c = Inr (True, c2)" unfolding step using False c2(1,3) by simp
        moreover have "adds [] ?c1 c2" using a neg False unfolding c2(1) by (auto simp: conn_defs split: option.splits)
        ultimately show ?thesis using adds_Nil_trans [OF c1(1)] c1(2) c2(1) by auto
      next
        case pos: True
        let ?c3 = "c2\<lparr>cn_fileBuffer := Some (drop (nat n) ?fb)\<rparr>"
        have c3: "adds [] c ?c3" "cn_writeBufferList ?c3 = nd1 # nds" using a' c1(2) unfolding c2(1) by auto
        show ?thesis
        proof (cases "nat n < length ?fb")
          case True
          then have "stream_loop (Suc fuel) E c = Inr (False, ensure_writing ?c3)" unfolding step using False pos by simp
          with ensure_writing_adds [OF c3(1)] c3(2) show ?thesis by auto
        next
          case all: False
          then have d: "drop (nat n) ?fb = []" using c2(4) by simp
          have s: "stream_loop (Suc fuel) E c = stream_loop fuel E ?c3" unfolding step using False pos all d by simp
          have "\<exists>atEnd c'. stream_loop fuel E ?c3 = Inr (atEnd, c') \<and> adds [] ?c3 c' \<and> cn_writeBufferList c' \<noteq> []"
          proof (rule Suc.IH)
            show "conn_ok ?c3" using c3(1) by (simp add: adds_def)
            show "cn_writeBufferList ?c3 = nd1 # nds" by (rule c3(2))
            show "nd_stream nd1 = Some chs1" by (rule c1(3))
            show "length chs1 + (if file_buf ?c3 = [] then 0 else 1) < fuel" using c1(4) False d by (simp add: file_buf_def)
          qed
          with adds_Nil_trans [OF c3(1)] show ?thesis unfolding s by blast
        qed
      qed
    qed
  qed
qed simp

lemma sendFileInLoop_adds:
  assumes ok: "conn_ok c" and l: "cn_writeBufferList c = nd # nds" "isFile_node nd"
  shows "\<exists>c'. sendFileInLoop E c = Inr c' \<and> adds [] c c' \<and> cn_writeBufferList c' \<noteq> []"
proof (cases "nd_stream nd")
  case None
  with sendfile_adds [OF ok l] show ?thesis .
next
  case (Some chs)
  let ?c = "c\<lparr>cn_fileBuffer := Some (file_buf c)\<rparr>"
  have a: "adds [] c ?c" using ok by (auto simp: conn_defs split: option.splits)
  then have "conn_ok ?c" by (simp add: adds_def)
  moreover have "length chs + (if file_buf ?c = [] then 0 else 1) < Suc (Suc (length chs))" by simp
  ultimately have "\<exists>atEnd c'. stream_loop (Suc (Suc (length chs))) E ?c = Inr (atEnd, c') \<and> adds [] ?c c' \<and>
      cn_writeBufferList c' \<noteq> []"
    using stream_loop_adds [of ?c nd nds chs "Suc (Suc (length chs))" E] l(1) Some by simp
  then obtain atEnd c' where sl: "stream_loop (Suc (Suc (length chs))) E ?c = Inr (atEnd, c')" "adds [] ?c c'"
    "cn_writeBufferList c' \<noteq> []" by blast
  have "sendFileInLoop E c = Inr (if atEnd then ensure_writing c' else c')"
    using l Some sl(1) by (simp add: sendFileInLoop_def del: stream_loop.simps)
  moreover have "adds [] c c'" by (rule adds_Nil_trans [OF a sl(2)])
  ultimately show ?thesis using sl(3) by (cases atEnd) (auto intro: ensure_writing_adds)
qed

section \<open>Messages\<close>

lemma node_buffer:
  assumes "node_ok nd" "\<not> isFile_node nd"
  shows "nd_stream nd = None" "wf_buf (nd_msgBuffer nd)" "node_bytes nd = contents (nd_msgBuffer nd)" "nd_sendFd nd < 0"
  using assms by (auto simp: node_ok_def isFile_node_def node_bytes_def split: if_splits)

lemma new_buffer_node_ok:
  "\<exists>nd. new_buffer_node = Inr nd \<and> node_ok nd \<and> \<not> isFile_node nd \<and> node_bytes nd = []"
proof -
  have "\<exists>b. MsgBuffer_new kBufferDefaultLength = Inr b" by (simp add: MsgBuffer_new_Inr)
  then obtain b where b: "MsgBuffer_new kBufferDefaultLength = Inr b" ..
  from MsgBuffer_new_wf [OF b] b show ?thesis
    by (simp add: new_buffer_node_def isFile_node_def node_ok_def node_bytes_def)
qed

lemma high_water_adds: "adds d c c' \<Longrightarrow> adds d c (high_water c')"
  by (auto simp: conn_defs high_water_def emit_def Let_def split: option.splits)

lemma high_water_fields [simp]:
  "cn_writeBufferList (high_water c) = cn_writeBufferList c" "cn_writing (high_water c) = cn_writing c"
  by (auto simp: high_water_def emit_def Let_def split: option.splits)

text \<open>Appending to the buffer at the end of the list.\<close>

lemma append_last_adds:
  assumes ok: "conn_ok c" and nds: "nodes_ok (xs @ [nd])" "\<not> isFile_node nd"
    and same: "cn_writeBufferList c = xs @ [nd] \<or> xs = cn_writeBufferList c \<and> node_bytes nd = []"
    and d: "length d \<le> vec_max"
  shows "case append_last d (xs @ [nd]) of Inl e \<Rightarrow> e \<in> alloc_errors
    | Inr nds' \<Rightarrow> adds d c (ensure_writing (c\<lparr>cn_writeBufferList := nds'\<rparr>)) \<and> nds' \<noteq> []"
proof -
  have okn: "node_ok nd" using nds(1) by (simp add: nodes_ok_def)
  note nd = node_buffer [OF okn nds(2)]
  show ?thesis
  proof (cases "append_bytes (nd_msgBuffer nd) d")
    case (Inl e)
    with append_bytes_alloc [OF nd(2) d] show ?thesis by (simp add: append_last_def)
  next
    case (Inr b)
    let ?nd = "nd\<lparr>nd_msgBuffer := b\<rparr>"
    have b: "wf_buf b" "contents b = contents (nd_msgBuffer nd) @ d" using append_bytes_ok [OF nd(2) d Inr] by simp_all
    have n: "node_ok ?nd" "\<not> isFile_node ?nd" "node_bytes ?nd = node_bytes nd @ d"
      using nd b by (simp_all add: node_ok_def isFile_node_def node_bytes_def)
    have ok': "nodes_ok (xs @ [?nd])"
      using nds n(1,2) by (auto simp: nodes_ok_def successively_append_iff)
    have bytes: "concat (map node_bytes (xs @ [?nd])) = concat (map node_bytes (cn_writeBufferList c)) @ d"
      using same n(3) by auto
    have fb: "fb_ok (c\<lparr>cn_writeBufferList := xs @ [?nd]\<rparr>)"
      using conn_okD(4) [OF ok] same nd(1) by (cases xs) (auto simp: fb_ok_def file_buf_def)
    have "adds d c (ensure_writing (c\<lparr>cn_writeBufferList := xs @ [?nd]\<rparr>))"
      using conn_okD [OF ok] ok' bytes fb by (simp add: adds_def conn_ok_def sent_def pending_def same_core_def file_buf_def fb_ok_def)
    then show ?thesis using Inr by (simp add: append_last_def)
  qed
qed

lemma queue_rest_adds:
  assumes ok: "conn_ok c" and d: "length d \<le> vec_max"
  shows "case queue_rest d c of Inl e \<Rightarrow> e \<in> alloc_errors | Inr c' \<Rightarrow> adds d c c'"
proof -
  have fin: "case bindR (append_last d (xs @ [nd])) (\<lambda>nds. Inr (high_water (ensure_writing (c\<lparr>cn_writeBufferList := nds\<rparr>)))) of
      Inl e \<Rightarrow> e \<in> alloc_errors | Inr c' \<Rightarrow> adds d c c'"
    if "case append_last d (xs @ [nd]) of Inl e \<Rightarrow> e \<in> alloc_errors
      | Inr nds' \<Rightarrow> adds d c (ensure_writing (c\<lparr>cn_writeBufferList := nds'\<rparr>)) \<and> nds' \<noteq> []" for xs nd
    using that high_water_adds by (cases "append_last d (xs @ [nd])") auto
  show ?thesis
  proof (cases "cn_writeBufferList c = [] \<or> isFile_node (last (cn_writeBufferList c))")
    case True
    obtain nd where nd: "new_buffer_node = Inr nd" "node_ok nd" "\<not> isFile_node nd" "node_bytes nd = []"
      using new_buffer_node_ok by blast
    have "nodes_ok (cn_writeBufferList c @ [nd])"
      using nodes_ok_append [OF conn_okD(3) [OF ok] nd(2)] True by blast
    note a = fin [OF append_last_adds [OF ok this nd(3) _ d]]
    have q: "queue_rest d c = bindR (append_last d (cn_writeBufferList c @ [nd]))
        (\<lambda>nds. Inr (high_water (ensure_writing (c\<lparr>cn_writeBufferList := nds\<rparr>))))"
      using True by (simp only: queue_rest_def nd(1) if_True bindR_simps)
    show ?thesis unfolding q by (rule a) (simp add: nd(4))
  next
    case False
    let ?l = "cn_writeBufferList c"
    have eq: "?l = butlast ?l @ [last ?l]" using False by simp
    have "nodes_ok (butlast ?l @ [last ?l])" using conn_okD(3) [OF ok] eq by simp
    note a = fin [OF append_last_adds [OF ok this _ _ d]]
    have q: "queue_rest d c = bindR (append_last d (butlast ?l @ [last ?l]))
        (\<lambda>nds. Inr (high_water (ensure_writing (c\<lparr>cn_writeBufferList := nds\<rparr>))))"
      using False eq by (simp only: queue_rest_def if_False bindR_simps)
    show ?thesis unfolding q by (rule a) (use False in auto)
  qed
qed

lemma extendLife_adds: "conn_ok c \<Longrightarrow> adds [] c (extendLife c)"
  by (auto simp: conn_defs extendLife_def emit_def Let_def)

lemma extendLife_fields [simp]:
  "cn_writing (extendLife c) = cn_writing c" "cn_writeBufferList (extendLife c) = cn_writeBufferList c"
  "cn_status (extendLife c) = cn_status c" "cn_tls (extendLife c) = cn_tls c" "cn_kernel (extendLife c) = cn_kernel c"
  by (auto simp: extendLife_def emit_def Let_def)

lemma sendInLoop_adds:
  assumes ok: "conn_ok c" and st: "cn_status c = Connected" and d: "length d \<le> vec_max"
  shows "case sendInLoop E d c of Inl e \<Rightarrow> e \<in> alloc_errors | Inr c' \<Rightarrow> adds d c c'"
proof -
  let ?c = "extendLife c"
  have a: "adds [] c ?c" by (rule extendLife_adds [OF ok])
  have ok1: "conn_ok ?c" using a by (simp add: adds_def)
  show ?thesis
  proof (cases "\<not> cn_writing c \<and> cn_writeBufferList c = []")
    case False
    have "sendInLoop E d c = (if d \<noteq> [] then queue_rest d ?c else Inr ?c)"
      using st False by (auto simp: sendInLoop_def Let_def)
    with queue_rest_adds [OF ok1 d] a adds_Nil_trans [OF a] show ?thesis
      by (cases "queue_rest d ?c") auto
  next
    case True
    obtain n c2 where w: "writeRaw d ?c = (n, c2)" by fastforce
    obtain ks e m where c2: "c2 = ?c\<lparr>cn_kernel := ks, cn_errno := e, cn_wire := cn_wire ?c @ take (nat n) d, cn_bytesSent := m\<rparr>"
      "benign ks" "n < 0 \<longrightarrow> e = EAGAIN" "nat n \<le> length d"
      by (rule writeRaw_effect [OF conn_okD(2) [OF ok1] w])
    let ?rest = "drop (nat n) d"
    have fb: "file_buf ?c = []" using conn_okD(4) [OF ok1] True by (simp add: fb_ok_def)
    then have a2: "adds (take (nat n) d) ?c c2" using ok1 c2(2) True by (simp add: c2(1) conn_defs)
    have "sendInLoop E d c = (if ?rest \<noteq> [] then queue_rest ?rest c2 else Inr c2)"
    proof (cases "n < 0")
      case neg: True
      have "cn_status c2 = Connected" "cn_errno c2 = EAGAIN" using c2(1,3) st neg by simp_all
      with neg st True w conn_okD(1) [OF ok] show ?thesis by (simp add: sendInLoop_def writeInLoop_def Let_def)
    next
      case False
      have "cn_status c2 = Connected" using c2(1) st by simp
      with False st True w conn_okD(1) [OF ok] show ?thesis by (simp add: sendInLoop_def writeInLoop_def Let_def)
    qed
    moreover have "case queue_rest ?rest c2 of Inl e \<Rightarrow> e \<in> alloc_errors | Inr c' \<Rightarrow> adds ?rest c2 c'"
      using a2 d by (intro queue_rest_adds) (auto simp: adds_def)
    moreover have "adds d c c'" if "adds ?rest c2 c'" for c'
      using adds_trans [OF a2 that] adds_Nil_trans [OF a] by simp
    moreover have "adds d c c2" if "?rest = []"
      using adds_Nil_trans [OF a a2] that by simp
    ultimately show ?thesis by (cases "queue_rest ?rest c2") auto
  qed
qed

lemma push_node_adds:
  assumes ok: "conn_ok c" and nd: "node_ok nd" "isFile_node nd"
  shows "\<exists>c'. push_node E nd c = Inr c' \<and> adds (node_bytes nd) c c'"
proof -
  let ?c = "c\<lparr>cn_writeBufferList := cn_writeBufferList c @ [nd]\<rparr>"
  have "nodes_ok (cn_writeBufferList c @ [nd])" using nodes_ok_append [OF conn_okD(3) [OF ok] nd(1)] nd(2) by blast
  moreover have "fb_ok ?c" using conn_okD(4) [OF ok] by (auto simp: fb_ok_def file_buf_def)
  ultimately have a: "adds (node_bytes nd) c ?c"
    using conn_okD [OF ok] by (simp add: adds_def conn_ok_def sent_def pending_def same_core_def file_buf_def fb_ok_def)
  show ?thesis
  proof (cases "cn_writeBufferList c = []")
    case True
    have "conn_ok ?c" using a by (simp add: adds_def)
    from sendFileInLoop_adds [OF this _ nd(2)] True obtain c' where "sendFileInLoop E ?c = Inr c'" "adds [] ?c c'" by auto
    with True adds_trans [OF a, of "[]"] show ?thesis by (simp add: push_node_def)
  next
    case False
    then have "push_node E nd c = Inr ?c" by (simp add: push_node_def)
    with a show ?thesis by simp
  qed
qed

section \<open>The write handler\<close>

lemma write_front_adds:
  assumes ok: "conn_ok c" and l: "cn_writeBufferList c = nd # nds" "\<not> isFile_node nd"
  shows "\<exists>c'. write_front E c = Inr (True, c') \<and> adds [] c c'"
proof -
  have n: "node_ok nd" "nodes_ok nds" "nds = [] \<or> isFile_node (hd nds)"
    using conn_okD(3) [OF ok] l by (auto simp: nodes_ok_Cons)
  note nd = node_buffer [OF n(1) l(2)]
  let ?b = "nd_msgBuffer nd"
  have p: "peek_bytes ?b (readableBytes ?b) = Inr (contents ?b)" using nd(2) by simp
  obtain k c2 where w: "writeRaw (contents ?b) c = (k, c2)" by fastforce
  obtain ks e m where c2: "c2 = c\<lparr>cn_kernel := ks, cn_errno := e, cn_wire := cn_wire c @ take (nat k) (contents ?b), cn_bytesSent := m\<rparr>"
    "benign ks" "k < 0 \<longrightarrow> e = EAGAIN" "nat k \<le> length (contents ?b)"
    by (rule writeRaw_effect [OF conn_okD(2) [OF ok] w])
  have wl: "writeInLoop E (contents ?b) c = Inr (k, c2)" using conn_okD(1) [OF ok] w by (simp add: writeInLoop_def)
  have fb: "file_buf c = []" using conn_okD(4) [OF ok] l(1) nd(1) by (auto simp: fb_ok_def)
  obtain b' where b': "retrieve ?b (nat k) = Inr b'" "wf_buf b'" "contents b' = drop (nat k) (contents ?b)"
    by (rule retrieve_ok [OF nd(2)])
  let ?nd = "nd\<lparr>nd_msgBuffer := b'\<rparr>"
  have n': "node_ok ?nd" "\<not> isFile_node ?nd" "take (nat k) (contents ?b) @ node_bytes ?nd = node_bytes nd"
    using nd b' by (simp_all add: node_ok_def isFile_node_def node_bytes_def)
  then have l': "nodes_ok (?nd # nds)" using n by (auto simp: nodes_ok_Cons)
  show ?thesis
  proof (cases "k \<ge> 0")
    case True
    then have "write_front E c = Inr (True, upd_front (\<lambda>nd. nd\<lparr>nd_msgBuffer := b'\<rparr>) c2)"
      using l(1) p wl b'(1) by (simp add: write_front_def)
    moreover have "adds [] c (upd_front (\<lambda>nd. nd\<lparr>nd_msgBuffer := b'\<rparr>) c2)"
      using conn_okD [OF ok] c2(1,2) l(1) l' n'(3) fb by (auto simp: conn_defs upd_front_def)
    ultimately show ?thesis by blast
  next
    case False
    then have "write_front E c = Inr (True, c2)" using l(1) p wl c2 by (simp add: write_front_def)
    moreover have "adds [] c c2" using conn_okD [OF ok] c2 False by (auto simp: conn_defs)
    ultimately show ?thesis by blast
  qed
qed

lemma pop_front_adds:
  assumes ok: "conn_ok c" and l: "cn_writeBufferList c = nd # nds" "node_bytes nd = []" "file_buf c = []"
  shows "cn_writeBufferList (pop_front c) = nds" "nds \<noteq> [] \<Longrightarrow> adds [] c (pop_front c)"
    "nds = [] \<Longrightarrow> adds [] c (all_written (pop_front c))"
proof -
  have "nodes_ok nds" using conn_okD(3) [OF ok] l(1) by (simp add: nodes_ok_Cons)
  then show "cn_writeBufferList (pop_front c) = nds" "nds \<noteq> [] \<Longrightarrow> adds [] c (pop_front c)"
    "nds = [] \<Longrightarrow> adds [] c (all_written (pop_front c))"
    using conn_okD [OF ok] l
    by (auto simp: pop_front_def all_written_def io_disableWriting_def closeWrite_def emit_def conn_defs Let_def)
qed

lemma write_step_adds:
  assumes ok: "conn_ok c" and l: "cn_writeBufferList c = nd # nds"
  shows "\<exists>c'. write_step E c = Inr (True, c') \<and> adds [] c c'"
proof -
  have n: "node_ok nd" "nodes_ok nds" "nds = [] \<or> isFile_node nd \<or> isFile_node (hd nds)"
    using conn_okD(3) [OF ok] l by (auto simp: nodes_ok_Cons)
  have send: "\<exists>c'. bindR (sendFileInLoop E c0) (\<lambda>c. Inr (True, c)) = Inr (True, c') \<and> adds [] c c'"
    if "adds [] c c0" "cn_writeBufferList c0 = nd' # nds'" "isFile_node nd'" for c0 nd' nds'
  proof -
    have "conn_ok c0" using that(1) by (simp add: adds_def)
    from sendFileInLoop_adds [OF this that(2,3), of E] obtain c' where "sendFileInLoop E c0 = Inr c'" "adds [] c0 c'" by auto
    with adds_Nil_trans [OF that(1)] show ?thesis by auto
  qed
  show ?thesis
  proof (cases "isFile_node nd")
    case False
    note nd = node_buffer [OF n(1) False]
    have fb: "file_buf c = []" using conn_okD(4) [OF ok] l nd(1) by (auto simp: fb_ok_def)
    show ?thesis
    proof (cases "contents (nd_msgBuffer nd) = []")
      case True
      then have r: "readableBytes (nd_msgBuffer nd) \<le> 0" using readableBytes_contents [OF nd(2)] by simp
      have e: "node_bytes nd = []" using nd(3) True by simp
      note p = pop_front_adds [OF ok l e fb]
      show ?thesis
      proof (cases nds)
        case Nil
        with p l False r show ?thesis by (simp add: write_step_def)
      next
        case (Cons nd' nds')
        then have "isFile_node nd'" using n(3) False by simp
        with send [OF p(2), of nd' nds'] p(1) Cons l False r show ?thesis by (simp add: write_step_def Let_def)
      qed
    next
      case ne: False
      then have "\<not> readableBytes (nd_msgBuffer nd) \<le> 0" using readableBytes_contents [OF nd(2)] by simp
      with write_front_adds [OF ok l False] l False show ?thesis by (simp add: write_step_def)
    qed
  next
    case True
    show ?thesis
    proof (cases "nd_fileBytesToSend nd \<le> 0")
      case z: True
      have e: "node_bytes nd = []"
        using z True by (auto simp: node_bytes_def isFile_node_def split: option.splits if_splits)
      have fb: "file_buf c = []" using conn_okD(4) [OF ok] l z by (auto simp: fb_ok_def)
      note p = pop_front_adds [OF ok l e fb]
      show ?thesis
      proof (cases nds)
        case Nil
        with p l True z show ?thesis by (simp add: write_step_def)
      next
        case (Cons nd' nds')
        have a: "adds [] c (pop_front c)" and okp: "conn_ok (pop_front c)" using p(2) Cons by (auto simp: adds_def)
        show ?thesis
        proof (cases "isFile_node nd'")
          case f: True
          with send [OF a, of nd' nds'] p(1) Cons l True z show ?thesis by (simp add: write_step_def Let_def)
        next
          case f: False
          from write_front_adds [OF okp _ f, of nds' E] p(1) Cons obtain c' where
            "write_front E (pop_front c) = Inr (True, c')" "adds [] (pop_front c) c'" by auto
          with adds_Nil_trans [OF a] p(1) Cons l True z f show ?thesis by (simp add: write_step_def Let_def)
        qed
      qed
    next
      case z: False
      have "adds [] c c" using ok by (simp add: adds_def same_core_def)
      from send [OF this l True] l True z show ?thesis by (simp add: write_step_def Let_def)
    qed
  qed
qed

lemma writeCallback_adds:
  assumes ok: "conn_ok c" and s: "\<not> cn_closeOnEmpty c"
  shows "\<exists>c'. writeCallback E c = Inr c' \<and> adds [] c c'"
proof -
  let ?c = "extendLife c"
  have a: "adds [] c ?c" by (rule extendLife_adds [OF ok])
  have ok1: "conn_ok ?c" and s1: "\<not> cn_closeOnEmpty ?c" using a s by (simp_all add: adds_def same_core_def)
  show ?thesis
  proof (cases "cn_writing c")
    case False
    with a show ?thesis by (simp add: writeCallback_def)
  next
    case True
    then obtain nd nds where "cn_writeBufferList ?c = nd # nds" using conn_okD(5) [OF ok] by (auto simp: neq_Nil_conv)
    from write_step_adds [OF ok1 this, of E] obtain c' where c': "write_step E ?c = Inr (True, c')" "adds [] ?c c'" by auto
    then have "\<not> cn_closeOnEmpty c'" using s1 by (simp add: adds_def same_core_def)
    with c' True conn_okD(1) [OF ok] have "writeCallback E c = Inr c'" by (simp add: writeCallback_def)
    with adds_Nil_trans [OF a c'(2)] show ?thesis by simp
  qed
qed

section \<open>Sequences of operations\<close>

text \<open>
  What happens to a connection: calls of the sending functions from the loop thread (the flag is true) or from
  another thread, writability events, queued work of the loop, answers of the kernel becoming
  available, time passing.
\<close>

datatype conn_op =
    OpSend bool "byte list"
  | OpSendFile bool int "byte list" nat nat
  | OpSendStream bool "byte list list"
  | OpWritable
  | OpRunNext
  | OpKernel sys_write
  | OpClock int

fun conn_step :: "'e ssl_engine \<Rightarrow> 'e conn \<Rightarrow> conn_op \<Rightarrow> 'e conn result" where
  "conn_step E c (OpSend inLoop d) = send_string E inLoop d c"
| "conn_step E c (OpSendFile inLoop fd f offset len) = sendFile_fd E inLoop fd (Some f) offset len c"
| "conn_step E c (OpSendStream inLoop chs) = sendStream E inLoop chs c"
| "conn_step E c OpWritable = writeCallback E c"
| "conn_step E c OpRunNext = run_next E c"
| "conn_step E c (OpKernel k) = Inr (c\<lparr>cn_kernel := cn_kernel c @ [k]\<rparr>)"
| "conn_step E c (OpClock t) = Inr (c\<lparr>cn_clock := t\<rparr>)"

fun op_bytes :: "conn_op \<Rightarrow> byte list" where
  "op_bytes (OpSend inLoop d) = d"
| "op_bytes (OpSendFile inLoop fd f offset len) = take len (drop offset f)"
| "op_bytes (OpSendStream inLoop chs) = chunk_bytes chs"
| "op_bytes _ = []"

text \<open>A range of a file is not empty, is inside the open file and fits a \<^verbatim>\<open>ssize_t\<close>; the kernel does not break the connection.\<close>

fun op_ok :: "conn_op \<Rightarrow> bool" where
  "op_ok (OpSend inLoop d) \<longleftrightarrow> length d \<le> vec_max"
| "op_ok (OpSendFile inLoop fd f offset len) \<longleftrightarrow> 0 \<le> fd \<and> 0 < len \<and> len \<le> vec_max \<and> offset + len \<le> length f"
| "op_ok (OpKernel k) \<longleftrightarrow> benign [k]"
| "op_ok _ \<longleftrightarrow> True"

fun send_task :: "task \<Rightarrow> bool" where
  "send_task (TaskSend d) \<longleftrightarrow> length d \<le> vec_max"
| "send_task (TaskNode nd) \<longleftrightarrow> node_ok nd \<and> isFile_node nd"
| "send_task _ \<longleftrightarrow> False"

definition send_inv :: "'e conn \<Rightarrow> bool" where
  "send_inv c \<longleftrightarrow> conn_ok c \<and> cn_status c = Connected \<and> \<not> cn_closeOnEmpty c \<and> cn_sendNum c = length (cn_queue c) \<and>
     length (cn_queue c) \<le> size_max \<and> (\<forall>t \<in> set (cn_queue c). send_task t)"

definition outputs :: "'e conn \<Rightarrow> byte list" where
  "outputs c = cn_wire c @ pending c @ queued c"

lemma outputs_sent: "outputs c = sent c @ queued c"
  by (simp add: outputs_def sent_def)

lemma send_inv_adds:
  assumes "send_inv c" "adds d c c'" "cn_queue c = [] \<or> d = []"
  shows "send_inv c' \<and> outputs c' = outputs c @ d \<and> cn_queue c' = cn_queue c"
  using assms by (auto simp: send_inv_def adds_def same_core_def outputs_sent queued_def)

text \<open>The protocol of the sending functions.\<close>

lemma send_or_queue_step:
  assumes inv: "send_inv c" and t: "send_task t" and len: "length (cn_queue c) < size_max"
    and now: "case now c of Inl e \<Rightarrow> e \<in> alloc_errors | Inr c' \<Rightarrow> adds (task_bytes t) c c'"
  shows "case send_or_queue inLoop t now c of Inl e \<Rightarrow> e \<in> alloc_errors
    | Inr c' \<Rightarrow> send_inv c' \<and> outputs c' = outputs c @ task_bytes t \<and> length (cn_queue c') \<le> Suc (length (cn_queue c))"
proof (cases "inLoop \<and> cn_sendNum c = 0")
  case True
  then have "cn_queue c = []" using inv by (simp add: send_inv_def)
  with True now send_inv_adds [OF inv] show ?thesis
    by (cases "now c") (auto simp: send_or_queue_def)
next
  case False
  let ?c = "c\<lparr>cn_sendNum := szadd (cn_sendNum c) 1, cn_queue := cn_queue c @ [t]\<rparr>"
  have q: "send_or_queue inLoop t now c = Inr ?c" using False by (auto simp: send_or_queue_def)
  have "szadd (cn_sendNum c) 1 = length (cn_queue c) + 1" using inv len by (simp add: send_inv_def)
  moreover have "conn_ok ?c" using inv by (simp add: send_inv_def conn_ok_def fb_ok_def file_buf_def)
  ultimately have "send_inv ?c" using inv t len by (simp add: send_inv_def)
  moreover have "outputs ?c = outputs c @ task_bytes t" by (simp add: outputs_def pending_def queued_def file_buf_def)
  ultimately show ?thesis unfolding q by simp
qed

lemma send_node_step:
  assumes "send_inv c" "node_ok nd" "isFile_node nd" "length (cn_queue c) < size_max"
  shows "case send_node E inLoop nd c of Inl e \<Rightarrow> e \<in> alloc_errors
    | Inr c' \<Rightarrow> send_inv c' \<and> outputs c' = outputs c @ node_bytes nd \<and> length (cn_queue c') \<le> Suc (length (cn_queue c))"
proof -
  have ok: "conn_ok c" using assms(1) by (simp add: send_inv_def)
  have "case push_node E nd c of Inl e \<Rightarrow> e \<in> alloc_errors | Inr c' \<Rightarrow> adds (task_bytes (TaskNode nd)) c c'"
    using push_node_adds [OF ok assms(2,3), of E] by auto
  note r = send_or_queue_step [where t = "TaskNode nd" and now = "push_node E nd" and inLoop = inLoop, OF assms(1) _ assms(4) this]
  show ?thesis unfolding send_node_def by (rule r [unfolded task_bytes.simps]) (simp add: assms(2,3))
qed

lemma run_next_step:
  assumes inv: "send_inv c"
  shows "case run_next E c of Inl e \<Rightarrow> e \<in> alloc_errors
    | Inr c' \<Rightarrow> send_inv c' \<and> outputs c' = outputs c \<and> length (cn_queue c') \<le> length (cn_queue c)"
proof (cases "cn_queue c")
  case Nil
  with inv show ?thesis by (simp add: run_next_def)
next
  case (Cons t ts)
  let ?c = "c\<lparr>cn_queue := ts\<rparr>"
  have t: "send_task t" "\<forall>t \<in> set ts. send_task t" "cn_sendNum c = Suc (length ts)"
    using inv Cons by (simp_all add: send_inv_def)
  have ok: "conn_ok ?c" "cn_status ?c = Connected" "\<not> cn_closeOnEmpty ?c"
    using inv by (simp_all add: send_inv_def conn_ok_def fb_ok_def file_buf_def)
  have o: "outputs c = sent ?c @ task_bytes t @ queued ?c"
    using Cons by (simp add: outputs_def sent_def pending_def queued_def file_buf_def)
  have fin: "send_inv c' \<and> outputs c' = outputs c \<and> length (cn_queue c') \<le> length (cn_queue c)"
    if "conn_ok c'" "sent c' = sent ?c @ task_bytes t" "cn_status c' = Connected" "\<not> cn_closeOnEmpty c'" "cn_queue c' = ts"
      "cn_sendNum c' = length ts" for c' :: "'a conn"
    using that t o Cons inv by (simp add: send_inv_def outputs_sent queued_def)
  show ?thesis
  proof (cases t)
    case (TaskSend d)
    have d: "length d \<le> vec_max" using t(1) TaskSend by simp
    show ?thesis
    proof (cases "sendInLoop E d ?c")
      case (Inl e)
      then show ?thesis using sendInLoop_adds [OF ok(1,2) d, of E] Cons TaskSend by (simp add: run_next_def)
    next
      case (Inr c1)
      then have a: "adds d ?c c1" using sendInLoop_adds [OF ok(1,2) d, of E] by simp
      let ?c2 = "c1\<lparr>cn_sendNum := szsub (cn_sendNum c1) 1\<rparr>"
      have sn: "cn_sendNum c1 = Suc (length ts)" "cn_sendNum c1 \<le> size_max"
        using a t(3) inv by (simp_all add: adds_def same_core_def send_inv_def)
      have "send_inv ?c2 \<and> outputs ?c2 = outputs c \<and> length (cn_queue ?c2) \<le> length (cn_queue c)"
        by (rule fin) (use a sn ok TaskSend in \<open>auto simp: adds_def same_core_def conn_ok_def fb_ok_def sent_def pending_def file_buf_def\<close>)
      then show ?thesis using Inr Cons TaskSend by (simp add: run_next_def)
    qed
  next
    case (TaskNode nd)
    let ?c0 = "?c\<lparr>cn_sendNum := szsub (cn_sendNum c) 1\<rparr>"
    have "conn_ok ?c0" using ok(1) by (simp add: conn_ok_def fb_ok_def file_buf_def)
    moreover have "node_ok nd" "isFile_node nd" using t(1) TaskNode by simp_all
    ultimately obtain c1 where c1: "push_node E nd ?c0 = Inr c1" "adds (node_bytes nd) ?c0 c1" using push_node_adds by blast
    have "szsub (cn_sendNum c) 1 = length ts" using t(3) inv Cons by (simp add: send_inv_def)
    then have "send_inv c1 \<and> outputs c1 = outputs c \<and> length (cn_queue c1) \<le> length (cn_queue c)"
      by (intro fin) (use c1(2) ok TaskNode in \<open>auto simp: adds_def same_core_def sent_def pending_def file_buf_def\<close>)
    then show ?thesis using c1(1) Cons TaskNode by (simp add: run_next_def)
  qed (use t(1) in simp_all)
qed

lemma conn_step_ok:
  assumes inv: "send_inv c" and op: "op_ok op" and len: "length (cn_queue c) < size_max"
  shows "case conn_step E c op of Inl e \<Rightarrow> e \<in> alloc_errors
    | Inr c' \<Rightarrow> send_inv c' \<and> outputs c' = outputs c @ op_bytes op \<and> length (cn_queue c') \<le> Suc (length (cn_queue c))"
proof -
  have ok: "conn_ok c" "cn_status c = Connected" "\<not> cn_closeOnEmpty c" using inv by (simp_all add: send_inv_def)
  obtain nd0 where nd0: "new_buffer_node = Inr nd0" "node_ok nd0" "\<not> isFile_node nd0"
    using new_buffer_node_ok by blast
  show ?thesis
  proof (cases op)
    case (OpSend inLoop d)
    then have "length d \<le> vec_max" using op by simp
    note a = this sendInLoop_adds [where E = E, OF ok(1,2) this]
    note r = send_or_queue_step [where t = "TaskSend d" and now = "sendInLoop E d" and inLoop = inLoop, OF inv _ len,
        unfolded task_bytes.simps]
    show ?thesis unfolding OpSend conn_step.simps op_bytes.simps send_string_def send_data_def
      by (rule r [OF _ a(2)]) (simp add: a(1))
  next
    case (OpSendFile inLoop fd f offset len')
    let ?nd = "nd0\<lparr>nd_sendFd := fd, nd_offset := offset, nd_fileBytesToSend := int len', nd_file := Some f\<rparr>"
    have nd: "node_ok ?nd" "isFile_node ?nd" "node_bytes ?nd = take len' (drop offset f)"
      using op OpSendFile node_buffer [OF nd0(2,3)] by (simp_all add: node_ok_def isFile_node_def node_bytes_def)
    have "conn_step E c op = send_node E inLoop ?nd c" using op OpSendFile by (simp add: sendFile_fd_def nd0(1))
    moreover have "op_bytes op = node_bytes ?nd" using OpSendFile nd(3) by simp
    ultimately show ?thesis by (simp only: send_node_step [OF inv nd(1,2) len])
  next
    case (OpSendStream inLoop chs)
    let ?nd = "nd0\<lparr>nd_offset := 0, nd_fileBytesToSend := 1, nd_stream := Some chs\<rparr>"
    have nd: "node_ok ?nd" "isFile_node ?nd" "node_bytes ?nd = chunk_bytes chs"
      by (simp_all add: node_ok_def isFile_node_def node_bytes_def)
    have "conn_step E c op = send_node E inLoop ?nd c" using OpSendStream by (simp add: sendStream_def nd0(1))
    moreover have "op_bytes op = node_bytes ?nd" using OpSendStream nd(3) by simp
    ultimately show ?thesis by (simp only: send_node_step [OF inv nd(1,2) len])
  next
    case OpWritable
    obtain c' where c': "writeCallback E c = Inr c'" "adds [] c c'" using writeCallback_adds [OF ok(1,3)] by blast
    with send_inv_adds [OF inv c'(2)] OpWritable show ?thesis by simp
  next
    case OpRunNext
    with run_next_step [OF inv, of E] show ?thesis by (cases "run_next E c") auto
  next
    case (OpKernel k)
    then show ?thesis using op inv
      by (auto simp: send_inv_def conn_ok_def benign_def fb_ok_def outputs_def pending_def queued_def file_buf_def)
  next
    case (OpClock t)
    then show ?thesis using inv
      by (auto simp: send_inv_def conn_ok_def fb_ok_def outputs_def pending_def queued_def file_buf_def)
  qed
qed

lemma conn_run_ok:
  assumes "send_inv c" "\<forall>op \<in> set ops. op_ok op" "length (cn_queue c) + length ops \<le> size_max"
  shows "case foldR (conn_step E) c ops of Inl e \<Rightarrow> e \<in> alloc_errors
    | Inr c' \<Rightarrow> send_inv c' \<and> outputs c' = outputs c @ concat (map op_bytes ops)"
  using assms
proof (induction ops arbitrary: c)
  case (Cons op ops)
  have len: "length (cn_queue c) < size_max" using Cons.prems(3) by simp
  have op: "op_ok op" using Cons.prems(2) by simp
  show ?case
  proof (cases "conn_step E c op")
    case (Inl e)
    with conn_step_ok [OF Cons.prems(1) op len, of E] show ?thesis by simp
  next
    case (Inr c1)
    with conn_step_ok [OF Cons.prems(1) op len, of E] have c1: "send_inv c1" "outputs c1 = outputs c @ op_bytes op"
      "length (cn_queue c1) \<le> Suc (length (cn_queue c))" by simp_all
    have "length (cn_queue c1) + length ops \<le> size_max" using c1(3) Cons.prems(3) by simp
    from Cons.IH [OF c1(1) _ this] Cons.prems(2) c1(2) Inr show ?thesis by (auto split: sum.splits)
  qed
qed simp

text \<open>A new connection over a kernel that will answer \<open>answers\<close>.\<close>

lemma established_ok:
  assumes "TcpConnection_new None answers clock = Inr c0" "established_inLoop E c0 = Inr c1" "benign answers"
  shows "send_inv c1 \<and> outputs c1 = [] \<and> cn_queue c1 = []"
proof -
  obtain b where "MsgBuffer_new kBufferDefaultLength = Inr b" using assms(1) by (auto simp: TcpConnection_new_def bindR_eq_Inr)
  with assms show ?thesis
    by (auto simp: TcpConnection_new_def established_inLoop_def emit_def Let_def send_inv_def conn_ok_def fb_ok_def
        file_buf_def outputs_def pending_def queued_def split: if_splits)
qed

text \<open>
  C2: bytes leave a connection in the order they were sent. On an established connection without TLS whose kernel
  answers writes only with a number of bytes or with \<^verbatim>\<open>EAGAIN\<close> (\<open>benign\<close>), for any
  sequence of sends of messages, of non-empty ranges inside of open files and of streams, from the loop thread or from others, mixed in any
  way with writability events, queued work and short or blocked writes: what the kernel has
  taken, followed by what waits in the list, followed by what is queued in the loop, is exactly the
  concatenation of all bytes handed to the connection in the order of the calls. The operations
  fail only when memory runs out; no assertion of the code is violated in such a run.
\<close>

theorem bytes_in_send_order:
  assumes "TcpConnection_new None answers clock = Inr c0" "established_inLoop E c0 = Inr c1" "benign answers"
    "\<forall>op \<in> set ops. op_ok op" "length ops \<le> size_max"
  shows "case foldR (conn_step E) c1 ops of Inl e \<Rightarrow> e \<in> {LengthError, BadAlloc}
    | Inr c \<Rightarrow> cn_wire c @ pending c @ queued c = concat (map op_bytes ops)"
proof -
  note e = established_ok [OF assms(1-3)]
  then have "length (cn_queue c1) + length ops \<le> size_max" using assms(5) by simp
  from conn_run_ok [OF _ assms(4) this, of E] e show ?thesis
    by (simp add: outputs_def alloc_errors_def split: sum.splits)
qed

definition example_ops :: "conn_op list" where
  "example_ops = [OpSend True ''ab'', OpSend False ''cd'', OpSendFile True 3 ''0123456789'' 2 3, OpRunNext, OpWritable]"

lemma example_established:
  "\<exists>c0 c1. TcpConnection_new None [WriteOk 1] 0 = Inr c0 \<and> established_inLoop null_engine c0 = Inr c1"
proof -
  have "\<exists>b. MsgBuffer_new kBufferDefaultLength = Inr b" by (simp add: MsgBuffer_new_Inr)
  then show ?thesis by (auto simp: TcpConnection_new_def established_inLoop_def Let_def)
qed

theorem bytes_in_send_order_witness:
  "\<exists>c0 c1. TcpConnection_new None [WriteOk 1] 0 = Inr c0 \<and> established_inLoop null_engine c0 = Inr c1 \<and>
     (case foldR (conn_step null_engine) c1 example_ops of Inl e \<Rightarrow> e \<in> {LengthError, BadAlloc}
      | Inr c \<Rightarrow> cn_wire c @ pending c @ queued c = ''abcd234'')"
proof -
  obtain c0 c1 where c: "TcpConnection_new None [WriteOk 1] 0 = Inr c0" "established_inLoop null_engine c0 = Inr c1"
    using example_established by blast
  have "benign [WriteOk 1]" "\<forall>op \<in> set example_ops. op_ok op" "length example_ops \<le> size_max"
    by (auto simp: benign_def example_ops_def)
  note o = bytes_in_send_order [OF c this]
  have ob: "concat (map op_bytes example_ops) = ''abcd234''" by (simp add: example_ops_def)
  show ?thesis by (intro exI [of _ c0] exI [of _ c1] conjI c) (rule o [unfolded ob])
qed

section \<open>Shutting down\<close>

text \<open>A connection that has been told to shut down but has not been closed.\<close>

definition closing :: "'e conn \<Rightarrow> bool" where
  "closing c \<longleftrightarrow> conn_ok c \<and>
     (if cn_status c = Connected then cn_closeOnEmpty c \<and> \<not> cn_writeClosed c
      else cn_status c = Disconnecting \<and> cn_writeBufferList c = [])"

lemma shutdown_plain:
  assumes "conn_ok c" "cn_status c = Connected" "\<not> cn_writeClosed c"
  shows "\<exists>c'. shutdown E True c = Inr c' \<and> closing c' \<and> sent c' = sent c"
  using assms conn_okD [OF assms(1)]
  by (auto simp: shutdown_def shutdown_inLoop_def closing_def conn_ok_def fb_ok_def sent_def pending_def file_buf_def
      closeWrite_def Let_def)

lemma writeCallback_closing:
  assumes "closing c"
  shows "\<exists>c'. writeCallback E c = Inr c' \<and> closing c' \<and> sent c' = sent c"
proof -
  let ?c = "extendLife c"
  have ok: "conn_ok c" using assms by (simp add: closing_def)
  have a: "adds [] c ?c" by (rule extendLife_adds [OF ok])
  then have ok1: "conn_ok ?c" "sent ?c = sent c" by (simp_all add: adds_def)
  have cl: "cn_closeOnEmpty ?c = cn_closeOnEmpty c" "cn_writeClosed ?c = cn_writeClosed c"
    by (auto simp: extendLife_def emit_def Let_def)
  show ?thesis
  proof (cases "cn_writing c")
    case False
    then have "writeCallback E c = Inr ?c" by (simp add: writeCallback_def)
    moreover have "closing ?c" using assms ok1 cl by (simp add: closing_def)
    ultimately show ?thesis using ok1 by simp
  next
    case True
    then obtain nd nds where l: "cn_writeBufferList c = nd # nds" using conn_okD(5) [OF ok] by (auto simp: neq_Nil_conv)
    then have st: "cn_status ?c = Connected" "cn_closeOnEmpty ?c" "\<not> cn_writeClosed ?c"
      using assms cl by (auto simp: closing_def split: if_splits)
    from write_step_adds [OF ok1(1), of nd nds E] l obtain c1 where c1: "write_step E ?c = Inr (True, c1)" "adds [] ?c c1" by auto
    then have s1: "conn_ok c1" "cn_status c1 = Connected" "cn_closeOnEmpty c1" "\<not> cn_writeClosed c1" "sent c1 = sent c"
      using st ok1(2) by (simp_all add: adds_def same_core_def)
    then have "cn_tls c1 = None" by (simp add: conn_ok_def)
    with c1(1) s1(3) True conn_okD(1) [OF ok] have "writeCallback E c = shutdown E True c1" by (simp add: writeCallback_def)
    with shutdown_plain [OF s1(1,2,4), of E] s1(5) show ?thesis by simp
  qed
qed

text \<open>
  C8: shutting down is graceful. After \<^verbatim>\<open>shutdown()\<close>, called in the loop thread on a connected connection without TLS, and for any writability events
  and answers of a kernel that does not break the connection: everything that was on the wire or in the write list when \<^verbatim>\<open>shutdown()\<close> was
  called stays on its way, in order, and the writing side is closed only when
  all of it is on the wire. Sends that are still queued for the loop at that time are not covered: they may be dropped.
\<close>

theorem shutdown_is_graceful:
  assumes "conn_ok c" "cn_status c = Connected" "\<not> cn_writeClosed c"
    and "\<forall>op \<in> set ops. op = OpWritable \<or> (\<exists>k. op = OpKernel k \<and> benign [k])"
  shows "\<exists>c1 c2. shutdown E True c = Inr c1 \<and> foldR (conn_step E) c1 ops = Inr c2 \<and> cn_wire c2 @ pending c2 = cn_wire c @ pending c \<and>
    (cn_writeClosed c2 \<longrightarrow> cn_wire c2 = cn_wire c @ pending c)"
proof -
  obtain c1 where c1: "shutdown E True c = Inr c1" "closing c1" "sent c1 = sent c" using shutdown_plain [OF assms(1-3)] by blast
  have run: "\<exists>c2. foldR (conn_step E) c0 ops = Inr c2 \<and> closing c2 \<and> sent c2 = sent c0" if "closing c0" for c0
    using that assms(4)
  proof (induction ops arbitrary: c0)
    case (Cons op ops)
    have "\<exists>c'. conn_step E c0 op = Inr c' \<and> closing c' \<and> sent c' = sent c0"
    proof (cases "op = OpWritable")
      case True
      with writeCallback_closing [OF Cons.prems(1)] show ?thesis by simp
    next
      case False
      with Cons.prems(2) obtain k where k: "op = OpKernel k" "benign [k]" by auto
      let ?c = "c0\<lparr>cn_kernel := cn_kernel c0 @ [k]\<rparr>"
      have "conn_ok ?c" using Cons.prems(1) k(2)
        by (simp add: closing_def conn_ok_def benign_def fb_ok_def file_buf_def split: if_splits)
      with Cons.prems(1) have "closing ?c" by (simp add: closing_def)
      moreover have "sent ?c = sent c0" by (simp add: sent_def pending_def file_buf_def)
      ultimately show ?thesis using k(1) by simp
    qed
    then obtain c' where "conn_step E c0 op = Inr c'" "closing c'" "sent c' = sent c0" by blast
    with Cons.IH [of c'] Cons.prems(2) show ?case by simp
  qed simp
  from run [OF c1(2)] obtain c2 where c2: "foldR (conn_step E) c1 ops = Inr c2" "closing c2" "sent c2 = sent c1" by blast
  have "pending c2 = []" if "cn_writeClosed c2"
    using that c2(2) by (auto simp: closing_def conn_ok_def fb_ok_def pending_def split: if_splits)
  with c1 c2 show ?thesis by (auto simp: sent_def)
qed

text \<open>A message that the socket does not take waits in the list.\<close>

lemma example_waiting:
  "\<exists>c0 c1 c. TcpConnection_new None [] 0 = Inr c0 \<and> established_inLoop null_engine c0 = Inr c1 \<and>
     send_string null_engine True ''ab'' c1 = Inr c \<and> conn_ok c \<and> cn_status c = Connected \<and> \<not> cn_writeClosed c \<and>
     cn_wire c = [] \<and> pending c = ''ab''"
proof -
  have "\<exists>b. MsgBuffer_new kBufferDefaultLength = Inr b" by (simp add: MsgBuffer_new_Inr)
  then obtain c0 c1 where c: "TcpConnection_new None [] 0 = Inr c0" "established_inLoop null_engine c0 = Inr c1"
    "cn_kernel c1 = []" "cn_writeBufferList c1 = []" "cn_sendNum c1 = 0" "cn_queue c1 = []" "cn_status c1 = Connected" "cn_wire c1 = []"
    "\<not> cn_writing c1" "cn_tls c1 = None" "cn_timingWheel c1 = False" "cn_idleTimeout c1 = 0" "\<not> cn_writeClosed c1" "cn_kickoffEntry c1 = None" "cn_highWaterMark c1 = None"
    by (auto simp: TcpConnection_new_def established_inLoop_def emit_def Let_def)
  have inv: "send_inv c1" "outputs c1 = []" using established_ok [OF c(1,2)] by (simp_all add: benign_def)
  obtain b0 where b0: "MsgBuffer_new kBufferDefaultLength = Inr b0" using \<open>\<exists>b. MsgBuffer_new kBufferDefaultLength = Inr b\<close> ..
  then obtain nd0 where nd0: "new_buffer_node = Inr nd0" "nd_msgBuffer nd0 = b0" by (simp add: new_buffer_node_def)
  obtain b where b: "append_bytes (nd_msgBuffer nd0) ''ab'' = Inr b"
    using nd0(2) append_bytes_total [of b0 "''ab''"] MsgBuffer_new_wf [OF b0] by (auto simp: fits_def)
  have "\<exists>c. send_string null_engine True ''ab'' c1 = Inr c \<and> \<not> cn_writeClosed c \<and> cn_wire c = [] \<and> cn_queue c = []"
    using c
    by (simp add: nd0 b [unfolded nd0(2)] send_string_def send_data_def send_or_queue_def sendInLoop_def extendLife_def writeInLoop_def writeRaw_def k_write_def
        queue_rest_def append_last_def high_water_def ensure_writing_def io_enableWriting_def Let_def)
  then obtain c2 where c2: "send_string null_engine True ''ab'' c1 = Inr c2" "\<not> cn_writeClosed c2" "cn_wire c2 = []" "cn_queue c2 = []" by blast
  have "send_inv c2 \<and> outputs c2 = ''ab''"
    using conn_step_ok [OF inv(1), of "OpSend True ''ab''" null_engine] c(6) c2(1) inv(2) by simp
  then have "conn_ok c2" "cn_status c2 = Connected" "pending c2 = ''ab''"
    using c2(3,4) by (simp_all add: send_inv_def outputs_def queued_def)
  with c(1,2) c2 show ?thesis by blast
qed

theorem shutdown_is_graceful_witness:
  "\<exists>c0 c1 c c2 c3. TcpConnection_new None [] 0 = Inr c0 \<and> established_inLoop null_engine c0 = Inr c1 \<and>
     send_string null_engine True ''ab'' c1 = Inr c \<and> pending c = ''ab'' \<and> shutdown null_engine True c = Inr c2 \<and>
     foldR (conn_step null_engine) c2 [OpKernel (WriteOk 1), OpWritable, OpKernel (WriteOk 5), OpWritable] = Inr c3 \<and>
     cn_wire c3 @ pending c3 = ''ab'' \<and> (\<not> cn_writeClosed c3 \<or> cn_wire c3 = ''ab'')"
proof -
  obtain c0 c1 c where c: "TcpConnection_new None [] 0 = Inr c0" "established_inLoop null_engine c0 = Inr c1"
    "send_string null_engine True ''ab'' c1 = Inr c" "conn_ok c" "cn_status c = Connected" "\<not> cn_writeClosed c"
    "cn_wire c = []" "pending c = ''ab''" using example_waiting by blast
  let ?ops = "[OpKernel (WriteOk 1), OpWritable, OpKernel (WriteOk 5), OpWritable]"
  have "\<forall>op \<in> set ?ops. op = OpWritable \<or> (\<exists>k. op = OpKernel k \<and> benign [k])" by (simp add: benign_def)
  from shutdown_is_graceful [OF c(4-6) this, of null_engine] obtain c2 c3 where
    "shutdown null_engine True c = Inr c2" "foldR (conn_step null_engine) c2 ?ops = Inr c3"
    "cn_wire c3 @ pending c3 = ''ab''" "cn_writeClosed c3 \<longrightarrow> cn_wire c3 = ''ab''" using c(7,8) by auto
  with c(1-3,8) show ?thesis by blast
qed

section \<open>A file on a full socket\<close>

text \<open>
  a file sent while the socket is full is never written. When \<^verbatim>\<open>sendfile\<close> answers \<^verbatim>\<open>EAGAIN\<close> for the first
  piece of a file on an idle connection, \<^verbatim>\<open>sendFileInLoop\<close> returns without asking for writability: the
  file waits in the list, the channel is not watched for writing, and no write event will come.
\<close>

theorem file_on_full_socket_stalls:
  assumes "conn_ok c" "cn_writeBufferList c = []" "cn_sendNum c = 0" "cn_kernel c = []" "0 \<le> fd" "0 < len" "len \<le> vec_max" "offset + len \<le> length f"
  shows "\<exists>c'. sendFile_fd E True fd (Some f) offset len c = Inr c' \<and> \<not> cn_writing c' \<and>
    pending c' = take len (drop offset f)"
proof -
  obtain nd0 where nd0: "new_buffer_node = Inr nd0" "node_ok nd0" "\<not> isFile_node nd0" using new_buffer_node_ok by blast
  have w: "\<not> cn_writing c" "file_buf c = []" using conn_okD [OF assms(1)] assms(2) by (auto simp: fb_ok_def)
  show ?thesis
    using assms w node_buffer [OF nd0(2,3)] conn_okD(1) [OF assms(1)]
    by (auto simp: sendFile_fd_def nd0(1) send_node_def send_or_queue_def push_node_def sendFileInLoop_def sys_sendfile_def
        isFile_node_def pending_def node_bytes_def file_buf_def)
qed

theorem file_on_full_socket_stalls_witness:
  "\<exists>c0 c1 c'. TcpConnection_new None [] 0 = Inr c0 \<and> established_inLoop null_engine c0 = Inr c1 \<and>
     sendFile_fd null_engine True 3 (Some ''abc'') 0 3 c1 = Inr c' \<and> \<not> cn_writing c' \<and> pending c' = ''abc''"
proof -
  have "\<exists>b. MsgBuffer_new kBufferDefaultLength = Inr b" by (simp add: MsgBuffer_new_Inr)
  then obtain c0 c1 where c: "TcpConnection_new None [] 0 = Inr c0" "established_inLoop null_engine c0 = Inr c1"
    "cn_kernel c1 = []" "cn_writeBufferList c1 = []" "cn_sendNum c1 = 0"
    by (auto simp: TcpConnection_new_def established_inLoop_def emit_def Let_def)
  have "conn_ok c1" using established_ok [OF c(1,2)] by (simp add: benign_def send_inv_def)
  from file_on_full_socket_stalls [OF this c(4,5,3), of 3 3 0 "''abc''" null_engine] c show ?thesis by auto
qed

end
