(* ===== verification/HttpWire.thy ===== *)
theory HttpWire
  imports HttpServer SendOrder
begin

text \<open>
  The HTTP server on its connection: the actions of the callback for messages are performed on a TCP connection,
  while the kernel takes bytes as it likes. What goes over the wire is one response after the other, each framed by its length.
\<close>

text \<open>\<open>content\<close> are the bytes of the files, \<open>fd\<close> the descriptor a file is opened with.\<close>

definition files_ok :: "file_system \<Rightarrow> (string \<Rightarrow> byte list) \<Rightarrow> bool" where
  "files_ok fs content \<longleftrightarrow> (\<forall>f n. fs f = Some (RegularFile n) \<longrightarrow> f \<noteq> [] \<and> length (content f) = n)"

fun action_ops :: "(string \<Rightarrow> byte list) \<Rightarrow> (string \<Rightarrow> int) \<Rightarrow> http_action \<Rightarrow> conn_op list" where
  "action_ops content fd (Send c d) = [OpSend True d]"
| "action_ops content fd (SendFile c fl n) = [OpSendFile True (fd fl) (content fl) 0 n]"
| "action_ops content fd (ForceClose c) = []"

fun is_answer :: "conn_op \<Rightarrow> bool" where
  "is_answer (OpSend inLoop d) = True"
| "is_answer (OpSendFile inLoop fd f offset len) = True"
| "is_answer (OpSendStream inLoop chs) = True"
| "is_answer _ = False"

text \<open>
  The messages of one connection, each with the buffer it is parsed from, answered one after the other; \<open>None\<close> when
  an answer closes the connection.
\<close>

fun answers ::
    "(string \<Rightarrow> nat) \<Rightarrow> file_system \<Rightarrow> server \<Rightarrow> keep_alive \<Rightarrow> nat \<Rightarrow> msgbuf list \<Rightarrow> http_action list option result" where
  "answers H fs sv ka c [] = Inr (Some [])"
| "answers H fs sv ka c (b # bs) =
     bindR (recvMsgCallback H fs sv ka c b) (\<lambda>(ka, _, acts).
       if ForceClose c \<in> set acts then Inr None
       else bindR (answers H fs sv ka c bs) (\<lambda>r. Inr (map_option (\<lambda>rest. acts @ rest) r)))"

definition response_head :: "response \<Rightarrow> byte list" where
  "response_head rs =
     rs_version rs @ '' '' @ to_string_int (rs_code rs) @ '' '' @ rs_description rs @ CRLF @
     concat (map (\<lambda>h. fst h @ '': '' @ snd h @ CRLF) (rs_headers rs)) @ CRLF"

definition payload :: "file_system \<Rightarrow> (string \<Rightarrow> byte list) \<Rightarrow> response \<Rightarrow> byte list" where
  "payload fs content rs =
     (case rs_writer rs of None \<Rightarrow> rs_body rs | Some (fl, t) \<Rightarrow> if getFileSize fs fl = 0 then [] else content fl)"

text \<open>The length that the head announces is the length of what follows it.\<close>

definition framed :: "(string \<Rightarrow> nat) \<Rightarrow> file_system \<Rightarrow> (string \<Rightarrow> byte list) \<Rightarrow> response \<Rightarrow> bool" where
  "framed H fs content rs \<longleftrightarrow>
     payload fs content rs = [] \<or> size_max < length (payload fs content rs) \<or>
     (\<exists>v. find_header H CONTENT_LENGTH (rs_headers rs) = Some v \<and> stoul v = Inr (length (payload fs content rs)))"

lemma getFileSize_content:
  assumes "files_ok fs content" "0 < getFileSize fs fl"
  shows "fl \<noteq> []" "length (content fl) = getFileSize fs fl"
  using assms by (auto simp: files_ok_def getFileSize_def split: option.splits file_stat.splits)

definition ops_bytes :: "conn_op list \<Rightarrow> byte list" where
  "ops_bytes ops = concat (map op_bytes ops)"

lemma ops_bytes_simps [simp]:
  "ops_bytes [] = []" "ops_bytes (op # ops) = op_bytes op @ ops_bytes ops" "ops_bytes (xs @ ys) = ops_bytes xs @ ops_bytes ys"
  by (simp_all add: ops_bytes_def)

lemma ops_bytes_answers: "ops_bytes (filter is_answer ops) = ops_bytes ops"
proof (induction ops)
  case (Cons op ops)
  then show ?case by (cases op) simp_all
qed simp

lemma answer_bytes:
  assumes "files_ok fs content"
  shows "ops_bytes (concat (map (action_ops content fd) (Send c (print_response rs) # sent_files fs c rs))) =
    response_head rs @ payload fs content rs"
proof (cases "rs_writer rs")
  case None
  then show ?thesis by (simp add: print_response_def response_head_def payload_def sent_files_def)
next
  case (Some w)
  obtain fl t where w: "w = (fl, t)" by (cases w)
  show ?thesis
  proof (cases "getFileSize fs fl = 0")
    case True
    then show ?thesis using Some w by (simp add: print_response_def response_head_def payload_def sent_files_def content_write_def)
  next
    case False
    then have "fl \<noteq> []" "length (content fl) = getFileSize fs fl" using getFileSize_content [OF assms] by simp_all
    then show ?thesis
      using Some w False by (simp add: print_response_def response_head_def payload_def sent_files_def content_write_def)
  qed
qed

lemma length_payload: "files_ok fs content \<Longrightarrow> length (payload fs content rs) = payload_length fs rs"
  using getFileSize_content [of fs content] by (auto simp: payload_def payload_length_def split: option.splits)

lemma answers_form:
  assumes "files_ok fs content" "answers H fs sv ka c bs = Inr (Some acts)"
  shows "\<exists>rss. length rss = length bs \<and> (\<forall>rs \<in> set rss. framed H fs content rs) \<and>
    ops_bytes (concat (map (action_ops content fd) acts)) = concat (map (\<lambda>rs. response_head rs @ payload fs content rs) rss)"
  using assms(2)
proof (induction bs arbitrary: ka acts)
  case Nil
  then show ?case by simp
next
  case (Cons b bs)
  obtain ka' b' acts1 acts2 where r: "recvMsgCallback H fs sv ka c b = Inr (ka', b', acts1)" "ForceClose c \<notin> set acts1"
    "answers H fs sv ka' c bs = Inr (Some acts2)" "acts = acts1 @ acts2"
    using Cons.prems by (auto simp: bindR_eq_Inr split: if_splits)
  obtain rs closes where a: "acts1 = Send c (print_response rs) # sent_files fs c rs @ closes" "set closes \<subseteq> {ForceClose c}"
    and l: "0 < payload_length fs rs \<and> payload_length fs rs \<le> size_max \<longrightarrow>
       (\<exists>v. find_header H CONTENT_LENGTH (rs_headers rs) = Some v \<and> stoul v = Inr (payload_length fs rs))"
    using answer_form [OF r(1)] by blast
  have "closes = []" using a r(2) by (cases closes) auto
  then have b: "ops_bytes (concat (map (action_ops content fd) acts1)) = response_head rs @ payload fs content rs"
    using answer_bytes [OF assms(1), of fd c rs] a(1) by simp
  have "framed H fs content rs"
    using l length_payload [OF assms(1), of rs] by (auto simp: framed_def not_le)
  moreover obtain rss where "length rss = length bs" "\<forall>rs \<in> set rss. framed H fs content rs"
    "ops_bytes (concat (map (action_ops content fd) acts2)) = concat (map (\<lambda>rs. response_head rs @ payload fs content rs) rss)"
    using Cons.IH [OF r(3)] by blast
  ultimately show ?case using b r(4) by (intro exI [of _ "rs # rss"]) simp
qed


text \<open>
  When an answer closes the connection, the close does not wait for the answer: bytes the socket has not taken yet
  stay in the list of a connection whose channel is disabled.
\<close>

lemma close_drops_answer:
  assumes "cn_status c = Connected" "pending c \<noteq> []"
  shows "cn_status (forceClose True c) = Disconnected" "\<not> cn_writing (forceClose True c)"
    "cn_wire (forceClose True c) = cn_wire c" "pending (forceClose True c) = pending c"
  using assms by (simp_all add: forceClose_def forceClose_inLoop_def handleClose_def io_disableAll_def emit_def Let_def pending_def file_buf_def)

definition example_content :: "string \<Rightarrow> byte list" where
  "example_content f = ''hello''"

lemma example_sends:
  "\<exists>acts res. answers length example_fs example_server Map.empty 7 [example_get_buf] = Inr (Some acts) \<and> length res \<le> vec_max \<and>
     concat (map (action_ops example_content (\<lambda>_. 3)) acts) = [OpSend True res, OpSendFile True 3 ''hello'' 0 5]"
proof -
  obtain ka' b' res where "recvMsgCallback length example_fs example_server Map.empty 7 example_get_buf =
     Inr (ka', b', [Send 7 res, SendFile 7 ''www/index.html'' 5])" "length res \<le> vec_max" using example_answer by blast
  then show ?thesis by (simp add: example_content_def)
qed


end
