(* ===== verification/TcpServer.thy ===== *)
theory TcpServer
  imports TcpConnection "HOL-Library.Multiset"
begin

text \<open>
  The TCP server (\<^verbatim>\<open>cooper/net/TcpServer.*\<close>) with its acceptor (\<^verbatim>\<open>Acceptor.*\<close>) and the choice of I/O loops
  (\<^verbatim>\<open>EventLoopThreadPool.*\<close>). Loops are numbers, 0 is the loop of the server; each has a queue of the functions that the
  server has queued in it. Connections have a number, a loop and a state. What the server needs to know of the state of a
  connection is how often it has called its close callback; a locale states what it relies on, and the
  connections of \<^theory_text>\<open>TcpConnection\<close> without TLS are an instance.
\<close>

section \<open>The acceptor\<close>

text \<open>The answers of \<^verbatim>\<open>accept4\<close>: a descriptor, or \<^verbatim>\<open>errno\<close>. The log has the descriptors that are closed.\<close>

datatype sys_accept = AcceptFd int | AcceptErr int

record acceptor =
  ac_idleFd :: int
  ac_sock :: int
  ac_reading :: bool
  ac_hasNewConnectionCallback :: bool
  ac_hasBeforeListen :: bool
  ac_hasAfterAccept :: bool
  ac_optLog :: "int list"
  ac_closed :: "int list"

abbreviation EMFILE :: int where "EMFILE \<equiv> 24"

definition Acceptor_new :: "int \<Rightarrow> int \<Rightarrow> bool \<Rightarrow> acceptor result" where
  "Acceptor_new idleFd sock bindOk =
     (if sock < 0 then Inl ProcessExit
      else assertR (sock > 0)
        (if \<not> bindOk then Inl ProcessExit
         else Inr \<lparr>ac_idleFd = idleFd, ac_sock = sock, ac_reading = False, ac_hasNewConnectionCallback = False,
                   ac_hasBeforeListen = False, ac_hasAfterAccept = False, ac_optLog = [], ac_closed = []\<rparr>))"

definition Acceptor_delete :: "acceptor \<Rightarrow> acceptor" where
  "Acceptor_delete ac = ac\<lparr>ac_reading := False, ac_closed := ac_closed ac @ [ac_idleFd ac, ac_sock ac]\<rparr>"

definition Acceptor_listen :: "bool \<Rightarrow> acceptor \<Rightarrow> acceptor result" where
  "Acceptor_listen listenOk ac =
     (let ac = (if ac_hasBeforeListen ac then ac\<lparr>ac_optLog := ac_optLog ac @ [ac_sock ac]\<rparr> else ac)
      in assertR (ac_sock ac > 0) (if \<not> listenOk then Inl ProcessExit else Inr (ac\<lparr>ac_reading := True\<rparr>)))"

text \<open>The descriptor of a new connection, if there is one for the callback; \<open>second\<close> and \<open>idle\<close> are the answers of the
  second \<^verbatim>\<open>accept4\<close> and of \<^verbatim>\<open>open\<close> when there are no more descriptors.\<close>

definition fd_of :: "sys_accept \<Rightarrow> int" where
  "fd_of a = (case a of AcceptFd fd \<Rightarrow> fd | AcceptErr e \<Rightarrow> -1)"

definition Acceptor_readCallback :: "sys_accept \<Rightarrow> sys_accept \<Rightarrow> int \<Rightarrow> acceptor \<Rightarrow> int option \<times> acceptor" where
  "Acceptor_readCallback first second idle ac =
     (case first of
        AcceptFd newsock \<Rightarrow>
          (let ac = (if ac_hasAfterAccept ac then ac\<lparr>ac_optLog := ac_optLog ac @ [newsock]\<rparr> else ac)
           in if ac_hasNewConnectionCallback ac then (Some newsock, ac)
              else (None, ac\<lparr>ac_closed := ac_closed ac @ [newsock]\<rparr>))
      | AcceptErr e \<Rightarrow>
          (None, if e = EMFILE
                 then ac\<lparr>ac_closed := ac_closed ac @ [ac_idleFd ac, fd_of second], ac_idleFd := idle\<rparr>
                 else ac))"

section \<open>Pools of loops\<close>

record loop_pool =
  lp_loops :: "nat list"
  lp_loopIndex :: nat

definition EventLoopThreadPool_new :: "nat list \<Rightarrow> loop_pool" where
  "EventLoopThreadPool_new loops = \<lparr>lp_loops = loops, lp_loopIndex = 0\<rparr>"

definition getNextLoop :: "loop_pool \<Rightarrow> nat option \<times> loop_pool" where
  "getNextLoop p =
     (if length (lp_loops p) > 0
      then (Some (lp_loops p ! (lp_loopIndex p mod length (lp_loops p))), p\<lparr>lp_loopIndex := szadd (lp_loopIndex p) 1\<rparr>)
      else (None, p))"

definition getLoop :: "nat \<Rightarrow> loop_pool \<Rightarrow> nat option" where
  "getLoop i p = (if i < length (lp_loops p) then Some (lp_loops p ! i) else None)"

definition getLoops :: "loop_pool \<Rightarrow> nat list" where
  "getLoops p = lp_loops p"

section \<open>The server\<close>

datatype server_task = HandleClose nat | ConnectDestroyed nat

record 'c tcp_server =
  ts_acceptor :: "acceptor option"
  ts_connSet :: "nat list"
  ts_idleTimeout :: nat
  ts_wheels :: "nat list"
  ts_ioLoops :: "nat list"
  ts_nextLoopIdx :: nat
  ts_numIoLoops :: nat
  ts_started :: bool
  ts_policy :: "tls_policy option"
  ts_context :: "ssl_call list option"
  ts_conns :: "nat \<rightharpoonup> nat \<times> 'c"
  ts_tasks :: "nat \<Rightarrow> server_task list"
  ts_next :: nat
  ts_destroyed :: "(nat \<times> 'c) list"

definition TcpServer_new :: "acceptor \<Rightarrow> 'c tcp_server" where
  "TcpServer_new ac =
     \<lparr>ts_acceptor = Some (ac\<lparr>ac_hasNewConnectionCallback := True\<rparr>), ts_connSet = [], ts_idleTimeout = 0, ts_wheels = [],
      ts_ioLoops = [0], ts_nextLoopIdx = 0, ts_numIoLoops = 1, ts_started = False, ts_policy = None, ts_context = None,
      ts_conns = Map.empty, ts_tasks = (\<lambda>_. []), ts_next = 0, ts_destroyed = []\<rparr>"

definition setIoLoopNum :: "loop_pool \<Rightarrow> 'c tcp_server \<Rightarrow> 'c tcp_server result" where
  "setIoLoopNum pool s =
     assertR (\<not> ts_started s) (Inr (s\<lparr>ts_ioLoops := getLoops pool, ts_numIoLoops := length (getLoops pool)\<rparr>))"

definition setIoLoopThreadPool :: "loop_pool \<Rightarrow> 'c tcp_server \<Rightarrow> 'c tcp_server result" where
  "setIoLoopThreadPool pool s =
     assertR (length (lp_loops pool) > 0)
       (assertR (\<not> ts_started s) (Inr (s\<lparr>ts_ioLoops := getLoops pool, ts_numIoLoops := length (getLoops pool)\<rparr>)))"

definition setIoLoops :: "nat list \<Rightarrow> 'c tcp_server \<Rightarrow> 'c tcp_server result" where
  "setIoLoops loops s =
     assertR (loops \<noteq> []) (assertR (\<not> ts_started s) (Inr (s\<lparr>ts_ioLoops := loops, ts_numIoLoops := length loops\<rparr>)))"

definition kickoffIdleConnections :: "nat \<Rightarrow> 'c tcp_server \<Rightarrow> 'c tcp_server result" where
  "kickoffIdleConnections timeout s = assertR (\<not> ts_started s) (Inr (s\<lparr>ts_idleTimeout := timeout\<rparr>))"

definition server_enableSSL_policy :: "(ssl_call \<Rightarrow> bool) \<Rightarrow> tls_policy \<Rightarrow> 'c tcp_server \<Rightarrow> string + 'c tcp_server" where
  "server_enableSSL_policy ans policy s =
     (case newSSLContext ans policy True of
        Inl e \<Rightarrow> Inl e
      | Inr ctx \<Rightarrow> Inr (s\<lparr>ts_policy := Some policy, ts_context := Some ctx\<rparr>))"

definition server_enableSSL ::
    "(ssl_call \<Rightarrow> bool) \<Rightarrow> string \<Rightarrow> string \<Rightarrow> bool \<Rightarrow> (string \<times> string) list \<Rightarrow> string \<Rightarrow> 'c tcp_server \<Rightarrow> string + 'c tcp_server" where
  "server_enableSSL ans certPath keyPath useOldTLS sslConfCmds caPath s =
     server_enableSSL_policy ans
       (setValidate (if caPath = [] then False else True) (setCaPath caPath (setConfCmds sslConfCmds
         (setUseOldTLS useOldTLS (defaultServerPolicy certPath keyPath))))) s"

text \<open>\<^verbatim>\<open>start\<close> in the loop of the server; a wheel is made for every I/O loop.\<close>

definition server_start :: "bool \<Rightarrow> 'c tcp_server \<Rightarrow> 'c tcp_server result" where
  "server_start listenOk s =
     assertR (\<not> ts_started s)
       (let s = s\<lparr>ts_started := True, ts_wheels := (if ts_idleTimeout s > 0 then remdups (ts_ioLoops s) else ts_wheels s)\<rparr>
        in case ts_acceptor s of
             None \<Rightarrow> Inl NullCall
           | Some ac \<Rightarrow> bindR (Acceptor_listen listenOk ac) (\<lambda>ac. Inr (s\<lparr>ts_acceptor := Some ac\<rparr>)))"

text \<open>The next I/O loop, in turn.\<close>

definition pick_loop :: "'c tcp_server \<Rightarrow> (nat \<times> 'c tcp_server) result" where
  "pick_loop s =
     (if ts_nextLoopIdx s < length (ts_ioLoops s)
      then (let n = Suc (ts_nextLoopIdx s)
            in Inr (ts_ioLoops s ! ts_nextLoopIdx s, s\<lparr>ts_nextLoopIdx := (if n \<ge> ts_numIoLoops s then 0 else n)\<rparr>))
      else Inl OutOfBounds)"

definition queue_in :: "nat \<Rightarrow> server_task \<Rightarrow> 'c tcp_server \<Rightarrow> 'c tcp_server" where
  "queue_in l t s = s\<lparr>ts_tasks := (ts_tasks s)(l := ts_tasks s l @ [t])\<rparr>"

definition handleCloseInLoop :: "nat \<Rightarrow> 'c tcp_server \<Rightarrow> 'c tcp_server result" where
  "handleCloseInLoop i s =
     (let n = count_list (ts_connSet s) i; s = s\<lparr>ts_connSet := filter (\<lambda>j. j \<noteq> i) (ts_connSet s)\<rparr>
      in assertR (n = 1)
           (case ts_conns s i of
              None \<Rightarrow> Inl NullCall
            | Some (connLoop, c) \<Rightarrow> Inr (queue_in connLoop (ConnectDestroyed i) s)))"

text \<open>Called in the loop of the connection.\<close>

definition connectionClosed :: "nat \<Rightarrow> 'c tcp_server \<Rightarrow> 'c tcp_server result" where
  "connectionClosed i s =
     (case ts_conns s i of
        None \<Rightarrow> Inl NullCall
      | Some (connLoop, c) \<Rightarrow> if connLoop = 0 then handleCloseInLoop i s else Inr (queue_in 0 (HandleClose i) s))"

text \<open>
  An operation has taken connection \<open>i\<close> to the state \<open>c'\<close>: the close callback is run as often as it was called.
  \<open>closes\<close> counts the calls so far.
\<close>

definition conn_moves :: "('c \<Rightarrow> nat) \<Rightarrow> nat \<Rightarrow> 'c \<Rightarrow> 'c tcp_server \<Rightarrow> 'c tcp_server result" where
  "conn_moves closes i c' s =
     (case ts_conns s i of
        None \<Rightarrow> Inl NullCall
      | Some (l, c) \<Rightarrow>
          foldR (\<lambda>s _. connectionClosed i s) (s\<lparr>ts_conns := (ts_conns s)(i \<mapsto> (l, c'))\<rparr>) [closes c ..< closes c'])"

text \<open>The next function that the server has queued in loop \<open>l\<close>. \<open>destroy\<close> is what \<^verbatim>\<open>connectDestroyed\<close> does to the connection; the
  last reference to the connection goes with it, \<open>ts_destroyed\<close> records its final state.\<close>

definition run_server_task :: "('c \<Rightarrow> 'c) \<Rightarrow> nat \<Rightarrow> 'c tcp_server \<Rightarrow> 'c tcp_server result" where
  "run_server_task destroy l s =
     (case ts_tasks s l of
        [] \<Rightarrow> Inr s
      | t # ts \<Rightarrow>
          (let s = s\<lparr>ts_tasks := (ts_tasks s)(l := ts)\<rparr> in
           case t of
             HandleClose i \<Rightarrow> handleCloseInLoop i s
           | ConnectDestroyed i \<Rightarrow>
               (case ts_conns s i of
                  None \<Rightarrow> Inl NullCall
                | Some (connLoop, c) \<Rightarrow>
                    Inr (s\<lparr>ts_conns := (ts_conns s)(i := None), ts_destroyed := ts_destroyed s @ [(i, destroy c)]\<rparr>))))"

text \<open>\<^verbatim>\<open>stop\<close>, what it does in the loop of the server; \<open>close\<close> closes a connection of the same loop or of another one.\<close>

definition server_stop :: "('c \<Rightarrow> nat) \<Rightarrow> (bool \<Rightarrow> 'c \<Rightarrow> 'c) \<Rightarrow> 'c tcp_server \<Rightarrow> 'c tcp_server result" where
  "server_stop closes close s =
     foldR (\<lambda>s i. case ts_conns s i of
                    None \<Rightarrow> Inl NullCall
                  | Some (l, c) \<Rightarrow> conn_moves closes i (close (l = 0) c) s)
       (s\<lparr>ts_acceptor := None\<rparr>) (ts_connSet s)"

text \<open>
  The end of \<^verbatim>\<open>stop\<close>, in the thread that called it: the pool of loops goes (\<open>lastOwner\<close>: this was its last owner, so that its loops
  end), then each wheel is destroyed in its loop, of which it has only a pointer.
\<close>

definition server_stop_end :: "bool \<Rightarrow> 'c tcp_server \<Rightarrow> 'c tcp_server result" where
  "server_stop_end lastOwner s =
     foldR (\<lambda>s l. if lastOwner \<and> l \<noteq> 0 then Inl OutOfBounds else Inr (s\<lparr>ts_wheels := filter (\<lambda>k. k \<noteq> l) (ts_wheels s)\<rparr>)) s (ts_wheels s)"

text \<open>A new connection of \<open>TcpConnection\<close>, and in general one in a given state.\<close>

definition add_connection :: "('c \<Rightarrow> nat) \<Rightarrow> nat \<Rightarrow> 'c \<Rightarrow> 'c \<Rightarrow> 'c tcp_server \<Rightarrow> 'c tcp_server result" where
  "add_connection closes l c c' s =
     conn_moves closes (ts_next s) c'
       (s\<lparr>ts_connSet := ts_connSet s @ [ts_next s], ts_conns := (ts_conns s)(ts_next s \<mapsto> (l, c)), ts_next := Suc (ts_next s)\<rparr>)"

definition conn_closes :: "'e conn \<Rightarrow> nat" where
  "conn_closes c = count_list (cn_events c) CloseCb"

definition server_newConnection ::
    "'e ssl_engine \<Rightarrow> 'e \<Rightarrow> sys_write list \<Rightarrow> int \<Rightarrow> 'e conn tcp_server \<Rightarrow> 'e conn tcp_server result" where
  "server_newConnection E ssl answers clock s =
     bindR (pick_loop s) (\<lambda>(ioLoop, s).
     bindR (case ts_policy s of
              None \<Rightarrow> TcpConnection_new None answers clock
            | Some policy \<Rightarrow>
                assertR (ts_context s \<noteq> None)
                  (bindR (OpenSSLProvider_new policy True ssl) (\<lambda>t. TcpConnection_new (Some t) answers clock))) (\<lambda>c.
     bindR (if ts_idleTimeout s > 0
            then assertR (ioLoop \<in> set (ts_wheels s)) (enableKickingOff (ts_idleTimeout s) c) else Inr c) (\<lambda>c.
     let c = c\<lparr>cn_writeCompleteCallback := True\<rparr> in
     bindR (connectEstablished E (ioLoop = 0) c) (\<lambda>c'. add_connection conn_closes ioLoop c c' s))))"

section \<open>What the server relies on\<close>

text \<open>
  Connections keep to the protocol when they call their close callback at most once. The bookkeeping of the server about a
  connection: whether it is in the set, how often its closing is queued in the loop of the server, and how often its end
  is queued in each loop.
\<close>

definition marks :: "'c tcp_server \<Rightarrow> nat \<Rightarrow> bool \<times> nat \<times> (nat \<Rightarrow> nat)" where
  "marks s i = (i \<in> set (ts_connSet s), count_list (ts_tasks s 0) (HandleClose i), \<lambda>l. count_list (ts_tasks s l) (ConnectDestroyed i))"

abbreviation "is_open \<equiv> (True, 0, \<lambda>_. 0)"
abbreviation "is_closing \<equiv> (True, 1, \<lambda>_. 0)"
abbreviation "is_closed l \<equiv> (False, 0, (\<lambda>_. 0)(l := 1))"
abbreviation "is_gone \<equiv> (False, 0, \<lambda>_. 0)"

lemma distinct_count_list: "distinct xs \<Longrightarrow> count_list xs x = (if x \<in> set xs then 1 else 0)"
  by (induction xs) auto

lemma marks_queue:
  "marks (queue_in l (HandleClose i) s) j = (let (m, h, d) = marks s j in (m, if l = 0 \<and> i = j then Suc h else h, d))"
  "marks (queue_in l (ConnectDestroyed i) s) j = (let (m, h, d) = marks s j in (m, h, if i = j then d(l := Suc (d l)) else d))"
  by (auto simp: marks_def queue_in_def fun_eq_iff)

lemma marks_frame [simp]:
  "marks (s\<lparr>ts_conns := cs\<rparr>) = marks s" "marks (s\<lparr>ts_next := n\<rparr>) = marks s" "marks (s\<lparr>ts_acceptor := ac\<rparr>) = marks s"
  "marks (s\<lparr>ts_nextLoopIdx := n\<rparr>) = marks s" "marks (s\<lparr>ts_destroyed := ds\<rparr>) = marks s" "ts_conns (queue_in l t s) = ts_conns s" "ts_next (queue_in l t s) = ts_next s"
  "ts_connSet (queue_in l t s) = ts_connSet s" "ts_destroyed (queue_in l t s) = ts_destroyed s"
  by (auto simp: marks_def queue_in_def fun_eq_iff)

locale close_protocol =
  fixes closes :: "'c \<Rightarrow> nat" and ok :: "'c \<Rightarrow> bool" and step :: "'c \<Rightarrow> 'c \<Rightarrow> bool" and destroy :: "'c \<Rightarrow> 'c"
  assumes step_ok: "ok c \<Longrightarrow> step c c' \<Longrightarrow> ok c'"
    and once: "ok c \<Longrightarrow> closes c \<le> 1"
    and grows: "ok c \<Longrightarrow> step c c' \<Longrightarrow> closes c \<le> closes c'"
    and destroy_closes: "closes (destroy c) = closes c"
begin

definition conn_marks :: "(nat \<times> 'c) option \<Rightarrow> bool \<times> nat \<times> (nat \<Rightarrow> nat) \<Rightarrow> bool" where
  "conn_marks x m \<longleftrightarrow>
     (case x of
        None \<Rightarrow> m = is_gone
      | Some (l, c) \<Rightarrow> ok c \<and> (if closes c = 0 then m = is_open else m = is_closing \<or> m = is_closed l))"

text \<open>A destroyed connection is not destroyed again, and was closed before.\<close>

definition destroyed_ok :: "'c tcp_server \<Rightarrow> bool" where
  "destroyed_ok s \<longleftrightarrow> distinct (map fst (ts_destroyed s)) \<and>
     (\<forall>x \<in> set (ts_destroyed s). fst x < ts_next s \<and> ts_conns s (fst x) = None \<and> (\<exists>c. ok c \<and> closes c = 1 \<and> snd x = destroy c))"

lemma destroyed_cong:
  "destroyed_ok s \<Longrightarrow> ts_destroyed s' = ts_destroyed s \<Longrightarrow> ts_next s \<le> ts_next s' \<Longrightarrow>
   (\<And>i. i < ts_next s \<Longrightarrow> ts_conns s i = None \<Longrightarrow> ts_conns s' i = None) \<Longrightarrow> destroyed_ok s'"
  by (auto simp: destroyed_ok_def intro: less_le_trans)

lemma destroyed_frame [simp]:
  "destroyed_ok (s\<lparr>ts_nextLoopIdx := n\<rparr>) = destroyed_ok s" "destroyed_ok (s\<lparr>ts_acceptor := ac\<rparr>) = destroyed_ok s"
  by (simp_all add: destroyed_ok_def)

definition server_inv :: "'c tcp_server \<Rightarrow> bool" where
  "server_inv s \<longleftrightarrow> distinct (ts_connSet s) \<and> (\<forall>i. conn_marks (ts_conns s i) (marks s i)) \<and>
     (\<forall>i. ts_conns s i \<noteq> None \<longrightarrow> i < ts_next s) \<and> (\<forall>l i. l \<noteq> 0 \<longrightarrow> HandleClose i \<notin> set (ts_tasks s l)) \<and> destroyed_ok s"

text \<open>Closing is handled for a connection that is in the set and has its closing no longer queued.\<close>

lemma handleClose_ok:
  assumes "distinct (ts_connSet s)" "\<And>j. j \<noteq> i \<Longrightarrow> conn_marks (ts_conns s j) (marks s j)" "marks s i = is_open"
    "ts_conns s i = Some (l, c)" "ok c" "closes c \<noteq> 0" "\<forall>i. ts_conns s i \<noteq> None \<longrightarrow> i < ts_next s"
    "\<forall>l i. l \<noteq> 0 \<longrightarrow> HandleClose i \<notin> set (ts_tasks s l)" "destroyed_ok s"
  shows "\<exists>s'. handleCloseInLoop i s = Inr s' \<and> server_inv s' \<and> ts_conns s' = ts_conns s \<and> ts_next s' = ts_next s \<and>
    ts_connSet s' = filter (\<lambda>j. j \<noteq> i) (ts_connSet s)"
proof -
  let ?s = "s\<lparr>ts_connSet := filter (\<lambda>j. j \<noteq> i) (ts_connSet s)\<rparr>"
  let ?s' = "queue_in l (ConnectDestroyed i) ?s"
  have "i \<in> set (ts_connSet s)" using assms(3) by (simp add: marks_def)
  then have "count_list (ts_connSet s) i = 1" using assms(1) by (simp add: distinct_count_list)
  then have h: "handleCloseInLoop i s = Inr ?s'" using assms(4) by (simp add: handleCloseInLoop_def)
  have "marks ?s' i = is_closed l" "\<And>j. j \<noteq> i \<Longrightarrow> marks ?s' j = marks s j"
    using assms(3) by (simp_all add: marks_queue) (auto simp: marks_def fun_eq_iff)
  then have "conn_marks (ts_conns ?s' j) (marks ?s' j)" for j
    using assms(2,4-6) by (cases "j = i") (auto simp: conn_marks_def)
  moreover have "destroyed_ok ?s'" by (rule destroyed_cong [OF assms(9)]) (simp_all add: queue_in_def)
  ultimately have "server_inv ?s'" using assms(1,7,8) by (auto simp: server_inv_def queue_in_def)
  with h show ?thesis by (intro exI [of _ ?s']) (simp add: queue_in_def)
qed

lemma conn_moves_ok:
  assumes "server_inv s" "ts_conns s i = Some (l, c)" "ok c'" "closes c \<le> closes c'"
  shows "\<exists>s'. conn_moves closes i c' s = Inr s' \<and> server_inv s' \<and> ts_conns s' = (ts_conns s)(i \<mapsto> (l, c')) \<and> ts_next s' = ts_next s \<and>
    set (ts_connSet s) - {i} \<subseteq> set (ts_connSet s') \<and> set (ts_connSet s') \<subseteq> set (ts_connSet s)"
proof -
  let ?s = "s\<lparr>ts_conns := (ts_conns s)(i \<mapsto> (l, c'))\<rparr>"
  have inv: "distinct (ts_connSet s)" "\<And>j. conn_marks (ts_conns s j) (marks s j)" "\<forall>i. ts_conns s i \<noteq> None \<longrightarrow> i < ts_next s"
    "\<forall>l i. l \<noteq> 0 \<longrightarrow> HandleClose i \<notin> set (ts_tasks s l)" "destroyed_ok s"
    using assms(1) by (simp_all add: server_inv_def)
  have dest: "destroyed_ok s'" if "ts_destroyed s' = ts_destroyed s" "ts_next s' = ts_next s" "ts_conns s' = ts_conns ?s" for s'
    by (rule destroyed_cong [OF inv(5)]) (use that assms(2) in auto)
  have c: "ok c" "if closes c = 0 then marks s i = is_open else marks s i = is_closing \<or> marks s i = is_closed l"
    using inv(2) [of i] assms(2) by (auto simp: conn_marks_def split: if_splits)
  have next_ok: "\<forall>i. ts_conns ?s i \<noteq> None \<longrightarrow> i < ts_next ?s" using inv(3) assms(2) by auto
  have others: "conn_marks (ts_conns ?s j) (marks ?s j)" if "j \<noteq> i" for j using inv(2) [of j] that by simp
  show ?thesis
  proof (cases "closes c' = closes c")
    case True
    then have "conn_marks (ts_conns ?s i) (marks ?s i)" using c(2) assms(3) by (auto simp: conn_marks_def)
    with others have "conn_marks (ts_conns ?s j) (marks ?s j)" for j by (cases "j = i") auto
    then have "server_inv ?s" using inv next_ok dest [of ?s] by (simp add: server_inv_def)
    then show ?thesis using True assms(2) by (intro exI [of _ ?s]) (simp add: conn_moves_def)
  next
    case False
    with assms(4) once [OF assms(3)] have n: "closes c = 0" "closes c' = 1" by auto
    then have m: "marks s i = is_open" using c(2) by simp
    have eq: "conn_moves closes i c' s = connectionClosed i ?s" using n assms(2) by (simp add: conn_moves_def)
    show ?thesis
    proof (cases "l = 0")
      case True
      have "\<exists>s'. handleCloseInLoop i ?s = Inr s' \<and> server_inv s' \<and> ts_conns s' = ts_conns ?s \<and> ts_next s' = ts_next ?s \<and>
          ts_connSet s' = filter (\<lambda>j. j \<noteq> i) (ts_connSet ?s)"
        by (rule handleClose_ok [of ?s i l c']) (use inv others m n next_ok assms(3) dest [of ?s] in \<open>simp_all\<close>)
      then show ?thesis using eq True by (auto simp: connectionClosed_def)
    next
      case False
      let ?t = "queue_in 0 (HandleClose i) ?s"
      have "marks ?t i = is_closing" "\<And>j. j \<noteq> i \<Longrightarrow> marks ?t j = marks s j"
        using m by (simp_all add: marks_queue)
      then have "conn_marks (ts_conns ?t j) (marks ?t j)" for j
        using others [of j] n(2) assms(3) by (cases "j = i") (auto simp: conn_marks_def)
      then have "server_inv ?t" using inv(1,4) next_ok dest [of ?t] by (auto simp: server_inv_def queue_in_def)
      then show ?thesis using eq False by (intro exI [of _ ?t]) (simp add: connectionClosed_def)
    qed
  qed
qed

lemma task_ok:
  assumes "server_inv s"
  shows "\<exists>s'. run_server_task destroy l s = Inr s' \<and> server_inv s'"
proof (cases "ts_tasks s l")
  case Nil
  then show ?thesis using assms by (simp add: run_server_task_def)
next
  case (Cons t ts)
  have inv: "distinct (ts_connSet s)" "\<And>j. conn_marks (ts_conns s j) (marks s j)" "\<forall>i. ts_conns s i \<noteq> None \<longrightarrow> i < ts_next s"
    "\<forall>l i. l \<noteq> 0 \<longrightarrow> HandleClose i \<notin> set (ts_tasks s l)" "destroyed_ok s"
    using assms by (simp_all add: server_inv_def)
  let ?s = "s\<lparr>ts_tasks := (ts_tasks s)(l := ts)\<rparr>"
  have handle: "\<forall>l i. l \<noteq> 0 \<longrightarrow> HandleClose i \<notin> set (ts_tasks ?s l)"
    using inv(4) Cons by (auto split: if_splits) (metis list.set_intros(2))
  show ?thesis
  proof (cases t)
    case (HandleClose i)
    then have "l = 0" using inv(4) Cons by (metis list.set_intros(1))
    then have m: "fst (snd (marks s i)) = Suc (count_list ts (HandleClose i))" using Cons HandleClose by (simp add: marks_def)
    then obtain l' c where c: "ts_conns s i = Some (l', c)" "ok c" "closes c \<noteq> 0" "marks s i = is_closing"
      using inv(2) [of i] by (auto simp: conn_marks_def split: option.splits if_splits)
    have "count_list ts (ConnectDestroyed i) = 0"
      using c(4) Cons HandleClose \<open>l = 0\<close> by (auto simp: marks_def fun_eq_iff dest: spec [of _ 0])
    then have "marks ?s i = is_open" "\<And>j. j \<noteq> i \<Longrightarrow> marks ?s j = marks s j"
      using c(4) Cons HandleClose \<open>l = 0\<close> by (auto simp: marks_def fun_eq_iff)
    then have "\<exists>s'. handleCloseInLoop i ?s = Inr s' \<and> server_inv s' \<and> ts_conns s' = ts_conns ?s \<and> ts_next s' = ts_next ?s \<and>
        ts_connSet s' = filter (\<lambda>j. j \<noteq> i) (ts_connSet ?s)"
      by (intro handleClose_ok [of ?s i l' c]) (use inv c handle destroyed_cong [OF inv(5), of ?s] in \<open>simp_all\<close>)
    then show ?thesis using Cons HandleClose by (auto simp: run_server_task_def)
  next
    case (ConnectDestroyed i)
    then have m: "snd (snd (marks s i)) l = Suc (count_list ts (ConnectDestroyed i))" using Cons by (simp add: marks_def)
    then obtain l' c where c: "ts_conns s i = Some (l', c)" "marks s i = is_closed l'" "ok c" "closes c \<noteq> 0"
      using inv(2) [of i] by (auto simp: conn_marks_def split: option.splits if_splits)
    with m have l: "l' = l" by (auto split: if_splits)
    let ?t = "?s\<lparr>ts_conns := (ts_conns ?s)(i := None), ts_destroyed := ts_destroyed ?s @ [(i, destroy c)]\<rparr>"
    have "closes c = 1" using c(4) once [OF c(3)] by linarith
    then have "destroyed_ok ?t" using inv(5) inv(3) c(1,3) by (force simp: destroyed_ok_def)
    moreover
    have mk: "marks ?t i = is_gone" "\<And>j. j \<noteq> i \<Longrightarrow> marks ?t j = marks s j"
      using c(2) Cons ConnectDestroyed l by (auto simp: marks_def fun_eq_iff split: if_splits)
    have "conn_marks (ts_conns ?t j) (marks ?t j)" for j
      using inv(2) [of j] mk by (cases "j = i") (auto simp: conn_marks_def)
    ultimately have "server_inv ?t" using inv(1,3) handle by (auto simp: server_inv_def)
    then show ?thesis using Cons ConnectDestroyed c by (auto simp: run_server_task_def)
  qed
qed

lemma stop_ok:
  assumes "server_inv s" "\<And>b c. ok c \<Longrightarrow> ok (close b c) \<and> closes c \<le> closes (close b c)"
  shows "\<exists>s'. server_stop closes close s = Inr s' \<and> server_inv s'"
proof -
  let ?f = "\<lambda>s i. case ts_conns s i of None \<Rightarrow> Inl NullCall | Some (l, c) \<Rightarrow> conn_moves closes i (close (l = 0) c) s"
  have "\<exists>s'. foldR ?f s is = Inr s' \<and> server_inv s'" if "server_inv s" "\<forall>i \<in> set is. ts_conns s i \<noteq> None" for "is" s
    using that
  proof (induction "is" arbitrary: s)
    case (Cons i "is")
    then obtain l c where c: "ts_conns s i = Some (l, c)" by auto
    with Cons.prems(1) have "ok c" by (auto simp: server_inv_def conn_marks_def dest: spec [of _ i])
    from conn_moves_ok [OF Cons.prems(1) c] assms(2) [OF this]
    obtain s1 where "conn_moves closes i (close (l = 0) c) s = Inr s1" "server_inv s1"
      "ts_conns s1 = (ts_conns s)(i \<mapsto> (l, close (l = 0) c))" by blast
    with Cons.IH [of s1] Cons.prems(2) c show ?case by auto
  qed simp
  moreover have "server_inv (s\<lparr>ts_acceptor := None\<rparr>)" using assms(1) by (simp add: server_inv_def destroyed_ok_def)
  moreover have "ts_conns s i \<noteq> None" if "i \<in> set (ts_connSet s)" for i
  proof
    assume "ts_conns s i = None"
    moreover have "conn_marks (ts_conns s i) (marks s i)" using assms(1) by (simp add: server_inv_def)
    ultimately show False using that by (simp add: conn_marks_def marks_def)
  qed
  ultimately show ?thesis by (simp add: server_stop_def)
qed

lemma add_ok:
  assumes "server_inv s" "ok c" "closes c = 0" "ok c'"
  shows "\<exists>s'. add_connection closes l c c' s = Inr s' \<and> server_inv s'"
proof -
  let ?i = "ts_next s"
  let ?s = "s\<lparr>ts_connSet := ts_connSet s @ [?i], ts_conns := (ts_conns s)(?i \<mapsto> (l, c)), ts_next := Suc ?i\<rparr>"
  have inv: "distinct (ts_connSet s)" "\<And>j. conn_marks (ts_conns s j) (marks s j)" "\<forall>i. ts_conns s i \<noteq> None \<longrightarrow> i < ts_next s"
    "\<forall>l i. l \<noteq> 0 \<longrightarrow> HandleClose i \<notin> set (ts_tasks s l)" "destroyed_ok s"
    using assms(1) by (simp_all add: server_inv_def)
  have gone: "ts_conns s ?i = None" "marks s ?i = is_gone"
    using inv(3) inv(2) [of ?i] by (auto simp: conn_marks_def split: option.splits)
  then have "marks ?s ?i = is_open" "\<And>j. j \<noteq> ?i \<Longrightarrow> marks ?s j = marks s j" by (auto simp: marks_def fun_eq_iff)
  then have "conn_marks (ts_conns ?s j) (marks ?s j)" for j
    using inv(2) [of j] assms(2,3) by (cases "j = ?i") (auto simp: conn_marks_def)
  moreover have "distinct (ts_connSet ?s)" using inv(1) gone(2) by (simp add: marks_def)
  moreover have "destroyed_ok ?s" by (rule destroyed_cong [OF inv(5)]) auto
  ultimately have "server_inv ?s" using inv(3,4) by (auto simp: server_inv_def less_Suc_eq)
  from conn_moves_ok [OF this, of ?i l c c'] assms(3,4) show ?thesis by (auto simp: add_connection_def)
qed

lemma pick_ok: "server_inv s \<Longrightarrow> pick_loop s = Inr (l, s') \<Longrightarrow> server_inv s'"
  by (auto simp: pick_loop_def server_inv_def Let_def split: if_splits)

lemma destroyed_closed:
  assumes "server_inv s" "(i, d) \<in> set (ts_destroyed s)"
  obtains c where "ok c" "closes c = 1" "d = destroy c" "closes d = 1" "ts_conns s i = None" "i \<notin> set (ts_connSet s)"
proof -
  from assms obtain c where c: "ok c" "closes c = 1" "d = destroy c" "ts_conns s i = None"
    by (force simp: server_inv_def destroyed_ok_def)
  moreover have "conn_marks (ts_conns s i) (marks s i)" using assms(1) by (simp add: server_inv_def)
  with c(4) have "i \<notin> set (ts_connSet s)" by (simp add: conn_marks_def marks_def)
  ultimately show thesis using that destroy_closes by metis
qed

end

section \<open>Connections without TLS keep to the protocol\<close>

text \<open>
  The steps of a connection on which the application sends messages: its interface from any thread, queued work, the
  events of its channel (reading is delivered only while it is enabled, a hang-up only while the channel is
  registered), and its idle timeout.
\<close>

inductive plain_step :: "'e ssl_engine \<Rightarrow> 'e conn \<Rightarrow> 'e conn \<Rightarrow> bool" for E :: "'e ssl_engine" where
  sends: "send_data E inLoop d c = Inr c' \<Longrightarrow> plain_step E c c'"
| shuts: "shutdown E inLoop c = Inr c' \<Longrightarrow> plain_step E c c'"
| forces: "plain_step E c (forceClose inLoop c)"
| runs: "run_next E c = Inr c' \<Longrightarrow> plain_step E c c'"
| readable: "cn_reading c \<Longrightarrow> readCallback fuel E r c = Inr c' \<Longrightarrow> plain_step E c c'"
| writable: "writeCallback E c = Inr c' \<Longrightarrow> plain_step E c c'"
| hang_up: "cn_reading c \<or> cn_writing c \<Longrightarrow> plain_step E c (handleClose c)"
| error: "plain_step E c (handleError err c)"
| idle: "plain_step E c (kickoff_expired c)"
| keeps: "plain_step E c (keepAlive c)"
| environment: "plain_step E c (c\<lparr>cn_kernel := ks, cn_clock := t\<rparr>)"

definition plain_ok :: "'e conn \<Rightarrow> bool" where
  "plain_ok c \<longleftrightarrow> cn_tls c = None \<and> cn_closeCallback c \<and> (\<forall>nd \<in> set (cn_writeBufferList c). \<not> isFile_node nd) \<and>
     (\<forall>nd. TaskNode nd \<notin> set (cn_queue c)) \<and> conn_closes c \<le> 1 \<and> (conn_closes c = 1 \<longleftrightarrow> cn_status c = Disconnected) \<and>
     (cn_status c = Disconnected \<longrightarrow> \<not> cn_reading c \<and> \<not> cn_writing c)"

text \<open>A step that leaves the closing alone: not into the closed status, no call of the close callback.\<close>

definition goes_on :: "'e conn \<Rightarrow> 'e conn \<Rightarrow> bool" where
  "goes_on c c' \<longleftrightarrow> plain_ok c \<longrightarrow> plain_ok c' \<and> conn_closes c \<le> conn_closes c'"

lemma goes_on_refl [simp]: "goes_on c c"
  by (simp add: goes_on_def)

lemma goes_on_trans: "goes_on c c' \<Longrightarrow> goes_on c' c'' \<Longrightarrow> goes_on c c''"
  by (auto simp: goes_on_def)

lemma closes_emit [simp]: "conn_closes (emit e c) = (if e = CloseCb then Suc (conn_closes c) else conn_closes c)"
  by (simp add: conn_closes_def emit_def)

lemma emit_sel [simp]:
  "cn_tls (emit e c) = cn_tls c" "cn_closeCallback (emit e c) = cn_closeCallback c" "cn_status (emit e c) = cn_status c"
  "cn_writeBufferList (emit e c) = cn_writeBufferList c" "cn_queue (emit e c) = cn_queue c" "cn_reading (emit e c) = cn_reading c"
  "cn_writing (emit e c) = cn_writing c" "cn_connectionCallback (emit e c) = cn_connectionCallback c"
  by (simp_all add: emit_def)

lemma closes_frame [simp]:
  "conn_closes (c\<lparr>cn_status := v0\<rparr>) = conn_closes c"
  "conn_closes (c\<lparr>cn_reading := v1\<rparr>) = conn_closes c"
  "conn_closes (c\<lparr>cn_writing := v2\<rparr>) = conn_closes c"
  "conn_closes (c\<lparr>cn_readBuffer := v3\<rparr>) = conn_closes c"
  "conn_closes (c\<lparr>cn_writeBufferList := v4\<rparr>) = conn_closes c"
  "conn_closes (c\<lparr>cn_fileBuffer := v5\<rparr>) = conn_closes c"
  "conn_closes (c\<lparr>cn_sendNum := v6\<rparr>) = conn_closes c"
  "conn_closes (c\<lparr>cn_queue := v7\<rparr>) = conn_closes c"
  "conn_closes (c\<lparr>cn_bytesSent := v8\<rparr>) = conn_closes c"
  "conn_closes (c\<lparr>cn_bytesReceived := v9\<rparr>) = conn_closes c"
  "conn_closes (c\<lparr>cn_closeOnEmpty := v10\<rparr>) = conn_closes c"
  "conn_closes (c\<lparr>cn_writeClosed := v11\<rparr>) = conn_closes c"
  "conn_closes (c\<lparr>cn_writeCompleteCallback := v12\<rparr>) = conn_closes c"
  "conn_closes (c\<lparr>cn_idleTimeout := v13\<rparr>) = conn_closes c"
  "conn_closes (c\<lparr>cn_lastTimingWheelUpdate := v14\<rparr>) = conn_closes c"
  "conn_closes (c\<lparr>cn_kickoffEntry := v15\<rparr>) = conn_closes c"
  "conn_closes (c\<lparr>cn_timingWheel := v16\<rparr>) = conn_closes c"
  "conn_closes (c\<lparr>cn_clock := v17\<rparr>) = conn_closes c"
  "conn_closes (c\<lparr>cn_kernel := v18\<rparr>) = conn_closes c"
  "conn_closes (c\<lparr>cn_errno := v19\<rparr>) = conn_closes c"
  "conn_closes (c\<lparr>cn_wire := v20\<rparr>) = conn_closes c"
  by (simp_all add: conn_closes_def)

lemma goes_on_frame:
  assumes "cn_tls c' = cn_tls c" "cn_closeCallback c' = cn_closeCallback c" "cn_status c' = cn_status c" "conn_closes c' = conn_closes c"
    "plain_ok c \<Longrightarrow> \<forall>nd \<in> set (cn_writeBufferList c'). \<not> isFile_node nd" "plain_ok c \<Longrightarrow> \<forall>nd. TaskNode nd \<notin> set (cn_queue c')"
    "cn_status c = Disconnected \<Longrightarrow> plain_ok c \<Longrightarrow> \<not> cn_reading c' \<and> \<not> cn_writing c'"
  shows "goes_on c c'"
  using assms by (auto simp: goes_on_def plain_ok_def)

lemma goes_on_extendLife: "goes_on c (extendLife c)"
  by (rule goes_on_frame) (auto simp: extendLife_def Let_def plain_ok_def)

lemma goes_on_close: "cn_status c \<noteq> Disconnected \<Longrightarrow> goes_on c (handleClose c)"
  by (auto simp: goes_on_def plain_ok_def handleClose_def io_disableAll_def Let_def)

lemma goes_on_status: "cn_status c \<noteq> Disconnected \<Longrightarrow> st \<noteq> Disconnected \<Longrightarrow> goes_on c (c\<lparr>cn_status := st\<rparr>)"
  by (auto simp: goes_on_def plain_ok_def)

lemma goes_on_forceClose: "goes_on c (forceClose_inLoop c)"
  by (auto simp: forceClose_inLoop_def intro: goes_on_trans [OF goes_on_status goes_on_close])

lemma writeRaw_keeps:
  assumes "writeRaw d c = (n, c')"
  shows "cn_tls c' = cn_tls c" "cn_closeCallback c' = cn_closeCallback c" "cn_status c' = cn_status c" "conn_closes c' = conn_closes c"
    "cn_writeBufferList c' = cn_writeBufferList c" "cn_queue c' = cn_queue c" "cn_reading c' = cn_reading c" "cn_writing c' = cn_writing c"
    "cn_closeOnEmpty c' = cn_closeOnEmpty c"
  using assms by (auto simp: writeRaw_def k_write_def Let_def split: list.splits sys_write.splits if_splits)

lemma goes_on_writeRaw: "writeRaw d c = (n, c') \<Longrightarrow> goes_on c c'"
  using writeRaw_keeps [of d c n c'] by (auto simp: goes_on_def plain_ok_def)

lemma goes_on_high_water: "goes_on c (high_water c)"
  by (auto simp: high_water_def goes_on_def plain_ok_def Let_def split: option.splits)

lemma isFile_msgBuffer [simp]: "isFile_node (nd\<lparr>nd_msgBuffer := b\<rparr>) = isFile_node nd"
  by (simp add: isFile_node_def)

lemma goes_on_queue_rest:
  assumes "queue_rest d c = Inr c'" "cn_status c \<noteq> Disconnected"
  shows "goes_on c c'"
proof -
  obtain nds0 nds where n: "(if cn_writeBufferList c = [] \<or> isFile_node (last (cn_writeBufferList c))
      then bindR new_buffer_node (\<lambda>nd. Inr (cn_writeBufferList c @ [nd])) else Inr (cn_writeBufferList c)) = Inr nds0"
    "append_last d nds0 = Inr nds" "c' = high_water (ensure_writing (c\<lparr>cn_writeBufferList := nds\<rparr>))"
    using assms(1) by (auto simp: queue_rest_def bindR_eq_Inr)
  have 0: "\<forall>nd \<in> set nds0. \<not> isFile_node nd" "nds0 \<noteq> []" if "plain_ok c"
    using that n(1) by (auto simp: plain_ok_def new_buffer_node_def bindR_eq_Inr isFile_node_def split: if_splits)
  have "\<forall>nd \<in> set nds. \<not> isFile_node nd" if p: "plain_ok c"
  proof -
    have "\<not> isFile_node (last nds0)" using 0 [OF p] by simp
    then show ?thesis using n(2) 0 [OF p] in_set_butlastD [of _ nds0] by (auto simp: append_last_def bindR_eq_Inr)
  qed
  then have "goes_on c (ensure_writing (c\<lparr>cn_writeBufferList := nds\<rparr>))"
    using assms(2) by (intro goes_on_frame) (auto simp: ensure_writing_def io_enableWriting_def plain_ok_def)
  then show ?thesis unfolding n(3) by (rule goes_on_trans [OF _ goes_on_high_water])
qed

lemma goes_on_sendInLoop:
  assumes "sendInLoop E d c = Inr c'" "plain_ok c"
  shows "goes_on c c'"
proof (cases "cn_status c = Connected")
  case False
  then show ?thesis using assms(1) by (simp add: sendInLoop_def)
next
  case True
  let ?c = "extendLife c"
  have tls: "cn_tls ?c = None" using assms(2) goes_on_extendLife [of c] by (auto simp: goes_on_def plain_ok_def)
  obtain n c1 where 1: "(if \<not> cn_writing ?c \<and> cn_writeBufferList ?c = [] then writeRaw d ?c else (0, ?c)) = (n, c1)"
    by (metis surj_pair)
  have "c' = c1 \<or> (\<exists>rest. cn_status c1 = Connected \<and> queue_rest rest c1 = Inr c')"
    using assms(1) True tls 1 by (auto simp: sendInLoop_def writeInLoop_def Let_def split: if_splits)
  moreover have "goes_on c c1"
    using 1 goes_on_writeRaw [of d ?c] by (auto intro: goes_on_trans [OF goes_on_extendLife] split: if_splits)
  ultimately show ?thesis using goes_on_queue_rest goes_on_trans by (metis conn_status.distinct(3))
qed

lemma goes_on_shutdown: "shutdown_inLoop E c = Inr c' \<Longrightarrow> plain_ok c \<Longrightarrow> goes_on c c'"
  by (rule goes_on_trans [of c "c\<lparr>cn_status := cn_status c'\<rparr>"])
    (auto simp: shutdown_inLoop_def closeWrite_def goes_on_def plain_ok_def Let_def split: if_splits)

lemma goes_on_established: "established_inLoop E c = Inr c' \<Longrightarrow> plain_ok c \<Longrightarrow> goes_on c c'"
  by (auto simp: established_inLoop_def assertR_eq_Inr goes_on_def plain_ok_def Let_def split: if_splits)

lemma goes_on_run_next:
  assumes "run_next E c = Inr c'" "plain_ok c"
  shows "goes_on c c'"
proof (cases "cn_queue c")
  case Nil
  then show ?thesis using assms(1) by (simp add: run_next_def)
next
  case (Cons t ts)
  let ?c = "c\<lparr>cn_queue := ts\<rparr>"
  have p: "goes_on c ?c" "plain_ok ?c" using assms(2) Cons by (auto simp: goes_on_def plain_ok_def)
  have run: "run_task E t ?c = Inr c'" using assms(1) Cons by (simp add: run_next_def)
  have "goes_on ?c c'"
  proof (cases t)
    case (TaskSend d)
    then obtain c1 where "sendInLoop E d ?c = Inr c1" "c' = c1\<lparr>cn_sendNum := szsub (cn_sendNum c1) 1\<rparr>"
      using run by (auto simp: bindR_eq_Inr)
    then show ?thesis using goes_on_sendInLoop [of E d ?c c1] p(2) by (auto simp: goes_on_def plain_ok_def)
  next
    case (TaskNode nd)
    then show ?thesis using assms(2) Cons by (auto simp: plain_ok_def)
  next
    case TaskShutdown
    then show ?thesis using run goes_on_shutdown p(2) by simp
  next
    case TaskForceClose
    then show ?thesis using run goes_on_forceClose [of ?c] by auto
  next
    case TaskEstablished
    then show ?thesis using run goes_on_established p(2) by simp
  qed
  then show ?thesis by (rule goes_on_trans [OF p(1)])
qed

lemma goes_on_read:
  assumes "readCallback fuel E r c = Inr c'" "cn_reading c" "plain_ok c"
  shows "goes_on c c'"
proof -
  have st: "cn_status c \<noteq> Disconnected" using assms(2,3) by (auto simp: plain_ok_def)
  obtain n err b where r: "readFd (cn_readBuffer c) r = Inr (n, err, b)" using assms(1) by (auto simp: readCallback_def bindR_eq_Inr)
  let ?c = "c\<lparr>cn_readBuffer := b\<rparr>"
  have p: "goes_on c ?c" "cn_status ?c \<noteq> Disconnected" using assms(3) st by (auto simp: goes_on_def plain_ok_def)
  have cl: "goes_on c (handleClose ?c)" by (rule goes_on_trans [OF p(1) goes_on_close [OF p(2)]])
  define c1 where "c1 = extendLife (if n = 0 then handleClose ?c else ?c)"
  have c1: "goes_on c c1" unfolding c1_def using cl p(1) by (auto intro: goes_on_trans [OF _ goes_on_extendLife])
  with assms(3) have "cn_tls c1 = None" by (simp add: goes_on_def plain_ok_def)
  then have "c' = ?c \<or> c' = handleClose ?c \<or> c' = c1 \<or> c' = c1\<lparr>cn_bytesReceived := szadd (cn_bytesReceived c1) (nat n)\<rparr> \<or>
      c' = emit RecvMsgCb (c1\<lparr>cn_bytesReceived := szadd (cn_bytesReceived c1) (nat n)\<rparr>)"
    using assms(1) r by (auto simp: readCallback_def c1_def Let_def split: if_splits)
  moreover have "goes_on c1 (c1\<lparr>cn_bytesReceived := m\<rparr>)" "goes_on c1 (emit RecvMsgCb (c1\<lparr>cn_bytesReceived := m\<rparr>))" for m
    by (auto simp: goes_on_def plain_ok_def)
  ultimately show ?thesis using p(1) cl c1 goes_on_trans [OF c1] by (elim disjE) simp_all
qed

lemma goes_on_pop: "goes_on c (pop_front c)"
  by (rule goes_on_frame) (auto simp: pop_front_def Let_def plain_ok_def split: list.splits)

lemma goes_on_write_step:
  assumes "write_step E c = Inr (go, c')" "plain_ok c"
  shows "goes_on c c'"
proof -
  obtain nd nds where nd: "cn_writeBufferList c = nd # nds" "\<not> isFile_node nd"
    using assms by (auto simp: write_step_def plain_ok_def split: list.splits)
  show ?thesis
  proof (cases "readableBytes (nd_msgBuffer nd) \<le> 0")
    case True
    let ?c = "pop_front c"
    have p: "plain_ok ?c" "goes_on c ?c" using goes_on_pop [of c] assms(2) by (auto simp: goes_on_def)
    then have "c' = all_written ?c"
      using assms(1) nd True by (auto simp: write_step_def Let_def assertR_eq_Inr plain_ok_def split: list.splits)
    moreover have "goes_on ?c (all_written ?c)"
      by (auto simp: all_written_def io_disableWriting_def closeWrite_def goes_on_def plain_ok_def Let_def)
    ultimately show ?thesis using goes_on_trans p(2) by blast
  next
    case False
    have "cn_tls c = None" using assms(2) by (simp add: plain_ok_def)
    with False nd assms(1) obtain d where "bindR (Inr (writeRaw d c)) (\<lambda>(n, c). if n \<ge> 0
        then bindR (retrieve (nd_msgBuffer nd) (nat n)) (\<lambda>b. Inr (True, upd_front (\<lambda>nd. nd\<lparr>nd_msgBuffer := b\<rparr>) c))
        else Inr (cn_errno c = EAGAIN, c)) = Inr (go, c')"
      by (auto simp: write_step_def write_front_def writeInLoop_def bindR_eq_Inr Let_def)
    moreover obtain n c1 where 1: "writeRaw d c = (n, c1)" by fastforce
    ultimately have "c' = c1 \<or> (\<exists>b. c' = upd_front (\<lambda>nd. nd\<lparr>nd_msgBuffer := b\<rparr>) c1)"
      by (auto simp: bindR_eq_Inr split: if_splits)
    moreover have "goes_on c1 (upd_front (\<lambda>nd. nd\<lparr>nd_msgBuffer := b\<rparr>) c1)" for b
      by (cases "cn_writeBufferList c1"; rule goes_on_frame) (auto simp: upd_front_def plain_ok_def)
    ultimately show ?thesis using goes_on_writeRaw [OF 1] goes_on_trans by metis
  qed
qed

lemma goes_on_write:
  assumes "writeCallback E c = Inr c'" "plain_ok c"
  shows "goes_on c c'"
proof -
  let ?c = "extendLife c"
  have p: "plain_ok ?c" "goes_on c ?c" using goes_on_extendLife [of c] assms(2) by (auto simp: goes_on_def)
  then consider "c' = ?c" | go c1 where "write_step E ?c = Inr (go, c1)" "c' = c1 \<or> shutdown_inLoop E c1 = Inr c'"
    using assms(1) by (auto simp: writeCallback_def shutdown_def plain_ok_def bindR_eq_Inr Let_def split: if_splits)
  then show ?thesis
  proof cases
    case (2 go c1)
    have "goes_on ?c c1" by (rule goes_on_write_step [OF 2(1) p(1)])
    moreover from this have "plain_ok c1" using p(1) by (simp add: goes_on_def)
    ultimately show ?thesis using 2(2) p(2) goes_on_shutdown goes_on_trans by metis
  qed (use p(2) in simp)
qed

lemma goes_on_send_or_queue:
  assumes "send_or_queue inLoop t now c = Inr c'" "\<And>nd. t \<noteq> TaskNode nd" "now c = Inr c' \<Longrightarrow> goes_on c c'"
  shows "goes_on c c'"
  using assms by (auto simp: send_or_queue_def split: if_splits) (auto simp: goes_on_def plain_ok_def)

lemma plain_goes_on: "plain_step E c c' \<Longrightarrow> plain_ok c \<Longrightarrow> goes_on c c'"
proof (induction rule: plain_step.induct)
  case (sends inLoop d c c')
  then show ?case unfolding send_data_def by (auto elim!: goes_on_send_or_queue intro: goes_on_sendInLoop)
next
  case (shuts inLoop c c')
  then show ?case by (auto simp: shutdown_def intro: goes_on_shutdown split: if_splits) (auto simp: goes_on_def plain_ok_def)
next
  case (forces c inLoop)
  then show ?case by (auto simp: forceClose_def intro: goes_on_forceClose) (auto simp: goes_on_def plain_ok_def)
next
  case (hang_up c)
  then show ?case by (intro goes_on_close) (auto simp: plain_ok_def)
next
  case (idle c)
  let ?c = "c\<lparr>cn_kickoffEntry := None\<rparr>"
  have "goes_on c ?c" by (auto simp: goes_on_def plain_ok_def)
  then show ?case using goes_on_trans [OF _ goes_on_forceClose [of ?c]] by (simp add: kickoff_expired_def forceClose_def Let_def)
qed (auto simp: handleError_def keepAlive_def intro: goes_on_run_next goes_on_read goes_on_write, auto simp: goes_on_def plain_ok_def)

lemma closes_destroyed: "conn_closes (connectDestroyed c) = conn_closes c"
  by (simp add: connectDestroyed_def io_disableAll_def Let_def)

interpretation plain: close_protocol conn_closes plain_ok "plain_step E" connectDestroyed
  by unfold_locales (use plain_goes_on [of E] in \<open>auto simp: goes_on_def plain_ok_def closes_destroyed\<close>)

section \<open>Runs of the server\<close>

lemma plain_new:
  assumes "TcpConnection_new None answers clock = Inr c"
  shows "plain_ok c" "conn_closes c = 0"
  using assms by (auto simp: TcpConnection_new_def bindR_eq_Inr plain_ok_def conn_closes_def)

text \<open>The configuration of a running server: there is an I/O loop, and one wheel for each if connections time out.\<close>

definition loops_ok :: "'c tcp_server \<Rightarrow> bool" where
  "loops_ok s \<longleftrightarrow> ts_numIoLoops s = length (ts_ioLoops s) \<and> ts_nextLoopIdx s < length (ts_ioLoops s) \<and>
     (ts_idleTimeout s > 0 \<longrightarrow> set (ts_ioLoops s) \<subseteq> set (ts_wheels s))"

definition config_of :: "'c tcp_server \<Rightarrow> tls_policy option \<times> nat list \<times> nat \<times> nat \<times> nat list \<times> nat" where
  "config_of s = (ts_policy s, ts_ioLoops s, ts_numIoLoops s, ts_idleTimeout s, ts_wheels s, ts_nextLoopIdx s)"

definition config_ok :: "'c tcp_server \<Rightarrow> bool" where
  "config_ok s \<longleftrightarrow> ts_policy s = None \<and> loops_ok s"

lemma config_cong: "config_of s' = config_of s \<Longrightarrow> config_ok s' = config_ok s"
  by (simp add: config_of_def config_ok_def loops_ok_def)

lemma pick_loop_ok:
  assumes "loops_ok s"
  obtains l s1 where "pick_loop s = Inr (l, s1)" "loops_ok s1" "l \<in> set (ts_ioLoops s1)" "ts_policy s1 = ts_policy s"
proof -
  let ?n = "Suc (ts_nextLoopIdx s)"
  have "pick_loop s = Inr (ts_ioLoops s ! ts_nextLoopIdx s, s\<lparr>ts_nextLoopIdx := (if ?n \<ge> ts_numIoLoops s then 0 else ?n)\<rparr>)"
    using assms by (simp add: pick_loop_def loops_ok_def)
  then show thesis by (rule that) (use assms in \<open>auto simp: loops_ok_def\<close>)
qed

text \<open>Accepting a connection succeeds.\<close>

lemma newConnection_ok:
  fixes E :: "'e ssl_engine"
  assumes "plain.server_inv s" "config_ok s"
  shows "\<exists>s'. server_newConnection E ssl answers clock s = Inr s' \<and> plain.server_inv s'"
proof -
  obtain l s1 where p: "pick_loop s = Inr (l, s1)" "loops_ok s1" "l \<in> set (ts_ioLoops s1)" "ts_policy s1 = None"
    using pick_loop_ok [of s] assms(2) by (metis config_ok_def)
  obtain b where b: "MsgBuffer_new kBufferDefaultLength = Inr b" using MsgBuffer_new_Inr [of kBufferDefaultLength] by simp
  then obtain c0 :: "'e conn" where c0: "TcpConnection_new None answers clock = Inr c0" "cn_status c0 = Connecting"
    by (simp add: TcpConnection_new_def)
  obtain c1 where c1: "(if ts_idleTimeout s1 > 0 then assertR (l \<in> set (ts_wheels s1)) (enableKickingOff (ts_idleTimeout s1) c0) else Inr c0) = Inr c1"
    "cn_status c1 = Connecting"
    using p(2,3) c0(2) by (cases "ts_idleTimeout s1 > 0") (auto simp: loops_ok_def enableKickingOff_def assertR_def)
  let ?c = "c1\<lparr>cn_writeCompleteCallback := True\<rparr>"
  have c: "plain_ok ?c" "conn_closes ?c = 0"
    using plain_new [OF c0(1)] c1(1) by (auto simp: enableKickingOff_def assertR_eq_Inr plain_ok_def split: if_splits)
  then have "cn_tls ?c = None" by (simp add: plain_ok_def)
  then have "\<exists>c2. connectEstablished E (l = 0) ?c = Inr c2"
    using c1(2) by (cases "l = 0") (simp_all add: connectEstablished_def established_inLoop_def assertR_def Let_def)
  then obtain c2 where c2: "connectEstablished E (l = 0) ?c = Inr c2" ..
  then have "goes_on ?c c2"
    using goes_on_established [of E ?c c2] by (auto simp: connectEstablished_def split: if_splits) (auto simp: goes_on_def plain_ok_def)
  then have "\<exists>s'. add_connection conn_closes l ?c c2 s1 = Inr s' \<and> plain.server_inv s'"
    using plain.add_ok [OF plain.pick_ok [OF assms(1) p(1)], of ?c c2 l] c by (auto simp: goes_on_def)
  moreover have "server_newConnection E ssl answers clock s = add_connection conn_closes l ?c c2 s1"
    using p(1,4) c0(1) c1(1) c2 by (simp add: server_newConnection_def Let_def)
  ultimately show ?thesis by simp
qed

text \<open>A plain TCP server that was configured with at least one I/O loop and started, and what can happen then: connections, their
  steps, queued functions, and what \<^verbatim>\<open>stop\<close> does in the loop of the server.\<close>

inductive server_run :: "'e ssl_engine \<Rightarrow> 'e conn tcp_server \<Rightarrow> bool" for E :: "'e ssl_engine" where
  started: "loops \<noteq> [] \<Longrightarrow>
    server_start listenOk ((TcpServer_new ac)\<lparr>ts_ioLoops := loops, ts_numIoLoops := length loops, ts_idleTimeout := n\<rparr>) = Inr s \<Longrightarrow>
    server_run E s"
| accepts: "server_run E s \<Longrightarrow> server_newConnection E ssl answers clock s = Inr s' \<Longrightarrow> server_run E s'"
| moves: "server_run E s \<Longrightarrow> ts_conns s i = Some (l, c) \<Longrightarrow> plain_step E c c' \<Longrightarrow> conn_moves conn_closes i c' s = Inr s' \<Longrightarrow>
    server_run E s'"
| task: "server_run E s \<Longrightarrow> run_server_task connectDestroyed l s = Inr s' \<Longrightarrow> server_run E s'"
| stops: "server_run E s \<Longrightarrow> server_stop conn_closes forceClose s = Inr s' \<Longrightarrow> server_run E s'"

text \<open>The configuration of a server does not change while it runs, except for the turn of the loops.\<close>

lemma handleClose_config: "handleCloseInLoop i s = Inr s' \<Longrightarrow> config_of s' = config_of s"
  by (auto simp: handleCloseInLoop_def assertR_eq_Inr queue_in_def Let_def config_of_def split: option.splits)

lemma closed_config: "connectionClosed i s = Inr s' \<Longrightarrow> config_of s' = config_of s"
  by (auto simp: connectionClosed_def queue_in_def config_of_def dest!: handleClose_config split: option.splits if_splits)

lemma moves_config: "conn_moves closes i c' s = Inr s' \<Longrightarrow> config_of s' = config_of s"
  unfolding conn_moves_def
  by (auto split: option.splits elim!: foldR_invariant [where P = "\<lambda>t. config_of t = config_of s"] dest: closed_config)
    (simp_all add: config_of_def)

lemma stop_config:
  assumes "server_stop closes close s = Inr s'"
  shows "config_of s' = config_of s"
proof -
  have "config_of (s\<lparr>ts_acceptor := None\<rparr>) = config_of s" by (simp add: config_of_def)
  with assms show ?thesis
    unfolding server_stop_def
    by (auto elim!: foldR_invariant [where P = "\<lambda>t. config_of t = config_of s"] dest!: moves_config split: option.splits)
qed

lemma new_config:
  assumes "server_newConnection E ssl answers clock s = Inr s'" "config_ok s"
  shows "config_ok s'"
proof -
  from assms(2) obtain l s1 where p: "pick_loop s = Inr (l, s1)" "loops_ok s1" "ts_policy s1 = None"
    using pick_loop_ok [of s] by (metis config_ok_def)
  with assms(1) have "config_of s' = config_of s1"
    by (auto simp: server_newConnection_def bindR_eq_Inr add_connection_def Let_def dest!: moves_config) (simp_all add: config_of_def)
  with p show ?thesis using config_cong [of s' s1] by (simp add: config_ok_def)
qed

lemma task_config: "run_server_task destroy l s = Inr s' \<Longrightarrow> config_of s' = config_of s"
  by (auto simp: run_server_task_def Let_def config_of_def dest!: handleClose_config split: list.splits server_task.splits option.splits)

lemma force_ok: "plain_ok c \<Longrightarrow> plain_ok (forceClose b c) \<and> conn_closes c \<le> conn_closes (forceClose b c)"
  using plain_goes_on [OF plain_step.forces [where E = E and c = c and inLoop = b]] by (simp add: goes_on_def)

lemma run_ok: "server_run E s \<Longrightarrow> plain.server_inv s \<and> config_ok s"
proof (induction rule: server_run.induct)
  case (started loops listenOk ac n s)
  then show ?case
    by (auto simp: server_start_def assertR_eq_Inr bindR_eq_Inr TcpServer_new_def plain.server_inv_def plain.conn_marks_def
        plain.destroyed_ok_def marks_def Let_def fun_eq_iff config_ok_def loops_ok_def)
next
  case (accepts s ssl answers clock s')
  then show ?case using newConnection_ok [of s E ssl answers clock] new_config [of E ssl answers clock s s'] by auto
next
  case (moves s i l c c' s')
  have "conn_closes c \<le> conn_closes c' \<and> plain_ok c'"
    using moves plain_goes_on [of E c c'] by (auto simp: plain.server_inv_def plain.conn_marks_def goes_on_def dest!: spec [of _ i])
  then show ?case using moves plain.conn_moves_ok [of s i l c c'] config_cong [OF moves_config [of conn_closes i c' s s']] by fastforce
next
  case (task s l s')
  then show ?case using plain.task_ok [of s l] config_cong [OF task_config [of connectDestroyed l s s']] by fastforce
next
  case (stops s s')
  then show ?case
    using plain.stop_ok [of s forceClose] force_ok config_cong [OF stop_config [of conn_closes forceClose s s']] by fastforce
qed


text \<open>A server with two I/O loops that has accepted a connection.\<close>

definition example_acceptor :: acceptor where
  "example_acceptor = projr (Acceptor_new 4 5 True)"

lemma example_server_run: "\<exists>s. server_run null_engine s \<and> ts_connSet s = [0]"
proof -
  let ?s0 = "(TcpServer_new example_acceptor :: unit conn tcp_server)\<lparr>ts_ioLoops := [1, 2], ts_numIoLoops := length [1 :: nat, 2], ts_idleTimeout := 0\<rparr>"
  obtain b where b: "MsgBuffer_new kBufferDefaultLength = Inr b"
    using MsgBuffer_new_Inr [of kBufferDefaultLength] by simp
  obtain s1 where s1: "server_start True ?s0 = Inr s1" "ts_ioLoops s1 = [1, 2]" "ts_nextLoopIdx s1 = 0" "ts_policy s1 = None"
      "ts_idleTimeout s1 = 0" "ts_connSet s1 = []" "ts_next s1 = 0" "ts_numIoLoops s1 = 2"
    by (simp add: server_start_def TcpServer_new_def example_acceptor_def Acceptor_new_def Acceptor_listen_def Let_def)
  obtain s2 where "server_newConnection null_engine () [] 0 s1 = Inr s2" "ts_connSet s2 = [0]"
    using s1 b by (simp add: server_newConnection_def pick_loop_def TcpConnection_new_def connectEstablished_def
        add_connection_def conn_moves_def conn_closes_def)
  then show ?thesis using server_run.accepts [OF server_run.started [OF _ s1(1)]] by blast
qed


section \<open>The I/O loops take turns\<close>

fun picks :: "nat \<Rightarrow> 'c tcp_server \<Rightarrow> (nat list \<times> 'c tcp_server) result" where
  "picks 0 s = Inr ([], s)"
| "picks (Suc n) s = bindR (pick_loop s) (\<lambda>(l, s). bindR (picks n s) (\<lambda>(ls, s). Inr (l # ls, s)))"

lemma picks_in_turn:
  assumes "ts_numIoLoops s = length (ts_ioLoops s)" "ts_nextLoopIdx s < length (ts_ioLoops s)"
  shows "\<exists>s'. picks n s = Inr (map (\<lambda>k. ts_ioLoops s ! ((ts_nextLoopIdx s + k) mod length (ts_ioLoops s))) [0..<n], s')"
  using assms
proof (induction n arbitrary: s)
  case (Suc n)
  let ?N = "length (ts_ioLoops s)" and ?i = "ts_nextLoopIdx s"
  let ?s = "s\<lparr>ts_nextLoopIdx := Suc ?i mod ?N\<rparr>"
  have p: "pick_loop s = Inr (ts_ioLoops s ! ?i, ?s)"
    using Suc.prems by (auto simp: pick_loop_def Let_def mod_Suc)
  have "0 < ?N" using Suc.prems(2) by linarith
  then have "Suc ?i mod ?N < ?N" by (rule mod_less_divisor)
  then obtain s' where "picks n ?s = Inr (map (\<lambda>k. ts_ioLoops s ! ((Suc ?i mod ?N + k) mod ?N)) [0..<n], s')"
    using Suc.IH [of ?s] Suc.prems(1) by auto
  moreover have "map (\<lambda>k. ts_ioLoops s ! ((?i + k) mod ?N)) [0..<Suc n] =
      ts_ioLoops s ! ?i # map (\<lambda>k. ts_ioLoops s ! ((Suc ?i mod ?N + k) mod ?N)) [0..<n]"
    using Suc.prems(2) by (simp add: upt_conv_Cons map_Suc_upt [symmetric] mod_add_left_eq del: upt_Suc)
  ultimately show ?case using p by simp
qed simp

section \<open>Files break the protocol\<close>

text \<open>
  \<^verbatim>\<open>sendFile\<close> does not look at the status: on a connection that the peer has half closed and that has been closed here,
  it writes the file and registers the channel again, whose next hang-up calls the close callback a second time.
\<close>

lemma file_reopens_closed:
  assumes "cn_status c = Disconnected" "cn_tls c = None" "cn_sendNum c = 0" "cn_writeBufferList c = []" "\<not> cn_writing c"
    "cn_kernel c = [WriteOk n]" "0 < n" "0 \<le> fd" "0 < length f" "length f \<le> vec_max" "cn_closeCallback c"
  shows "\<exists>c'. sendFile_fd E True fd (Some f) 0 (length f) c = Inr c' \<and> cn_writing c' \<and>
    conn_closes (handleClose c') = Suc (conn_closes c)"
proof -
  obtain b where "MsgBuffer_new kBufferDefaultLength = Inr b" using MsgBuffer_new_Inr [of kBufferDefaultLength] by simp
  then show ?thesis
    using assms
    by (auto simp: sendFile_fd_def new_buffer_node_def send_node_def send_or_queue_def push_node_def sendFileInLoop_def isFile_node_def
        sys_sendfile_def upd_front_def ensure_writing_def io_enableWriting_def handleClose_def io_disableAll_def Let_def min_def)
qed

section \<open>The end of stop\<close>

lemma drop_wheels:
  "foldR (\<lambda>s l. Inr (s\<lparr>ts_wheels := filter (\<lambda>k. k \<noteq> l) (ts_wheels s)\<rparr>)) s ls =
     Inr (s\<lparr>ts_wheels := filter (\<lambda>k. k \<notin> set ls) (ts_wheels s)\<rparr>)"
  by (induction ls arbitrary: s) (auto intro!: arg_cong [of _ _ "\<lambda>w. s\<lparr>ts_wheels := w\<rparr>" for s] filter_cong)

text \<open>With loops that live on, every wheel is destroyed; with loops that end with the pool, the first wheel of one of them is
  destroyed in a loop that is gone.\<close>

lemma stop_destroys_wheels: "server_stop_end False s = Inr (s\<lparr>ts_wheels := []\<rparr>)"
  by (simp add: server_stop_end_def drop_wheels)

lemma stop_uses_dead_loops:
  assumes "l \<in> set (ts_wheels s)" "l \<noteq> 0"
  shows "server_stop_end True s = Inl OutOfBounds"
proof -
  have "foldR (\<lambda>s k. if True \<and> k \<noteq> 0 then Inl OutOfBounds else Inr (s\<lparr>ts_wheels := filter (\<lambda>j. j \<noteq> k) (ts_wheels s)\<rparr>)) t ls = Inl OutOfBounds"
    if "l \<in> set ls" for t :: "'a tcp_server" and ls
    using that assms(2) by (induction ls arbitrary: t) auto
  then show ?thesis using assms(1) by (simp add: server_stop_end_def)
qed

end
