(* ===== verification/EventLoopThread.thy ===== *)
theory EventLoopThread
  imports Cooper_Prelude
begin

text \<open>
  The thread of an event loop (\<^verbatim>\<open>cooper/net/EventLoopThread.*\<close>). The owner constructs the object, calls \<^verbatim>\<open>run\<close> as
  often as it likes, and destroys it; the thread makes its loop, queues a function in it, hands the
  loop out, waits to be told to run, and loops. Three promises tie them together. Each point at which one of them can be
  overtaken by the other is a program point of its own. Of the loop there are its flags, the
  queued functions and the round of \<^verbatim>\<open>EventLoop::loop\<close>; a wait in the poller ends at the latest after its timeout. In every
  interleaving \<^verbatim>\<open>run\<close> returns only when the loop runs, the order of the destructor to quit is not overwritten by the start of the
  loop, and the owner never waits for more than a few steps of the thread.
\<close>

section \<open>Owner and thread\<close>

text \<open>The owner: in the constructor, between calls, in \<^verbatim>\<open>run\<close> (called by the user, or by the destructor),
  in \<^verbatim>\<open>wait\<close>, in the rest of the destructor. \<open>OJoin own\<close> knows whether the destructor got a pointer to the loop.\<close>

datatype opc = OCtor | OUser | OWait | ORun bool | ORunWait bool | OQuit | OJoin bool | ODone

datatype lpc = LStart | LPointer | LWaitRun | LEnter | LTest | LPoll | LFuncs | LNull | LDone

datatype loop_fun = SetLooped | UserFun bool

record elt =
  et_owner :: opc
  et_thread :: lpc
  et_hasLoop :: bool
  et_promiseForLoopPointer :: bool
  et_promiseForRun :: bool
  et_promiseForLoop :: nat
  et_once :: bool
  et_looping :: bool
  et_quit :: bool
  et_funcs :: "loop_fun list"
  et_ownerLoop :: "nat option"
  et_joined :: bool

text \<open>\<open>et_ownerLoop\<close> is \<^verbatim>\<open>t_loopInThisThread\<close> of the owner; \<open>et_promiseForLoop\<close> counts how often that promise is set.\<close>

definition EventLoopThread_new :: "nat option \<Rightarrow> elt" where
  "EventLoopThread_new own =
     \<lparr>et_owner = OCtor, et_thread = LStart, et_hasLoop = False, et_promiseForLoopPointer = False, et_promiseForRun = False,
      et_promiseForLoop = 0, et_once = False, et_looping = False, et_quit = False, et_funcs = [], et_ownerLoop = own, et_joined = False\<rparr>"

text \<open>A step of the owner; what it does between calls is its choice: \<open>run\<close>, or the destructor.\<close>

definition owner_step :: "bool \<Rightarrow> elt \<Rightarrow> elt option" where
  "owner_step destroy s =
     (case et_owner s of
        OCtor \<Rightarrow> if et_promiseForLoopPointer s then Some (s\<lparr>et_hasLoop := True, et_owner := OUser\<rparr>) else None
      | OUser \<Rightarrow> Some (s\<lparr>et_owner := ORun destroy\<rparr>)
      | OWait \<Rightarrow> if et_thread s = LDone then Some (s\<lparr>et_joined := True, et_owner := OUser\<rparr>) else None
      | ORun d \<Rightarrow>
          if et_once s then Some (s\<lparr>et_owner := (if d then OQuit else OUser)\<rparr>)
          else Some (s\<lparr>et_promiseForRun := True, et_owner := ORunWait d\<rparr>)
      | ORunWait d \<Rightarrow>
          if et_promiseForLoop s > 0 then Some (s\<lparr>et_once := True, et_owner := (if d then OQuit else OUser)\<rparr>) else None
      | OQuit \<Rightarrow>
          if et_hasLoop s then Some (s\<lparr>et_quit := True, et_owner := OJoin True\<rparr>) else Some (s\<lparr>et_owner := OJoin False\<rparr>)
      | OJoin own \<Rightarrow>
          if et_joined s \<or> et_thread s = LDone then Some (s\<lparr>et_owner := ODone, et_ownerLoop := (if own then None else et_ownerLoop s)\<rparr>) else None
      | ODone \<Rightarrow> None)"

text \<open>A call of \<^verbatim>\<open>wait\<close>; a thread that was joined is joined again with an exception, which leaves the object as it is.\<close>

definition wait_call :: "elt \<Rightarrow> elt option" where
  "wait_call s = (if et_owner s = OUser then Some (if et_joined s then s else s\<lparr>et_owner := OWait\<rparr>) else None)"

text \<open>The functions of one round: \<^const>\<open>SetLooped\<close> sets the promise, a function of the user may call \<^verbatim>\<open>quit\<close>.\<close>

fun run_fun :: "elt \<Rightarrow> loop_fun \<Rightarrow> elt" where
  "run_fun s SetLooped = s\<lparr>et_promiseForLoop := Suc (et_promiseForLoop s)\<rparr>"
| "run_fun s (UserFun q) = (if q then s\<lparr>et_quit := True\<rparr> else s)"

definition thread_step :: "elt \<Rightarrow> elt option" where
  "thread_step s =
     (case et_thread s of
        LStart \<Rightarrow> Some (s\<lparr>et_funcs := et_funcs s @ [SetLooped], et_thread := LPointer\<rparr>)
      | LPointer \<Rightarrow> Some (s\<lparr>et_promiseForLoopPointer := True, et_thread := LWaitRun\<rparr>)
      | LWaitRun \<Rightarrow> if et_promiseForRun s then Some (s\<lparr>et_thread := LEnter\<rparr>) else None
      | LEnter \<Rightarrow> Some (s\<lparr>et_looping := True, et_quit := False, et_thread := LTest\<rparr>)
      | LTest \<Rightarrow>
          if et_quit s then Some (s\<lparr>et_looping := False, et_thread := LNull\<rparr>) else Some (s\<lparr>et_thread := LPoll\<rparr>)
      | LPoll \<Rightarrow> Some (s\<lparr>et_thread := LFuncs\<rparr>)
      | LFuncs \<Rightarrow> Some ((foldl run_fun s (et_funcs s))\<lparr>et_funcs := [], et_thread := LTest\<rparr>)
      | LNull \<Rightarrow> Some (s\<lparr>et_hasLoop := False, et_thread := LDone\<rparr>)
      | LDone \<Rightarrow> None)"

text \<open>Whoever has got the pointer of the loop may queue functions in it, also before the loop runs.\<close>

definition queue_fun :: "bool \<Rightarrow> elt \<Rightarrow> elt option" where
  "queue_fun q s = (if et_hasLoop s then Some (s\<lparr>et_funcs := et_funcs s @ [UserFun q]\<rparr>) else None)"

definition quit_call :: "elt \<Rightarrow> elt option" where
  "quit_call s = (if et_hasLoop s then Some (s\<lparr>et_quit := True\<rparr>) else None)"

datatype elt_event = Owner bool | Wait | Thread | Queue bool | Quit

fun elt_step :: "elt_event \<Rightarrow> elt \<Rightarrow> elt option" where
  "elt_step (Owner d) s = owner_step d s"
| "elt_step Wait s = wait_call s"
| "elt_step Thread s = thread_step s"
| "elt_step (Queue q) s = queue_fun q s"
| "elt_step Quit s = quit_call s"

definition looped :: "elt \<Rightarrow> bool" where
  "looped s \<longleftrightarrow> et_promiseForLoop s > 0"

text \<open>The runs of owners that leave the loop alone until it runs: no other thread calls \<^verbatim>\<open>quit\<close> before.\<close>

inductive elt_reach :: "elt \<Rightarrow> bool" where
  start: "elt_reach (EventLoopThread_new own)"
| step: "elt_reach s \<Longrightarrow> elt_step ev s = Some s' \<Longrightarrow> ev = Quit \<longrightarrow> looped s \<Longrightarrow> elt_reach s'"

fun elt_run :: "elt_event list \<Rightarrow> elt \<Rightarrow> elt option" where
  "elt_run [] s = Some s"
| "elt_run (ev # evs) s = Option.bind (elt_step ev s) (elt_run evs)"

fun thread_steps :: "nat \<Rightarrow> elt \<Rightarrow> elt option" where
  "thread_steps 0 s = Some s"
| "thread_steps (Suc k) s = Option.bind (thread_step s) (thread_steps k)"

section \<open>The invariant\<close>

fun thread_ok :: "lpc \<Rightarrow> elt \<Rightarrow> bool" where
  "thread_ok LStart s \<longleftrightarrow>
     \<not> et_promiseForLoopPointer s \<and> et_promiseForLoop s = 0 \<and> count_list (et_funcs s) SetLooped = 0 \<and> \<not> et_quit s"
| "thread_ok LPointer s \<longleftrightarrow>
     \<not> et_promiseForLoopPointer s \<and> et_promiseForLoop s = 0 \<and> count_list (et_funcs s) SetLooped = 1 \<and> \<not> et_quit s"
| "thread_ok LWaitRun s \<longleftrightarrow>
     et_promiseForLoopPointer s \<and> et_promiseForLoop s = 0 \<and> count_list (et_funcs s) SetLooped = 1 \<and> \<not> et_quit s"
| "thread_ok LEnter s \<longleftrightarrow>
     et_promiseForLoopPointer s \<and> et_promiseForRun s \<and> et_promiseForLoop s = 0 \<and> count_list (et_funcs s) SetLooped = 1 \<and> \<not> et_quit s"
| "thread_ok LNull s \<longleftrightarrow> et_promiseForLoopPointer s \<and> et_promiseForRun s \<and> et_promiseForLoop s = 1 \<and> count_list (et_funcs s) SetLooped = 0"
| "thread_ok LDone s \<longleftrightarrow> et_promiseForLoopPointer s \<and> et_promiseForRun s \<and> et_promiseForLoop s = 1 \<and> \<not> et_hasLoop s"
| "thread_ok _ s \<longleftrightarrow>
     et_promiseForLoopPointer s \<and> et_promiseForRun s \<and> et_promiseForLoop s + count_list (et_funcs s) SetLooped = 1 \<and>
     (et_quit s \<longrightarrow> looped s)"

fun owner_ok :: "opc \<Rightarrow> elt \<Rightarrow> bool" where
  "owner_ok OCtor s \<longleftrightarrow> \<not> et_hasLoop s \<and> \<not> et_promiseForRun s \<and> \<not> et_once s"
| "owner_ok OUser s \<longleftrightarrow> (et_hasLoop s \<or> et_thread s = LDone) \<and> (et_promiseForRun s \<longleftrightarrow> et_once s) \<and> (et_once s \<longrightarrow> looped s)"
| "owner_ok OWait s \<longleftrightarrow> (et_hasLoop s \<or> et_thread s = LDone) \<and> (et_promiseForRun s \<longleftrightarrow> et_once s) \<and> (et_once s \<longrightarrow> looped s)"
| "owner_ok (ORun d) s \<longleftrightarrow> (et_hasLoop s \<or> et_thread s = LDone) \<and> (et_promiseForRun s \<longleftrightarrow> et_once s) \<and> (et_once s \<longrightarrow> looped s)"
| "owner_ok (ORunWait d) s \<longleftrightarrow> (et_hasLoop s \<or> et_thread s = LDone) \<and> et_promiseForRun s \<and> \<not> et_once s"
| "owner_ok OQuit s \<longleftrightarrow> (et_hasLoop s \<or> et_thread s = LDone) \<and> et_promiseForRun s \<and> et_once s \<and> looped s"
| "owner_ok (OJoin own) s \<longleftrightarrow> et_promiseForRun s \<and> et_once s \<and> looped s \<and> (if own then et_quit s else et_thread s = LDone)"
| "owner_ok ODone s \<longleftrightarrow> et_promiseForRun s \<and> et_once s \<and> looped s \<and> et_thread s = LDone"

definition elt_inv :: "elt \<Rightarrow> bool" where
  "elt_inv s \<longleftrightarrow> thread_ok (et_thread s) s \<and> owner_ok (et_owner s) s \<and> (et_joined s \<longrightarrow> et_thread s = LDone)"

lemma run_funs:
  "et_promiseForLoop (foldl run_fun s fs) = et_promiseForLoop s + count_list fs SetLooped"
  "et_quit (foldl run_fun s fs) \<longleftrightarrow> et_quit s \<or> UserFun True \<in> set fs"
  "et_owner (foldl run_fun s fs) = et_owner s" "et_thread (foldl run_fun s fs) = et_thread s"
  "et_hasLoop (foldl run_fun s fs) = et_hasLoop s" "et_once (foldl run_fun s fs) = et_once s"
  "et_promiseForLoopPointer (foldl run_fun s fs) = et_promiseForLoopPointer s"
  "et_promiseForRun (foldl run_fun s fs) = et_promiseForRun s" "et_ownerLoop (foldl run_fun s fs) = et_ownerLoop s"
  "et_joined (foldl run_fun s fs) = et_joined s"
proof (induction fs arbitrary: s)
  case (Cons f fs)
  { case 1 then show ?case using Cons.IH by (cases f) simp_all }
  { case 2 then show ?case using Cons.IH by (cases f) auto }
  { case 3 then show ?case using Cons.IH by (cases f) simp_all }
  { case 4 then show ?case using Cons.IH by (cases f) simp_all }
  { case 5 then show ?case using Cons.IH by (cases f) simp_all }
  { case 6 then show ?case using Cons.IH by (cases f) simp_all }
  { case 7 then show ?case using Cons.IH by (cases f) simp_all }
  { case 8 then show ?case using Cons.IH by (cases f) simp_all }
  { case 9 then show ?case using Cons.IH by (cases f) simp_all }
  { case 10 then show ?case using Cons.IH by (cases f) simp_all }
qed simp_all

lemma elt_inv_new: "elt_inv (EventLoopThread_new own)"
  by (simp add: elt_inv_def EventLoopThread_new_def)

lemma elt_inv_owner: "elt_inv s \<Longrightarrow> owner_step d s = Some s' \<Longrightarrow> elt_inv s'"
  unfolding elt_inv_def owner_step_def
  by (cases "et_owner s"; cases "et_thread s") (auto simp: looped_def split: if_splits)

lemma elt_inv_thread:
  assumes inv: "elt_inv s" and st: "thread_step s = Some s'"
  shows "elt_inv s'"
proof (cases "et_thread s")
  case LFuncs
  then show ?thesis
    using inv st unfolding elt_inv_def thread_step_def by (cases "et_owner s") (auto simp: looped_def run_funs split: if_splits)
qed (use inv st in \<open>cases "et_owner s"; auto simp: elt_inv_def thread_step_def looped_def split: if_splits\<close>)+

lemma elt_inv_others:
  "elt_inv s \<Longrightarrow> queue_fun q s = Some s' \<Longrightarrow> elt_inv s'"
  "elt_inv s \<Longrightarrow> quit_call s = Some s' \<Longrightarrow> looped s \<Longrightarrow> elt_inv s'"
  "elt_inv s \<Longrightarrow> wait_call s = Some s' \<Longrightarrow> elt_inv s'"
  unfolding elt_inv_def queue_fun_def quit_call_def wait_call_def
  by (cases "et_owner s"; cases "et_thread s"; auto simp: looped_def split: if_splits)+

lemma elt_inv_step: "elt_inv s \<Longrightarrow> elt_step ev s = Some s' \<Longrightarrow> ev = Quit \<longrightarrow> looped s \<Longrightarrow> elt_inv s'"
  by (cases ev) (auto intro: elt_inv_owner elt_inv_thread elt_inv_others)

lemma elt_reach_inv: "elt_reach s \<Longrightarrow> elt_inv s"
  by (induction rule: elt_reach.induct) (auto intro: elt_inv_new elt_inv_step)

section \<open>Nobody waits for ever\<close>

text \<open>How many steps of the thread a waiting owner has to wait for.\<close>

fun distance :: "opc \<Rightarrow> lpc \<Rightarrow> nat" where
  "distance OCtor LStart = 2"
| "distance OCtor l = 1"
| "distance OWait l = (case l of LPoll \<Rightarrow> 4 | LFuncs \<Rightarrow> 3 | LTest \<Rightarrow> 2 | _ \<Rightarrow> 1)"
| "distance (OJoin own) l = (case l of LPoll \<Rightarrow> 4 | LFuncs \<Rightarrow> 3 | LTest \<Rightarrow> 2 | _ \<Rightarrow> 1)"
| "distance ow l =
     (case l of LStart \<Rightarrow> 7 | LPointer \<Rightarrow> 6 | LWaitRun \<Rightarrow> 5 | LEnter \<Rightarrow> 4 | LTest \<Rightarrow> 3 | LPoll \<Rightarrow> 2 | _ \<Rightarrow> 1)"

text \<open>An owner in \<^verbatim>\<open>wait\<close> waits until somebody makes the running loop quit.\<close>

definition released :: "elt \<Rightarrow> bool" where
  "released s \<longleftrightarrow> et_owner s \<noteq> ODone \<and> (et_owner s = OWait \<longrightarrow> et_once s \<and> et_quit s)"

lemma owner_waits:
  assumes inv: "elt_inv s" and w: "owner_step d s = None" "released s"
  obtains s' where "thread_step s = Some s'" "released s'"
    "owner_step d s' \<noteq> None \<or> distance (et_owner s') (et_thread s') < distance (et_owner s) (et_thread s)"
proof -
  have "\<exists>s'. thread_step s = Some s' \<and> released s' \<and>
      (owner_step d s' \<noteq> None \<or> distance (et_owner s') (et_thread s') < distance (et_owner s) (et_thread s))"
  proof (cases "et_thread s")
    case LFuncs
    then show ?thesis
      using inv w by (cases "et_owner s") (auto simp: elt_inv_def owner_step_def thread_step_def looped_def released_def run_funs split: if_splits)
  qed (use inv w in \<open>cases "et_owner s"; auto simp: elt_inv_def owner_step_def thread_step_def looped_def released_def split: if_splits\<close>)+
  then show thesis using that by blast
qed

lemma wait_ends:
  assumes "elt_inv s" "released s"
  shows "\<exists>k s'. k \<le> distance (et_owner s) (et_thread s) \<and> thread_steps k s = Some s' \<and> owner_step d s' \<noteq> None"
  using assms
proof (induction "distance (et_owner s) (et_thread s)" arbitrary: s rule: less_induct)
  case less
  show ?case
  proof (cases "owner_step d s")
    case (Some t)
    then show ?thesis by (intro exI [of _ 0] exI [of _ s]) simp
  next
    case None
    obtain t where t: "thread_step s = Some t" "released t"
      "owner_step d t \<noteq> None \<or> distance (et_owner t) (et_thread t) < distance (et_owner s) (et_thread s)"
      by (rule owner_waits [OF less.prems(1) None less.prems(2)])
    have pos: "distance (et_owner s) (et_thread s) \<ge> 1"
      by (cases "et_owner s"; cases "et_thread s") simp_all
    show ?thesis
    proof (cases "owner_step d t = None")
      case False
      then show ?thesis using t(1) pos by (intro exI [of _ 1] exI [of _ t]) simp
    next
      case True
      with t have d: "distance (et_owner t) (et_thread t) < distance (et_owner s) (et_thread s)" by simp
      obtain k s' where k: "k \<le> distance (et_owner t) (et_thread t)" "thread_steps k t = Some s'" "owner_step d s' \<noteq> None"
        using less.hyps [OF d elt_inv_thread [OF less.prems(1) t(1)]] t(2) by auto
      then show ?thesis using t(1) d by (intro exI [of _ "Suc k"] exI [of _ s']) simp
    qed
  qed
qed

lemma distance_bound: "distance ow l \<le> 7"
  by (cases ow; cases l) simp_all

lemma loop_thread_protocol_facts:
  assumes "elt_reach s"
  shows "et_once s \<Longrightarrow> et_promiseForLoop s = 1"
    and "released s \<Longrightarrow> \<exists>k s'. k \<le> 7 \<and> thread_steps k s = Some s' \<and> owner_step d s' \<noteq> None"
    and "et_owner s = OUser \<Longrightarrow> et_hasLoop s \<or> et_thread s = LDone"
    and "et_owner s = ODone \<Longrightarrow> et_thread s = LDone"
proof -
  note inv = elt_reach_inv [OF assms]
  show "et_promiseForLoop s = 1" if "et_once s"
    using inv that unfolding elt_inv_def by (cases "et_owner s"; cases "et_thread s") (auto simp: looped_def)
  show "\<exists>k s'. k \<le> 7 \<and> thread_steps k s = Some s' \<and> owner_step d s' \<noteq> None" if "released s"
    using wait_ends [OF inv that] distance_bound le_trans by blast
  show "et_hasLoop s \<or> et_thread s = LDone" if "et_owner s = OUser" using inv that by (simp add: elt_inv_def)
  show "et_thread s = LDone" if "et_owner s = ODone" using inv that by (simp add: elt_inv_def)
qed

text \<open>
  C9: Consider the interleavings of the owner with the thread of the loop and with others that queue functions in it, in which
  nobody but the destructor calls \<^verbatim>\<open>quit\<close> before the loop has run its first functions (\<open>looped\<close>; lemma \<open>early_quit_hangs_run\<close>
  shows that an earlier one hangs \<^verbatim>\<open>run\<close>). Then \<^verbatim>\<open>run\<close> has returned only when the loop has run its first functions; an owner
  that waits in the constructor, in \<^verbatim>\<open>run\<close> or in the destructor, or in \<^verbatim>\<open>wait\<close> for a loop that was run and told to quit (not in
  any other \<^verbatim>\<open>wait\<close>: lemmas \<open>wait_before_run_hangs\<close> and \<open>wait_goes_on\<close>), can go on after at most seven steps of the thread, so that
  neither deadlocks and the quit of the destructor is not lost; and when the destructor is done the thread has ended.
\<close>

theorem loop_thread_protocol:
  assumes "elt_reach s"
  shows "(et_once s \<longrightarrow> et_promiseForLoop s = 1) \<and>
    (released s \<longrightarrow> (\<exists>k s'. k \<le> 7 \<and> thread_steps k s = Some s' \<and> owner_step d s' \<noteq> None)) \<and>
    (et_owner s = OUser \<longrightarrow> et_hasLoop s \<or> et_thread s = LDone) \<and>
    (et_owner s = ODone \<longrightarrow> et_thread s = LDone)"
  using loop_thread_protocol_facts [OF assms] by blast


lemma elt_reach_run:
  assumes "elt_run evs s = Some s'" "elt_reach s" "Quit \<notin> set evs"
  shows "elt_reach s'"
  using assms by (induction evs arbitrary: s) (auto intro: elt_reach.step split: bind_splits)

definition example_elt :: "elt_event list \<Rightarrow> elt" where
  "example_elt evs = the (elt_run evs (EventLoopThread_new (Some 0)))"

lemmas elt_eval = example_elt_def EventLoopThread_new_def owner_step_def thread_step_def queue_fun_def quit_call_def wait_call_def

lemma example_elt_reach:
  "elt_run evs (EventLoopThread_new (Some 0)) = Some s \<Longrightarrow> Quit \<notin> set evs \<Longrightarrow> elt_reach (example_elt evs)"
  using elt_reach_run [OF _ elt_reach.start] by (simp add: example_elt_def)

text \<open>
  \<^verbatim>\<open>quit\<close> called by another thread while \<^verbatim>\<open>run\<close> waits, after the loop has cleared its flag and before its first round: the loop ends
  without running the queued functions, and \<^verbatim>\<open>run\<close> waits for ever.
\<close>

lemma early_quit_hangs_run:
  defines "s \<equiv> example_elt [Thread, Thread, Owner False, Owner False, Owner False, Thread, Thread, Quit, Thread, Thread]"
  shows "et_owner s = ORunWait False" "et_thread s = LDone" "owner_step d s = None" "thread_step s = None"
    "queue_fun q s = None"
  by (simp_all add: s_def elt_eval)

text \<open>\<^verbatim>\<open>wait\<close> before \<^verbatim>\<open>run\<close>: the thread waits for the order to run, the owner for the thread.\<close>

lemma wait_before_run_hangs:
  defines "s \<equiv> example_elt [Thread, Thread, Owner False, Wait]"
  shows "et_owner s = OWait" "owner_step d s = None" "thread_step s = None"
  by (simp_all add: s_def elt_eval)

text \<open>While nobody calls \<^verbatim>\<open>quit\<close>, neither from outside nor from a function of the loop, \<^verbatim>\<open>wait\<close> does not return.\<close>

lemma wait_goes_on:
  assumes "elt_run evs s = Some s'" "et_owner s = OWait" "\<not> et_quit s" "UserFun True \<notin> set (et_funcs s)" "et_thread s \<notin> {LNull, LDone}"
    and "Quit \<notin> set evs" "Queue True \<notin> set evs"
  shows "et_owner s' = OWait \<and> et_thread s' \<noteq> LDone"
  using assms
proof (induction evs arbitrary: s)
  case (Cons ev evs)
  then obtain t where t: "elt_step ev s = Some t" "elt_run evs t = Some s'" by (auto split: bind_splits)
  have "et_owner t = OWait \<and> \<not> et_quit t \<and> UserFun True \<notin> set (et_funcs t) \<and> et_thread t \<notin> {LNull, LDone}"
    using t(1) Cons.prems
    by (cases ev) (auto simp: owner_step_def wait_call_def queue_fun_def thread_step_def run_funs split: lpc.splits if_splits)
  with Cons.IH [OF t(2)] Cons.prems show ?case by simp
qed auto

text \<open>
  The destructor holds the last pointer to the loop when it leaves, so that \<^verbatim>\<open>~EventLoop\<close> runs in the thread of the
  owner and clears \<^verbatim>\<open>t_loopInThisThread\<close> there: an owner with a loop of its own is not known to have one any more.
\<close>

lemma destructor_clears_owners_loop:
  assumes "et_owner s = OJoin True" "owner_step d s = Some s'"
  shows "et_ownerLoop s' = None"
  using assms by (auto simp: owner_step_def split: if_splits)

theorem loop_thread_protocol_witness:
  "let s = example_elt [Thread, Thread, Owner False, Owner True, Owner True, Thread] in
   (\<exists>k s'. k \<le> 7 \<and> thread_steps k s = Some s' \<and> owner_step True s' \<noteq> None) \<and>
   et_promiseForLoop (example_elt [Thread, Thread, Owner False, Owner False, Owner False, Thread, Thread, Thread, Thread, Thread, Owner False]) = 1"
proof -
  let ?s = "example_elt [Thread, Thread, Owner False, Owner True, Owner True, Thread]"
  let ?t = "example_elt [Thread, Thread, Owner False, Owner False, Owner False, Thread, Thread, Thread, Thread, Thread, Owner False]"
  have r: "elt_reach ?s" "elt_reach ?t" by (rule example_elt_reach; simp add: elt_eval)+
  have "released ?s" "et_once ?t" by (simp_all add: elt_eval released_def)
  then show ?thesis
    unfolding Let_def using loop_thread_protocol [OF r(1)] loop_thread_protocol [OF r(2)] by blast
qed

end
