(* ===== verification/ServerLife.thy ===== *)
theory ServerLife
  imports HttpServer TcpServer EventLoopThread
begin

text \<open>
  The life of the HTTP server (\<^verbatim>\<open>cooper/net/HttpServer.*\<close>): it owns the thread of its loop and a TCP server. The constructor has
  run the loop; \<^verbatim>\<open>start\<close> configures the TCP server, starts it in the loop, and waits for the thread. After it every connection finds
  an I/O loop and the wheel that ends it when it is idle; but \<^verbatim>\<open>stop\<close> does not make the loop quit, so that \<^verbatim>\<open>start\<close> does not return.
\<close>

record 'c http_server =
  hs_config :: server
  hs_thread :: elt
  hs_server :: "'c tcp_server"

text \<open>\<open>t\<close> is the thread when \<^verbatim>\<open>run\<close> has returned.\<close>

definition HttpServer_ctor :: "elt \<Rightarrow> acceptor \<Rightarrow> 'c http_server" where
  "HttpServer_ctor t ac = \<lparr>hs_config = HttpServer_new, hs_thread = t, hs_server = TcpServer_new ac\<rparr>"

text \<open>\<^verbatim>\<open>start\<close> in the thread of the caller; the function it queues is run by the loop.\<close>

definition http_start :: "loop_pool \<Rightarrow> 'c http_server \<Rightarrow> 'c http_server result" where
  "http_start pool s =
     bindR (setIoLoopNum pool (hs_server s)) (\<lambda>t.
     bindR (kickoffIdleConnections (sv_keepAliveTimeout (hs_config s)) t) (\<lambda>t.
       case Option.bind (queue_fun False (hs_thread s)) wait_call of
         None \<Rightarrow> Inl NullCall
       | Some e \<Rightarrow> Inr (s\<lparr>hs_server := t, hs_thread := e\<rparr>)))"

definition http_start_in_loop :: "bool \<Rightarrow> 'c http_server \<Rightarrow> 'c http_server result" where
  "http_start_in_loop listenOk s = bindR (server_start listenOk (hs_server s)) (\<lambda>t. Inr (s\<lparr>hs_server := t\<rparr>))"

definition http_stop :: "('c \<Rightarrow> nat) \<Rightarrow> (bool \<Rightarrow> 'c \<Rightarrow> 'c) \<Rightarrow> bool \<Rightarrow> 'c http_server \<Rightarrow> 'c http_server result" where
  "http_stop closes close lastOwner s =
     bindR (server_stop closes close (hs_server s)) (\<lambda>t. bindR (server_stop_end lastOwner t) (\<lambda>t. Inr (s\<lparr>hs_server := t\<rparr>)))"

text \<open>What a started server offers to a connection: a loop, and a wheel in it when idle connections are closed.\<close>

definition ready :: "'c tcp_server \<Rightarrow> bool" where
  "ready s \<longleftrightarrow> (\<exists>l s'. pick_loop s = Inr (l, s') \<and> (ts_idleTimeout s > 0 \<longrightarrow> l \<in> set (ts_wheels s)))"

lemma ready_iff:
  "ready s \<longleftrightarrow> ts_nextLoopIdx s < length (ts_ioLoops s) \<and>
     (ts_idleTimeout s > 0 \<longrightarrow> ts_ioLoops s ! ts_nextLoopIdx s \<in> set (ts_wheels s))"
  by (auto simp: ready_def pick_loop_def Let_def)

text \<open>
  A new HTTP server started with at least one loop is ready for its first connection and for every one after: the choice of a
  loop keeps it ready.
\<close>

lemma http_start_ready:
  assumes "http_start pool (HttpServer_ctor t ac) = Inr s" "http_start_in_loop listenOk s = Inr s'" "lp_loops pool \<noteq> []"
  shows "ready (hs_server s')" "ts_started (hs_server s')" "ts_idleTimeout (hs_server s') = 60"
    "ts_numIoLoops (hs_server s') = length (ts_ioLoops (hs_server s'))" "ts_ioLoops (hs_server s') = lp_loops pool"
    "set (ts_wheels (hs_server s')) = set (lp_loops pool)"
  using assms
  by (auto simp: http_start_def http_start_in_loop_def HttpServer_ctor_def HttpServer_new_def TcpServer_new_def setIoLoopNum_def
      kickoffIdleConnections_def server_start_def ready_iff getLoops_def bindR_eq_Inr assertR_eq_Inr Let_def split: option.splits)

lemma ready_stays:
  assumes "pick_loop s = Inr (l, s')" "ts_numIoLoops s = length (ts_ioLoops s)" "set (ts_ioLoops s) \<subseteq> set (ts_wheels s)"
  shows "ready s'"
proof -
  have "ts_ioLoops s ! j \<in> set (ts_wheels s)" if "j < length (ts_ioLoops s)" for j
    using that assms(3) nth_mem by blast
  moreover have "0 < length (ts_ioLoops s)" using assms(1) by (cases "ts_ioLoops s") (auto simp: pick_loop_def)
  ultimately show ?thesis using assms(1,2) by (auto simp: ready_iff pick_loop_def Let_def split: if_splits)
qed

text \<open>\<^verbatim>\<open>stop\<close> does not touch the loop: as long as nobody else makes it quit, \<^verbatim>\<open>start\<close> stays in \<^verbatim>\<open>wait\<close>.\<close>

lemma start_does_not_return:
  assumes "http_start pool s0 = Inr s1" "et_owner (hs_thread s0) = OUser" "\<not> et_joined (hs_thread s0)"
    and "\<not> et_quit (hs_thread s0)" "UserFun True \<notin> set (et_funcs (hs_thread s0))" "et_thread (hs_thread s0) \<notin> {LNull, LDone}"
    and "http_stop closes close lastOwner s1 = Inr s2" "elt_run evs (hs_thread s2) = Some e" "Quit \<notin> set evs" "Queue True \<notin> set evs"
  shows "et_owner e = OWait"
proof -
  have "hs_thread s2 = hs_thread s1" using assms(7) by (auto simp: http_stop_def bindR_eq_Inr)
  moreover have "et_owner (hs_thread s1) = OWait" "\<not> et_quit (hs_thread s1)" "UserFun True \<notin> set (et_funcs (hs_thread s1))"
    "et_thread (hs_thread s1) \<notin> {LNull, LDone}"
    using assms(1-6) by (auto simp: http_start_def bindR_eq_Inr queue_fun_def wait_call_def split: option.splits if_splits bind_splits)
  ultimately show ?thesis using wait_goes_on assms(8-10) by metis
qed

end
