(* ===== verification/TlsConnection.thy ===== *)
theory TlsConnection
  imports TcpConnection
begin

text \<open>
  The TLS layer of a connection at work: which events the operations of the provider can cause, that
  a connection is announced to the application only after the certificate of the peer was accepted, that no
  encrypted byte is lost or reordered on its way to the socket, and a case in which the last of them
  are not written.
\<close>

section \<open>Frames\<close>

lemma with_tls_simps [simp]:
  "cn_events (with_tls f c) = cn_events c" "cn_status (with_tls f c) = cn_status c" "cn_wire (with_tls f c) = cn_wire c"
  "cn_writing (with_tls f c) = cn_writing c" "cn_writeBufferList (with_tls f c) = cn_writeBufferList c"
  "cn_tls (with_tls f c) = map_option f (cn_tls c)" "cn_kernel (with_tls f c) = cn_kernel c"
  "cn_connectionCallback (with_tls f c) = cn_connectionCallback c" "cn_closeCallback (with_tls f c) = cn_closeCallback c"
  "cn_upgradeCallback (with_tls f c) = cn_upgradeCallback c" "cn_errno (with_tls f c) = cn_errno c"
  by (simp_all add: with_tls_def)

text \<open>A write changes the kernel, \<^verbatim>\<open>errno\<close>, the wire and the count of bytes, nothing else.\<close>

lemma writeRaw_frame:
  assumes "writeRaw d c = (n, c')"
  obtains ks e m where "c' = c\<lparr>cn_kernel := ks, cn_errno := e, cn_wire := cn_wire c @ take (nat n) d, cn_bytesSent := m\<rparr>"
    "n = -1 \<or> 0 \<le> n" "nat n \<le> length d"
proof (cases "cn_kernel c")
  case Nil
  with assms show thesis
    by (intro that [of "cn_bytesSent c" EAGAIN "[]"]) (auto simp: writeRaw_def k_write_def)
next
  case (Cons k ks)
  show thesis
  proof (cases k)
    case (WriteErr e)
    with Cons assms show thesis
      by (intro that [of "cn_bytesSent c" e ks]) (auto simp: writeRaw_def k_write_def)
  next
    case (WriteOk w)
    with Cons assms show thesis
      by (intro that [of "cn_bytesSent c'" "cn_errno c" ks])
        (auto simp: writeRaw_def k_write_def Let_def split: if_splits)
  qed
qed

lemma writeRaw_events:
  assumes "writeRaw d c = (n, c')"
  shows "cn_events c' = cn_events c \<and> cn_status c' = cn_status c \<and> cn_tls c' = cn_tls c \<and>
    cn_writing c' = cn_writing c \<and> cn_writeBufferList c' = cn_writeBufferList c"
proof -
  obtain ks e m where "c' = c\<lparr>cn_kernel := ks, cn_errno := e, cn_wire := cn_wire c @ take (nat n) d, cn_bytesSent := m\<rparr>"
    by (rule writeRaw_frame [OF assms])
  then show ?thesis by simp
qed

lemma appendToWriteBuffer_events:
  "appendToWriteBuffer d c = Inr c' \<Longrightarrow> cn_events c' = cn_events c \<and> cn_status c' = cn_status c \<and>
     cn_writing c' = cn_writing c \<and> cn_writeBufferList c' = cn_writeBufferList c \<and> cn_wire c' = cn_wire c"
  by (auto simp: appendToWriteBuffer_def bindR_eq_Inr split: option.splits)

lemma sendTLSData_events:
  assumes "sendTLSData E c = Inr (n, c')"
  shows "cn_events c' = cn_events c" "cn_status c' = cn_status c" "cn_writing c' = cn_writing c"
    "cn_writeBufferList c' = cn_writeBufferList c"
proof -
  have "cn_events c' = cn_events c \<and> cn_status c' = cn_status c \<and> cn_writing c' = cn_writing c \<and>
      cn_writeBufferList c' = cn_writeBufferList c"
    using assms
    by (auto simp: sendTLSData_def bindR_eq_Inr Let_def
        dest!: writeRaw_events appendToWriteBuffer_events split: option.splits if_splits prod.splits)
  then show "cn_events c' = cn_events c" "cn_status c' = cn_status c" "cn_writing c' = cn_writing c"
    "cn_writeBufferList c' = cn_writeBufferList c" by simp_all
qed

text \<open>Events that only tell of an end.\<close>

fun end_event :: "conn_event \<Rightarrow> bool" where
  "end_event (ConnectionCb st) \<longleftrightarrow> st = Disconnected"
| "end_event CloseCb \<longleftrightarrow> True"
| "end_event (SslErrorCb err) \<longleftrightarrow> True"
| "end_event (StoreSession h) \<longleftrightarrow> True"
| "end_event _ \<longleftrightarrow> False"

definition ends :: "'e conn \<Rightarrow> 'e conn \<Rightarrow> bool" where
  "ends c c' \<longleftrightarrow> (\<exists>evs. cn_events c' = cn_events c @ evs \<and> (\<forall>ev \<in> set evs. end_event ev))"

lemma ends_refl: "cn_events c' = cn_events c \<Longrightarrow> ends c c'"
  by (simp add: ends_def)

lemma ends_trans: "ends c c1 \<Longrightarrow> ends c1 c2 \<Longrightarrow> ends c c2"
  by (fastforce simp: ends_def)

lemma onSslError_ends: "ends c (onSslError err c)"
  by (auto simp: ends_def onSslError_def forceClose_def forceClose_inLoop_def handleClose_def io_disableAll_def emit_def Let_def)

lemma handleSSLError_ends:
  assumes "handleSSLError E err c = Inr c'"
  shows "ends c c'"
proof -
  obtain n c1 where s: "sendTLSData E c = Inr (n, c1)" using assms by (auto simp: handleSSLError_def bindR_eq_Inr)
  obtain t where t: "cn_tls c1 = Some t" using assms s by (auto simp: handleSSLError_def split: option.splits)
  have "ends c1 c'"
    using assms s t onSslError_ends [of "with_tls (\<lambda>t. t\<lparr>tl_processedSslError := True\<rparr>) c1" err]
    by (auto simp: handleSSLError_def ends_def split: if_splits)
  with ends_refl [OF sendTLSData_events(1) [OF s]] show ?thesis by (rule ends_trans)
qed

lemma tls_close_ends: "tls_close E c = Inr c' \<Longrightarrow> ends c c'"
  by (auto simp: tls_close_def bindR_eq_Inr intro!: ends_refl dest!: sendTLSData_events(1) split: option.splits if_splits)

lemma shutdown_ends:
  assumes "shutdown E True c = Inr c'"
  shows "ends c c'"
  using assms tls_close_ends
  by (auto simp: shutdown_def shutdown_inLoop_def bindR_eq_Inr ends_def closeWrite_def Let_def split: if_splits) fastforce+

section \<open>Handshakes\<close>

lemma client_names_ends:
  assumes "client_names E t c = Inr (ok, c')"
  shows "ends c c'"
proof -
  have e: "ends c c'" if "ends (with_tls f c) c'" for f and c c' :: "'a conn"
    using that by (simp add: ends_def)
  show ?thesis
    using assms
    by (auto simp: client_names_def Let_def bindR_eq_Inr ends_def emit_def dest!: handleSSLError_ends
        split: if_splits option.splits)
qed

text \<open>Announcing a connection: the callbacks after which the application talks to the peer.\<close>

definition announces :: "'e conn \<Rightarrow> 'e conn \<Rightarrow> bool" where
  "announces c c' \<longleftrightarrow> (\<exists>evs ev. cn_events c' = cn_events c @ evs \<and> ev \<in> set evs \<and> ev \<in> {UpgradeCb, RecvMsgCb, ConnectionCb Connected})"

lemma ends_not_announces:
  assumes "ends c c'"
  shows "\<not> announces c c'"
  using assms by (fastforce simp: ends_def announces_def)

lemma handshake_done_accepted:
  assumes "handshake_done E t c = Inr (ok, c')" "\<not> peer_accepted E t"
  shows "\<not> ok \<and> ends c c'"
proof -
  let ?names = "if tl_isServer t then Inr (True, server_names E t c) else client_names E t c"
  obtain ok1 c1 where n: "?names = Inr (ok1, c1)" using assms(1) by (auto simp: handshake_done_def bindR_eq_Inr split: if_splits)
  have e1: "ends c c1"
  proof (cases "tl_isServer t")
    case True
    with n show ?thesis by (intro ends_refl) (auto simp: server_names_def)
  next
    case False
    with n client_names_ends show ?thesis by auto
  qed
  show ?thesis
  proof (cases ok1)
    case False
    with assms(1) n e1 show ?thesis by (simp add: handshake_done_def)
  next
    case True
    let ?c2 = "case eg_peer_certificate E (tl_ssl t) of None \<Rightarrow> c1 | Some cert \<Rightarrow> with_tls (\<lambda>t. t\<lparr>tl_peerCertificate := Some cert\<rparr>) c1"
    let ?c3 = "with_tls (\<lambda>t. t\<lparr>tl_ssl := eg_shutdown E (tl_ssl t)\<rparr>) ?c2"
    have r: "bindR (handleSSLError E kSSLInvalidCertificate ?c3) (\<lambda>c. Inr (False, c)) = Inr (ok, c')"
      using assms n True by (simp add: handshake_done_def Let_def)
    have "cn_events ?c3 = cn_events c1" by (simp split: option.splits)
    with r have "\<not> ok" "ends c1 c'" by (auto simp: bindR_eq_Inr ends_def dest!: handleSSLError_ends)
    with ends_trans [OF e1] show ?thesis by blast
  qed
qed

text \<open>
  C12: a TLS connection is not announced before its peer is validated. When a step of the handshake reports success
  or calls a callback that hands the connection to the application, and the policy asks for
  validation, the peer has presented a certificate and \<^verbatim>\<open>validatePeerCertificate\<close> has accepted it.
  Otherwise the only callbacks are those that tell of the end of the connection.
\<close>

theorem tls_peer_validated:
  assumes "processHandshake E c = Inr (ok, c')" "cn_tls c = Some t" "eg_do_handshake E (tl_ssl t) = (ret, e)"
    "ok \<or> announces c c'" "pl_validate (tl_policy t)"
  shows "ret = 1 \<and> (\<exists>cert. eg_peer_certificate E e = Some cert \<and>
    validatePeerCertificate (eg_verify_result E e) cert (pl_hostname (tl_policy t)) (pl_allowBrokenChain (tl_policy t)) (tl_isServer t))"
proof -
  let ?t = "t\<lparr>tl_ssl := e\<rparr>" let ?c = "c\<lparr>cn_tls := Some (t\<lparr>tl_ssl := e\<rparr>)\<rparr>"
  have ends_c: "ends c c'" if "ends ?c c'" using that by (simp add: ends_def)
  have ret: "ret = 1"
  proof (rule ccontr)
    assume r: "ret \<noteq> 1"
    have "\<not> ok \<and> ends ?c c'"
      using assms(1-3) r
      by (auto simp: processHandshake_def Let_def bindR_eq_Inr ends_def dest!: sendTLSData_events(1) handleSSLError_ends shutdown_ends
          split: if_splits)
    with ends_c ends_not_announces assms(4) show False by blast
  qed
  then have h: "handshake_done E ?t ?c = Inr (ok, c')" using assms(1-3) by (simp add: processHandshake_def Let_def)
  have "peer_accepted E ?t"
    using handshake_done_accepted [OF h] ends_c ends_not_announces assms(4) by blast
  with assms(5) ret show ?thesis by (auto simp: peer_accepted_def split: option.splits)
qed

text \<open>An engine whose handshake succeeds with a certificate for \<^verbatim>\<open>a.org\<close> and whose records are the text itself.\<close>

definition example_cert :: certificate where
  "example_cert = \<lparr>ct_subject = Some (Some ''a.org''), ct_altNames = None\<rparr>"

definition example_engine :: "byte list ssl_engine" where
  "example_engine = \<lparr>eg_write = \<lambda>d e. (int (length d), e @ d), eg_read = \<lambda>n e. (-1, [], e), eg_bio_write = \<lambda>d e. (int (length d), e),
     eg_bio_pending = \<lambda>e. 0, eg_wbio_data = \<lambda>e. Some e, eg_wbio_reset = \<lambda>e. [], eg_init_finished = \<lambda>e. True,
     eg_do_handshake = \<lambda>e. (1, e), eg_get_error = \<lambda>n e. 2, eg_received_shutdown = \<lambda>e. False, eg_shutdown = \<lambda>e. e,
     eg_set_state = \<lambda>b d e. e, eg_servername = \<lambda>e. None, eg_alpn_selected = \<lambda>e. None, eg_session_storable = \<lambda>e. False,
     eg_peer_certificate = \<lambda>e. Some example_cert, eg_verify_result = \<lambda>e. 0\<rparr>"

definition example_tls_buf :: msgbuf where
  "example_tls_buf = \<lparr>mb_head = 8, mb_initCap = 8, mb_buffer = replicate 16 (CHR 0x00), mb_tail = 8\<rparr>"

definition example_tls :: "byte list tls" where
  "example_tls = \<lparr>tl_ssl = [], tl_policy = defaultClientPolicy ''a.org'', tl_isServer = True, tl_writeBuffer = example_tls_buf,
     tl_recvBuffer = example_tls_buf, tl_processedHandshakeError = False, tl_processedSslError = False,
     tl_applicationProtocol = [], tl_sniName = [], tl_peerCertificate = None\<rparr>"

definition example_tls_conn :: "byte list conn" where
  "example_tls_conn = \<lparr>cn_status = Connected, cn_reading = True, cn_writing = False, cn_readBuffer = example_tls_buf,
     cn_writeBufferList = [], cn_fileBuffer = None, cn_sendNum = 0, cn_queue = [], cn_bytesSent = 0, cn_bytesReceived = 0,
     cn_closeOnEmpty = False, cn_writeClosed = False, cn_tls = Some example_tls, cn_upgradeCallback = False,
     cn_connectionCallback = True, cn_recvMsgCallback = True, cn_closeCallback = True, cn_writeCompleteCallback = False,
     cn_sslErrorCallback = False, cn_highWaterMark = None, cn_idleTimeout = 0, cn_lastTimingWheelUpdate = 0,
     cn_kickoffEntry = None, cn_timingWheel = False, cn_clock = 0, cn_kernel = [WriteOk 2], cn_errno = 0, cn_wire = [],
     cn_events = []\<rparr>"

theorem tls_peer_validated_witness:
  "\<exists>c' cert. processHandshake example_engine example_tls_conn = Inr (True, c') \<and>
     validatePeerCertificate 0 cert ''a.org'' False True"
proof -
  have "verifySslName ''a.org'' ''a.org''" by (simp add: verifySslName_exact)
  then have "\<exists>c'. processHandshake example_engine example_tls_conn = Inr (True, c')"
    by (simp add: processHandshake_def handshake_done_def example_tls_conn_def example_tls_def example_engine_def server_names_def
        peer_accepted_def validatePeerCertificate_def verifyCommonName_def example_cert_def onHandshakeFinished_def
        sendTLSData_def with_tls_def emit_def Let_def defaultClientPolicy_def setHostname_def setUseSystemCertStore_def
        setUseOldTLS_def setValidate_def TLSPolicy_new_def)
  then obtain c' where c': "processHandshake example_engine example_tls_conn = Inr (True, c')" ..
  have "cn_tls example_tls_conn = Some example_tls" "eg_do_handshake example_engine (tl_ssl example_tls) = (1, [])"
    "pl_validate (tl_policy example_tls)"
    by (simp_all add: example_tls_conn_def example_engine_def example_tls_def defaultClientPolicy_def setHostname_def
        setUseSystemCertStore_def setUseOldTLS_def setValidate_def TLSPolicy_new_def)
  from tls_peer_validated [OF c' this(1,2) _ this(3)] c' show ?thesis
    by (auto simp: example_engine_def example_tls_def defaultClientPolicy_def setHostname_def setUseSystemCertStore_def
        setUseOldTLS_def setValidate_def TLSPolicy_new_def)
qed

section \<open>Encrypted bytes on their way\<close>

lemma appendToWriteBuffer_ok:
  assumes "appendToWriteBuffer d c = Inr c'" "cn_tls c = Some t" "wf_buf (tl_writeBuffer t)" "length d \<le> vec_max"
  shows "\<exists>b. c' = with_tls (\<lambda>t. t\<lparr>tl_writeBuffer := b\<rparr>) c \<and> wf_buf b \<and> contents b = contents (tl_writeBuffer t) @ d"
proof -
  obtain b1 b2 where b: "ensureWritableBytes (tl_writeBuffer t) (length d) = Inr b1" "append_bytes b1 d = Inr b2"
    "c' = with_tls (\<lambda>t. t\<lparr>tl_writeBuffer := b2\<rparr>) c"
    using assms(1,2) by (auto simp: appendToWriteBuffer_def bindR_eq_Inr)
  from ensureWritableBytes_ok [OF assms(3,4) b(1)] have "wf_buf b1" "contents b1 = contents (tl_writeBuffer t)" by simp_all
  with append_bytes_ok [OF _ assms(4) b(2)] b(3) show ?thesis by auto
qed

lemma append_after_ensure:
  assumes "wf_buf b" "fits b (length d)"
  shows "\<exists>b1 b2. ensureWritableBytes b (length d) = Inr b1 \<and> append_bytes b1 d = Inr b2"
proof -
  obtain b1 where b1: "ensureWritableBytes b (length d) = Inr b1" using ensureWritableBytes_total [OF assms] by blast
  have len: "length d \<le> vec_max" using assms(2) by (simp add: fits_def)
  from ensureWritableBytes_ok [OF assms(1) len b1] have w: "wf_buf b1" "length d \<le> length (mb_buffer b1) - mb_tail b1" by simp_all
  then have "ensureWritableBytes b1 (length d) = Inr b1" using ensureWritableBytes_eq [OF w(1) len] by simp
  with store_at_tail_ok [of b1 d] w b1 show ?thesis by (auto simp: append_bytes_def)
qed

lemma example_tls_buf: "wf_buf example_tls_buf" "contents example_tls_buf = []" "readableBytes example_tls_buf = 0"
  "tl_writeBuffer example_tls = example_tls_buf"
  "\<exists>b1 b2. ensureWritableBytes example_tls_buf 1 = Inr b1 \<and> append_bytes b1 ''c'' = Inr b2"
proof -
  show w: "wf_buf example_tls_buf" "contents example_tls_buf = []" "readableBytes example_tls_buf = 0"
    "tl_writeBuffer example_tls = example_tls_buf"
    by (simp_all add: example_tls_buf_def wf_buf_def contents_def readableBytes_def example_tls_def)
  have "fits example_tls_buf (length ''c'')" by (simp add: example_tls_buf_def fits_def)
  from append_after_ensure [OF w(1) this]
  show "\<exists>b1 b2. ensureWritableBytes example_tls_buf 1 = Inr b1 \<and> append_bytes b1 ''c'' = Inr b2" by simp
qed

lemma sendTLSData_effect:
  assumes "sendTLSData E c = Inr (num, c')" "cn_tls c = Some t" "wf_buf (tl_writeBuffer t)"
    "eg_wbio_data E (tl_ssl t) = Some w" "length w \<le> vec_max"
  shows "\<exists>n t'. n \<le> length w \<and> cn_wire c' = cn_wire c @ take n w \<and> cn_tls c' = Some t' \<and> wf_buf (tl_writeBuffer t') \<and>
    contents (tl_writeBuffer t') = contents (tl_writeBuffer t) @ drop n w \<and> num = int (length w)"
proof (cases "w = []")
  case True
  with assms show ?thesis by (auto simp: sendTLSData_def)
next
  case False
  obtain n c1 where w: "writeRaw w c = (n, c1)" by fastforce
  obtain ks e m where c1: "c1 = c\<lparr>cn_kernel := ks, cn_errno := e, cn_wire := cn_wire c @ take (nat n) w, cn_bytesSent := m\<rparr>"
    "n = -1 \<or> 0 \<le> n" "nat n \<le> length w" by (rule writeRaw_frame [OF w])
  have off: "(if n = -1 then 0 else nat n) = nat n" by simp
  obtain c2 where c2: "appendToWriteBuffer (drop (nat n) w) c1 = Inr c2" "num = int (length w)"
    "c' = with_tls (\<lambda>t. t\<lparr>tl_ssl := eg_wbio_reset E (tl_ssl t)\<rparr>) c2"
    using assms(1,2,4) False w off by (auto simp: sendTLSData_def bindR_eq_Inr Let_def)
  have "cn_tls c1 = Some t" using c1(1) assms(2) by simp
  moreover have "length (drop (nat n) w) \<le> vec_max" using assms(5) by simp
  ultimately obtain b where
    b: "c2 = with_tls (\<lambda>t. t\<lparr>tl_writeBuffer := b\<rparr>) c1" "wf_buf b" "contents b = contents (tl_writeBuffer t) @ drop (nat n) w"
    using appendToWriteBuffer_ok [OF c2(1) _ assms(3)] by blast
  show ?thesis
    by (intro exI [of _ "nat n"] exI [of _ "t\<lparr>tl_writeBuffer := b, tl_ssl := eg_wbio_reset E (tl_ssl t)\<rparr>"])
      (use c1 c2(2,3) b assms(2) in simp)
qed

text \<open>
  encrypted records keep their order only while the write buffer is empty. \<^verbatim>\<open>sendTLSData\<close> hands what OpenSSL
  has produced to the socket first and appends the rest to the write buffer: with an empty buffer
  the wire followed by the buffer grows by exactly these bytes; with bytes still in the buffer every byte
  that the socket takes overtakes them.
\<close>

theorem tls_records_order:
  assumes "sendTLSData E c = Inr (num, c')" "cn_tls c = Some t" "wf_buf (tl_writeBuffer t)"
    "eg_wbio_data E (tl_ssl t) = Some w" "length w \<le> vec_max"
  shows "\<exists>n t'. cn_tls c' = Some t' \<and> cn_wire c' = cn_wire c @ take n w \<and>
    contents (tl_writeBuffer t') = contents (tl_writeBuffer t) @ drop n w \<and>
    (contents (tl_writeBuffer t) = [] \<longrightarrow> cn_wire c' @ contents (tl_writeBuffer t') = cn_wire c @ w)"
  using sendTLSData_effect [OF assms] by fastforce

theorem tls_records_order_witness:
  "\<exists>num c' t'. sendTLSData example_engine (with_tls (\<lambda>t. t\<lparr>tl_ssl := ''abc''\<rparr>) example_tls_conn) = Inr (num, c') \<and>
     cn_tls c' = Some t' \<and> cn_wire c' @ contents (tl_writeBuffer t') = ''abc''"
proof -
  let ?c = "with_tls (\<lambda>t. t\<lparr>tl_ssl := ''abc''\<rparr>) example_tls_conn" and ?t = "example_tls\<lparr>tl_ssl := ''abc''\<rparr>"
  have t: "cn_tls ?c = Some ?t" "cn_wire ?c = []" by (simp_all add: example_tls_conn_def)
  have w: "wf_buf (tl_writeBuffer ?t)" "contents (tl_writeBuffer ?t) = []" "tl_ssl ?t = ''abc''"
    by (simp_all add: example_tls_def example_tls_buf_def wf_buf_def contents_def)
  have "\<exists>num c'. sendTLSData example_engine ?c = Inr (num, c')"
    using example_tls_buf(5) by (auto simp: sendTLSData_def example_engine_def example_tls_conn_def example_tls_def with_tls_def
        writeRaw_def k_write_def appendToWriteBuffer_def Let_def)
  then obtain num c' where r: "sendTLSData example_engine ?c = Inr (num, c')" by blast
  have "eg_wbio_data example_engine (tl_ssl ?t) = Some ''abc''" by (simp add: example_engine_def w(3))
  from tls_records_order [OF r t(1) w(1) this] w(2) t(2) r show ?thesis by auto
qed

text \<open>
  the end of a message sent over TLS can stay unsent. When the socket takes only part of the records
  of a message on an idle connection, the rest is kept in the write buffer of the provider, but
  nobody asks for writability: the channel stays without write interest and the list of the
  connection empty, so that the rest waits until something else is sent.
\<close>

theorem tls_tail_waits:
  assumes "sendInLoop E d c = Inr c'" "cn_status c = Connected" "\<not> cn_writing c" "cn_writeBufferList c = []"
    "cn_tls c = Some t" "wf_buf (tl_writeBuffer t)" "contents (tl_writeBuffer t) = []" "d \<noteq> []" "length d \<le> 65536"
    "eg_write E d (tl_ssl t) = (k, e)" "k > 0" "eg_wbio_data E e = Some w" "length w \<le> vec_max"
  shows "\<exists>n t'. cn_wire c' = cn_wire c @ take n w \<and> cn_tls c' = Some t' \<and> contents (tl_writeBuffer t') = drop n w \<and>
    \<not> cn_writing c' \<and> cn_writeBufferList c' = []"
proof -
  let ?c0 = "extendLife c"
  have x: "cn_tls ?c0 = Some t" "cn_status ?c0 = Connected" "\<not> cn_writing ?c0" "cn_writeBufferList ?c0 = []" "cn_wire ?c0 = cn_wire c"
    using assms(2-5) by (auto simp: extendLife_def emit_def Let_def)
  have "readableBytes (tl_writeBuffer t) = 0" by (subst readableBytes_contents [OF assms(6)]) (simp only: assms(7) list.size)
  then have b: "buffered ?c0 = 0" using x(1) by (simp add: buffered_def)
  let ?c1 = "with_tls (\<lambda>t. t\<lparr>tl_ssl := e\<rparr>) ?c0"
  have send: "tls_sendData E d ?c0 = bindR (sendTLSData E ?c1) (\<lambda>(num, c). if num = -1 then Inr (-1, c) else Inr (int (length d), c))"
    using x(1) b assms(9-11) by (simp add: tls_sendData_def)
  obtain num c2 where c2: "sendTLSData E ?c1 = Inr (num, c2)"
  proof (cases "sendTLSData E ?c1")
    case (Inl err)
    then have "sendInLoop E d c = Inl err" using send assms(2) x by (simp add: sendInLoop_def writeInLoop_def)
    with assms(1) show ?thesis by simp
  next
    case (Inr r)
    with that show ?thesis by (cases r) auto
  qed
  have t1: "cn_tls ?c1 = Some (t\<lparr>tl_ssl := e\<rparr>)" using x(1) by simp
  from sendTLSData_effect [OF c2 t1] assms(6,7,12,13) obtain n t' where
    n: "cn_wire c2 = cn_wire ?c1 @ take n w" "cn_tls c2 = Some t'" "contents (tl_writeBuffer t') = drop n w" "num = int (length w)"
    by auto
  note ev = sendTLSData_events [OF c2]
  have "sendInLoop E d c = Inr c2"
    using send c2 n(4) assms(2,8) x ev by (simp add: sendInLoop_def writeInLoop_def Let_def)
  with assms(1) have "c' = c2" by simp
  with n ev x show ?thesis by auto
qed

theorem tls_tail_waits_witness:
  "\<exists>c' t'. sendInLoop example_engine ''abc'' example_tls_conn = Inr c' \<and> cn_tls c' = Some t' \<and>
     cn_wire c' @ contents (tl_writeBuffer t') = ''abc'' \<and> \<not> cn_writing c'"
proof -
  let ?c = example_tls_conn and ?t = example_tls
  have t: "cn_tls ?c = Some ?t" "cn_wire ?c = []" "cn_status ?c = Connected" "\<not> cn_writing ?c" "cn_writeBufferList ?c = []"
    by (simp_all add: example_tls_conn_def)
  have "\<exists>c'. sendInLoop example_engine ''abc'' ?c = Inr c'"
    using example_tls_buf(3,5)
    by (auto simp: sendInLoop_def extendLife_def writeInLoop_def tls_sendData_def buffered_def sendTLSData_def example_engine_def
        example_tls_conn_def example_tls_def with_tls_def writeRaw_def k_write_def appendToWriteBuffer_def Let_def)
  then obtain c' where r: "sendInLoop example_engine ''abc'' ?c = Inr c'" by blast
  from tls_tail_waits [OF r t(3,4,5,1), of 3 "''abc''" "''abc''"] example_tls_buf(1,2,4) t(2) r show ?thesis
    by (auto simp: example_engine_def example_tls_def)
qed

end
