(* ===== verification/Connector.thy ===== *)
theory Connector
  imports Cooper_Prelude
begin

text \<open>
  The connector of a client (\<^verbatim>\<open>cooper/net/Connector.*\<close>): a non-blocking \<^verbatim>\<open>connect\<close>, the channel that waits for its
  outcome, retrying with a growing delay, and who closes the socket. The answers of the kernel (the descriptor of a new
  socket, the outcome of \<^verbatim>\<open>connect\<close>, the error of the socket and whether it is connected to itself) are arguments.
  Functions queued in the loop and timers that have not fired are part of the state; what is done to sockets and which
  callbacks are called is kept in a log. The callbacks are always the last thing a handler does.
\<close>

section \<open>State\<close>

datatype connector_status = ConnectorDisconnected | ConnectorConnecting | ConnectorConnected

datatype connector_task = StartTask | RemoveTask | HoldChannel int

datatype connector_event =
    SocketOpened int
  | SocketOption int
  | SocketClosed int
  | NewConnectionCb int
  | ConnectErrorCb
  | RetryAfter int

record connector =
  cr_connect :: bool
  cr_status :: connector_status
  cr_retryInterval :: int
  cr_maxRetryInterval :: int
  cr_retry :: bool
  cr_socketHanded :: bool
  cr_fd :: int
  cr_channel :: "int option"
  cr_newConnectionCallback :: bool
  cr_errorCallback :: bool
  cr_sockOptCallback :: bool
  cr_queue :: "connector_task list"
  cr_timers :: nat
  cr_log :: "connector_event list"

abbreviation EINPROGRESS :: int where "EINPROGRESS \<equiv> 115"
abbreviation EINTR :: int where "EINTR \<equiv> 4"
abbreviation EISCONN :: int where "EISCONN \<equiv> 106"
abbreviation E_AGAIN :: int where "E_AGAIN \<equiv> 11"
abbreviation EADDRINUSE :: int where "EADDRINUSE \<equiv> 98"
abbreviation EADDRNOTAVAIL :: int where "EADDRNOTAVAIL \<equiv> 99"
abbreviation ECONNREFUSED :: int where "ECONNREFUSED \<equiv> 111"
abbreviation ENETUNREACH :: int where "ENETUNREACH \<equiv> 101"

definition Connector_new :: "bool \<Rightarrow> connector" where
  "Connector_new retry =
     \<lparr>cr_connect = False, cr_status = ConnectorDisconnected, cr_retryInterval = 500, cr_maxRetryInterval = 30 * 1000,
      cr_retry = retry, cr_socketHanded = False, cr_fd = -1, cr_channel = None, cr_newConnectionCallback = False,
      cr_errorCallback = False, cr_sockOptCallback = False, cr_queue = [], cr_timers = 0, cr_log = []\<rparr>"

definition log_event :: "connector_event \<Rightarrow> connector \<Rightarrow> connector" where
  "log_event e c = c\<lparr>cr_log := cr_log c @ [e]\<rparr>"

definition Connector_delete :: "connector \<Rightarrow> connector" where
  "Connector_delete c = (if \<not> cr_socketHanded c \<and> cr_fd c \<noteq> -1 then log_event (SocketClosed (cr_fd c)) c else c)"

section \<open>Operations\<close>

definition createNonblockingSocketOrDie :: "int \<Rightarrow> int result" where
  "createNonblockingSocketOrDie sock = (if sock < 0 then Inl ProcessExit else Inr sock)"

definition notify_error :: "connector \<Rightarrow> connector" where
  "notify_error c = (if cr_errorCallback c then log_event ConnectErrorCb c else c)"

definition Connector_retry :: "int \<Rightarrow> connector \<Rightarrow> connector result" where
  "Connector_retry sockfd c =
     assertR (cr_retry c)
       (let c = (log_event (SocketClosed sockfd) c)\<lparr>cr_status := ConnectorDisconnected\<rparr> in
        if cr_connect c
        then (let c = (log_event (RetryAfter (cr_retryInterval c)) c)\<lparr>cr_timers := Suc (cr_timers c)\<rparr>;
                  n = cr_retryInterval c * 2
              in Inr (c\<lparr>cr_retryInterval := (if n > cr_maxRetryInterval c then cr_maxRetryInterval c else n)\<rparr>))
        else Inr c)"

definition connecting :: "int \<Rightarrow> connector \<Rightarrow> connector result" where
  "connecting sockfd c =
     (let c = c\<lparr>cr_status := ConnectorConnecting\<rparr>
      in assertR (cr_channel c = None) (Inr (c\<lparr>cr_channel := Some sockfd\<rparr>)))"

text \<open>\<open>sock\<close> is the descriptor of the new socket, \<open>err\<close> is 0 or the \<^verbatim>\<open>errno\<close> of \<^verbatim>\<open>connect\<close>.\<close>

definition Connector_connect :: "int \<Rightarrow> int \<Rightarrow> connector \<Rightarrow> connector result" where
  "Connector_connect sock err c =
     bindR (createNonblockingSocketOrDie sock) (\<lambda>fd.
       let c = log_event (SocketOpened fd) (c\<lparr>cr_socketHanded := False, cr_fd := fd\<rparr>);
           c = (if cr_sockOptCallback c then log_event (SocketOption fd) c else c)
       in if err \<in> {0, EINPROGRESS, EINTR, EISCONN} then connecting fd c
          else if err \<in> {E_AGAIN, EADDRINUSE, EADDRNOTAVAIL, ECONNREFUSED, ENETUNREACH}
          then (if cr_retry c then Connector_retry fd c else Inr c)
          else Inr (notify_error (log_event (SocketClosed fd) (c\<lparr>cr_socketHanded := True\<rparr>))))"

definition startInLoop :: "int \<Rightarrow> int \<Rightarrow> connector \<Rightarrow> connector result" where
  "startInLoop sock err c =
     assertR (cr_status c = ConnectorDisconnected)
       (if cr_connect c then Connector_connect sock err c else Inr c)"

definition Connector_start :: "bool \<Rightarrow> int \<Rightarrow> int \<Rightarrow> connector \<Rightarrow> connector result" where
  "Connector_start inLoop sock err c =
     (let c = c\<lparr>cr_connect := True\<rparr>
      in if inLoop then startInLoop sock err c else Inr (c\<lparr>cr_queue := cr_queue c @ [StartTask]\<rparr>))"

definition Connector_restart :: "connector \<Rightarrow> connector" where
  "Connector_restart c = c"

definition removeAndResetChannel :: "connector \<Rightarrow> int \<times> connector" where
  "removeAndResetChannel c =
     (case cr_channel c of
        None \<Rightarrow> (-1, c)
      | Some sockfd \<Rightarrow> (sockfd, c\<lparr>cr_queue := cr_queue c @ [HoldChannel sockfd], cr_channel := None\<rparr>))"

definition Connector_stop :: "bool \<Rightarrow> connector \<Rightarrow> connector" where
  "Connector_stop inLoop c =
     (let c = c\<lparr>cr_status := ConnectorDisconnected\<rparr>
      in if inLoop then snd (removeAndResetChannel c) else c\<lparr>cr_queue := cr_queue c @ [RemoveTask]\<rparr>)"

text \<open>The attempt that has failed on \<open>sockfd\<close> is retried or given up.\<close>

definition attempt_failed :: "int \<Rightarrow> connector \<Rightarrow> connector result" where
  "attempt_failed sockfd c =
     bindR (if cr_retry c then Connector_retry sockfd c
            else Inr (log_event (SocketClosed sockfd) (c\<lparr>cr_socketHanded := True\<rparr>)))
       (\<lambda>c. Inr (notify_error c))"

definition Connector_handleWrite :: "int \<Rightarrow> bool \<Rightarrow> connector \<Rightarrow> connector result" where
  "Connector_handleWrite soError selfConnect c =
     (let c = c\<lparr>cr_socketHanded := True\<rparr> in
      if cr_status c = ConnectorConnecting
      then (let (sockfd, c) = removeAndResetChannel c in
            if soError \<noteq> 0 then attempt_failed sockfd c
            else if selfConnect then attempt_failed sockfd c
            else (let c = c\<lparr>cr_status := ConnectorConnected\<rparr> in
                  if cr_connect c
                  then (if cr_newConnectionCallback c then Inr (log_event (NewConnectionCb sockfd) c) else Inl NullCall)
                  else Inr (log_event (SocketClosed sockfd) (c\<lparr>cr_socketHanded := True\<rparr>))))
      else assertR (cr_status c = ConnectorDisconnected) (Inr c))"

definition Connector_handleError :: "connector \<Rightarrow> connector result" where
  "Connector_handleError c =
     (let c = c\<lparr>cr_socketHanded := True\<rparr> in
      if cr_status c = ConnectorConnecting
      then (let (sockfd, c) = removeAndResetChannel (c\<lparr>cr_status := ConnectorDisconnected\<rparr>)
            in bindR (if cr_retry c then Connector_retry sockfd c else Inr (log_event (SocketClosed sockfd) c))
                 (\<lambda>c. Inr (notify_error c)))
      else Inr c)"

text \<open>The next function queued in the loop.\<close>

definition connector_run :: "int \<Rightarrow> int \<Rightarrow> connector \<Rightarrow> connector result" where
  "connector_run sock err c =
     (case cr_queue c of
        [] \<Rightarrow> Inr c
      | t # ts \<Rightarrow>
          (let c = c\<lparr>cr_queue := ts\<rparr> in
           case t of
             StartTask \<Rightarrow> startInLoop sock err c
           | RemoveTask \<Rightarrow> Inr (snd (removeAndResetChannel c))
           | HoldChannel f \<Rightarrow> Inr c))"

definition timer_fires :: "int \<Rightarrow> int \<Rightarrow> connector \<Rightarrow> connector result" where
  "timer_fires sock err c = startInLoop sock err (c\<lparr>cr_timers := cr_timers c - 1\<rparr>)"

section \<open>What happens to sockets\<close>

text \<open>
  The sockets the connector owns after a log: what it has opened and neither closed nor handed over. There are none
  (\<open>None\<close>) after a log that closes or hands over a descriptor the connector does not own.
\<close>

fun owned :: "int set \<Rightarrow> connector_event list \<Rightarrow> int set option" where
  "owned S [] = Some S"
| "owned S (SocketOpened f # es) = owned (insert f S) es"
| "owned S (SocketClosed f # es) = (if f \<in> S then owned (S - {f}) es else None)"
| "owned S (NewConnectionCb f # es) = (if f \<in> S then owned (S - {f}) es else None)"
| "owned S (SocketOption f # es) = owned S es"
| "owned S (ConnectErrorCb # es) = owned S es"
| "owned S (RetryAfter d # es) = owned S es"

lemma owned_append: "owned S (es @ es') = (case owned S es of None \<Rightarrow> None | Some S' \<Rightarrow> owned S' es')"
  by (induction S es rule: owned.induct) auto

text \<open>
  The steps of a connector: calls of its interface from any thread, the functions and timers of the loop, and the events
  of its channel. The kernel gives a new socket a descriptor that the connector does not have open.
\<close>

definition fresh :: "int \<Rightarrow> connector \<Rightarrow> bool" where
  "fresh sock c = (case owned {} (cr_log c) of None \<Rightarrow> True | Some S \<Rightarrow> sock \<notin> S)"

inductive connector_step :: "connector \<Rightarrow> connector \<Rightarrow> bool" where
  set_callbacks: "connector_step c (c\<lparr>cr_newConnectionCallback := n, cr_errorCallback := e, cr_sockOptCallback := s\<rparr>)"
| start: "fresh sock c \<Longrightarrow> Connector_start inLoop sock err c = Inr c' \<Longrightarrow> connector_step c c'"
| stop: "connector_step c (Connector_stop inLoop c)"
| run: "fresh sock c \<Longrightarrow> connector_run sock err c = Inr c' \<Longrightarrow> connector_step c c'"
| timer: "cr_timers c > 0 \<Longrightarrow> fresh sock c \<Longrightarrow> timer_fires sock err c = Inr c' \<Longrightarrow> connector_step c c'"
| write_event: "cr_channel c \<noteq> None \<Longrightarrow> Connector_handleWrite soError self c = Inr c' \<Longrightarrow> connector_step c c'"
| error_event: "cr_channel c \<noteq> None \<Longrightarrow> Connector_handleError c = Inr c' \<Longrightarrow> connector_step c c'"

inductive connector_reach :: "bool \<Rightarrow> connector \<Rightarrow> bool" for retry where
  init: "connector_reach retry (Connector_new retry)"
| step: "connector_reach retry c \<Longrightarrow> connector_step c c' \<Longrightarrow> connector_reach retry c'"

section \<open>No socket is closed twice\<close>

definition sock_inv :: "connector \<Rightarrow> bool" where
  "sock_inv c \<longleftrightarrow> (\<exists>S. owned {} (cr_log c) = Some S \<and> (\<not> cr_socketHanded c \<and> cr_fd c \<noteq> -1 \<longrightarrow> cr_fd c \<in> S) \<and>
     (\<forall>f. cr_status c = ConnectorConnecting \<and> cr_channel c = Some f \<longrightarrow> f \<in> S))"

lemmas connector_defs = Connector_retry_def connecting_def Connector_connect_def startInLoop_def Connector_start_def
  removeAndResetChannel_def Connector_stop_def attempt_failed_def Connector_handleWrite_def Connector_handleError_def
  connector_run_def timer_fires_def notify_error_def log_event_def createNonblockingSocketOrDie_def

lemmas connector_splits = if_splits option.splits list.splits connector_task.splits

lemma retry_fixed: "connector_step c c' \<Longrightarrow> cr_retry c' = cr_retry c"
  by (induction rule: connector_step.induct)
    (auto simp: connector_defs assertR_eq_Inr bindR_eq_Inr Let_def split: connector_splits)

lemma reach_retry: "connector_reach retry c \<Longrightarrow> cr_retry c = retry"
  by (induction rule: connector_reach.induct) (auto simp: Connector_new_def dest: retry_fixed)

lemma startInLoop_inv:
  assumes "sock_inv c" "\<not> cr_retry c" "fresh sock c" "startInLoop sock err c = Inr c'"
  shows "sock_inv c'"
  using assms
  by (auto simp: sock_inv_def fresh_def connector_defs assertR_eq_Inr owned_append Let_def split: if_splits)

lemma remove_inv: "sock_inv c \<Longrightarrow> sock_inv (snd (removeAndResetChannel c))"
  by (auto simp: sock_inv_def removeAndResetChannel_def split: option.splits)

lemma step_inv:
  assumes "connector_step c c'" "sock_inv c" "\<not> cr_retry c"
  shows "sock_inv c'"
  using assms
proof (induction rule: connector_step.induct)
  case (start sock c inLoop err c')
  have "sock_inv (c\<lparr>cr_connect := True\<rparr>)" "fresh sock (c\<lparr>cr_connect := True\<rparr>)"
    using start by (auto simp: sock_inv_def fresh_def)
  with start startInLoop_inv [of "c\<lparr>cr_connect := True\<rparr>" sock err c'] show ?case
    by (auto simp: Connector_start_def sock_inv_def Let_def split: if_splits)
next
  case (stop c inLoop)
  then show ?case by (auto simp: sock_inv_def Connector_stop_def removeAndResetChannel_def Let_def split: option.splits)
next
  case (run sock c err c')
  have 1: "sock_inv (c\<lparr>cr_queue := ts\<rparr>)" "fresh sock (c\<lparr>cr_queue := ts\<rparr>)" for ts
    using run by (auto simp: sock_inv_def fresh_def)
  from run 1 startInLoop_inv [OF 1(1) _ 1(2), of _ err c'] remove_inv [OF 1(1)] show ?case
    by (auto simp: connector_run_def Let_def split: list.splits connector_task.splits)
next
  case (timer c sock err c')
  have "sock_inv (c\<lparr>cr_timers := cr_timers c - 1\<rparr>)" "fresh sock (c\<lparr>cr_timers := cr_timers c - 1\<rparr>)"
    using timer by (auto simp: sock_inv_def fresh_def)
  with timer startInLoop_inv [of "c\<lparr>cr_timers := cr_timers c - 1\<rparr>" sock err c'] show ?case
    by (simp add: timer_fires_def)
next
  case (write_event c soError self c')
  then show ?case
    by (auto simp: sock_inv_def connector_defs assertR_eq_Inr owned_append Let_def split: if_splits option.splits)
next
  case (error_event c c')
  then show ?case
    by (auto simp: sock_inv_def connector_defs owned_append Let_def split: if_splits option.splits)
qed (auto simp: sock_inv_def)

lemma reach_inv: "connector_reach retry c \<Longrightarrow> \<not> retry \<Longrightarrow> sock_inv c"
proof (induction rule: connector_reach.induct)
  case init
  then show ?case by (simp add: sock_inv_def Connector_new_def)
next
  case (step c c')
  then show ?case using step_inv reach_retry by blast
qed

text \<open>
  C20: In every run of a connector as \<^verbatim>\<open>TcpClient\<close> creates it (without retrying), whatever the threads that call it, the
  loop and the kernel do, a descriptor is closed or handed to the client only while the connector owns it: no
  descriptor is closed twice, none is closed after it was handed over, and the destructor keeps to that too.
\<close>

theorem connector_sockets_once:
  assumes "connector_reach False c"
  shows "\<exists>S. owned {} (cr_log (Connector_delete c)) = Some S"
proof -
  obtain S where "owned {} (cr_log c) = Some S" "\<not> cr_socketHanded c \<and> cr_fd c \<noteq> -1 \<longrightarrow> cr_fd c \<in> S"
    using reach_inv [OF assms] by (auto simp: sock_inv_def)
  then show ?thesis by (auto simp: Connector_delete_def log_event_def owned_append)
qed

text \<open>A run: the connection is made and handed over.\<close>

definition example_connector :: connector where
  "example_connector = (Connector_new False)\<lparr>cr_newConnectionCallback := True, cr_errorCallback := True\<rparr>"

definition example_connected :: connector where
  "example_connected = example_connector\<lparr>cr_connect := True, cr_status := ConnectorConnected, cr_socketHanded := True,
     cr_fd := 7, cr_queue := [HoldChannel 7], cr_log := [SocketOpened 7, NewConnectionCb 7]\<rparr>"

lemma example_connected_reach: "connector_reach False example_connected"
proof -
  let ?c0 = "example_connector" and
    ?c1 = "example_connector\<lparr>cr_connect := True, cr_status := ConnectorConnecting, cr_fd := 7, cr_channel := Some 7,
             cr_log := [SocketOpened 7]\<rparr>"
  have "connector_reach False ?c0"
    using connector_reach.step [OF connector_reach.init connector_step.set_callbacks [where n = True and e = True and s = False]]
    by (simp add: example_connector_def Connector_new_def)
  moreover have "connector_step ?c0 ?c1"
    by (rule connector_step.start [of 7 _ True EINPROGRESS])
      (simp_all add: fresh_def example_connector_def Connector_new_def connector_defs Let_def)
  moreover have "connector_step ?c1 example_connected"
    by (rule connector_step.write_event [of _ 0 False])
      (simp_all add: example_connector_def example_connected_def Connector_new_def connector_defs Let_def)
  ultimately show ?thesis by (blast intro: connector_reach.step)
qed

theorem connector_sockets_once_witness:
  "connector_reach False example_connected \<and> (\<exists>S. owned {} (cr_log (Connector_delete example_connected)) = Some S)"
  using connector_sockets_once [OF example_connected_reach] example_connected_reach by blast

text \<open>
  With retrying this fails: when \<^verbatim>\<open>connect\<close> refuses at once, \<^verbatim>\<open>retry\<close> closes the socket but leaves \<^verbatim>\<open>socketHanded_\<close>
  false, and a connector destroyed before the next attempt closes the descriptor again, whoever owns it by then.
\<close>

definition retried :: "int \<Rightarrow> connector" where
  "retried sock = (Connector_new True)\<lparr>cr_connect := True, cr_fd := sock, cr_retryInterval := 1000, cr_timers := 1,
     cr_log := [SocketOpened sock, SocketClosed sock, RetryAfter 500]\<rparr>"

lemma refused_start:
  assumes "sock \<ge> 0"
  shows "Connector_start True sock ECONNREFUSED (Connector_new True) = Inr (retried sock)"
  using assms by (simp add: retried_def Connector_new_def connector_defs Let_def)

lemma retried_reach: "sock \<ge> 0 \<Longrightarrow> connector_reach True (retried sock)"
  by (rule connector_reach.step [OF connector_reach.init connector_step.start [OF _ refused_start]])
    (simp_all add: fresh_def Connector_new_def)

lemma refused_retry_closes_twice:
  assumes "sock \<ge> 0"
  shows "\<exists>c. Connector_start True sock ECONNREFUSED (Connector_new True) = Inr c \<and> connector_reach True c \<and>
    owned {} (cr_log (Connector_delete c)) = None"
proof -
  have "owned {} (cr_log (Connector_delete (retried sock))) = None"
    using assms by (simp add: retried_def Connector_delete_def Connector_new_def log_event_def)
  with refused_start [OF assms] retried_reach [OF assms] show ?thesis by blast
qed

text \<open>
  Without retrying, an attempt that is refused at once calls no callback, and nothing is left that could: no channel,
  no timer, no queued function.
\<close>

lemma refused_is_silent:
  assumes "sock \<ge> 0" "err \<in> {E_AGAIN, EADDRINUSE, EADDRNOTAVAIL, ECONNREFUSED, ENETUNREACH}"
  shows "Connector_start True sock err example_connector =
    Inr (example_connector\<lparr>cr_connect := True, cr_fd := sock, cr_log := [SocketOpened sock]\<rparr>)"
  using assms by (auto simp: example_connector_def Connector_new_def connector_defs Let_def)

text \<open>
  \<^verbatim>\<open>stop\<close> leaves \<^verbatim>\<open>connect_\<close> set, so that the timer of a retry opens a new socket after it. And a second attempt
  forgets the socket of a stopped one, which is never closed.
\<close>

lemma stopped_retry_connects:
  assumes "cr_connect c" "cr_channel c = None" "sock \<ge> 0" "err \<in> {0, EINPROGRESS}"
  shows "\<exists>c'. timer_fires sock err (Connector_stop True c) = Inr c' \<and> SocketOpened sock \<in> set (cr_log c') \<and>
    cr_status c' = ConnectorConnecting"
  using assms by (auto simp: connector_defs Let_def)

lemma stopped_socket_leaks:
  assumes "sock \<ge> 0" "sock2 \<ge> 0" "sock \<noteq> sock2"
  shows "\<exists>c c'. Connector_start True sock EINPROGRESS example_connector = Inr c \<and>
    Connector_start True sock2 ECONNREFUSED (Connector_stop True c) = Inr c' \<and>
    owned {} (cr_log (Connector_delete c')) = Some {sock}"
  using assms by (auto simp: example_connector_def Connector_new_def Connector_delete_def connector_defs Let_def)

section \<open>The delays of retries\<close>

fun delays :: "connector_event list \<Rightarrow> int list" where
  "delays [] = []"
| "delays (RetryAfter d # es) = d # delays es"
| "delays (e # es) = delays es"

definition backoff :: "nat \<Rightarrow> int" where
  "backoff k = min (500 * 2 ^ k) 30000"

definition backoff_inv :: "connector \<Rightarrow> bool" where
  "backoff_inv c \<longleftrightarrow> cr_maxRetryInterval c = 30000 \<and>
     (\<exists>n. delays (cr_log c) = map backoff [0..<n] \<and> cr_retryInterval c = backoff n)"

lemma delays_append [simp]: "delays (es @ es') = delays es @ delays es'"
  by (induction es rule: delays.induct) auto

lemma backoff_Suc: "backoff (Suc n) = (if backoff n * 2 > 30000 then 30000 else backoff n * 2)"
  by (auto simp: backoff_def min_def)

lemma backoff_frame [simp]:
  "backoff_inv (notify_error c) = backoff_inv c"
  "backoff_inv (log_event (SocketClosed f) c) = backoff_inv c"
  "backoff_inv (log_event (SocketOpened f) c) = backoff_inv c"
  "backoff_inv (log_event (SocketOption f) c) = backoff_inv c"
  "backoff_inv (log_event (NewConnectionCb f) c) = backoff_inv c"
  "backoff_inv (c\<lparr>cr_connect := b\<rparr>) = backoff_inv c"
  "backoff_inv (c\<lparr>cr_status := st\<rparr>) = backoff_inv c"
  "backoff_inv (c\<lparr>cr_socketHanded := b\<rparr>) = backoff_inv c"
  "backoff_inv (c\<lparr>cr_fd := f\<rparr>) = backoff_inv c"
  "backoff_inv (c\<lparr>cr_channel := ch\<rparr>) = backoff_inv c"
  "backoff_inv (c\<lparr>cr_queue := q\<rparr>) = backoff_inv c"
  "backoff_inv (c\<lparr>cr_timers := n\<rparr>) = backoff_inv c"
  "backoff_inv (c\<lparr>cr_newConnectionCallback := b\<rparr>) = backoff_inv c"
  "backoff_inv (c\<lparr>cr_errorCallback := b\<rparr>) = backoff_inv c"
  "backoff_inv (c\<lparr>cr_sockOptCallback := b\<rparr>) = backoff_inv c"
  by (simp_all add: backoff_inv_def notify_error_def log_event_def)

lemma retry_backoff_inv:
  assumes "Connector_retry f c = Inr c'" "backoff_inv c"
  shows "backoff_inv c'"
proof -
  obtain n where n: "delays (cr_log c) = map backoff [0..<n]" "cr_retryInterval c = backoff n"
    "cr_maxRetryInterval c = 30000"
    using assms(2) by (auto simp: backoff_inv_def)
  show ?thesis
  proof (cases "cr_connect c")
    case True
    have "delays (cr_log c') = map backoff [0..<Suc n]" "cr_retryInterval c' = backoff (Suc n)"
      "cr_maxRetryInterval c' = 30000"
      using assms(1) n True by (auto simp: Connector_retry_def log_event_def assertR_eq_Inr Let_def backoff_Suc)
    then show ?thesis unfolding backoff_inv_def by blast
  next
    case False
    then show ?thesis
      using assms by (auto simp: Connector_retry_def log_event_def assertR_eq_Inr Let_def backoff_inv_def)
  qed
qed

lemma connect_backoff_inv: "Connector_connect sock err c = Inr c' \<Longrightarrow> backoff_inv c \<Longrightarrow> backoff_inv c'"
  by (auto simp: Connector_connect_def createNonblockingSocketOrDie_def connecting_def assertR_eq_Inr Let_def
      split: if_splits elim!: retry_backoff_inv)

lemma startInLoop_backoff_inv: "startInLoop sock err c = Inr c' \<Longrightarrow> backoff_inv c \<Longrightarrow> backoff_inv c'"
  by (auto simp: startInLoop_def assertR_eq_Inr split: if_splits intro: connect_backoff_inv)

lemma remove_backoff_inv [simp]: "backoff_inv (snd (removeAndResetChannel c)) = backoff_inv c"
  by (simp add: removeAndResetChannel_def split: option.splits)

lemma attempt_backoff_inv: "attempt_failed f c = Inr c' \<Longrightarrow> backoff_inv c \<Longrightarrow> backoff_inv c'"
  by (auto simp: attempt_failed_def bindR_eq_Inr split: if_splits elim!: retry_backoff_inv)

lemma step_backoff_inv: "connector_step c c' \<Longrightarrow> backoff_inv c \<Longrightarrow> backoff_inv c'"
proof (induction rule: connector_step.induct)
  case (start sock c inLoop err c')
  then show ?case
    by (auto simp: Connector_start_def Let_def split: if_splits elim!: startInLoop_backoff_inv)
next
  case (stop c inLoop)
  then show ?case by (simp add: Connector_stop_def Let_def)
next
  case (run sock c err c')
  then show ?case
    by (auto simp: connector_run_def Let_def split: list.splits connector_task.splits elim!: startInLoop_backoff_inv)
next
  case (timer c sock err c')
  then show ?case by (auto simp: timer_fires_def elim!: startInLoop_backoff_inv)
next
  case (write_event c soError self c')
  then show ?case
    by (auto simp: Connector_handleWrite_def removeAndResetChannel_def assertR_eq_Inr Let_def
        split: if_splits option.splits elim!: attempt_backoff_inv)
next
  case (error_event c c')
  then show ?case
    by (auto simp: Connector_handleError_def removeAndResetChannel_def bindR_eq_Inr Let_def
        split: if_splits option.splits elim!: retry_backoff_inv)
qed simp

lemma new_backoff_inv: "backoff_inv (Connector_new retry)"
  unfolding backoff_inv_def by (rule conjI, simp add: Connector_new_def)
    (rule exI [of _ 0], simp add: Connector_new_def backoff_def)

lemma reach_backoff_inv: "connector_reach retry c \<Longrightarrow> backoff_inv c"
  by (induction rule: connector_reach.induct) (auto intro: step_backoff_inv new_backoff_inv)

text \<open>
  C39: In every run of a connector the delays before its retries are 500, 1000, 2000, ... milliseconds, doubling up to
  30 seconds and staying there; stopping, restarting and successful attempts in between do not reset the sequence.
\<close>

theorem retry_backoff:
  assumes "connector_reach retry c"
  shows "\<exists>n. delays (cr_log c) = map (\<lambda>k. min (500 * 2 ^ k) 30000) [0..<n]"
  using reach_backoff_inv [OF assms] unfolding backoff_inv_def backoff_def [abs_def] by blast

theorem retry_backoff_witness:
  "connector_reach True (retried 7) \<and> delays (cr_log (retried 7)) = [500] \<and>
   (\<exists>n. delays (cr_log (retried 7)) = map (\<lambda>k. min (500 * 2 ^ k) 30000) [0..<n])"
  using retry_backoff [OF retried_reach [of 7]] retried_reach [of 7] by (simp add: retried_def)

end
