(* ===== verification/TcpClient.thy ===== *)
theory TcpClient
  imports Connector TcpConnection
begin

text \<open>
  The TCP client (\<^verbatim>\<open>cooper/net/TcpClient.*\<close>): a connector and the connection it has made. Connections have a
  number (\<open>tc_conns\<close> holds all that are not destroyed, \<open>tc_connection\<close> is the pointer the client keeps). The callbacks that the client
  registers with its connector and with its connection are run here on what the two have added to their log: the new
  connection and the connection error for the connector, the close callback for the connection. The kernel's answers, the
  clock, OpenSSL and its new object are arguments.
\<close>

datatype client_event = ClientErrorCb | ClientSslErrorCb ssl_error

record 'e client =
  tc_connector :: connector
  tc_retry :: bool
  tc_connect :: bool
  tc_connectionErrorCallback :: bool
  tc_writeCompleteCallback :: bool
  tc_sslErrorCallback :: bool
  tc_connection :: "nat option"
  tc_conns :: "nat \<rightharpoonup> 'e conn"
  tc_next :: nat
  tc_tlsPolicy :: "tls_policy option"
  tc_sslContext :: "ssl_call list option"
  tc_destroying :: "nat list"
  tc_destroyed :: "'e conn list"
  tc_events :: "client_event list"

definition TcpClient_new :: "'e client" where
  "TcpClient_new =
     \<lparr>tc_connector = Connector_new False, tc_retry = False, tc_connect = True, tc_connectionErrorCallback = False,
      tc_writeCompleteCallback = False, tc_sslErrorCallback = False, tc_connection = None, tc_conns = Map.empty, tc_next = 0,
      tc_tlsPolicy = None, tc_sslContext = None, tc_destroying = [], tc_destroyed = [], tc_events = []\<rparr>"

definition enableRetry :: "'e client \<Rightarrow> 'e client" where
  "enableRetry cl = cl\<lparr>tc_retry := True\<rparr>"

section \<open>TLS\<close>

text \<open>An error of \<^verbatim>\<open>newSSLContext\<close> is an exception.\<close>

definition client_enableSSL_policy :: "(ssl_call \<Rightarrow> bool) \<Rightarrow> tls_policy \<Rightarrow> 'e client \<Rightarrow> string + 'e client" where
  "client_enableSSL_policy ans policy cl =
     (case newSSLContext ans policy False of
        Inl e \<Rightarrow> Inl e
      | Inr ctx \<Rightarrow> Inr (cl\<lparr>tc_tlsPolicy := Some policy, tc_sslContext := Some ctx\<rparr>))"

definition client_enableSSL ::
    "(ssl_call \<Rightarrow> bool) \<Rightarrow> bool \<Rightarrow> bool \<Rightarrow> string \<Rightarrow> (string \<times> string) list \<Rightarrow> string \<Rightarrow> string \<Rightarrow> string \<Rightarrow>
     'e client \<Rightarrow> string + 'e client" where
  "client_enableSSL ans useOldTLS validateCert hostname sslConfCmds certPath keyPath caPath cl =
     client_enableSSL_policy ans
       (setCaPath caPath (setHostname (map lower hostname) (setKeyPath keyPath (setCertPath certPath
         (setConfCmds sslConfCmds (setUseOldTLS useOldTLS (setValidate validateCert (defaultClientPolicy []))))))))
       cl"

section \<open>Connections\<close>

definition client_newConnection ::
    "'e ssl_engine \<Rightarrow> 'e \<Rightarrow> sys_write list \<Rightarrow> int \<Rightarrow> 'e client \<Rightarrow> 'e client result" where
  "client_newConnection E ssl answers clock cl =
     bindR (case tc_tlsPolicy cl of
              None \<Rightarrow> TcpConnection_new None answers clock
            | Some policy \<Rightarrow>
                assertR (tc_sslContext cl \<noteq> None)
                  (bindR (OpenSSLProvider_new policy False ssl) (\<lambda>t. TcpConnection_new (Some t) answers clock)))
       (\<lambda>c. bindR (connectEstablished E True
                      (c\<lparr>cn_writeCompleteCallback := tc_writeCompleteCallback cl, cn_sslErrorCallback := True\<rparr>))
              (\<lambda>c. Inr (cl\<lparr>tc_connection := Some (tc_next cl), tc_conns := (tc_conns cl)(tc_next cl \<mapsto> c),
                             tc_next := Suc (tc_next cl)\<rparr>)))"

definition removeConnection :: "nat \<Rightarrow> 'e client \<Rightarrow> 'e client result" where
  "removeConnection i cl =
     assertR (tc_connection cl = Some i)
       (let cl = cl\<lparr>tc_connection := None, tc_destroying := tc_destroying cl @ [i]\<rparr>
        in Inr (if tc_retry cl \<and> tc_connect cl
                then cl\<lparr>tc_connector := Connector_restart (tc_connector cl)\<rparr> else cl))"

text \<open>The queued \<^verbatim>\<open>connectDestroyed\<close> of a connection; it holds the last reference. \<open>tc_destroyed\<close> records the final states.\<close>

definition client_destroyed :: "'e client \<Rightarrow> 'e client" where
  "client_destroyed cl =
     (case tc_destroying cl of
        [] \<Rightarrow> cl
      | i # is \<Rightarrow>
          (case tc_conns cl i of
             None \<Rightarrow> cl\<lparr>tc_destroying := is\<rparr>
           | Some c \<Rightarrow> cl\<lparr>tc_destroying := is, tc_conns := (tc_conns cl)(i := None),
                           tc_destroyed := tc_destroyed cl @ [connectDestroyed c]\<rparr>))"

text \<open>The callbacks of the client for the events its connector has added to its log.\<close>

fun connector_callbacks ::
    "'e ssl_engine \<Rightarrow> 'e \<Rightarrow> sys_write list \<Rightarrow> int \<Rightarrow> connector_event list \<Rightarrow> 'e client \<Rightarrow> 'e client result" where
  "connector_callbacks E ssl answers clock [] cl = Inr cl"
| "connector_callbacks E ssl answers clock (ev # evs) cl =
     bindR (case ev of
              NewConnectionCb sockfd \<Rightarrow> client_newConnection E ssl answers clock cl
            | ConnectErrorCb \<Rightarrow>
                Inr (if tc_connectionErrorCallback cl then cl\<lparr>tc_events := tc_events cl @ [ClientErrorCb]\<rparr> else cl)
            | _ \<Rightarrow> Inr cl)
       (connector_callbacks E ssl answers clock evs)"

text \<open>An operation of the connector followed by the callbacks it causes.\<close>

definition on_connector ::
    "'e ssl_engine \<Rightarrow> 'e \<Rightarrow> sys_write list \<Rightarrow> int \<Rightarrow> (connector \<Rightarrow> connector result) \<Rightarrow> 'e client \<Rightarrow> 'e client result" where
  "on_connector E ssl answers clock f cl =
     bindR (f (tc_connector cl)) (\<lambda>cr.
       connector_callbacks E ssl answers clock (drop (length (cr_log (tc_connector cl))) (cr_log cr))
         (cl\<lparr>tc_connector := cr\<rparr>))"

text \<open>The callbacks of the client for the events its connection has added, and an operation of the connection.\<close>

fun connection_callbacks :: "nat \<Rightarrow> conn_event list \<Rightarrow> 'e client \<Rightarrow> 'e client result" where
  "connection_callbacks i [] cl = Inr cl"
| "connection_callbacks i (ev # evs) cl =
     bindR (case ev of
              CloseCb \<Rightarrow> removeConnection i cl
            | SslErrorCb err \<Rightarrow>
                Inr (if tc_sslErrorCallback cl then cl\<lparr>tc_events := tc_events cl @ [ClientSslErrorCb err]\<rparr> else cl)
            | _ \<Rightarrow> Inr cl)
       (connection_callbacks i evs)"

definition on_connection :: "nat \<Rightarrow> ('e conn \<Rightarrow> 'e conn result) \<Rightarrow> 'e client \<Rightarrow> 'e client result" where
  "on_connection i f cl =
     (case tc_conns cl i of
        None \<Rightarrow> Inl NullCall
      | Some c \<Rightarrow> bindR (f c) (\<lambda>c'.
          connection_callbacks i (drop (length (cn_events c)) (cn_events c')) (cl\<lparr>tc_conns := (tc_conns cl)(i \<mapsto> c')\<rparr>)))"

section \<open>The interface\<close>

definition client_connect ::
    "'e ssl_engine \<Rightarrow> 'e \<Rightarrow> sys_write list \<Rightarrow> int \<Rightarrow> bool \<Rightarrow> int \<Rightarrow> int \<Rightarrow> 'e client \<Rightarrow> 'e client result" where
  "client_connect E ssl answers clock inLoop sock err cl =
     on_connector E ssl answers clock (Connector_start inLoop sock err)
       (cl\<lparr>tc_connector := (tc_connector cl)\<lparr>cr_newConnectionCallback := True, cr_errorCallback := True\<rparr>,
           tc_connect := True\<rparr>)"

definition client_disconnect :: "'e ssl_engine \<Rightarrow> bool \<Rightarrow> 'e client \<Rightarrow> 'e client result" where
  "client_disconnect E inLoop cl = (let cl = cl\<lparr>tc_connect := False\<rparr>
      in case tc_connection cl of None \<Rightarrow> Inr cl | Some i \<Rightarrow> on_connection i (shutdown E inLoop) cl)"

definition client_stop :: "bool \<Rightarrow> 'e client \<Rightarrow> 'e client" where
  "client_stop inLoop cl = cl\<lparr>tc_connect := False, tc_connector := Connector_stop inLoop (tc_connector cl)\<rparr>"

definition client_setSockOptCallback :: "'e client \<Rightarrow> 'e client" where
  "client_setSockOptCallback cl = cl\<lparr>tc_connector := (tc_connector cl)\<lparr>cr_sockOptCallback := True\<rparr>\<rparr>"

text \<open>The destructor: the close callback of the connection is replaced by one that only destroys it.\<close>

definition TcpClient_delete :: "bool \<Rightarrow> 'e client \<Rightarrow> 'e client" where
  "TcpClient_delete inLoop cl =
     (case tc_connection cl of
        None \<Rightarrow> cl\<lparr>tc_connector := Connector_stop inLoop (tc_connector cl)\<rparr>
      | Some i \<Rightarrow> cl\<lparr>tc_conns := (tc_conns cl)(i := map_option (forceClose inLoop) (tc_conns cl i))\<rparr>)"

section \<open>After the connection is lost\<close>

lemma connected_client_connect:
  assumes "cr_status (tc_connector cl) = ConnectorConnected"
  shows "client_connect E ssl answers clock True sock err cl = Inl AssertFail"
  using assms by (simp add: client_connect_def on_connector_def Connector_start_def startInLoop_def Let_def)

lemma peer_closed:
  assumes "wf_buf (cn_readBuffer c)" "cn_status c = Connected" "cn_connectionCallback c" "cn_closeCallback c"
  shows "\<exists>c'. readCallback fuel E (ReadData []) c = Inr c' \<and> cn_status c' = Disconnected \<and>
    (\<exists>evs. cn_events c' = cn_events c @ [ConnectionCb Disconnected, CloseCb] @ evs \<and> CloseCb \<notin> set evs \<and>
       (\<forall>err. SslErrorCb err \<notin> set evs))"
proof -
  obtain b where "readFd (cn_readBuffer c) (ReadData []) = Inr (0, None, b)"
    using assms(1) by (auto simp: readFd_def mem_write_def wf_buf_def Let_def)
  then show ?thesis
    using assms by (auto simp: readCallback_def handleClose_def io_disableAll_def emit_def extendLife_def Let_def)
qed

lemma quiet_callbacks:
  "CloseCb \<notin> set evs \<Longrightarrow> \<forall>err. SslErrorCb err \<notin> set evs \<Longrightarrow> connection_callbacks i evs cl = Inr cl"
  by (induction evs arbitrary: cl) (auto split: conn_event.splits)

text \<open>
  When the server closes the connection of a client, the client forgets the connection and its connector stays
  exactly as it was, even with \<^verbatim>\<open>enableRetry\<close> (which documents that the client re-connects): nothing is queued, no timer
  is set. And since the connector still believes it is connected, calling \<^verbatim>\<open>connect\<close> again fails an assertion.
\<close>

theorem client_does_not_reconnect:
  assumes "tc_connection cl = Some i" "tc_conns cl i = Some c" "wf_buf (cn_readBuffer c)" "cn_status c = Connected"
    "cn_connectionCallback c" "cn_closeCallback c" "cr_status (tc_connector cl) = ConnectorConnected"
  shows "\<exists>cl'. on_connection i (readCallback fuel E (ReadData [])) cl = Inr cl' \<and> tc_connection cl' = None \<and>
    tc_destroying cl' = tc_destroying cl @ [i] \<and> tc_connector cl' = tc_connector cl \<and>
    client_connect E ssl answers clock True sock err cl' = Inl AssertFail"
proof -
  obtain c' evs where c': "readCallback fuel E (ReadData []) c = Inr c'"
      "cn_events c' = cn_events c @ [ConnectionCb Disconnected, CloseCb] @ evs" "CloseCb \<notin> set evs"
      "\<forall>err. SslErrorCb err \<notin> set evs"
    using peer_closed [OF assms(3-6)] by blast
  let ?cl = "cl\<lparr>tc_conns := (tc_conns cl)(i \<mapsto> c'), tc_connection := None, tc_destroying := tc_destroying cl @ [i]\<rparr>"
  have "on_connection i (readCallback fuel E (ReadData [])) cl = Inr ?cl"
    using assms(1,2) c' by (simp add: quiet_callbacks [OF c'(3,4)] on_connection_def removeConnection_def Connector_restart_def Let_def)
  moreover have "client_connect E ssl answers clock True sock err ?cl = Inl AssertFail"
    by (rule connected_client_connect) (simp add: assms(7))
  ultimately show ?thesis by (intro exI [of _ ?cl]) simp
qed

text \<open>
  \<^verbatim>\<open>stop\<close> puts the connector back to its initial status while the connection lives on, so that a following \<^verbatim>\<open>connect\<close>
  replaces the pointer; when the first connection closes, \<^verbatim>\<open>removeConnection\<close> fails its assertion.
\<close>

lemma replaced_connection_asserts:
  assumes "tc_connection cl = Some j" "j \<noteq> i" "tc_conns cl i = Some c" "wf_buf (cn_readBuffer c)"
    "cn_status c = Connected" "cn_connectionCallback c" "cn_closeCallback c"
  shows "on_connection i (readCallback fuel E (ReadData [])) cl = Inl AssertFail"
proof -
  obtain c' evs where "readCallback fuel E (ReadData []) c = Inr c'"
      "cn_events c' = cn_events c @ [ConnectionCb Disconnected, CloseCb] @ evs"
    using peer_closed [OF assms(4-7)] by blast
  with assms(1-3) show ?thesis by (simp add: on_connection_def removeConnection_def)
qed

lemma stop_allows_second_connection:
  assumes "cr_status (tc_connector cl) = ConnectorConnected" "cr_channel (tc_connector cl) = None" "sock \<ge> 0"
  shows "\<exists>cl'. client_connect E ssl answers clock True sock EINPROGRESS (client_stop True cl) = Inr cl' \<and>
    tc_connection cl' = tc_connection cl \<and> cr_channel (tc_connector cl') = Some sock"
  using assms by (auto simp: client_connect_def client_stop_def on_connector_def connector_defs Let_def)

text \<open>A client whose attempt succeeds: \<^verbatim>\<open>connect\<close>, then the write event of the connector.\<close>

definition example_run :: "'e ssl_engine \<Rightarrow> 'e \<Rightarrow> 'e client result" where
  "example_run E ssl =
     bindR (client_connect E ssl [] 0 True 7 EINPROGRESS (enableRetry TcpClient_new))
       (on_connector E ssl [] 0 (Connector_handleWrite 0 False))"

lemma example_run_connected:
  "\<exists>cl c. example_run E ssl = Inr cl \<and> tc_connection cl = Some 0 \<and> tc_conns cl 0 = Some c \<and> wf_buf (cn_readBuffer c) \<and>
    cn_status c = Connected \<and> cn_connectionCallback c \<and> cn_closeCallback c \<and>
    cr_status (tc_connector cl) = ConnectorConnected"
proof -
  obtain b where b: "MsgBuffer_new kBufferDefaultLength = Inr b"
    using MsgBuffer_new_Inr [of kBufferDefaultLength] by simp
  have "wf_buf b" by (rule MsgBuffer_new_wf [OF b]) simp_all
  with b show ?thesis
    by (simp add: example_run_def client_connect_def on_connector_def connector_defs TcpClient_new_def enableRetry_def
        Connector_new_def client_newConnection_def TcpConnection_new_def connectEstablished_def established_inLoop_def
        emit_def Let_def)
qed

theorem client_does_not_reconnect_witness:
  "\<exists>cl cl'. example_run null_engine () = Inr cl \<and> on_connection 0 (readCallback 1 null_engine (ReadData [])) cl = Inr cl' \<and>
    tc_connection cl' = None \<and> client_connect null_engine () [] 0 True 8 0 cl' = Inl AssertFail"
proof -
  obtain cl c where 1: "example_run null_engine () = Inr cl" "tc_connection cl = Some 0" "tc_conns cl 0 = Some c"
    "wf_buf (cn_readBuffer c)" "cn_status c = Connected" "cn_connectionCallback c" "cn_closeCallback c"
    "cr_status (tc_connector cl) = ConnectorConnected"
    using example_run_connected [of null_engine "()"] by blast
  from client_does_not_reconnect [OF 1(2-8), of 1 null_engine "()" "[]" 0 8 0] 1(1) show ?thesis by blast
qed

end
