(* ===== verification/AppServer.thy ===== *)
theory AppServer
  imports TimingWheel TcpConnection
begin

text \<open>
  The application server (\<^verbatim>\<open>cooper/net/AppTcpServer.*\<close>): packets with a length in front, handlers by type, and the
  ping-pong that closes connections whose peer does not answer. The model has one I/O loop with its timing wheel
  and the connections of that loop, which are numbers with a status. The entries of the wheel are objects with
  destructors; the wheel holds the only counted reference, the two maps of the server hold weak ones. JSON
  is a library outside the repository: parsing a text and reading the type of a value are arguments, \<open>None\<close>
  stands for an exception.
\<close>

section \<open>State\<close>

datatype app_obj = PingPongEntry "nat option" | KickoffEntry "nat option"

datatype 'j app_event =
    Ticked
  | SentPing nat
  | GotPong nat
  | ForceClosed nat
  | ConnectionCallback nat
  | BusinessCall nat 'j
  | MediaCall nat "byte list" nat
  | NoHandler nat

abbreviation PING_TYPE :: nat where "PING_TYPE \<equiv> 100"
abbreviation PONG_TYPE :: nat where "PONG_TYPE \<equiv> 200"
abbreviation BUSINESS_MODE :: nat where "BUSINESS_MODE \<equiv> 1"
abbreviation MEDIA_MODE :: nat where "MEDIA_MODE \<equiv> 2"

record 'j app =
  ap_mode :: nat
  ap_pingPong :: bool
  ap_interval :: nat
  ap_timeout :: nat
  ap_businessHandlers :: "nat list"
  ap_mediaHandlers :: "nat list"
  ap_hasConnectionCallback :: bool
  ap_wheel :: "nat wheel option"
  ap_heap :: "nat \<rightharpoonup> app_obj"
  ap_next :: nat
  ap_pingPongEntries :: "nat \<rightharpoonup> nat"
  ap_kickoffEntries :: "nat \<rightharpoonup> nat"
  ap_status :: "nat \<Rightarrow> conn_status"
  ap_log :: "'j app_event list"

definition app_log :: "'j app_event \<Rightarrow> 'j app \<Rightarrow> 'j app" where
  "app_log e a = a\<lparr>ap_log := ap_log a @ [e]\<rparr>"

definition AppTcpServer_new :: "bool \<Rightarrow> nat \<Rightarrow> nat \<Rightarrow> 'j app" where
  "AppTcpServer_new pingPong pingPongInterval pingPongTimeout =
     \<lparr>ap_mode = BUSINESS_MODE, ap_pingPong = pingPong, ap_interval = pingPongInterval, ap_timeout = pingPongTimeout,
      ap_businessHandlers = [], ap_mediaHandlers = [], ap_hasConnectionCallback = False, ap_wheel = None,
      ap_heap = Map.empty, ap_next = 0, ap_pingPongEntries = Map.empty, ap_kickoffEntries = Map.empty,
      ap_status = (\<lambda>_. Connecting), ap_log = []\<rparr>"

definition setMode :: "nat \<Rightarrow> 'j app \<Rightarrow> 'j app result" where
  "setMode mode a = assertR (mode = BUSINESS_MODE \<or> mode = MEDIA_MODE) (Inr (a\<lparr>ap_mode := mode\<rparr>))"

definition registerBusinessHandler :: "nat \<Rightarrow> 'j app \<Rightarrow> 'j app result" where
  "registerBusinessHandler type a =
     assertR (ap_mode a = BUSINESS_MODE) (Inr (a\<lparr>ap_businessHandlers := List.insert type (ap_businessHandlers a)\<rparr>))"

definition registerMediaHandler :: "nat \<Rightarrow> 'j app \<Rightarrow> 'j app result" where
  "registerMediaHandler type a =
     assertR (ap_mode a = MEDIA_MODE) (Inr (a\<lparr>ap_mediaHandlers := List.insert type (ap_mediaHandlers a)\<rparr>))"

definition app_setConnectionCallback :: "'j app \<Rightarrow> 'j app" where
  "app_setConnectionCallback a = a\<lparr>ap_hasConnectionCallback := True\<rparr>"

text \<open>\<^verbatim>\<open>start\<close>, for the wheel of the loop; \<open>None\<close> when the constructor of the wheel does not end.\<close>

definition app_start :: "'j app \<Rightarrow> 'j app result option" where
  "app_start a =
     (if ap_pingPong a
      then map_option (\<lambda>r. bindR r (\<lambda>w. Inr (a\<lparr>ap_wheel := Some w\<rparr>)))
             (TimingWheel_new (ap_interval a) (if ap_interval a < 500 then ap_interval a + 1 else 100))
      else Some (Inr a))"

section \<open>The ping-pong\<close>

text \<open>A new object, inserted into the wheel. \<^verbatim>\<open>insertEntry\<close> ignores a delay of 0.\<close>

definition new_entry :: "app_obj \<Rightarrow> nat \<Rightarrow> 'j app \<Rightarrow> (nat \<times> 'j app) result" where
  "new_entry obj delay a =
     (case ap_wheel a of
        None \<Rightarrow> Inl NullCall
      | Some w \<Rightarrow> bindR (insertEntry delay (Some (User (ap_next a))) w) (\<lambda>w.
          Inr (ap_next a, a\<lparr>ap_wheel := Some w, ap_heap := (ap_heap a)(ap_next a \<mapsto> obj), ap_next := Suc (ap_next a)\<rparr>)))"

fun reset_obj :: "app_obj \<Rightarrow> app_obj" where
  "reset_obj (PingPongEntry c) = PingPongEntry None"
| "reset_obj (KickoffEntry c) = KickoffEntry None"

text \<open>\<^verbatim>\<open>lock()\<close> of a weak pointer and \<^verbatim>\<open>reset()\<close> of the object if it is alive.\<close>

definition reset_entry :: "nat \<Rightarrow> 'j app \<Rightarrow> 'j app" where
  "reset_entry k a = a\<lparr>ap_heap := (ap_heap a)(k := map_option reset_obj (ap_heap a k))\<rparr>"

definition resetKickoffEntry :: "nat \<Rightarrow> 'j app \<Rightarrow> 'j app" where
  "resetKickoffEntry c a =
     (case ap_kickoffEntries a c of
        None \<Rightarrow> a
      | Some k \<Rightarrow> (reset_entry k a)\<lparr>ap_kickoffEntries := (ap_kickoffEntries a)(c := None)\<rparr>)"

definition resetPingPongEntry :: "nat \<Rightarrow> 'j app \<Rightarrow> 'j app" where
  "resetPingPongEntry c a =
     (case ap_pingPongEntries a c of
        None \<Rightarrow> a
      | Some k \<Rightarrow> (reset_entry k a)\<lparr>ap_pingPongEntries := (ap_pingPongEntries a)(c := None)\<rparr>)"

text \<open>The connection callback that \<^verbatim>\<open>start\<close> registers with the server.\<close>

definition app_connectionCallback :: "nat \<Rightarrow> 'j app \<Rightarrow> 'j app result" where
  "app_connectionCallback c a =
     bindR (if ap_status a c = Connected
            then (if ap_pingPong a
                  then bindR (new_entry (PingPongEntry (Some c)) (ap_interval a) a) (\<lambda>(k, a).
                         Inr (a\<lparr>ap_pingPongEntries := (ap_pingPongEntries a)(c \<mapsto> k)\<rparr>))
                  else Inr a)
            else if ap_status a c = Disconnected \<and> ap_pingPong a
            then Inr (resetKickoffEntry c (resetPingPongEntry c a))
            else Inr a)
       (\<lambda>a. Inr (if ap_hasConnectionCallback a then app_log (ConnectionCallback c) a else a))"

definition app_connected :: "nat \<Rightarrow> 'j app \<Rightarrow> 'j app result" where
  "app_connected c a = app_connectionCallback c (a\<lparr>ap_status := (ap_status a)(c := Connected)\<rparr>)"

definition app_disconnected :: "nat \<Rightarrow> 'j app \<Rightarrow> 'j app result" where
  "app_disconnected c a = app_connectionCallback c (a\<lparr>ap_status := (ap_status a)(c := Disconnected)\<rparr>)"

definition app_forceClose :: "nat \<Rightarrow> 'j app \<Rightarrow> 'j app result" where
  "app_forceClose c a =
     (if ap_status a c = Connected \<or> ap_status a c = Disconnecting
      then app_disconnected c (app_log (ForceClosed c) a) else Inr a)"

text \<open>
  The destructors. \<^verbatim>\<open>~PingPongEntry\<close> finds no wheel when the wheel itself is being destroyed. The new entry for
  kicking off that a timeout of 0 leaves out of the wheel is destroyed on return.
\<close>

definition ping :: "nat \<Rightarrow> 'j app \<Rightarrow> 'j app result" where
  "ping c a =
     bindR (new_entry (KickoffEntry (Some c)) (ap_timeout a) (app_log (SentPing c) a)) (\<lambda>(k, a).
     bindR (new_entry (PingPongEntry (Some c)) (ap_interval a) (a\<lparr>ap_kickoffEntries := (ap_kickoffEntries a)(c \<mapsto> k)\<rparr>)) (\<lambda>(p, a).
     let a = a\<lparr>ap_pingPongEntries := (ap_pingPongEntries a)(c \<mapsto> p)\<rparr> in
     if ap_timeout a = 0 then app_forceClose c (a\<lparr>ap_heap := (ap_heap a)(k := None)\<rparr>) else Inr a))"

definition destroy_entry :: "nat \<Rightarrow> 'j app \<Rightarrow> 'j app result" where
  "destroy_entry k a =
     (let obj = ap_heap a k; a = a\<lparr>ap_heap := (ap_heap a)(k := None)\<rparr> in
      case obj of
        None \<Rightarrow> Inl OutOfBounds
      | Some (PingPongEntry None) \<Rightarrow> Inr a
      | Some (PingPongEntry (Some c)) \<Rightarrow> (if ap_wheel a \<noteq> None \<and> ap_status a c = Connected then ping c a else Inr a)
      | Some (KickoffEntry None) \<Rightarrow> Inr a
      | Some (KickoffEntry (Some c)) \<Rightarrow> app_forceClose c a)"

text \<open>A tick of the wheel with the destructors of the dropped entries, which insert into the wheel again.\<close>

fun app_release :: "'j app \<Rightarrow> nat entry \<Rightarrow> 'j app result" where
  "app_release a (User k) = destroy_entry k a"
| "app_release a (CallbackEntry x delay i t e) =
     (case ap_wheel a of
        None \<Rightarrow> Inl NullCall
      | Some w \<Rightarrow> bindR (release (w, []) (CallbackEntry x delay i t e)) (\<lambda>(w, d). Inr (a\<lparr>ap_wheel := Some w\<rparr>)))"

definition app_tick_wheel :: "'j app \<Rightarrow> nat \<Rightarrow> 'j app result" where
  "app_tick_wheel a i =
     (case ap_wheel a of
        None \<Rightarrow> Inl NullCall
      | Some w \<Rightarrow>
          (let pow = tw_buckets w ^ i in
           if tw_ticks w mod pow = 0
           then (if i < length (tw_wheels w) \<and> tw_wheels w ! i \<noteq> []
                 then foldR app_release
                        (a\<lparr>ap_wheel := Some (w\<lparr>tw_wheels := (tw_wheels w)[i := tl (tw_wheels w ! i) @ [[]]]\<rparr>)\<rparr>)
                        (hd (tw_wheels w ! i))
                 else Inl OutOfBounds)
           else Inr a))"

definition app_tick :: "'j app \<Rightarrow> 'j app result" where
  "app_tick a =
     (case ap_wheel a of
        None \<Rightarrow> Inr a
      | Some w \<Rightarrow> foldR app_tick_wheel
          (app_log Ticked (a\<lparr>ap_wheel := Some (w\<lparr>tw_ticks := Suc (tw_ticks w)\<rparr>)\<rparr>)) [0 ..< tw_wheelsNum w])"

definition app_stop :: "'j app \<Rightarrow> 'j app result" where
  "app_stop a =
     (case ap_wheel a of
        None \<Rightarrow> Inr a
      | Some w \<Rightarrow> bindR (TimingWheel_destroy w) (\<lambda>(w, dropped).
          foldR (\<lambda>a k. destroy_entry k a) (a\<lparr>ap_wheel := None\<rparr>) dropped))"

section \<open>Packets\<close>

text \<open>The length is read from the memory of the buffer, whatever is readable.\<close>

definition packet_size :: "msgbuf \<Rightarrow> nat result" where
  "packet_size b = bindR (mem_read (mb_buffer b) (mb_head b) 4) (\<lambda>d. Inr (le_val d))"

definition take_packet :: "msgbuf \<Rightarrow> (nat \<times> byte list \<times> msgbuf) option result" where
  "take_packet b =
     bindR (packet_size b) (\<lambda>packSize.
       if readableBytes b < packSize then Inr None
       else bindR (retrieve b 4) (\<lambda>b. bindR (read_bytes b packSize) (\<lambda>(str, b). Inr (Some (packSize, str, b)))))"

definition recvBusinessMsgCallback ::
    "(string \<Rightarrow> 'j option) \<Rightarrow> ('j \<Rightarrow> nat option) \<Rightarrow> nat \<Rightarrow> msgbuf \<Rightarrow> 'j app \<Rightarrow> (msgbuf \<times> 'j app) result" where
  "recvBusinessMsgCallback parse json_type c b a =
     bindR (take_packet b) (\<lambda>p.
       case p of
         None \<Rightarrow> Inr (b, a)
       | Some (packSize, str, b) \<Rightarrow>
           (case parse str of
              None \<Rightarrow> Inl InvalidArgument
            | Some j \<Rightarrow>
                (case json_type j of
                   None \<Rightarrow> Inl InvalidArgument
                 | Some type \<Rightarrow>
                     if type = PONG_TYPE \<and> ap_pingPong a then Inr (b, resetKickoffEntry c (app_log (GotPong c) a))
                     else if type \<in> set (ap_businessHandlers a) then Inr (b, app_log (BusinessCall c j) a)
                     else Inr (b, app_log (NoHandler type) a))))"

definition recvMediaMsgCallback :: "nat \<Rightarrow> msgbuf \<Rightarrow> 'j app \<Rightarrow> (msgbuf \<times> 'j app) result" where
  "recvMediaMsgCallback c b a =
     bindR (take_packet b) (\<lambda>p.
       case p of
         None \<Rightarrow> Inr (b, a)
       | Some (packSize, str, b) \<Rightarrow>
           bindR (mem_read (str @ [CHR 0x00]) 0 4) (\<lambda>d.
             let type = le_val d in
             if type = PONG_TYPE \<and> ap_pingPong a then Inr (b, resetKickoffEntry c (app_log (GotPong c) a))
             else if type \<in> set (ap_mediaHandlers a) then Inr (b, app_log (MediaCall c str packSize) a)
             else Inr (b, app_log (NoHandler type) a)))"

definition app_recvMsgCallback ::
    "(string \<Rightarrow> 'j option) \<Rightarrow> ('j \<Rightarrow> nat option) \<Rightarrow> nat \<Rightarrow> msgbuf \<Rightarrow> 'j app \<Rightarrow> (msgbuf \<times> 'j app) result" where
  "app_recvMsgCallback parse json_type c b a =
     (if ap_mode a = BUSINESS_MODE then recvBusinessMsgCallback parse json_type c b a
      else if ap_mode a = MEDIA_MODE then recvMediaMsgCallback c b a
      else Inr (b, a))"

section \<open>Packets go through whole, or not\<close>

lemma take_packet_ok:
  assumes "wf_buf b" "4 \<le> length (contents b)" "le_val (take 4 (contents b)) \<le> length (contents b)"
  obtains b' where "take_packet b = Inr (Some (le_val (take 4 (contents b)), take (le_val (take 4 (contents b))) (drop 4 (contents b)), b'))"
    "wf_buf b'" "contents b' = drop (4 + le_val (take 4 (contents b))) (contents b)"
proof -
  let ?n = "le_val (take 4 (contents b))"
  have "mem_read (mb_buffer b) (mb_head b) 4 = Inr (take 4 (contents b))"
    using assms(1,2) wf_bufD [OF assms(1)] by (simp add: mem_read_def contents_def)
  then have size: "packet_size b = Inr ?n" by (simp add: packet_size_def)
  obtain b1 where 1: "retrieve b 4 = Inr b1" "wf_buf b1" "contents b1 = drop 4 (contents b)"
    by (rule retrieve_ok [OF assms(1)]) blast
  obtain b2 where 2: "read_bytes b1 ?n = Inr (take ?n (contents b1), b2)" "wf_buf b2" "contents b2 = drop ?n (contents b1)"
    by (rule read_bytes_ok [OF 1(2)]) blast
  have "\<not> readableBytes b < ?n" using assms(3) readableBytes_contents [OF assms(1)] by simp
  with size 1 2 have "take_packet b = Inr (Some (?n, take ?n (drop 4 (contents b)), b2))"
    by (simp add: take_packet_def)
  with 1 2 show ?thesis by (intro that [of b2]) (simp_all add: add.commute)
qed

lemma packet_head: "length str < 4294967296 \<Longrightarrow> 4 \<le> n \<Longrightarrow> le_val (take 4 (take n (json_packet str))) = length str"
  using le_val_le_bytes [of "length str" 4] by (simp add: json_packet_def)

text \<open>
  A JSON text that one side sends with \<^verbatim>\<open>sendJson\<close> and that has arrived as a whole is given to the handler that is
  registered for its type, exactly once and complete, and the bytes behind it stay in the buffer.
\<close>

theorem business_packet_roundtrip:
  assumes "wf_buf b" "contents b = json_packet str @ rest" "length str < 4294967296" "ap_mode a = BUSINESS_MODE"
    "parse str = Some j" "json_type j = Some type" "type \<noteq> PONG_TYPE" "type \<in> set (ap_businessHandlers a)"
  shows "\<exists>b'. app_recvMsgCallback parse json_type c b a = Inr (b', app_log (BusinessCall c j) a) \<and> wf_buf b' \<and>
    contents b' = rest"
proof -
  have n: "le_val (take 4 (contents b)) = length str"
    using assms(2,3) le_val_le_bytes [of "length str" 4] by (simp add: json_packet_def)
  have len: "length (contents b) = 4 + length str + length rest" using assms(2) by (simp add: json_packet_def)
  obtain b' where "take_packet b = Inr (Some (length str, take (length str) (drop 4 (contents b)), b'))"
    "wf_buf b'" "contents b' = drop (4 + length str) (contents b)"
    by (rule take_packet_ok [OF assms(1)]) (use n len in auto)
  moreover have "take (length str) (drop 4 (contents b)) = str" "drop (4 + length str) (contents b) = rest"
    using assms(2) by (simp_all add: json_packet_def)
  ultimately show ?thesis
    using assms(4-8) by (simp add: app_recvMsgCallback_def recvBusinessMsgCallback_def)
qed

text \<open>
  C40: The check for a complete packet forgets the four bytes of the length: when all but the last one to four bytes of
  a packet have arrived, the callback takes the packet anyway. Parsing sees a text without its end, which for a
  JSON object is an exception in the loop thread, and what was there of the packet is gone from the buffer.
\<close>

theorem split_packet_throws:
  assumes "wf_buf b" "contents b = take n (json_packet str)" "4 \<le> n" "length str \<le> n" "n < 4 + length str"
    "length str < 4294967296" "ap_mode a = BUSINESS_MODE" "parse (take (n - 4) str) = None"
  shows "app_recvMsgCallback parse json_type c b a = Inl InvalidArgument"
proof -
  have len: "length (contents b) = n" using assms(2,5) by (simp add: json_packet_def)
  have hd: "le_val (take 4 (contents b)) = length str" using packet_head [OF assms(6,3)] assms(2) by simp
  obtain b' where "take_packet b = Inr (Some (length str, take (length str) (drop 4 (contents b)), b'))"
    by (rule take_packet_ok [OF assms(1)]) (use hd len assms(3,4) in auto)
  moreover have "take (length str) (drop 4 (contents b)) = take (n - 4) str"
    using assms(2-5) by (simp add: json_packet_def min_def)
  ultimately show ?thesis
    using assms(7,8) by (simp add: app_recvMsgCallback_def recvBusinessMsgCallback_def)
qed

text \<open>A buffer holding given bytes, and a JSON library that knows one text.\<close>

definition example_packet :: "byte list \<Rightarrow> msgbuf" where
  "example_packet d = \<lparr>mb_head = 8, mb_initCap = 2048, mb_buffer = replicate 8 (CHR 0x00) @ d @ replicate 2048 (CHR 0x00),
     mb_tail = 8 + length d\<rparr>"

definition example_parse :: "string \<Rightarrow> nat option" where
  "example_parse str = (if str = ''{7}'' then Some 7 else None)"

definition example_app :: "nat app" where
  "example_app = (AppTcpServer_new True 10 3)\<lparr>ap_businessHandlers := [7]\<rparr>"

lemma example_packet_ok: "length d \<le> 100 \<Longrightarrow> wf_buf (example_packet d)" "contents (example_packet d) = d"
  by (simp_all add: example_packet_def wf_buf_def contents_def)

theorem business_packet_roundtrip_witness:
  "\<exists>b'. app_recvMsgCallback example_parse Some 1 (example_packet (json_packet ''{7}'' @ ''xy'')) example_app =
     Inr (b', app_log (BusinessCall 1 7) example_app) \<and> wf_buf b' \<and> contents b' = ''xy''"
  by (rule business_packet_roundtrip [where str = "''{7}''" and type = 7])
    (simp_all add: example_packet_ok json_packet_def example_app_def AppTcpServer_new_def example_parse_def)

theorem split_packet_throws_witness:
  "app_recvMsgCallback example_parse Some 1 (example_packet (take 6 (json_packet ''{7}''))) example_app =
     Inl InvalidArgument"
  by (rule split_packet_throws [where str = "''{7}''" and n = 6])
    (simp_all add: example_packet_ok json_packet_def example_app_def AppTcpServer_new_def example_parse_def)

end
