(* ===== verification/PingPong.thy ===== *)
theory PingPong
  imports AppServer
begin

text \<open>
  The ping-pong of the application server over the timing wheel of its one I/O loop, for an interval below 500 seconds (the wheel
  then has one level) and a timeout of at least one second and below the interval. In every interleaving of connections, messages, closings and ticks a
  connection is kicked off only when its last ping was left unanswered for the whole timeout, and a
  connection whose peer is silent is closed within interval and timeout.
\<close>

section \<open>A wheel of one level\<close>

definition one_wheel :: "nat \<Rightarrow> nat wheel \<Rightarrow> bool" where
  "one_wheel I w \<longleftrightarrow> tw_wheelsNum w = 1 \<and> tw_buckets w = I + 1 \<and>
     (\<exists>bs. tw_wheels w = [bs] \<and> length bs = I + 1 \<and> (\<forall>b \<in> set bs. distinct b \<and> (\<forall>e \<in> set b. \<exists>k. e = User k)))"

text \<open>The entries with the number of ticks until they are dropped.\<close>

definition slots :: "nat wheel \<Rightarrow> (nat \<times> nat) set" where
  "slots w = {(k, Suc j) |k j. j < length (hd (tw_wheels w)) \<and> User k \<in> set (hd (tw_wheels w) ! j)}"

lemma one_wheelE:
  assumes "one_wheel I w"
  obtains bs where "tw_wheels w = [bs]" "length bs = I + 1" "tw_wheelsNum w = 1" "tw_buckets w = I + 1"
    "\<forall>b \<in> set bs. distinct b \<and> (\<forall>e \<in> set b. \<exists>k. e = User k)"
  using assms by (auto simp: one_wheel_def)

lemma one_wheel_new:
  assumes "1 < I" "I < 500"
  shows "\<exists>w. TimingWheel_new I (I + 1) = Some (Inr w) \<and> one_wheel I w \<and> slots w = {}"
proof -
  have "wheels_loop I (I + 1) (I + 1) 1 = Some 1"
    by (subst wheels_loop.simps) simp
  then have "TimingWheel_new I (I + 1) = Some (Inr \<lparr>tw_wheels = [replicate (I + 1) []], tw_ticks = 0, tw_wheelsNum = 1,
      tw_buckets = I + 1, tw_fresh = 0\<rparr>)"
    using assms by (simp add: TimingWheel_new_def)
  moreover have "slots \<lparr>tw_wheels = [replicate (I + 1) []], tw_ticks = 0, tw_wheelsNum = 1, tw_buckets = I + 1, tw_fresh = 0\<rparr> = {}"
    by (auto simp: slots_def simp del: replicate.simps)
  ultimately show ?thesis by (auto simp: one_wheel_def simp del: replicate.simps replicate_Suc)
qed

lemma insert_one:
  assumes "one_wheel I w" "0 < d" "d \<le> I" "I < 500"
  shows "\<exists>w'. insertEntry d (Some (User k)) w = Inr w' \<and> one_wheel I w' \<and> slots w' = insert (k, Suc d) (slots w)"
proof -
  obtain bs where bs: "tw_wheels w = [bs]" "length bs = I + 1" "tw_wheelsNum w = 1" "tw_buckets w = I + 1"
    "\<forall>b \<in> set bs. distinct b \<and> (\<forall>e \<in> set b. \<exists>k. e = User k)"
    using one_wheelE [OF assms(1)] by metis
  let ?bs = "bs[d := List.insert (User k) (bs ! d)]"
  let ?w = "w\<lparr>tw_wheels := [?bs]\<rparr>"
  have "insertEntry d (Some (User k)) w = Inr ?w"
    using assms bs by (simp add: insertEntry_def insertEntryInloop_def insert_loop.simps wheel_put_def)
  moreover have "one_wheel I ?w"
  proof -
    have "distinct b \<and> (\<forall>e \<in> set b. \<exists>k. e = User k)" if "b \<in> set ?bs" for b
    proof -
      have "b = List.insert (User k) (bs ! d) \<or> b \<in> set bs" "bs ! d \<in> set bs"
        using that set_update_subset_insert [of bs d] bs(2) assms(3) by auto
      then show ?thesis using bs(5) by (auto simp: distinct_insert)
    qed
    then show ?thesis using bs by (auto simp: one_wheel_def)
  qed
  moreover have "slots ?w = insert (k, Suc d) (slots w)"
    using bs(1,2) assms(3) by (auto simp: slots_def nth_list_update split: if_splits)
  ultimately show ?thesis by blast
qed

lemma app_log_wheel: "(app_log e a)\<lparr>ap_wheel := w\<rparr> = app_log e (a\<lparr>ap_wheel := w\<rparr>)"
  by (simp add: app_log_def)

lemma app_log_sel [simp]:
  "ap_wheel (app_log e a) = ap_wheel a" "ap_heap (app_log e a) = ap_heap a" "ap_next (app_log e a) = ap_next a"
  "ap_pingPongEntries (app_log e a) = ap_pingPongEntries a" "ap_kickoffEntries (app_log e a) = ap_kickoffEntries a"
  "ap_status (app_log e a) = ap_status a" "ap_interval (app_log e a) = ap_interval a"
  "ap_timeout (app_log e a) = ap_timeout a" "ap_pingPong (app_log e a) = ap_pingPong a" "ap_log (app_log e a) = ap_log a @ [e]"
  by (simp_all add: app_log_def)

text \<open>A tick takes the first bucket out; its entries are due now, the others one tick later.\<close>

lemma tick_one:
  assumes "ap_wheel a = Some w" "one_wheel I w"
  obtains ks w' where "app_tick a = foldR (\<lambda>a k. destroy_entry k a) (app_log Ticked (a\<lparr>ap_wheel := Some w'\<rparr>)) ks"
    "one_wheel I w'" "distinct ks"
    "slots w = (\<lambda>k. (k, 1)) ` set ks \<union> {(k, Suc n) |k n. (k, n) \<in> slots w'}"
proof -
  obtain bs where bs: "tw_wheels w = [bs]" "length bs = I + 1" "tw_wheelsNum w = 1" "tw_buckets w = I + 1"
    "\<forall>b \<in> set bs. distinct b \<and> (\<forall>e \<in> set b. \<exists>k. e = User k)"
    using one_wheelE [OF assms(2)] by metis
  then obtain b0 bs' where b0: "bs = b0 # bs'" by (cases bs) auto
  have "\<forall>e \<in> set b0. \<exists>k. e = User k" "distinct b0" using bs(5) b0 by auto
  moreover define ks where "ks = map (\<lambda>e. case e of User k \<Rightarrow> k | _ \<Rightarrow> 0) b0"
  ultimately have ks: "b0 = map User ks" by (auto simp: comp_def intro!: map_idI [symmetric] split: entry.splits)
  have dk: "distinct ks" using \<open>distinct b0\<close> ks by (simp add: distinct_map)
  define w' where "w' = w\<lparr>tw_ticks := Suc (tw_ticks w), tw_wheels := [bs' @ [[]]]\<rparr>"
  have fold: "foldR app_release s (map User ks) = foldR (\<lambda>a k. destroy_entry k a) s ks" for s :: "'a app"
    by (induction ks arbitrary: s) simp_all
  have one: "one_wheel I w'" using bs b0 by (auto simp: one_wheel_def w'_def)
  have "slots w = (\<lambda>k. (k, 1)) ` set ks \<union> {(k, Suc n) |k n. (k, n) \<in> slots w'}"
  proof -
    have "(k, Suc j) \<in> slots w \<longleftrightarrow> (j = 0 \<and> k \<in> set ks) \<or> (\<exists>i. j = Suc i \<and> (k, Suc i) \<in> slots w')" for k j
      using bs(1) b0 ks by (cases j) (auto simp: slots_def w'_def nth_append less_Suc_eq)
    then show ?thesis by (auto simp: slots_def)
  qed
  moreover have "app_tick a = foldR (\<lambda>a k. destroy_entry k a) (app_log Ticked (a\<lparr>ap_wheel := Some w'\<rparr>)) ks"
    using assms(1) bs(1,3) b0 ks
    by (simp add: app_tick_def app_tick_wheel_def app_log_wheel w'_def fold)
  ultimately show ?thesis using that one dk by blast
qed

section \<open>The invariant\<close>

text \<open>
  The last ping of a connection has been waiting for an answer for \<open>n\<close> ticks. \<open>R\<close> has the objects that are alive, with
  the number of ticks until they are dropped: 0 while the bucket they were in is being destroyed.
\<close>

definition waiting :: "nat \<Rightarrow> nat \<Rightarrow> 'j app_event list \<Rightarrow> bool" where
  "waiting n c log \<longleftrightarrow> (\<exists>A B. log = A @ [SentPing c] @ B \<and> GotPong c \<notin> set B \<and> length (filter (\<lambda>e. e = Ticked) B) = n)"

definition live_ok :: "(nat \<times> nat) set \<Rightarrow> 'j app \<Rightarrow> bool" where
  "live_ok R a \<longleftrightarrow> (\<forall>k n n'. (k, n) \<in> R \<longrightarrow> (k, n') \<in> R \<longrightarrow> n = n') \<and> fst ` R = dom (ap_heap a) \<and>
     (\<forall>k \<in> dom (ap_heap a). k < ap_next a) \<and> (\<forall>k n. (k, n) \<in> R \<longrightarrow> n \<le> ap_interval a + 1)"

definition kick_ok :: "(nat \<times> nat) set \<Rightarrow> 'j app \<Rightarrow> bool" where
  "kick_ok R a \<longleftrightarrow> (\<forall>k n c. (k, n) \<in> R \<longrightarrow> ap_heap a k = Some (KickoffEntry (Some c)) \<longrightarrow>
     ap_kickoffEntries a c = Some k \<and> n \<le> ap_timeout a + 1 \<and> waiting (ap_timeout a + 1 - n) c (ap_log a))"

definition ping_ok :: "'j app \<Rightarrow> bool" where
  "ping_ok a \<longleftrightarrow> (\<forall>k c. ap_heap a k = Some (PingPongEntry (Some c)) \<longrightarrow> ap_pingPongEntries a c = Some k)"

definition alive_ok :: "nat set \<Rightarrow> 'j app \<Rightarrow> bool" where
  "alive_ok X a \<longleftrightarrow> (\<forall>c. ap_status a c = Connected \<longrightarrow> c \<notin> X \<longrightarrow> (\<exists>k. ap_heap a k = Some (PingPongEntry (Some c))))"

definition gap_ok :: "(nat \<times> nat) set \<Rightarrow> 'j app \<Rightarrow> bool" where
  "gap_ok R a \<longleftrightarrow> (\<forall>k n k' n' c. (k, n) \<in> R \<longrightarrow> ap_heap a k = Some (PingPongEntry (Some c)) \<longrightarrow> (k', n') \<in> R \<longrightarrow>
     ap_heap a k' = Some (KickoffEntry (Some c)) \<longrightarrow> n' + (ap_interval a - ap_timeout a) = n)"

definition fresh_ok :: "'j app \<Rightarrow> bool" where
  "fresh_ok a \<longleftrightarrow> (\<forall>c k. ap_status a c = Connecting \<longrightarrow>
     ap_heap a k \<noteq> Some (PingPongEntry (Some c)) \<and> ap_heap a k \<noteq> Some (KickoffEntry (Some c)))"

definition kicked_ok :: "'j app \<Rightarrow> bool" where
  "kicked_ok a \<longleftrightarrow> (\<forall>A C c. ap_log a = A @ [ForceClosed c] @ C \<longrightarrow> waiting (ap_timeout a + 1) c A)"

definition map_ok :: "'j app \<Rightarrow> bool" where
  "map_ok a \<longleftrightarrow> (\<forall>c k. ap_kickoffEntries a c = Some k \<longrightarrow>
       k < ap_next a \<and> ap_heap a k \<in> {None, Some (KickoffEntry None), Some (KickoffEntry (Some c))}) \<and>
     (\<forall>c k. ap_pingPongEntries a c = Some k \<longrightarrow>
       k < ap_next a \<and> ap_heap a k \<in> {None, Some (PingPongEntry None), Some (PingPongEntry (Some c))})"

definition timing_ok :: "'j app \<Rightarrow> bool" where
  "timing_ok a \<longleftrightarrow> ap_pingPong a \<and> 0 < ap_timeout a \<and> ap_timeout a < ap_interval a \<and> ap_interval a < 500"

definition pinv :: "nat set \<Rightarrow> (nat \<times> nat) set \<Rightarrow> 'j app \<Rightarrow> bool" where
  "pinv X R a \<longleftrightarrow> live_ok R a \<and> kick_ok R a \<and> ping_ok a \<and> alive_ok X a \<and> gap_ok R a \<and> fresh_ok a \<and> kicked_ok a \<and>
     map_ok a \<and> timing_ok a"

lemmas pinv_parts = live_ok_def kick_ok_def ping_ok_def alive_ok_def gap_ok_def fresh_ok_def map_ok_def timing_ok_def

lemma pinv_wheel [simp]: "pinv X R (a\<lparr>ap_wheel := w\<rparr>) = pinv X R a"
  by (simp add: pinv_def pinv_parts kicked_ok_def)

lemma app_log_frame [simp]:
  "live_ok R (app_log e a) = live_ok R a" "ping_ok (app_log e a) = ping_ok a" "alive_ok X (app_log e a) = alive_ok X a"
  "gap_ok R (app_log e a) = gap_ok R a" "fresh_ok (app_log e a) = fresh_ok a" "map_ok (app_log e a) = map_ok a"
  "timing_ok (app_log e a) = timing_ok a"
  by (simp_all add: pinv_parts)

lemma waiting_snoc: "waiting n c log \<Longrightarrow> e \<noteq> GotPong c \<Longrightarrow> waiting (if e = Ticked then Suc n else n) c (log @ [e])"
  unfolding waiting_def
proof (elim exE conjE)
  fix A B assume "log = A @ [SentPing c] @ B" "GotPong c \<notin> set B" "length (filter (\<lambda>e. e = Ticked) B) = n" "e \<noteq> GotPong c"
  then show "\<exists>A B. log @ [e] = A @ [SentPing c] @ B \<and> GotPong c \<notin> set B \<and>
      length (filter (\<lambda>e. e = Ticked) B) = (if e = Ticked then Suc n else n)"
    by (intro exI [of _ A] exI [of _ "B @ [e]"]) auto
qed

lemma waiting_now: "waiting 0 c (log @ [SentPing c])"
  unfolding waiting_def by (rule exI [of _ log], rule exI [of _ "[]"]) simp

lemma kicked_snoc:
  "kicked_ok a \<Longrightarrow> (\<And>c. e = ForceClosed c \<Longrightarrow> waiting (ap_timeout a + 1) c (ap_log a)) \<Longrightarrow> kicked_ok (app_log e a)"
  unfolding kicked_ok_def app_log_def
  by (auto simp: append_eq_append_conv2 Cons_eq_append_conv append_eq_Cons_conv) 

lemma kicked_frame: "ap_log a' = ap_log a \<Longrightarrow> ap_timeout a' = ap_timeout a \<Longrightarrow> kicked_ok a' = kicked_ok a"
  by (simp add: kicked_ok_def)

text \<open>Events other than ticks, answers and kicks leave the invariant alone.\<close>

lemma pinv_log:
  assumes "pinv X R a" "e \<noteq> Ticked" "\<And>c. e \<noteq> GotPong c" "\<And>c. e = ForceClosed c \<Longrightarrow> waiting (ap_timeout a + 1) c (ap_log a)"
  shows "pinv X R (app_log e a)"
proof -
  have "kick_ok R (app_log e a)"
    using assms(1-3) waiting_snoc [where e = e] by (auto simp: pinv_def kick_ok_def)
  moreover have "kicked_ok (app_log e a)" using assms by (auto simp: pinv_def intro: kicked_snoc)
  ultimately show ?thesis using assms(1) by (simp add: pinv_def)
qed

lemma pinv_tick:
  assumes "pinv {} {(k, Suc n) |k n. (k, n) \<in> R} a"
  shows "pinv {} R (app_log Ticked a)"
proof -
  have "kick_ok R (app_log Ticked a)"
    unfolding kick_ok_def
  proof (intro allI impI)
    fix k n c assume k: "(k, n) \<in> R" "ap_heap (app_log Ticked a) k = Some (KickoffEntry (Some c))"
    have "kick_ok {(k, Suc n) |k n. (k, n) \<in> R} a" using assms by (simp add: pinv_def)
    from this [unfolded kick_ok_def, rule_format, of k "Suc n" c] k
    have w: "ap_kickoffEntries a c = Some k" "Suc n \<le> ap_timeout a + 1" "waiting (ap_timeout a - n) c (ap_log a)"
      by auto
    from waiting_snoc [OF w(3), of Ticked] w(1,2) show "ap_kickoffEntries (app_log Ticked a) c = Some k \<and>
        n \<le> ap_timeout (app_log Ticked a) + 1 \<and> waiting (ap_timeout (app_log Ticked a) + 1 - n) c (ap_log (app_log Ticked a))"
      by (simp add: Suc_diff_le)
  qed
  moreover have "live_ok R (app_log Ticked a)"
  proof -
    let ?R = "{(k, Suc n) |k n. (k, n) \<in> R}"
    have *: "fst ` ?R = fst ` R" by force
    have L: "live_ok ?R a" using assms by (simp add: pinv_def)
    have "\<forall>k n n'. (k, Suc n) \<in> ?R \<longrightarrow> (k, Suc n') \<in> ?R \<longrightarrow> Suc n = Suc n'"
      "\<forall>k n. (k, Suc n) \<in> ?R \<longrightarrow> Suc n \<le> ap_interval a + 1"
      using L unfolding live_ok_def by blast+
    then have "\<forall>k n n'. (k, n) \<in> R \<longrightarrow> (k, n') \<in> R \<longrightarrow> n = n'" "\<forall>k n. (k, n) \<in> R \<longrightarrow> n \<le> ap_interval a + 1"
      by (simp_all add: Suc_le_eq less_imp_le)
    with L * show ?thesis by (simp add: live_ok_def)
  qed
  moreover have "gap_ok R (app_log Ticked a)"
  proof -
    have G: "gap_ok {(k, Suc n) |k n. (k, n) \<in> R} a" using assms by (simp add: pinv_def)
    show ?thesis
      unfolding gap_ok_def
    proof (intro allI impI)
      fix k n k' n' c
      assume "(k, n) \<in> R" "ap_heap (app_log Ticked a) k = Some (PingPongEntry (Some c))" "(k', n') \<in> R"
        "ap_heap (app_log Ticked a) k' = Some (KickoffEntry (Some c))"
      with G [unfolded gap_ok_def, rule_format, of k "Suc n" c k' "Suc n'"]
      show "n' + (ap_interval (app_log Ticked a) - ap_timeout (app_log Ticked a)) = n" by auto
    qed
  qed
  moreover have "kicked_ok (app_log Ticked a)" using assms by (auto simp: pinv_def intro: kicked_snoc)
  ultimately show ?thesis using assms by (simp add: pinv_def)
qed

lemma pinv_frame:
  assumes "ap_log a' = ap_log a" "ap_timeout a' = ap_timeout a" "ap_interval a' = ap_interval a" "ap_pingPong a' = ap_pingPong a"
  shows "kicked_ok a' = kicked_ok a" "timing_ok a' = timing_ok a"
  using assms by (simp_all add: kicked_ok_def timing_ok_def)

lemma live_heap:
  assumes "live_ok R a" "(k, n) \<in> R"
  shows "ap_heap a k \<noteq> None" "k < ap_next a"
proof -
  have "k \<in> fst ` R" using assms(2) by (rule image_eqI [rotated]) simp
  with assms(1) show "ap_heap a k \<noteq> None" "k < ap_next a" unfolding live_ok_def by blast+
qed

lemma live_new: "live_ok R a \<Longrightarrow> ap_heap a (ap_next a) = None" "live_ok R a \<Longrightarrow> (ap_next a, n) \<notin> R"
  using live_heap(2) [of R a "ap_next a" n] by (auto simp: live_ok_def)

lemma live_remove:
  assumes "live_ok R a" "(k, n) \<in> R"
  shows "fst ` (R - {(k, n)}) = dom (ap_heap a) - {k}"
proof -
  have "fst ` (R - {(k, n)}) = fst ` R - {k}"
  proof (intro equalityI subsetI)
    fix x assume "x \<in> fst ` (R - {(k, n)})"
    then obtain y where "y \<in> R - {(k, n)}" "x = fst y" by blast
    then obtain m where "(x, m) \<in> R" "(x, m) \<noteq> (k, n)" by (cases y) auto
    moreover have "x \<noteq> k" using calculation assms unfolding live_ok_def by blast
    ultimately show "x \<in> fst ` R - {k}" by (metis Diff_iff fst_conv image_eqI singletonD)
  next
    fix x assume "x \<in> fst ` R - {k}"
    then obtain m where "(x, m) \<in> R" "x \<noteq> k" by auto
    then have "(x, m) \<in> R - {(k, n)}" by simp
    then show "x \<in> fst ` (R - {(k, n)})" by (rule image_eqI [rotated]) simp
  qed
  with assms(1) show ?thesis by (simp add: live_ok_def)
qed

lemma heap_keeps: "h k' = None \<Longrightarrow> \<exists>k. h k = Some v \<Longrightarrow> \<exists>k. (h(k' \<mapsto> v')) k = Some v"
  by (metis fun_upd_other option.distinct(1))

lemma pinv_remove:
  assumes "pinv X R a" "(k, n) \<in> R"
  shows "pinv (X \<union> {c. ap_heap a k = Some (PingPongEntry (Some c))}) (R - {(k, n)}) (a\<lparr>ap_heap := (ap_heap a)(k := None)\<rparr>)"
proof -
  let ?a = "a\<lparr>ap_heap := (ap_heap a)(k := None)\<rparr>"
  have "live_ok R a" "kick_ok R a" "ping_ok a" "alive_ok X a" "gap_ok R a" "fresh_ok a" "map_ok a"
    using assms(1) by (simp_all add: pinv_def)
  note parts = this
  have "live_ok (R - {(k, n)}) ?a"
    using parts(1) live_remove [OF parts(1) assms(2)] by (simp add: live_ok_def) blast
  moreover have "kick_ok (R - {(k, n)}) ?a" using parts(2) by (simp add: kick_ok_def)
  moreover have "ping_ok ?a" using parts(3) by (simp add: ping_ok_def)
  moreover have "alive_ok (X \<union> {c. ap_heap a k = Some (PingPongEntry (Some c))}) ?a"
    using parts(4) by (auto simp: alive_ok_def)
  moreover have "gap_ok (R - {(k, n)}) ?a" using parts(5) by (simp add: gap_ok_def)
  moreover have "fresh_ok ?a" using parts(6) by (simp add: fresh_ok_def)
  moreover have "map_ok ?a" using parts(7) by (simp add: map_ok_def)
  ultimately show ?thesis using assms(1) by (simp add: pinv_def pinv_frame [of ?a a])
qed

lemma pinv_new_ping:
  assumes "pinv X R a" "\<And>k. ap_heap a k \<noteq> Some (PingPongEntry (Some c))" "ap_status a c \<noteq> Connecting"
    "\<And>k n. (k, n) \<in> R \<Longrightarrow> ap_heap a k = Some (KickoffEntry (Some c)) \<Longrightarrow> n = ap_timeout a + 1"
  shows "pinv (X - {c}) (insert (ap_next a, ap_interval a + 1) R)
    (a\<lparr>ap_heap := (ap_heap a)(ap_next a \<mapsto> PingPongEntry (Some c)), ap_next := Suc (ap_next a),
       ap_pingPongEntries := (ap_pingPongEntries a)(c \<mapsto> ap_next a)\<rparr>)" (is "pinv _ ?R ?a")
proof -
  have "live_ok R a" "kick_ok R a" "ping_ok a" "alive_ok X a" "gap_ok R a" "fresh_ok a" "map_ok a" "timing_ok a"
    using assms(1) by (simp_all add: pinv_def)
  note parts = this
  have new: "ap_heap a (ap_next a) = None" "\<And>n. (ap_next a, n) \<notin> R"
    using live_new [OF parts(1)] by simp_all
  have "live_ok ?R ?a" using parts(1) new by (auto simp: live_ok_def less_Suc_eq)
  moreover have "kick_ok ?R ?a" using parts(2) by (auto simp: kick_ok_def)
  moreover have "ping_ok ?a" using parts(3) assms(2) by (auto simp: ping_ok_def)
  moreover have "alive_ok (X - {c}) ?a"
    unfolding alive_ok_def
  proof (intro allI impI)
    fix d assume "ap_status ?a d = Connected" "d \<notin> X - {c}"
    then show "\<exists>k. ap_heap ?a k = Some (PingPongEntry (Some d))"
      using parts(4) heap_keeps [of "ap_heap a" "ap_next a" "PingPongEntry (Some d)"] new(1)
      by (cases "d = c") (auto simp: alive_ok_def intro: exI [of _ "ap_next a"])
  qed
  moreover have "gap_ok ?R ?a"
  proof -
    have "ap_timeout a + 1 + (ap_interval a - ap_timeout a) = ap_interval a + 1" using parts(8) by (simp add: timing_ok_def)
    then show ?thesis using parts(5) assms(2) new(2) by (auto simp: gap_ok_def dest!: assms(4))
  qed
  moreover have "fresh_ok ?a" using parts(6) assms(3) by (auto simp: fresh_ok_def)
  moreover have "map_ok ?a" using parts(7) by (fastforce simp: map_ok_def less_Suc_eq)
  ultimately show ?thesis using assms(1) by (simp add: pinv_def pinv_frame [of ?a a])
qed

lemma pinv_new_kick:
  assumes "pinv X R a" "\<And>k. ap_heap a k \<noteq> Some (PingPongEntry (Some c))" "\<And>k. ap_heap a k \<noteq> Some (KickoffEntry (Some c))"
    "ap_status a c \<noteq> Connecting" "waiting 0 c (ap_log a)"
  shows "pinv X (insert (ap_next a, ap_timeout a + 1) R)
    (a\<lparr>ap_heap := (ap_heap a)(ap_next a \<mapsto> KickoffEntry (Some c)), ap_next := Suc (ap_next a),
       ap_kickoffEntries := (ap_kickoffEntries a)(c \<mapsto> ap_next a)\<rparr>)" (is "pinv _ ?R ?a")
proof -
  have "live_ok R a" "kick_ok R a" "ping_ok a" "alive_ok X a" "gap_ok R a" "fresh_ok a" "map_ok a" "timing_ok a"
    using assms(1) by (simp_all add: pinv_def)
  note parts = this
  have new: "ap_heap a (ap_next a) = None" "\<And>n. (ap_next a, n) \<notin> R"
    using live_new [OF parts(1)] by simp_all
  have "live_ok ?R ?a" using parts(1,8) new by (auto simp: live_ok_def timing_ok_def less_Suc_eq)
  moreover have "kick_ok ?R ?a" using parts(2) assms(3,5) new(2) by (auto simp: kick_ok_def)
  moreover have "ping_ok ?a" using parts(3) by (auto simp: ping_ok_def)
  moreover have "alive_ok X ?a"
    using parts(4) heap_keeps [of "ap_heap a" "ap_next a"] new(1) by (simp add: alive_ok_def)
  moreover have "gap_ok ?R ?a" using parts(5) assms(2) new(2) by (auto simp: gap_ok_def)
  moreover have "fresh_ok ?a" using parts(6) assms(4) by (auto simp: fresh_ok_def)
  moreover have "map_ok ?a" using parts(7) by (fastforce simp: map_ok_def less_Suc_eq)
  ultimately show ?thesis using assms(1) by (simp add: pinv_def pinv_frame [of ?a a])
qed

lemma map_okD:
  "map_ok a \<Longrightarrow> ap_kickoffEntries a c = Some k \<Longrightarrow>
     ap_heap a k = None \<or> ap_heap a k = Some (KickoffEntry None) \<or> ap_heap a k = Some (KickoffEntry (Some c))"
  "map_ok a \<Longrightarrow> ap_pingPongEntries a c = Some k \<Longrightarrow>
     ap_heap a k = None \<or> ap_heap a k = Some (PingPongEntry None) \<or> ap_heap a k = Some (PingPongEntry (Some c))"
  by (auto simp: map_ok_def)

lemma reset_heap:
  assumes "map_ok a"
  shows "ap_heap (resetKickoffEntry c a) k = (if ap_kickoffEntries a c = Some k then map_option (\<lambda>_. KickoffEntry None) (ap_heap a k) else ap_heap a k)"
    "ap_heap (resetPingPongEntry c a) k = (if ap_pingPongEntries a c = Some k then map_option (\<lambda>_. PingPongEntry None) (ap_heap a k) else ap_heap a k)"
proof -
  have "ap_heap a k \<in> {None, Some (KickoffEntry None), Some (KickoffEntry (Some c))}" if "ap_kickoffEntries a c = Some k"
    using assms that by (simp add: map_ok_def)
  then show "ap_heap (resetKickoffEntry c a) k = (if ap_kickoffEntries a c = Some k then map_option (\<lambda>_. KickoffEntry None) (ap_heap a k) else ap_heap a k)"
    by (auto simp: resetKickoffEntry_def reset_entry_def split: option.splits)
  have "ap_heap a k \<in> {None, Some (PingPongEntry None), Some (PingPongEntry (Some c))}" if "ap_pingPongEntries a c = Some k"
    using assms that by (simp add: map_ok_def)
  then show "ap_heap (resetPingPongEntry c a) k = (if ap_pingPongEntries a c = Some k then map_option (\<lambda>_. PingPongEntry None) (ap_heap a k) else ap_heap a k)"
    by (auto simp: resetPingPongEntry_def reset_entry_def split: option.splits)
qed

lemma reset_sel [simp]:
  "ap_wheel (resetKickoffEntry c a) = ap_wheel a" "ap_wheel (resetPingPongEntry c a) = ap_wheel a"
  "ap_status (resetKickoffEntry c a) = ap_status a" "ap_status (resetPingPongEntry c a) = ap_status a"
  "ap_next (resetKickoffEntry c a) = ap_next a" "ap_next (resetPingPongEntry c a) = ap_next a"
  "ap_log (resetKickoffEntry c a) = ap_log a" "ap_log (resetPingPongEntry c a) = ap_log a"
  "ap_timeout (resetKickoffEntry c a) = ap_timeout a" "ap_timeout (resetPingPongEntry c a) = ap_timeout a"
  "ap_interval (resetKickoffEntry c a) = ap_interval a" "ap_interval (resetPingPongEntry c a) = ap_interval a"
  "ap_pingPong (resetKickoffEntry c a) = ap_pingPong a" "ap_pingPong (resetPingPongEntry c a) = ap_pingPong a"
  "ap_hasConnectionCallback (resetKickoffEntry c a) = ap_hasConnectionCallback a"
  "ap_hasConnectionCallback (resetPingPongEntry c a) = ap_hasConnectionCallback a"
  "ap_pingPongEntries (resetKickoffEntry c a) = ap_pingPongEntries a"
  "ap_kickoffEntries (resetPingPongEntry c a) = ap_kickoffEntries a"
  "ap_kickoffEntries (resetKickoffEntry c a) = (ap_kickoffEntries a)(c := None)"
  "ap_pingPongEntries (resetPingPongEntry c a) = (ap_pingPongEntries a)(c := None)"
  by (auto simp: resetKickoffEntry_def resetPingPongEntry_def reset_entry_def split: option.splits)

text \<open>An answer, and the end of a connection.\<close>

lemma pinv_resetKickoff:
  assumes "pinv X R a"
  shows "pinv X R (resetKickoffEntry c a)"
    "ap_heap (resetKickoffEntry c a) k = Some (KickoffEntry (Some d)) \<longleftrightarrow> ap_heap a k = Some (KickoffEntry (Some d)) \<and> d \<noteq> c"
    "ap_heap (resetKickoffEntry c a) k = Some (PingPongEntry e) \<longleftrightarrow> ap_heap a k = Some (PingPongEntry e)"
proof -
  let ?a = "resetKickoffEntry c a"
  have parts: "live_ok R a" "kick_ok R a" "ping_ok a" "alive_ok X a" "gap_ok R a" "fresh_ok a" "map_ok a" "timing_ok a"
    using assms by (simp_all add: pinv_def)
  have dom: "dom (ap_heap ?a) = dom (ap_heap a)" by (auto simp: reset_heap [OF parts(7)] split: if_splits)
  have kick: "ap_heap ?a k = Some (KickoffEntry (Some d)) \<longleftrightarrow> ap_heap a k = Some (KickoffEntry (Some d)) \<and> d \<noteq> c" for k d
  proof -
    have "ap_kickoffEntries a d = Some k" if "ap_heap a k = Some (KickoffEntry (Some d))"
    proof -
      have "k \<in> fst ` R" using that parts(1) by (auto simp: live_ok_def)
      then show ?thesis using that parts(2) by (auto simp: kick_ok_def)
    qed
    moreover have "ap_heap a k \<in> {None, Some (KickoffEntry None), Some (KickoffEntry (Some c))}" if "ap_kickoffEntries a c = Some k"
      using parts(7) that by (simp add: map_ok_def)
    ultimately show ?thesis by (auto simp: reset_heap [OF parts(7)])
  qed
  have ping: "ap_heap ?a k = Some (PingPongEntry d) \<longleftrightarrow> ap_heap a k = Some (PingPongEntry d)" for k d
    by (auto simp: reset_heap [OF parts(7)] dest: map_okD [OF parts(7)])
  show "ap_heap ?a k = Some (KickoffEntry (Some d)) \<longleftrightarrow> ap_heap a k = Some (KickoffEntry (Some d)) \<and> d \<noteq> c"
    "ap_heap ?a k = Some (PingPongEntry e) \<longleftrightarrow> ap_heap a k = Some (PingPongEntry e)" by (simp_all add: kick ping)
  have "live_ok R ?a" using parts(1) by (simp add: live_ok_def dom)
  moreover have "kick_ok R ?a" using parts(2) by (simp add: kick_ok_def kick)
  moreover have "ping_ok ?a" using parts(3) by (simp add: ping_ok_def ping)
  moreover have "alive_ok X ?a" using parts(4) by (simp add: alive_ok_def ping)
  moreover have "gap_ok R ?a" using parts(5) by (simp add: gap_ok_def kick ping)
  moreover have "fresh_ok ?a" using parts(6) by (simp add: fresh_ok_def kick ping)
  moreover have "map_ok ?a"
    using parts(7) by (fastforce simp: map_ok_def reset_heap [OF parts(7)])
  ultimately show "pinv X R ?a" using assms by (simp add: pinv_def pinv_frame [of ?a a])
qed

lemma pinv_resetPingPong:
  assumes "pinv X R a" "ap_status a c \<noteq> Connected"
  shows "pinv X R (resetPingPongEntry c a)"
    "ap_heap (resetPingPongEntry c a) k = Some (PingPongEntry (Some d)) \<longleftrightarrow> ap_heap a k = Some (PingPongEntry (Some d)) \<and> d \<noteq> c"
    "ap_heap (resetPingPongEntry c a) k = Some (KickoffEntry e) \<longleftrightarrow> ap_heap a k = Some (KickoffEntry e)"
proof -
  let ?a = "resetPingPongEntry c a"
  have parts: "live_ok R a" "kick_ok R a" "ping_ok a" "alive_ok X a" "gap_ok R a" "fresh_ok a" "map_ok a" "timing_ok a"
    using assms by (simp_all add: pinv_def)
  have dom: "dom (ap_heap ?a) = dom (ap_heap a)" by (auto simp: reset_heap [OF parts(7)] split: if_splits)
  have ping: "ap_heap ?a k = Some (PingPongEntry (Some d)) \<longleftrightarrow> ap_heap a k = Some (PingPongEntry (Some d)) \<and> d \<noteq> c" for k d
    using parts(3) by (auto simp: reset_heap [OF parts(7)] ping_ok_def dest: map_okD [OF parts(7)])
  have kick: "ap_heap ?a k = Some (KickoffEntry d) \<longleftrightarrow> ap_heap a k = Some (KickoffEntry d)" for k d
    by (auto simp: reset_heap [OF parts(7)] dest: map_okD [OF parts(7)])
  show "ap_heap ?a k = Some (PingPongEntry (Some d)) \<longleftrightarrow> ap_heap a k = Some (PingPongEntry (Some d)) \<and> d \<noteq> c"
    "ap_heap ?a k = Some (KickoffEntry e) \<longleftrightarrow> ap_heap a k = Some (KickoffEntry e)" by (simp_all add: kick ping)
  have "live_ok R ?a" using parts(1) by (simp add: live_ok_def dom)
  moreover have "kick_ok R ?a" using parts(2) by (simp add: kick_ok_def kick)
  moreover have "ping_ok ?a" using parts(3) by (simp add: ping_ok_def ping)
  moreover have "alive_ok X ?a" using parts(4) assms(2) by (auto simp: alive_ok_def ping)
  moreover have "gap_ok R ?a" using parts(5) by (simp add: gap_ok_def kick ping)
  moreover have "fresh_ok ?a" using parts(6) by (simp add: fresh_ok_def kick ping)
  moreover have "map_ok ?a"
    using parts(7) by (fastforce simp: map_ok_def reset_heap [OF parts(7)])
  ultimately show "pinv X R ?a" using assms by (simp add: pinv_def pinv_frame [of ?a a])
qed

lemma pinv_callback: "pinv X R a \<Longrightarrow> pinv X R (if b then app_log (ConnectionCallback c) a else a)"
  by (auto intro: pinv_log)

lemma pinv_status:
  assumes "pinv X R a" "st \<noteq> Connecting" "st \<noteq> Connected"
  shows "pinv (X - {c}) R (a\<lparr>ap_status := (ap_status a)(c := st)\<rparr>)" (is "pinv _ _ ?a")
proof -
  have "alive_ok (X - {c}) ?a" "fresh_ok ?a"
    using assms by (simp_all add: pinv_def alive_ok_def fresh_ok_def)
  then show ?thesis
    using assms(1) pinv_frame [of ?a a] by (simp add: pinv_def live_ok_def kick_ok_def ping_ok_def gap_ok_def map_ok_def)
qed

definition entry_of :: "nat \<Rightarrow> nat \<Rightarrow> 'j app \<Rightarrow> bool \<times> bool" where
  "entry_of d k a = (ap_heap a k = Some (PingPongEntry (Some d)), ap_heap a k = Some (KickoffEntry (Some d)))"

lemma close_ok:
  assumes "pinv X R a"
  shows "\<exists>a'. app_disconnected c a = Inr a' \<and> pinv (X - {c}) R a' \<and> ap_wheel a' = ap_wheel a \<and>
    ap_interval a' = ap_interval a \<and> ap_timeout a' = ap_timeout a \<and>
    ap_status a' = (ap_status a)(c := Disconnected) \<and> (\<forall>d k. d \<noteq> c \<longrightarrow> entry_of d k a' = entry_of d k a)"
proof -
  define a1 where "a1 = a\<lparr>ap_status := (ap_status a)(c := Disconnected)\<rparr>"
  define a2 where "a2 = resetPingPongEntry c a1"
  define a3 where "a3 = resetKickoffEntry c a2"
  define a4 where "a4 = (if ap_hasConnectionCallback a3 then app_log (ConnectionCallback c) a3 else a3)"
  have 1: "pinv (X - {c}) R a1" unfolding a1_def by (rule pinv_status [OF assms]) simp_all
  have "ap_status a1 c \<noteq> Connected" by (simp add: a1_def)
  note 2 = pinv_resetPingPong [OF 1 this, folded a2_def]
  note 3 = pinv_resetKickoff [OF 2(1), where c = c, folded a3_def]
  have 4: "pinv (X - {c}) R a4" unfolding a4_def by (rule pinv_callback [OF 3(1)])
  have "ap_pingPong a" using assms by (simp add: pinv_def timing_ok_def)
  then have "app_disconnected c a = Inr a4"
    by (simp add: app_disconnected_def app_connectionCallback_def a1_def a2_def a3_def a4_def)
  moreover have "\<forall>d k. d \<noteq> c \<longrightarrow> entry_of d k a4 = entry_of d k a"
    by (simp add: entry_of_def a4_def 2 3) (simp add: a1_def)
  ultimately show ?thesis
    using 4 by (intro exI [of _ a4]) (simp add: a4_def a3_def a2_def a1_def)
qed

section \<open>Destructors and ticks\<close>

definition pend :: "nat list \<Rightarrow> (nat \<times> nat) set" where
  "pend ks = (\<lambda>k. (k, 0)) ` set ks"

text \<open>The connection is closed in \<open>m\<close> ticks at the latest if nothing else happens.\<close>

definition left :: "nat \<Rightarrow> nat \<Rightarrow> (nat \<times> nat) set \<Rightarrow> 'j app \<Rightarrow> bool" where
  "left m c R a \<longleftrightarrow> ap_status a c = Disconnected \<or> (\<exists>k. snd (entry_of c k a) \<and> (k, m) \<in> R) \<or>
     ap_status a c = Connected \<and> (\<exists>k n. fst (entry_of c k a) \<and> (k, n) \<in> R \<and> m = n + ap_timeout a + 1)"

definition wheel_state :: "(nat \<times> nat) set \<Rightarrow> 'j app \<Rightarrow> bool" where
  "wheel_state P a \<longleftrightarrow> (\<exists>w. ap_wheel a = Some w \<and> one_wheel (ap_interval a) w \<and> pinv {} (P \<union> slots w) a)"

lemma pend_Cons: "k \<notin> set ks \<Longrightarrow> pend (k # ks) \<union> slots w - {(k, 0)} = pend ks \<union> slots w"
  by (auto simp: pend_def slots_def)

lemma pinv_weaken: "pinv {c} R a \<Longrightarrow> ap_status a c \<noteq> Connected \<Longrightarrow> pinv {} R a"
  by (auto simp: pinv_def alive_ok_def)

lemma new_entry_ok:
  assumes "ap_wheel a = Some w" "one_wheel (ap_interval a) w" "0 < d" "d \<le> ap_interval a" "ap_interval a < 500"
  shows "\<exists>w'. new_entry obj d a = Inr (ap_next a, (a\<lparr>ap_heap := (ap_heap a)(ap_next a \<mapsto> obj), ap_next := Suc (ap_next a)\<rparr>)\<lparr>ap_wheel := Some w'\<rparr>) \<and>
    one_wheel (ap_interval a) w' \<and> slots w' = insert (ap_next a, Suc d) (slots w)"
proof -
  obtain w' where "insertEntry d (Some (User (ap_next a))) w = Inr w'" "one_wheel (ap_interval a) w'"
    "slots w' = insert (ap_next a, Suc d) (slots w)"
    using insert_one [OF assms(2-5)] by blast
  with assms(1) show ?thesis by (intro exI [of _ w']) (simp add: new_entry_def)
qed

lemma ping_entry_ok:
  assumes "ap_wheel a = Some w" "one_wheel (ap_interval a) w" "pinv X (P \<union> slots w) a" "X \<subseteq> {c}"
    "\<And>k. ap_heap a k \<noteq> Some (PingPongEntry (Some c))" "ap_status a c \<noteq> Connecting"
    "\<And>k n. (k, n) \<in> P \<union> slots w \<Longrightarrow> ap_heap a k = Some (KickoffEntry (Some c)) \<Longrightarrow> n = ap_timeout a + 1"
  shows "\<exists>w' a'. new_entry (PingPongEntry (Some c)) (ap_interval a) a = Inr (ap_next a, a') \<and>
    ap_wheel a' = Some w' \<and> one_wheel (ap_interval a) w' \<and> slots w' = insert (ap_next a, ap_interval a + 1) (slots w) \<and>
    a' = a\<lparr>ap_heap := (ap_heap a)(ap_next a \<mapsto> PingPongEntry (Some c)), ap_next := Suc (ap_next a), ap_wheel := Some w'\<rparr> \<and>
    pinv {} (P \<union> slots w') (a'\<lparr>ap_pingPongEntries := (ap_pingPongEntries a')(c \<mapsto> ap_next a)\<rparr>)"
proof -
  have t: "0 < ap_interval a" "ap_interval a < 500" using assms(3) by (auto simp: pinv_def timing_ok_def)
  obtain w' where w': "new_entry (PingPongEntry (Some c)) (ap_interval a) a = Inr (ap_next a,
      (a\<lparr>ap_heap := (ap_heap a)(ap_next a \<mapsto> PingPongEntry (Some c)), ap_next := Suc (ap_next a)\<rparr>)\<lparr>ap_wheel := Some w'\<rparr>)"
    "one_wheel (ap_interval a) w'" "slots w' = insert (ap_next a, Suc (ap_interval a)) (slots w)"
    using new_entry_ok [OF assms(1,2) t(1) order_refl t(2)] by blast
  define b where "b = a\<lparr>ap_heap := (ap_heap a)(ap_next a \<mapsto> PingPongEntry (Some c)), ap_next := Suc (ap_next a),
      ap_wheel := Some w'\<rparr>"
  have "X - {c} = {}" using assms(4) by auto
  with pinv_new_ping [OF assms(3,5,6,7)] have p: "pinv {} (P \<union> slots w')
      (a\<lparr>ap_heap := (ap_heap a)(ap_next a \<mapsto> PingPongEntry (Some c)), ap_next := Suc (ap_next a),
         ap_pingPongEntries := (ap_pingPongEntries a)(c \<mapsto> ap_next a)\<rparr>)" (is "pinv _ _ ?b")
    using w'(3) by simp
  have eq: "b\<lparr>ap_pingPongEntries := (ap_pingPongEntries b)(c \<mapsto> ap_next a)\<rparr> = ?b\<lparr>ap_wheel := Some w'\<rparr>"
    by (simp add: b_def)
  have "pinv {} (P \<union> slots w') (b\<lparr>ap_pingPongEntries := (ap_pingPongEntries b)(c \<mapsto> ap_next a)\<rparr>)"
    unfolding eq using p by simp
  moreover have "new_entry (PingPongEntry (Some c)) (ap_interval a) a = Inr (ap_next a, b)" "ap_wheel b = Some w'"
    using w'(1) by (simp_all add: b_def)
  ultimately show ?thesis using w'(2,3) by (intro exI [of _ w'] exI [of _ b]) (simp add: b_def)
qed

text \<open>A ping: both new entries are in place, and the answer is awaited from now on.\<close>

lemma ping_ok_step:
  assumes "ap_wheel a = Some w" "one_wheel (ap_interval a) w" "pinv {c} (P \<union> slots w) a" "ap_status a c = Connected"
    "\<And>k. ap_heap a k \<noteq> Some (PingPongEntry (Some c))" "\<And>k. ap_heap a k \<noteq> Some (KickoffEntry (Some c))"
  shows "\<exists>a' w'. ping c a = Inr a' \<and> ap_wheel a' = Some w' \<and> one_wheel (ap_interval a') w' \<and> pinv {} (P \<union> slots w') a' \<and>
    ap_interval a' = ap_interval a \<and> ap_timeout a' = ap_timeout a \<and> ap_status a' = ap_status a \<and> slots w \<subseteq> slots w' \<and>
    (\<exists>k. snd (entry_of c k a') \<and> (k, ap_timeout a + 1) \<in> slots w') \<and> (\<forall>d k. k < ap_next a \<longrightarrow> entry_of d k a' = entry_of d k a)"
proof -
  have t: "0 < ap_timeout a" "ap_timeout a < ap_interval a" "ap_interval a < 500"
    using assms(3) by (auto simp: pinv_def timing_ok_def)
  define a0 where "a0 = app_log (SentPing c) a"
  let ?k = "ap_next a"
  have p0: "pinv {c} (P \<union> slots w) a0" unfolding a0_def by (rule pinv_log [OF assms(3)]) simp_all
  obtain w1 where w1: "new_entry (KickoffEntry (Some c)) (ap_timeout a) a0 = Inr (?k,
      (a0\<lparr>ap_heap := (ap_heap a0)(?k \<mapsto> KickoffEntry (Some c)), ap_next := Suc ?k\<rparr>)\<lparr>ap_wheel := Some w1\<rparr>)"
    "one_wheel (ap_interval a) w1" "slots w1 = insert (?k, Suc (ap_timeout a)) (slots w)"
    using new_entry_ok [of a0 w "ap_timeout a" "KickoffEntry (Some c)"] assms(1,2) t by (auto simp: a0_def)
  define a1 where "a1 = a0\<lparr>ap_heap := (ap_heap a0)(?k \<mapsto> KickoffEntry (Some c)), ap_next := Suc ?k,
      ap_kickoffEntries := (ap_kickoffEntries a0)(c \<mapsto> ?k), ap_wheel := Some w1\<rparr>"
  have "pinv {c} (insert (?k, ap_timeout a + 1) (P \<union> slots w))
      (a0\<lparr>ap_heap := (ap_heap a0)(?k \<mapsto> KickoffEntry (Some c)), ap_next := Suc ?k,
         ap_kickoffEntries := (ap_kickoffEntries a0)(c \<mapsto> ?k)\<rparr>)" (is "pinv _ _ ?b")
    using pinv_new_kick [OF p0, of c] assms(4-6) by (simp add: a0_def waiting_now)
  then have p1: "pinv {c} (P \<union> slots w1) a1" using w1(3) by (simp add: a1_def)
  have kick: "n = ap_timeout a1 + 1" if "(k, n) \<in> P \<union> slots w1" "ap_heap a1 k = Some (KickoffEntry (Some c))" for k n
  proof -
    have "k = ?k" using that(2) assms(6) by (auto simp: a1_def a0_def split: if_splits)
    moreover have "(?k, ap_timeout a + 1) \<in> P \<union> slots w1" using w1(3) by simp
    ultimately have "n = ap_timeout a + 1" using that(1) p1 unfolding pinv_def live_ok_def by blast
    then show ?thesis by (simp add: a1_def a0_def)
  qed
  have a1: "ap_wheel a1 = Some w1" "one_wheel (ap_interval a1) w1" "ap_status a1 c \<noteq> Connecting" "ap_next a1 = Suc ?k"
    "\<And>k. ap_heap a1 k \<noteq> Some (PingPongEntry (Some c))" "ap_interval a1 = ap_interval a" "ap_timeout a1 = ap_timeout a"
    using w1(2) assms(4,5) by (simp_all add: a1_def a0_def)
  obtain w2 a2 where 2: "new_entry (PingPongEntry (Some c)) (ap_interval a1) a1 = Inr (ap_next a1, a2)"
    "ap_wheel a2 = Some w2" "one_wheel (ap_interval a1) w2" "slots w2 = insert (ap_next a1, ap_interval a1 + 1) (slots w1)"
    "a2 = a1\<lparr>ap_heap := (ap_heap a1)(ap_next a1 \<mapsto> PingPongEntry (Some c)), ap_next := Suc (ap_next a1), ap_wheel := Some w2\<rparr>"
    "pinv {} (P \<union> slots w2) (a2\<lparr>ap_pingPongEntries := (ap_pingPongEntries a2)(c \<mapsto> ap_next a1)\<rparr>)"
    using ping_entry_ok [OF a1(1,2) p1 subset_refl a1(5,3)] kick by blast
  define a3 where "a3 = a2\<lparr>ap_pingPongEntries := (ap_pingPongEntries a2)(c \<mapsto> ap_next a1)\<rparr>"
  have a3: "ap_wheel a3 = Some w2" "ap_interval a3 = ap_interval a" "ap_timeout a3 = ap_timeout a" "ap_status a3 = ap_status a"
    "snd (entry_of c ?k a3)" "\<And>d k. k < ?k \<Longrightarrow> entry_of d k a3 = entry_of d k a"
    by (simp_all add: a3_def 2(5) a1_def a0_def entry_of_def)
  have first: "(a0\<lparr>ap_heap := (ap_heap a0)(?k \<mapsto> KickoffEntry (Some c)), ap_next := Suc ?k\<rparr>)\<lparr>ap_wheel := Some w1,
      ap_kickoffEntries := (ap_kickoffEntries a0)(c \<mapsto> ?k)\<rparr> = a1"
    by (simp add: a1_def)
  have "ping c a = Inr a3"
    using w1(1) 2(1) first t(1) a3(3)
    by (simp add: ping_def a0_def [symmetric] a3_def) (simp add: a0_def a1(6))
  then show ?thesis using a3 2(3,4,6) w1(3) a1(4,6) by (intro exI [of _ a3] exI [of _ w2]) (auto simp: a3_def)
qed

text \<open>What a destructor does to the rest: it fails never, keeps the invariant and does not put off the end of a connection.\<close>

definition destroys :: "nat \<Rightarrow> nat list \<Rightarrow> 'j app \<Rightarrow> 'j app \<Rightarrow> bool" where
  "destroys k ks a a' \<longleftrightarrow> destroy_entry k a = Inr a' \<and> wheel_state (pend ks) a' \<and> ap_interval a' = ap_interval a \<and>
     (\<forall>w w' m c. ap_wheel a = Some w \<longrightarrow> ap_wheel a' = Some w' \<longrightarrow> left m c (pend (k # ks) \<union> slots w) a \<longrightarrow>
        left m c (pend ks \<union> slots w') a')"

lemma left_keep:
  assumes "left m c R a" "ap_status a' c = ap_status a c" "ap_timeout a' = ap_timeout a"
    "\<And>k n. (k, n) \<in> R \<Longrightarrow> entry_of c k a \<noteq> (False, False) \<Longrightarrow> (k, n) \<in> R' \<and> entry_of c k a' = entry_of c k a"
  shows "left m c R' a'"
proof -
  consider "ap_status a c = Disconnected" | k where "snd (entry_of c k a)" "(k, m) \<in> R" |
    k n where "ap_status a c = Connected" "fst (entry_of c k a)" "(k, n) \<in> R" "m = n + ap_timeout a + 1"
    using assms(1) by (auto simp: left_def)
  then show ?thesis
  proof cases
    case 1
    then show ?thesis using assms(2) by (simp add: left_def)
  next
    case (2 k)
    then have "(k, m) \<in> R' \<and> entry_of c k a' = entry_of c k a" using assms(4) [of k m] by fastforce
    with 2 show ?thesis unfolding left_def by metis
  next
    case (3 k n)
    then have "(k, n) \<in> R' \<and> entry_of c k a' = entry_of c k a" using assms(4) [of k n] by fastforce
    with 3 assms(2,3) show ?thesis unfolding left_def by metis
  qed
qed

lemma destroys_quiet:
  assumes "ap_wheel a = Some w" "one_wheel (ap_interval a) w" "pinv {} (pend ks \<union> slots w) (a\<lparr>ap_heap := (ap_heap a)(k := None)\<rparr>)"
    "\<And>c. ap_heap a k = Some (PingPongEntry (Some c)) \<Longrightarrow> ap_status a c \<noteq> Connected"
    "\<And>c. ap_heap a k = Some (KickoffEntry (Some c)) \<Longrightarrow> ap_status a c = Disconnected"
    "destroy_entry k a = Inr (a\<lparr>ap_heap := (ap_heap a)(k := None)\<rparr>)"
  shows "destroys k ks a (a\<lparr>ap_heap := (ap_heap a)(k := None)\<rparr>)"
proof -
  let ?a = "a\<lparr>ap_heap := (ap_heap a)(k := None)\<rparr>"
  have "left m c (pend ks \<union> slots w) ?a" if l: "left m c (pend (k # ks) \<union> slots w) a" for m c
  proof (cases "ap_heap a k = Some (PingPongEntry (Some c)) \<or> ap_heap a k = Some (KickoffEntry (Some c))")
    case True
    then consider "ap_heap a k = Some (PingPongEntry (Some c))" "ap_status a c \<noteq> Connected" | "ap_status a c = Disconnected"
      using assms(4,5) by blast
    then show ?thesis
    proof cases
      case 1
      from l 1(2) consider "ap_status a c = Disconnected" | k' where "snd (entry_of c k' a)" "(k', m) \<in> pend (k # ks) \<union> slots w"
        by (auto simp: left_def)
      then show ?thesis
      proof cases
        case (2 k')
        with 1(1) have "snd (entry_of c k' ?a)" "(k', m) \<in> pend ks \<union> slots w" by (auto simp: entry_of_def pend_def)
        then show ?thesis unfolding left_def by blast
      qed (simp add: left_def)
    qed (simp add: left_def)
  next
    case False
    then show ?thesis by (intro left_keep [OF l]) (auto simp: entry_of_def pend_def)
  qed
  then show ?thesis using assms by (auto simp: destroys_def wheel_state_def)
qed

lemma no_partner:
  assumes "live_ok R a" "ping_ok a" "gap_ok R a" "timing_ok a" "(k, 0) \<in> R" "ap_heap a k = Some (PingPongEntry (Some c))"
  shows "ap_heap a k' = Some (PingPongEntry (Some c)) \<Longrightarrow> k' = k" "ap_heap a k' \<noteq> Some (KickoffEntry (Some c))"
proof -
  show "ap_heap a k' = Some (PingPongEntry (Some c)) \<Longrightarrow> k' = k"
    using assms(2,6) unfolding ping_ok_def by (metis option.inject)
  show "ap_heap a k' \<noteq> Some (KickoffEntry (Some c))"
  proof
    assume h: "ap_heap a k' = Some (KickoffEntry (Some c))"
    then have "k' \<in> fst ` R" using assms(1) by (auto simp: live_ok_def)
    then obtain n where "(k', n) \<in> R" by auto
    with h assms(3,5,6) have "n + (ap_interval a - ap_timeout a) = 0" unfolding gap_ok_def by blast
    with assms(4) show False by (simp add: timing_ok_def)
  qed
qed

lemma destroys_exist:
  assumes "wheel_state (pend (k # ks)) a" "k \<notin> set ks"
  shows "\<exists>a'. destroys k ks a a'"
proof -
  obtain w where w: "ap_wheel a = Some w" "one_wheel (ap_interval a) w" "pinv {} (pend (k # ks) \<union> slots w) a"
    using assms(1) by (auto simp: wheel_state_def)
  let ?R = "pend (k # ks) \<union> slots w" and ?R' = "pend ks \<union> slots w" and ?a = "a\<lparr>ap_heap := (ap_heap a)(k := None)\<rparr>"
  have k: "(k, 0) \<in> ?R" by (simp add: pend_def)
  have parts: "live_ok ?R a" "kick_ok ?R a" "ping_ok a" "gap_ok ?R a" "fresh_ok a" "timing_ok a"
    using w(3) by (simp_all add: pinv_def)
  have rem: "pinv {c. ap_heap a k = Some (PingPongEntry (Some c))} ?R' ?a"
    using pinv_remove [OF w(3) k] pend_Cons [OF assms(2)] by simp
  consider (none) "ap_heap a k = Some (PingPongEntry None) \<or> ap_heap a k = Some (KickoffEntry None)" |
    (ping) c where "ap_heap a k = Some (PingPongEntry (Some c))" | (kick) c where "ap_heap a k = Some (KickoffEntry (Some c))"
    using live_heap(1) [OF parts(1) k] by (metis app_obj.exhaust option.exhaust)
  then show ?thesis
  proof cases
    case none
    then have "destroys k ks a ?a" using w rem by (intro destroys_quiet) (auto simp: destroy_entry_def)
    then show ?thesis by blast
  next
    case (ping c)
    then have X: "{c. ap_heap a k = Some (PingPongEntry (Some c))} = {c}" by auto
    show ?thesis
    proof (cases "ap_status a c = Connected")
      case False
      then have "destroys k ks a ?a"
        using w rem ping X by (intro destroys_quiet) (auto simp: destroy_entry_def intro: pinv_weaken)
      then show ?thesis by blast
    next
      case True
      have no: "ap_heap ?a k' \<noteq> Some (PingPongEntry (Some c))" "ap_heap ?a k' \<noteq> Some (KickoffEntry (Some c))" for k'
        using no_partner [OF parts(1,3,4,6) k ping] by (auto simp: ping)
      have "\<exists>a' w'. ping c ?a = Inr a' \<and> ap_wheel a' = Some w' \<and> one_wheel (ap_interval a') w' \<and> pinv {} (pend ks \<union> slots w') a' \<and>
          ap_interval a' = ap_interval ?a \<and> ap_timeout a' = ap_timeout ?a \<and> ap_status a' = ap_status ?a \<and> slots w \<subseteq> slots w' \<and>
          (\<exists>k. snd (entry_of c k a') \<and> (k, ap_timeout ?a + 1) \<in> slots w') \<and> (\<forall>d k. k < ap_next ?a \<longrightarrow> entry_of d k a' = entry_of d k ?a)"
        by (rule ping_ok_step) (use w True no rem X in simp_all)
      then obtain a' w' k1 where a': "ping c ?a = Inr a'" "ap_wheel a' = Some w'" "one_wheel (ap_interval a') w'"
        "pinv {} (pend ks \<union> slots w') a'" "ap_interval a' = ap_interval a" "ap_timeout a' = ap_timeout a" "ap_status a' = ap_status a"
        "slots w \<subseteq> slots w'" "snd (entry_of c k1 a')" "(k1, ap_timeout a + 1) \<in> slots w'" "\<And>d k. k < ap_next a \<Longrightarrow> entry_of d k a' = entry_of d k ?a"
        by (elim exE conjE) simp
      have "left m d (pend ks \<union> slots w') a'" if l: "left m d ?R a" for m d
      proof (cases "d = c")
        case d: True
        have "m = ap_timeout a + 1"
        proof -
          obtain k' n where "fst (entry_of c k' a)" "(k', n) \<in> ?R" "m = n + ap_timeout a + 1"
            using l d True no_partner(2) [OF parts(1,3,4,6) k ping] by (auto simp: left_def entry_of_def)
          moreover from this have "k' = k" using no_partner(1) [OF parts(1,3,4,6) k ping] by (simp add: entry_of_def)
          ultimately show ?thesis using k parts(1) unfolding live_ok_def by (metis add_0)
        qed
        with a'(9,10) d show ?thesis unfolding left_def by blast
      next
        case False
        show ?thesis
        proof (rule left_keep [OF l])
          fix k' n assume "(k', n) \<in> ?R" "entry_of d k' a \<noteq> (False, False)"
          moreover from this have "k' \<noteq> k" "k' < ap_next a" using ping False live_heap(2) [OF parts(1)] by (auto simp: entry_of_def)
          ultimately show "(k', n) \<in> pend ks \<union> slots w' \<and> entry_of d k' a' = entry_of d k' a"
            using a'(8,11) by (auto simp: pend_def entry_of_def)
        qed (use a' in simp_all)
      qed
      then have "destroys k ks a a'"
        using a' w ping True by (auto simp: destroys_def wheel_state_def destroy_entry_def)
      then show ?thesis by blast
    qed
  next
    case (kick c)
    then have X: "{c. ap_heap a k = Some (PingPongEntry (Some c))} = {}" by simp
    have wait: "waiting (ap_timeout a + 1) c (ap_log a)" using parts(2) k kick unfolding kick_ok_def by fastforce
    have "ap_status a c \<noteq> Connecting" using parts(5) kick unfolding fresh_ok_def by blast
    then consider "ap_status a c = Disconnected" | "ap_status a c = Connected \<or> ap_status a c = Disconnecting"
      by (cases "ap_status a c") auto
    then show ?thesis
    proof cases
      case 1
      then have "destroys k ks a ?a"
        using w rem kick X by (intro destroys_quiet) (auto simp: destroy_entry_def app_forceClose_def)
      then show ?thesis by blast
    next
      case 2
      have "pinv {} ?R' (app_log (ForceClosed c) ?a)" using rem X wait by (intro pinv_log) auto
      from close_ok [OF this, of c] obtain a' where a': "app_disconnected c (app_log (ForceClosed c) ?a) = Inr a'" "pinv {} ?R' a'"
        "ap_wheel a' = ap_wheel a" "ap_interval a' = ap_interval a" "ap_timeout a' = ap_timeout a"
        "ap_status a' = (ap_status a)(c := Disconnected)" "\<And>d k'. d \<noteq> c \<Longrightarrow> entry_of d k' a' = entry_of d k' ?a"
        by (auto simp: entry_of_def)
      have "left m d ?R' a'" if l: "left m d ?R a" for m d
      proof (cases "d = c")
        case True
        then show ?thesis using a'(6) by (simp add: left_def)
      next
        case False
        show ?thesis
          by (rule left_keep [OF l]) (use a' False kick in \<open>auto simp: entry_of_def pend_def\<close>)
      qed
      then have "destroys k ks a a'"
        using a' w kick 2 by (auto simp: destroys_def wheel_state_def destroy_entry_def app_forceClose_def)
      then show ?thesis by blast
    qed
  qed
qed

lemma destroy_all:
  assumes "wheel_state (pend ks) a" "distinct ks"
  shows "\<exists>a'. foldR (\<lambda>a k. destroy_entry k a) a ks = Inr a' \<and> wheel_state {} a' \<and>
    (\<forall>w w' m c. ap_wheel a = Some w \<longrightarrow> ap_wheel a' = Some w' \<longrightarrow> left m c (pend ks \<union> slots w) a \<longrightarrow> left m c (slots w') a')"
  using assms
proof (induction ks arbitrary: a)
  case Nil
  then show ?case by (auto simp: pend_def)
next
  case (Cons k ks)
  then obtain a1 where 1: "destroys k ks a a1" using destroys_exist [of k ks a] by auto
  then obtain w1 where w1: "ap_wheel a1 = Some w1" by (auto simp: destroys_def wheel_state_def)
  obtain a2 where 2: "foldR (\<lambda>a k. destroy_entry k a) a1 ks = Inr a2" "wheel_state {} a2"
    "\<And>w w' m c. ap_wheel a1 = Some w \<Longrightarrow> ap_wheel a2 = Some w' \<Longrightarrow> left m c (pend ks \<union> slots w) a1 \<Longrightarrow> left m c (slots w') a2"
    using Cons.IH [of a1] 1 Cons.prems(2) by (auto simp: destroys_def)
  then show ?case using 1 w1 by (intro exI [of _ a2]) (auto simp: destroys_def)
qed

lemma left_tick: "left (Suc m) c {(k, Suc n) |k n. (k, n) \<in> R} a \<Longrightarrow> left m c R (app_log Ticked (a\<lparr>ap_wheel := w\<rparr>))"
  by (auto simp: left_def entry_of_def)

lemma tick_ok:
  assumes "wheel_state {} a"
  shows "\<exists>a'. app_tick a = Inr a' \<and> wheel_state {} a' \<and>
    (\<forall>w w' m c. ap_wheel a = Some w \<longrightarrow> ap_wheel a' = Some w' \<longrightarrow> left (Suc m) c (slots w) a \<longrightarrow> left m c (slots w') a')"
proof -
  obtain w where w: "ap_wheel a = Some w" "one_wheel (ap_interval a) w" "pinv {} (slots w) a"
    using assms by (auto simp: wheel_state_def)
  obtain ks w' where t: "app_tick a = foldR (\<lambda>a k. destroy_entry k a) (app_log Ticked (a\<lparr>ap_wheel := Some w'\<rparr>)) ks"
    "one_wheel (ap_interval a) w'" "distinct ks"
    "slots w = (\<lambda>k. (k, 1)) ` set ks \<union> {(k, Suc n) |k n. (k, n) \<in> slots w'}"
    by (rule tick_one [OF w(1,2)])
  let ?a = "app_log Ticked (a\<lparr>ap_wheel := Some w'\<rparr>)" and ?R = "pend ks \<union> slots w'"
  have later: "slots w = {(k, Suc n) |k n. (k, n) \<in> ?R}" using t(4) by (auto simp: pend_def)
  then have "pinv {} {(k, Suc n) |k n. (k, n) \<in> ?R} (a\<lparr>ap_wheel := Some w'\<rparr>)" using w(3) by simp
  then have "pinv {} ?R ?a" by (rule pinv_tick)
  then have "wheel_state (pend ks) ?a" using t(2) by (auto simp: wheel_state_def)
  from destroy_all [OF this t(3)] obtain a' where a': "app_tick a = Inr a'" "wheel_state {} a'"
    "\<And>w'' m c. ap_wheel a' = Some w'' \<Longrightarrow> left m c ?R ?a \<Longrightarrow> left m c (slots w'') a'"
    using t(1) by auto
  have "left m c ?R ?a" if "left (Suc m) c (slots w) a" for m c
    using left_tick that unfolding later by blast
  with a' w(1) show ?thesis by (intro exI [of _ a']) auto
qed

fun app_ticks :: "nat \<Rightarrow> 'j app \<Rightarrow> 'j app result" where
  "app_ticks 0 a = Inr a"
| "app_ticks (Suc n) a = bindR (app_tick a) (app_ticks n)"

section \<open>Runs of the server\<close>

lemma resetKickoff_log: "resetKickoffEntry c (app_log e a) = app_log e (resetKickoffEntry c a)"
  by (simp add: resetKickoffEntry_def reset_entry_def app_log_def split: option.splits)

lemma pinv_pong:
  assumes "pinv X R a"
  shows "pinv X R (resetKickoffEntry c (app_log (GotPong c) a))"
proof -
  let ?a = "resetKickoffEntry c a"
  note r = pinv_resetKickoff [OF assms, where c = c]
  have "kick_ok R (app_log (GotPong c) ?a)"
    unfolding kick_ok_def
  proof (intro allI impI)
    fix k n d assume k: "(k, n) \<in> R" "ap_heap (app_log (GotPong c) ?a) k = Some (KickoffEntry (Some d))"
    then have "d \<noteq> c" using r(2) by simp
    moreover have "kick_ok R ?a" using r(1) by (simp add: pinv_def)
    ultimately show "ap_kickoffEntries (app_log (GotPong c) ?a) d = Some k \<and> n \<le> ap_timeout (app_log (GotPong c) ?a) + 1 \<and>
        waiting (ap_timeout (app_log (GotPong c) ?a) + 1 - n) d (ap_log (app_log (GotPong c) ?a))"
      using k waiting_snoc [where e = "GotPong c"] by (fastforce simp: kick_ok_def)
  qed
  then show ?thesis using r(1) by (auto simp: pinv_def resetKickoff_log intro: kicked_snoc)
qed

inductive app_step :: "(string \<Rightarrow> 'j option) \<Rightarrow> ('j \<Rightarrow> nat option) \<Rightarrow> 'j app \<Rightarrow> 'j app \<Rightarrow> bool"
  for parse :: "string \<Rightarrow> 'j option" and json_type :: "'j \<Rightarrow> nat option" where
  connect: "ap_status a c = Connecting \<Longrightarrow> app_connected c a = Inr a' \<Longrightarrow> app_step parse json_type a a'"
| closing: "ap_status a c = Connected \<Longrightarrow> app_step parse json_type a (a\<lparr>ap_status := (ap_status a)(c := Disconnecting)\<rparr>)"
| disconnect: "ap_status a c \<in> {Connected, Disconnecting} \<Longrightarrow> app_disconnected c a = Inr a' \<Longrightarrow> app_step parse json_type a a'"
| message: "app_recvMsgCallback parse json_type c b a = Inr (b', a') \<Longrightarrow> app_step parse json_type a a'"
| tick: "app_tick a = Inr a' \<Longrightarrow> app_step parse json_type a a'"

text \<open>A server that has been configured and started, with the steps that follow.\<close>

inductive app_reach :: "(string \<Rightarrow> 'j option) \<Rightarrow> ('j \<Rightarrow> nat option) \<Rightarrow> nat \<Rightarrow> nat \<Rightarrow> 'j app \<Rightarrow> bool"
  for parse :: "string \<Rightarrow> 'j option" and json_type :: "'j \<Rightarrow> nat option" and I :: nat and T :: nat where
  start: "app_start ((AppTcpServer_new True I T)\<lparr>ap_mode := mode, ap_businessHandlers := bh, ap_mediaHandlers := mh,
      ap_hasConnectionCallback := cb\<rparr>) = Some (Inr a) \<Longrightarrow> app_reach parse json_type I T a"
| step: "app_reach parse json_type I T a \<Longrightarrow> app_step parse json_type a a' \<Longrightarrow> app_reach parse json_type I T a'"

text \<open>No operation changes the interval or the timeout.\<close>

definition conf :: "'j app \<Rightarrow> nat \<times> nat" where
  "conf a = (ap_interval a, ap_timeout a)"

lemma conf_new_entry: "new_entry obj d a = Inr (k, a') \<Longrightarrow> conf a' = conf a"
  by (auto simp: new_entry_def bindR_eq_Inr conf_def split: option.splits)

lemma conf_callback: "app_connectionCallback c a = Inr a' \<Longrightarrow> conf a' = conf a"
  by (auto simp: app_connectionCallback_def bindR_eq_Inr conf_def [of "resetKickoffEntry c b" for b] conf_def [of "app_log e b" for e b]
      dest!: conf_new_entry split: if_splits) (auto simp: conf_def)

lemma conf_forceClose: "app_forceClose c a = Inr a' \<Longrightarrow> conf a' = conf a"
  by (auto simp: app_forceClose_def app_disconnected_def dest!: conf_callback split: if_splits) (auto simp: conf_def)

lemma conf_ping: "ping c a = Inr a' \<Longrightarrow> conf a' = conf a"
  by (auto simp: ping_def bindR_eq_Inr Let_def dest!: conf_new_entry conf_forceClose split: if_splits) (auto simp: conf_def)

lemma conf_destroy: "destroy_entry k a = Inr a' \<Longrightarrow> conf a' = conf a"
  by (auto simp: destroy_entry_def Let_def dest!: conf_ping conf_forceClose split: option.splits app_obj.splits if_splits)
    (auto simp: conf_def)

lemma conf_release: "app_release a e = Inr a' \<Longrightarrow> conf a' = conf a"
  by (cases e) (auto simp: bindR_eq_Inr dest!: conf_destroy split: option.splits, auto simp: conf_def)

lemma conf_releases: "foldR app_release a es = Inr a' \<Longrightarrow> conf a' = conf a"
  by (erule foldR_invariant [where P = "\<lambda>b. conf b = conf a"]) (auto dest: conf_release)

lemma conf_tick_wheel: "app_tick_wheel a i = Inr a' \<Longrightarrow> conf a' = conf a"
  by (auto simp: app_tick_wheel_def Let_def dest!: conf_releases split: option.splits if_splits) (auto simp: conf_def)

lemma conf_tick_wheels: "foldR app_tick_wheel a is = Inr a' \<Longrightarrow> conf a' = conf a"
  by (erule foldR_invariant [where P = "\<lambda>b. conf b = conf a"]) (auto dest: conf_tick_wheel)

lemma conf_tick: "app_tick a = Inr a' \<Longrightarrow> conf a' = conf a"
  by (auto simp: app_tick_def dest!: conf_tick_wheels split: option.splits) (auto simp: conf_def)

text \<open>The callback for messages logs, and resets on an answer.\<close>

lemma recv_cases:
  assumes "app_recvMsgCallback parse json_type c b a = Inr (b', a')"
  obtains "a' = a" | "a' = resetKickoffEntry c (app_log (GotPong c) a)" |
    e where "a' = app_log e a" "e \<noteq> Ticked" "\<And>d. e \<noteq> GotPong d" "\<And>d. e \<noteq> ForceClosed d"
proof -
  have "a' = a \<or> a' = resetKickoffEntry c (app_log (GotPong c) a) \<or> (\<exists>j. a' = app_log (BusinessCall c j) a) \<or>
      (\<exists>d n. a' = app_log (MediaCall c d n) a) \<or> (\<exists>n. a' = app_log (NoHandler n) a)"
    using assms
    by (auto simp: app_recvMsgCallback_def recvBusinessMsgCallback_def recvMediaMsgCallback_def bindR_eq_Inr Let_def
        split: if_splits option.splits) metis+
  then show ?thesis using that by (elim disjE exE) simp_all
qed

lemma conf_step: "app_step parse json_type a a' \<Longrightarrow> conf a' = conf a"
proof (induction rule: app_step.induct)
  case (message c b a b' a')
  then show ?case by (cases rule: recv_cases) (auto simp: conf_def)
qed (auto simp: app_connected_def app_disconnected_def dest!: conf_callback conf_tick, auto simp: conf_def)

section \<open>The invariant entry_of in every run\<close>

lemma connect_ok:
  assumes "wheel_state {} a" "ap_status a c = Connecting" "app_connected c a = Inr a'"
  shows "wheel_state {} a'"
proof -
  obtain w where w: "ap_wheel a = Some w" "one_wheel (ap_interval a) w" "pinv {} (slots w) a"
    using assms(1) by (auto simp: wheel_state_def)
  let ?a = "a\<lparr>ap_status := (ap_status a)(c := Connected)\<rparr>"
  have parts: "alive_ok {} a" "fresh_ok a" "timing_ok a" using w(3) by (simp_all add: pinv_def)
  have "alive_ok {c} ?a" "fresh_ok ?a" using parts(1,2) by (simp_all add: alive_ok_def fresh_ok_def)
  then have p: "pinv {c} ({} \<union> slots w) ?a"
    using w(3) pinv_frame [of ?a a] by (simp add: pinv_def live_ok_def kick_ok_def ping_ok_def gap_ok_def map_ok_def)
  have no: "ap_heap ?a k \<noteq> Some (PingPongEntry (Some c))" "ap_heap ?a k \<noteq> Some (KickoffEntry (Some c))" for k
    using parts(2) assms(2) by (simp_all add: fresh_ok_def)
  have "\<exists>w' a'. new_entry (PingPongEntry (Some c)) (ap_interval ?a) ?a = Inr (ap_next ?a, a') \<and>
    ap_wheel a' = Some w' \<and> one_wheel (ap_interval ?a) w' \<and> slots w' = insert (ap_next ?a, ap_interval ?a + 1) (slots w) \<and>
    a' = ?a\<lparr>ap_heap := (ap_heap ?a)(ap_next ?a \<mapsto> PingPongEntry (Some c)), ap_next := Suc (ap_next ?a), ap_wheel := Some w'\<rparr> \<and>
    pinv {} ({} \<union> slots w') (a'\<lparr>ap_pingPongEntries := (ap_pingPongEntries a')(c \<mapsto> ap_next ?a)\<rparr>)"
    by (rule ping_entry_ok [OF _ _ p]) (use w no in auto)
  then obtain w' a1 where a1: "new_entry (PingPongEntry (Some c)) (ap_interval ?a) ?a = Inr (ap_next ?a, a1)"
    "ap_wheel a1 = Some w'" "one_wheel (ap_interval ?a) w'" "ap_interval a1 = ap_interval a"
    "pinv {} (slots w') (a1\<lparr>ap_pingPongEntries := (ap_pingPongEntries a1)(c \<mapsto> ap_next ?a)\<rparr>)"
    by (elim exE conjE) simp
  let ?b = "a1\<lparr>ap_pingPongEntries := (ap_pingPongEntries a1)(c \<mapsto> ap_next ?a)\<rparr>"
  have eq: "a' = (if ap_hasConnectionCallback ?b then app_log (ConnectionCallback c) ?b else ?b)"
    using assms(3) a1(1) parts(3) by (auto simp: app_connected_def app_connectionCallback_def timing_ok_def)
  have "pinv {} (slots w') a'" unfolding eq by (rule pinv_callback [OF a1(5)])
  moreover have "ap_wheel a' = Some w'" "ap_interval a' = ap_interval a" using a1(2,4) by (simp_all add: eq)
  ultimately show ?thesis using a1(3) by (simp add: wheel_state_def)
qed

lemma step_ok:
  assumes "app_step parse json_type a a'" "wheel_state {} a"
  shows "wheel_state {} a'"
  using assms
proof (induction rule: app_step.induct)
  case (connect a c a')
  then show ?case by (blast intro: connect_ok)
next
  case (closing a c)
  then obtain w where "ap_wheel a = Some w" "one_wheel (ap_interval a) w" "pinv {} (slots w) a" by (auto simp: wheel_state_def)
  with pinv_status [of "{}" "slots w" a Disconnecting c] show ?case by (simp add: wheel_state_def)
next
  case (disconnect a c a')
  then obtain w where w: "ap_wheel a = Some w" "one_wheel (ap_interval a) w" "pinv {} (slots w) a" by (auto simp: wheel_state_def)
  from close_ok [OF w(3), of c] disconnect(2) w show ?case by (auto simp: wheel_state_def)
next
  case (message c b a b' a')
  from message(2) obtain w where w: "ap_wheel a = Some w" "one_wheel (ap_interval a) w" "pinv {} (slots w) a"
    by (auto simp: wheel_state_def)
  from message(1) show ?case
  proof (cases rule: recv_cases)
    case 1
    with message(2) show ?thesis by simp
  next
    case 2
    with pinv_pong [OF w(3), of c] w show ?thesis by (auto simp: wheel_state_def)
  next
    case (3 e)
    then have "pinv {} (slots w) a'" using w(3) by (auto intro: pinv_log)
    with 3 w show ?thesis by (auto simp: wheel_state_def)
  qed
next
  case (tick a a')
  with tick_ok [of a] show ?case by auto
qed

lemma reach_ok:
  assumes "app_reach parse json_type I T a" "0 < T" "T < I" "I < 500"
  shows "wheel_state {} a" "ap_interval a = I" "ap_timeout a = T"
proof -
  have "wheel_state {} a \<and> conf a = (I, T)"
    using assms(1)
  proof (induction rule: app_reach.induct)
    case (start cb mh bh mode a)
    obtain w where w: "TimingWheel_new I (I + 1) = Some (Inr w)" "one_wheel I w" "slots w = {}"
      using one_wheel_new [of I] assms(2-4) by auto
    with start assms(2-4) have "a = (AppTcpServer_new True I T)\<lparr>ap_mode := mode, ap_businessHandlers := bh, ap_mediaHandlers := mh,
        ap_hasConnectionCallback := cb, ap_wheel := Some w\<rparr>"
      by (simp add: app_start_def AppTcpServer_new_def)
    then show ?case
      using w assms(2-4) by (simp add: wheel_state_def pinv_def pinv_parts kicked_ok_def AppTcpServer_new_def conf_def)
  next
    case (step a a')
    then show ?case using step_ok conf_step by metis
  qed
  then show "wheel_state {} a" "ap_interval a = I" "ap_timeout a = T" by (simp_all add: conf_def)
qed

lemma reach_ticks: "app_reach parse json_type I T a \<Longrightarrow> app_ticks n a = Inr a' \<Longrightarrow> app_reach parse json_type I T a'"
proof (induction n arbitrary: a)
  case (Suc n)
  then obtain a1 where "app_tick a = Inr a1" "app_ticks n a1 = Inr a'" by (auto simp: bindR_eq_Inr)
  with Suc show ?case by (blast intro: app_reach.step app_step.tick)
qed simp

text \<open>
  C13: In every run of the application server with ping-pong on one I/O loop, with a timeout \<open>T\<close> and an interval \<open>I\<close> such that
  \<open>0 < T < I < 500\<close> (any order of connections, messages, closings and ticks of the
  wheel), a connection is kicked off only after a ping was sent to it that it has not answered, exactly one tick
  more than the timeout earlier.
\<close>

theorem kicked_off_only_after_silence:
  assumes "app_reach parse json_type I T a" "0 < T" "T < I" "I < 500" "ap_log a = before @ [ForceClosed c] @ after"
  shows "\<exists>A B. before = A @ [SentPing c] @ B \<and> GotPong c \<notin> set B \<and> length (filter (\<lambda>e. e = Ticked) B) = T + 1"
proof -
  have "kicked_ok a" "ap_timeout a = T"
    using reach_ok [OF assms(1-4)] by (auto simp: wheel_state_def pinv_def)
  with assms(5) show ?thesis by (auto simp: kicked_ok_def waiting_def)
qed

text \<open>
  Runs in which the peer of connection \<open>c\<close> does not answer and \<open>c\<close> is not told to shut down, with the number of ticks in them: other
  connections come, go, are told to shut down and answer their pings; \<open>c\<close> may send anything but answers and may be closed.
\<close>

inductive quiet_step :: "(string \<Rightarrow> 'j option) \<Rightarrow> ('j \<Rightarrow> nat option) \<Rightarrow> nat \<Rightarrow> 'j app \<Rightarrow> 'j app \<Rightarrow> bool"
  for parse :: "string \<Rightarrow> 'j option" and json_type :: "'j \<Rightarrow> nat option" and c :: nat where
  connects: "ap_status a d = Connecting \<Longrightarrow> app_connected d a = Inr a' \<Longrightarrow> quiet_step parse json_type c a a'"
| closes: "d \<noteq> c \<Longrightarrow> ap_status a d = Connected \<Longrightarrow>
    quiet_step parse json_type c a (a\<lparr>ap_status := (ap_status a)(d := Disconnecting)\<rparr>)"
| disconnects: "ap_status a d \<in> {Connected, Disconnecting} \<Longrightarrow> app_disconnected d a = Inr a' \<Longrightarrow> quiet_step parse json_type c a a'"
| messages: "app_recvMsgCallback parse json_type d b a = Inr (b', a') \<Longrightarrow>
    GotPong c \<notin> set (drop (length (ap_log a)) (ap_log a')) \<Longrightarrow> quiet_step parse json_type c a a'"

inductive quiet_run :: "(string \<Rightarrow> 'j option) \<Rightarrow> ('j \<Rightarrow> nat option) \<Rightarrow> nat \<Rightarrow> nat \<Rightarrow> 'j app \<Rightarrow> 'j app \<Rightarrow> bool"
  for parse :: "string \<Rightarrow> 'j option" and json_type :: "'j \<Rightarrow> nat option" and c :: nat where
  none: "quiet_run parse json_type c 0 a a"
| other: "quiet_run parse json_type c n a a1 \<Longrightarrow> quiet_step parse json_type c a1 a2 \<Longrightarrow> quiet_run parse json_type c n a a2"
| ticked: "quiet_run parse json_type c n a a1 \<Longrightarrow> app_tick a1 = Inr a2 \<Longrightarrow> quiet_run parse json_type c (Suc n) a a2"

lemma quiet_app_step: "quiet_step parse json_type c a a' \<Longrightarrow> app_step parse json_type a a'"
  by (induction rule: quiet_step.induct) (auto intro: app_step.intros)

text \<open>None of these steps gives the connection more time.\<close>

lemma connect_left:
  assumes "wheel_state {} a" "ap_wheel a = Some w" "ap_status a d = Connecting" "app_connected d a = Inr a'" "left m c (slots w) a"
  shows "\<exists>w'. ap_wheel a' = Some w' \<and> left m c (slots w') a'"
proof -
  from assms(1,2) have w: "one_wheel (ap_interval a) w" "pinv {} (slots w) a" by (auto simp: wheel_state_def)
  have parts: "live_ok (slots w) a" "fresh_ok a" "timing_ok a" using w(2) by (simp_all add: pinv_def)
  have "d \<noteq> c"
    using assms(3,5) parts(2) by (auto simp: left_def entry_of_def fresh_ok_def)
  let ?k = "ap_next a"
  obtain w' where w': "insertEntry (ap_interval a) (Some (User ?k)) w = Inr w'" "slots w' = insert (?k, Suc (ap_interval a)) (slots w)"
    using insert_one [OF w(1), of "ap_interval a" ?k] parts(3) by (auto simp: timing_ok_def)
  have old: "k < ap_next a" if "(k, n) \<in> slots w" for k n by (rule live_heap(2) [OF parts(1) that])
  have a': "ap_wheel a' = Some w'" "ap_heap a' = (ap_heap a)(?k \<mapsto> PingPongEntry (Some d))" "ap_status a' = (ap_status a)(d := Connected)"
    "ap_timeout a' = ap_timeout a"
    using assms(2,4) w'(1) parts(3)
    by (auto simp: app_connected_def app_connectionCallback_def new_entry_def timing_ok_def)
  have "left m c (slots w') a'"
  proof (rule left_keep [OF assms(5)])
    show "ap_status a' c = ap_status a c" using a'(3) \<open>d \<noteq> c\<close> by simp
    show "(k, n) \<in> slots w' \<and> entry_of c k a' = entry_of c k a" if "(k, n) \<in> slots w" for k n
      using that old [OF that] w'(2) a'(2) by (simp add: entry_of_def)
  qed (rule a'(4))
  with a'(1) show ?thesis by blast
qed

lemma quiet_left:
  assumes "quiet_step parse json_type c a a'" "wheel_state {} a" "ap_wheel a = Some w" "left m c (slots w) a"
  shows "\<exists>w'. ap_wheel a' = Some w' \<and> left m c (slots w') a'"
proof -
  have p: "pinv {} (slots w) a" using assms(2,3) by (auto simp: wheel_state_def)
  from assms(1) show ?thesis
  proof cases
    case (connects d)
    with connect_left [OF assms(2,3) _ _ assms(4)] show ?thesis by blast
  next
    case (closes d)
    then have "left m c (slots w) a'" by (intro left_keep [OF assms(4)]) (auto simp: entry_of_def)
    with closes assms(3) show ?thesis by simp
  next
    case (disconnects d)
    with close_ok [OF p, of d] have a': "ap_wheel a' = ap_wheel a" "ap_timeout a' = ap_timeout a"
      "ap_status a' = (ap_status a)(d := Disconnected)" "\<And>k. d \<noteq> c \<Longrightarrow> entry_of c k a' = entry_of c k a" by auto
    have "left m c (slots w) a'"
    proof (cases "d = c")
      case True
      then show ?thesis using a'(3) by (simp add: left_def)
    next
      case False
      then show ?thesis by (intro left_keep [OF assms(4)]) (use a' in auto)
    qed
    with a'(1) assms(3) show ?thesis by simp
  next
    case (messages d b b')
    from messages(1) show ?thesis
    proof (cases rule: recv_cases)
      case 1
      with assms(3,4) show ?thesis by simp
    next
      case 2
      have "ap_log a' = ap_log a @ [GotPong d]" by (simp add: 2 resetKickoffEntry_def reset_entry_def split: option.splits)
      then have "d \<noteq> c" using messages(2) by auto
      have heap: "entry_of c k a' = entry_of c k a" for k
      proof -
        have "entry_of c k (resetKickoffEntry d a) = entry_of c k a"
          using pinv_resetKickoff [OF p, where c = d] \<open>d \<noteq> c\<close> by (simp add: entry_of_def)
        then show ?thesis by (simp add: 2 resetKickoff_log entry_of_def)
      qed
      have "ap_wheel a' = ap_wheel a" "ap_status a' = ap_status a" "ap_timeout a' = ap_timeout a"
        by (simp_all add: 2 resetKickoffEntry_def reset_entry_def split: option.splits)
      then have "left m c (slots w) a'" by (intro left_keep [OF assms(4)]) (use heap in auto)
      with \<open>ap_wheel a' = ap_wheel a\<close> assms(3) show ?thesis by simp
    next
      case (3 e)
      have "left m c (slots w) a'" by (rule left_keep [OF assms(4)]) (simp_all add: 3 entry_of_def)
      with 3 assms(3) show ?thesis by simp
    qed
  qed
qed

lemma quiet_run_left:
  assumes "quiet_run parse json_type c n a a'" "wheel_state {} a" "\<exists>w. ap_wheel a = Some w \<and> left m c (slots w) a"
  shows "wheel_state {} a' \<and> (\<exists>w. ap_wheel a' = Some w \<and> left (m - n) c (slots w) a')"
  using assms
proof (induction rule: quiet_run.induct)
  case (other n a a1 a2)
  then show ?case using quiet_left [of parse json_type c a1 a2] step_ok [OF quiet_app_step] by blast
next
  case (ticked n a a1 a2)
  then obtain w where w: "wheel_state {} a1" "ap_wheel a1 = Some w" "left (m - n) c (slots w) a1" by blast
  have "left (Suc (m - Suc n)) c (slots w) a1"
  proof (cases "m - n")
    case 0
    then have "ap_status a1 c = Disconnected" using w(3) by (auto simp: left_def slots_def)
    then show ?thesis by (simp add: left_def)
  next
    case (Suc j)
    with w(3) show ?thesis by (simp add: diff_Suc_eq_diff_pred [symmetric] Suc_diff_Suc)
  qed
  with tick_ok [OF w(1)] ticked.hyps(2) w(2) show ?case by (fastforce simp: wheel_state_def)
qed simp

text \<open>
  C14: From every state of such a run (one I/O loop, \<open>0 < T < I < 500\<close>), let a connection be open (connected, not told to shut down) and let its peer
  answer no ping from now on, while other connections come, go, shut down and answer as they like: after \<open>I + T + 2\<close> ticks it
  is closed, and no tick fails.
\<close>

theorem silent_peer_closed:
  assumes "app_reach parse json_type I T a" "0 < T" "T < I" "I < 500" "ap_status a c = Connected"
    "quiet_run parse json_type c n a a'"
  shows "(\<exists>a''. app_tick a' = Inr a'') \<and> (I + T + 2 \<le> n \<longrightarrow> ap_status a' c = Disconnected)"
proof -
  note r = reach_ok [OF assms(1-4)]
  then obtain w where w: "ap_wheel a = Some w" "pinv {} (slots w) a" by (auto simp: wheel_state_def)
  have parts: "alive_ok {} a" "live_ok (slots w) a" using w(2) by (simp_all add: pinv_def)
  then obtain k where k: "ap_heap a k = Some (PingPongEntry (Some c))" using assms(5) by (auto simp: alive_ok_def)
  then have "k \<in> fst ` slots w" using parts(2) by (auto simp: live_ok_def)
  then obtain l where l: "(k, l) \<in> slots w" by auto
  then have "l \<le> I + 1" using parts(2) r(2) unfolding live_ok_def by blast
  moreover have "left (l + T + 1) c (slots w) a"
    using k l assms(5) r(3) unfolding left_def entry_of_def by auto
  then have q: "wheel_state {} a'" "\<exists>w. ap_wheel a' = Some w \<and> left (l + T + 1 - n) c (slots w) a'"
    using quiet_run_left [OF assms(6) r(1)] w(1) by blast+
  ultimately show ?thesis using tick_ok [OF q(1)] by (auto simp: left_def slots_def)
qed

text \<open>A server with an interval of 2 and a timeout of 1, and a connection whose peer is silent.\<close>

definition pingpong_server :: "nat app" where
  "pingpong_server = (AppTcpServer_new True 2 1)\<lparr>ap_wheel := Some \<lparr>tw_wheels = [[[], [], []]], tw_ticks = 0, tw_wheelsNum = 1,
     tw_buckets = 3, tw_fresh = 0\<rparr>\<rparr>"

lemmas app_eval = app_connected_def app_connectionCallback_def new_entry_def insertEntry_def insertEntryInloop_def insert_loop.simps
  wheel_put_def app_tick_def app_tick_wheel_def app_log_def destroy_entry_def ping_def app_forceClose_def app_disconnected_def
  resetKickoffEntry_def resetPingPongEntry_def reset_entry_def

lemma pingpong_server_start: "app_reach parse json_type 2 1 pingpong_server"
proof (rule app_reach.start)
  have "wheels_loop 2 3 3 1 = Some 1" by (subst wheels_loop.simps) simp
  then show "app_start ((AppTcpServer_new True 2 1)\<lparr>ap_mode := 1, ap_businessHandlers := [], ap_mediaHandlers := [],
      ap_hasConnectionCallback := False\<rparr>) = Some (Inr pingpong_server)"
    by (simp add: app_start_def AppTcpServer_new_def TimingWheel_new_def pingpong_server_def numeral_3_eq_3)
qed

text \<open>Its states: the buckets, the objects, the entries of the maps, the status of connection 0 and the log.\<close>

definition example_state ::
    "nat entry list list \<Rightarrow> nat \<Rightarrow> (nat \<rightharpoonup> app_obj) \<Rightarrow> nat \<Rightarrow> (nat \<rightharpoonup> nat) \<Rightarrow> (nat \<rightharpoonup> nat) \<Rightarrow> nat app_event list \<Rightarrow> nat app" where
  "example_state bs t h n pp kk log =
     pingpong_server\<lparr>ap_wheel := Some \<lparr>tw_wheels = [bs], tw_ticks = t, tw_wheelsNum = 1, tw_buckets = 3, tw_fresh = 0\<rparr>,
       ap_heap := h, ap_next := n, ap_pingPongEntries := pp, ap_kickoffEntries := kk,
       ap_status := (\<lambda>_. Connecting)(0 := Connected), ap_log := log\<rparr>"

lemma example_tick_quiet:
  "app_tick (example_state [[], b1, b2] t h n pp kk log) = Inr (example_state [b1, b2, []] (Suc t) h n pp kk (log @ [Ticked]))"
  by (simp add: example_state_def pingpong_server_def app_tick_def app_tick_wheel_def app_log_def)

lemma example_connect:
  "app_connected 0 pingpong_server = Inr (example_state [[], [], [User 0]] 0 [0 \<mapsto> PingPongEntry (Some 0)] 1 [0 \<mapsto> 0] Map.empty [])"
  by (simp add: app_eval example_state_def pingpong_server_def AppTcpServer_new_def)

lemma example_tick_ping:
  "app_tick (example_state [[User 0], [], []] t [0 \<mapsto> PingPongEntry (Some 0)] 1 pp kk log) =
   Inr (example_state [[], [User 1], [User 2]] (Suc t) [1 \<mapsto> KickoffEntry (Some 0), 2 \<mapsto> PingPongEntry (Some 0)] 3
     (pp(0 \<mapsto> 2)) (kk(0 \<mapsto> 1)) (log @ [Ticked, SentPing 0]))"
  by (simp add: app_eval example_state_def pingpong_server_def AppTcpServer_new_def numeral_2_eq_2 numeral_3_eq_3)

lemma example_tick_kick:
  "\<exists>a. app_tick (example_state [[User 1], b1, b2] t [1 \<mapsto> KickoffEntry (Some 0), 2 \<mapsto> PingPongEntry (Some 0)] 3
     [0 \<mapsto> 2] [0 \<mapsto> 1] log) = Inr a \<and> ap_log a = log @ [Ticked, ForceClosed 0]"
  by (simp add: app_eval example_state_def pingpong_server_def AppTcpServer_new_def)

lemma app_ticks_numeral:
  "app_ticks (numeral k) a = bindR (app_tick a) (app_ticks (pred_numeral k))" "app_ticks 1 a = app_tick a"
  by (simp_all add: numeral_eq_Suc) (cases "app_tick a", simp_all)

lemma example_ticks:
  "\<exists>a. bindR (app_connected 0 pingpong_server) (app_ticks 5) = Inr a \<and>
    ap_log a = [Ticked, Ticked, Ticked, SentPing 0, Ticked, Ticked] @ [ForceClosed 0] @ []"
  using example_tick_kick [of "[User 2]" "[]" _ "[Ticked, Ticked, Ticked, SentPing 0, Ticked]"]
  by (simp add: app_ticks_numeral example_connect example_tick_quiet example_tick_ping del: One_nat_def app_ticks.simps)

lemma silent_example_reach:
  assumes "app_connected 0 pingpong_server = Inr a"
  shows "app_reach example_parse Some 2 1 a"
  by (rule app_reach.step [OF pingpong_server_start app_step.connect [OF _ assms]])
    (simp add: pingpong_server_def AppTcpServer_new_def)

theorem kicked_off_only_after_silence_witness:
  "\<exists>a. app_reach example_parse Some 2 1 a \<and> ap_log a = [Ticked, Ticked, Ticked, SentPing 0, Ticked, Ticked] @ [ForceClosed 0] @ [] \<and>
    (\<exists>A B. [Ticked, Ticked, Ticked, SentPing 0, Ticked, Ticked] = A @ [SentPing 0] @ B \<and> GotPong 0 \<notin> set B \<and>
       length (filter (\<lambda>e. e = (Ticked :: nat app_event)) B) = 1 + 1)"
proof -
  obtain a1 a where a: "app_connected 0 pingpong_server = Inr a1" "app_ticks 5 a1 = Inr a"
    "ap_log a = [Ticked, Ticked, Ticked, SentPing 0, Ticked, Ticked] @ [ForceClosed 0] @ []"
    using example_ticks by (auto simp: bindR_eq_Inr)
  then have r: "app_reach example_parse Some 2 1 a" using reach_ticks [OF silent_example_reach] by blast
  from kicked_off_only_after_silence [OF r _ _ _ a(3)] r a(3) show ?thesis by (intro exI [of _ a]) simp
qed

lemma quiet_ticks:
  assumes "quiet_run parse json_type c n a a1" "wheel_state {} a1"
  shows "\<exists>a2. quiet_run parse json_type c (n + m) a a2"
proof -
  have "\<exists>a2. quiet_run parse json_type c (n + m) a a2 \<and> wheel_state {} a2"
  proof (induction m)
    case (Suc m)
    then obtain a2 where "quiet_run parse json_type c (n + m) a a2" "wheel_state {} a2" by blast
    with tick_ok [of a2] quiet_run.ticked [of parse json_type c "n + m" a a2] show ?case by auto
  qed (use assms in auto)
  then show ?thesis by blast
qed

text \<open>Another connection comes while the first one is silent.\<close>

lemma example_connect_other:
  "\<exists>a2. app_connected 1 (example_state [[], [], [User 0]] 0 [0 \<mapsto> PingPongEntry (Some 0)] 1 [0 \<mapsto> 0] Map.empty []) = Inr a2"
  by (simp add: app_eval example_state_def pingpong_server_def AppTcpServer_new_def)

theorem silent_peer_closed_witness:
  "\<exists>a1 a2 a3. app_connected 0 pingpong_server = Inr a1 \<and> app_connected 1 a1 = Inr a2 \<and> quiet_run example_parse Some 0 0 a1 a2 \<and>
    quiet_run example_parse Some 0 5 a1 a3 \<and> ap_status a3 0 = Disconnected"
proof -
  let ?a = "example_state [[], [], [User 0]] 0 [0 \<mapsto> PingPongEntry (Some 0)] 1 [0 \<mapsto> 0] Map.empty []"
  note r = silent_example_reach [OF example_connect]
  obtain a2 where a2: "app_connected 1 ?a = Inr a2" using example_connect_other by blast
  have st: "ap_status ?a 1 = Connecting" "ap_status ?a 0 = Connected" by (simp_all add: example_state_def)
  have q: "quiet_run example_parse Some 0 0 ?a a2"
    by (rule quiet_run.other [OF quiet_run.none quiet_step.connects [OF st(1) a2]])
  have "app_reach example_parse Some 2 1 a2" by (rule app_reach.step [OF r app_step.connect [OF st(1) a2]])
  then have "wheel_state {} a2" by (rule reach_ok) simp_all
  with quiet_ticks [OF q, of 5] obtain a3 where a3: "quiet_run example_parse Some 0 5 ?a a3" by auto
  from silent_peer_closed [OF r _ _ _ st(2) a3] have "ap_status a3 0 = Disconnected" by simp
  with example_connect a2 q a3 show ?thesis by blast
qed

end
