(* ===== verification/ThreadPool.thy ===== *)
theory ThreadPool
  imports Cooper_Prelude "HOL-Library.Multiset"
begin

text \<open>
  The pool of worker threads (\<^verbatim>\<open>cooper/util/ThreadPool.*\<close>). A worker is at one of the points of its loop at
  which another thread can come between: the test of \<^verbatim>\<open>stop_\<close>, the wait for the mutex, the condition of the inner loop, the call of
  \<^verbatim>\<open>wait\<close>, which gives the mutex back and sleeps in one step, the look at the queue, at whose end the mutex is given back with a task
  in hand, the start of that task, and its end. \<^verbatim>\<open>addTask\<close> holds
  the mutex from its start to its end and is one step; \<^verbatim>\<open>stop\<close> does not take the mutex, so that setting the flag, notifying and
  each join are steps of their own. Tasks are taken out of the queue in the order in which they were added and each is started once, by the worker
  that has taken it; two workers may start theirs in the other order. In a pool that is not stopped a task that waits finds a worker; \<^verbatim>\<open>stop\<close> returns, unless a worker has tested the flag and does not sleep yet.
\<close>

section \<open>The pool\<close>

datatype 't worker = AtLoop | Locking | Checking | Parking | Asleep | Waking | Taking | Holding 't | Running 't | Exited

datatype stopper = NotStopping | Notifying | Joining nat | Stopped

text \<open>\<open>tp_added\<close>, \<open>tp_taken\<close> and \<open>tp_started\<close> record the tasks in the order of the calls of \<^verbatim>\<open>addTask\<close>, in the order in
  which they leave the queue and in the order in which the calls \<^verbatim>\<open>r()\<close> begin.\<close>

record 't pool =
  tp_workers :: "'t worker list"
  tp_queue :: "'t list"
  tp_stop :: bool
  tp_holder :: "nat option"
  tp_stopper :: stopper
  tp_added :: "'t list"
  tp_taken :: "'t list"
  tp_started :: "'t list"

definition ThreadPool_new :: "nat \<Rightarrow> 't pool result" where
  "ThreadPool_new threadNum =
     assertR (threadNum > 0)
       (Inr \<lparr>tp_workers = replicate threadNum AtLoop, tp_queue = [], tp_stop = False, tp_holder = None,
             tp_stopper = NotStopping, tp_added = [], tp_taken = [], tp_started = []\<rparr>)"

definition set_worker :: "nat \<Rightarrow> 't worker \<Rightarrow> 't pool \<Rightarrow> 't pool" where
  "set_worker i w p = p\<lparr>tp_workers := (tp_workers p)[i := w]\<rparr>"

text \<open>
  \<^verbatim>\<open>notify_one\<close> wakes one of the sleeping threads, which one is not specified; it does nothing when none sleeps.
\<close>

definition notify_one :: "nat option \<Rightarrow> 't pool \<Rightarrow> 't pool option" where
  "notify_one w p =
     (case w of
        None \<Rightarrow> if Asleep \<in> set (tp_workers p) then None else Some p
      | Some i \<Rightarrow> if i < length (tp_workers p) \<and> tp_workers p ! i = Asleep then Some (set_worker i Waking p) else None)"

definition notify_all :: "'t pool \<Rightarrow> 't pool" where
  "notify_all p = p\<lparr>tp_workers := map (\<lambda>w. if w = Asleep then Waking else w) (tp_workers p)\<rparr>"

definition addTask :: "'t \<Rightarrow> nat option \<Rightarrow> 't pool \<Rightarrow> 't pool option" where
  "addTask t w p =
     (if tp_holder p \<noteq> None then None
      else notify_one w (p\<lparr>tp_queue := tp_queue p @ [t], tp_added := tp_added p @ [t]\<rparr>))"

definition getTaskCount :: "'t pool \<Rightarrow> nat option" where
  "getTaskCount p = (if tp_holder p \<noteq> None then None else Some (length (tp_queue p)))"

text \<open>One step of the function of worker \<open>i\<close>; \<open>None\<close> when it has to wait.\<close>

definition lock_step :: "nat \<Rightarrow> 't pool \<Rightarrow> 't pool option" where
  "lock_step i p = (if tp_holder p \<noteq> None then None else Some ((set_worker i Checking p)\<lparr>tp_holder := Some i\<rparr>))"

definition func_step :: "nat \<Rightarrow> 't pool \<Rightarrow> 't pool option" where
  "func_step i p =
     (if \<not> i < length (tp_workers p) then None
      else case tp_workers p ! i of
          AtLoop \<Rightarrow> Some (set_worker i (if tp_stop p then Exited else Locking) p)
        | Locking \<Rightarrow> lock_step i p
        | Checking \<Rightarrow> Some (set_worker i (if \<not> tp_stop p \<and> tp_queue p = [] then Parking else Taking) p)
        | Parking \<Rightarrow> Some ((set_worker i Asleep p)\<lparr>tp_holder := None\<rparr>)
        | Asleep \<Rightarrow> None
        | Waking \<Rightarrow> lock_step i p
        | Taking \<Rightarrow>
            (case tp_queue p of
               [] \<Rightarrow> Some ((set_worker i AtLoop p)\<lparr>tp_holder := None\<rparr>)
             | r # rest \<Rightarrow>
                 Some ((set_worker i (Holding r) p)\<lparr>tp_queue := rest, tp_holder := None, tp_taken := tp_taken p @ [r]\<rparr>))
        | Holding r \<Rightarrow> Some ((set_worker i (Running r) p)\<lparr>tp_started := tp_started p @ [r]\<rparr>)
        | Running r \<Rightarrow> Some (set_worker i AtLoop p)
        | Exited \<Rightarrow> None)"

definition stop_step :: "'t pool \<Rightarrow> 't pool option" where
  "stop_step p =
     (case tp_stopper p of
        NotStopping \<Rightarrow> if tp_stop p then Some (p\<lparr>tp_stopper := Stopped\<rparr>) else Some (p\<lparr>tp_stop := True, tp_stopper := Notifying\<rparr>)
      | Notifying \<Rightarrow> Some ((notify_all p)\<lparr>tp_stopper := Joining 0\<rparr>)
      | Joining k \<Rightarrow>
          if k < length (tp_workers p)
          then (if tp_workers p ! k = Exited then Some (p\<lparr>tp_stopper := Joining (Suc k)\<rparr>) else None)
          else Some (p\<lparr>tp_stopper := Stopped\<rparr>)
      | Stopped \<Rightarrow> None)"

text \<open>A sleeping thread may also wake up without a notification.\<close>

definition spurious :: "nat \<Rightarrow> 't pool \<Rightarrow> 't pool option" where
  "spurious i p =
     (if i < length (tp_workers p) \<and> tp_workers p ! i = Asleep then Some (set_worker i Waking p) else None)"

datatype 't pool_event = AddTask 't "nat option" | Work nat | Stop | Spurious nat

fun pool_step :: "'t pool_event \<Rightarrow> 't pool \<Rightarrow> 't pool option" where
  "pool_step (AddTask t w) p = addTask t w p"
| "pool_step (Work i) p = func_step i p"
| "pool_step Stop p = stop_step p"
| "pool_step (Spurious i) p = spurious i p"

fun pool_run :: "'t pool_event list \<Rightarrow> 't pool \<Rightarrow> 't pool option" where
  "pool_run [] p = Some p"
| "pool_run (ev # evs) p = Option.bind (pool_step ev p) (pool_run evs)"

inductive pool_reach :: "nat \<Rightarrow> 't pool \<Rightarrow> bool" for n where
  start: "ThreadPool_new n = Inr p \<Longrightarrow> pool_reach n p"
| step: "pool_reach n p \<Longrightarrow> pool_step ev p = Some p' \<Longrightarrow> pool_reach n p'"

section \<open>The invariant\<close>

definition holds_lock :: "'t worker \<Rightarrow> bool" where
  "holds_lock w \<longleftrightarrow> w = Checking \<or> w = Parking \<or> w = Taking"

definition awake :: "'t worker \<Rightarrow> bool" where
  "awake w \<longleftrightarrow> w \<noteq> Asleep \<and> w \<noteq> Parking \<and> w \<noteq> Exited"

definition pool_inv :: "nat \<Rightarrow> 't pool \<Rightarrow> bool" where
  "pool_inv n p \<longleftrightarrow>
     0 < n \<and> length (tp_workers p) = n \<and>
     (\<forall>i < n. holds_lock (tp_workers p ! i) \<longleftrightarrow> tp_holder p = Some i) \<and>
     (\<forall>i. tp_holder p = Some i \<longrightarrow> i < n) \<and>
     (\<forall>i < n. tp_workers p ! i = Parking \<longrightarrow> tp_queue p = []) \<and>
     (\<forall>i < n. tp_workers p ! i = Exited \<longrightarrow> tp_stop p) \<and>
     (tp_queue p \<noteq> [] \<longrightarrow> tp_stop p \<or> (\<exists>i < n. awake (tp_workers p ! i))) \<and>
     (tp_stopper p = NotStopping \<longleftrightarrow> \<not> tp_stop p) \<and>
     tp_taken p @ tp_queue p = tp_added p"

lemma pool_invD:
  assumes "pool_inv n p"
  shows "0 < n" "length (tp_workers p) = n" "i < n \<Longrightarrow> holds_lock (tp_workers p ! i) \<longleftrightarrow> tp_holder p = Some i"
    "tp_holder p = Some i \<Longrightarrow> i < n" "i < n \<Longrightarrow> tp_workers p ! i = Parking \<Longrightarrow> tp_queue p = []"
    "i < n \<Longrightarrow> tp_workers p ! i = Exited \<Longrightarrow> tp_stop p"
    "tp_queue p \<noteq> [] \<Longrightarrow> \<not> tp_stop p \<Longrightarrow> \<exists>i < n. awake (tp_workers p ! i)"
    "tp_stopper p = NotStopping \<longleftrightarrow> \<not> tp_stop p" "tp_taken p @ tp_queue p = tp_added p"
  using assms unfolding pool_inv_def by blast+

lemmas worker_defs = holds_lock_def awake_def set_worker_def

lemma set_worker_sel [simp]:
  "tp_queue (set_worker i w p) = tp_queue p" "tp_stop (set_worker i w p) = tp_stop p"
  "tp_holder (set_worker i w p) = tp_holder p" "tp_stopper (set_worker i w p) = tp_stopper p"
  "tp_added (set_worker i w p) = tp_added p" "tp_taken (set_worker i w p) = tp_taken p" "tp_started (set_worker i w p) = tp_started p"
  "tp_workers (set_worker i w p) = (tp_workers p)[i := w]"
  by (simp_all add: set_worker_def)

lemma pool_inv_new: "ThreadPool_new n = Inr p \<Longrightarrow> pool_inv n p"
  by (auto simp: ThreadPool_new_def pool_inv_def holds_lock_def assertR_def split: if_splits)

text \<open>
  A worker that does not hold the mutex before and after its step changes only its own place.
\<close>

lemma pool_inv_move:
  assumes inv: "pool_inv n p" and i: "i < n"
    and w: "holds_lock w \<longleftrightarrow> holds_lock (tp_workers p ! i)" "w = Exited \<Longrightarrow> tp_stop p"
      "w = Parking \<Longrightarrow> tp_queue p = []" "awake w \<or> tp_queue p = [] \<or> tp_stop p"
  shows "pool_inv n (set_worker i w p)"
  unfolding pool_inv_def set_worker_sel
  using pool_invD [OF inv] i w by (auto simp: nth_list_update)

lemma pool_inv_lock:
  assumes inv: "pool_inv n p" and i: "i < n" and s: "lock_step i p = Some p'"
  shows "pool_inv n p'"
proof -
  have h: "tp_holder p = None" and p': "p' = (set_worker i Checking p)\<lparr>tp_holder := Some i\<rparr>"
    using s by (auto simp: lock_step_def split: if_splits)
  have "\<not> holds_lock (tp_workers p ! j)" if "j < n" for j
    using pool_invD(3) [OF inv that] h by simp
  then show ?thesis
    unfolding pool_inv_def p' using pool_invD [OF inv] i by (auto simp: nth_list_update worker_defs)
qed

text \<open>Giving the mutex back: the worker that held it goes on to \<open>w\<close>, with the front of the queue or with nothing.\<close>

lemma pool_inv_release:
  assumes inv: "pool_inv n p" and i: "i < n" "holds_lock (tp_workers p ! i)" and w: "\<not> holds_lock w" "w \<noteq> Exited"
    and q: "tp_queue p = ts @ q'" "awake w \<or> q' = []"
  shows "pool_inv n ((set_worker i w p)\<lparr>tp_queue := q', tp_holder := None, tp_taken := tp_taken p @ ts\<rparr>)"
proof -
  have h: "tp_holder p = Some i" using pool_invD(3) [OF inv i(1)] i(2) by simp
  have "\<not> holds_lock (tp_workers p ! j)" if "j < n" "j \<noteq> i" for j
    using pool_invD(3) [OF inv that(1)] h that(2) by simp
  moreover have "tp_taken p @ ts @ q' = tp_added p" using pool_invD(9) [OF inv] q(1) by simp
  ultimately show ?thesis
    unfolding pool_inv_def using pool_invD [OF inv] i w q
    by (auto simp: nth_list_update holds_lock_def)
qed

lemma pool_inv_func:
  assumes inv: "pool_inv n p" and s: "func_step i p = Some p'"
  shows "pool_inv n p'"
proof -
  have i: "i < n" using s pool_invD(2) [OF inv] by (auto simp: func_step_def split: if_splits)
  then have i': "i < length (tp_workers p)" using pool_invD(2) [OF inv] by simp
  show ?thesis
  proof (cases "tp_workers p ! i")
    case Parking
    have "p' = (set_worker i Asleep p)\<lparr>tp_queue := tp_queue p, tp_holder := None, tp_taken := tp_taken p @ []\<rparr>"
      using s i' Parking by (cases p) (auto simp: func_step_def set_worker_def)
    then show ?thesis
      using pool_inv_release [OF inv i, where w = Asleep and ts = "[]" and q' = "tp_queue p"] pool_invD(5) [OF inv i Parking] Parking
      by (simp add: holds_lock_def)
  next
    case Taking
    show ?thesis
    proof (cases "tp_queue p")
      case Nil
      then have "p' = (set_worker i AtLoop p)\<lparr>tp_queue := [], tp_holder := None, tp_taken := tp_taken p @ []\<rparr>"
        using s i' Taking by (cases p) (auto simp: func_step_def set_worker_def)
      then show ?thesis
        using pool_inv_release [OF inv i, where w = AtLoop and ts = "[]" and q' = "[]"] Nil Taking
        by (simp add: worker_defs)
    next
      case (Cons r rest)
      then show ?thesis
        using s i' Taking pool_inv_release [OF inv i, where w = "Holding r" and ts = "[r]" and q' = rest]
        by (simp add: func_step_def holds_lock_def awake_def)
    qed
  next
    case (Holding r)
    have "pool_inv n (set_worker i (Running r) p)"
      by (rule pool_inv_move [OF inv i]) (simp_all add: Holding worker_defs)
    then show ?thesis using s i' Holding by (auto simp: func_step_def pool_inv_def)
  qed (use s i' pool_inv_lock [OF inv i] in
        \<open>auto simp: func_step_def worker_defs intro!: pool_inv_move [OF inv i, unfolded set_worker_def] split: if_splits\<close>)
qed

lemma pool_inv_wake:
  assumes inv: "pool_inv n p" and i: "i < n" "tp_workers p ! i = Asleep"
  shows "pool_inv n (set_worker i Waking p)"
  by (rule pool_inv_move [OF inv i(1)]) (simp_all add: i worker_defs)

lemma pool_inv_add:
  assumes inv: "pool_inv n p" and s: "addTask t w p = Some p'"
  shows "pool_inv n p'"
proof -
  let ?p = "p\<lparr>tp_queue := tp_queue p @ [t], tp_added := tp_added p @ [t]\<rparr>"
  have h: "tp_holder p = None" and s': "notify_one w ?p = Some p'"
    using s by (auto simp: addTask_def split: if_splits)
  have free: "\<not> holds_lock (tp_workers p ! j)" if "j < n" for j
    using pool_invD(3) [OF inv that] h by simp
  note D = pool_invD [OF inv]
  show ?thesis
  proof (cases w)
    case None
    then have p': "p' = ?p" and "Asleep \<notin> set (tp_workers p)"
      using s' by (auto simp: notify_one_def split: if_splits)
    then have "tp_workers p ! 0 \<noteq> Asleep" using D(1,2) by (metis nth_mem)
    then have "tp_stop p \<or> awake (tp_workers p ! 0)"
      using D(6) [OF D(1)] free [OF D(1)] by (auto simp: awake_def holds_lock_def)
    then show ?thesis
      unfolding pool_inv_def p' using D free by (auto simp: holds_lock_def)
  next
    case (Some i)
    then have i: "i < n" "tp_workers p ! i = Asleep" and p': "p' = set_worker i Waking ?p"
      using s' D(2) by (auto simp: notify_one_def split: if_splits)
    show ?thesis
      unfolding pool_inv_def p' set_worker_sel using D free i
      by (auto simp: nth_list_update worker_defs)
  qed
qed

lemma pool_inv_stop:
  assumes inv: "pool_inv n p" and s: "stop_step p = Some p'"
  shows "pool_inv n p'"
proof (cases "tp_stopper p")
  case Notifying
  have h: "holds_lock (if w = Asleep then Waking else w) = holds_lock w" for w :: "'a worker"
    by (simp add: holds_lock_def)
  show ?thesis
    using s Notifying inv by (auto simp: stop_step_def notify_all_def pool_inv_def h split: if_splits)
qed (use s inv in \<open>auto simp: stop_step_def pool_inv_def split: if_splits\<close>)

lemma pool_inv_step: "pool_inv n p \<Longrightarrow> pool_step ev p = Some p' \<Longrightarrow> pool_inv n p'"
  by (cases ev)
    (auto simp: spurious_def pool_invD(2) intro: pool_inv_add pool_inv_func pool_inv_stop pool_inv_wake split: if_splits)

lemma pool_reach_inv: "pool_reach n p \<Longrightarrow> pool_inv n p"
  by (induction rule: pool_reach.induct) (auto intro: pool_inv_new pool_inv_step)

section \<open>Tasks are taken in order, and one that waits finds a worker\<close>

lemma pool_run_append: "pool_run (xs @ ys) p = Option.bind (pool_run xs p) (pool_run ys)"
  by (induction xs arbitrary: p) (simp_all split: bind_splits)

lemma func_step_at:
  assumes "i < length (tp_workers p)"
  shows "tp_workers p ! i = Checking \<Longrightarrow> tp_queue p \<noteq> [] \<Longrightarrow> pool_step (Work i) p = Some (set_worker i Taking p)"
    "tp_workers p ! i = Running r \<Longrightarrow> pool_step (Work i) p = Some (set_worker i AtLoop p)"
    "tp_workers p ! i = AtLoop \<Longrightarrow> \<not> tp_stop p \<Longrightarrow> pool_step (Work i) p = Some (set_worker i Locking p)"
    "tp_workers p ! i = Locking \<or> tp_workers p ! i = Waking \<Longrightarrow> tp_holder p = None \<Longrightarrow>
       pool_step (Work i) p = Some ((set_worker i Checking p)\<lparr>tp_holder := Some i\<rparr>)"
    "tp_workers p ! i = Holding r \<Longrightarrow>
       pool_step (Work i) p = Some ((set_worker i (Running r) p)\<lparr>tp_started := tp_started p @ [r]\<rparr>)"
  using assms by (auto simp: func_step_def lock_step_def)

text \<open>The task a worker has taken and not yet started.\<close>

fun held_task :: "'t worker \<Rightarrow> 't list" where
  "held_task (Holding r) = [r]"
| "held_task w = []"

definition held :: "'t pool \<Rightarrow> 't list" where
  "held p = concat (map held_task (tp_workers p))"

lemma held_update:
  assumes "i < length ws"
  shows "mset (concat (map held_task (ws[i := w]))) + mset (held_task (ws ! i)) =
    mset (concat (map held_task ws)) + mset (held_task w)"
proof -
  have "mset (concat (map held_task ws)) = mset (concat (map held_task (take i ws))) + mset (held_task (ws ! i)) +
      mset (concat (map held_task (drop (Suc i) ws)))"
    by (subst id_take_nth_drop [OF assms]) simp
  then show ?thesis by (simp add: upd_conv_take_nth_drop [OF assms])
qed

lemma held_same:
  assumes "i < length ws" "held_task (ws ! i) = []" "held_task w = []"
  shows "concat (map held_task (ws[i := w])) = concat (map held_task ws)"
proof -
  have "map held_task (ws[i := w]) = map held_task ws" using assms by (simp add: map_update list_update_same_conv)
  then show ?thesis by (rule arg_cong)
qed

text \<open>The tasks that were taken are those started and those in the hands of workers; a single worker
  starts them in order.\<close>

definition pool_order :: "'t pool \<Rightarrow> bool" where
  "pool_order p \<longleftrightarrow> mset (tp_started p) + mset (held p) = mset (tp_taken p) \<and>
     (length (tp_workers p) = 1 \<longrightarrow> tp_started p @ held p = tp_taken p)"

lemma pool_order_same:
  assumes "pool_order p" "tp_started p' = tp_started p" "tp_taken p' = tp_taken p" "held p' = held p"
    "length (tp_workers p') = length (tp_workers p)"
  shows "pool_order p'"
  using assms by (simp add: pool_order_def)

lemma length_one_update: "length ws = 1 \<Longrightarrow> i < length ws \<Longrightarrow> ws[i := w] = [w]"
  by (cases ws) auto

lemma pool_order_func:
  assumes o: "pool_order p" and s: "func_step i p = Some p'"
  shows "pool_order p'"
proof -
  have i: "i < length (tp_workers p)" using s by (auto simp: func_step_def split: if_splits)
  note up = held_update [OF i] and one = length_one_update [OF _ i]
  have single: "tp_workers p = [tp_workers p ! i]" if "length (tp_workers p) = 1"
    using that i by (cases "tp_workers p") auto
  consider r rest where "tp_workers p ! i = Taking" "tp_queue p = r # rest"
    | r where "tp_workers p ! i = Holding r"
    | "held_task (tp_workers p ! i) = []" "\<not> (tp_workers p ! i = Taking \<and> tp_queue p \<noteq> [])"
    by (cases "tp_workers p ! i"; cases "tp_queue p") auto
  then show ?thesis
  proof cases
    case (1 r rest)
    with s i have p': "tp_started p' = tp_started p" "tp_taken p' = tp_taken p @ [r]" "tp_workers p' = (tp_workers p)[i := Holding r]"
      by (auto simp: func_step_def)
    have "mset (held p') = add_mset r (mset (held p))" using up [of "Holding r"] 1 p'(3) by (simp add: held_def)
    moreover have "held p = [] \<and> held p' = [r]" if "length (tp_workers p) = 1"
      using one [OF that, of "Holding r"] single [OF that] 1(1) p'(3) by (simp add: held_def)
    ultimately show ?thesis using o p' by (auto simp: pool_order_def)
  next
    case (2 r)
    with s i have p': "tp_started p' = tp_started p @ [r]" "tp_taken p' = tp_taken p" "tp_workers p' = (tp_workers p)[i := Running r]"
      by (auto simp: func_step_def)
    have "mset (held p) = add_mset r (mset (held p'))" using up [of "Running r"] 2 p'(3) by (simp add: held_def)
    moreover have "held p = [r] \<and> held p' = []" if "length (tp_workers p) = 1"
      using one [OF that, of "Running r"] single [OF that] 2 p'(3) by (simp add: held_def)
    ultimately show ?thesis using o p' by (auto simp: pool_order_def)
  next
    case 3
    with s i have "tp_started p' = tp_started p \<and> tp_taken p' = tp_taken p \<and>
        (\<exists>w. tp_workers p' = (tp_workers p)[i := w] \<and> held_task w = [])"
      by (cases "tp_workers p ! i") (auto simp: func_step_def lock_step_def split: if_splits list.splits)
    then obtain w where p': "tp_started p' = tp_started p" "tp_taken p' = tp_taken p"
      "tp_workers p' = (tp_workers p)[i := w]" "held_task w = []" by blast
    show ?thesis
      by (rule pool_order_same [OF o]) (use p' held_same [OF i 3(1) p'(4)] in \<open>simp_all add: held_def\<close>)
  qed
qed

lemma pool_order_step:
  assumes "pool_order p" "pool_step ev p = Some p'"
  shows "pool_order p'"
proof (cases ev)
  case (Work i)
  with assms show ?thesis by (auto intro: pool_order_func)
next
  case Stop
  have "held_task (if w = Asleep then Waking else w) = held_task w" for w :: "'a worker" by simp
  then show ?thesis
    using assms Stop by (auto simp: pool_order_def held_def stop_step_def notify_all_def o_def split: stopper.splits if_splits)
qed (use assms in \<open>auto simp: held_same pool_order_def held_def addTask_def notify_one_def spurious_def split: if_splits option.splits\<close>)

lemma pool_reach_order: "pool_reach n p \<Longrightarrow> pool_order p"
proof (induction rule: pool_reach.induct)
  case (start p)
  then show ?case by (auto simp: ThreadPool_new_def pool_order_def held_def assertR_def split: if_splits)
qed (auto intro: pool_order_step)

text \<open>\<open>starts_by i p t\<close>: the steps of worker \<open>i\<close> alone take the task \<open>t\<close> and start it, after the task it may have in hand.\<close>

definition starts_by :: "nat \<Rightarrow> 't pool \<Rightarrow> 't \<Rightarrow> bool" where
  "starts_by i p t \<longleftrightarrow> (\<exists>evs p'. set evs \<subseteq> {Work i} \<and> pool_run evs p = Some p' \<and> tp_taken p' = tp_taken p @ [t] \<and>
     tp_started p' = tp_started p @ held_task (tp_workers p ! i) @ [t])"

lemma starts_byI:
  assumes "pool_step (Work i) p = Some q" "tp_taken q = tp_taken p"
    "tp_started q @ held_task (tp_workers q ! i) = tp_started p @ held_task (tp_workers p ! i)" "starts_by i q t"
  shows "starts_by i p t"
proof -
  from assms(4) obtain evs p' where "set evs \<subseteq> {Work i}" "pool_run evs q = Some p'" "tp_taken p' = tp_taken q @ [t]"
    "tp_started p' = (tp_started q @ held_task (tp_workers q ! i)) @ [t]" unfolding starts_by_def by auto
  with assms(1-3) show ?thesis
    unfolding starts_by_def by (intro exI [of _ "Work i # evs"] exI [of _ p']) simp
qed

lemma starts_Taking:
  assumes "i < length (tp_workers p)" "tp_workers p ! i = Taking" "tp_queue p = t # q"
  shows "starts_by i p t"
  unfolding starts_by_def using assms by (intro exI [of _ "[Work i, Work i]"]) (simp add: func_step_def)

lemma starts_Checking:
  assumes "i < length (tp_workers p)" "tp_workers p ! i = Checking" "tp_queue p = t # q"
  shows "starts_by i p t"
  by (rule starts_byI [OF func_step_at(1)]) (use assms in \<open>auto intro: starts_Taking\<close>)

lemma starts_Locking:
  assumes "i < length (tp_workers p)" "tp_workers p ! i = Locking \<or> tp_workers p ! i = Waking" "tp_queue p = t # q" "tp_holder p = None"
  shows "starts_by i p t"
  by (rule starts_byI [OF func_step_at(4)]) (use assms in \<open>auto intro: starts_Checking\<close>)

lemma starts_AtLoop:
  assumes "i < length (tp_workers p)" "tp_workers p ! i = AtLoop" "tp_queue p = t # q" "tp_holder p = None" "\<not> tp_stop p"
  shows "starts_by i p t"
  by (rule starts_byI [OF func_step_at(3)]) (use assms in \<open>auto intro: starts_Locking\<close>)

lemma starts_Running:
  assumes "i < length (tp_workers p)" "tp_workers p ! i = Running r" "tp_queue p = t # q" "tp_holder p = None" "\<not> tp_stop p"
  shows "starts_by i p t"
  by (rule starts_byI [OF func_step_at(2)]) (use assms in \<open>auto intro: starts_AtLoop\<close>)

lemma starts_Holding:
  assumes "i < length (tp_workers p)" "tp_workers p ! i = Holding r" "tp_queue p = t # q" "tp_holder p = None" "\<not> tp_stop p"
  shows "starts_by i p t"
  by (rule starts_byI [OF func_step_at(5)]) (use assms in \<open>auto intro!: starts_Running [of _ _ r]\<close>)

lemma waiting_task_starts:
  assumes inv: "pool_inv n p" and q: "tp_queue p = t # q" and run: "\<not> tp_stop p"
  shows "\<exists>i < n. starts_by i p t"
proof (cases "tp_holder p")
  case (Some i)
  then have i: "i < n" "holds_lock (tp_workers p ! i)" using pool_invD(3,4) [OF inv] by auto
  moreover have "tp_workers p ! i \<noteq> Parking" using pool_invD(5) [OF inv i(1)] q by auto
  ultimately show ?thesis
    using starts_Taking [OF _ _ q] starts_Checking [OF _ _ q] pool_invD(2) [OF inv] by (auto simp: holds_lock_def)
next
  case None
  from pool_invD(7) [OF inv] q run obtain i where i: "i < n" "awake (tp_workers p ! i)" by auto
  have "\<not> holds_lock (tp_workers p ! i)" using pool_invD(3) [OF inv i(1)] None by simp
  then show ?thesis
    using i pool_invD(2) [OF inv] q None run
    by (cases "tp_workers p ! i")
      (auto simp: awake_def holds_lock_def intro: starts_AtLoop starts_Locking starts_Running starts_Holding)
qed

lemma pool_tasks_in_order_facts:
  assumes "pool_reach n p"
  shows "tp_taken p @ tp_queue p = tp_added p" "mset (tp_started p) + mset (held p) = mset (tp_taken p)"
    "n = 1 \<Longrightarrow> tp_started p @ held p = tp_taken p"
    and "i < n \<Longrightarrow> j < n \<Longrightarrow> holds_lock (tp_workers p ! i) \<Longrightarrow> holds_lock (tp_workers p ! j) \<Longrightarrow> i = j"
    and "tp_queue p = t # q \<Longrightarrow> \<not> tp_stop p \<Longrightarrow> \<exists>i < n. starts_by i p t"
proof -
  note inv = pool_reach_inv [OF assms] and ord = pool_reach_order [OF assms]
  show "tp_taken p @ tp_queue p = tp_added p" by (rule pool_invD(9) [OF inv])
  show "mset (tp_started p) + mset (held p) = mset (tp_taken p)" using ord by (simp add: pool_order_def)
  show "n = 1 \<Longrightarrow> tp_started p @ held p = tp_taken p" using ord pool_invD(2) [OF inv] by (simp add: pool_order_def)
  show "i = j" if "i < n" "j < n" "holds_lock (tp_workers p ! i)" "holds_lock (tp_workers p ! j)"
    using pool_invD(3) [OF inv that(1)] pool_invD(3) [OF inv that(2)] that(3,4) by simp
  show "\<exists>i < n. starts_by i p t" if "tp_queue p = t # q" "\<not> tp_stop p"
    by (rule waiting_task_starts [OF inv that])
qed

text \<open>
  C29: In every interleaving of workers, of threads that add tasks and of one that stops the pool, the tasks leave the
  queue in the order in which they were added: those taken followed by those in the queue are those added. Each task
  that was taken has been started exactly once or is in the hands of the worker that took it; the calls of the tasks begin
  outside the mutex, so that only a pool of one worker also starts them in the order of adding. At most one worker is between
  taking and giving back the mutex. As long as the pool is not stopped, a task in the queue is never left alone with
  sleeping workers: some worker can, by its own steps, take the next one and start it, after the task it may have in hand.
\<close>

theorem pool_tasks_in_order:
  assumes "pool_reach n p"
  shows "tp_taken p @ tp_queue p = tp_added p \<and> mset (tp_started p) + mset (held p) = mset (tp_taken p) \<and>
    (n = 1 \<longrightarrow> tp_started p @ held p = tp_taken p) \<and>
    (\<forall>i j. i < n \<and> j < n \<and> holds_lock (tp_workers p ! i) \<and> holds_lock (tp_workers p ! j) \<longrightarrow> i = j) \<and>
    (\<forall>t q. tp_queue p = t # q \<and> \<not> tp_stop p \<longrightarrow> (\<exists>i < n. starts_by i p t))"
  using pool_tasks_in_order_facts [OF assms] by blast

section \<open>Stopping\<close>

text \<open>
  Once the flag is set no worker goes to sleep any more: where none sleeps or is about to, every step of a worker or of
  the thread in \<^verbatim>\<open>stop\<close> brings the end nearer, and there is one as long as \<^verbatim>\<open>stop\<close> has not returned.
\<close>

fun worker_rank :: "'t worker \<Rightarrow> nat" where
  "worker_rank Exited = 0"
| "worker_rank AtLoop = 1"
| "worker_rank (Running r) = 2"
| "worker_rank (Holding r) = 3"
| "worker_rank Taking = 4"
| "worker_rank Checking = 5"
| "worker_rank Locking = 6"
| "worker_rank Waking = 6"
| "worker_rank Parking = 7"
| "worker_rank Asleep = 7"

definition pool_rank :: "'t pool \<Rightarrow> nat" where
  "pool_rank p =
     sum_list (map worker_rank (tp_workers p)) +
     (case tp_stopper p of Joining k \<Rightarrow> 1 + (length (tp_workers p) - k) | Stopped \<Rightarrow> 0 | _ \<Rightarrow> 2 + length (tp_workers p))"

definition stopping :: "nat \<Rightarrow> 't pool \<Rightarrow> bool" where
  "stopping n p \<longleftrightarrow>
     pool_inv n p \<and> tp_stop p \<and> Parking \<notin> set (tp_workers p) \<and>
     (case tp_stopper p of
        NotStopping \<Rightarrow> False
      | Notifying \<Rightarrow> True
      | Joining k \<Rightarrow> Asleep \<notin> set (tp_workers p) \<and> k \<le> n \<and> (\<forall>i < k. tp_workers p ! i = Exited)
      | Stopped \<Rightarrow> set (tp_workers p) \<subseteq> {Exited})"

lemma sum_list_update_less:
  fixes xs :: "nat list"
  assumes "i < length xs" "x < xs ! i"
  shows "sum_list (xs[i := x]) < sum_list xs"
proof -
  have "sum_list xs = sum_list (take i xs) + xs ! i + sum_list (drop (Suc i) xs)"
    by (metis (no_types, lifting) assms(1) add.assoc id_take_nth_drop sum_list.Cons sum_list.append)
  moreover have "sum_list (xs[i := x]) = sum_list (take i xs) + x + sum_list (drop (Suc i) xs)"
    by (simp add: upd_conv_take_nth_drop [OF assms(1)])
  ultimately show ?thesis using assms(2) by simp
qed

lemma rank_set_worker:
  assumes "i < length (tp_workers p)" "worker_rank w < worker_rank (tp_workers p ! i)"
  shows "pool_rank (set_worker i w p) < pool_rank p"
  using sum_list_update_less [of i "map worker_rank (tp_workers p)" "worker_rank w"] assms
  by (simp add: pool_rank_def map_update split: stopper.splits)

text \<open>A step that moves one worker towards its exit.\<close>

definition moves_on :: "nat \<Rightarrow> 't pool \<Rightarrow> 't pool \<Rightarrow> bool" where
  "moves_on i p p' \<longleftrightarrow>
     i < length (tp_workers p) \<and> tp_stopper p' = tp_stopper p \<and> tp_stop p' = tp_stop p \<and>
     (\<exists>w. tp_workers p' = (tp_workers p)[i := w] \<and> worker_rank w < worker_rank (tp_workers p ! i) \<and> w \<noteq> Asleep \<and> w \<noteq> Parking)"

lemma moves_on_stopping:
  assumes m: "moves_on i p p'" and s: "stopping n p" and inv: "pool_inv n p'"
  shows "stopping n p'" "pool_rank p' < pool_rank p"
proof -
  obtain w where w: "tp_workers p' = (tp_workers p)[i := w]" "worker_rank w < worker_rank (tp_workers p ! i)" "w \<noteq> Asleep" "w \<noteq> Parking"
    and i: "i < length (tp_workers p)" and fields: "tp_stopper p' = tp_stopper p" "tp_stop p' = tp_stop p"
    using m unfolding moves_on_def by blast
  have new: "x \<in> set (tp_workers p') \<Longrightarrow> x \<in> set (tp_workers p) \<or> x = w" for x
    using set_update_subset_insert [of "tp_workers p" i w] w(1) by auto
  have not_exited: "tp_workers p ! i \<noteq> Exited" using w(2) by auto
  moreover have "tp_workers p ! i \<in> set (tp_workers p)" using i by simp
  ultimately have "\<not> set (tp_workers p) \<subseteq> {Exited}" by blast
  then show "stopping n p'"
    using s inv fields w(3,4) new not_exited unfolding stopping_def
    by (auto split: stopper.splits simp: w(1)) (metis nth_list_update_neq)
  show "pool_rank p' < pool_rank p"
    using rank_set_worker [OF i w(2)] by (simp add: pool_rank_def w(1) fields split: stopper.splits)
qed

lemma func_moves_on:
  assumes s: "stopping n p" and f: "func_step i p = Some p'"
  shows "moves_on i p p'"
proof -
  have i: "i < length (tp_workers p)" using f by (auto simp: func_step_def split: if_splits)
  then have "tp_workers p ! i \<noteq> Parking" using s nth_mem [OF i] unfolding stopping_def by metis
  moreover have "tp_stop p" using s by (simp add: stopping_def)
  ultimately show ?thesis
    using f i unfolding moves_on_def
    by (cases "tp_workers p ! i") (auto simp: func_step_def lock_step_def split: if_splits list.splits)
qed

lemma wake_moves_on:
  assumes "i < length (tp_workers p)" "tp_workers p ! i = Asleep"
  shows "moves_on i p (set_worker i Waking p)"
  using assms by (auto simp: moves_on_def)

lemma moves_on_cong:
  assumes "moves_on i p p'" "tp_workers q = tp_workers p" "tp_stopper q = tp_stopper p" "tp_stop q = tp_stop p"
  shows "moves_on i q p'"
  using assms by (simp add: moves_on_def)

lemma notify_all_rank: "sum_list (map worker_rank (map (\<lambda>w. if w = Asleep then Waking else w) ws)) \<le> sum_list (map worker_rank ws)"
  by (induction ws) auto

lemma stop_step_rank:
  assumes s: "stopping n p" and f: "stop_step p = Some p'"
  shows "stopping n p'" "pool_rank p' < pool_rank p"
proof -
  have inv: "pool_inv n p" and inv': "pool_inv n p'" using s pool_inv_stop [OF _ f] by (simp_all add: stopping_def)
  have len: "length (tp_workers p) = n" by (rule pool_invD(2) [OF inv])
  show "stopping n p'"
  proof (cases "tp_stopper p")
    case (Joining k)
    then show ?thesis
      using s f inv' len by (auto simp: stopping_def stop_step_def less_Suc_eq in_set_conv_nth split: if_splits)
  qed (use s f inv' in \<open>auto simp: stopping_def stop_step_def notify_all_def split: if_splits\<close>)
  show "pool_rank p' < pool_rank p"
    using s f notify_all_rank [of "tp_workers p"]
    by (auto simp: stopping_def stop_step_def notify_all_def pool_rank_def split: if_splits stopper.splits)
qed

fun own :: "'t pool_event \<Rightarrow> bool" where
  "own (Work i) = True"
| "own Stop = True"
| "own ev = False"

lemma stopping_step:
  assumes s: "stopping n p" and f: "pool_step ev p = Some p'"
  shows "stopping n p' \<and> pool_rank p' + (if own ev then 1 else 0) \<le> pool_rank p"
proof (cases ev)
  case (AddTask t w)
  let ?q = "p\<lparr>tp_queue := tp_queue p @ [t], tp_added := tp_added p @ [t]\<rparr>"
  have inv': "pool_inv n p'" using s f by (auto simp: stopping_def intro: pool_inv_step)
  have n: "notify_one w ?q = Some p'" using f AddTask by (auto simp: addTask_def split: if_splits)
  show ?thesis
  proof (cases w)
    case None
    then have "p' = ?q" using n by (auto simp: notify_one_def split: if_splits)
    then show ?thesis using s inv' AddTask by (simp add: stopping_def pool_rank_def split: stopper.splits)
  next
    case (Some i)
    then have "moves_on i ?q p'" using n by (auto simp: notify_one_def intro: wake_moves_on split: if_splits)
    then have "moves_on i p p'" by (rule moves_on_cong) simp_all
    then show ?thesis using moves_on_stopping [OF _ s inv'] AddTask by fastforce
  qed
next
  case (Work i)
  have inv': "pool_inv n p'" using s f by (auto simp: stopping_def intro: pool_inv_step)
  have "moves_on i p p'" using f Work func_moves_on [OF s] by simp
  then show ?thesis using moves_on_stopping [OF _ s inv'] Work by fastforce
next
  case Stop
  then show ?thesis using stop_step_rank [OF s] f by fastforce
next
  case (Spurious i)
  have inv': "pool_inv n p'" using s f by (auto simp: stopping_def intro: pool_inv_step)
  have "moves_on i p p'" using f Spurious wake_moves_on by (auto simp: spurious_def split: if_splits)
  then show ?thesis using moves_on_stopping [OF _ s inv'] Spurious by fastforce
qed

lemma stopping_run:
  assumes "stopping n p" "pool_run evs p = Some p'"
  shows "stopping n p' \<and> pool_rank p' + length (filter own evs) \<le> pool_rank p"
  using assms
proof (induction evs arbitrary: p)
  case (Cons ev evs)
  then obtain q where q: "pool_step ev p = Some q" "pool_run evs q = Some p'" by (auto split: bind_splits)
  then show ?case using stopping_step [OF Cons.prems(1) q(1)] Cons.IH [OF _ q(2)] by auto
qed simp

lemma stopping_progress:
  assumes s: "stopping n p" and busy: "tp_stopper p \<noteq> Stopped"
  shows "\<exists>ev. own ev \<and> pool_step ev p \<noteq> None"
proof (cases "tp_stopper p")
  case (Joining k)
  note inv = s [unfolded stopping_def, THEN conjunct1]
  have len: "length (tp_workers p) = n" by (rule pool_invD(2) [OF inv])
  have enabled: "pool_step (Work i) p \<noteq> None" if "i < n" "tp_workers p ! i \<noteq> Exited" "holds_lock (tp_workers p ! i) \<or> tp_holder p = None" for i
  proof -
    have "tp_workers p ! i \<noteq> Asleep" using s Joining that(1) len nth_mem [of i "tp_workers p"] by (fastforce simp: stopping_def)
    then show ?thesis
      using that len by (cases "tp_workers p ! i") (auto simp: func_step_def lock_step_def holds_lock_def split: list.splits)
  qed
  consider "k \<ge> n" | "k < n" "tp_workers p ! k = Exited" | i where "tp_holder p = Some i"
    | "k < n" "tp_workers p ! k \<noteq> Exited" "tp_holder p = None" by fastforce
  then show ?thesis
  proof cases
    case 3
    then have "i < n" "holds_lock (tp_workers p ! i)" using pool_invD(3,4) [OF inv] by auto
    then show ?thesis using enabled [of i] by (intro exI [of _ "Work i"]) (auto simp: holds_lock_def)
  next
    case 4
    then show ?thesis using enabled [of k] by (intro exI [of _ "Work k"]) auto
  qed (use Joining len in \<open>auto simp: stop_step_def intro!: exI [of _ Stop]\<close>)
qed (use s busy in \<open>auto simp: stopping_def stop_step_def intro!: exI [of _ Stop]\<close>)

lemma stop_returns_facts:
  assumes "pool_reach n p" "tp_stopper p = Notifying" "Parking \<notin> set (tp_workers p)" "pool_run evs p = Some p'"
  shows "length (filter own evs) \<le> pool_rank p"
    and "tp_stopper p' \<noteq> Stopped \<Longrightarrow> \<exists>ev. own ev \<and> pool_step ev p' \<noteq> None"
    and "tp_stopper p' = Stopped \<Longrightarrow> i < n \<Longrightarrow> tp_workers p' ! i = Exited"
proof -
  have "stopping n p"
    using pool_reach_inv [OF assms(1)] assms(2,3) pool_invD(8) [OF pool_reach_inv [OF assms(1)]] by (simp add: stopping_def)
  note r = stopping_run [OF this assms(4)]
  show "length (filter own evs) \<le> pool_rank p" using r by simp
  show "tp_stopper p' \<noteq> Stopped \<Longrightarrow> \<exists>ev. own ev \<and> pool_step ev p' \<noteq> None"
    using stopping_progress r by blast
  show "tp_workers p' ! i = Exited" if "tp_stopper p' = Stopped" "i < n"
  proof -
    have "set (tp_workers p') \<subseteq> {Exited}" "pool_inv n p'" using r that(1) by (simp_all add: stopping_def)
    then show ?thesis using pool_invD(2) [of n p'] that(2) by (metis nth_mem singletonD subsetD)
  qed
qed

text \<open>
  C30: When \<^verbatim>\<open>stop\<close> has set its flag and no worker is between its test of the flag and its sleep, \<^verbatim>\<open>stop\<close> returns: whatever other
  threads add and whichever sleepers wake, the workers and the stopping thread take at most \<^term>\<open>pool_rank p\<close>
  steps together, one of them can go on as long as \<^verbatim>\<open>stop\<close> has not returned, and then all workers have left their loop.
\<close>

theorem stop_returns:
  assumes "pool_reach n p" "tp_stopper p = Notifying" "Parking \<notin> set (tp_workers p)" "pool_run evs p = Some p'"
  shows "length (filter own evs) \<le> pool_rank p \<and>
    (tp_stopper p' \<noteq> Stopped \<longrightarrow> (\<exists>ev. own ev \<and> pool_step ev p' \<noteq> None)) \<and>
    (tp_stopper p' = Stopped \<longrightarrow> (\<forall>i < n. tp_workers p' ! i = Exited))"
  using stop_returns_facts [OF assms] by blast


text \<open>
  The hypothesis on the workers is needed: \<^verbatim>\<open>stop\<close> sets the flag and notifies without the mutex. A worker that has tested the flag
  but does not sleep yet misses the notification, sleeps, and is joined for ever: only a spurious wakeup or
  a new task would help.
\<close>

definition example_pool :: "nat pool_event list \<Rightarrow> nat pool" where
  "example_pool evs = the (pool_run evs (projr (ThreadPool_new 1)))"

lemma pool_reach_run: "pool_reach n p \<Longrightarrow> pool_run evs p = Some p' \<Longrightarrow> pool_reach n p'"
  by (induction evs arbitrary: p) (auto intro: pool_reach.step split: bind_splits)

lemmas pool_eval = example_pool_def ThreadPool_new_def func_step_def lock_step_def stop_step_def set_worker_def addTask_def
  notify_one_def notify_all_def

lemma example_pool_reach:
  "pool_run evs (projr (ThreadPool_new 1)) = Some p \<Longrightarrow> pool_reach 1 (example_pool evs)"
  by (rule pool_reach_run [of _ "projr (ThreadPool_new 1)" evs])
    (auto simp: example_pool_def ThreadPool_new_def intro: pool_reach.start)

lemma stop_can_hang:
  defines "p \<equiv> example_pool [Work 0, Work 0, Work 0, Stop, Stop, Work 0]"
  shows "pool_reach 1 p" "tp_stopper p = Joining 0" "own ev \<Longrightarrow> pool_step ev p = None"
proof -
  show "pool_reach 1 p" unfolding p_def by (rule example_pool_reach) (simp add: pool_eval)
  show "tp_stopper p = Joining 0" by (simp add: p_def pool_eval)
  show "own ev \<Longrightarrow> pool_step ev p = None" by (cases ev) (simp_all add: p_def pool_eval)
qed

text \<open>Two workers have each taken a task; the second one starts its task first.\<close>

definition two_workers :: "nat pool_event list \<Rightarrow> nat pool" where
  "two_workers evs = the (pool_run evs (projr (ThreadPool_new 2)))"

lemma two_workers_reach:
  "pool_run evs (projr (ThreadPool_new 2)) = Some p \<Longrightarrow> pool_reach 2 (two_workers evs)"
  by (rule pool_reach_run [of _ "projr (ThreadPool_new 2)" evs])
    (auto simp: two_workers_def ThreadPool_new_def intro: pool_reach.start)

definition overtaking :: "nat pool_event list" where
  "overtaking = [AddTask 5 None, AddTask 6 None, AddTask 7 None, Work 0, Work 0, Work 0, Work 0,
     Work 1, Work 1, Work 1, Work 1, Work 1]"

lemma overtaking_runs:
  "pool_run overtaking (projr (ThreadPool_new 2)) = Some (two_workers overtaking)"
  by (simp add: two_workers_def overtaking_def pool_eval numeral_2_eq_2)

lemma overtaking_state:
  "tp_added (two_workers overtaking) = [5, 6, 7]" "tp_taken (two_workers overtaking) = [5, 6]"
  "tp_queue (two_workers overtaking) = [7]" "tp_started (two_workers overtaking) = [6]" "\<not> tp_stop (two_workers overtaking)"
  "held (two_workers overtaking) = [5]"
  by (simp_all add: two_workers_def overtaking_def pool_eval numeral_2_eq_2 held_def)

theorem pool_tasks_in_order_witness:
  "let p = two_workers overtaking in
   tp_added p = [5, 6, 7] \<and> tp_taken p @ tp_queue p = [5, 6, 7] \<and> tp_started p = [6] \<and>
   mset (tp_started p) + mset (held p) = {#5, 6#} \<and> (\<exists>i < 2. starts_by i p 7)"
proof -
  have "pool_reach 2 (two_workers overtaking)" by (rule two_workers_reach [OF overtaking_runs])
  from pool_tasks_in_order [OF this] show ?thesis
    by (simp add: Let_def overtaking_state add_mset_commute)
qed

theorem stop_returns_witness:
  "let p = example_pool [Work 0, Work 0, Work 0, Work 0, Stop];
       p' = example_pool [Work 0, Work 0, Work 0, Work 0, Stop, Stop, Work 0, Work 0, Work 0, Work 0, Stop, Stop] in
   length [Stop, Work 0, Work 0, Work 0, Work 0, Stop, Stop :: nat pool_event] \<le> pool_rank p \<and> tp_stopper p' = Stopped \<and>
   tp_workers p' ! 0 = Exited"
proof -
  define p where "p = example_pool [Work 0, Work 0, Work 0, Work 0, Stop]"
  define p' where "p' = example_pool [Work 0, Work 0, Work 0, Work 0, Stop, Stop, Work 0, Work 0, Work 0, Work 0, Stop, Stop]"
  have r: "pool_reach 1 p" unfolding p_def by (rule example_pool_reach) (simp add: pool_eval)
  have e: "tp_stopper p = Notifying" "Parking \<notin> set (tp_workers p)" "tp_stopper p' = Stopped"
    "pool_run [Stop, Work 0, Work 0, Work 0, Work 0, Stop, Stop] p = Some p'" by (simp_all add: p_def p'_def pool_eval)
  show ?thesis
    unfolding Let_def p_def [symmetric] p'_def [symmetric]
    using stop_returns [OF r e(1,2,4)] e(3) by simp
qed

end
