(* ===== verification/LoopThreadPool.thy ===== *)
theory LoopThreadPool
  imports EventLoopThread
begin

text \<open>
  The pool of loop threads (\<^verbatim>\<open>cooper/net/EventLoopThreadPool.*\<close>): its owner makes the threads one after the other, starts them, waits
  for them and destroys them, always by the operations of \<^theory_text>\<open>EventLoopThread\<close>, while the threads and others
  go on (the thread-local loop of the owner, which the threads record, plays no part here). Each thread of the pool is a thread that its own protocol allows, so that its facts carry over.
\<close>

section \<open>The pool\<close>

datatype pool_op = OpStart | OpWait | OpDestroy

text \<open>\<open>PLoop op i b\<close>: in the loop of the operation at thread \<open>i\<close>, whose method has been called when \<open>b\<close>.\<close>

datatype pool_pc = PCtor nat | PUser | PLoop pool_op nat bool | PDone

record loop_threads =
  pl_threads :: "elt list"
  pl_pc :: pool_pc
  pl_started :: bool

text \<open>\<open>pl_started\<close> records that \<^verbatim>\<open>start\<close> has returned.\<close>

definition EventLoopThreadPool_begin :: "nat \<Rightarrow> loop_threads" where
  "EventLoopThreadPool_begin n = \<lparr>pl_threads = [], pl_pc = PCtor n, pl_started = False\<rparr>"

definition thread_at :: "elt_event \<Rightarrow> nat \<Rightarrow> loop_threads \<Rightarrow> loop_threads option" where
  "thread_at ev i p =
     (if i < length (pl_threads p)
      then map_option (\<lambda>t. p\<lparr>pl_threads := (pl_threads p)[i := t]\<rparr>) (elt_step ev (pl_threads p ! i)) else None)"

fun call_of :: "pool_op \<Rightarrow> elt_event" where
  "call_of OpStart = Owner False"
| "call_of OpWait = Wait"
| "call_of OpDestroy = Owner True"

fun returned :: "pool_op \<Rightarrow> opc \<Rightarrow> bool" where
  "returned OpDestroy ow \<longleftrightarrow> ow = ODone"
| "returned op ow \<longleftrightarrow> ow = OUser"

text \<open>A step of the owner; \<open>op\<close> is its choice between the calls. A second \<^verbatim>\<open>join\<close> throws out of the loop of \<^verbatim>\<open>wait\<close>.\<close>

definition pool_owner :: "pool_op \<Rightarrow> loop_threads \<Rightarrow> loop_threads option" where
  "pool_owner op p =
     (case pl_pc p of
        PCtor n \<Rightarrow>
          if pl_threads p \<noteq> [] \<and> et_owner (last (pl_threads p)) = OCtor then thread_at (Owner False) (length (pl_threads p) - 1) p
          else if length (pl_threads p) < n then Some (p\<lparr>pl_threads := pl_threads p @ [EventLoopThread_new None]\<rparr>)
          else Some (p\<lparr>pl_pc := PUser\<rparr>)
      | PUser \<Rightarrow> Some (p\<lparr>pl_pc := PLoop op 0 False\<rparr>)
      | PLoop o1 i False \<Rightarrow>
          if i \<ge> length (pl_threads p)
          then Some (p\<lparr>pl_pc := (if o1 = OpDestroy then PDone else PUser), pl_started := (pl_started p \<or> o1 = OpStart)\<rparr>)
          else if o1 = OpWait \<and> et_joined (pl_threads p ! i) then Some (p\<lparr>pl_pc := PUser\<rparr>)
          else map_option (\<lambda>q. q\<lparr>pl_pc := PLoop o1 i True\<rparr>) (thread_at (call_of o1) i p)
      | PLoop o1 i True \<Rightarrow>
          if returned o1 (et_owner (pl_threads p ! i)) then Some (p\<lparr>pl_pc := PLoop o1 (Suc i) False\<rparr>)
          else thread_at (Owner False) i p
      | PDone \<Rightarrow> None)"

inductive lpool_reach :: "loop_threads \<Rightarrow> bool" where
  start: "lpool_reach (EventLoopThreadPool_begin n)"
| owner: "lpool_reach p \<Longrightarrow> pool_owner op p = Some p' \<Longrightarrow> lpool_reach p'"
| others: "lpool_reach p \<Longrightarrow> thread_at ev i p = Some p' \<Longrightarrow> ev \<in> {Thread, Queue q, Quit} \<Longrightarrow>
    ev = Quit \<longrightarrow> looped (pl_threads p ! i) \<Longrightarrow> lpool_reach p'"

section \<open>The invariant\<close>

fun in_method :: "pool_op \<Rightarrow> opc \<Rightarrow> bool \<Rightarrow> bool" where
  "in_method OpStart ow once \<longleftrightarrow> ow = ORun False \<or> ow = ORunWait False \<or> ow = OUser \<and> once"
| "in_method OpWait ow once \<longleftrightarrow> ow = OWait \<or> ow = OUser"
| "in_method OpDestroy ow once \<longleftrightarrow> ow \<noteq> OCtor \<and> ow \<noteq> OUser \<and> ow \<noteq> OWait \<and> ow \<noteq> ORun False \<and> ow \<noteq> ORunWait False"

fun pc_ok :: "pool_pc \<Rightarrow> opc list \<Rightarrow> bool list \<Rightarrow> bool" where
  "pc_ok (PCtor n) ows onces \<longleftrightarrow>
     (\<forall>j. Suc j < length ows \<longrightarrow> ows ! j = OUser) \<and> (ows \<noteq> [] \<longrightarrow> last ows \<in> {OCtor, OUser})"
| "pc_ok PUser ows onces \<longleftrightarrow> (\<forall>j < length ows. ows ! j = OUser)"
| "pc_ok (PLoop op i b) ows onces \<longleftrightarrow>
     (\<forall>j < length ows. j \<noteq> i \<longrightarrow> ows ! j = (if op = OpDestroy \<and> j < i then ODone else OUser)) \<and>
     (op = OpStart \<longrightarrow> (\<forall>j < length ows. j < i \<longrightarrow> onces ! j)) \<and>
     (if b then i < length ows \<and> in_method op (ows ! i) (onces ! i) else i < length ows \<longrightarrow> ows ! i = OUser)"
| "pc_ok PDone ows onces \<longleftrightarrow> (\<forall>j < length ows. ows ! j = ODone)"

definition lp_inv :: "loop_threads \<Rightarrow> bool" where
  "lp_inv p \<longleftrightarrow>
     (\<forall>s \<in> set (pl_threads p). elt_reach s) \<and> pc_ok (pl_pc p) (map et_owner (pl_threads p)) (map et_once (pl_threads p)) \<and>
     (pl_started p \<longrightarrow> (\<forall>s \<in> set (pl_threads p). et_once s) \<and> (\<forall>n. pl_pc p \<noteq> PCtor n))"

lemma others_keep:
  assumes "elt_step ev s = Some s'" "ev \<in> {Thread, Queue q, Quit}"
  shows "et_owner s' = et_owner s" "et_once s' = et_once s"
  using assms by (auto simp: thread_step_def queue_fun_def quit_call_def run_funs split: lpc.splits if_splits)

lemma once_stays: "elt_step ev s = Some s' \<Longrightarrow> et_once s \<Longrightarrow> et_once s'"
  by (cases ev) (auto simp: thread_step_def queue_fun_def quit_call_def wait_call_def owner_step_def run_funs split: lpc.splits opc.splits if_splits)

lemma thread_atE:
  assumes "thread_at ev i p = Some p'"
  obtains t where "i < length (pl_threads p)" "elt_step ev (pl_threads p ! i) = Some t" "p' = p\<lparr>pl_threads := (pl_threads p)[i := t]\<rparr>"
  using assms by (auto simp: thread_at_def split: if_splits)

lemma reach_thread_at:
  assumes "\<forall>s \<in> set (pl_threads p). elt_reach s" "thread_at ev i p = Some p'" "ev = Quit \<longrightarrow> looped (pl_threads p ! i)"
  shows "\<forall>s \<in> set (pl_threads p'). elt_reach s"
proof (rule thread_atE [OF assms(2)])
  fix t assume t: "i < length (pl_threads p)" "elt_step ev (pl_threads p ! i) = Some t" "p' = p\<lparr>pl_threads := (pl_threads p)[i := t]\<rparr>"
  then have "elt_reach t" using assms(1,3) elt_reach.step by (metis nth_mem)
  then show ?thesis using assms(1) t(3) by (auto dest: set_update_subset_insert [THEN subsetD])
qed

lemma once_thread_at:
  assumes "\<forall>s \<in> set (pl_threads p). et_once s" "thread_at ev i p = Some p'"
  shows "\<forall>s \<in> set (pl_threads p'). et_once s"
proof (rule thread_atE [OF assms(2)])
  fix t assume t: "i < length (pl_threads p)" "elt_step ev (pl_threads p ! i) = Some t" "p' = p\<lparr>pl_threads := (pl_threads p)[i := t]\<rparr>"
  then have "et_once t" using assms(1) once_stays by (metis nth_mem)
  then show ?thesis using assms(1) t(3) by (auto dest: set_update_subset_insert [THEN subsetD])
qed

lemma lp_inv_others:
  assumes inv: "lp_inv p" and st: "thread_at ev i p = Some p'" and ev: "ev \<in> {Thread, Queue q, Quit}" "ev = Quit \<longrightarrow> looped (pl_threads p ! i)"
  shows "lp_inv p'"
proof (rule thread_atE [OF st])
  fix t assume t: "i < length (pl_threads p)" "elt_step ev (pl_threads p ! i) = Some t" "p' = p\<lparr>pl_threads := (pl_threads p)[i := t]\<rparr>"
  note k = others_keep [OF t(2) ev(1)]
  have "map et_owner (pl_threads p') = map et_owner (pl_threads p)" "map et_once (pl_threads p') = map et_once (pl_threads p)"
    using t(1,3) k by (simp_all add: map_update list_update_same_conv)
  then show ?thesis
    using inv reach_thread_at [OF _ st ev(2)] once_thread_at [OF _ st] t(3) by (simp add: lp_inv_def)
qed

text \<open>What a step of the owner does to one thread, by the point it is at.\<close>

lemma owner_moves:
  assumes "owner_step False s = Some t"
  shows "et_owner s = OCtor \<Longrightarrow> et_owner t = OUser"
    "in_method op (et_owner s) (et_once s) \<Longrightarrow> \<not> returned op (et_owner s) \<Longrightarrow> in_method op (et_owner t) (et_once t)"
  using assms by (cases op; auto simp: owner_step_def split: opc.splits if_splits)+

lemma call_moves:
  assumes "elt_step (call_of op) s = Some t" "et_owner s = OUser" "op = OpWait \<longrightarrow> \<not> et_joined s"
  shows "in_method op (et_owner t) (et_once t)"
  using assms by (cases op) (auto simp: owner_step_def wait_call_def)

lemma pc_ok_call:
  assumes "pc_ok (PLoop op i False) ows onces" "length onces = length ows" "i < length ows" "in_method op ow once"
  shows "pc_ok (PLoop op i True) (ows[i := ow]) (onces[i := once])"
  using assms by auto

lemma pc_ok_on:
  assumes "pc_ok (PLoop op i True) ows onces" "length onces = length ows" "in_method op ow once"
  shows "pc_ok (PLoop op i True) (ows[i := ow]) (onces[i := once])"
  using assms by auto

lemma pc_ok_next:
  assumes "pc_ok (PLoop op i True) ows onces" "returned op (ows ! i)"
  shows "pc_ok (PLoop op (Suc i) False) ows onces"
  using assms by (cases op) (auto simp: less_Suc_eq)

lemma pc_ok_end:
  assumes "pc_ok (PLoop op i False) ows onces" "length ows \<le> i"
  shows "pc_ok (if op = OpDestroy then PDone else PUser) ows onces" "op = OpStart \<Longrightarrow> j < length ows \<Longrightarrow> onces ! j"
  using assms by (auto split: if_splits)

lemma lp_inv_thread_at:
  assumes inv: "lp_inv p" and st: "thread_at ev i p = Some p'" and ev: "ev \<noteq> Quit"
    and ok: "\<And>t. elt_step ev (pl_threads p ! i) = Some t \<Longrightarrow>
      pc_ok pc ((map et_owner (pl_threads p))[i := et_owner t]) ((map et_once (pl_threads p))[i := et_once t])"
    and pc: "pl_started p \<longrightarrow> (\<forall>n. pc \<noteq> PCtor n)"
  shows "lp_inv (p'\<lparr>pl_pc := pc\<rparr>)"
proof (rule thread_atE [OF st])
  fix t assume t: "i < length (pl_threads p)" "elt_step ev (pl_threads p ! i) = Some t" "p' = p\<lparr>pl_threads := (pl_threads p)[i := t]\<rparr>"
  from ok [OF t(2)] show ?thesis
    using inv reach_thread_at [OF _ st] once_thread_at [OF _ st] t(3) ev pc by (simp add: lp_inv_def map_update)
qed

lemma pc_ok_ctor:
  assumes "pc_ok (PCtor n) ows onces"
  shows "ows \<noteq> [] \<Longrightarrow> pc_ok (PCtor n) (ows[length ows - 1 := OUser]) onces'"
    "\<not> (ows \<noteq> [] \<and> last ows = OCtor) \<Longrightarrow> pc_ok (PCtor n) (ows @ [OCtor]) onces'"
    "\<not> (ows \<noteq> [] \<and> last ows = OCtor) \<Longrightarrow> pc_ok PUser ows onces'"
proof -
  show "ows \<noteq> [] \<Longrightarrow> pc_ok (PCtor n) (ows[length ows - 1 := OUser]) onces'"
    using assms by (simp add: last_list_update)
  have all: "ows ! j = OUser" if "\<not> (ows \<noteq> [] \<and> last ows = OCtor)" "j < length ows" for j
  proof (cases "Suc j < length ows")
    case False
    then have "j = length ows - 1" "ows \<noteq> []" using that(2) by auto
    then show ?thesis using assms that(1) by (simp add: last_conv_nth)
  qed (use assms in simp)
  show "pc_ok (PCtor n) (ows @ [OCtor]) onces'" "pc_ok PUser ows onces'" if "\<not> (ows \<noteq> [] \<and> last ows = OCtor)"
    using all [OF that] by (simp_all add: nth_append)
qed

lemma lp_inv_ctor:
  assumes inv: "lp_inv p" and st: "pool_owner op p = Some p'" and PCtor: "pl_pc p = PCtor n"
  shows "lp_inv p'"
proof -
  let ?ts = "pl_threads p"
  have pc: "pc_ok (PCtor n) (map et_owner ?ts) (map et_once ?ts)" and ns: "\<not> pl_started p" using inv PCtor by (auto simp: lp_inv_def)
  show ?thesis
  proof (cases "?ts \<noteq> [] \<and> et_owner (last ?ts) = OCtor")
    case True
    let ?i = "length ?ts - 1"
    have s: "thread_at (Owner False) ?i p = Some p'" using st PCtor True by (simp add: pool_owner_def)
    have "pc_ok (PCtor n) ((map et_owner ?ts)[?i := et_owner t]) ((map et_once ?ts)[?i := et_once t])"
      if "elt_step (Owner False) (?ts ! ?i) = Some t" for t
    proof -
      have "et_owner t = OUser" using True that owner_moves(1) [of "?ts ! ?i" t] last_conv_nth [of ?ts] by simp
      then show ?thesis using pc_ok_ctor(1) [OF pc] True by simp
    qed
    from lp_inv_thread_at [OF inv s _ this] ns have "lp_inv (p'\<lparr>pl_pc := PCtor n\<rparr>)" by simp
    moreover have "p'\<lparr>pl_pc := PCtor n\<rparr> = p'" using s PCtor by (auto elim!: thread_atE)
    ultimately show ?thesis by simp
  next
    case False
    then have "\<not> (map et_owner ?ts \<noteq> [] \<and> last (map et_owner ?ts) = OCtor)" by (auto simp: last_map)
    note new = pc_ok_ctor(2,3) [OF pc this]
    have "et_owner (EventLoopThread_new None) = OCtor" by (simp add: EventLoopThread_new_def)
    then show ?thesis
      using inv st PCtor False ns new elt_reach.start
      by (auto simp: pool_owner_def lp_inv_def simp del: pc_ok.simps split: if_splits)
  qed
qed

lemma lp_inv_loop:
  assumes inv: "lp_inv p" and st: "pool_owner op p = Some p'" and PLoop: "pl_pc p = PLoop o1 i b"
  shows "lp_inv p'"
proof -
  let ?ows = "map et_owner (pl_threads p)" and ?onces = "map et_once (pl_threads p)" and ?s = "pl_threads p ! i"
  have pc: "pc_ok (PLoop o1 i b) ?ows ?onces" using inv PLoop by (auto simp: lp_inv_def)
  consider (last) "\<not> b" "length ?ows \<le> i" | (thrown) "\<not> b" "i < length ?ows" "o1 = OpWait" "et_joined ?s"
    | (call) "\<not> b" "i < length ?ows" "o1 = OpWait \<longrightarrow> \<not> et_joined ?s"
    | (ret) "b" "returned o1 (et_owner ?s)" | (on) "b" "\<not> returned o1 (et_owner ?s)"
    by fastforce
  then show ?thesis
  proof cases
    case last
    then show ?thesis
      using inv st PLoop pc_ok_end [of o1 i ?ows ?onces] pc
      by (auto simp: pool_owner_def lp_inv_def in_set_conv_nth simp del: pc_ok.simps split: if_splits)
  next
    case thrown
    then have "pc_ok PUser ?ows ?onces" using pc by (auto simp: nat_neq_iff)
    then show ?thesis using inv st PLoop thrown by (auto simp: pool_owner_def lp_inv_def simp del: pc_ok.simps)
  next
    case call
    then obtain q where q: "thread_at (call_of o1) i p = Some q" "p' = q\<lparr>pl_pc := PLoop o1 i True\<rparr>"
      using st PLoop by (auto simp: pool_owner_def split: if_splits)
    have u: "et_owner ?s = OUser" using pc call(1,2) by simp
    have "pc_ok (PLoop o1 i True) (?ows[i := et_owner t]) (?onces[i := et_once t])" if "elt_step (call_of o1) ?s = Some t" for t
      using pc_ok_call [OF _ _ _ call_moves [OF that u call(3)]] pc call(1,2) by (simp del: pc_ok.simps)
    from lp_inv_thread_at [OF inv q(1) _ this] show ?thesis using q(2) by (cases o1) simp_all
  next
    case ret
    have "i < length ?ows" using pc ret(1) by simp
    then have "pc_ok (PLoop o1 (Suc i) False) ?ows ?onces" using pc_ok_next [of o1 i ?ows ?onces] pc ret by (simp del: pc_ok.simps)
    then show ?thesis using inv st PLoop ret by (auto simp: pool_owner_def lp_inv_def simp del: pc_ok.simps)
  next
    case on
    then have q: "thread_at (Owner False) i p = Some p'" using st PLoop by (simp add: pool_owner_def)
    have i: "i < length ?ows" "in_method o1 (et_owner ?s) (et_once ?s)" using pc on(1) by auto
    have "pc_ok (PLoop o1 i True) (?ows[i := et_owner t]) (?onces[i := et_once t])" if "elt_step (Owner False) ?s = Some t" for t
      using pc_ok_on [OF _ _ owner_moves(2) [OF that [unfolded elt_step.simps] i(2) on(2)]] pc on(1) by (simp del: pc_ok.simps)
    from lp_inv_thread_at [OF inv q _ this] have "lp_inv (p'\<lparr>pl_pc := PLoop o1 i True\<rparr>)" by simp
    moreover have "p'\<lparr>pl_pc := PLoop o1 i True\<rparr> = p'" using q PLoop on(1) by (auto elim!: thread_atE)
    ultimately show ?thesis by simp
  qed
qed

lemma lp_inv_owner: "lp_inv p \<Longrightarrow> pool_owner op p = Some p' \<Longrightarrow> lp_inv p'"
proof (cases "pl_pc p")
  case PUser
  assume "lp_inv p" "pool_owner op p = Some p'"
  then show "lp_inv p'" using PUser by (auto simp: pool_owner_def lp_inv_def)
next
  case PDone
  assume "pool_owner op p = Some p'"
  then show "lp_inv p'" using PDone by (simp add: pool_owner_def)
qed (blast intro: lp_inv_ctor lp_inv_loop)+

lemma lp_reach_inv: "lpool_reach p \<Longrightarrow> lp_inv p"
proof (induction rule: lpool_reach.induct)
  case (start n)
  then show ?case by (simp add: lp_inv_def EventLoopThreadPool_begin_def)
qed (auto intro: lp_inv_owner lp_inv_others)

section \<open>The pool as a whole\<close>

lemma thread_steps_owner: "thread_steps k s = Some t \<Longrightarrow> et_owner t = et_owner s"
proof (induction k arbitrary: s)
  case (Suc k)
  then obtain u where "thread_step s = Some u" "thread_steps k u = Some t" by (auto split: bind_splits)
  then show ?case using Suc.IH others_keep(1) [of Thread s u] by simp
qed simp

text \<open>Whether the pool gets on, at once or after a few steps of one of its threads.\<close>

definition gets_on :: "pool_op \<Rightarrow> loop_threads \<Rightarrow> bool" where
  "gets_on op p \<longleftrightarrow>
     pool_owner op p \<noteq> None \<or>
     (\<exists>i k t. i < length (pl_threads p) \<and> k \<le> 7 \<and> thread_steps k (pl_threads p ! i) = Some t \<and>
        pool_owner op (p\<lparr>pl_threads := (pl_threads p)[i := t]\<rparr>) \<noteq> None)"

lemma gets_on_thread:
  assumes "i < length (pl_threads p)" "elt_reach (pl_threads p ! i)" "released (pl_threads p ! i)"
    and go: "\<And>t. et_owner t = et_owner (pl_threads p ! i) \<Longrightarrow> owner_step False t \<noteq> None \<Longrightarrow>
      pool_owner op (p\<lparr>pl_threads := (pl_threads p)[i := t]\<rparr>) \<noteq> None"
  shows "gets_on op p"
proof -
  obtain k t where "k \<le> 7" "thread_steps k (pl_threads p ! i) = Some t" "owner_step False t \<noteq> None"
    using loop_thread_protocol_facts(2) [OF assms(2,3)] by blast
  then show ?thesis using go thread_steps_owner assms(1) unfolding gets_on_def by blast
qed

lemma pool_gets_on:
  assumes inv: "lp_inv p" and nd: "pl_pc p \<noteq> PDone"
    and w: "\<And>i. pl_pc p = PLoop OpWait i True \<Longrightarrow> et_once (pl_threads p ! i) \<and> et_quit (pl_threads p ! i)"
  shows "gets_on op p"
proof (cases "pl_pc p")
  case (PCtor n)
  show ?thesis
  proof (cases "pl_threads p \<noteq> [] \<and> et_owner (last (pl_threads p)) = OCtor")
    case True
    let ?i = "length (pl_threads p) - 1"
    have l: "?i < length (pl_threads p)" "last (pl_threads p) = pl_threads p ! ?i" using True by (simp_all add: last_conv_nth)
    show ?thesis
    proof (rule gets_on_thread [OF l(1)])
      show "elt_reach (pl_threads p ! ?i)" using inv l(1) by (simp add: lp_inv_def)
      show "released (pl_threads p ! ?i)" using True l(2) by (simp add: released_def)
      fix t assume "et_owner t = et_owner (pl_threads p ! ?i)" "owner_step False t \<noteq> None"
      then show "pool_owner op (p\<lparr>pl_threads := (pl_threads p)[?i := t]\<rparr>) \<noteq> None"
        using True l PCtor by (auto simp: pool_owner_def thread_at_def last_list_update)
    qed
  next
    case False
    then show ?thesis using PCtor by (auto simp: gets_on_def pool_owner_def)
  qed
next
  case PUser
  then show ?thesis by (simp add: gets_on_def pool_owner_def)
next
  case (PLoop o1 i b)
  let ?s = "pl_threads p ! i"
  have pc: "pc_ok (PLoop o1 i b) (map et_owner (pl_threads p)) (map et_once (pl_threads p))" using inv PLoop by (simp add: lp_inv_def del: pc_ok.simps)
  consider (call) "\<not> b" | (ret) "b" "returned o1 (et_owner ?s)" | (on) "b" "\<not> returned o1 (et_owner ?s)" by blast
  then show ?thesis
  proof cases
    case call
    have "elt_step (call_of o1) ?s \<noteq> None" if "i < length (pl_threads p)"
      using pc call that by (cases o1) (auto simp: owner_step_def wait_call_def)
    then show ?thesis using PLoop call by (auto simp: gets_on_def pool_owner_def thread_at_def)
  next
    case ret
    then show ?thesis using PLoop by (simp add: gets_on_def pool_owner_def)
  next
    case on
    have i: "i < length (pl_threads p)" "in_method o1 (et_owner ?s) (et_once ?s)" using pc on(1) by auto
    show ?thesis
    proof (rule gets_on_thread [OF i(1)])
      show "elt_reach ?s" using inv i(1) by (simp add: lp_inv_def)
      show "released ?s" using i(2) on(2) w [of i] PLoop on(1) by (cases o1) (auto simp: released_def)
      fix t assume "et_owner t = et_owner ?s" "owner_step False t \<noteq> None"
      then show "pool_owner op (p\<lparr>pl_threads := (pl_threads p)[i := t]\<rparr>) \<noteq> None"
        using on PLoop i(1) by (auto simp: pool_owner_def thread_at_def)
    qed
  qed
qed (use nd in simp)

text \<open>
  C10: The pool of loop threads brings up and takes down all its loops. Consider the interleavings of the owner with the threads and with
  others that queue functions, in which nobody but the destructor calls \<^verbatim>\<open>quit\<close> on a loop before it has run its first functions
  (an earlier one hangs \<^verbatim>\<open>start\<close>). When \<^verbatim>\<open>start\<close> has returned, every loop has run its first functions, exactly once; the owner never
  waits in the constructor, in \<^verbatim>\<open>start\<close> or in the destructor for more than seven steps of one thread, nor in \<^verbatim>\<open>wait\<close> for a
  loop that was run and told to quit (a \<^verbatim>\<open>wait\<close> for any other loop may last for ever); and when the pool is destroyed every thread has ended.
\<close>

theorem pool_brings_up_loops:
  assumes "lpool_reach p"
  shows "(pl_started p \<longrightarrow> (\<forall>s \<in> set (pl_threads p). et_promiseForLoop s = 1)) \<and>
    (pl_pc p \<noteq> PDone \<and> (\<forall>i. pl_pc p = PLoop OpWait i True \<longrightarrow> et_once (pl_threads p ! i) \<and> et_quit (pl_threads p ! i)) \<longrightarrow> gets_on op p) \<and>
    (pl_pc p = PDone \<longrightarrow> (\<forall>s \<in> set (pl_threads p). et_thread s = LDone))"
proof -
  note inv = lp_reach_inv [OF assms]
  have r: "elt_reach s" if "s \<in> set (pl_threads p)" for s using inv that by (simp add: lp_inv_def)
  have "et_promiseForLoop s = 1" if "pl_started p" "s \<in> set (pl_threads p)" for s
    using loop_thread_protocol_facts(1) [OF r [OF that(2)]] inv that by (simp add: lp_inv_def)
  moreover have "et_thread s = LDone" if "pl_pc p = PDone" "s \<in> set (pl_threads p)" for s
    using loop_thread_protocol_facts(4) [OF r [OF that(2)]] inv that by (auto simp: lp_inv_def in_set_conv_nth)
  ultimately show ?thesis using pool_gets_on [OF inv] by blast
qed

section \<open>An example\<close>

definition up1 :: "loop_threads \<Rightarrow> loop_threads" where
  "up1 p = the (pool_owner OpStart p)"

definition th1 :: "loop_threads \<Rightarrow> loop_threads" where
  "th1 p = the (thread_at Thread 0 p)"

lemma reach_up1: "lpool_reach p \<Longrightarrow> pool_owner OpStart p \<noteq> None \<Longrightarrow> lpool_reach (up1 p)"
  by (auto simp: up1_def intro: lpool_reach.owner)

lemma reach_th1: "lpool_reach p \<Longrightarrow> thread_at Thread 0 p \<noteq> None \<Longrightarrow> lpool_reach (th1 p)"
  by (auto simp: th1_def intro: lpool_reach.others)

lemmas pool_eval = up1_def th1_def pool_owner_def thread_at_def owner_step_def thread_step_def EventLoopThreadPool_begin_def EventLoopThread_new_def

text \<open>A pool of one thread, started.\<close>

definition example_loops0 :: loop_threads where
  "example_loops0 = up1 (up1 (up1 (th1 (th1 (up1 (EventLoopThreadPool_begin 1))))))"

definition example_loops :: loop_threads where
  "example_loops = up1 (up1 (up1 (th1 (th1 (th1 (th1 (th1 (up1 (up1 example_loops0)))))))))"

lemma example_loops_reach: "lpool_reach example_loops" "pl_started example_loops" "length (pl_threads example_loops) = 1"
proof -
  have "lpool_reach example_loops0" unfolding example_loops0_def
    by (intro reach_up1 reach_th1 lpool_reach.start) (simp_all add: pool_eval)
  then show "lpool_reach example_loops" unfolding example_loops_def
    by (intro reach_up1 reach_th1) (simp_all add: example_loops0_def pool_eval)
  show "pl_started example_loops" "length (pl_threads example_loops) = 1"
    by (simp_all add: example_loops_def example_loops0_def pool_eval)
qed

theorem pool_brings_up_loops_witness:
  "pl_started example_loops \<and> map et_promiseForLoop (pl_threads example_loops) = [1]"
  using pool_brings_up_loops [OF example_loops_reach(1)] example_loops_reach(2,3) by (auto simp: length_Suc_conv)

end
