(* ===== verification/AsyncLogWriter.thy ===== *)
theory AsyncLogWriter
  imports LockFreeQueue
begin

text \<open>
  The semaphore (\<^verbatim>\<open>cooper/util/Semaphore.hpp\<close>) and the asynchronous log writer over it (\<^verbatim>\<open>cooper/util/AsyncLogWriter.*\<close>). Both
  operations of the semaphore hold its mutex, except while they sleep, so each is one step; the system of the
  writer interleaves the threads that write with the one that flushes and with the destructor, on the
  lock-free queue step by step. No message is left behind by a sleeping flusher, the destructor ends the thread,
  and at its end every message is written, in the order in which the queue took them.
\<close>

section \<open>The semaphore\<close>

record semaphore =
  sm_count :: nat
  sm_asleep :: "nat list"
  sm_woken :: "nat list"

definition Semaphore_new :: "nat \<Rightarrow> semaphore" where
  "Semaphore_new count = \<lparr>sm_count = count, sm_asleep = [], sm_woken = []\<rparr>"

text \<open>\<^verbatim>\<open>notify_one\<close> wakes one sleeping thread \<open>w\<close>, chosen by the system.\<close>

definition sem_post :: "nat \<Rightarrow> nat option \<Rightarrow> semaphore \<Rightarrow> semaphore option" where
  "sem_post n w s =
     (let s = s\<lparr>sm_count := szadd (sm_count s) n\<rparr> in
      if n = 1
      then (case w of
              None \<Rightarrow> if sm_asleep s = [] then Some s else None
            | Some t \<Rightarrow>
                if t \<in> set (sm_asleep s)
                then Some (s\<lparr>sm_asleep := remove1 t (sm_asleep s), sm_woken := t # sm_woken s\<rparr>) else None)
      else Some (s\<lparr>sm_asleep := [], sm_woken := sm_asleep s @ sm_woken s\<rparr>))"

text \<open>The loop of \<^verbatim>\<open>wait\<close> from its test on: the thread sleeps, or takes a unit and returns (\<open>True\<close>).\<close>

definition sem_test :: "nat \<Rightarrow> semaphore \<Rightarrow> bool \<times> semaphore" where
  "sem_test t s =
     (if sm_count s = 0 then (False, s\<lparr>sm_asleep := t # sm_asleep s\<rparr>) else (True, s\<lparr>sm_count := sm_count s - 1\<rparr>))"

definition sem_wait :: "nat \<Rightarrow> semaphore \<Rightarrow> (bool \<times> semaphore) option" where
  "sem_wait t s = (if t \<in> set (sm_asleep s) \<union> set (sm_woken s) then None else Some (sem_test t s))"

definition sem_rewait :: "nat \<Rightarrow> semaphore \<Rightarrow> (bool \<times> semaphore) option" where
  "sem_rewait t s = (if t \<in> set (sm_woken s) then Some (sem_test t (s\<lparr>sm_woken := remove1 t (sm_woken s)\<rparr>)) else None)"

definition sem_spurious :: "nat \<Rightarrow> semaphore \<Rightarrow> semaphore option" where
  "sem_spurious t s =
     (if t \<in> set (sm_asleep s)
      then Some (s\<lparr>sm_asleep := remove1 t (sm_asleep s), sm_woken := t # sm_woken s\<rparr>) else None)"

text \<open>A thread sleeps only while there are no more units than threads on their way to take one.\<close>

definition sem_ok :: "semaphore \<Rightarrow> bool" where
  "sem_ok s \<longleftrightarrow> (sm_asleep s \<noteq> [] \<longrightarrow> sm_count s \<le> length (sm_woken s))"

lemma sem_ok_new: "sem_ok (Semaphore_new n)"
  by (simp add: sem_ok_def Semaphore_new_def)

lemma sem_ok_post:
  assumes "sem_ok s" "sem_post n w s = Some s'" "sm_count s + n \<le> size_max"
  shows "sem_ok s'" "sm_count s' = sm_count s + n"
  using assms by (auto simp: sem_ok_def sem_post_def Let_def split: if_splits option.splits)

lemma sem_ok_wait: "sem_ok s \<Longrightarrow> sem_wait t s = Some (r, s') \<Longrightarrow> sem_ok s'"
  by (auto simp: sem_ok_def sem_wait_def sem_test_def split: if_splits)

lemma sem_ok_rewait: "sem_ok s \<Longrightarrow> sem_rewait t s = Some (r, s') \<Longrightarrow> sem_ok s'"
  by (auto simp: sem_ok_def sem_rewait_def sem_test_def length_remove1 split: if_splits)

lemma sem_ok_spurious: "sem_ok s \<Longrightarrow> sem_spurious t s = Some s' \<Longrightarrow> sem_ok s'"
  by (auto simp: sem_ok_def sem_spurious_def split: if_splits)

section \<open>Messages\<close>

text \<open>
  \<^verbatim>\<open>write(msg, len)\<close> makes a pair of a string and \<open>len\<close>; the string is made from the pointer alone, so its characters are those up
  to the first NUL of the memory at \<^verbatim>\<open>msg\<close>. \<^verbatim>\<open>fwrite\<close> then takes \<open>len\<close> bytes from the characters of that string and its NUL.
\<close>

type_synonym log_message = "byte list \<times> nat"

definition LogMessage :: "byte list \<Rightarrow> nat \<Rightarrow> log_message result" where
  "LogMessage mem len =
     (if CHR 0x00 \<in> set mem then Inr (takeWhile (\<lambda>c. c \<noteq> CHR 0x00) mem, len) else Inl OutOfBounds)"

definition fwrite_message :: "log_message \<Rightarrow> byte list result" where
  "fwrite_message msg = mem_read (fst msg @ [CHR 0x00]) 0 (snd msg)"

definition written :: "log_message list \<Rightarrow> byte list result" where
  "written msgs = foldR (\<lambda>out msg. bindR (fwrite_message msg) (\<lambda>d. Inr (out @ d))) [] msgs"

section \<open>The writer\<close>

text \<open>
  The thread of the writer (number 0) is at the test of \<^verbatim>\<open>exitFlag_\<close>, before or in \<^verbatim>\<open>sem_.wait()\<close>, in \<^verbatim>\<open>flushAll\<close>, or has ended; the
  destructor has not begun, has set the flag, has posted, flushes after the join, or is done.
  \<open>aw_due\<close> are the threads inside \<^verbatim>\<open>write\<close>. The messages that were dequeued, each of which is written at once, are \<open>ms_out\<close>.
\<close>

datatype cpc = CTest | CWait | CBlocked | CFlush | CEnd

datatype dpc = DRun | DExit | DPosted | DFlush | DDone

record aw =
  aw_m :: "log_message msys"
  aw_sem :: semaphore
  aw_pc :: cpc
  aw_dtor :: dpc
  aw_exit :: bool
  aw_due :: "nat set"

definition AsyncLogWriter_new :: aw where
  "AsyncLogWriter_new =
     \<lparr>aw_m = msys_init, aw_sem = Semaphore_new 0, aw_pc = CTest, aw_dtor = DRun, aw_exit = False, aw_due = {}\<rparr>"

text \<open>No thread may call \<^verbatim>\<open>write\<close> on an object that is being destroyed.\<close>

inductive aw_step :: "aw \<Rightarrow> aw \<Rightarrow> bool" where
  write_exchange: "t \<noteq> 0 \<Longrightarrow> t \<notin> aw_due s \<Longrightarrow> aw_dtor s = DRun \<Longrightarrow> LogMessage mem len = Inr v \<Longrightarrow>
    exec (Exchange t n v) (aw_m s) = Some (Inr m) \<Longrightarrow> aw_step s (s\<lparr>aw_m := m, aw_due := insert t (aw_due s)\<rparr>)"
| write_link: "exec (Link t) (aw_m s) = Some (Inr m) \<Longrightarrow> aw_step s (s\<lparr>aw_m := m\<rparr>)"
| write_post: "t \<in> aw_due s \<Longrightarrow> ms_prod (aw_m s) t = None \<Longrightarrow> sem_post 1 w (aw_sem s) = Some sem \<Longrightarrow>
    aw_step s (s\<lparr>aw_sem := sem, aw_due := aw_due s - {t}\<rparr>)"
| run_test: "aw_pc s = CTest \<Longrightarrow> aw_step s (s\<lparr>aw_pc := (if aw_exit s then CEnd else CWait)\<rparr>)"
| run_wait: "aw_pc s = CWait \<Longrightarrow> sem_wait 0 (aw_sem s) = Some (r, sem) \<Longrightarrow>
    aw_step s (s\<lparr>aw_sem := sem, aw_pc := (if r then CFlush else CBlocked)\<rparr>)"
| run_rewait: "aw_pc s = CBlocked \<Longrightarrow> sem_rewait 0 (aw_sem s) = Some (r, sem) \<Longrightarrow>
    aw_step s (s\<lparr>aw_sem := sem, aw_pc := (if r then CFlush else CBlocked)\<rparr>)"
| spurious: "sem_spurious 0 (aw_sem s) = Some sem \<Longrightarrow> aw_step s (s\<lparr>aw_sem := sem\<rparr>)"
| flush_load: "aw_pc s = CFlush \<Longrightarrow> exec Load (aw_m s) = Some (Inr m) \<Longrightarrow> aw_step s (s\<lparr>aw_m := m\<rparr>)"
| flush_commit: "aw_pc s = CFlush \<Longrightarrow> exec Commit (aw_m s) = Some (Inr m) \<Longrightarrow> aw_step s (s\<lparr>aw_m := m\<rparr>)"
| flush_end: "aw_pc s = CFlush \<Longrightarrow> ms_cons (aw_m s) = None \<Longrightarrow> queue_empty (ms_q (aw_m s)) = Inr True \<Longrightarrow>
    aw_step s (s\<lparr>aw_pc := CTest\<rparr>)"
| dtor_exit: "aw_dtor s = DRun \<Longrightarrow> aw_due s = {} \<Longrightarrow> aw_step s (s\<lparr>aw_exit := True, aw_dtor := DExit\<rparr>)"
| dtor_post: "aw_dtor s = DExit \<Longrightarrow> sem_post 1 w (aw_sem s) = Some sem \<Longrightarrow> aw_step s (s\<lparr>aw_sem := sem, aw_dtor := DPosted\<rparr>)"
| dtor_join: "aw_dtor s = DPosted \<Longrightarrow> aw_pc s = CEnd \<Longrightarrow> aw_step s (s\<lparr>aw_dtor := DFlush\<rparr>)"
| dtor_load: "aw_dtor s = DFlush \<Longrightarrow> exec Load (aw_m s) = Some (Inr m) \<Longrightarrow> aw_step s (s\<lparr>aw_m := m\<rparr>)"
| dtor_commit: "aw_dtor s = DFlush \<Longrightarrow> exec Commit (aw_m s) = Some (Inr m) \<Longrightarrow> aw_step s (s\<lparr>aw_m := m\<rparr>)"
| dtor_end: "aw_dtor s = DFlush \<Longrightarrow> ms_cons (aw_m s) = None \<Longrightarrow> queue_empty (ms_q (aw_m s)) = Inr True \<Longrightarrow>
    aw_step s (s\<lparr>aw_dtor := DDone\<rparr>)"

inductive aw_reach :: "aw \<Rightarrow> bool" where
  start: "aw_reach AsyncLogWriter_new"
| step: "aw_reach s \<Longrightarrow> aw_step s s' \<Longrightarrow> aw_reach s'"

section \<open>The invariant\<close>

definition sem_inv :: "aw \<Rightarrow> bool" where
  "sem_inv s \<longleftrightarrow>
     sem_ok (aw_sem s) \<and> set (sm_asleep (aw_sem s)) \<subseteq> {0} \<and> set (sm_woken (aw_sem s)) \<subseteq> {0} \<and>
     length (sm_asleep (aw_sem s)) + length (sm_woken (aw_sem s)) = (if aw_pc s = CBlocked then 1 else 0)"

definition in_write :: "log_message msys \<Rightarrow> nat set \<Rightarrow> bool" where
  "in_write m ts \<longleftrightarrow> (\<forall>t. ms_prod m t \<noteq> None \<longrightarrow> t \<in> ts)"

definition queue_inv :: "aw \<Rightarrow> bool" where
  "queue_inv s \<longleftrightarrow>
     minv (aw_m s) \<and> finite (aw_due s) \<and> in_write (aw_m s) (aw_due s) \<and>
     sm_count (aw_sem s) + card (aw_due s) \<le> length (ms_in (aw_m s)) + (if aw_dtor s = DRun \<or> aw_dtor s = DExit then 0 else 1) \<and>
     (aw_pc s \<noteq> CFlush \<and> aw_dtor s \<noteq> DFlush \<longrightarrow> ms_cons (aw_m s) = None)"

text \<open>Outside \<^verbatim>\<open>flushAll\<close>, a message that is not written has a unit of the semaphore or a thread that will post.\<close>

definition flush_inv :: "aw \<Rightarrow> bool" where
  "flush_inv s \<longleftrightarrow>
     (aw_pc s = CTest \<or> aw_pc s = CWait \<or> aw_pc s = CBlocked \<longrightarrow> ms_in (aw_m s) \<noteq> ms_out (aw_m s) \<longrightarrow>
        0 < sm_count (aw_sem s) \<or> aw_due s \<noteq> {})"

definition dtor_inv :: "aw \<Rightarrow> bool" where
  "dtor_inv s \<longleftrightarrow>
     (aw_exit s \<longleftrightarrow> aw_dtor s \<noteq> DRun) \<and> (aw_dtor s \<noteq> DRun \<longrightarrow> aw_due s = {}) \<and>
     (aw_dtor s = DPosted \<and> (aw_pc s = CWait \<or> aw_pc s = CBlocked) \<longrightarrow> 0 < sm_count (aw_sem s)) \<and>
     (aw_pc s = CEnd \<longrightarrow> aw_dtor s \<noteq> DRun) \<and>
     (aw_dtor s = DFlush \<or> aw_dtor s = DDone \<longrightarrow> aw_pc s = CEnd) \<and>
     (aw_dtor s = DDone \<longrightarrow> ms_in (aw_m s) = ms_out (aw_m s))"

definition aw_inv :: "aw \<Rightarrow> bool" where
  "aw_inv s \<longleftrightarrow> sem_inv s \<and> queue_inv s \<and> flush_inv s \<and> dtor_inv s"

lemmas aw_defs = aw_inv_def sem_inv_def queue_inv_def flush_inv_def dtor_inv_def

lemma aw_invI: "sem_inv s \<Longrightarrow> queue_inv s \<Longrightarrow> flush_inv s \<Longrightarrow> dtor_inv s \<Longrightarrow> aw_inv s"
  by (simp add: aw_inv_def)

lemma aw_invD:
  assumes "aw_inv s"
  shows "sem_inv s" "queue_inv s" "flush_inv s" "dtor_inv s"
  using assms by (simp_all add: aw_inv_def)

lemma aw_inv_new: "aw_inv AsyncLogWriter_new"
  by (simp add: aw_defs AsyncLogWriter_new_def sem_ok_new minv_init) (simp add: msys_init_def Semaphore_new_def in_write_def)

lemma exec_log:
  "exec (Exchange t n v) m = Some (Inr m') \<Longrightarrow> ms_in m' = ms_in m @ [v] \<and> ms_out m' = ms_out m"
  "exec (Link t) m = Some (Inr m') \<Longrightarrow> ms_in m' = ms_in m \<and> ms_out m' = ms_out m"
  "exec Load m = Some (Inr m') \<Longrightarrow> ms_in m' = ms_in m \<and> ms_out m' = ms_out m"
  "exec Commit m = Some (Inr m') \<Longrightarrow> ms_in m' = ms_in m"
  by (auto simp: enq_exchange_def bindR_eq_Inr split: if_splits option.splits)

lemma aw_step_in: "aw_step s s' \<Longrightarrow> length (ms_in (aw_m s)) \<le> length (ms_in (aw_m s'))"
  by (induction rule: aw_step.induct) (auto simp: exec_log)

lemma all_written:
  assumes "queue_inv s" "aw_due s = {}" "queue_empty (ms_q (aw_m s)) = Inr True"
  shows "ms_in (aw_m s) = ms_out (aw_m s)"
  using assms empty_pending unfolding queue_inv_def in_write_def by blast

lemma sem_post_one:
  assumes "sem_inv s" "sem_post 1 w (aw_sem s) = Some sem" "sm_count (aw_sem s) < size_max"
  shows "sem_inv (s\<lparr>aw_sem := sem\<rparr>)" "sm_count sem = Suc (sm_count (aw_sem s))"
proof -
  note p = sem_ok_post [of "aw_sem s" 1 w sem]
  show c: "sm_count sem = Suc (sm_count (aw_sem s))" using p(2) assms by (simp add: sem_inv_def)
  have "sem_ok sem" using p(1) assms by (simp add: sem_inv_def)
  moreover have "length (sm_asleep sem) + length (sm_woken sem) = length (sm_asleep (aw_sem s)) + length (sm_woken (aw_sem s))"
    "set (sm_asleep sem) \<subseteq> set (sm_asleep (aw_sem s))" "set (sm_woken sem) \<subseteq> set (sm_woken (aw_sem s)) \<union> set (sm_asleep (aw_sem s))"
    using assms(2) set_remove1_subset
    by (auto simp: sem_post_def Let_def length_remove1 split: if_splits option.splits dest: length_pos_if_in_set) fastforce+
  ultimately show "sem_inv (s\<lparr>aw_sem := sem\<rparr>)" using assms(1) by (simp add: sem_inv_def) blast
qed

lemma aw_inv_exec:
  assumes inv: "aw_inv s" and ex: "exec ev (aw_m s) = Some (Inr m)" and ev: "ev = Load \<or> ev = Commit"
    and pc: "aw_pc s = CFlush \<or> aw_dtor s = DFlush"
  shows "aw_inv (s\<lparr>aw_m := m\<rparr>)"
proof -
  have m: "minv m" using minv_next [OF _ ex] inv by (simp add: aw_defs)
  have f: "ms_prod m = ms_prod (aw_m s)" "ms_in m = ms_in (aw_m s)"
    using ev ex exec_fields(3,4) exec_log(3,4) by blast+
  have out: "aw_dtor s \<noteq> DDone" "aw_pc s = CTest \<or> aw_pc s = CWait \<or> aw_pc s = CBlocked \<longrightarrow> False"
    using pc aw_invD(4) [OF inv] by (auto simp: dtor_inv_def)
  show ?thesis
  proof (rule aw_invI)
    show "sem_inv (s\<lparr>aw_m := m\<rparr>)" using aw_invD(1) [OF inv] by (simp add: sem_inv_def)
    show "queue_inv (s\<lparr>aw_m := m\<rparr>)" using aw_invD(2) [OF inv] m f pc by (auto simp: queue_inv_def in_write_def)
    show "flush_inv (s\<lparr>aw_m := m\<rparr>)" using out by (auto simp: flush_inv_def)
    show "dtor_inv (s\<lparr>aw_m := m\<rparr>)" using aw_invD(4) [OF inv] out by (simp add: dtor_inv_def)
  qed
qed

lemma aw_inv_write:
  assumes inv: "aw_inv s" and t: "t \<notin> aw_due s" "aw_dtor s = DRun" and ex: "exec (Exchange t n v) (aw_m s) = Some (Inr m)"
  shows "aw_inv (s\<lparr>aw_m := m, aw_due := insert t (aw_due s)\<rparr>)"
proof -
  note f = exec_fields(1) [OF ex] and g = exec_log(1) [OF ex]
  have "minv m" using minv_next [OF _ ex] inv by (simp add: aw_defs)
  moreover have "in_write m (insert t (aw_due s))" using inv f unfolding in_write_def by (metis aw_inv_def in_write_def insertCI queue_inv_def)
  ultimately show ?thesis using inv t f g by (simp add: aw_defs)
qed

lemma aw_inv_link:
  assumes inv: "aw_inv s" and ex: "exec (Link t) (aw_m s) = Some (Inr m)"
  shows "aw_inv (s\<lparr>aw_m := m\<rparr>)"
proof -
  note f = exec_fields(2) [OF ex] and g = exec_log(2) [OF ex]
  have "minv m" using minv_next [OF _ ex] inv by (simp add: aw_defs)
  moreover have "in_write m (aw_due s)" using inv f unfolding in_write_def by (metis aw_inv_def in_write_def queue_inv_def)
  ultimately show ?thesis using inv f g by (simp add: aw_defs)
qed

lemma aw_inv_post:
  assumes inv: "aw_inv s" and t: "t \<in> aw_due s" "ms_prod (aw_m s) t = None" and p: "sem_post 1 w (aw_sem s) = Some sem"
    and b: "length (ms_in (aw_m s)) < size_max"
  shows "aw_inv (s\<lparr>aw_sem := sem, aw_due := aw_due s - {t}\<rparr>)"
proof -
  have d: "aw_dtor s = DRun" "finite (aw_due s)"
    using aw_invD(2,4) [OF inv] t(1) by (auto simp: dtor_inv_def queue_inv_def)
  have c: "card (aw_due s - {t}) = card (aw_due s) - 1" "card (aw_due s) > 0"
    using d(2) t(1) by (auto simp: card_gt_0_iff)
  have "sm_count (aw_sem s) < size_max" using inv d c(2) b by (simp add: aw_defs)
  from sem_post_one [OF _ p this] inv have q: "sem_inv (s\<lparr>aw_sem := sem\<rparr>)" "sm_count sem = Suc (sm_count (aw_sem s))"
    by (simp_all add: aw_inv_def)
  have q': "in_write (aw_m s) (aw_due s - {t})" using aw_invD(2) [OF inv] t(2) by (auto simp: queue_inv_def in_write_def)
  show ?thesis
  proof (rule aw_invI)
    show "sem_inv (s\<lparr>aw_sem := sem, aw_due := aw_due s - {t}\<rparr>)" using q(1) by (simp add: sem_inv_def)
    show "queue_inv (s\<lparr>aw_sem := sem, aw_due := aw_due s - {t}\<rparr>)"
      using aw_invD(2) [OF inv] q(2) q' c d unfolding queue_inv_def by simp
    show "flush_inv (s\<lparr>aw_sem := sem, aw_due := aw_due s - {t}\<rparr>)" using q(2) by (simp add: flush_inv_def)
    show "dtor_inv (s\<lparr>aw_sem := sem, aw_due := aw_due s - {t}\<rparr>)" using aw_invD(4) [OF inv] d(1) by (simp add: dtor_inv_def)
  qed
qed

lemma aw_inv_wait:
  assumes inv: "aw_inv s" and pc: "aw_pc s = CWait" and w: "sem_wait 0 (aw_sem s) = Some (r, sem)"
  shows "aw_inv (s\<lparr>aw_sem := sem, aw_pc := (if r then CFlush else CBlocked)\<rparr>)"
proof -
  have "sem_ok sem" using sem_ok_wait [OF _ w] inv by (simp add: aw_defs)
  moreover have "r \<longleftrightarrow> sm_count (aw_sem s) \<noteq> 0" "sem = snd (sem_test 0 (aw_sem s))"
    using w by (auto simp: sem_wait_def sem_test_def split: if_splits)
  ultimately show ?thesis
    using inv pc by (cases "sm_count (aw_sem s) = 0"; cases "aw_dtor s") (simp_all add: aw_defs sem_test_def, (elim conjE, linarith)+)
qed

lemma aw_inv_rewait:
  assumes inv: "aw_inv s" and pc: "aw_pc s = CBlocked" and w: "sem_rewait 0 (aw_sem s) = Some (r, sem)"
  shows "aw_inv (s\<lparr>aw_sem := sem, aw_pc := (if r then CFlush else CBlocked)\<rparr>)"
proof -
  have ok: "sem_ok sem" using sem_ok_rewait [OF _ w] inv by (simp add: aw_defs)
  have "sm_woken (aw_sem s) = [0]" "sm_asleep (aw_sem s) = []"
    using aw_invD(1) [OF inv] pc w by (cases "sm_woken (aw_sem s)"; auto simp: sem_inv_def sem_rewait_def split: if_splits)+
  moreover have "r \<longleftrightarrow> sm_count (aw_sem s) \<noteq> 0" "sem = snd (sem_test 0 (aw_sem s\<lparr>sm_woken := remove1 0 (sm_woken (aw_sem s))\<rparr>))"
    using w by (auto simp: sem_rewait_def sem_test_def split: if_splits)
  ultimately show ?thesis
    using inv pc ok by (cases "sm_count (aw_sem s) = 0"; cases "aw_dtor s") (simp_all add: aw_defs sem_test_def, (elim conjE, linarith)+)
qed

lemma aw_inv_spurious:
  assumes inv: "aw_inv s" and w: "sem_spurious 0 (aw_sem s) = Some sem"
  shows "aw_inv (s\<lparr>aw_sem := sem\<rparr>)"
proof -
  have ok: "sem_ok sem" using sem_ok_spurious [OF _ w] inv by (simp add: aw_defs)
  have "sm_woken (aw_sem s) = []" "sm_asleep (aw_sem s) = [0]" "aw_pc s = CBlocked"
    using aw_invD(1) [OF inv] w by (cases "sm_asleep (aw_sem s)"; auto simp: sem_inv_def sem_spurious_def split: if_splits)+
  moreover from this have "sem = aw_sem s\<lparr>sm_asleep := [], sm_woken := [0]\<rparr>"
    using w by (simp add: sem_spurious_def)
  ultimately show ?thesis
    using inv ok by (simp add: aw_defs)
qed

lemma aw_inv_dtor_post:
  assumes inv: "aw_inv s" and d: "aw_dtor s = DExit" and p: "sem_post 1 w (aw_sem s) = Some sem"
    and b: "length (ms_in (aw_m s)) < size_max"
  shows "aw_inv (s\<lparr>aw_sem := sem, aw_dtor := DPosted\<rparr>)"
proof -
  have "sm_count (aw_sem s) < size_max" using inv d b by (simp add: aw_defs)
  from sem_post_one [OF _ p this] inv have q: "sem_inv (s\<lparr>aw_sem := sem\<rparr>)" "sm_count sem = Suc (sm_count (aw_sem s))"
    by (simp_all add: aw_inv_def)
  show ?thesis
  proof (rule aw_invI)
    show "sem_inv (s\<lparr>aw_sem := sem, aw_dtor := DPosted\<rparr>)" using q(1) by (simp add: sem_inv_def)
    show "queue_inv (s\<lparr>aw_sem := sem, aw_dtor := DPosted\<rparr>)"
      using aw_invD(2) [OF inv] q(2) d unfolding queue_inv_def by simp
    show "flush_inv (s\<lparr>aw_sem := sem, aw_dtor := DPosted\<rparr>)" using q(2) by (simp add: flush_inv_def)
    show "dtor_inv (s\<lparr>aw_sem := sem, aw_dtor := DPosted\<rparr>)" using aw_invD(4) [OF inv] d q(2) by (simp add: dtor_inv_def)
  qed
qed

lemma aw_inv_test:
  assumes inv: "aw_inv s" and pc: "aw_pc s = CTest"
  shows "aw_inv (s\<lparr>aw_pc := (if aw_exit s then CEnd else CWait)\<rparr>)"
proof (rule aw_invI)
  show "sem_inv (s\<lparr>aw_pc := (if aw_exit s then CEnd else CWait)\<rparr>)" using aw_invD(1) [OF inv] pc by (simp add: sem_inv_def)
  show "queue_inv (s\<lparr>aw_pc := (if aw_exit s then CEnd else CWait)\<rparr>)" using aw_invD(2) [OF inv] pc by (simp add: queue_inv_def)
  show "flush_inv (s\<lparr>aw_pc := (if aw_exit s then CEnd else CWait)\<rparr>)" using aw_invD(3) [OF inv] pc by (simp add: flush_inv_def)
  show "dtor_inv (s\<lparr>aw_pc := (if aw_exit s then CEnd else CWait)\<rparr>)"
    using aw_invD(4) [OF inv] pc by (cases "aw_dtor s") (auto simp: dtor_inv_def)
qed

lemma aw_inv_flush_end:
  assumes inv: "aw_inv s" and e: "aw_pc s = CFlush" "ms_cons (aw_m s) = None" "queue_empty (ms_q (aw_m s)) = Inr True"
  shows "aw_inv (s\<lparr>aw_pc := CTest\<rparr>)"
proof -
  have "aw_due s \<noteq> {}" if "ms_in (aw_m s) \<noteq> ms_out (aw_m s)"
    using all_written [OF aw_invD(2) [OF inv] _ e(3)] that by blast
  note due = this
  show ?thesis
  proof (rule aw_invI)
    show "sem_inv (s\<lparr>aw_pc := CTest\<rparr>)" using aw_invD(1) [OF inv] e(1) by (simp add: sem_inv_def)
    show "queue_inv (s\<lparr>aw_pc := CTest\<rparr>)" using aw_invD(2) [OF inv] e by (simp add: queue_inv_def)
    show "flush_inv (s\<lparr>aw_pc := CTest\<rparr>)" using due by (simp add: flush_inv_def)
    show "dtor_inv (s\<lparr>aw_pc := CTest\<rparr>)" using aw_invD(4) [OF inv] e(1) by (auto simp: dtor_inv_def)
  qed
qed

lemma aw_inv_dtor:
  assumes inv: "aw_inv s"
  shows "aw_dtor s = DRun \<Longrightarrow> aw_due s = {} \<Longrightarrow> aw_inv (s\<lparr>aw_exit := True, aw_dtor := DExit\<rparr>)"
    and "aw_dtor s = DPosted \<Longrightarrow> aw_pc s = CEnd \<Longrightarrow> aw_inv (s\<lparr>aw_dtor := DFlush\<rparr>)"
    and "aw_dtor s = DFlush \<Longrightarrow> ms_cons (aw_m s) = None \<Longrightarrow> queue_empty (ms_q (aw_m s)) = Inr True \<Longrightarrow>
      aw_inv (s\<lparr>aw_dtor := DDone\<rparr>)"
proof -
  show "aw_inv (s\<lparr>aw_exit := True, aw_dtor := DExit\<rparr>)" if "aw_dtor s = DRun" "aw_due s = {}"
    using inv that by (simp add: aw_defs)
  show "aw_inv (s\<lparr>aw_dtor := DFlush\<rparr>)" if "aw_dtor s = DPosted" "aw_pc s = CEnd"
    using inv that by (auto simp: aw_defs)
  show "aw_inv (s\<lparr>aw_dtor := DDone\<rparr>)"
    if "aw_dtor s = DFlush" "ms_cons (aw_m s) = None" "queue_empty (ms_q (aw_m s)) = Inr True"
  proof -
    have "aw_due s = {}" using inv that(1) by (simp add: aw_defs)
    from all_written [OF aw_invD(2) [OF inv] this that(3)] show ?thesis using inv that \<open>aw_due s = {}\<close> by (auto simp: aw_defs)
  qed
qed

lemma aw_inv_step:
  assumes "aw_step s s'" "aw_inv s" "length (ms_in (aw_m s)) < size_max"
  shows "aw_inv s'"
  using assms
  by (induction rule: aw_step.induct)
    (blast intro: aw_inv_exec aw_inv_write aw_inv_link aw_inv_post aw_inv_wait aw_inv_rewait aw_inv_spurious
      aw_inv_dtor_post aw_inv_test aw_inv_flush_end aw_inv_dtor)+

lemma aw_reach_inv: "aw_reach s \<Longrightarrow> length (ms_in (aw_m s)) < size_max \<Longrightarrow> aw_inv s"
proof (induction rule: aw_reach.induct)
  case start
  show ?case by (rule aw_inv_new)
next
  case (step s s')
  with aw_step_in [OF step.hyps(2)] show ?case by (auto intro: aw_inv_step)
qed

section \<open>What the writer promises\<close>

lemma written_terminated:
  "foldR (\<lambda>out msg. bindR (fwrite_message msg) (\<lambda>d. Inr (out @ d))) out (map (\<lambda>d. (d, length d)) ds) = Inr (out @ concat ds)"
  by (induction ds arbitrary: out) (simp_all add: fwrite_message_def mem_read_def)

text \<open>A message that ends with a NUL right behind its length, and has none before, is kept as it is.\<close>

lemma LogMessage_terminated:
  assumes "CHR 0x00 \<notin> set d"
  shows "LogMessage (d @ CHR 0x00 # rest) (length d) = Inr (d, length d)"
proof -
  have "takeWhile (\<lambda>c. c \<noteq> CHR 0x00) (d @ CHR 0x00 # rest) = d"
    using assms by (subst takeWhile_append2) auto
  then show ?thesis by (simp add: LogMessage_def)
qed

lemma log_writer_loses_nothing_facts:
  assumes "aw_reach s" "length (ms_in (aw_m s)) < size_max"
  shows "sm_asleep (aw_sem s) \<noteq> [] \<Longrightarrow> aw_due s = {} \<Longrightarrow> ms_out (aw_m s) = ms_in (aw_m s)"
    and "aw_dtor s = DPosted \<Longrightarrow> sm_asleep (aw_sem s) = []"
    and "aw_dtor s = DDone \<Longrightarrow> ms_out (aw_m s) = ms_in (aw_m s)"
    and "aw_dtor s = DDone \<Longrightarrow> ms_in (aw_m s) = map (\<lambda>d. (d, length d)) ds \<Longrightarrow> written (ms_out (aw_m s)) = Inr (concat ds)"
proof -
  note D = aw_invD [OF aw_reach_inv [OF assms]]
  have blocked: "aw_pc s = CBlocked" "sm_count (aw_sem s) = 0" if "sm_asleep (aw_sem s) \<noteq> []"
    using D(1) that by (cases "sm_asleep (aw_sem s)"; auto simp: sem_inv_def sem_ok_def split: if_splits)+
  show "ms_out (aw_m s) = ms_in (aw_m s)" if "sm_asleep (aw_sem s) \<noteq> []" "aw_due s = {}"
    using D(3) blocked [OF that(1)] that(2) by (auto simp: flush_inv_def)
  show "sm_asleep (aw_sem s) = []" if "aw_dtor s = DPosted"
  proof (rule ccontr)
    assume "sm_asleep (aw_sem s) \<noteq> []"
    from blocked [OF this] D(4) that show False by (simp add: dtor_inv_def)
  qed
  show "ms_out (aw_m s) = ms_in (aw_m s)" if "aw_dtor s = DDone"
    using D(4) that by (simp add: dtor_inv_def)
  show "written (ms_out (aw_m s)) = Inr (concat ds)" if "aw_dtor s = DDone" "ms_in (aw_m s) = map (\<lambda>d. (d, length d)) ds"
  proof -
    have "ms_out (aw_m s) = map (\<lambda>d. (d, length d)) ds" using D(4) that by (simp add: dtor_inv_def)
    then show ?thesis by (simp add: written_def written_terminated)
  qed
qed

text \<open>
  C34: The asynchronous writer loses nothing. In every interleaving of its thread with threads that hand over fewer than \<open>2 ^ 64\<close>
  messages whose memory is terminated by a NUL (another message is read behind its end, lemma \<open>unterminated_message\<close>):
  when its thread sleeps in the semaphore and no writer is between its exchange and its post, every message was passed on to
  \<^verbatim>\<open>fwrite\<close>; when the destructor waits for its thread, that thread is not asleep; and when the destructor is done, all messages
  were passed on in the order in which the queue took them. If moreover the NUL of every message stands right behind its
  length and none before (other lengths: lemma \<open>message_with_nul\<close>), the output is the concatenation of the messages.
\<close>

theorem log_writer_loses_nothing:
  assumes "aw_reach s" "length (ms_in (aw_m s)) < size_max"
  shows "(sm_asleep (aw_sem s) \<noteq> [] \<and> aw_due s = {} \<longrightarrow> ms_out (aw_m s) = ms_in (aw_m s)) \<and>
    (aw_dtor s = DPosted \<longrightarrow> sm_asleep (aw_sem s) = []) \<and>
    (aw_dtor s = DDone \<longrightarrow> ms_out (aw_m s) = ms_in (aw_m s)) \<and>
    (\<forall>ds. aw_dtor s = DDone \<and> ms_in (aw_m s) = map (\<lambda>d. (d, length d)) ds \<longrightarrow> written (ms_out (aw_m s)) = Inr (concat ds))"
  using log_writer_loses_nothing_facts [OF assms] by blast


text \<open>
  The line of a \<^verbatim>\<open>Logger\<close> is handed to an output function as a pointer and a length, and its buffer has no NUL behind it: with such
  a message \<^verbatim>\<open>write\<close> reads on behind the buffer. A NUL inside a message makes the string shorter than the length, and
  \<^verbatim>\<open>fwrite\<close> reads behind the string.
\<close>

lemma unterminated_message: "CHR 0x00 \<notin> set d \<Longrightarrow> LogMessage d (length d) = Inl OutOfBounds"
  by (simp add: LogMessage_def)

lemma message_with_nul:
  assumes "LogMessage (d @ CHR 0x00 # x # rest) (Suc (Suc (length d))) = Inr v" "CHR 0x00 \<notin> set d"
  shows "fwrite_message v = Inl OutOfBounds"
proof -
  have "takeWhile (\<lambda>c. c \<noteq> CHR 0x00) (d @ CHR 0x00 # x # rest) = d"
    using assms(2) by (subst takeWhile_append2) auto
  then show ?thesis using assms(1) by (auto simp: LogMessage_def fwrite_message_def mem_read_def)
qed

text \<open>One message is written and the writer is destroyed.\<close>

definition example_m :: "nat \<Rightarrow> log_message msys" where
  "example_m k =
     (case run_events msys_init (take k [Exchange 1 1 (''hi'', 2), Link 1, Load, Commit, Load]) of Some (Inr m) \<Rightarrow> m | _ \<Rightarrow> msys_init)"

lemma example_m_exec:
  "exec (Exchange (Suc 0) (Suc 0) (''hi'', Suc (Suc 0))) (example_m 0) = Some (Inr (example_m (Suc 0)))"
  "exec (Link (Suc 0)) (example_m (Suc 0)) = Some (Inr (example_m 2))"
  "exec Load (example_m 2) = Some (Inr (example_m 3))" "exec Commit (example_m 3) = Some (Inr (example_m 4))"
  by (simp_all add: example_m_def example_eval numeral_2_eq_2 take_Cons' split: if_splits)

definition example_aw :: "nat \<Rightarrow> nat \<Rightarrow> cpc \<Rightarrow> dpc \<Rightarrow> nat set \<Rightarrow> aw" where
  "example_aw k n pc d due =
     \<lparr>aw_m = example_m k, aw_sem = Semaphore_new n, aw_pc = pc, aw_dtor = d, aw_exit = (d \<noteq> DRun), aw_due = due\<rparr>"

lemma example_sem:
  "sem_post (Suc 0) None (Semaphore_new n) = Some (Semaphore_new (szadd n 1))" "sem_wait 0 (Semaphore_new (Suc n)) = Some (True, Semaphore_new n)"
  by (simp_all add: sem_post_def sem_wait_def sem_test_def Semaphore_new_def)

lemma example_m_empty: "queue_empty (ms_q (example_m 4)) = Inr True" "ms_cons (example_m 4) = None"
  by (simp_all add: example_m_def example_eval queue_empty_def)

lemma aw_reach_to: "aw_reach s \<Longrightarrow> aw_step s t \<Longrightarrow> t = u \<Longrightarrow> aw_reach u"
  by (auto intro: aw_reach.step)

lemmas example_aw_simps = example_aw_def example_m_exec example_m_empty example_sem

lemma example_written: "aw_reach (example_aw 2 1 CTest DRun {})"
proof -
  have "aw_reach (example_aw 0 0 CTest DRun {})"
    using aw_reach.start by (simp add: example_aw_def AsyncLogWriter_new_def example_m_def)
  then have "aw_reach (example_aw 1 0 CTest DRun {1})"
    by (rule aw_reach_to [OF _ aw_step.write_exchange [where t = 1 and n = 1 and m = "example_m 1", OF _ _ _ LogMessage_terminated [of "''hi''" "[]"]]])
      (simp_all add: example_aw_simps del: exec.simps)
  then have "aw_reach (example_aw 2 0 CTest DRun {1})"
    by (rule aw_reach_to [OF _ aw_step.write_link [where t = 1 and m = "example_m 2"]]) (simp_all add: example_aw_simps del: exec.simps)
  then show ?thesis
    by (rule aw_reach_to [OF _ aw_step.write_post [where t = 1 and w = None]])
      (simp_all add: example_aw_simps example_m_def example_eval)
qed

lemma example_flushed: "aw_reach (example_aw 4 0 CTest DRun {})"
proof -
  have "aw_reach (example_aw 2 1 CWait DRun {})"
    by (rule aw_reach_to [OF example_written aw_step.run_test]) (simp_all add: example_aw_simps del: exec.simps)
  then have "aw_reach (example_aw 2 0 CFlush DRun {})"
    by (rule aw_reach_to [OF _ aw_step.run_wait [where r = True and sem = "Semaphore_new 0"]]) (simp_all add: example_aw_simps del: exec.simps)
  then have "aw_reach (example_aw 3 0 CFlush DRun {})"
    by (rule aw_reach_to [OF _ aw_step.flush_load [where m = "example_m 3"]]) (simp_all add: example_aw_simps del: exec.simps)
  then have "aw_reach (example_aw 4 0 CFlush DRun {})"
    by (rule aw_reach_to [OF _ aw_step.flush_commit [where m = "example_m 4"]]) (simp_all add: example_aw_simps del: exec.simps)
  then show ?thesis
    by (rule aw_reach_to [OF _ aw_step.flush_end]) (simp_all add: example_aw_simps del: exec.simps)
qed

lemma example_destroyed: "aw_reach (example_aw 4 1 CEnd DDone {})"
proof -
  have "aw_reach (example_aw 4 0 CTest DExit {})"
    by (rule aw_reach_to [OF example_flushed aw_step.dtor_exit]) (simp_all add: example_aw_simps del: exec.simps)
  then have "aw_reach (example_aw 4 1 CTest DPosted {})"
    by (rule aw_reach_to [OF _ aw_step.dtor_post [where w = None]]) (simp_all add: example_aw_simps del: exec.simps)
  then have "aw_reach (example_aw 4 1 CEnd DPosted {})"
    by (rule aw_reach_to [OF _ aw_step.run_test]) (simp_all add: example_aw_simps del: exec.simps)
  then have "aw_reach (example_aw 4 1 CEnd DFlush {})"
    by (rule aw_reach_to [OF _ aw_step.dtor_join]) (simp_all add: example_aw_simps del: exec.simps)
  then show ?thesis
    by (rule aw_reach_to [OF _ aw_step.dtor_end]) (simp_all add: example_aw_simps del: exec.simps)
qed

theorem log_writer_loses_nothing_witness:
  "aw_dtor (example_aw 4 1 CEnd DDone {}) = DDone \<and> written (ms_out (aw_m (example_aw 4 1 CEnd DDone {}))) = Inr ''hi''"
  using log_writer_loses_nothing [OF example_destroyed, THEN conjunct2, THEN conjunct2, THEN conjunct2, THEN spec [of _ "[''hi'']"]]
  by (simp add: example_aw_def example_m_def example_eval)

end
