(* ===== verification/LogStream.thy ===== *)
theory LogStream
  imports Numbers "HOL-Library.Signed_Division"
begin

text \<open>
  The stream of a log line (\<^verbatim>\<open>cooper/util/LogStream.*\<close>): a buffer of fixed size on the stack, into which text and numbers are
  written, and a string that takes over when the buffer is full. Numbers are formatted in place by a
  conversion that works for negative numbers without negating them. Whatever is streamed, the stream holds
  the concatenation of its texts, and no write leaves the buffer.
\<close>

section \<open>Integers to text\<close>

definition digits :: string where
  "digits = ''9876543210123456789''"

definition digitsHex :: string where
  "digitsHex = ''0123456789ABCDEF''"

text \<open>
  The loop of \<^verbatim>\<open>convert\<close>, least digit first; \<^verbatim>\<open>zero\<close> points to the middle of the table, \<^verbatim>\<open>%\<close> and \<^verbatim>\<open>/\<close> round
  towards zero.
\<close>

lemma sdiv_10_smaller: "(i :: int) sdiv 10 \<noteq> 0 \<Longrightarrow> nat \<bar>i sdiv 10\<bar> < nat \<bar>i\<bar>"
  by (auto simp: signed_divide_int_def abs_mult sgn_if split: if_splits)

function convert_loop :: "int \<Rightarrow> string" where
  "convert_loop i =
     (let lsd = i smod 10; i' = i sdiv 10
      in digits ! nat (9 + lsd) # (if i' = 0 then [] else convert_loop i'))"
  by pat_completeness auto
termination
  by (relation "measure (\<lambda>i. nat \<bar>i\<bar>)") (auto dest: sdiv_10_smaller)

declare convert_loop.simps [simp del]

definition convert :: "int \<Rightarrow> string" where
  "convert v = rev (convert_loop v @ (if v < 0 then ''-'' else ''''))"

function convertHex_loop :: "nat \<Rightarrow> string" where
  "convertHex_loop i = digitsHex ! (i mod 16) # (if i div 16 = 0 then [] else convertHex_loop (i div 16))"
  by pat_completeness auto
termination
  by (relation "measure id") auto

declare convertHex_loop.simps [simp del]

definition convertHex :: "nat \<Rightarrow> string" where
  "convertHex v = rev (convertHex_loop v)"

section \<open>The fixed buffer\<close>

record fixed_buffer =
  fb_data :: "byte list"
  fb_cur :: nat

abbreviation kSmallBuffer :: nat where
  "kSmallBuffer \<equiv> 4000"

definition FixedBuffer_new :: "byte list \<Rightarrow> fixed_buffer" where
  "FixedBuffer_new garbage = \<lparr>fb_data = garbage, fb_cur = 0\<rparr>"

definition fb_avail :: "fixed_buffer \<Rightarrow> nat" where
  "fb_avail b = length (fb_data b) - fb_cur b"

definition fb_length :: "fixed_buffer \<Rightarrow> nat" where
  "fb_length b = fb_cur b"

definition fb_append :: "byte list \<Rightarrow> fixed_buffer \<Rightarrow> (bool \<times> fixed_buffer) result" where
  "fb_append d b =
     (if fb_avail b > length d
      then bindR (mem_write (fb_data b) (fb_cur b) d) (\<lambda>m. Inr (True, b\<lparr>fb_data := m, fb_cur := fb_cur b + length d\<rparr>))
      else Inr (False, b))"

definition fb_add :: "nat \<Rightarrow> fixed_buffer \<Rightarrow> fixed_buffer" where
  "fb_add len b = b\<lparr>fb_cur := fb_cur b + len\<rparr>"

definition fb_reset :: "fixed_buffer \<Rightarrow> fixed_buffer" where
  "fb_reset b = b\<lparr>fb_cur := 0\<rparr>"

definition zeroBuffer :: "fixed_buffer \<Rightarrow> fixed_buffer" where
  "zeroBuffer b = b\<lparr>fb_data := replicate (length (fb_data b)) (CHR 0x00)\<rparr>"

definition debugString :: "fixed_buffer \<Rightarrow> fixed_buffer result" where
  "debugString b = bindR (mem_write (fb_data b) (fb_cur b) [CHR 0x00]) (\<lambda>m. Inr (b\<lparr>fb_data := m\<rparr>))"

definition toString :: "fixed_buffer \<Rightarrow> byte list result" where
  "toString b = mem_read (fb_data b) 0 (fb_length b)"

section \<open>The stream\<close>

record log_stream =
  lg_buffer :: fixed_buffer
  lg_exBuffer :: "byte list"

definition LogStream_new :: "byte list \<Rightarrow> log_stream" where
  "LogStream_new garbage = \<lparr>lg_buffer = FixedBuffer_new garbage, lg_exBuffer = []\<rparr>"

text \<open>\<^verbatim>\<open>std::string::append\<close>: a string that does not fit into memory is not built.\<close>

definition str_append :: "byte list \<Rightarrow> byte list \<Rightarrow> byte list result" where
  "str_append s d = (if mem_max < length s + length d then Inl BadAlloc else Inr (s @ d))"

definition spill :: "log_stream \<Rightarrow> log_stream result" where
  "spill st =
     bindR (mem_read (fb_data (lg_buffer st)) 0 (fb_length (lg_buffer st))) (\<lambda>d.
     bindR (str_append (lg_exBuffer st) d) (\<lambda>ex. Inr (st\<lparr>lg_exBuffer := ex\<rparr>)))"

definition ls_append :: "byte list \<Rightarrow> log_stream \<Rightarrow> log_stream result" where
  "ls_append d st =
     (if lg_exBuffer st = []
      then bindR (fb_append d (lg_buffer st)) (\<lambda>(ok, b).
             if ok then Inr (st\<lparr>lg_buffer := b\<rparr>)
             else bindR (spill st) (\<lambda>st. bindR (str_append (lg_exBuffer st) d) (\<lambda>ex. Inr (st\<lparr>lg_exBuffer := ex\<rparr>))))
      else bindR (str_append (lg_exBuffer st) d) (\<lambda>ex. Inr (st\<lparr>lg_exBuffer := ex\<rparr>)))"

text \<open>
  A number that is formatted in place: \<open>img\<close> is what the formatting leaves in memory, \<open>len\<close> how far the end of the
  text moves, \<open>kMax\<close> the room that is made for it.
\<close>

definition format_ex :: "nat \<Rightarrow> byte list \<Rightarrow> nat \<Rightarrow> log_stream \<Rightarrow> log_stream result" where
  "format_ex kMax img len st =
     (let oldLen = length (lg_exBuffer st) in
      bindR (vec_resize (oldLen + kMax) (lg_exBuffer st)) (\<lambda>ex.
      bindR (mem_write ex oldLen img) (\<lambda>ex.
      bindR (vec_resize (oldLen + len) ex) (\<lambda>ex. Inr (st\<lparr>lg_exBuffer := ex\<rparr>)))))"

definition format_at :: "nat \<Rightarrow> byte list \<Rightarrow> nat \<Rightarrow> log_stream \<Rightarrow> log_stream result" where
  "format_at kMax img len st =
     (if lg_exBuffer st = []
      then (if fb_avail (lg_buffer st) \<ge> kMax
            then bindR (mem_write (fb_data (lg_buffer st)) (fb_cur (lg_buffer st)) img) (\<lambda>m.
                   Inr (st\<lparr>lg_buffer := fb_add len ((lg_buffer st)\<lparr>fb_data := m\<rparr>)\<rparr>))
            else bindR (spill st) (format_ex kMax img len))
      else format_ex kMax img len st)"

text \<open>The integer types; \<^verbatim>\<open>short\<close> and \<^verbatim>\<open>unsigned short\<close> are converted to \<^verbatim>\<open>int\<close> and \<^verbatim>\<open>unsigned int\<close> first.\<close>

datatype int_type = TShort | TUShort | TInt | TUInt | TLong | TULong | TLongLong | TULongLong

fun bits :: "int_type \<Rightarrow> nat" where
  "bits TShort = 16" | "bits TUShort = 16" | "bits TInt = 32" | "bits TUInt = 32"
| "bits TLong = 64" | "bits TULong = 64" | "bits TLongLong = 64" | "bits TULongLong = 64"

fun is_signed :: "int_type \<Rightarrow> bool" where
  "is_signed T \<longleftrightarrow> T \<in> {TShort, TInt, TLong, TLongLong}"

definition in_range :: "int_type \<Rightarrow> int \<Rightarrow> bool" where
  "in_range T v \<longleftrightarrow>
     (if is_signed T then - (2 ^ (bits T - 1)) \<le> v \<and> v < 2 ^ (bits T - 1) else 0 \<le> v \<and> v < 2 ^ bits T)"

text \<open>\<^verbatim>\<open>std::numeric_limits<T>::digits10\<close>\<close>

fun digits10 :: "int_type \<Rightarrow> nat" where
  "digits10 TShort = 9" | "digits10 TUShort = 9" | "digits10 TInt = 9" | "digits10 TUInt = 9"
| "digits10 TLong = 18" | "digits10 TULong = 19" | "digits10 TLongLong = 18" | "digits10 TULongLong = 19"

definition formatInteger :: "int_type \<Rightarrow> int \<Rightarrow> log_stream \<Rightarrow> log_stream result" where
  "formatInteger T v st = format_at (digits10 T + 4) (convert v @ [CHR 0x00]) (length (convert v)) st"

definition put_pointer :: "nat \<Rightarrow> log_stream \<Rightarrow> log_stream result" where
  "put_pointer v st = format_at 20 (''0x'' @ convertHex v @ [CHR 0x00]) (length (convertHex v) + 2) st"

text \<open>
  \<^verbatim>\<open>double\<close> and \<^verbatim>\<open>long double\<close> are given by the text \<open>s\<close> that \<^verbatim>\<open>%.12g\<close> makes of them; \<^verbatim>\<open>snprintf\<close> writes
  at most the room it is given, and returns the length of the whole text.
\<close>

definition snprintf_image :: "nat \<Rightarrow> string \<Rightarrow> byte list" where
  "snprintf_image room s = take (room - 1) s @ [CHR 0x00]"

definition put_double :: "string \<Rightarrow> log_stream \<Rightarrow> log_stream result" where
  "put_double s st = format_at 32 (snprintf_image 32 s) (length s) st"

definition put_long_double :: "string \<Rightarrow> log_stream \<Rightarrow> log_stream result" where
  "put_long_double s st = format_at 48 (snprintf_image 48 s) (length s) st"

definition put_literal :: "string \<Rightarrow> log_stream \<Rightarrow> log_stream result" where
  "put_literal s st = assertR (CHR 0x00 \<notin> set s) (ls_append s st)"

definition put_cstring :: "string option \<Rightarrow> log_stream \<Rightarrow> log_stream result" where
  "put_cstring s st = (case s of Some s \<Rightarrow> ls_append s st | None \<Rightarrow> ls_append ''(null)'' st)"

text \<open>\<^verbatim>\<open>Fmt(fmt, val)\<close>, given by the text that \<^verbatim>\<open>fmt\<close> makes of the value.\<close>

definition Fmt_new :: "string \<Rightarrow> byte list result" where
  "Fmt_new s = assertR (length s < 48) (Inr (take (length s) (snprintf_image 48 s)))"

datatype log_item =
    ItBool bool
  | ItInt int_type int
  | ItPointer nat
  | ItDouble string
  | ItLongDouble string
  | ItChar char
  | ItLiteral string
  | ItCString "string option"
  | ItString string
  | ItFmt string

fun LogStream_out :: "log_stream \<Rightarrow> log_item \<Rightarrow> log_stream result" where
  "LogStream_out st (ItBool v) = ls_append (if v then ''1'' else ''0'') st"
| "LogStream_out st (ItInt T v) = formatInteger T v st"
| "LogStream_out st (ItPointer v) = put_pointer v st"
| "LogStream_out st (ItDouble s) = put_double s st"
| "LogStream_out st (ItLongDouble s) = put_long_double s st"
| "LogStream_out st (ItChar c) = ls_append [c] st"
| "LogStream_out st (ItLiteral s) = put_literal s st"
| "LogStream_out st (ItCString s) = put_cstring s st"
| "LogStream_out st (ItString s) = ls_append s st"
| "LogStream_out st (ItFmt s) = bindR (Fmt_new s) (\<lambda>d. ls_append d st)"

text \<open>The bytes at \<^verbatim>\<open>bufferData()\<close>, \<^verbatim>\<open>bufferLength()\<close> of them.\<close>

definition bufferText :: "log_stream \<Rightarrow> byte list result" where
  "bufferText st =
     (if lg_exBuffer st \<noteq> [] then Inr (lg_exBuffer st) else mem_read (fb_data (lg_buffer st)) 0 (fb_length (lg_buffer st)))"

definition resetBuffer :: "log_stream \<Rightarrow> log_stream" where
  "resetBuffer st = st\<lparr>lg_buffer := fb_reset (lg_buffer st), lg_exBuffer := []\<rparr>"

section \<open>The conversion is the usual one\<close>

lemma digits_middle: "\<bar>d\<bar> < 10 \<Longrightarrow> digits ! nat (9 + d) = char_of (48 + nat \<bar>d\<bar>)"
proof -
  assume "\<bar>d\<bar> < 10"
  then have "nat (9 + d) \<in> set [0..<19]" by auto
  moreover have "\<forall>k \<in> set [0..<19]. digits ! k = char_of (48 + nat \<bar>int k - 9\<bar>)" by code_simp
  moreover have "int (nat (9 + d)) - 9 = d" using \<open>\<bar>d\<bar> < 10\<close> by linarith
  ultimately show ?thesis by metis
qed

lemma sdiv_smod_10:
  "nat \<bar>(i :: int) sdiv 10\<bar> = nat \<bar>i\<bar> div 10" "nat \<bar>i smod 10\<bar> = nat \<bar>i\<bar> mod 10" "\<bar>i smod 10\<bar> < 10"
  by (simp_all add: signed_divide_int_def signed_modulo_int_def abs_mult abs_sgn_eq nat_div_distrib nat_mod_distrib)

lemma convert_loop_digits: "convert_loop i = rev (to_string (nat \<bar>i\<bar>))"
proof (induction i rule: convert_loop.induct)
  case (1 i)
  let ?n = "nat \<bar>i\<bar>"
  have d: "digits ! nat (9 + i smod 10) = char_of (48 + ?n mod 10)"
    using digits_middle [OF sdiv_smod_10(3), of i] sdiv_smod_10(2) [of i] by simp
  have z: "i sdiv 10 = 0 \<longleftrightarrow> ?n < 10" using sdiv_smod_10(1) [of i] by (metis abs_zero div_less_iff_less_mult div_eq_0_iff nat_0 nat_0_iff zero_neq_numeral abs_le_zero_iff)
  show ?case
  proof (cases "?n < 10")
    case True
    then show ?thesis using d z by (simp add: convert_loop.simps [of i] to_string.simps [of ?n])
  next
    case False
    with 1 [OF refl refl] z have "convert_loop (i sdiv 10) = rev (to_string (?n div 10))" by (simp add: sdiv_smod_10)
    then show ?thesis using d z False by (simp add: convert_loop.simps [of i] to_string.simps [of ?n])
  qed
qed

lemma convert_to_string: "convert v = to_string_int v"
  by (simp add: convert_def convert_loop_digits to_string_int_def)

text \<open>The room made for a number is enough for its text and a NUL.\<close>

lemma length_to_string: "n < 10 ^ k \<Longrightarrow> 0 < k \<Longrightarrow> length (to_string n) \<le> k"
  using to_string_length by blast

lemma length_convert:
  assumes "in_range T v"
  shows "length (convert v) < digits10 T + 3"
proof -
  have "\<bar>v\<bar> < 10 ^ (digits10 T + 1)" using assms by (cases T) (auto simp: in_range_def)
  then have "length (to_string (nat \<bar>v\<bar>)) \<le> digits10 T + 1" by (intro length_to_string) (simp_all add: nat_less_iff)
  then show ?thesis by (cases "v < 0") (simp_all add: convert_to_string to_string_int_def)
qed

lemma length_convertHex: "v < 16 ^ k \<Longrightarrow> 0 < k \<Longrightarrow> length (convertHex_loop v) \<le> k"
proof (induction v arbitrary: k rule: convertHex_loop.induct)
  case (1 v)
  show ?case
  proof (cases "v div 16 = 0")
    case True
    then show ?thesis using 1(3) by (simp add: convertHex_loop.simps [of v])
  next
    case False
    then have "\<not> v < 16" by simp
    with 1(2) obtain j where j: "k = Suc j" "0 < j" by (cases k; cases "k - 1") auto
    with 1(2) have "v div 16 < 16 ^ j" by (simp add: less_mult_imp_div_less mult.commute)
    from 1(1) [OF False this j(2)] show ?thesis using False j by (simp add: convertHex_loop.simps [of v])
  qed
qed

section \<open>The stream holds what was streamed\<close>

fun item_ok :: "log_item \<Rightarrow> bool" where
  "item_ok (ItInt T v) \<longleftrightarrow> in_range T v"
| "item_ok (ItPointer v) \<longleftrightarrow> v < 2 ^ 64"
| "item_ok (ItDouble s) \<longleftrightarrow> length s < 32"
| "item_ok (ItLongDouble s) \<longleftrightarrow> length s < 48"
| "item_ok (ItLiteral s) \<longleftrightarrow> CHR 0x00 \<notin> set s"
| "item_ok (ItFmt s) \<longleftrightarrow> length s < 48"
| "item_ok _ \<longleftrightarrow> True"

fun render :: "log_item \<Rightarrow> string" where
  "render (ItBool v) = (if v then ''1'' else ''0'')"
| "render (ItInt T v) = to_string_int v"
| "render (ItPointer v) = ''0x'' @ convertHex v"
| "render (ItDouble s) = s"
| "render (ItLongDouble s) = s"
| "render (ItChar c) = [c]"
| "render (ItLiteral s) = s"
| "render (ItCString s) = (case s of Some s \<Rightarrow> s | None \<Rightarrow> ''(null)'')"
| "render (ItString s) = s"
| "render (ItFmt s) = s"

definition stream_holds :: "log_stream \<Rightarrow> string \<Rightarrow> bool" where
  "stream_holds st tx \<longleftrightarrow>
     length (fb_data (lg_buffer st)) = kSmallBuffer \<and> fb_cur (lg_buffer st) < kSmallBuffer \<and>
     tx = (if lg_exBuffer st \<noteq> [] then lg_exBuffer st else take (fb_cur (lg_buffer st)) (fb_data (lg_buffer st)))"

lemma stream_holds_text: "stream_holds st tx \<Longrightarrow> bufferText st = Inr tx"
  by (auto simp: stream_holds_def bufferText_def mem_read_def fb_length_def)

lemma spill_ok:
  assumes "stream_holds st tx" "lg_exBuffer st = []"
  shows "spill st = Inr (st\<lparr>lg_exBuffer := tx\<rparr>)"
  using assms by (simp add: stream_holds_def spill_def mem_read_def fb_length_def str_append_def)

lemma ls_append_ok:
  assumes st: "stream_holds st tx" and len: "length tx + length d \<le> mem_max"
  shows "\<exists>st'. ls_append d st = Inr st' \<and> stream_holds st' (tx @ d)"
proof (cases "lg_exBuffer st = []")
  case False
  then show ?thesis using st len by (simp add: ls_append_def str_append_def stream_holds_def)
next
  case True
  show ?thesis
  proof (cases "fb_avail (lg_buffer st) > length d")
    case fits: True
    then have "fb_cur (lg_buffer st) + length d < kSmallBuffer" using st by (simp add: stream_holds_def fb_avail_def)
    then show ?thesis
      using st True fits by (simp add: ls_append_def fb_append_def stream_holds_def mem_write_def)
  next
    case full: False
    have "d \<noteq> []" using full st by (auto simp: stream_holds_def fb_avail_def)
    then show ?thesis
      using full True len st spill_ok [OF st True] by (simp add: ls_append_def fb_append_def str_append_def stream_holds_def)
  qed
qed

lemma format_ex_ok:
  assumes "length (lg_exBuffer st) + kMax \<le> mem_max" "length d < kMax"
  shows "format_ex kMax (d @ [CHR 0x00]) (length d) st = Inr (st\<lparr>lg_exBuffer := lg_exBuffer st @ d\<rparr>)"
  using assms by (simp add: format_ex_def vec_resize_def mem_write_def Let_def)

lemma format_at_ok:
  assumes st: "stream_holds st tx" and len: "length tx + kMax \<le> mem_max" "length d < kMax" "kMax \<le> 64"
  shows "\<exists>st'. format_at kMax (d @ [CHR 0x00]) (length d) st = Inr st' \<and> stream_holds st' (tx @ d)"
proof (cases "lg_exBuffer st = []")
  case False
  then have "tx = lg_exBuffer st" using st by (simp add: stream_holds_def)
  then show ?thesis using st False len format_ex_ok [of st kMax d] by (simp add: format_at_def stream_holds_def)
next
  case True
  show ?thesis
  proof (cases "fb_avail (lg_buffer st) \<ge> kMax")
    case fits: True
    then have "fb_cur (lg_buffer st) + length d < kSmallBuffer" using st len(2) by (simp add: stream_holds_def fb_avail_def)
    then show ?thesis
      using st True fits by (simp add: format_at_def stream_holds_def mem_write_def fb_add_def)
  next
    case full: False
    have "tx \<noteq> []" using full st len(3) True by (auto simp: stream_holds_def fb_avail_def)
    then show ?thesis
      using full True len st spill_ok [OF st True] format_ex_ok [of "st\<lparr>lg_exBuffer := tx\<rparr>" kMax d]
      by (simp add: format_at_def stream_holds_def)
  qed
qed

lemma out_ok:
  assumes st: "stream_holds st tx" and it: "item_ok it" and len: "length tx + length (render it) + 64 \<le> mem_max"
  shows "\<exists>st'. LogStream_out st it = Inr st' \<and> stream_holds st' (tx @ render it)"
proof (cases it)
  case (ItInt T v)
  have "length (convert v) < digits10 T + 4" "digits10 T + 4 \<le> 64"
    using length_convert [of T v] it ItInt by (auto, cases T, auto)
  then show ?thesis
    using format_at_ok [OF st, of "digits10 T + 4" "convert v"] len ItInt
    by (simp add: formatInteger_def convert_to_string)
next
  case (ItPointer v)
  have "length (convertHex v) \<le> 16" using length_convertHex [of v 16] it ItPointer by (simp add: convertHex_def)
  then show ?thesis
    using format_at_ok [OF st, of 20 "''0x'' @ convertHex v"] len ItPointer by (simp add: put_pointer_def)
next
  case (ItDouble s)
  then show ?thesis
    using format_at_ok [OF st, of 32 s] len it by (simp add: put_double_def snprintf_image_def)
next
  case (ItLongDouble s)
  then show ?thesis
    using format_at_ok [OF st, of 48 s] len it by (simp add: put_long_double_def snprintf_image_def)
next
  case (ItFmt s)
  then have "take (length s) (snprintf_image 48 s) = s" using it by (simp add: snprintf_image_def)
  then show ?thesis using ls_append_ok [OF st, of s] len it ItFmt by (simp add: Fmt_new_def)
qed (use it len ls_append_ok [OF st] in \<open>auto simp: put_literal_def put_cstring_def split: option.splits\<close>)

lemma outs_ok:
  assumes "stream_holds st tx" "\<forall>it \<in> set its. item_ok it" "length tx + length (concat (map render its)) + 64 \<le> mem_max"
  shows "\<exists>st'. foldR LogStream_out st its = Inr st' \<and> stream_holds st' (tx @ concat (map render its))"
  using assms
proof (induction its arbitrary: st tx)
  case (Cons it its)
  obtain st' where st': "LogStream_out st it = Inr st'" "stream_holds st' (tx @ render it)"
    using out_ok [OF Cons.prems(1), of it] Cons.prems(2,3) by auto
  from Cons.IH [OF st'(2)] Cons.prems(2,3) st'(1) show ?case by simp
qed simp

lemma stream_holds_new: "length garbage = kSmallBuffer \<Longrightarrow> stream_holds (LogStream_new garbage) []"
  by (simp add: stream_holds_def LogStream_new_def FixedBuffer_new_def)

lemma stream_holds_reset: "stream_holds st tx \<Longrightarrow> stream_holds (resetBuffer st) []"
  by (simp add: stream_holds_def resetBuffer_def fb_reset_def)

text \<open>
  C37: A log stream holds what was streamed. For any sequence of booleans, integers of all types, pointers, floating-point numbers, characters,
  strings and formatted values, whether it stays in the fixed buffer or runs over into the string at any point of the
  sequence, no write leaves the memory made for it, no assertion fails, and the text at the end is the concatenation of
  the texts of the items. Floating-point numbers enter with the text that the standard library makes of them, which fits the room for it.
\<close>

theorem log_stream_text:
  assumes "length garbage = kSmallBuffer" "\<forall>it \<in> set its. item_ok it" "length (concat (map render its)) + 64 \<le> mem_max"
  shows "\<exists>st. foldR LogStream_out (LogStream_new garbage) its = Inr st \<and> bufferText st = Inr (concat (map render its))"
  using outs_ok [OF stream_holds_new [OF assms(1)] assms(2)] assms(3) stream_holds_text by fastforce

lemma convert_roundtrip_facts:
  shows "convert v = to_string_int v" and "- (2 ^ 63) \<le> v \<Longrightarrow> v < 2 ^ 63 \<Longrightarrow> stol (convert v) = Inr v"
proof -
  show "convert v = to_string_int v" by (rule convert_to_string)
  assume v: "- (2 ^ 63) \<le> v" "v < 2 ^ 63"
  let ?ds = "to_string (nat \<bar>v\<bar>)"
  have ds: "?ds \<noteq> []" "\<forall>c \<in> set ?ds. is_digit c" "int (digits_value ?ds) = \<bar>v\<bar>"
    using to_string_digits [OF refl, of "nat \<bar>v\<bar>"] by (simp_all add: digits_value_to_string)
  show "stol (convert v) = Inr v"
  proof (cases "v < 0")
    case False
    have "int (digits_value ?ds) < 2 ^ 63" using ds(3) v False by simp
    then have "digits_value ?ds < 2 ^ 63" by simp
    from stol_digits [OF ds(1,2) this] show ?thesis using ds(3) False by (simp add: convert_to_string to_string_int_def)
  next
    case True
    have sign: "\<not> is_space (CHR ''-'')" by (simp add: is_space_def)
    have tw: "takeWhile is_digit (to_string (nat (- v))) = to_string (nat (- v))" using ds(2) True by (simp add: takeWhile_eq_all_conv)
    show ?thesis
      using True v ds sign by (simp add: convert_to_string to_string_int_def stol_def Let_def tw)
  qed
qed

text \<open>
  The text of an integer is its decimal notation, also for the smallest number of its type, whose negation does not
  exist: it is what \<^verbatim>\<open>std::to_string\<close> prints, and \<^verbatim>\<open>std::stol\<close> reads it back.
\<close>

theorem convert_roundtrip:
  shows "convert v = to_string_int v \<and> (- (2 ^ 63) \<le> v \<and> v < 2 ^ 63 \<longrightarrow> stol (convert v) = Inr v)"
  using convert_roundtrip_facts by blast


theorem log_stream_text_witness:
  "\<exists>st. foldR LogStream_out (LogStream_new (replicate kSmallBuffer (CHR ''x''))) [ItLiteral ''n='', ItInt TInt (-42), ItBool True] = Inr st \<and>
        bufferText st = Inr ''n=-421''"
  using log_stream_text [of "replicate kSmallBuffer (CHR ''x'')" "[ItLiteral ''n='', ItInt TInt (-42), ItBool True]"]
  by (simp add: in_range_def to_string_int_def to_string.simps char_of_def bit_0)

theorem convert_roundtrip_witness:
  "convert (- 9223372036854775808) = to_string_int (- 9223372036854775808) \<and> stol (convert (- 9223372036854775808)) = Inr (- 9223372036854775808)"
  using convert_roundtrip [of "- 9223372036854775808"] by auto

end
