(* ===== verification/Date.thy ===== *)
theory Date
  imports Utilities Numbers "HOL-Library.Signed_Division"
begin

text \<open>
  Time points (\<^verbatim>\<open>cooper/util/Date.*\<close>): microseconds since 1970, their comparison and rounding, and the formats for log lines and
  data bases. UTC is computed; the local time zone is a parameter, the functions \<^verbatim>\<open>localtime_r\<close> and \<^verbatim>\<open>mktime\<close> of the C
  library. What is written for a data base is read back to the same time point, except at midnight.
\<close>

section \<open>Broken-down time\<close>

record tm =
  tm_sec :: int
  tm_min :: int
  tm_hour :: int
  tm_mday :: int
  tm_mon :: int
  tm_year :: int
  tm_isdst :: int

definition leap :: "int \<Rightarrow> bool" where
  "leap y \<longleftrightarrow> y mod 4 = 0 \<and> (y mod 100 \<noteq> 0 \<or> y mod 400 = 0)"

definition year_days :: "int \<Rightarrow> nat" where
  "year_days y = (if leap y then 366 else 365)"

definition month_days :: "int \<Rightarrow> nat list" where
  "month_days y = [31, if leap y then 29 else 28, 31, 30, 31, 30, 31, 31, 30, 31, 30, 31]"

text \<open>The year of a day, counted from or backwards from a first of January; the month of a day of a year.\<close>

function year_up :: "int \<Rightarrow> nat \<Rightarrow> int \<times> nat" where
  "year_up y d = (if d < year_days y then (y, d) else year_up (y + 1) (d - year_days y))"
  by pat_completeness auto
termination
  by (relation "measure snd") (auto simp: year_days_def split: if_splits)

function year_down :: "int \<Rightarrow> nat \<Rightarrow> int \<times> nat" where
  "year_down y k =
     (if k \<le> year_days (y - 1) then (y - 1, year_days (y - 1) - k) else year_down (y - 1) (k - year_days (y - 1)))"
  by pat_completeness auto
termination
  by (relation "measure snd") (auto simp: year_days_def split: if_splits)

declare year_up.simps [simp del] year_down.simps [simp del]

fun month_of :: "nat list \<Rightarrow> nat \<Rightarrow> int \<times> nat" where
  "month_of [] d = (0, d)"
| "month_of (m # ms) d = (if d < m then (0, d) else (let (k, r) = month_of ms (d - m) in (k + 1, r)))"

definition gmtime_r :: "int \<Rightarrow> tm" where
  "gmtime_r s =
     (let day = s div 86400; r = s mod 86400;
          (y, yday) = (if day \<ge> 0 then year_up 1970 (nat day) else year_down 1970 (nat (- day)));
          (mon, mday) = month_of (month_days y) yday
      in \<lparr>tm_sec = r mod 60, tm_min = r div 60 mod 60, tm_hour = r div 3600, tm_mday = int mday + 1, tm_mon = mon,
          tm_year = y - 1900, tm_isdst = 0\<rparr>)"

text \<open>The local time zone.\<close>

record time_zone =
  tz_localtime :: "int \<Rightarrow> tm"
  tz_mktime :: "tm \<Rightarrow> int"

section \<open>Time points\<close>

datatype date = Date (microSecondsSinceEpoch: int)

abbreviation MICRO_SECONDS_PRE_SEC :: int where
  "MICRO_SECONDS_PRE_SEC \<equiv> 1000000"

instantiation date :: linorder
begin

definition less_eq_date :: "date \<Rightarrow> date \<Rightarrow> bool" where
  "less_eq_date a b \<longleftrightarrow> microSecondsSinceEpoch a \<le> microSecondsSinceEpoch b"

definition less_date :: "date \<Rightarrow> date \<Rightarrow> bool" where
  "less_date a b \<longleftrightarrow> microSecondsSinceEpoch a < microSecondsSinceEpoch b"

instance
  by intro_classes (auto simp: less_eq_date_def less_date_def intro: date.expand)

end

definition Date_now :: "int \<Rightarrow> int \<Rightarrow> date" where
  "Date_now tv_sec tv_usec = Date (tv_sec * MICRO_SECONDS_PRE_SEC + tv_usec)"

definition secondsSinceEpoch :: "date \<Rightarrow> int" where
  "secondsSinceEpoch d = microSecondsSinceEpoch d sdiv MICRO_SECONDS_PRE_SEC"

definition microPart :: "date \<Rightarrow> int" where
  "microPart d = microSecondsSinceEpoch d smod MICRO_SECONDS_PRE_SEC"

definition tmStruct :: "date \<Rightarrow> tm" where
  "tmStruct d = gmtime_r (secondsSinceEpoch d)"

definition Date_swap :: "date \<Rightarrow> date \<Rightarrow> date \<times> date" where
  "Date_swap a b = (Date (microSecondsSinceEpoch b), Date (microSecondsSinceEpoch a))"

definition isSameSecond :: "date \<Rightarrow> date \<Rightarrow> bool" where
  "isSameSecond a b \<longleftrightarrow> secondsSinceEpoch a = secondsSinceEpoch b"

definition roundSecond :: "date \<Rightarrow> date" where
  "roundSecond d = Date (microSecondsSinceEpoch d - microPart d)"

definition roundDay :: "time_zone \<Rightarrow> date \<Rightarrow> date" where
  "roundDay tz d =
     (let t = tz_localtime tz (secondsSinceEpoch d)
      in Date (tz_mktime tz (t\<lparr>tm_hour := 0, tm_min := 0, tm_sec := 0\<rparr>) * MICRO_SECONDS_PRE_SEC))"

text \<open>
  \<^verbatim>\<open>after(double)\<close> for a whole number of seconds: the arithmetic is in \<^verbatim>\<open>double\<close>, which keeps 53 bits of a number and rounds to the
  nearest, ties to even.
\<close>

fun double_exponent :: "nat \<Rightarrow> nat" where
  "double_exponent n = (if n < 2 ^ 53 then 0 else Suc (double_exponent (n div 2)))"

declare double_exponent.simps [simp del]

definition to_double :: "int \<Rightarrow> int" where
  "to_double i =
     (let u = 2 ^ double_exponent (nat \<bar>i\<bar>); q = i div u; r = i mod u
      in if 2 * r < u \<or> 2 * r = u \<and> even q then q * u else (q + 1) * u)"

definition after_seconds :: "date \<Rightarrow> int \<Rightarrow> date" where
  "after_seconds d second =
     Date (to_double (to_double (microSecondsSinceEpoch d) + to_double (to_double second * MICRO_SECONDS_PRE_SEC)))"

section \<open>Formats\<close>

definition format_time :: "tm \<Rightarrow> string" where
  "format_time t = print_zeros 2 (tm_hour t) @ '':'' @ print_zeros 2 (tm_min t) @ '':'' @ print_zeros 2 (tm_sec t)"

definition format_compact :: "tm \<Rightarrow> int option \<Rightarrow> string" where
  "format_compact t us =
     print_blanks 4 (tm_year t + 1900) @ print_zeros 2 (tm_mon t + 1) @ print_zeros 2 (tm_mday t) @ '' '' @ format_time t @
     (case us of None \<Rightarrow> '''' | Some u \<Rightarrow> ''.'' @ print_zeros 6 u)"

definition toFormattedString :: "bool \<Rightarrow> date \<Rightarrow> string" where
  "toFormattedString showMicroseconds d =
     format_compact (gmtime_r (secondsSinceEpoch d)) (if showMicroseconds then Some (microPart d) else None)"

definition toFormattedStringLocal :: "time_zone \<Rightarrow> bool \<Rightarrow> date \<Rightarrow> string" where
  "toFormattedStringLocal tz showMicroseconds d =
     format_compact (tz_localtime tz (secondsSinceEpoch d)) (if showMicroseconds then Some (microPart d) else None)"

text \<open>\<^verbatim>\<open>strftime\<close> is a parameter: the text it leaves in a buffer of the given size.\<close>

definition toCustomedFormattedString ::
    "(nat \<Rightarrow> string \<Rightarrow> tm \<Rightarrow> string) \<Rightarrow> string \<Rightarrow> bool \<Rightarrow> date \<Rightarrow> string" where
  "toCustomedFormattedString strftime fmtStr showMicroseconds d =
     strftime 256 fmtStr (gmtime_r (secondsSinceEpoch d)) @ (if showMicroseconds then ''.'' @ print_zeros 6 (microPart d) else '''')"

definition toCustomedFormattedString_to ::
    "(nat \<Rightarrow> string \<Rightarrow> tm \<Rightarrow> string) \<Rightarrow> string \<Rightarrow> nat \<Rightarrow> date \<Rightarrow> string" where
  "toCustomedFormattedString_to strftime fmtStr len d = strftime len fmtStr (gmtime_r (secondsSinceEpoch d))"

definition toCustomedFormattedStringLocal ::
    "time_zone \<Rightarrow> (nat \<Rightarrow> string \<Rightarrow> tm \<Rightarrow> string) \<Rightarrow> string \<Rightarrow> bool \<Rightarrow> date \<Rightarrow> string" where
  "toCustomedFormattedStringLocal tz strftime fmtStr showMicroseconds d =
     strftime 256 fmtStr (tz_localtime tz (secondsSinceEpoch d)) @ (if showMicroseconds then ''.'' @ print_zeros 6 (microPart d) else '''')"

definition format_day :: "tm \<Rightarrow> string" where
  "format_day t = print_blanks 4 (tm_year t + 1900) @ ''-'' @ print_zeros 2 (tm_mon t + 1) @ ''-'' @ print_zeros 2 (tm_mday t)"

definition toDbStringLocal :: "time_zone \<Rightarrow> date \<Rightarrow> string" where
  "toDbStringLocal tz d =
     (let t = tz_localtime tz (secondsSinceEpoch d) in
      if microPart d \<noteq> 0 then format_day t @ '' '' @ format_time t @ ''.'' @ print_zeros 6 (microPart d)
      else if d = roundDay tz d then format_day t
      else format_day t @ '' '' @ format_time t)"

text \<open>The constructor from the parts of a time: the numbers are \<^verbatim>\<open>unsigned int\<close>, the fields of \<^verbatim>\<open>struct tm\<close> are \<^verbatim>\<open>int\<close>.\<close>

definition to_uint :: "int \<Rightarrow> int" where
  "to_uint i = i mod 2 ^ 32"

definition to_int :: "int \<Rightarrow> int" where
  "to_int i = (i + 2 ^ 31) mod 2 ^ 32 - 2 ^ 31"

definition Date_of :: "time_zone \<Rightarrow> int \<Rightarrow> int \<Rightarrow> int \<Rightarrow> int \<Rightarrow> int \<Rightarrow> int \<Rightarrow> int \<Rightarrow> date" where
  "Date_of tz year month day hour minute second microSecond =
     Date (tz_mktime tz \<lparr>tm_sec = to_int second, tm_min = to_int minute, tm_hour = to_int hour, tm_mday = to_int day,
                         tm_mon = to_int (month - 1), tm_year = to_int (year - 1900), tm_isdst = -1\<rparr>
           * MICRO_SECONDS_PRE_SEC + microSecond)"

text \<open>Fractions of a second are brought to six digits.\<close>

definition six_digits :: "string \<Rightarrow> string" where
  "six_digits s = (if length s > 6 then take 6 s else if length s < 6 then s @ replicate (6 - length s) (CHR ''0'') else s)"

definition parse_uint :: "string \<Rightarrow> int result" where
  "parse_uint s = bindR (stol s) (\<lambda>v. Inr (to_uint v))"

definition fromDbStringLocal :: "time_zone \<Rightarrow> string \<Rightarrow> date result" where
  "fromDbStringLocal tz datetime =
     (case splitString datetime '' '' False of
        [v0, v1] \<Rightarrow>
          (case splitString v0 ''-'' False of
             [d0, d1, d2] \<Rightarrow>
               bindR (parse_uint d0) (\<lambda>year. bindR (parse_uint d1) (\<lambda>month. bindR (parse_uint d2) (\<lambda>day.
                 case splitString v1 '':'' False of
                   t0 # t1 # t2 # _ \<Rightarrow>
                     bindR (parse_uint t0) (\<lambda>hour. bindR (parse_uint t1) (\<lambda>minute.
                       case splitString t2 ''.'' False of
                         [] \<Rightarrow> Inl OutOfBounds
                       | s0 # ss \<Rightarrow>
                           bindR (parse_uint s0) (\<lambda>second.
                           bindR (case ss of [] \<Rightarrow> Inr 0 | s1 # _ \<Rightarrow> parse_uint (six_digits s1)) (\<lambda>microSecond.
                             Inr (Date_of tz year month day hour minute second microSecond)))))
                 | _ \<Rightarrow> Inr (Date_of tz year month day 0 0 0 0))))
           | _ \<Rightarrow> Inr (Date_of tz 0 0 0 0 0 0 0))
      | _ \<Rightarrow> Inr (Date_of tz 0 0 0 0 0 0 0))"

definition timezoneOffset :: "time_zone \<Rightarrow> int result" where
  "timezoneOffset tz =
     bindR (fromDbStringLocal tz ''1970-01-03 00:00:00'') (\<lambda>d. Inr (- (secondsSinceEpoch d - 2 * 3600 * 24)))"

definition toDbString :: "time_zone \<Rightarrow> date \<Rightarrow> string result" where
  "toDbString tz d = bindR (timezoneOffset tz) (\<lambda>off. Inr (toDbStringLocal tz (after_seconds d (- off))))"

definition fromDbString :: "time_zone \<Rightarrow> string \<Rightarrow> date result" where
  "fromDbString tz datetime =
     bindR (fromDbStringLocal tz datetime) (\<lambda>d. bindR (timezoneOffset tz) (\<lambda>off. Inr (after_seconds d off)))"

lemma to_double_exact: "\<bar>i\<bar> < 2 ^ 53 \<Longrightarrow> to_double i = i"
  by (simp add: to_double_def double_exponent.simps nat_less_iff Let_def)

section \<open>What is written is read back\<close>

definition tm_ok :: "tm \<Rightarrow> bool" where
  "tm_ok t \<longleftrightarrow>
     0 \<le> tm_sec t \<and> tm_sec t \<le> 60 \<and> 0 \<le> tm_min t \<and> tm_min t \<le> 59 \<and> 0 \<le> tm_hour t \<and> tm_hour t \<le> 23 \<and>
     1 \<le> tm_mday t \<and> tm_mday t \<le> 31 \<and> 0 \<le> tm_mon t \<and> tm_mon t \<le> 11 \<and> -900 \<le> tm_year t \<and> tm_year t \<le> 8099"

definition digit_text :: "string \<Rightarrow> bool" where
  "digit_text s \<longleftrightarrow> s \<noteq> [] \<and> (\<forall>c \<in> set s. is_digit c)"

lemma digit_text_zeros: "0 \<le> i \<Longrightarrow> digit_text (print_zeros w i)"
  using print_zeros_digits [of i w] by (simp add: digit_text_def)

text \<open>A year of four digits needs no blanks.\<close>

lemma print_blanks_four:
  assumes "1000 \<le> i"
  shows "print_blanks 4 i = print_zeros 0 i"
proof -
  have "\<not> length (to_string (nat i)) \<le> 3" using to_string_length [of "nat i" 3] assms by simp
  then show ?thesis using assms by (simp add: print_blanks_def print_zeros_def to_string_int_def)
qed

lemma digit_text_not: "digit_text s \<Longrightarrow> c \<in> {CHR '' '', CHR ''-'', CHR '':'', CHR ''.''} \<Longrightarrow> c \<notin> set s"
  by (auto simp: digit_text_def is_digit_def)

lemma digit_text_nots:
  "digit_text s \<Longrightarrow> CHR '' '' \<notin> set s \<and> CHR ''-'' \<notin> set s \<and> CHR '':'' \<notin> set s \<and> CHR ''.'' \<notin> set s \<and> s \<noteq> []"
  by (intro conjI; (rule digit_text_not, assumption, simp)?) (simp add: digit_text_def)

lemma parse_uint_zeros: "0 \<le> i \<Longrightarrow> i < 2 ^ 32 \<Longrightarrow> parse_uint (print_zeros w i) = Inr i"
  by (simp add: parse_uint_def stol_print_zeros to_uint_def)

lemma to_int_small: "\<bar>i\<bar> < 2 ^ 31 \<Longrightarrow> to_int i = i"
  by (simp add: to_int_def)

lemma six_digits_six: "length s = 6 \<Longrightarrow> six_digits s = s"
  by (simp add: six_digits_def)

lemma smod_bounds: "0 \<le> (i :: int) \<Longrightarrow> 0 \<le> i smod 1000000 \<and> i smod 1000000 < 1000000 \<and> i = i sdiv 1000000 * 1000000 + i smod 1000000"
  by (simp add: signed_divide_int_def signed_modulo_int_def sgn_if)

lemma digit_text_pieces:
  assumes "\<forall>p \<in> set ps. digit_text p" "ps \<noteq> []" "c \<in> {CHR '' '', CHR ''-'', CHR '':'', CHR ''.''}"
  shows "splitString (join [c] ps) [c] False = ps"
proof (rule splitString_join [OF assms(2)], intro ballI conjI)
  fix p assume "p \<in> set ps"
  then have p: "digit_text p" using assms(1) by blast
  show "c \<notin> set p" by (rule digit_text_not [OF p assms(3)])
  show "p \<noteq> []" using p by (simp add: digit_text_def)
qed

lemma fromDb_join:
  assumes d: "digit_text Y" "digit_text M" "digit_text D" "digit_text h" "digit_text m" "digit_text s" "\<forall>u \<in> set us. digit_text u"
    and v: "parse_uint Y = Inr y" "parse_uint M = Inr mo" "parse_uint D = Inr dy" "parse_uint h = Inr hr" "parse_uint m = Inr mi"
      "parse_uint s = Inr sc" "(case us of [] \<Rightarrow> Inr 0 | u # _ \<Rightarrow> parse_uint (six_digits u)) = Inr mic"
  shows "fromDbStringLocal tz (join '' '' [join ''-'' [Y, M, D], join '':'' [h, m, join ''.'' (s # us)]]) =
    Inr (Date_of tz y mo dy hr mi sc mic)"
proof -
  note n = d(1-6) [THEN digit_text_nots]
  let ?sec = "join ''.'' (s # us)"
  have ne: "?sec \<noteq> []" using n(6) by (cases us) auto
  have nc: "CHR '' '' \<notin> set ?sec" "CHR '':'' \<notin> set ?sec"
    using n(6) d(7) digit_text_nots unfolding join_not by auto
  have "splitString (join '' '' [join ''-'' [Y, M, D], join '':'' [h, m, join ''.'' (s # us)]]) '' '' False =
      [join ''-'' [Y, M, D], join '':'' [h, m, join ''.'' (s # us)]]"
    using n ne nc by (intro splitString_join) (simp_all add: join_not)
  moreover have "splitString (join ''-'' [Y, M, D]) ''-'' False = [Y, M, D]"
    using d by (intro digit_text_pieces) auto
  moreover have "splitString (join '':'' [h, m, join ''.'' (s # us)]) '':'' False = [h, m, join ''.'' (s # us)]"
    using n ne nc by (intro splitString_join) simp_all
  moreover have "splitString (join ''.'' (s # us)) ''.'' False = s # us"
    using d by (intro digit_text_pieces) auto
  ultimately show ?thesis
    using v by (simp add: fromDbStringLocal_def del: join.simps)
qed

lemma Date_of_parts:
  assumes t: "tm_ok t" and mk: "tz_mktime tz (t\<lparr>tm_isdst := -1\<rparr>) = s"
  shows "Date_of tz (tm_year t + 1900) (tm_mon t + 1) (tm_mday t) (tm_hour t) (tm_min t) (tm_sec t) u =
    Date (s * MICRO_SECONDS_PRE_SEC + u)"
proof -
  have "\<lparr>tm_sec = to_int (tm_sec t), tm_min = to_int (tm_min t), tm_hour = to_int (tm_hour t), tm_mday = to_int (tm_mday t),
      tm_mon = to_int (tm_mon t + 1 - 1), tm_year = to_int (tm_year t + 1900 - 1900), tm_isdst = -1\<rparr> = t\<lparr>tm_isdst := -1\<rparr>"
    using t by (cases t) (auto simp: tm_ok_def intro!: to_int_small)
  then show ?thesis using mk by (simp add: Date_of_def)
qed

lemma format_day_join:
  "tm_ok t \<Longrightarrow> format_day t = join ''-'' [print_zeros 0 (tm_year t + 1900), print_zeros 2 (tm_mon t + 1), print_zeros 2 (tm_mday t)]"
  by (simp add: format_day_def print_blanks_four tm_ok_def)

lemma fromDb_parts:
  assumes t: "tm_ok t" and u: "0 \<le> u" "u < MICRO_SECONDS_PRE_SEC"
  shows "fromDbStringLocal tz (format_day t @ '' '' @ format_time t @ (if u = 0 then [] else ''.'' @ print_zeros 6 u)) =
    Inr (Date_of tz (tm_year t + 1900) (tm_mon t + 1) (tm_mday t) (tm_hour t) (tm_min t) (tm_sec t) u)"
proof -
  let ?us = "if u = 0 then [] else [print_zeros 6 u]"
  have str: "format_day t @ '' '' @ format_time t @ (if u = 0 then [] else ''.'' @ print_zeros 6 u) =
      join '' '' [join ''-'' [print_zeros 0 (tm_year t + 1900), print_zeros 2 (tm_mon t + 1), print_zeros 2 (tm_mday t)],
        join '':'' [print_zeros 2 (tm_hour t), print_zeros 2 (tm_min t), join ''.'' (print_zeros 2 (tm_sec t) # ?us)]]"
    using format_day_join [OF t] by (simp add: format_time_def)
  have six: "six_digits (print_zeros 6 u) = print_zeros 6 u" using u by (intro six_digits_six length_print_zeros) simp_all
  show ?thesis
    unfolding str using t u six
    by (intro fromDb_join) (auto simp: tm_ok_def parse_uint_zeros intro: digit_text_zeros)
qed

text \<open>
  A time point written with \<^verbatim>\<open>toDbStringLocal\<close> is read back by \<^verbatim>\<open>fromDbStringLocal\<close>, with and without microseconds, in every time zone, as long as the
  C library does its part (the fields of \<^verbatim>\<open>localtime_r\<close> are in range, the year has four digits, and \<^verbatim>\<open>mktime\<close> gives the
  second back when it may choose whether daylight saving applies) and the time point is not a local midnight.
\<close>

theorem db_string_roundtrip:
  assumes "0 \<le> microSecondsSinceEpoch d"
    and "tm_ok (tz_localtime tz (secondsSinceEpoch d))"
    and "tz_mktime tz ((tz_localtime tz (secondsSinceEpoch d))\<lparr>tm_isdst := -1\<rparr>) = secondsSinceEpoch d"
    and "d \<noteq> roundDay tz d"
  shows "fromDbStringLocal tz (toDbStringLocal tz d) = Inr d"
proof -
  note b = smod_bounds [OF assms(1)]
  have "toDbStringLocal tz d = format_day (tz_localtime tz (secondsSinceEpoch d)) @ '' '' @ format_time (tz_localtime tz (secondsSinceEpoch d)) @
      (if microPart d = 0 then [] else ''.'' @ print_zeros 6 (microPart d))"
    using assms(4) by (simp add: toDbStringLocal_def Let_def)
  then have "fromDbStringLocal tz (toDbStringLocal tz d) = Inr (Date (secondsSinceEpoch d * MICRO_SECONDS_PRE_SEC + microPart d))"
    using fromDb_parts [OF assms(2), of "microPart d" tz] b Date_of_parts [OF assms(2,3)] by (simp add: microPart_def)
  then show ?thesis using b by (simp add: secondsSinceEpoch_def microPart_def)
qed

text \<open>At a local midnight only the day is written, and what is read back does not even depend on the day.\<close>

lemma db_string_midnight:
  assumes "tm_ok (tz_localtime tz (secondsSinceEpoch d))" "d = roundDay tz d" "microPart d = 0"
  shows "fromDbStringLocal tz (toDbStringLocal tz d) = Inr (Date_of tz 0 0 0 0 0 0 0)"
proof -
  let ?t = "tz_localtime tz (secondsSinceEpoch d)"
  have "toDbStringLocal tz d = format_day ?t"
    using assms(2,3) unfolding toDbStringLocal_def Let_def by (metis (full_types))
  also have "\<dots> = join '' '' [format_day ?t]" by simp
  finally have s: "toDbStringLocal tz d = join '' '' [format_day ?t]" .
  have n: "CHR '' '' \<notin> set (format_day ?t) \<and> format_day ?t \<noteq> []"
    using assms(1) digit_text_zeros [THEN digit_text_nots] unfolding format_day_join [OF assms(1)] join_not by (simp add: tm_ok_def)
  have "splitString (join '' '' [format_day ?t]) '' '' False = [format_day ?t]"
    using n by (intro splitString_join) simp_all
  then show ?thesis unfolding s fromDbStringLocal_def by simp
qed

text \<open>The time zone UTC.\<close>

definition days_before :: "int \<Rightarrow> int" where
  "days_before y = int (sum_list (map year_days [1970..y - 1])) - int (sum_list (map year_days [y..1969]))"

definition utc_mktime :: "tm \<Rightarrow> int" where
  "utc_mktime t =
     (days_before (tm_year t + 1900) + int (sum_list (take (nat (tm_mon t)) (month_days (tm_year t + 1900)))) + tm_mday t - 1) * 86400
     + tm_hour t * 3600 + tm_min t * 60 + tm_sec t"

definition utc :: time_zone where
  "utc = \<lparr>tz_localtime = gmtime_r, tz_mktime = utc_mktime\<rparr>"

theorem db_string_roundtrip_witness:
  "fromDbStringLocal utc (toDbStringLocal utc (Date 93784000006)) = Inr (Date 93784000006) \<and> secondsSinceEpoch (Date 93784000006) = 93784"
proof -
  have s: "secondsSinceEpoch (Date 93784000006) = 93784" by (simp add: secondsSinceEpoch_def signed_divide_int_def)
  have g: "gmtime_r 93784 = \<lparr>tm_sec = 4, tm_min = 3, tm_hour = 2, tm_mday = 2, tm_mon = 0, tm_year = 70, tm_isdst = 0\<rparr>"
    by (simp add: gmtime_r_def year_up.simps year_days_def leap_def month_days_def)
  have "fromDbStringLocal utc (toDbStringLocal utc (Date 93784000006)) = Inr (Date 93784000006)"
    by (rule db_string_roundtrip)
      (simp_all add: s g utc_def tm_ok_def utc_mktime_def days_before_def roundDay_def)
  with s show ?thesis by simp
qed

end
