(* ===== verification/Logger.thy ===== *)
theory Logger
  imports LogStream Date
begin

text \<open>
  Log statements (\<^verbatim>\<open>cooper/util/Logger.*\<close>): the levels with the macros that test them, the object that writes the head of a line when it
  is made and its end, with the hand-over to an output function, when it is destroyed, and the raw logger. The
  static variables are a record, so are those of a thread, in which the text of the last second is kept. Output and flush functions are numbers; calls of
  them are events.
\<close>

section \<open>Levels\<close>

datatype log_level = kTrace | kDebug | kInfo | kWarn | kError | kFatal

fun level_num :: "log_level \<Rightarrow> nat" where
  "level_num kTrace = 0" | "level_num kDebug = 1" | "level_num kInfo = 2"
| "level_num kWarn = 3" | "level_num kError = 4" | "level_num kFatal = 5"

lemma level_num_inj: "level_num a = level_num b \<Longrightarrow> a = b"
  by (cases a; cases b) simp_all

instantiation log_level :: linorder
begin

definition less_eq_log_level :: "log_level \<Rightarrow> log_level \<Rightarrow> bool" where
  "less_eq_log_level a b \<longleftrightarrow> level_num a \<le> level_num b"

definition less_log_level :: "log_level \<Rightarrow> log_level \<Rightarrow> bool" where
  "less_log_level a b \<longleftrightarrow> level_num a < level_num b"

instance
  by intro_classes (auto simp: less_eq_log_level_def less_log_level_def intro: level_num_inj)

end

fun logLevelStr :: "log_level \<Rightarrow> string" where
  "logLevelStr kTrace = '' TRACE ''" | "logLevelStr kDebug = '' DEBUG ''" | "logLevelStr kInfo = '' INFO  ''"
| "logLevelStr kWarn = '' WARN  ''" | "logLevelStr kError = '' ERROR ''" | "logLevelStr kFatal = '' FATAL ''"

section \<open>Static state\<close>

text \<open>An empty \<^verbatim>\<open>std::function\<close> is \<open>None\<close>. The vectors hold the functions set for an index.\<close>

record log_static =
  lc_logLevel :: log_level
  lc_displayLocalTime :: bool
  lc_outputFunc :: "nat option"
  lc_flushFunc :: "nat option"
  lc_outputFuncs :: "nat option list"
  lc_flushFuncs :: "nat option list"

datatype log_event = Output nat "byte list" | Flush nat

text \<open>\<^verbatim>\<open>outputFunc_(index)\<close>: a vector that is too short is filled up with the default function of that moment.\<close>

definition fill_up :: "nat \<Rightarrow> 'a \<Rightarrow> 'a list \<Rightarrow> 'a list" where
  "fill_up index dflt fs = fs @ replicate (Suc index - length fs) dflt"

definition outputFunc_at :: "nat \<Rightarrow> log_static \<Rightarrow> nat option \<times> log_static" where
  "outputFunc_at index lc =
     (let fs = fill_up index (lc_outputFunc lc) (lc_outputFuncs lc) in (fs ! index, lc\<lparr>lc_outputFuncs := fs\<rparr>))"

definition flushFunc_at :: "nat \<Rightarrow> log_static \<Rightarrow> nat option \<times> log_static" where
  "flushFunc_at index lc =
     (let fs = fill_up index (lc_flushFunc lc) (lc_flushFuncs lc) in (fs ! index, lc\<lparr>lc_flushFuncs := fs\<rparr>))"

definition setOutputFunction :: "nat option \<Rightarrow> nat option \<Rightarrow> int \<Rightarrow> log_static \<Rightarrow> log_static" where
  "setOutputFunction outputFunc flushFunc index lc =
     (if index < 0 then lc\<lparr>lc_outputFunc := outputFunc, lc_flushFunc := flushFunc\<rparr>
      else let (_, lc) = outputFunc_at (nat index) lc;
               lc = lc\<lparr>lc_outputFuncs := (lc_outputFuncs lc)[nat index := outputFunc]\<rparr>;
               (_, lc) = flushFunc_at (nat index) lc
           in lc\<lparr>lc_flushFuncs := (lc_flushFuncs lc)[nat index := flushFunc]\<rparr>)"

definition setLogLevel :: "log_level \<Rightarrow> log_static \<Rightarrow> log_static" where
  "setLogLevel level lc = lc\<lparr>lc_logLevel := level\<rparr>"

definition setDisplayLocalTime :: "bool \<Rightarrow> log_static \<Rightarrow> log_static" where
  "setDisplayLocalTime showLocalTime lc = lc\<lparr>lc_displayLocalTime := showLocalTime\<rparr>"

text \<open>The variables of a thread.\<close>

record log_thread =
  lt_lastSecond :: int
  lt_lastTimeString :: string
  lt_threadId :: int

section \<open>A log line\<close>

definition SourceFile_new :: "string option \<Rightarrow> string option" where
  "SourceFile_new filename = map_option (\<lambda>f. rev (takeWhile (\<lambda>c. c \<noteq> CHR ''/'') (rev f))) filename"

text \<open>\<^verbatim>\<open>T(str, len)\<close> and its output.\<close>

definition put_T :: "string \<Rightarrow> nat \<Rightarrow> log_stream \<Rightarrow> log_stream result" where
  "put_T str len st = assertR (length str = len) (ls_append str st)"

definition time_text :: "time_zone \<Rightarrow> bool \<Rightarrow> date \<Rightarrow> string" where
  "time_text tz local d = (if local then toFormattedStringLocal tz False d else toFormattedString False d)"

text \<open>The clock, the time zone and the number of the thread are arguments.\<close>

definition formatTime ::
    "time_zone \<Rightarrow> int \<Rightarrow> date \<Rightarrow> log_static \<Rightarrow> log_thread \<times> log_stream \<Rightarrow> (log_thread \<times> log_stream) result" where
  "formatTime tz tid d lc = (\<lambda>(lt, st).
     let now = secondsSinceEpoch d mod 2 ^ 64;
         microSec = (microSecondsSinceEpoch d - microSecondsSinceEpoch (roundSecond d)) mod 2 ^ 64;
         lt = (if now \<noteq> lt_lastSecond lt
               then lt\<lparr>lt_lastSecond := now, lt_lastTimeString := take 31 (time_text tz (lc_displayLocalTime lc) d)\<rparr> else lt)
     in bindR (put_T (lt_lastTimeString lt) 17 st) (\<lambda>st.
        let tmp = ''.'' @ print_zeros 6 microSec @ (if lc_displayLocalTime lc then '' '' else '' UTC '')
        in bindR (put_T (take 31 tmp) (if lc_displayLocalTime lc then 8 else 12) st) (\<lambda>st.
           let lt = (if lt_threadId lt = 0 then lt\<lparr>lt_threadId := tid\<rparr> else lt)
           in bindR (formatInteger TInt (lt_threadId lt) st) (\<lambda>st. Inr (lt, st)))))"

text \<open>
  The constructors: with a function name, for the last system error (\<open>errno\<close> with its text), or neither.
\<close>

datatype head = Plain | Func string | SysErr int string

fun head_items :: "head \<Rightarrow> log_item list" where
  "head_items Plain = []"
| "head_items (Func f) = [ItLiteral ''['', ItCString (Some f), ItLiteral ''] '']"
| "head_items (SysErr errno err) =
     (if errno \<noteq> 0 then [ItCString (Some err), ItLiteral '' (errno='', ItInt TInt errno, ItLiteral '') ''] else [])"

record logger =
  lo_stream :: log_stream
  lo_sourceFile :: "string option"
  lo_fileLine :: int
  lo_level :: log_level
  lo_index :: int

definition Logger_new ::
    "time_zone \<Rightarrow> int \<Rightarrow> date \<Rightarrow> byte list \<Rightarrow> string option \<Rightarrow> int \<Rightarrow> log_level \<Rightarrow> head \<Rightarrow> log_static \<Rightarrow> log_thread \<Rightarrow>
     (log_thread \<times> logger) result" where
  "Logger_new tz tid d garbage file line level h lc lt =
     bindR (formatTime tz tid d lc (lt, LogStream_new garbage)) (\<lambda>(lt, st).
     bindR (put_T (logLevelStr level) 7 st) (\<lambda>st.
     bindR (foldR LogStream_out st (head_items h)) (\<lambda>st.
     Inr (lt, \<lparr>lo_stream = st, lo_sourceFile = file, lo_fileLine = line, lo_level = level, lo_index = -1\<rparr>))))"

definition setIndex :: "int \<Rightarrow> logger \<Rightarrow> logger" where
  "setIndex index lo = lo\<lparr>lo_index := index\<rparr>"

text \<open>The function for the index of a logger, and the call of an output and of a flush function.\<close>

definition output_for :: "int \<Rightarrow> log_static \<Rightarrow> nat option \<times> log_static" where
  "output_for index lc = (if index < 0 then (lc_outputFunc lc, lc) else outputFunc_at (nat index) lc)"

definition flush_for :: "int \<Rightarrow> log_static \<Rightarrow> nat option \<times> log_static" where
  "flush_for index lc = (if index < 0 then (lc_flushFunc lc, lc) else flushFunc_at (nat index) lc)"

definition tail_items :: "logger \<Rightarrow> log_item list" where
  "tail_items lo =
     (case lo_sourceFile lo of
        Some f \<Rightarrow> [ItString '' - '', ItString f, ItChar (CHR '':''), ItInt TInt (lo_fileLine lo), ItChar (CHR 0x0A)]
      | None \<Rightarrow> [ItChar (CHR 0x0A)])"

definition Logger_delete :: "logger \<Rightarrow> log_static \<Rightarrow> (log_event list \<times> log_static) result" where
  "Logger_delete lo lc =
     bindR (foldR LogStream_out (lo_stream lo) (tail_items lo)) (\<lambda>st.
     let (oFunc, lc) = output_for (lo_index lo) lc in
     case oFunc of
       None \<Rightarrow> Inr ([], lc)
     | Some out \<Rightarrow>
         bindR (bufferText st) (\<lambda>msg.
           if lo_level lo \<ge> kError
           then (let (fFunc, lc) = flush_for (lo_index lo) lc in
                 case fFunc of None \<Rightarrow> Inl NullCall | Some f \<Rightarrow> Inr ([Output out msg, Flush f], lc))
           else Inr ([Output out msg], lc)))"

definition RawLogger_delete :: "log_stream \<Rightarrow> int \<Rightarrow> log_static \<Rightarrow> (log_event list \<times> log_static) result" where
  "RawLogger_delete st index lc =
     (let (oFunc, lc) = output_for index lc in
      case oFunc of None \<Rightarrow> Inr ([], lc) | Some out \<Rightarrow> bindR (bufferText st) (\<lambda>msg. Inr ([Output out msg], lc)))"

text \<open>The macros: traces, debug messages and informations are subject to the log level, the others are not.\<close>

definition macro_enabled :: "log_level \<Rightarrow> log_static \<Rightarrow> bool" where
  "macro_enabled level lc \<longleftrightarrow> (if level \<le> kInfo then lc_logLevel lc \<le> level else True)"

definition log_statement ::
    "time_zone \<Rightarrow> int \<Rightarrow> date \<Rightarrow> byte list \<Rightarrow> string \<Rightarrow> int \<Rightarrow> log_level \<Rightarrow> head \<Rightarrow> int \<Rightarrow> log_item list \<Rightarrow> log_static \<Rightarrow> log_thread \<Rightarrow>
     (log_event list \<times> log_static \<times> log_thread) result" where
  "log_statement tz tid d garbage file line level h index its lc lt =
     (if \<not> macro_enabled level lc then Inr ([], lc, lt)
      else bindR (Logger_new tz tid d garbage (SourceFile_new (Some file)) line level h lc lt) (\<lambda>(lt, lo).
           bindR (foldR LogStream_out (lo_stream lo) its) (\<lambda>st.
           bindR (Logger_delete ((setIndex index lo)\<lparr>lo_stream := st\<rparr>) lc) (\<lambda>(evs, lc). Inr (evs, lc, lt)))))"

section \<open>What a log statement does\<close>

definition local_fields :: "time_zone \<Rightarrow> bool \<Rightarrow> date \<Rightarrow> tm" where
  "local_fields tz local d = (if local then tz_localtime tz (secondsSinceEpoch d) else gmtime_r (secondsSinceEpoch d))"

text \<open>What a thread remembers is the text of the second it remembers, in the form that is displayed now.\<close>

definition thread_ok :: "time_zone \<Rightarrow> log_static \<Rightarrow> log_thread \<Rightarrow> bool" where
  "thread_ok tz lc lt \<longleftrightarrow>
     (lt_lastSecond lt \<noteq> 0 \<longrightarrow>
        (\<forall>d. secondsSinceEpoch d = lt_lastSecond lt \<longrightarrow> lt_lastTimeString lt = time_text tz (lc_displayLocalTime lc) d))"

lemma time_text_fields: "time_text tz local d = format_compact (local_fields tz local d) None"
  by (simp add: time_text_def local_fields_def toFormattedString_def toFormattedStringLocal_def)

lemma length_format_compact: "tm_ok t \<Longrightarrow> length (format_compact t None) = 17"
proof -
  assume t: "tm_ok t"
  have y: "length (print_blanks 4 (tm_year t + 1900)) = 4"
  proof -
    have "nat (tm_year t + 1900) < 10 ^ 4" "\<not> nat (tm_year t + 1900) < 10 ^ 3" "\<not> tm_year t + 1900 < 0"
      using t by (auto simp: tm_ok_def)
    then show ?thesis
      using to_string_length [of "nat (tm_year t + 1900)" 4] by (simp add: print_blanks_def to_string_int_def)
  qed
  show ?thesis using t y by (simp add: format_compact_def format_time_def tm_ok_def length_print_zeros)
qed

text \<open>The text of a log line up to its message.\<close>

definition line_head :: "time_zone \<Rightarrow> bool \<Rightarrow> date \<Rightarrow> int \<Rightarrow> log_level \<Rightarrow> head \<Rightarrow> string" where
  "line_head tz local d tid level h =
     time_text tz local d @ ''.'' @ print_zeros 6 (microPart d) @ (if local then '' '' else '' UTC '') @
     to_string_int tid @ logLevelStr level @ concat (map render (head_items h))"

definition line_tail :: "string \<Rightarrow> int \<Rightarrow> string" where
  "line_tail file line = '' - '' @ rev (takeWhile (\<lambda>c. c \<noteq> CHR ''/'') (rev file)) @ '':'' @ to_string_int line @ [CHR 0x0A]"

definition the_tid :: "int \<Rightarrow> log_thread \<Rightarrow> int" where
  "the_tid tid lt = (if lt_threadId lt = 0 then tid else lt_threadId lt)"

lemma put_T_ok:
  assumes "stream_holds st tx" "length str = n" "length tx + n \<le> mem_max"
  shows "\<exists>st'. put_T str n st = Inr st' \<and> stream_holds st' (tx @ str)"
  using ls_append_ok [OF assms(1), of str] assms(2,3) by (simp add: put_T_def)

lemma formatInteger_ok:
  assumes "stream_holds st tx" "in_range T v" "length tx + 128 \<le> mem_max"
  shows "\<exists>st'. formatInteger T v st = Inr st' \<and> stream_holds st' (tx @ to_string_int v)"
proof -
  have "length (to_string_int v) \<le> 64" using length_convert [OF assms(2)] by (cases T) (simp_all add: convert_to_string)
  then show ?thesis using out_ok [OF assms(1), of "ItInt T v"] assms(2,3) by simp
qed

lemma formatTime_ok:
  assumes d: "0 < secondsSinceEpoch d" "secondsSinceEpoch d < 2 ^ 64" "0 \<le> microSecondsSinceEpoch d"
    and t: "tm_ok (local_fields tz (lc_displayLocalTime lc) d)" and lt: "thread_ok tz lc lt"
    and tid: "in_range TInt (the_tid tid lt)" and st: "stream_holds st []"
  shows "\<exists>lt' st'. formatTime tz tid d lc (lt, st) = Inr (lt', st') \<and> thread_ok tz lc lt' \<and> lt_threadId lt' = the_tid tid lt \<and>
    stream_holds st' (time_text tz (lc_displayLocalTime lc) d @ ''.'' @ print_zeros 6 (microPart d) @
      (if lc_displayLocalTime lc then '' '' else '' UTC '') @ to_string_int (the_tid tid lt))"
proof -
  let ?l = "lc_displayLocalTime lc"
  let ?t = "time_text tz ?l d" and ?u = "print_zeros 6 (microPart d)"
  define lt1 where "lt1 = (if secondsSinceEpoch d \<noteq> lt_lastSecond lt
    then lt\<lparr>lt_lastSecond := secondsSinceEpoch d, lt_lastTimeString := take 31 ?t\<rparr> else lt)"
  let ?lt = "if lt_threadId lt1 = 0 then lt1\<lparr>lt_threadId := tid\<rparr> else lt1"
  have u: "microPart d mod 2 ^ 64 = microPart d" "length ?u = 6"
    using smod_bounds [OF d(3)] by (auto simp: microPart_def intro!: length_print_zeros)
  have len: "length ?t = 17" using length_format_compact [OF t] by (simp add: time_text_fields)
  have same: "time_text tz ?l d' = ?t" if "secondsSinceEpoch d' = secondsSinceEpoch d" for d'
    using that by (simp add: time_text_fields local_fields_def)
  have s: "lt_lastTimeString lt1 = ?t" "lt_threadId lt1 = lt_threadId lt"
    using lt d(1) len by (auto simp: lt1_def thread_ok_def)
  have "lt_lastSecond lt1 = secondsSinceEpoch d" by (simp add: lt1_def)
  then have ok: "thread_ok tz lc lt1" using same s(1) unfolding thread_ok_def by metis
  obtain st1 where st1: "put_T ?t 17 st = Inr st1" "stream_holds st1 ?t"
    using put_T_ok [OF st len] len by auto
  let ?tmp = "''.'' @ ?u @ (if ?l then '' '' else '' UTC '')"
  have tmp: "take 31 ?tmp = ?tmp" "length ?tmp = (if ?l then 8 else 12)" using u(2) by simp_all
  obtain st2 where st2: "put_T ?tmp (if ?l then 8 else 12) st1 = Inr st2" "stream_holds st2 (?t @ ?tmp)"
  proof -
    have "length ?t + (if ?l then 8 else 12) \<le> mem_max" using len by (cases ?l) simp_all
    from put_T_ok [OF st1(2) tmp(2) this] show thesis using that by blast
  qed
  obtain st3 where st3: "formatInteger TInt (the_tid tid lt) st2 = Inr st3" "stream_holds st3 ((?t @ ?tmp) @ to_string_int (the_tid tid lt))"
  proof -
    have "length (?t @ ?tmp) + 128 \<le> mem_max" using len tmp(2) by (cases ?l) simp_all
    from formatInteger_ok [OF st2(2) tid this] show thesis using that by blast
  qed
  have id: "lt_threadId ?lt = the_tid tid lt" using s(2) by (auto simp: the_tid_def)
  have n: "secondsSinceEpoch d mod 2 ^ 64 = secondsSinceEpoch d" using d(1,2) by (intro mod_pos_pos_trivial) simp_all
  have m: "(microSecondsSinceEpoch d - microSecondsSinceEpoch (roundSecond d)) mod 2 ^ 64 = microPart d"
    using u(1) by (simp add: roundSecond_def)
  have "formatTime tz tid d lc (lt, st) = Inr (?lt, st3)"
    unfolding formatTime_def prod.case Let_def n m lt1_def [symmetric] s(1) st1(1) bindR_simps tmp(1) st2(1) id st3(1) ..
  moreover have "thread_ok tz lc ?lt" using ok by (simp add: thread_ok_def)
  ultimately show ?thesis using st3(2) id by auto
qed

lemma level_str_length: "length (logLevelStr level) = 7"
  by (cases level) simp_all

fun head_ok :: "head \<Rightarrow> bool" where
  "head_ok (SysErr errno err) \<longleftrightarrow> in_range TInt errno"
| "head_ok _ \<longleftrightarrow> True"

lemma head_items_ok: "head_ok h \<Longrightarrow> it \<in> set (head_items h) \<Longrightarrow> item_ok it"
  by (cases h) (auto split: if_splits)

lemma Logger_new_ok:
  assumes d: "0 < secondsSinceEpoch d" "secondsSinceEpoch d < 2 ^ 64" "0 \<le> microSecondsSinceEpoch d"
    and t: "tm_ok (local_fields tz (lc_displayLocalTime lc) d)" and lt: "thread_ok tz lc lt"
    and tid: "in_range TInt (the_tid tid lt)" and g: "length garbage = kSmallBuffer" and h: "head_ok h"
    and len: "length (line_head tz (lc_displayLocalTime lc) d (the_tid tid lt) level h) + 64 \<le> mem_max"
  shows "\<exists>lt' st. Logger_new tz tid d garbage file line level h lc lt =
      Inr (lt', \<lparr>lo_stream = st, lo_sourceFile = file, lo_fileLine = line, lo_level = level, lo_index = -1\<rparr>) \<and>
    thread_ok tz lc lt' \<and> lt_threadId lt' = the_tid tid lt \<and>
    stream_holds st (line_head tz (lc_displayLocalTime lc) d (the_tid tid lt) level h)"
proof -
  let ?a = "time_text tz (lc_displayLocalTime lc) d @ ''.'' @ print_zeros 6 (microPart d) @
      (if lc_displayLocalTime lc then '' '' else '' UTC '') @ to_string_int (the_tid tid lt)"
  obtain lt' st1 where 1: "formatTime tz tid d lc (lt, LogStream_new garbage) = Inr (lt', st1)" "thread_ok tz lc lt'"
    "lt_threadId lt' = the_tid tid lt" "stream_holds st1 ?a"
    using formatTime_ok [OF d t lt tid stream_holds_new [OF g]] by blast
  have l: "length (line_head tz (lc_displayLocalTime lc) d (the_tid tid lt) level h) =
      length ?a + 7 + length (concat (map render (head_items h)))"
    by (simp add: line_head_def level_str_length)
  obtain st2 where 2: "put_T (logLevelStr level) 7 st1 = Inr st2" "stream_holds st2 (?a @ logLevelStr level)"
    using put_T_ok [OF 1(4) level_str_length] len l by auto
  obtain st3 where 3: "foldR LogStream_out st2 (head_items h) = Inr st3"
    "stream_holds st3 ((?a @ logLevelStr level) @ concat (map render (head_items h)))"
    using outs_ok [OF 2(2), of "head_items h"] head_items_ok [OF h] len l by (auto simp: level_str_length)
  show ?thesis using 1 2(1) 3 by (simp add: Logger_new_def line_head_def)
qed

lemma log_line_facts:
  assumes d: "0 < secondsSinceEpoch d" "secondsSinceEpoch d < 2 ^ 64" "0 \<le> microSecondsSinceEpoch d"
    and t: "tm_ok (local_fields tz (lc_displayLocalTime lc) d)" and lt: "thread_ok tz lc lt"
    and tid: "in_range TInt (the_tid tid lt)" "in_range TInt line" and g: "length garbage = kSmallBuffer"
    and h: "head_ok h" "\<forall>it \<in> set its. item_ok it"
    and f: "output_for index lc = (Some out, lc1)" "flush_for index lc1 = (Some fl, lc2)"
    and msg: "msg = line_head tz (lc_displayLocalTime lc) d (the_tid tid lt) level h @ concat (map render its) @ line_tail file line"
      "length msg + 64 \<le> mem_max"
  shows "\<not> macro_enabled level lc \<Longrightarrow> log_statement tz tid d garbage file line level h index its lc lt = Inr ([], lc, lt)"
    and "macro_enabled level lc \<Longrightarrow>
      \<exists>lt'. log_statement tz tid d garbage file line level h index its lc lt =
        Inr (if kError \<le> level then ([Output out msg, Flush fl], lc2, lt') else ([Output out msg], lc1, lt')) \<and> thread_ok tz lc lt'"
proof -
  show "log_statement tz tid d garbage file line level h index its lc lt = Inr ([], lc, lt)" if "\<not> macro_enabled level lc"
    using that by (simp add: log_statement_def)
  assume on: "macro_enabled level lc"
  let ?h = "line_head tz (lc_displayLocalTime lc) d (the_tid tid lt) level h"
  let ?file = "Some (rev (takeWhile (\<lambda>c. c \<noteq> CHR ''/'') (rev file)))"
  have len: "length ?h + 64 \<le> mem_max" using msg by simp
  obtain lt' st where 1: "Logger_new tz tid d garbage ?file line level h lc lt =
      Inr (lt', \<lparr>lo_stream = st, lo_sourceFile = ?file, lo_fileLine = line, lo_level = level, lo_index = -1\<rparr>)"
    "thread_ok tz lc lt'" "stream_holds st ?h"
    using Logger_new_ok [OF d t lt tid(1) g h(1) len, of ?file line] by blast
  obtain st1 where 2: "foldR LogStream_out st its = Inr st1" "stream_holds st1 (?h @ concat (map render its))"
    using outs_ok [OF 1(3) h(2)] msg by auto
  let ?lo = "\<lparr>lo_stream = st1, lo_sourceFile = ?file, lo_fileLine = line, lo_level = level, lo_index = index\<rparr>"
  have tl: "concat (map render (tail_items ?lo)) = line_tail file line" "\<forall>it \<in> set (tail_items ?lo). item_ok it"
    using tid(2) by (simp_all add: tail_items_def line_tail_def)
  obtain st2 where 3: "foldR LogStream_out st1 (tail_items ?lo) = Inr st2" "stream_holds st2 msg"
    using outs_ok [OF 2(2) tl(2)] msg tl(1) by auto
  have "Logger_delete ?lo lc = Inr (if kError \<le> level then ([Output out msg, Flush fl], lc2) else ([Output out msg], lc1))"
    using 3(1) stream_holds_text [OF 3(2)] f by (simp add: Logger_delete_def)
  then show "\<exists>lt'. log_statement tz tid d garbage file line level h index its lc lt =
        Inr (if kError \<le> level then ([Output out msg, Flush fl], lc2, lt') else ([Output out msg], lc1, lt')) \<and> thread_ok tz lc lt'"
    using on 1 2(1) by (simp add: log_statement_def SourceFile_new_def setIndex_def)
qed

text \<open>
  A log statement that its level lets through hands exactly one line to the output function of its index and, from errors on, calls the flush function
  after it; the line is the time of the clock, in UTC or local as configured, with microseconds, the number of the thread, the level, what
  was streamed, and the source file without its directories with the line number. It does so whether or not the thread
  has already logged in the same second. A statement below the log level does nothing.
\<close>

theorem log_line:
  assumes d: "0 < secondsSinceEpoch d" "secondsSinceEpoch d < 2 ^ 64" "0 \<le> microSecondsSinceEpoch d"
    and t: "tm_ok (local_fields tz (lc_displayLocalTime lc) d)" and lt: "thread_ok tz lc lt"
    and tid: "in_range TInt (the_tid tid lt)" "in_range TInt line" and g: "length garbage = kSmallBuffer"
    and h: "head_ok h" "\<forall>it \<in> set its. item_ok it"
    and f: "output_for index lc = (Some out, lc1)" "flush_for index lc1 = (Some fl, lc2)"
    and msg: "msg = line_head tz (lc_displayLocalTime lc) d (the_tid tid lt) level h @ concat (map render its) @ line_tail file line"
      "length msg + 64 \<le> mem_max"
  shows "if macro_enabled level lc
    then \<exists>lt'. log_statement tz tid d garbage file line level h index its lc lt =
        Inr (if kError \<le> level then ([Output out msg, Flush fl], lc2, lt') else ([Output out msg], lc1, lt')) \<and> thread_ok tz lc lt'
    else log_statement tz tid d garbage file line level h index its lc lt = Inr ([], lc, lt)"
  using log_line_facts [OF assms] by simp


text \<open>
  Changing between local time and UTC within a second: the text of the last second is used in the other form, here a local time
  with the label UTC.
\<close>

lemma stale_time_text:
  assumes "lt_lastSecond lt = secondsSinceEpoch d mod 2 ^ 64" "\<not> lc_displayLocalTime lc"
    "formatTime tz tid d lc (lt, LogStream_new garbage) = Inr (lt', st)"
  shows "lt_lastTimeString lt' = lt_lastTimeString lt"
  using assms by (auto simp: formatTime_def Let_def bindR_eq_Inr)

text \<open>Warnings are written whatever the log level is.\<close>

lemma warnings_ignore_level: "macro_enabled kWarn (setLogLevel kFatal lc)"
  by (simp add: macro_enabled_def less_eq_log_level_def)

definition example_static :: log_static where
  "example_static = \<lparr>lc_logLevel = kDebug, lc_displayLocalTime = False, lc_outputFunc = Some 1, lc_flushFunc = Some 2,
     lc_outputFuncs = [], lc_flushFuncs = []\<rparr>"

definition example_thread :: log_thread where
  "example_thread = \<lparr>lt_lastSecond = 0, lt_lastTimeString = [], lt_threadId = 0\<rparr>"

lemma example_fields:
  "secondsSinceEpoch (Date 93784000006) = 93784" "microPart (Date 93784000006) = 6"
  "gmtime_r 93784 = \<lparr>tm_sec = 4, tm_min = 3, tm_hour = 2, tm_mday = 2, tm_mon = 0, tm_year = 70, tm_isdst = 0\<rparr>"
  by (simp_all add: secondsSinceEpoch_def microPart_def signed_divide_int_def signed_modulo_int_def gmtime_r_def year_up.simps
      year_days_def leap_def month_days_def)

theorem log_line_witness:
  "\<exists>lt'. log_statement utc 7 (Date 93784000006) (replicate kSmallBuffer (CHR ''x'')) ''src/f.cpp'' 3 kError Plain (-1) [ItLiteral ''hi'']
     example_static example_thread =
   Inr ([Output 1 (''19700102 02:03:04.000006 UTC 7 ERROR hi - f.cpp:3'' @ [CHR 0x0A]), Flush 2], example_static, lt')"
proof -
  let ?msg = "line_head utc False (Date 93784000006) 7 kError Plain @ concat (map render [ItLiteral ''hi'']) @ line_tail ''src/f.cpp'' 3"
  have m: "?msg = ''19700102 02:03:04.000006 UTC 7 ERROR hi - f.cpp:3'' @ [CHR 0x0A]"
    by (simp add: line_head_def line_tail_def time_text_def toFormattedString_def format_compact_def format_time_def example_fields
        print_zeros_def print_blanks_def to_string_int_def to_string.simps char_of_def bit_0) (simp add: numeral_eq_Suc)
  have on: "macro_enabled kError example_static" "kError \<le> kError" by (simp_all add: macro_enabled_def less_eq_log_level_def)
  have "\<exists>lt'. log_statement utc 7 (Date 93784000006) (replicate kSmallBuffer (CHR ''x'')) ''src/f.cpp'' 3 kError Plain (-1) [ItLiteral ''hi'']
      example_static example_thread = Inr (if kError \<le> kError then ([Output 1 ?msg, Flush 2], example_static, lt') else ([Output 1 ?msg], example_static, lt')) \<and>
      thread_ok utc example_static lt'"
    by (rule log_line [where level = kError and lc = example_static, unfolded eqTrueI [OF on(1)] if_True])
      (use m in \<open>simp_all add: example_fields example_static_def example_thread_def the_tid_def in_range_def local_fields_def tm_ok_def
        thread_ok_def output_for_def flush_for_def\<close>)
  then show ?thesis unfolding m by auto
qed

end
