(* ===== verification/InetAddress.thy ===== *)
theory InetAddress
  imports MsgBuffer Utilities Numbers
begin

text \<open>
  Socket addresses (\<^verbatim>\<open>cooper/net/InetAddress.*\<close>) and the functions of \<^verbatim>\<open>cooper/net/Socket.*\<close> that read them. An address is a
  union of \<^verbatim>\<open>sockaddr_in\<close> and \<^verbatim>\<open>sockaddr_in6\<close>, so the model keeps the 28 bytes of the union and reads the members
  where the structures have them. \<^verbatim>\<open>inet_pton\<close> and \<^verbatim>\<open>inet_ntop\<close> are parameters, with the address
  family as their first argument. Whether an address is private or a loopback address is compared
  with the address blocks written as prefixes, and the text of an address leads back to it.
\<close>

section \<open>The union\<close>

abbreviation AF_INET :: nat where
  "AF_INET \<equiv> 2"

abbreviation AF_INET6 :: nat where
  "AF_INET6 \<equiv> 10"

type_synonym pton = "nat \<Rightarrow> string \<Rightarrow> byte list option"
type_synonym ntop = "nat \<Rightarrow> byte list \<Rightarrow> string"

record inet_address =
  ia_union :: "byte list"
  ia_isIpV6 :: bool
  ia_isUnspecified :: bool

definition field_at :: "nat \<Rightarrow> nat \<Rightarrow> byte list \<Rightarrow> byte list" where
  "field_at off n m = take n (drop off m)"

definition set_field :: "nat \<Rightarrow> byte list \<Rightarrow> byte list \<Rightarrow> byte list" where
  "set_field off bs m = take off m @ bs @ drop (off + length bs) m"

text \<open>The members of both structures: the family and the port share their places; \<^verbatim>\<open>sin_addr\<close> follows the
  port, \<^verbatim>\<open>sin6_addr\<close> comes after \<^verbatim>\<open>sin6_flowinfo\<close>.\<close>

definition sin_family :: "byte list \<Rightarrow> nat" where
  "sin_family m = le_val (field_at 0 2 m)"

definition sin_port :: "byte list \<Rightarrow> u16" where
  "sin_port m = of_nat (le_val (field_at 2 2 m))"

definition s_addr :: "byte list \<Rightarrow> u32" where
  "s_addr m = of_nat (le_val (field_at 4 4 m))"

definition s6_addr32 :: "nat \<Rightarrow> byte list \<Rightarrow> u32" where
  "s6_addr32 i m = of_nat (le_val (field_at (8 + 4 * i) 4 m))"

definition in6addr_any :: "byte list" where
  "in6addr_any = replicate 16 (CHR 0x00)"

definition in6addr_loopback :: "byte list" where
  "in6addr_loopback = replicate 15 (CHR 0x00) @ [CHR 0x01]"

section \<open>Constructors\<close>

text \<open>\<open>u\<close> is what lies in the memory of the union before; \<^verbatim>\<open>memset\<close> clears the structure that is used.\<close>

definition InetAddress_any :: "byte list \<Rightarrow> u16 \<Rightarrow> bool \<Rightarrow> bool \<Rightarrow> inet_address" where
  "InetAddress_any u port loopbackOnly ipv6 =
     (let m = (if ipv6
               then let m = set_field 0 (replicate 28 (CHR 0x00)) u;
                        m = set_field 0 (le_bytes 2 AF_INET6) m;
                        m = set_field 8 (if loopbackOnly then in6addr_loopback else in6addr_any) m
                    in set_field 2 (le_bytes 2 (unat (htons port))) m
               else let m = set_field 0 (replicate 16 (CHR 0x00)) u;
                        m = set_field 0 (le_bytes 2 AF_INET) m;
                        ip = (if loopbackOnly then 0x7f000001 else 0) :: u32;
                        m = set_field 4 (le_bytes 4 (unat (htonl ip))) m
                    in set_field 2 (le_bytes 2 (unat (htons port))) m)
      in \<lparr>ia_union = m, ia_isIpV6 = ipv6, ia_isUnspecified = False\<rparr>)"

definition c_str :: "string \<Rightarrow> string" where
  "c_str s = takeWhile (\<lambda>c. c \<noteq> CHR 0x00) s"

definition InetAddress_ip :: "pton \<Rightarrow> byte list \<Rightarrow> string \<Rightarrow> u16 \<Rightarrow> bool \<Rightarrow> inet_address" where
  "InetAddress_ip pton u ip port ipv6 =
     (let fam = (if ipv6 then AF_INET6 else AF_INET);
          m = set_field 0 (replicate (if ipv6 then 28 else 16) (CHR 0x00)) u;
          m = set_field 0 (le_bytes 2 fam) m;
          m = set_field 2 (le_bytes 2 (unat (htons port))) m
      in case pton fam (c_str ip) of
           None \<Rightarrow> \<lparr>ia_union = m, ia_isIpV6 = ipv6, ia_isUnspecified = True\<rparr>
         | Some a \<Rightarrow> \<lparr>ia_union = set_field (if ipv6 then 8 else 4) a m, ia_isIpV6 = ipv6, ia_isUnspecified = False\<rparr>)"

definition InetAddress_in :: "byte list \<Rightarrow> byte list \<Rightarrow> inet_address" where
  "InetAddress_in u addr = \<lparr>ia_union = set_field 0 addr u, ia_isIpV6 = False, ia_isUnspecified = False\<rparr>"

definition InetAddress_in6 :: "byte list \<Rightarrow> inet_address" where
  "InetAddress_in6 addr = \<lparr>ia_union = addr, ia_isIpV6 = True, ia_isUnspecified = False\<rparr>"

definition setSockAddrInet6 :: "byte list \<Rightarrow> inet_address \<Rightarrow> inet_address" where
  "setSockAddrInet6 addr6 a = a\<lparr>ia_union := addr6, ia_isIpV6 := (sin_family addr6 = AF_INET6), ia_isUnspecified := False\<rparr>"

section \<open>Readers\<close>

definition family :: "inet_address \<Rightarrow> nat" where
  "family a = sin_family (ia_union a)"

definition ipNetEndian :: "inet_address \<Rightarrow> u32" where
  "ipNetEndian a = s_addr (ia_union a)"

definition ip6NetEndian :: "inet_address \<Rightarrow> nat \<Rightarrow> u32" where
  "ip6NetEndian a i = s6_addr32 i (ia_union a)"

definition portNetEndian :: "inet_address \<Rightarrow> u16" where
  "portNetEndian a = sin_port (ia_union a)"

definition setPortNetEndian :: "u16 \<Rightarrow> inet_address \<Rightarrow> inet_address" where
  "setPortNetEndian port a = a\<lparr>ia_union := set_field 2 (le_bytes 2 (unat port)) (ia_union a)\<rparr>"

definition toPort :: "inet_address \<Rightarrow> u16" where
  "toPort a = htons (portNetEndian a)"

text \<open>With another family the array on the stack is returned as it is: a read of memory that has no value.\<close>

definition toIp :: "ntop \<Rightarrow> inet_address \<Rightarrow> string result" where
  "toIp ntop a =
     (if family a = AF_INET then Inr (ntop AF_INET (field_at 4 4 (ia_union a)))
      else if family a = AF_INET6 then Inr (ntop AF_INET6 (field_at 8 16 (ia_union a)))
      else Inl OutOfBounds)"

definition toIpPort :: "ntop \<Rightarrow> inet_address \<Rightarrow> string result" where
  "toIpPort ntop a = bindR (toIp ntop a) (\<lambda>ip. Inr (ip @ '':'' @ to_string (unat (htons (sin_port (ia_union a))))))"

definition toIpNetEndian :: "inet_address \<Rightarrow> byte list" where
  "toIpNetEndian a =
     (if family a = AF_INET then field_at 4 4 (ia_union a)
      else if family a = AF_INET6 then field_at 8 16 (ia_union a)
      else [])"

definition toIpPortNetEndian :: "inet_address \<Rightarrow> byte list" where
  "toIpPortNetEndian a = toIpNetEndian a @ field_at 2 2 (ia_union a)"

definition intranet4 :: "u32 \<Rightarrow> bool" where
  "intranet4 ip_addr \<longleftrightarrow>
     (ip_addr \<ge> 0x0A000000 \<and> ip_addr \<le> 0x0AFFFFFF) \<or> (ip_addr \<ge> 0xAC100000 \<and> ip_addr \<le> 0xAC1FFFFF) \<or>
     (ip_addr \<ge> 0xC0A80000 \<and> ip_addr \<le> 0xC0A8FFFF) \<or> ip_addr = 0x7f000001"

definition isIntranetIp :: "inet_address \<Rightarrow> bool" where
  "isIntranetIp a =
     (if family a = AF_INET then intranet4 (htonl (s_addr (ia_union a)))
      else
        let addrP = ip6NetEndian a;
            i32 = and (htonl (addrP 0)) 0xffc00000
        in if addrP 0 = 0 \<and> addrP 1 = 0 \<and> addrP 2 = 0 \<and> htonl (addrP 3) = 1 then True
           else if i32 = 0xfec00000 \<or> i32 = 0xfe800000 then True
           else if addrP 0 = 0 \<and> addrP 1 = 0 \<and> htonl (addrP 2) = 0xffff then intranet4 (htonl (addrP 3))
           else False)"

definition isLoopbackIp :: "inet_address \<Rightarrow> bool" where
  "isLoopbackIp a =
     (if \<not> ia_isIpV6 a then htonl (s_addr (ia_union a)) = 0x7f000001
      else
        let addrP = ip6NetEndian a
        in if addrP 0 = 0 \<and> addrP 1 = 0 \<and> addrP 2 = 0 \<and> htonl (addrP 3) = 1 then True
           else addrP 0 = 0 \<and> addrP 1 = 0 \<and> htonl (addrP 2) = 0xffff \<and> htonl (addrP 3) = 0x7f000001)"

section \<open>Addresses of sockets\<close>

text \<open>\<open>sys\<close> is the answer of \<^verbatim>\<open>getsockname\<close> or \<^verbatim>\<open>getpeername\<close>: the bytes it writes over the zeros, or \<open>None\<close> for an error.\<close>

definition getLocalAddr :: "byte list option \<Rightarrow> byte list" where
  "getLocalAddr sys = (case sys of None \<Rightarrow> replicate 28 (CHR 0x00) | Some bs \<Rightarrow> set_field 0 bs (replicate 28 (CHR 0x00)))"

definition getPeerAddr :: "byte list option \<Rightarrow> byte list" where
  "getPeerAddr sys = (case sys of None \<Rightarrow> replicate 28 (CHR 0x00) | Some bs \<Rightarrow> set_field 0 bs (replicate 28 (CHR 0x00)))"

definition isSelfConnect :: "byte list option \<Rightarrow> byte list option \<Rightarrow> bool" where
  "isSelfConnect sockname peername =
     (let localaddr = getLocalAddr sockname; peeraddr = getPeerAddr peername in
      if sin_family localaddr = AF_INET then sin_port localaddr = sin_port peeraddr \<and> s_addr localaddr = s_addr peeraddr
      else if sin_family localaddr = AF_INET6
      then sin_port localaddr = sin_port peeraddr \<and> field_at 8 16 localaddr = field_at 8 16 peeraddr
      else False)"

text \<open>\<^verbatim>\<open>accept4\<close> answers with a descriptor and the address of the peer, or with an error.\<close>

definition Socket_accept :: "int \<times> byte list \<Rightarrow> inet_address \<Rightarrow> int \<times> inet_address" where
  "Socket_accept sys peer =
     (let (connfd, bs) = sys in
      (connfd, if connfd \<ge> 0 then setSockAddrInet6 (set_field 0 bs (replicate 28 (CHR 0x00))) peer else peer))"

text \<open>\<^verbatim>\<open>bind\<close> gets as many bytes of the union as the structure has; \<open>sys\<close> says whether it succeeds.\<close>

definition Socket_bindAddress :: "(byte list \<Rightarrow> bool) \<Rightarrow> int \<Rightarrow> inet_address \<Rightarrow> unit result" where
  "Socket_bindAddress sys sockFd localaddr =
     assertR (sockFd > 0)
       (if sys (take (if ia_isIpV6 localaddr then 28 else 16) (ia_union localaddr)) then Inr () else Inl ProcessExit)"

section \<open>Members of the union\<close>

lemma length_set_field [simp]: "off + length bs \<le> length m \<Longrightarrow> length (set_field off bs m) = length m"
  by (simp add: set_field_def)

lemma length_field_at [simp]: "length (field_at off n m) = min n (length m - off)"
  by (simp add: field_at_def min.commute)

lemma field_set_same [simp]:
  "off + length bs \<le> length m \<Longrightarrow> n = length bs \<Longrightarrow> field_at off n (set_field off bs m) = bs"
  by (simp add: field_at_def set_field_def)

lemma field_set_before [simp]:
  "off' + n \<le> off \<Longrightarrow> off + length bs \<le> length m \<Longrightarrow> field_at off' n (set_field off bs m) = field_at off' n m"
proof -
  assume "off' + n \<le> off" "off + length bs \<le> length m"
  then have l: "off' \<le> length (take off m)" "n \<le> length (drop off' (take off m))" by simp_all
  have "take n (drop off' (take off m @ r)) = take n (drop off' m)" for r
    using l \<open>off' + n \<le> off\<close> by (simp add: drop_take min_def)
  then show "field_at off' n (set_field off bs m) = field_at off' n m" unfolding field_at_def set_field_def by blast
qed

lemma field_set_after [simp]:
  "off + length bs \<le> off' \<Longrightarrow> off + length bs \<le> length m \<Longrightarrow> field_at off' n (set_field off bs m) = field_at off' n m"
  by (simp add: field_at_def set_field_def)

lemma field_of_field: "i + k \<le> n \<Longrightarrow> field_at i k (field_at off n m) = field_at (off + i) k m"
  by (simp add: field_at_def drop_take min_def add.commute)

lemma field_split: "field_at off (j + k) m = field_at off j m @ field_at (off + j) k m"
  by (simp add: field_at_def take_add add.commute)

lemma le_val_append: "le_val (xs @ ys) = le_val xs + 256 ^ length xs * le_val ys"
  by (induction xs) (simp_all add: algebra_simps)

lemma le_val_le_bytes_2: "le_val (le_bytes 2 AF_INET) = AF_INET" "le_val (le_bytes 2 AF_INET6) = AF_INET6"
  by (simp_all add: le_val_le_bytes)

text \<open>The value of the bytes of an address: they are in network byte order.\<close>

definition net_val :: "byte list \<Rightarrow> nat" where
  "net_val bs = le_val (rev bs)"

lemma net_val_append: "net_val (xs @ ys) = net_val ys + 256 ^ length ys * net_val xs"
  by (simp add: net_val_def le_val_append)

lemma net_val_less: "length bs = n \<Longrightarrow> net_val bs < 256 ^ n"
  using le_val_less [of "rev bs"] by (simp add: net_val_def)

lemma htonl_net_val:
  assumes "length bs = 4"
  shows "htonl (of_nat (le_val bs)) = of_nat (net_val bs)" "unat (htonl (of_nat (le_val bs))) = net_val bs"
proof -
  have "le_val bs < 2 ^ 32" using le_val_less [of bs] assms by simp
  then have "unat (of_nat (le_val bs) :: u32) = le_val bs" by (simp add: unat_of_nat)
  moreover have "le_bytes 4 (le_val bs) = bs" using le_bytes_le_val [of bs] assms by simp
  ultimately show h: "htonl (of_nat (le_val bs)) = of_nat (net_val bs)" by (simp add: htonl_def net_val_def)
  have "net_val bs < 2 ^ 32" using net_val_less [OF assms] by simp
  then show "unat (htonl (of_nat (le_val bs))) = net_val bs" by (simp add: h unat_of_nat)
qed

lemma le_bytes_zero: "le_bytes n 0 = replicate n (CHR 0x00)"
  by (induction n) (simp_all add: char_of_def)

lemma le_val_zeros: "le_val (replicate n (CHR 0x00)) = 0"
  by (induction n) simp_all

lemma htonl_zero: "w = 0 \<longleftrightarrow> unat (htonl w) = 0"
proof -
  have "unat (htonl 0) = 0" by (simp add: unat_hton le_bytes_zero le_val_zeros)
  then have "htonl 0 = 0" by (simp add: unat_eq_zero)
  then show ?thesis using hton_involution(2) [of w] by (auto simp: unat_eq_zero)
qed

section \<open>Address blocks\<close>

text \<open>A block of addresses of \<open>b\<close> bits is given by its first \<open>k\<close> bits.\<close>

definition in_block :: "nat \<Rightarrow> nat \<Rightarrow> nat \<Rightarrow> nat \<Rightarrow> bool" where
  "in_block b k net v \<longleftrightarrow> v div 2 ^ (b - k) = net div 2 ^ (b - k)"

definition ip4 :: "nat \<Rightarrow> nat \<Rightarrow> nat \<Rightarrow> nat \<Rightarrow> nat" where
  "ip4 a b c d = ((a * 256 + b) * 256 + c) * 256 + d"

text \<open>10.0.0.0/8, 172.16.0.0/12, 192.168.0.0/16 and 127.0.0.1.\<close>

definition private4 :: "nat \<Rightarrow> bool" where
  "private4 v \<longleftrightarrow>
     in_block 32 8 (ip4 10 0 0 0) v \<or> in_block 32 12 (ip4 172 16 0 0) v \<or> in_block 32 16 (ip4 192 168 0 0) v \<or> v = ip4 127 0 0 1"

text \<open>::1, fec0::/10, fe80::/10, and the private addresses of version 4 below ::ffff:0:0/96.\<close>

definition private6 :: "nat \<Rightarrow> bool" where
  "private6 v \<longleftrightarrow>
     v = 1 \<or> in_block 128 10 (0xfec0 * 2 ^ 112) v \<or> in_block 128 10 (0xfe80 * 2 ^ 112) v \<or>
     in_block 128 96 (0xffff * 2 ^ 32) v \<and> private4 (v mod 2 ^ 32)"

definition loopback6 :: "nat \<Rightarrow> bool" where
  "loopback6 v \<longleftrightarrow> v = 1 \<or> in_block 128 96 (0xffff * 2 ^ 32) v \<and> v mod 2 ^ 32 = ip4 127 0 0 1"

lemma div_range: "0 < m \<Longrightarrow> (n::nat) div m = k \<longleftrightarrow> k * m \<le> n \<and> n < Suc k * m"
  by (auto simp: div_nat_eqI mult.commute less_mult_imp_div_less dividend_less_times_div)

lemma intranet4_blocks: "intranet4 w \<longleftrightarrow> private4 (unat w)"
proof -
  have "unat w < 2 ^ 32" using unsigned_less [of w] by simp
  moreover have "w = 0x7f000001 \<longleftrightarrow> unat w = 0x7f000001" by (simp add: word_unat_eq_iff)
  ultimately show ?thesis
    by (simp add: intranet4_def private4_def in_block_def ip4_def word_le_nat_alt div_range) (auto simp: Suc_le_eq)
qed

lemma top_bits: "and w 0xffc00000 = (of_nat (k * 2 ^ 22) :: u32) \<longleftrightarrow> unat w div 2 ^ 22 = k" if "k < 2 ^ 10"
proof -
  have m: "0xffc00000 = (push_bit 22 (mask 10) :: u32)" by (simp add: push_bit_eq_mult mask_eq_exp_minus_1)
  have "and w 0xffc00000 = push_bit 22 (drop_bit 22 w)"
    unfolding m by (rule bit_eqI) (auto simp: bit_simps)
  moreover have "unat w < 2 ^ 32" using unsigned_less [of w] by simp
  ultimately have "unat (and w 0xffc00000) = unat w div 2 ^ 22 * 2 ^ 22"
    by (simp only: unsigned_push_bit_eq unsigned_drop_bit_eq) (simp add: push_bit_eq_mult drop_bit_eq_div take_bit_eq_mod)
  moreover have "unat (of_nat (k * 2 ^ 22) :: u32) = k * 2 ^ 22" using that by (simp only: unat_of_nat) simp
  ultimately show ?thesis by (simp add: word_unat_eq_iff)
qed

section \<open>What the readers see\<close>

definition ip4_of :: "inet_address \<Rightarrow> nat" where
  "ip4_of a = net_val (field_at 4 4 (ia_union a))"

definition ip6_of :: "inet_address \<Rightarrow> nat" where
  "ip6_of a = net_val (field_at 8 16 (ia_union a))"

lemma s_addr_val: "length (ia_union a) = 28 \<Longrightarrow> unat (htonl (s_addr (ia_union a))) = ip4_of a"
  unfolding s_addr_def ip4_of_def by (rule htonl_net_val) simp

definition part6 :: "inet_address \<Rightarrow> nat \<Rightarrow> nat" where
  "part6 a i = unat (htonl (ip6NetEndian a i))"

lemma ip6_parts:
  assumes "length (ia_union a) = 28"
  shows "ip6_of a = ((part6 a 0 * 2 ^ 32 + part6 a 1) * 2 ^ 32 + part6 a 2) * 2 ^ 32 + part6 a 3"
    "part6 a i < 2 ^ 32" "ip6NetEndian a i = 0 \<longleftrightarrow> part6 a i = 0" "htonl (ip6NetEndian a i) = w \<longleftrightarrow> part6 a i = unat w"
proof -
  let ?f = "\<lambda>i. field_at (8 + 4 * i) 4 (ia_union a)"
  have "field_at 8 16 (ia_union a) = ?f 0 @ ?f 1 @ ?f 2 @ ?f 3"
    using field_split [of 8 4 12] field_split [of 12 4 8] field_split [of 16 4 4] by simp
  moreover have p: "part6 a i = net_val (?f i)" if "i < 4" for i
    unfolding part6_def ip6NetEndian_def s6_addr32_def using that assms by (intro htonl_net_val) simp
  ultimately show "ip6_of a = ((part6 a 0 * 2 ^ 32 + part6 a 1) * 2 ^ 32 + part6 a 2) * 2 ^ 32 + part6 a 3"
    using assms by (simp add: ip6_of_def net_val_append)
  show "part6 a i < 2 ^ 32" using unsigned_less [of "htonl (ip6NetEndian a i)"] by (simp add: part6_def)
  show "ip6NetEndian a i = 0 \<longleftrightarrow> part6 a i = 0" unfolding part6_def by (rule htonl_zero)
  show "htonl (ip6NetEndian a i) = w \<longleftrightarrow> part6 a i = unat w" by (simp add: part6_def word_unat_eq_iff)
qed

lemma address_blocks:
  assumes "length (ia_union a) = 28"
  shows "family a = AF_INET \<Longrightarrow> isIntranetIp a \<longleftrightarrow> private4 (ip4_of a)"
    "family a \<noteq> AF_INET \<Longrightarrow> isIntranetIp a \<longleftrightarrow> private6 (ip6_of a)"
    "\<not> ia_isIpV6 a \<Longrightarrow> isLoopbackIp a \<longleftrightarrow> ip4_of a = ip4 127 0 0 1"
    "ia_isIpV6 a \<Longrightarrow> isLoopbackIp a \<longleftrightarrow> loopback6 (ip6_of a)"
proof -
  note p = ip6_parts [OF assms]
  let ?w = "part6 a" and ?v = "ip6_of a"
  have w: "?w 1 < 2 ^ 32" "?w 2 < 2 ^ 32" "?w 3 < 2 ^ 32" using p(2) by blast+
  have q: "(x * 2 ^ 32 + y) div 2 ^ 32 = x" "(x * 2 ^ 32 + y) mod 2 ^ 32 = y" if "y < 2 ^ 32" for x y :: nat
    using that by simp_all
  have "?v div 2 ^ 118 = ?v div 2 ^ 32 div 2 ^ 32 div 2 ^ 32 div 2 ^ 22" by (simp flip: div_mult2_eq)
  then have d: "?v div 2 ^ 118 = ?w 0 div 2 ^ 22" "?v div 2 ^ 32 = (?w 0 * 2 ^ 32 + ?w 1) * 2 ^ 32 + ?w 2" "?v mod 2 ^ 32 = ?w 3"
    unfolding p(1) q [OF w(3)] q [OF w(2)] q [OF w(1)] by simp_all
  have m: "in_block 128 96 (0xffff * 2 ^ 32) ?v \<longleftrightarrow> ?w 0 = 0 \<and> ?w 1 = 0 \<and> ?w 2 = 0xffff"
    using d(2) by (cases "?w 0"; cases "?w 1") (auto simp: in_block_def)
  have one: "?v = 1 \<longleftrightarrow> ?w 0 = 0 \<and> ?w 1 = 0 \<and> ?w 2 = 0 \<and> ?w 3 = 1"
    using p(1) by (cases "?w 0"; cases "?w 1"; cases "?w 2") auto
  have b: "in_block 128 10 (k * 2 ^ 118) ?v \<longleftrightarrow> and (htonl (ip6NetEndian a 0)) 0xffc00000 = of_nat (k * 2 ^ 22)" if "k < 2 ^ 10" for k
    using top_bits [OF that, of "htonl (ip6NetEndian a 0)"] d(1) by (simp add: in_block_def part6_def)
  have b1: "in_block 128 10 (0xfec0 * 2 ^ 112) ?v \<longleftrightarrow> and (htonl (ip6NetEndian a 0)) 0xffc00000 = 0xfec00000"
    "in_block 128 10 (0xfe80 * 2 ^ 112) ?v \<longleftrightarrow> and (htonl (ip6NetEndian a 0)) 0xffc00000 = 0xfe800000"
    using b [of 1019] b [of 1018] by simp_all
  show "isIntranetIp a \<longleftrightarrow> private4 (ip4_of a)" if "family a = AF_INET"
    using that s_addr_val [OF assms] by (simp add: isIntranetIp_def intranet4_blocks)
  show "isIntranetIp a \<longleftrightarrow> private6 (ip6_of a)" if "family a \<noteq> AF_INET"
    using that unfolding isIntranetIp_def private6_def m one b1 d(3) Let_def
    by (simp add: p(3,4) intranet4_blocks part6_def [symmetric])
  show "isLoopbackIp a \<longleftrightarrow> ip4_of a = ip4 127 0 0 1" if "\<not> ia_isIpV6 a"
    using that s_addr_val [OF assms] by (simp add: isLoopbackIp_def word_unat_eq_iff ip4_def)
  show "isLoopbackIp a \<longleftrightarrow> loopback6 (ip6_of a)" if "ia_isIpV6 a"
    using that unfolding isLoopbackIp_def loopback6_def m one d(3) Let_def by (simp add: p(3,4) ip4_def)
qed

section \<open>Addresses that agree\<close>

text \<open>The union holds the structure that the flag of the object announces.\<close>

definition addr_ok :: "inet_address \<Rightarrow> bool" where
  "addr_ok a \<longleftrightarrow> length (ia_union a) = 28 \<and> family a = (if ia_isIpV6 a then AF_INET6 else AF_INET)"

definition ip_bytes :: "inet_address \<Rightarrow> byte list" where
  "ip_bytes a = (if ia_isIpV6 a then field_at 8 16 (ia_union a) else field_at 4 4 (ia_union a))"

lemma ip_bytes_readers:
  assumes "addr_ok a"
  shows "length (ip_bytes a) = (if ia_isIpV6 a then 16 else 4)" "toIp ntop a = Inr (ntop (family a) (ip_bytes a))"
    "toIpNetEndian a = ip_bytes a"
    "isIntranetIp a \<longleftrightarrow> (if ia_isIpV6 a then private6 (net_val (ip_bytes a)) else private4 (net_val (ip_bytes a)))"
    "isLoopbackIp a \<longleftrightarrow> (if ia_isIpV6 a then loopback6 (net_val (ip_bytes a)) else net_val (ip_bytes a) = ip4 127 0 0 1)"
  using assms address_blocks [of a] by (auto simp: addr_ok_def ip_bytes_def toIp_def toIpNetEndian_def ip4_of_def ip6_of_def)

lemma toIpPort_alt: "toIpPort ntop a = bindR (toIp ntop a) (\<lambda>ip. Inr (ip @ '':'' @ to_string (unat (toPort a))))"
  by (simp add: toIpPort_def toPort_def portNetEndian_def)

lemma port_bytes:
  assumes "length (ia_union a) = 28"
  shows "le_bytes 2 (unat (htons (toPort a))) = field_at 2 2 (ia_union a)"
proof -
  let ?p = "field_at 2 2 (ia_union a)"
  have "length ?p = 2" using assms by simp
  then have "le_val ?p < 2 ^ 16" "le_bytes 2 (le_val ?p) = ?p" using le_val_less [of ?p] le_bytes_le_val [of ?p] by simp_all
  then show ?thesis by (simp add: toPort_def portNetEndian_def sin_port_def hton_involution unat_of_nat)
qed

lemma InetAddress_ip_ok:
  fixes port :: u16
  assumes "length u = 28" "length bs = (if six then 16 else 4)" "pton (if six then AF_INET6 else AF_INET) (c_str ip) = Some bs"
  defines "b \<equiv> InetAddress_ip pton u ip port six"
  shows "addr_ok b" "ia_isIpV6 b = six" "\<not> ia_isUnspecified b" "ip_bytes b = bs" "field_at 2 2 (ia_union b) = le_bytes 2 (unat (htons port))"
  using assms(1-3) le_val_le_bytes_2
  by (cases six; simp add: b_def InetAddress_ip_def Let_def addr_ok_def family_def sin_family_def ip_bytes_def)+

text \<open>The fields of an address of version 6 that the text does not have, its flow information and scope id, are zero.\<close>

lemma InetAddress_ip_zeros:
  assumes "length u = 28" "length bs = (if six then 16 else 4)" "pton (if six then AF_INET6 else AF_INET) (c_str ip) = Some bs" six
  shows "field_at 4 4 (ia_union (InetAddress_ip pton u ip port six)) @ field_at 24 4 (ia_union (InetAddress_ip pton u ip port six)) =
    replicate 8 (CHR 0x00)"
  using assms by (simp add: InetAddress_ip_def Let_def field_at_def set_field_def flip: replicate_add)

text \<open>When the text is no address, the object stays unspecified, but has its family and its port.\<close>

lemma InetAddress_ip_bad:
  assumes "length u = 28" "pton (if six then AF_INET6 else AF_INET) (c_str ip) = None"
  shows "ia_isUnspecified (InetAddress_ip pton u ip port six)" "addr_ok (InetAddress_ip pton u ip port six)"
  using assms le_val_le_bytes_2
  by (cases six; simp add: InetAddress_ip_def Let_def addr_ok_def family_def sin_family_def)+

text \<open>
  C35: The text of an address leads back to it. For an address whose union holds what its flag says, \<^verbatim>\<open>toIp\<close> gives a text and \<^verbatim>\<open>toIpPort\<close>
  that text with the port behind it; the constructor from that text and port, whatever lay in its memory before, makes a specified
  address with the same 4 or 16 bytes of the IP address and the same port in network order, the same printed form, and the
  same answers of \<^verbatim>\<open>isIntranetIp\<close> and \<^verbatim>\<open>isLoopbackIp\<close>. The flow information and the scope id of an address of version 6 are not part of
  the text: the constructor sets them to zero. What \<^verbatim>\<open>inet_ntop\<close> prints for the families \<^verbatim>\<open>AF_INET\<close> and \<^verbatim>\<open>AF_INET6\<close>, \<^verbatim>\<open>inet_pton\<close>
  is assumed to read back.
\<close>

theorem address_text_roundtrip:
  assumes a: "addr_ok a" and u: "length u = 28"
    and text_of4: "\<And>bs. length bs = 4 \<Longrightarrow> pton AF_INET (c_str (ntop AF_INET bs)) = Some bs"
    and text_of6: "\<And>bs. length bs = 16 \<Longrightarrow> pton AF_INET6 (c_str (ntop AF_INET6 bs)) = Some bs"
  shows "\<exists>ip. toIp ntop a = Inr ip \<and> toIpPort ntop a = Inr (ip @ '':'' @ to_string (unat (toPort a))) \<and>
    (let b = InetAddress_ip pton u ip (toPort a) (ia_isIpV6 a) in
     addr_ok b \<and> \<not> ia_isUnspecified b \<and> toIpPortNetEndian b = toIpPortNetEndian a \<and> toPort b = toPort a \<and>
     toIpPort ntop b = toIpPort ntop a \<and> isIntranetIp b = isIntranetIp a \<and> isLoopbackIp b = isLoopbackIp a \<and>
     (ia_isIpV6 a \<longrightarrow> field_at 4 4 (ia_union b) @ field_at 24 4 (ia_union b) = replicate 8 (CHR 0x00)))"
proof -
  let ?ip = "ntop (family a) (ip_bytes a)"
  obtain b where b_def: "InetAddress_ip pton u ?ip (toPort a) (ia_isIpV6 a) = b" by blast
  have fam: "family a = (if ia_isIpV6 a then AF_INET6 else AF_INET)" using a by (simp add: addr_ok_def)
  then have pton: "pton (if ia_isIpV6 a then AF_INET6 else AF_INET) (c_str ?ip) = Some (ip_bytes a)"
    using text_of4 [of "ip_bytes a"] text_of6 [of "ip_bytes a"] ip_bytes_readers(1) [OF a] by (auto split: if_splits)
  note b = InetAddress_ip_ok [where pton = pton and ip = ?ip and six = "ia_isIpV6 a" and port = "toPort a",
      OF u ip_bytes_readers(1) [OF a] pton, unfolded b_def]
  have port: "field_at 2 2 (ia_union b) = field_at 2 2 (ia_union a)"
    using b(5) port_bytes a by (simp add: addr_ok_def)
  have "family b = family a" "toPort b = toPort a"
    using b(1,2) fam port by (simp_all add: addr_ok_def toPort_def portNetEndian_def sin_port_def)
  moreover have "field_at 4 4 (ia_union b) @ field_at 24 4 (ia_union b) = replicate 8 (CHR 0x00)" if "ia_isIpV6 a"
    using InetAddress_ip_zeros [where pton = pton and ip = ?ip and six = "ia_isIpV6 a" and port = "toPort a",
      OF u ip_bytes_readers(1) [OF a] pton that] by (simp only: b_def)
  ultimately show ?thesis
    using b(1-4) port ip_bytes_readers(2-5) [OF a] ip_bytes_readers(2-5) [OF b(1)]
    by (intro exI [of _ ?ip]) (simp add: b_def toIpPort_alt toIpPortNetEndian_def)
qed

text \<open>
  C33: \<^verbatim>\<open>isIntranetIp\<close> and \<^verbatim>\<open>isLoopbackIp\<close> decide membership in the address blocks. For every content of the union whose family fits the flag, an address of version 4
  is an intranet address when it lies in 10.0.0.0/8, 172.16.0.0/12 or 192.168.0.0/16 or is 127.0.0.1, and one of version 6 when it is ::1 or
  lies in fec0::/10 or fe80::/10 or stands for such an address of version 4 (::ffff:0:0/96); the loopback addresses are
  127.0.0.1, ::1 and ::ffff:127.0.0.1.
\<close>

theorem address_classes:
  assumes "addr_ok a"
  shows "(isIntranetIp a \<longleftrightarrow> (if ia_isIpV6 a then private6 (net_val (toIpNetEndian a)) else private4 (net_val (toIpNetEndian a)))) \<and>
    (isLoopbackIp a \<longleftrightarrow> (if ia_isIpV6 a then loopback6 (net_val (toIpNetEndian a)) else net_val (toIpNetEndian a) = ip4 127 0 0 1))"
  using ip_bytes_readers(3-5) [OF assms] by metis

section \<open>Addresses of connections\<close>

lemma Socket_accept_ok:
  assumes "0 \<le> fd" "length bs = (if six then 28 else 16)" "sin_family bs = (if six then AF_INET6 else AF_INET)"
  shows "addr_ok (snd (Socket_accept (fd, bs) peer))" "ia_isIpV6 (snd (Socket_accept (fd, bs) peer)) = six"
proof -
  have "sin_family (set_field 0 bs (replicate 28 (CHR 0x00))) = sin_family bs"
    using assms(2) by (simp add: sin_family_def field_at_def set_field_def)
  then show "addr_ok (snd (Socket_accept (fd, bs) peer))" "ia_isIpV6 (snd (Socket_accept (fd, bs) peer)) = six"
    using assms by (simp_all add: Socket_accept_def setSockAddrInet6_def addr_ok_def family_def)
qed

text \<open>
  The server makes the local address of a connection with the constructor for \<^verbatim>\<open>sockaddr_in6\<close>, whatever the family is: for an IPv4 socket
  the object says that it is an IPv6 address, and 127.0.0.1 is not recognised as a loopback address.
\<close>

lemma local_address_of_ipv4:
  assumes "length bs = 16" "sin_family bs = AF_INET" "drop 8 bs = replicate 8 (CHR 0x00)"
  defines "a \<equiv> InetAddress_in6 (getLocalAddr (Some bs))"
  shows "ia_isIpV6 a" "\<not> addr_ok a" "\<not> isLoopbackIp a"
proof -
  let ?m = "set_field 0 bs (replicate 28 (CHR 0x00))"
  have m: "?m = take 8 bs @ replicate 20 (CHR 0x00)"
  proof -
    have "?m = (take 8 bs @ drop 8 bs) @ replicate 12 (CHR 0x00)" using assms(1) by (simp add: set_field_def)
    then show ?thesis unfolding assms(3) by (simp flip: replicate_add)
  qed
  have "sin_family ?m = AF_INET" using assms(1,2) by (simp add: sin_family_def field_at_def set_field_def)
  then show "ia_isIpV6 a" "\<not> addr_ok a"
    by (simp_all add: a_def getLocalAddr_def InetAddress_in6_def addr_ok_def family_def)
  have "field_at 8 16 ?m = replicate 16 (CHR 0x00)" using assms(1) by (simp add: m field_at_def)
  then have "ip6_of a = 0"
    by (simp add: ip6_of_def a_def getLocalAddr_def InetAddress_in6_def net_val_def le_val_zeros)
  moreover have "length (ia_union a) = 28" using assms(1) by (simp add: a_def getLocalAddr_def InetAddress_in6_def)
  ultimately show "\<not> isLoopbackIp a"
    using address_blocks(4) [of a] \<open>ia_isIpV6 a\<close> by (simp add: loopback6_def in_block_def)
qed

text \<open>The words of two addresses are equal when their bytes are.\<close>

lemma le_val_inj: "length xs = length ys \<Longrightarrow> le_val xs = le_val ys \<longleftrightarrow> xs = ys"
  by (metis le_bytes_le_val)

lemma sockaddr_words:
  assumes "length m = 28" "length m' = 28"
  shows "sin_port m = sin_port m' \<longleftrightarrow> field_at 2 2 m = field_at 2 2 m'" "s_addr m = s_addr m' \<longleftrightarrow> field_at 4 4 m = field_at 4 4 m'"
proof -
  have "unat (of_nat (le_val (field_at 2 2 x)) :: u16) = le_val (field_at 2 2 x)"
    "unat (of_nat (le_val (field_at 4 4 x)) :: u32) = le_val (field_at 4 4 x)" if "length x = 28" for x
    using le_val_less [of "field_at 2 2 x"] le_val_less [of "field_at 4 4 x"] that by (simp_all add: unat_of_nat)
  then show "sin_port m = sin_port m' \<longleftrightarrow> field_at 2 2 m = field_at 2 2 m'" "s_addr m = s_addr m' \<longleftrightarrow> field_at 4 4 m = field_at 4 4 m'"
    using assms by (simp_all add: sin_port_def s_addr_def word_unat_eq_iff le_val_inj)
qed

text \<open>A connection to itself is one whose ends have the same address and port.\<close>

lemma isSelfConnect_iff:
  assumes "length bs = 16 \<or> length bs = 28" "length bs' = length bs" "sin_family (getPeerAddr (Some bs')) = sin_family (getLocalAddr (Some bs))"
    "sin_family (getLocalAddr (Some bs)) \<in> {AF_INET, AF_INET6}"
  shows "isSelfConnect (Some bs) (Some bs') \<longleftrightarrow>
    toIpPortNetEndian (InetAddress_in6 (getLocalAddr (Some bs))) = toIpPortNetEndian (InetAddress_in6 (getPeerAddr (Some bs')))"
proof -
  have "length (getLocalAddr (Some bs)) = 28" "length (getPeerAddr (Some bs')) = 28"
    using assms(1,2) by (auto simp: getLocalAddr_def getPeerAddr_def)
  with sockaddr_words [OF this] show ?thesis
    using assms(3,4) by (auto simp: isSelfConnect_def Let_def toIpPortNetEndian_def toIpNetEndian_def family_def InetAddress_in6_def)
qed

lemma InetAddress_any_ok:
  fixes port :: u16 and loopbackOnly six :: bool
  assumes "length u = 28"
  defines "a \<equiv> InetAddress_any u port loopbackOnly six"
  shows "addr_ok a" "ia_isIpV6 a = six" "field_at 2 2 (ia_union a) = le_bytes 2 (unat (htons port))"
    "ip_bytes a = (if six then (if loopbackOnly then in6addr_loopback else in6addr_any)
                   else rev (le_bytes 4 (if loopbackOnly then 0x7f000001 else 0)))"
  using assms(1) le_val_le_bytes_2 le_bytes_hton(2) [of "0x7f000001"] le_bytes_hton(2) [where i = 0]
  by (cases six; cases loopbackOnly; simp add: a_def InetAddress_any_def Let_def addr_ok_def family_def sin_family_def ip_bytes_def
      in6addr_loopback_def in6addr_any_def)+

section \<open>An example\<close>

text \<open>Dotted text, for the bytes of either family; \<^verbatim>\<open>inet_pton\<close> fails for any other family.\<close>

definition dotted :: ntop where
  "dotted fam bs = join ''.'' (map (\<lambda>b. to_string (of_char b)) bs)"

definition undotted :: pton where
  "undotted fam s =
     (let ps = splitString s ''.'' False in
      if fam \<in> {AF_INET, AF_INET6} \<and> length ps = (if fam = AF_INET6 then 16 else 4) \<and> (\<forall>p \<in> set ps. p \<noteq> [] \<and> (\<forall>c \<in> set p. is_digit c) \<and> digits_value p < 256)
      then Some (map (\<lambda>p. char_of (digits_value p)) ps) else None)"

lemma undotted_dotted:
  assumes "fam \<in> {AF_INET, AF_INET6}" "length bs = (if fam = AF_INET6 then 16 else 4)"
  shows "undotted fam (c_str (dotted fam bs)) = Some bs"
proof -
  let ?ps = "map (\<lambda>b. to_string (of_char b)) bs"
  have d: "p \<noteq> [] \<and> (\<forall>c \<in> set p. is_digit c) \<and> digits_value p < 256" if p: "p \<in> set ?ps" for p
    using p to_string_digits [OF refl] by (auto simp: digits_value_to_string)
  have "CHR ''.'' \<notin> set p \<and> CHR 0x00 \<notin> set p \<and> p \<noteq> []" if "p \<in> set ?ps" for p
    using d [OF that] by (auto simp: is_digit_def)
  moreover have ne: "?ps \<noteq> []" using assms by (auto split: if_splits)
  ultimately have "splitString (dotted fam bs) ''.'' False = ?ps" "CHR 0x00 \<notin> set (dotted fam bs)"
    unfolding dotted_def by (blast intro: splitString_join, simp add: join_not)
  moreover from this have "c_str (dotted fam bs) = dotted fam bs" by (simp add: c_str_def takeWhile_eq_all_conv) blast
  moreover have "map (\<lambda>p. char_of (digits_value p)) ?ps = bs" by (simp add: digits_value_to_string map_idI)
  ultimately show ?thesis using assms d by (simp add: undotted_def Let_def)
qed

definition example_addr :: inet_address where
  "example_addr = InetAddress_in (replicate 28 (CHR ''x''))
     (le_bytes 2 AF_INET @ [CHR 0x1F, CHR 0x90, CHR 0xC0, CHR 0xA8, CHR 0x05, CHR 0x07] @ replicate 8 (CHR 0x00))"

lemma example_addr_ok: "addr_ok example_addr" "ia_isIpV6 example_addr = False" "toIpNetEndian example_addr = [CHR 0xC0, CHR 0xA8, CHR 0x05, CHR 0x07]"
  by code_simp+

theorem address_text_roundtrip_witness:
  "toIpPort dotted example_addr = Inr ''192.168.5.7:8080'' \<and>
   toIpPort dotted (InetAddress_ip undotted (replicate 28 (CHR ''y'')) ''192.168.5.7'' 8080 False) = Inr ''192.168.5.7:8080''"
proof -
  have ip: "toIp dotted example_addr = Inr ''192.168.5.7''"
  proof -
    have "to_string 192 = ''192''" "to_string 168 = ''168''" "to_string 5 = ''5''" "to_string 7 = ''7''"
      by (simp_all add: to_string.simps char_of_def bit_0)
    then show ?thesis
      using example_addr_ok(3) ip_bytes_readers(2,3) [OF example_addr_ok(1)] by (simp add: dotted_def del: to_string.simps)
  qed
  have "field_at 2 2 (ia_union example_addr) = [CHR 0x1F, CHR 0x90]" by code_simp
  moreover have "le_bytes (Suc (Suc 0)) 8080 = [CHR 0x90, CHR 0x1F]" by (simp add: char_of_def bit_0)
  then have "rev (le_bytes 2 8080) = [CHR 0x1F, CHR 0x90]" unfolding numeral_2_eq_2 by simp
  ultimately have port: "toPort example_addr = 8080" using ntoh_wire(1) [of 8080] by (simp add: toPort_def portNetEndian_def sin_port_def)
  have text_of: "to_string 8080 = ''8080''" by (simp add: to_string.simps char_of_def bit_0)
  show ?thesis
    using address_text_roundtrip [where u = "replicate 28 (CHR ''y'')" and pton = undotted and ntop = dotted, OF example_addr_ok(1) _ undotted_dotted undotted_dotted]
    by (simp add: ip port text_of example_addr_ok(2) Let_def)
qed

theorem address_classes_witness: "isIntranetIp example_addr \<and> \<not> isLoopbackIp example_addr"
  using address_classes [OF example_addr_ok(1)] by (simp add: example_addr_ok private4_def in_block_def ip4_def net_val_def)

end
