(* ===== verification/WideStrings.thy ===== *)
theory WideStrings
  imports Cooper_Prelude
begin

text \<open>
  Wide strings (\<^verbatim>\<open>toUtf8\<close>, \<^verbatim>\<open>fromUtf8\<close> and the conversions of paths in \<^verbatim>\<open>cooper/util/Utilities.cpp\<close>), in the branch for C++17. They rest on
  \<^verbatim>\<open>wcstombs\<close> and \<^verbatim>\<open>mbstowcs\<close>, whose encoding is the one of the locale and so a parameter: \<open>enc\<close> gives the bytes of a
  wide character, \<open>dec\<close> the first character of a text and how many bytes it has. What has an encoding of at most three bytes
  comes back; longer ones are lost.
\<close>

section \<open>The conversions of the C library\<close>

type_synonym wide = nat

fun wcstombs :: "(wide \<Rightarrow> byte list option) \<Rightarrow> nat \<Rightarrow> wide list \<Rightarrow> byte list option" where
  "wcstombs enc n [] = Some []"
| "wcstombs enc n (w # ws) =
     (if w = 0 then Some []
      else case enc w of
             None \<Rightarrow> None
           | Some bs \<Rightarrow> if n < length bs then Some [] else map_option (\<lambda>rest. bs @ rest) (wcstombs enc (n - length bs) ws))"

function mbstowcs :: "(byte list \<Rightarrow> (wide \<times> nat) option) \<Rightarrow> nat \<Rightarrow> byte list \<Rightarrow> wide list option" where
  "mbstowcs dec n s =
     (if n = 0 \<or> s = [] \<or> hd s = CHR 0x00 then Some []
      else case dec s of
             None \<Rightarrow> None
           | Some (w, k) \<Rightarrow> if k = 0 then None else map_option (\<lambda>rest. w # rest) (mbstowcs dec (n - 1) (drop k s)))"
  by pat_completeness auto
termination by (relation "measure (\<lambda>(dec, n, s). length s)") auto

declare mbstowcs.simps [simp del]

section \<open>The functions\<close>

text \<open>A failed conversion returns \<^verbatim>\<open>(size_t)-1\<close>, to which no string can be resized.\<close>

definition toUtf8 :: "(wide \<Rightarrow> byte list option) \<Rightarrow> wide list \<Rightarrow> byte list result" where
  "toUtf8 enc wstr =
     (if wstr = [] then Inr []
      else case wcstombs enc (3 * length wstr) wstr of None \<Rightarrow> Inl LengthError | Some bs \<Rightarrow> Inr bs)"

definition fromUtf8 :: "(byte list \<Rightarrow> (wide \<times> nat) option) \<Rightarrow> byte list \<Rightarrow> wide list result" where
  "fromUtf8 dec str =
     (if str = [] then Inr []
      else case mbstowcs dec (length str) str of None \<Rightarrow> Inl LengthError | Some ws \<Rightarrow> Inr ws)"

definition toWidePath :: "(byte list \<Rightarrow> (wide \<times> nat) option) \<Rightarrow> byte list \<Rightarrow> wide list result" where
  "toWidePath dec strUtf8Path = fromUtf8 dec strUtf8Path"

definition fromWidePath :: "(wide \<Rightarrow> byte list option) \<Rightarrow> wide list \<Rightarrow> byte list result" where
  "fromWidePath enc wstrPath = toUtf8 enc wstrPath"

section \<open>What comes back\<close>

definition codec :: "(wide \<Rightarrow> byte list option) \<Rightarrow> (byte list \<Rightarrow> (wide \<times> nat) option) \<Rightarrow> bool" where
  "codec enc dec \<longleftrightarrow>
     (\<forall>w bs rest. w \<noteq> 0 \<longrightarrow> enc w = Some bs \<longrightarrow> bs \<noteq> [] \<and> hd bs \<noteq> CHR 0x00 \<and> dec (bs @ rest) = Some (w, length bs))"

definition short_char :: "(wide \<Rightarrow> byte list option) \<Rightarrow> wide \<Rightarrow> bool" where
  "short_char enc w \<longleftrightarrow> w \<noteq> 0 \<and> (\<exists>bs. enc w = Some bs \<and> length bs \<le> 3)"

definition encoded :: "(wide \<Rightarrow> byte list option) \<Rightarrow> wide list \<Rightarrow> byte list" where
  "encoded enc ws = concat (map (\<lambda>w. the (enc w)) ws)"

lemma wcstombs_short:
  "\<forall>w \<in> set ws. short_char enc w \<Longrightarrow> 3 * length ws \<le> n \<Longrightarrow> wcstombs enc n ws = Some (encoded enc ws)"
  by (induction ws arbitrary: n) (fastforce simp: short_char_def encoded_def)+

lemma mbstowcs_encoded:
  assumes "codec enc dec" "\<forall>w \<in> set ws. short_char enc w" "length ws \<le> n"
  shows "mbstowcs dec n (encoded enc ws) = Some ws"
  using assms(2,3)
proof (induction ws arbitrary: n)
  case Nil
  then show ?case by (simp add: mbstowcs.simps encoded_def)
next
  case (Cons w ws)
  then obtain bs where bs: "w \<noteq> 0" "enc w = Some bs" by (auto simp: short_char_def)
  then have c: "bs \<noteq> []" "hd bs \<noteq> CHR 0x00" "dec (bs @ encoded enc ws) = Some (w, length bs)"
    using assms(1) by (auto simp: codec_def)
  then have "encoded enc (w # ws) = bs @ encoded enc ws" "bs @ encoded enc ws \<noteq> []" "hd (bs @ encoded enc ws) \<noteq> CHR 0x00"
    using bs by (simp_all add: encoded_def)
  then show ?case using c Cons.IH [of "n - 1"] Cons.prems by (subst mbstowcs.simps) simp
qed

lemma encoded_length:
  assumes "codec enc dec" "\<forall>w \<in> set ws. short_char enc w"
  shows "length ws \<le> length (encoded enc ws)"
  using assms(2)
proof (induction ws)
  case (Cons w ws)
  then obtain bs where "w \<noteq> 0" "enc w = Some bs" by (auto simp: short_char_def)
  moreover from this have "bs \<noteq> []" using assms(1) by (simp add: codec_def)
  ultimately show ?case using Cons by (cases bs) (auto simp: encoded_def)
qed (simp add: encoded_def)

lemma wide_roundtrip:
  assumes "codec enc dec" "\<forall>w \<in> set ws. short_char enc w"
  shows "toUtf8 enc ws = Inr (encoded enc ws)" "fromUtf8 dec (encoded enc ws) = Inr ws"
proof -
  show "toUtf8 enc ws = Inr (encoded enc ws)"
    using wcstombs_short [OF assms(2) le_refl] by (simp add: toUtf8_def encoded_def)
  note l = encoded_length [OF assms]
  show "fromUtf8 dec (encoded enc ws) = Inr ws"
  proof (cases "encoded enc ws = []")
    case True
    then have "ws = []" using l by simp
    then show ?thesis using True by (simp add: fromUtf8_def)
  next
    case False
    then show ?thesis using mbstowcs_encoded [OF assms l] by (simp add: fromUtf8_def)
  qed
qed

text \<open>A character of four bytes does not fit into three bytes for each: a text of such a character is converted to the empty one; in
  a locale without an encoding for a character the conversion throws.\<close>

lemma long_char_lost: "w \<noteq> 0 \<Longrightarrow> enc w = Some bs \<Longrightarrow> length bs = 4 \<Longrightarrow> toUtf8 enc [w] = Inr []"
  by (simp add: toUtf8_def)

lemma unencodable_throws: "w \<noteq> 0 \<Longrightarrow> enc w = None \<Longrightarrow> toUtf8 enc (w # ws) = Inl LengthError"
  by (simp add: toUtf8_def)

section \<open>UTF-8\<close>

text \<open>The encoding of a UTF-8 locale.\<close>

definition utf8_enc :: "wide \<Rightarrow> byte list option" where
  "utf8_enc w =
     (if w < 128 then Some [char_of w]
      else if w < 2048 then Some [char_of (192 + w div 64), char_of (128 + w mod 64)]
      else if w < 65536 then Some [char_of (224 + w div 4096), char_of (128 + w div 64 mod 64), char_of (128 + w mod 64)]
      else if w < 1114112
      then Some [char_of (240 + w div 262144), char_of (128 + w div 4096 mod 64), char_of (128 + w div 64 mod 64), char_of (128 + w mod 64)]
      else None)"

definition utf8_dec :: "byte list \<Rightarrow> (wide \<times> nat) option" where
  "utf8_dec s =
     (case map of_char s of
        [] \<Rightarrow> None
      | a # r \<Rightarrow>
          if a < 128 then Some (a, 1)
          else if a < 192 then None
          else if a < 224 then (case r of b # _ \<Rightarrow> Some ((a - 192) * 64 + (b - 128), 2) | _ \<Rightarrow> None)
          else if a < 240 then (case r of b # c # _ \<Rightarrow> Some (((a - 224) * 64 + (b - 128)) * 64 + (c - 128), 3) | _ \<Rightarrow> None)
          else (case r of b # c # d # _ \<Rightarrow> Some ((((a - 240) * 64 + (b - 128)) * 64 + (c - 128)) * 64 + (d - 128), 4) | _ \<Rightarrow> None))"

lemma char_of_nul: "n < 256 \<Longrightarrow> char_of n = CHR 0x00 \<longleftrightarrow> (n :: nat) = 0"
  by (simp add: char_of_eq_iff take_bit_eq_mod)

lemma six_bits: "(w :: nat) = w div 64 * 64 + w mod 64" "w div 4096 = w div 64 div 64" "w div 262144 = w div 64 div 64 div 64"
  by (simp_all flip: div_mult2_eq)

lemma utf8_codec: "codec utf8_enc utf8_dec"
  unfolding codec_def
proof (intro allI impI)
  fix w bs rest assume w: "w \<noteq> 0" "utf8_enc w = Some bs"
  let ?p = "w div 64" let ?q = "?p div 64" let ?r = "?q div 64"
  consider "w < 128" | "128 \<le> w" "w < 2048" | "2048 \<le> w" "w < 65536" | "65536 \<le> w" "w < 1114112" | "1114112 \<le> w" by linarith
  then show "bs \<noteq> [] \<and> hd bs \<noteq> CHR 0x00 \<and> utf8_dec (bs @ rest) = Some (w, length bs)"
  proof cases
    case 1
    then show ?thesis using w by (auto simp: utf8_enc_def utf8_dec_def char_of_nul)
  next
    case 2
    then have "?p < 32" "2 \<le> ?p" by auto
    moreover have "bs = [char_of (192 + ?p), char_of (128 + w mod 64)]" using w 2 by (simp add: utf8_enc_def)
    ultimately show ?thesis by (simp add: utf8_dec_def char_of_nul)
  next
    case 3
    then have "?q < 16" by auto
    moreover have "bs = [char_of (224 + ?q), char_of (128 + ?p mod 64), char_of (128 + w mod 64)]"
      using w 3 six_bits(2) [of w] by (simp add: utf8_enc_def)
    ultimately show ?thesis by (simp add: utf8_dec_def char_of_nul)
  next
    case 4
    have e: "4096 * ?q + ?p mod 64 * 64 + w mod 64 = w" using six_bits(1) [of w] six_bits(1) [of ?p] by linarith
    from 4 have "?r < 16" by auto
    moreover have "bs = [char_of (240 + ?r), char_of (128 + ?q mod 64), char_of (128 + ?p mod 64), char_of (128 + w mod 64)]"
      using w 4 six_bits(2,3) [of w] by (simp add: utf8_enc_def)
    ultimately show ?thesis by (simp add: utf8_dec_def char_of_nul) (rule e)
  qed (use w in \<open>simp add: utf8_enc_def\<close>)
qed

lemma example_wide: "toUtf8 utf8_enc [0x7f51, 0x7ad9] = Inr (encoded utf8_enc [0x7f51, 0x7ad9])" "fromUtf8 utf8_dec (encoded utf8_enc [0x7f51, 0x7ad9]) = Inr [0x7f51, 0x7ad9]"
  by (rule wide_roundtrip [OF utf8_codec]; simp add: short_char_def utf8_enc_def)+

end
