(* ===== verification/IdleTimeout.thy ===== *)
theory IdleTimeout
  imports TcpConnection TimingWheel
begin

text \<open>
  Idle timeouts: the connections of one I/O loop (\<^verbatim>\<open>TcpConnectionImpl\<close>, all operations of \<open>TcpConnection\<close>, TLS included) together with the
  timing wheel of the loop (\<open>TimingWheel\<close>), as \<^verbatim>\<open>TcpServer::start\<close> and \<^verbatim>\<open>TcpServer::newConnection\<close> set them up after
  \<^verbatim>\<open>kickoffIdleConnections(n)\<close>. The first part shows of every operation that it leaves the idle timeout alone or extends the
  life of the connection exactly once; the second composes connections, wheel and time, and shows when a connection is
  closed by its timeout.
\<close>

section \<open>What extends the life of a connection\<close>

text \<open>The delays with which the entry of a connection was put into the timing wheel so far.\<close>

fun insert_of :: "conn_event \<Rightarrow> nat list" where
  "insert_of (WheelInsert t) = [t]"
| "insert_of ev = []"

definition inserts :: "'e conn \<Rightarrow> nat list" where
  "inserts c = concat (map insert_of (cn_events c))"

text \<open>The status only goes forward.\<close>

fun stage :: "conn_status \<Rightarrow> nat" where
  "stage Connecting = 0"
| "stage Connected = 1"
| "stage Disconnecting = 2"
| "stage Disconnected = 3"

lemma stage_le [simp]: "stage st \<le> 3"
  by (cases st) simp_all

lemma stage_ends: "3 \<le> stage st \<longleftrightarrow> st = Disconnected" "0 < stage st \<longleftrightarrow> st \<noteq> Connecting"
  by (cases st; simp)+

text \<open>The part of a connection that the idle timeout depends on. An operation is calm when it leaves this part alone and
  moves the status forward at most.\<close>

definition life :: "'e conn \<Rightarrow> nat \<times> int \<times> bool option \<times> bool \<times> int \<times> nat list" where
  "life c = (cn_idleTimeout c, cn_lastTimingWheelUpdate c, cn_kickoffEntry c, cn_timingWheel c, cn_clock c, inserts c)"

definition calm :: "'e conn \<Rightarrow> 'e conn \<Rightarrow> bool" where
  "calm c c' \<longleftrightarrow> life c' = life c \<and> stage (cn_status c) \<le> stage (cn_status c')"

lemma calm_refl [simp, intro]: "calm c c"
  by (simp add: calm_def)

lemma calm_trans: "calm c c1 \<Longrightarrow> calm c1 c2 \<Longrightarrow> calm c c2"
  by (simp add: calm_def)

lemma life_frame [simp]:
  "life (c\<lparr>cn_status := v0\<rparr>) = life c" "life (c\<lparr>cn_reading := v1\<rparr>) = life c" "life (c\<lparr>cn_writing := v2\<rparr>) = life c"
  "life (c\<lparr>cn_readBuffer := v3\<rparr>) = life c" "life (c\<lparr>cn_writeBufferList := v4\<rparr>) = life c" "life (c\<lparr>cn_fileBuffer := v5\<rparr>) = life c"
  "life (c\<lparr>cn_sendNum := v6\<rparr>) = life c" "life (c\<lparr>cn_queue := v7\<rparr>) = life c" "life (c\<lparr>cn_bytesSent := v8\<rparr>) = life c"
  "life (c\<lparr>cn_bytesReceived := v9\<rparr>) = life c" "life (c\<lparr>cn_closeOnEmpty := v10\<rparr>) = life c" "life (c\<lparr>cn_writeClosed := v11\<rparr>) = life c"
  "life (c\<lparr>cn_tls := v12\<rparr>) = life c" "life (c\<lparr>cn_upgradeCallback := v13\<rparr>) = life c"
  "life (c\<lparr>cn_writeCompleteCallback := v14\<rparr>) = life c" "life (c\<lparr>cn_kernel := v15\<rparr>) = life c" "life (c\<lparr>cn_errno := v16\<rparr>) = life c"
  "life (c\<lparr>cn_wire := v17\<rparr>) = life c"
  by (simp_all add: life_def inserts_def)

lemma life_emit [simp]: "insert_of ev = [] \<Longrightarrow> life (emit ev c) = life c"
  by (simp add: life_def emit_def inserts_def)

lemma status_emit [simp]: "cn_status (emit ev c) = cn_status c"
  by (simp add: emit_def)

lemma life_with_tls [simp]: "life (with_tls f c) = life c" "cn_status (with_tls f c) = cn_status c"
  by (simp_all add: with_tls_def)

lemma life_io [simp]:
  "life (io_enableWriting c) = life c" "life (io_disableWriting c) = life c" "life (io_disableAll c) = life c" "life (closeWrite c) = life c"
  "cn_status (io_enableWriting c) = cn_status c" "cn_status (io_disableWriting c) = cn_status c"
  "cn_status (io_disableAll c) = cn_status c" "cn_status (closeWrite c) = cn_status c"
  by (simp_all add: io_enableWriting_def io_disableWriting_def io_disableAll_def closeWrite_def)

lemma life_handleClose [simp]: "life (handleClose c) = life c" "cn_status (handleClose c) = Disconnected"
  by (simp_all add: handleClose_def Let_def)

lemma calm_forceClose [simp]: "calm c (forceClose_inLoop c)" "calm c (forceClose inLoop c)"
  by (simp_all add: forceClose_inLoop_def forceClose_def calm_def)

lemma calm_writeRaw: "writeRaw d c = (n, c') \<Longrightarrow> calm c c'"
  by (auto simp: writeRaw_def k_write_def calm_def Let_def split: list.splits sys_write.splits if_splits)

lemma calm_append: "appendToWriteBuffer d c = Inr c' \<Longrightarrow> calm c c'"
  by (auto simp: appendToWriteBuffer_def bindR_eq_Inr calm_def split: option.splits)

lemma calm_sendBufferedData:
  assumes "sendBufferedData c = Inr (b, c')"
  shows "calm c c'"
proof (cases "cn_tls c")
  case (Some t)
  have "calm c (snd (writeRaw d c))" for d using calm_writeRaw by (metis prod.collapse)
  then show ?thesis using assms Some by (auto simp: sendBufferedData_def bindR_eq_Inr calm_def Let_def case_prod_beta split: if_splits)
qed (use assms in \<open>simp add: sendBufferedData_def\<close>)

lemma calm_sendTLSData: "sendTLSData E c = Inr (n, c') \<Longrightarrow> calm c c'"
  by (auto simp: sendTLSData_def bindR_eq_Inr calm_def Let_def dest!: calm_writeRaw calm_append split: option.splits prod.splits if_splits)

lemma calm_tls_close: "tls_close E c = Inr c' \<Longrightarrow> calm c c'"
  by (auto simp: tls_close_def bindR_eq_Inr calm_def dest!: calm_sendTLSData split: option.splits if_splits)

lemma calm_onSslError: "calm c (onSslError err c)"
  using calm_forceClose [of c] by (auto simp: onSslError_def calm_def Let_def)

lemma calm_handleSSLError:
  assumes "handleSSLError E err c = Inr c'"
  shows "calm c c'"
proof -
  obtain n c1 where 1: "sendTLSData E c = Inr (n, c1)" using assms by (auto simp: handleSSLError_def bindR_eq_Inr)
  then have "c' = c1 \<or> (\<exists>f. c' = onSslError err (with_tls f c1))"
    using assms by (auto simp: handleSSLError_def split: option.splits if_splits)
  moreover have "calm c1 (with_tls f c1)" for f by (simp add: calm_def)
  ultimately show ?thesis using calm_sendTLSData [OF 1] calm_onSslError calm_trans by metis
qed

lemma calm_tls_sendData: "tls_sendData E d c = Inr (n, c') \<Longrightarrow> calm c c'"
  by (auto simp: tls_sendData_def bindR_eq_Inr calm_def Let_def dest!: calm_sendTLSData calm_handleSSLError
      split: option.splits if_splits prod.splits)

lemma calm_writeInLoop: "writeInLoop E d c = Inr (n, c') \<Longrightarrow> calm c c'"
  by (auto simp: writeInLoop_def dest: calm_tls_sendData calm_writeRaw split: if_splits)

lemma calm_shutdown_inLoop: "shutdown_inLoop E c = Inr c' \<Longrightarrow> calm c c'"
  by (auto simp: shutdown_inLoop_def bindR_eq_Inr calm_def Let_def dest!: calm_tls_close split: if_splits)

lemma calm_shutdown: "shutdown E inLoop c = Inr c' \<Longrightarrow> calm c c'"
  by (auto simp: shutdown_def calm_def dest!: calm_shutdown_inLoop split: if_splits)

lemma life_nodes [simp]:
  "life (upd_front f c) = life c" "life (ensure_writing c) = life c" "life (fetch_chunk c) = life c" "life (pop_front c) = life c"
  "life (all_written c) = life c" "life (high_water c) = life c"
  "cn_status (upd_front f c) = cn_status c" "cn_status (ensure_writing c) = cn_status c" "cn_status (fetch_chunk c) = cn_status c"
  "cn_status (pop_front c) = cn_status c" "cn_status (all_written c) = cn_status c" "cn_status (high_water c) = cn_status c"
  by (simp_all add: upd_front_def ensure_writing_def fetch_chunk_def pop_front_def all_written_def high_water_def Let_def
      split: list.splits option.splits prod.splits)

lemma calm_sys_sendfile: "sys_sendfile nd c = (n, c') \<Longrightarrow> calm c c'"
  by (auto simp: sys_sendfile_def calm_def Let_def split: option.splits list.splits sys_write.splits)

lemma calm_stream_loop: "stream_loop fuel E c = Inr (b, c') \<Longrightarrow> calm c c'"
proof (induction fuel arbitrary: c)
  case (Suc fuel)
  let ?c = "if file_buf c = [] then fetch_chunk c else c"
  have 0: "calm c ?c" by (simp add: calm_def)
  show ?case
  proof (cases "\<not> (nd_fileBytesToSend (hd (cn_writeBufferList c)) > 0 \<or> file_buf c \<noteq> []) \<or> file_buf ?c = []")
    case True
    then show ?thesis using Suc.prems 0 by (auto simp: Let_def split: if_splits)
  next
    case False
    with Suc.prems obtain n c1 where w: "writeInLoop E (file_buf ?c) ?c = Inr (n, c1)"
      by (auto simp: Let_def bindR_eq_Inr split: if_splits)
    then have 1: "calm c c1" using calm_writeInLoop calm_trans 0 by blast
    show ?thesis
    proof (cases "n \<ge> 0 \<and> \<not> nat n < length (file_buf ?c)")
      case True
      with w False Suc.prems have "stream_loop fuel E (c1\<lparr>cn_fileBuffer := Some []\<rparr>) = Inr (b, c')"
        by (simp add: Let_def)
      then have "calm (c1\<lparr>cn_fileBuffer := Some []\<rparr>) c'"
        by (rule Suc.IH)
      then show ?thesis using 1 by (simp add: calm_def)
    next
      case F: False
      then show ?thesis using w False Suc.prems 1 by (auto simp: Let_def calm_def split: if_splits)
    qed
  qed
qed simp


lemma calm_tls_file_loop: "tls_file_loop fuel E c = Inr (b, c') \<Longrightarrow> calm c c'"
proof (induction fuel arbitrary: c)
  case (Suc fuel)
  let ?nd = "hd (cn_writeBufferList c)"
  show ?case
  proof (cases "nd_fileBytesToSend ?nd > 0 \<and> nd_file ?nd \<noteq> None")
    case False
    then show ?thesis using Suc.prems by (auto simp: calm_def Let_def split: if_splits)
  next
    case True
    then obtain f where f: "nd_file ?nd = Some f" by blast
    define d where "d = take (min (length (file_buf c)) (nat (nd_fileBytesToSend ?nd))) (drop (nd_offset ?nd) f)"
    let ?c = "c\<lparr>cn_fileBuffer := Some (d @ drop (length d) (file_buf c))\<rparr>"
    have 0: "calm c ?c" by (simp add: calm_def)
    show ?thesis
    proof (cases "d = []")
      case True
      with Suc.prems f \<open>nd_fileBytesToSend ?nd > 0 \<and> _\<close> have "c' = ?c" by (simp add: Let_def d_def [symmetric])
      with 0 show ?thesis by simp
    next
      case ne: False
      with Suc.prems f True obtain n c1 where w: "writeInLoop E d ?c = Inr (n, c1)"
        by (auto simp: Let_def bindR_eq_Inr d_def [symmetric])
      have 1: "calm c c1" by (rule calm_trans [OF 0 calm_writeInLoop [OF w]])
      define c2 where "c2 = upd_front (\<lambda>nd. nd\<lparr>nd_fileBytesToSend := nd_fileBytesToSend nd - n, nd_offset := nd_offset nd + nat n\<rparr>) c1"
      have 2: "calm c1 c2" by (simp add: c2_def calm_def)
      have "(if n \<ge> 0 then if nat n < length d then Inr (False, ensure_writing c2) else tls_file_loop fuel E c2
          else if cn_errno c1 \<noteq> EAGAIN then Inr (False, c1) else Inr (True, c1)) = Inr (b, c')"
        using Suc.prems f True ne w by (simp add: Let_def d_def [symmetric] c2_def [symmetric] cong: if_cong)
      then have "c' = ensure_writing c2 \<or> tls_file_loop fuel E c2 = Inr (b, c') \<or> c' = c1" by (auto split: if_splits)
      moreover have "calm c2 (ensure_writing c2)" by (simp add: calm_def)
      ultimately show ?thesis using Suc.IH [of c2] 1 2 calm_trans by metis
    qed
  qed
qed simp

lemma calm_ensure: "calm c c' \<Longrightarrow> calm c (ensure_writing c')"
  by (simp add: calm_def)

lemma calm_sendFileInLoop:
  assumes "sendFileInLoop E c = Inr c'"
  shows "calm c c'"
proof -
  obtain nd nds where nd: "cn_writeBufferList c = nd # nds" "isFile_node nd"
    using assms by (auto simp: sendFileInLoop_def assertR_eq_Inr split: list.splits)
  obtain n c1 where s: "sys_sendfile nd c = (n, c1)" by fastforce
  have 1: "calm c c1" by (rule calm_sys_sendfile [OF s])
  have fb: "calm (c\<lparr>cn_fileBuffer := fb\<rparr>) c2 \<Longrightarrow> calm c c2" for fb c2 by (simp add: calm_def)
  show ?thesis
    using assms nd s 1
    by (auto simp: sendFileInLoop_def bindR_eq_Inr assertR_eq_Inr simp del: stream_loop.simps tls_file_loop.simps split: if_splits
        intro: fb calm_ensure dest!: calm_stream_loop calm_tls_file_loop)
      (auto simp: calm_def)
qed

lemma calm_queue_rest: "queue_rest d c = Inr c' \<Longrightarrow> calm c c'"
  by (auto simp: queue_rest_def bindR_eq_Inr calm_def)

lemma calm_push_node: "push_node E nd c = Inr c' \<Longrightarrow> calm c c'"
  by (auto simp: push_node_def calm_def Let_def dest!: calm_sendFileInLoop split: if_splits)

lemma calm_write_front:
  assumes "write_front E c = Inr (b, c')"
  shows "calm c c'"
proof -
  obtain nd nds where nd: "cn_writeBufferList c = nd # nds" using assms by (auto simp: write_front_def split: list.splits)
  then obtain d n c1 where w: "writeInLoop E d c = Inr (n, c1)" "c' = c1 \<or> (\<exists>f. c' = upd_front f c1)"
    using assms by (auto simp: write_front_def bindR_eq_Inr Let_def split: if_splits)
  have "calm c1 (upd_front f c1)" for f by (simp add: calm_def)
  then show ?thesis using w(2) calm_writeInLoop [OF w(1)] calm_trans by metis
qed

lemma calm_write_step:
  assumes "write_step E c = Inr (b, c')"
  shows "calm c c'"
proof -
  have pop: "calm c (pop_front c)" "calm c (all_written (pop_front c))" by (simp_all add: calm_def)
  consider "c' = all_written (pop_front c)" | c1 where "c1 = c \<or> c1 = pop_front c" "sendFileInLoop E c1 = Inr c' \<or> write_front E c1 = Inr (b, c')"
    using assms by (auto simp: write_step_def Let_def bindR_eq_Inr assertR_eq_Inr split: list.splits if_splits)
  then show ?thesis
  proof cases
    case (2 c1)
    have "calm c c1" using 2(1) pop(1) by auto
    moreover have "calm c1 c'" using 2(2) calm_sendFileInLoop calm_write_front by blast
    ultimately show ?thesis by (rule calm_trans)
  qed (use pop in simp)
qed

section \<open>Receiving through TLS\<close>

lemma calm_onHandshakeFinished: "calm c (onHandshakeFinished c)"
  by (simp add: onHandshakeFinished_def calm_def)

lemma calm_onSslMessage: "calm c (onSslMessage c)"
  by (simp add: onSslMessage_def calm_def)

lemma calm_tls_update: "calm (with_tls f c) c' \<Longrightarrow> calm c c'" "calm (c\<lparr>cn_tls := t\<rparr>) c' \<Longrightarrow> calm c c'"
  by (simp_all add: calm_def)

lemma calm_client_names: "client_names E t c = Inr (b, c') \<Longrightarrow> calm c c'"
  by (auto simp: client_names_def bindR_eq_Inr Let_def split: if_splits option.splits dest!: calm_handleSSLError)
    (auto simp: calm_def)

lemma calm_handshake_done:
  assumes "handshake_done E t c = Inr (b, c')"
  shows "calm c c'"
proof -
  obtain ok c1 where 1: "(if tl_isServer t then Inr (True, server_names E t c) else client_names E t c) = Inr (ok, c1)"
    using assms by (auto simp: handshake_done_def bindR_eq_Inr)
  then have c1: "calm c c1" by (auto dest: calm_client_names split: if_splits) (simp add: server_names_def calm_def)
  define c2 where "c2 = (case eg_peer_certificate E (tl_ssl t) of None \<Rightarrow> c1
     | Some cert \<Rightarrow> with_tls (\<lambda>t. t\<lparr>tl_peerCertificate := Some cert\<rparr>) c1)"
  have c2: "calm c c2" using c1 by (auto simp: c2_def calm_def split: option.split)
  have "c' = c1 \<or> (\<exists>f. handleSSLError E kSSLInvalidCertificate (with_tls f c2) = Inr c') \<or>
      (\<exists>n. sendTLSData E (onHandshakeFinished c2) = Inr (n, c'))"
    using assms 1 by (auto simp: handshake_done_def Let_def c2_def [symmetric] bindR_eq_Inr split: if_splits)
  moreover have "calm c2 c'" if "handleSSLError E kSSLInvalidCertificate (with_tls f c2) = Inr c'" for f
    by (rule calm_tls_update(1) [OF calm_handleSSLError [OF that]])
  moreover have "calm c2 c'" if "sendTLSData E (onHandshakeFinished c2) = Inr (n, c')" for n
    by (rule calm_trans [OF calm_onHandshakeFinished calm_sendTLSData [OF that]])
  ultimately show ?thesis using c1 calm_trans [OF c2] by blast
qed

lemma calm_processHandshake:
  assumes "processHandshake E c = Inr (b, c')"
  shows "calm c c'"
proof -
  obtain t where t: "cn_tls c = Some t" using assms by (auto simp: processHandshake_def split: option.splits)
  obtain ret e where h: "eg_do_handshake E (tl_ssl t) = (ret, e)" by fastforce
  let ?t = "t\<lparr>tl_ssl := e\<rparr>"
  let ?c = "c\<lparr>cn_tls := Some ?t\<rparr>"
  have "handshake_done E ?t ?c = Inr (b, c') \<or> (\<exists>n. sendTLSData E ?c = Inr (n, c')) \<or> c' = ?c \<or>
      (\<exists>t1 c1. shutdown E True (c\<lparr>cn_tls := Some t1\<rparr>) = Inr c1 \<and> handleSSLError E kSSLHandshakeError c1 = Inr c')"
    using assms t h by (auto simp: processHandshake_def Let_def bindR_eq_Inr split: if_splits)
  then show ?thesis
  proof (elim disjE exE conjE)
    fix t1 c1 assume "shutdown E True (c\<lparr>cn_tls := Some t1\<rparr>) = Inr c1" "handleSSLError E kSSLHandshakeError c1 = Inr c'"
    then show ?thesis using calm_shutdown calm_handleSSLError calm_trans calm_tls_update(2) by metis
  qed (auto dest!: calm_handshake_done calm_sendTLSData intro: calm_tls_update(2))
qed

lemma calm_processApplicationData: "processApplicationData fuel E c = Inr c' \<Longrightarrow> calm c c'"
proof (induction fuel arbitrary: c)
  case (Suc fuel)
  obtain t where t: "cn_tls c = Some t" using Suc.prems by (auto split: option.splits)
  then obtain b where b: "ensureWritableBytes (tl_recvBuffer t) (min 131072 (max 1024 (eg_bio_pending E (tl_ssl t)))) = Inr b"
    using Suc.prems by (auto simp: Let_def bindR_eq_Inr)
  obtain n d e where r: "eg_read E (min 2147483647 (writableBytes b)) (tl_ssl t) = (n, d, e)" by (metis prod_cases3)
  let ?c = "c\<lparr>cn_tls := Some (t\<lparr>tl_recvBuffer := b, tl_ssl := e\<rparr>)\<rparr>"
  have "shutdown E True ?c = Inr c' \<or> handleSSLError E kSSLProtocolError ?c = Inr c' \<or> c' = ?c \<or>
      (\<exists>b'. processApplicationData fuel E (onSslMessage (with_tls (\<lambda>t. t\<lparr>tl_recvBuffer := b'\<rparr>) ?c)) = Inr c')"
    using Suc.prems t b r by (auto simp: Let_def bindR_eq_Inr split: if_splits)
  moreover have "calm ?c c'"
    if "processApplicationData fuel E (onSslMessage (with_tls f ?c)) = Inr c'" for f
    by (rule calm_tls_update(1) [OF calm_trans [OF calm_onSslMessage Suc.IH [OF that]]])
  ultimately have "calm ?c c'" using calm_shutdown calm_handleSSLError by blast
  then show ?case by (rule calm_tls_update(2))
qed simp

lemma calm_recvData: "recvData fuel E c = Inr c' \<Longrightarrow> calm c c'"
proof (induction fuel arbitrary: c)
  case (Suc fuel)
  obtain t where t: "cn_tls c = Some t" using Suc.prems by (auto split: option.splits)
  show ?case
  proof (cases "readableBytes (cn_readBuffer c) = 0")
    case True
    then show ?thesis using Suc.prems t by simp
  next
    case False
    with Suc.prems t obtain d where p: "peek_bytes (cn_readBuffer c) (readableBytes (cn_readBuffer c)) = Inr d"
      by (auto simp: Let_def bindR_eq_Inr)
    obtain n e where w: "eg_bio_write E d (tl_ssl t) = (n, e)" by fastforce
    note d = p w
    let ?c = "c\<lparr>cn_tls := Some (t\<lparr>tl_ssl := e\<rparr>)\<rparr>"
    show ?thesis
    proof (cases "n \<le> 0")
      case True
      then have "handleSSLError E kSSLHandshakeError ?c = Inr c'" using Suc.prems t d False by (simp add: Let_def)
      then show ?thesis by (rule calm_tls_update(2) [OF calm_handleSSLError])
    next
      case pos: False
      with Suc.prems t d False obtain b c1 where b: "(if \<not> eg_init_finished E e
          then bindR (processHandshake E (?c\<lparr>cn_readBuffer := b\<rparr>)) (\<lambda>(ok, c). if ok then processApplicationData fuel E c else Inr c)
          else processApplicationData fuel E (?c\<lparr>cn_readBuffer := b\<rparr>)) = Inr c1" "recvData fuel E c1 = Inr c'"
        by (auto simp: Let_def bindR_eq_Inr)
      have "calm (?c\<lparr>cn_readBuffer := b\<rparr>) c1"
        using b(1) by (auto simp: bindR_eq_Inr split: if_splits
          dest!: calm_processHandshake calm_processApplicationData intro: calm_trans)
      then have "calm c c1" by (simp add: calm_def)
      then show ?thesis using Suc.IH [OF b(2)] calm_trans by blast
    qed
  qed
qed simp

lemma calm_tls_startEncryption: "tls_startEncryption E c = Inr c' \<Longrightarrow> calm c c'"
  by (auto simp: tls_startEncryption_def bindR_eq_Inr Let_def split: option.splits dest!: calm_processHandshake calm_tls_update(1))

lemma calm_startEncryption: "startEncryption E policy isServer ssl cb c = Inr c' \<Longrightarrow> calm c c'"
  by (auto simp: startEncryption_def bindR_eq_Inr split: if_splits dest!: calm_tls_startEncryption) (auto simp: calm_def)

lemma calm_established: "established_inLoop E c = Inr c' \<Longrightarrow> calm c c'"
  by (auto simp: established_inLoop_def assertR_eq_Inr Let_def split: if_splits dest!: calm_tls_startEncryption) (auto simp: calm_def)

section \<open>Steps of a connection\<close>

text \<open>An operation is lively when it extends the life of the connection, once, and is calm otherwise.\<close>

definition lively :: "'e conn \<Rightarrow> 'e conn \<Rightarrow> bool" where
  "lively c c' \<longleftrightarrow> life c' = life (extendLife c) \<and> stage (cn_status c) \<le> stage (cn_status c')"

lemma extendLife_status [simp]: "cn_status (extendLife c) = cn_status c"
  by (simp add: extendLife_def Let_def)

lemma life_extend_cong: "life c1 = life c \<Longrightarrow> life (extendLife c1) = life (extendLife c)"
  by (auto simp: life_def extendLife_def inserts_def emit_def Let_def)

lemma lively_calm: "calm (extendLife c) c' \<Longrightarrow> lively c c'"
  by (auto simp: lively_def calm_def)

lemma calm_lively: "calm c c1 \<Longrightarrow> lively c1 c' \<Longrightarrow> lively c c'"
  by (auto simp: lively_def calm_def dest: life_extend_cong)

lemma lively_calm_trans: "lively c c1 \<Longrightarrow> calm c1 c' \<Longrightarrow> lively c c'"
  by (auto simp: lively_def calm_def)

lemma sendInLoop_life:
  assumes "sendInLoop E d c = Inr c'"
  shows "if cn_status c = Connected then lively c c' else c' = c"
proof (cases "cn_status c = Connected")
  case True
  let ?c = "extendLife c"
  let ?direct = "\<not> cn_writing ?c \<and> cn_writeBufferList ?c = []"
  let ?rest = "\<lambda>n c1. if ?direct \<and> n < 0 \<and> cn_errno c1 \<noteq> EAGAIN then Inr c1
      else let rest = drop (if n < 0 then 0 else nat n) d
           in if rest \<noteq> [] \<and> cn_status c1 = Connected then queue_rest rest c1 else Inr c1"
  have "bindR (if ?direct then writeInLoop E d ?c else Inr (0, ?c)) (\<lambda>(n, c1). ?rest n c1) = Inr c'"
    using assms True unfolding sendInLoop_def by (simp only: Let_def if_False simp_thms)
  then obtain nc where nc: "(if ?direct then writeInLoop E d ?c else Inr (0, ?c)) = Inr nc" "?rest (fst nc) (snd nc) = Inr c'"
    unfolding bindR_eq_Inr case_prod_beta by blast
  obtain n c1 where "nc = (n, c1)" by fastforce
  with nc have 1: "(if ?direct then writeInLoop E d ?c else Inr (0, ?c)) = Inr (n, c1)"
    and "?rest n c1 = Inr c'" by (simp_all only: fst_conv snd_conv)
  from this(2) have 2: "c' = c1 \<or> (\<exists>rest. queue_rest rest c1 = Inr c')"
    unfolding Let_def by (metis sum.inject(2))
  from 1 have "calm ?c c1" by (auto dest: calm_writeInLoop split: if_splits)
  with 2 have "calm ?c c'" by (auto dest!: calm_queue_rest intro: calm_trans)
  with True show ?thesis by (simp add: lively_calm)
qed (use assms in \<open>simp add: sendInLoop_def\<close>)

lemma writeCallback_life:
  assumes "writeCallback E c = Inr c'"
  shows "lively c c'"
proof -
  let ?c = "extendLife c"
  consider "c' = ?c" | b c1 where "(if cn_tls ?c \<noteq> None then sendBufferedData ?c else Inr (True, ?c)) = Inr (b, c1)"
    "c' = io_enableWriting c1 \<or> (\<exists>go c2. write_step E c1 = Inr (go, c2) \<and> (c' = c2 \<or> shutdown E True c2 = Inr c'))"
    using assms by (auto simp: writeCallback_def Let_def bindR_eq_Inr split: if_splits)
  then have "calm ?c c'"
  proof cases
    case (2 b c1)
    have 1: "calm ?c c1" using 2(1) by (auto dest: calm_sendBufferedData split: if_splits)
    have "calm c1 c'" using 2(2) by (auto dest!: calm_write_step calm_shutdown intro: calm_trans) (simp add: calm_def)
    with 1 show ?thesis by (rule calm_trans)
  qed simp
  then show ?thesis by (rule lively_calm)
qed

lemma readCallback_life:
  assumes "readCallback fuel E r c = Inr c'" "readFd (cn_readBuffer c) r = Inr (n, err, b)"
  shows "if n \<ge> 0 then lively c c' else calm c c'"
proof (cases "n \<ge> 0")
  case False
  then show ?thesis using assms by (auto simp: readCallback_def Let_def calm_def split: if_splits)
next
  case True
  let ?c = "c\<lparr>cn_readBuffer := b\<rparr>"
  define c1 where "c1 = extendLife (if n = 0 then handleClose ?c else ?c)"
  have "calm c (if n = 0 then handleClose ?c else ?c)" by (simp add: calm_def)
  then have 1: "lively c c1" unfolding c1_def using calm_lively lively_calm calm_refl by blast
  let ?d = "c1\<lparr>cn_bytesReceived := szadd (cn_bytesReceived c1) (nat n)\<rparr>"
  have "c' = c1 \<or> recvData fuel E ?d = Inr c' \<or> c' = ?d \<or> c' = emit RecvMsgCb ?d"
  proof (cases "n = 0")
    case True
    then show ?thesis using assms by (simp add: readCallback_def c1_def)
  next
    case False
    with True have pos: "0 < n" "\<not> n < 0" by simp_all
    then have "c1 = extendLife ?c" by (simp add: c1_def)
    then show ?thesis using assms pos False by (auto simp: readCallback_def Let_def split: if_splits)
  qed
  moreover have "calm c1 ?d" "calm c1 (emit RecvMsgCb ?d)" by (simp_all add: calm_def)
  ultimately have "calm c1 c'" by (auto dest!: calm_recvData intro: calm_trans)
  with 1 True show ?thesis using lively_calm_trans by simp
qed

text \<open>What the application, the queue of the loop and the channel do with a connection, and which of it counts as activity.\<close>

datatype 'e idle_action =
    ActSend bool "byte list"
  | ActNode bool buffer_node
  | ActShutdown bool
  | ActForceClose bool
  | ActRunNext
  | ActReadable nat sys_read
  | ActWritable
  | ActHangUp
  | ActError int
  | ActKeepAlive
  | ActUpgrade tls_policy bool 'e bool

fun do_action :: "'e ssl_engine \<Rightarrow> 'e idle_action \<Rightarrow> 'e conn \<Rightarrow> 'e conn result" where
  "do_action E (ActSend inLoop d) c = send_data E inLoop d c"
| "do_action E (ActNode inLoop nd) c = send_node E inLoop nd c"
| "do_action E (ActShutdown inLoop) c = shutdown E inLoop c"
| "do_action E (ActForceClose inLoop) c = Inr (forceClose inLoop c)"
| "do_action E ActRunNext c = run_next E c"
| "do_action E (ActReadable fuel r) c = readCallback fuel E r c"
| "do_action E ActWritable c = writeCallback E c"
| "do_action E ActHangUp c = Inr (handleClose c)"
| "do_action E (ActError err) c = Inr (handleError err c)"
| "do_action E ActKeepAlive c = Inr (keepAlive c)"
| "do_action E (ActUpgrade policy isServer ssl cb) c = startEncryption E policy isServer ssl cb c"

fun is_activity :: "'e idle_action \<Rightarrow> 'e conn \<Rightarrow> bool" where
  "is_activity (ActSend inLoop d) c \<longleftrightarrow> inLoop \<and> cn_sendNum c = 0 \<and> cn_status c = Connected"
| "is_activity ActRunNext c \<longleftrightarrow> (case cn_queue c of TaskSend d # ts \<Rightarrow> cn_status c = Connected | _ \<Rightarrow> False)"
| "is_activity (ActReadable fuel r) c \<longleftrightarrow> (case readFd (cn_readBuffer c) r of Inr (n, err, b) \<Rightarrow> n \<ge> 0 | Inl _ \<Rightarrow> False)"
| "is_activity ActWritable c \<longleftrightarrow> True"
| "is_activity _ c \<longleftrightarrow> False"

lemma calm_queue: "calm c (c\<lparr>cn_queue := q\<rparr>)" "calm c (c\<lparr>cn_sendNum := m, cn_queue := q\<rparr>)" "calm c (c\<lparr>cn_sendNum := m\<rparr>)"
  by (simp_all add: calm_def)

lemma run_next_life:
  assumes "run_next E c = Inr c'"
  shows "if is_activity ActRunNext c then lively c c' else calm c c'"
proof (cases "cn_queue c")
  case (Cons t ts)
  let ?c = "c\<lparr>cn_queue := ts\<rparr>"
  have run: "run_task E t ?c = Inr c'" using assms Cons by (simp add: run_next_def)
  have 0: "calm c ?c" by (simp add: calm_def)
  show ?thesis
  proof (cases t)
    case (TaskSend d)
    with run obtain c1 where s: "sendInLoop E d ?c = Inr c1" "calm c1 c'" by (auto simp: bindR_eq_Inr calm_queue)
    from sendInLoop_life [OF s(1)] s(2) show ?thesis
      using Cons TaskSend by (auto intro: calm_trans [OF 0] calm_lively [OF 0] lively_calm_trans split: if_splits)
  next
    case (TaskNode nd)
    then have "calm (?c\<lparr>cn_sendNum := szsub (cn_sendNum ?c) 1\<rparr>) c'" using run calm_push_node by fastforce
    then show ?thesis using Cons TaskNode by (simp add: calm_def)
  qed (use run Cons 0 in \<open>auto dest!: calm_shutdown_inLoop calm_established intro: calm_trans\<close>)
qed (use assms in \<open>simp add: run_next_def\<close>)

lemma action_life:
  assumes "do_action E a c = Inr c'" "a \<noteq> ActKeepAlive"
  shows "if is_activity a c then lively c c' else calm c c'"
  using assms
proof (cases a)
  case (ActSend inLoop d)
  then show ?thesis
    using assms by (auto simp: send_data_def send_or_queue_def calm_queue dest!: sendInLoop_life split: if_splits)
next
  case (ActNode inLoop nd)
  then show ?thesis
    using assms by (auto simp: send_node_def send_or_queue_def calm_queue dest!: calm_push_node split: if_splits)
next
  case (ActReadable fuel r)
  then obtain n err b where "readFd (cn_readBuffer c) r = Inr (n, err, b)"
    using assms by (auto simp: readCallback_def bindR_eq_Inr)
  then show ?thesis using assms ActReadable readCallback_life by fastforce
next
  case ActRunNext
  then show ?thesis using assms run_next_life [of E c c'] by simp
next
  case ActHangUp
  then show ?thesis using assms by (auto simp: calm_def)
qed (use assms in \<open>auto simp: handleError_def dest: calm_shutdown writeCallback_life calm_startEncryption\<close>)

section \<open>An I/O loop with idle timeouts\<close>

text \<open>
  An I/O loop of a server with \<^verbatim>\<open>kickoffIdleConnections(n)\<close>: its wheel, its connections by number, the time, and when the timer of
  the wheel fired last (or was started). The last two fields only record the latest activity of a connection, the time and
  the count of ticks at it.
\<close>

record 'e idle_loop =
  il_wheel :: "nat wheel"
  il_conns :: "nat \<Rightarrow> 'e conn option"
  il_next :: nat
  il_now :: int
  il_lastTick :: int
  il_active :: "nat \<Rightarrow> int"
  il_activeTick :: "nat \<Rightarrow> nat"

text \<open>The wheel of a loop as \<^verbatim>\<open>TcpServer::start\<close> makes it.\<close>

definition idle_start :: "nat \<Rightarrow> int \<Rightarrow> 'e idle_loop result option" where
  "idle_start n now =
     map_option (\<lambda>r. bindR r (\<lambda>w. Inr \<lparr>il_wheel = w, il_conns = \<lambda>_. None, il_next = 0, il_now = now, il_lastTick = now,
         il_active = \<lambda>_. now, il_activeTick = \<lambda>_. 0\<rparr>))
       (TimingWheel_new n (if n < 500 then n + 1 else 100))"

text \<open>The entries of connection \<open>i\<close> that a step has put into the wheel.\<close>

definition wheel_inserts :: "nat \<Rightarrow> nat list \<Rightarrow> nat wheel \<Rightarrow> nat wheel result" where
  "wheel_inserts i delays w = foldR (\<lambda>w t. insertEntry t (Some (User i)) w) w delays"

definition note_activity :: "nat \<Rightarrow> 'e idle_loop \<Rightarrow> 'e idle_loop" where
  "note_activity i s = s\<lparr>il_active := (il_active s)(i := il_now s), il_activeTick := (il_activeTick s)(i := tw_ticks (il_wheel s))\<rparr>"

text \<open>A new connection, in its I/O loop: the entry goes into the wheel, then the connection is established. When the
  server has another loop, both are functions queued one behind the other.\<close>

definition idle_accept :: "'e ssl_engine \<Rightarrow> nat \<Rightarrow> 'e tls option \<Rightarrow> sys_write list \<Rightarrow> 'e idle_loop \<Rightarrow> 'e idle_loop result" where
  "idle_accept E n t answers s =
     bindR (TcpConnection_new t answers (il_now s)) (\<lambda>c0.
     bindR (enableKickingOff n c0) (\<lambda>c.
     bindR (wheel_inserts (il_next s) (drop (length (inserts c0)) (inserts c)) (il_wheel s)) (\<lambda>w.
     bindR (established_inLoop E (c\<lparr>cn_writeCompleteCallback := True\<rparr>)) (\<lambda>c'.
       Inr (note_activity (il_next s)
         (s\<lparr>il_wheel := w, il_conns := (il_conns s)(il_next s \<mapsto> c'), il_next := Suc (il_next s)\<rparr>))))))"

definition idle_act :: "'e ssl_engine \<Rightarrow> nat \<Rightarrow> 'e idle_action \<Rightarrow> 'e idle_loop \<Rightarrow> 'e idle_loop result" where
  "idle_act E i a s =
     (case il_conns s i of
        None \<Rightarrow> Inl NullCall
      | Some c \<Rightarrow>
          (let c = c\<lparr>cn_clock := il_now s\<rparr> in
           bindR (do_action E a c) (\<lambda>c'.
           bindR (wheel_inserts i (drop (length (inserts c)) (inserts c')) (il_wheel s)) (\<lambda>w.
             let s' = s\<lparr>il_wheel := w, il_conns := (il_conns s)(i \<mapsto> c')\<rparr>
             in Inr (if is_activity a c then note_activity i s' else s')))))"

text \<open>The timer of the wheel. An entry whose last reference the wheel drops is destroyed.\<close>

definition idle_tick :: "'e idle_loop \<Rightarrow> 'e idle_loop result" where
  "idle_tick s =
     bindR (tick (il_wheel s)) (\<lambda>(w, dropped).
       Inr (s\<lparr>il_wheel := w, il_lastTick := il_now s,
              il_conns := (\<lambda>i. if i \<in> set dropped \<and> i \<notin> owners w then map_option kickoff_expired (il_conns s i) else il_conns s i)\<rparr>))"

text \<open>
  What can happen in the loop: new connections, steps of the connections, time that passes, ticks (the timer queue
  fires a repeating timer not before its interval has passed since the last time), answers of the kernel, and the
  end of a closed connection.
\<close>

inductive idle_run :: "'e ssl_engine \<Rightarrow> nat \<Rightarrow> 'e idle_loop \<Rightarrow> bool" for E :: "'e ssl_engine" and n :: nat where
  starts: "0 \<le> now \<Longrightarrow> idle_start n now = Some (Inr s) \<Longrightarrow> idle_run E n s"
| accepts: "idle_run E n s \<Longrightarrow> idle_accept E n t answers s = Inr s' \<Longrightarrow> idle_run E n s'"
| acts: "idle_run E n s \<Longrightarrow> idle_act E i a s = Inr s' \<Longrightarrow> idle_run E n s'"
| passes: "idle_run E n s \<Longrightarrow> il_now s \<le> now \<Longrightarrow> idle_run E n (s\<lparr>il_now := now\<rparr>)"
| ticks: "idle_run E n s \<Longrightarrow> il_lastTick s + 1000000 \<le> il_now s \<Longrightarrow> idle_tick s = Inr s' \<Longrightarrow> idle_run E n s'"
| answers: "idle_run E n s \<Longrightarrow> il_conns s i = Some c \<Longrightarrow>
    idle_run E n (s\<lparr>il_conns := (il_conns s)(i \<mapsto> c\<lparr>cn_kernel := ks\<rparr>)\<rparr>)"
| gone: "idle_run E n s \<Longrightarrow> il_conns s i = Some c \<Longrightarrow> cn_status c = Disconnected \<Longrightarrow>
    idle_run E n (s\<lparr>il_conns := (il_conns s)(i := None)\<rparr>)"

section \<open>When entries are due\<close>

text \<open>
  The invariant of the wheel, and the one of a connection that can still time out: the latest insertion was at tick
  \<open>L\<close> and time \<open>\<tau>\<close>; every later tick but the first took a second; the latest activity was within a second of it.
\<close>

definition wheel_inv :: "nat \<Rightarrow> 'e idle_loop \<Rightarrow> bool" where
  "wheel_inv n s \<longleftrightarrow> wheel_ok (il_wheel s) \<and> wheel_fits n (il_wheel s) \<and> 0 < n \<and>
     (\<forall>u f. (u, f) \<in> sched (il_wheel s) \<longrightarrow> f \<le> tw_ticks (il_wheel s) + n + 1) \<and> il_lastTick s \<le> il_now s \<and> 0 \<le> il_now s"

definition due_inv :: "nat \<Rightarrow> 'e idle_loop \<Rightarrow> nat \<Rightarrow> int \<Rightarrow> nat \<Rightarrow> int \<Rightarrow> bool" where
  "due_inv n s i upd L \<tau> \<longleftrightarrow> (i, L + n + 1) \<in> sched (il_wheel s) \<and> (\<forall>f. (i, f) \<in> sched (il_wheel s) \<longrightarrow> f \<le> L + n + 1) \<and>
     upd \<le> \<tau> \<and> \<tau> \<le> il_now s \<and> L \<le> tw_ticks (il_wheel s) \<and>
     (L < tw_ticks (il_wheel s) \<longrightarrow> \<tau> + int (tw_ticks (il_wheel s) - L - 1) * 1000000 \<le> il_lastTick s) \<and>
     L \<le> il_activeTick s i \<and> il_activeTick s i \<le> L + 1 \<and> \<tau> \<le> il_active s i \<and> il_active s i < \<tau> + 1000000"

definition conn_inv :: "nat \<Rightarrow> 'e idle_loop \<Rightarrow> nat \<Rightarrow> 'e conn \<Rightarrow> bool" where
  "conn_inv n s i c \<longleftrightarrow> cn_timingWheel c \<and> cn_status c \<noteq> Connecting \<and>
     (case cn_kickoffEntry c of
        None \<Rightarrow> cn_idleTimeout c = 0 \<or> cn_status c = Disconnected
      | Some live \<Rightarrow> cn_idleTimeout c = (if live then n else 0) \<and> (live \<longrightarrow> (\<exists>L \<tau>. due_inv n s i (cn_lastTimingWheelUpdate c) L \<tau>)))"

definition idle_inv :: "nat \<Rightarrow> 'e idle_loop \<Rightarrow> bool" where
  "idle_inv n s \<longleftrightarrow> wheel_inv n s \<and> (\<forall>i c. il_conns s i = Some c \<longrightarrow> conn_inv n s i c)"

lemma established_status: "established_inLoop E c = Inr c' \<Longrightarrow> cn_status c' \<noteq> Connecting"
  by (auto simp: established_inLoop_def assertR_eq_Inr Let_def split: if_splits dest!: calm_tls_startEncryption) (auto simp: calm_def)

lemma wheel_insert:
  assumes "wheel_inv n s"
  shows "\<exists>w. wheel_inserts i [n] (il_wheel s) = Inr w \<and> wheel_ok w \<and> tw_ticks w = tw_ticks (il_wheel s) \<and>
    (\<forall>d. wheel_fits d w = wheel_fits d (il_wheel s)) \<and> sched w = insert (i, tw_ticks (il_wheel s) + n + 1) (sched (il_wheel s))"
  using tw.put_ok [of "il_wheel s" n i] assms by (fastforce simp: wheel_inserts_def wheel_inv_def)

text \<open>A step of connection \<open>i\<close> that may have inserted its entry: the wheel and the other connections.\<close>

definition wheel_after :: "nat \<Rightarrow> nat \<Rightarrow> 'e idle_loop \<Rightarrow> nat wheel \<Rightarrow> bool" where
  "wheel_after n i s w \<longleftrightarrow> wheel_ok w \<and> tw_ticks w = tw_ticks (il_wheel s) \<and> (\<forall>d. wheel_fits d w = wheel_fits d (il_wheel s)) \<and>
     (sched w = sched (il_wheel s) \<or> sched w = insert (i, tw_ticks (il_wheel s) + n + 1) (sched (il_wheel s)))"

lemma due_other:
  assumes "due_inv n s j upd L \<tau>" "wheel_after n i s w" "j \<noteq> i"
  shows "due_inv n (note_activity i (s\<lparr>il_wheel := w, il_conns := cs\<rparr>)) j upd L \<tau>" "due_inv n (s\<lparr>il_wheel := w, il_conns := cs\<rparr>) j upd L \<tau>"
    "due_inv n (note_activity i (s\<lparr>il_wheel := w, il_conns := cs, il_next := k\<rparr>)) j upd L \<tau>"
  using assms by (auto simp: due_inv_def wheel_after_def note_activity_def)

lemma wheel_inv_after:
  assumes "wheel_inv n s" "wheel_after n i s w"
  shows "wheel_inv n (s\<lparr>il_wheel := w, il_conns := cs\<rparr>)" "wheel_inv n (s\<lparr>il_wheel := w, il_conns := cs, il_next := k\<rparr>)"
    "wheel_inv n (note_activity i s) = wheel_inv n s"
  using assms by (auto simp: wheel_inv_def wheel_after_def note_activity_def)

text \<open>Right after an insertion, and after an activity too soon for another one.\<close>

lemma due_fresh:
  assumes "wheel_inv n s" "wheel_after n i s w" "sched w = insert (i, tw_ticks (il_wheel s) + n + 1) (sched (il_wheel s))" "upd \<le> il_now s"
  shows "due_inv n (note_activity i (s\<lparr>il_wheel := w, il_conns := cs\<rparr>)) i upd (tw_ticks (il_wheel s)) (il_now s)"
    "due_inv n (note_activity i (s\<lparr>il_wheel := w, il_conns := cs, il_next := k\<rparr>)) i upd (tw_ticks (il_wheel s)) (il_now s)"
  using assms by (auto simp: due_inv_def wheel_inv_def wheel_after_def note_activity_def)

lemma due_skip:
  assumes "due_inv n s i upd L \<tau>" "wheel_inv n s" "il_now s < upd + 1000000"
  shows "due_inv n (note_activity i (s\<lparr>il_conns := cs\<rparr>)) i upd L \<tau>"
proof -
  let ?T = "tw_ticks (il_wheel s)"
  have d: "upd \<le> \<tau>" "L < ?T \<Longrightarrow> \<tau> + int (?T - L - 1) * 1000000 \<le> il_lastTick s" "il_lastTick s \<le> il_now s"
    using assms(1,2) by (simp_all add: due_inv_def wheel_inv_def)
  have "?T \<le> L + 1"
  proof (rule ccontr)
    assume "\<not> ?T \<le> L + 1"
    then have "L < ?T" "1 \<le> int (?T - L - 1)" by simp_all
    with d assms(3) show False by auto
  qed
  with assms d(1) show ?thesis by (auto simp: due_inv_def note_activity_def)
qed

lemma calm_fields:
  assumes "calm c c'"
  shows "cn_idleTimeout c' = cn_idleTimeout c" "cn_kickoffEntry c' = cn_kickoffEntry c" "cn_timingWheel c' = cn_timingWheel c"
    "cn_lastTimingWheelUpdate c' = cn_lastTimingWheelUpdate c" "inserts c' = inserts c"
    "cn_status c = Disconnected \<Longrightarrow> cn_status c' = Disconnected" "cn_status c \<noteq> Connecting \<Longrightarrow> cn_status c' \<noteq> Connecting"
  using assms stage_ends [of "cn_status c"] stage_ends [of "cn_status c'"] by (auto simp: calm_def life_def)

lemma lively_fields:
  assumes "lively c c'"
  shows "cn_idleTimeout c' = cn_idleTimeout c" "cn_kickoffEntry c' = cn_kickoffEntry c" "cn_timingWheel c' = cn_timingWheel c"
    "cn_status c = Disconnected \<Longrightarrow> cn_status c' = Disconnected" "cn_status c \<noteq> Connecting \<Longrightarrow> cn_status c' \<noteq> Connecting"
    "cn_idleTimeout c = 0 \<or> cn_clock c < cn_lastTimingWheelUpdate c + 1000000 \<Longrightarrow>
       cn_lastTimingWheelUpdate c' = cn_lastTimingWheelUpdate c \<and> inserts c' = inserts c"
    "0 < cn_idleTimeout c \<Longrightarrow> \<not> cn_clock c < cn_lastTimingWheelUpdate c + 1000000 \<Longrightarrow>
       cn_lastTimingWheelUpdate c' = cn_clock c \<and>
       inserts c' = inserts c @ (if cn_kickoffEntry c \<noteq> None \<and> cn_timingWheel c then [cn_idleTimeout c] else [])"
proof -
  have "life c' = life (extendLife c)" "stage (cn_status c) \<le> stage (cn_status c')" using assms by (simp_all add: lively_def)
  note l = this(1) and st = this(2)
  from st show "cn_status c = Disconnected \<Longrightarrow> cn_status c' = Disconnected" "cn_status c \<noteq> Connecting \<Longrightarrow> cn_status c' \<noteq> Connecting"
    using stage_ends [of "cn_status c"] stage_ends [of "cn_status c'"] by auto
qed (use assms in \<open>auto simp: lively_def life_def extendLife_def Let_def emit_def inserts_def split: if_splits\<close>)

section \<open>The invariant is kept\<close>

lemma conn_inv_mono:
  assumes "conn_inv n s j d" "\<And>L \<tau>. due_inv n s j (cn_lastTimingWheelUpdate d) L \<tau> \<Longrightarrow> due_inv n s' j (cn_lastTimingWheelUpdate d) L \<tau>"
  shows "conn_inv n s' j d"
  using assms unfolding conn_inv_def by (auto split: option.splits)

lemma conn_inv_calm:
  assumes "conn_inv n s i c" "calm c c'"
  shows "conn_inv n s i c'"
  using assms(1) calm_fields [OF assms(2)] by (auto simp: conn_inv_def split: option.splits)

lemma conn_inv_keepAlive: "conn_inv n s i c \<Longrightarrow> conn_inv n s i (keepAlive c)"
  by (auto simp: conn_inv_def keepAlive_def split: option.splits)

text \<open>An activity of a connection: what it inserts, and its invariant afterwards.\<close>

lemma lively_inv:
  assumes s: "wheel_inv n s" and c: "conn_inv n s i c" "cn_clock c = il_now s" and l: "lively c c'"
  shows "\<exists>w. wheel_inserts i (drop (length (inserts c)) (inserts c')) (il_wheel s) = Inr w \<and> wheel_after n i s w \<and>
    conn_inv n (note_activity i (s\<lparr>il_wheel := w, il_conns := cs\<rparr>)) i c'"
proof -
  note f = lively_fields [OF l]
  have same: "wheel_after n i s (il_wheel s)" using s by (simp add: wheel_after_def wheel_inv_def)
  have n: "0 < n" using s by (simp add: wheel_inv_def)
  have st: "cn_status c' \<noteq> Connecting" "cn_timingWheel c'" using c(1) f(3,5) by (simp_all add: conn_inv_def)
  show ?thesis
  proof (cases "cn_kickoffEntry c = Some True")
    case False
    then have "inserts c' = inserts c"
      using c(1) f(6,7) n by (cases "cn_idleTimeout c = 0"; cases "cn_kickoffEntry c"; cases "cn_clock c < cn_lastTimingWheelUpdate c + 1000000")
        (auto simp: conn_inv_def split: if_splits)
    moreover have "conn_inv n t i c'" for t :: "'a idle_loop"
      using False c(1) f(1,2,4) st by (auto simp: conn_inv_def split: option.splits)
    ultimately show ?thesis using same by (simp add: wheel_inserts_def)
  next
    case True
    then obtain L \<tau> where d: "due_inv n s i (cn_lastTimingWheelUpdate c) L \<tau>" and idle: "cn_idleTimeout c = n" and tw: "cn_timingWheel c"
      using c(1) by (auto simp: conn_inv_def)
    show ?thesis
    proof (cases "cn_clock c < cn_lastTimingWheelUpdate c + 1000000")
      case skip: True
      then have "inserts c' = inserts c" "cn_lastTimingWheelUpdate c' = cn_lastTimingWheelUpdate c" using f(6) by simp_all
      moreover have "due_inv n (note_activity i (s\<lparr>il_conns := cs\<rparr>)) i (cn_lastTimingWheelUpdate c) L \<tau>"
        using due_skip [OF d s] skip c(2) by simp
      ultimately show ?thesis
        using same True st f(1,2) idle by (auto simp: wheel_inserts_def conn_inv_def)
    next
      case now: False
      then have ins: "drop (length (inserts c)) (inserts c') = [n]" and upd: "cn_lastTimingWheelUpdate c' = il_now s"
        using f(7) n idle True tw c(2) by auto
      obtain w where w: "wheel_inserts i [n] (il_wheel s) = Inr w" "wheel_after n i s w"
        "sched w = insert (i, tw_ticks (il_wheel s) + n + 1) (sched (il_wheel s))"
        using wheel_insert [OF s, of i] unfolding wheel_after_def by auto
      have "due_inv n (note_activity i (s\<lparr>il_wheel := w, il_conns := cs\<rparr>)) i (cn_lastTimingWheelUpdate c') (tw_ticks (il_wheel s)) (il_now s)"
        by (rule due_fresh(1) [OF s w(2,3)]) (simp add: upd)
      then show ?thesis using w(1,2) ins True st f(1,2) idle by (auto simp: conn_inv_def)
    qed
  qed
qed

lemma conn_inv_others:
  assumes "conn_inv n s j d" "wheel_after n i s w" "j \<noteq> i"
  shows "conn_inv n (note_activity i (s\<lparr>il_wheel := w, il_conns := cs\<rparr>)) j d" "conn_inv n (s\<lparr>il_wheel := w, il_conns := cs\<rparr>) j d"
    "conn_inv n (note_activity i (s\<lparr>il_wheel := w, il_conns := cs, il_next := k\<rparr>)) j d"
  using assms due_other [OF _ assms(2,3)] by (auto intro: conn_inv_mono)

lemma conn_inv_conns: "conn_inv n (s\<lparr>il_conns := cs\<rparr>) i c = conn_inv n s i c"
proof -
  have "due_inv n (s\<lparr>il_conns := cs\<rparr>) i upd L \<tau> = due_inv n s i upd L \<tau>" for upd L \<tau> by (simp add: due_inv_def)
  then show ?thesis by (simp add: conn_inv_def cong: option.case_cong)
qed

lemma conn_inv_clock: "conn_inv n s i (c\<lparr>cn_clock := t\<rparr>) = conn_inv n s i c" "conn_inv n s i (c\<lparr>cn_kernel := ks\<rparr>) = conn_inv n s i c"
  by (simp_all add: conn_inv_def split: option.split)

lemma act_inv:
  assumes inv: "idle_inv n s" and c: "il_conns s i = Some c" and a: "do_action E a (c\<lparr>cn_clock := il_now s\<rparr>) = Inr c'"
  shows "\<exists>s'. idle_act E i a s = Inr s' \<and> idle_inv n s'"
proof -
  let ?c = "c\<lparr>cn_clock := il_now s\<rparr>"
  let ?cs = "(il_conns s)(i \<mapsto> c')"
  have s: "wheel_inv n s" and all: "\<And>j d. il_conns s j = Some d \<Longrightarrow> conn_inv n s j d" using inv by (simp_all add: idle_inv_def)
  have ci: "conn_inv n s i ?c" using all [OF c] by (simp add: conn_inv_clock)
  have same: "wheel_after n i s (il_wheel s)" using s by (simp add: wheel_after_def wheel_inv_def)
  show ?thesis
  proof (cases "is_activity a ?c")
    case True
    then have "lively ?c c'" using action_life [OF a] by (cases a) auto
    from lively_inv [OF s ci _ this] obtain w where w: "wheel_inserts i (drop (length (inserts ?c)) (inserts c')) (il_wheel s) = Inr w"
      "wheel_after n i s w" "conn_inv n (note_activity i (s\<lparr>il_wheel := w, il_conns := ?cs\<rparr>)) i c'"
      by fastforce
    let ?s = "note_activity i (s\<lparr>il_wheel := w, il_conns := ?cs\<rparr>)"
    have "idle_act E i a s = Inr ?s" using c a w(1) True by (simp add: idle_act_def Let_def)
    moreover have "conn_inv n ?s j d" if "il_conns ?s j = Some d" for j d
      using that w(3) conn_inv_others(1) [OF all w(2)] by (cases "j = i") (auto simp: note_activity_def)
    moreover have "wheel_inv n ?s"
      using wheel_inv_after(1) [OF s w(2)] by (simp add: wheel_inv_def note_activity_def)
    ultimately show ?thesis by (auto simp: idle_inv_def)
  next
    case False
    have "inserts c' = inserts ?c \<and> conn_inv n s i c'"
    proof (cases "a = ActKeepAlive")
      case True
      then show ?thesis using a conn_inv_keepAlive [OF ci] by (auto simp: keepAlive_def inserts_def)
    next
      case F: False
      then have "calm ?c c'" using action_life [OF a F] False by simp
      then show ?thesis using conn_inv_calm [OF ci] calm_fields(5) by blast
    qed
    moreover from this have "idle_act E i a s = Inr (s\<lparr>il_wheel := il_wheel s, il_conns := ?cs\<rparr>)"
      using c a False by (simp add: idle_act_def Let_def wheel_inserts_def)
    moreover have "conn_inv n (s\<lparr>il_conns := ?cs\<rparr>) j d" if "?cs j = Some d" for j d
      using that all calculation(1) by (cases "j = i") (auto simp: conn_inv_conns)
    moreover have "wheel_inv n (s\<lparr>il_conns := ?cs\<rparr>)" using s by (simp add: wheel_inv_def)
    ultimately show ?thesis by (auto simp: idle_inv_def)
  qed
qed

lemma accept_inv:
  assumes inv: "idle_inv n s" and a: "idle_accept E n t answers s = Inr s'"
  shows "idle_inv n s'"
proof -
  let ?i = "il_next s"
  have s: "wheel_inv n s" and all: "\<And>j d. il_conns s j = Some d \<Longrightarrow> conn_inv n s j d" using inv by (simp_all add: idle_inv_def)
  obtain c0 c w c' where r: "TcpConnection_new t answers (il_now s) = Inr c0" "enableKickingOff n c0 = Inr c"
    "wheel_inserts ?i (drop (length (inserts c0)) (inserts c)) (il_wheel s) = Inr w"
    "established_inLoop E (c\<lparr>cn_writeCompleteCallback := True\<rparr>) = Inr c'"
    "s' = note_activity ?i (s\<lparr>il_wheel := w, il_conns := (il_conns s)(?i \<mapsto> c'), il_next := Suc ?i\<rparr>)"
    using a by (auto simp: idle_accept_def bindR_eq_Inr)
  have c: "cn_idleTimeout c = n" "cn_kickoffEntry c = Some True" "cn_timingWheel c" "cn_lastTimingWheelUpdate c = 0" "inserts c0 = []" "inserts c = [n]"
    using r(1,2) by (auto simp: TcpConnection_new_def enableKickingOff_def assertR_eq_Inr bindR_eq_Inr emit_def inserts_def)
  have "calm c c'" using calm_established [OF r(4)] by (simp add: calm_def)
  note f = calm_fields [OF this] established_status [OF r(4)]
  have w: "wheel_after n ?i s w" "sched w = insert (?i, tw_ticks (il_wheel s) + n + 1) (sched (il_wheel s))"
    using wheel_insert [OF s, of ?i] r(3) c by (auto simp: wheel_after_def)
  have now: "0 \<le> il_now s" using s by (simp add: wheel_inv_def)
  have "due_inv n s' ?i (cn_lastTimingWheelUpdate c') (tw_ticks (il_wheel s)) (il_now s)"
    unfolding r(5) by (rule due_fresh(2) [OF s w]) (simp add: f c now)
  then have "conn_inv n s' ?i c'" using f c by (auto simp: conn_inv_def)
  then have "conn_inv n s' j d" if "il_conns s' j = Some d" for j d
    using that conn_inv_others(3) [OF all w(1), of j d] by (cases "j = ?i") (auto simp: r(5) note_activity_def)
  moreover have "wheel_inv n s'"
    using wheel_inv_after(2) [OF s w(1)] by (simp add: r(5) wheel_inv_def note_activity_def)
  ultimately show ?thesis by (auto simp: idle_inv_def)
qed

text \<open>A tick: what is not due stays due, and a connection whose entry is destroyed is closed if the entry still refers to it.\<close>

lemma kickoff_fields [simp]:
  "cn_kickoffEntry (kickoff_expired c) = None" "cn_timingWheel (kickoff_expired c) = cn_timingWheel c"
  "cn_idleTimeout (kickoff_expired c) = cn_idleTimeout c"
  by (simp_all add: kickoff_expired_def forceClose_def forceClose_inLoop_def handleClose_def io_disableAll_def emit_def Let_def)

lemma kickoff_status:
  "cn_status c \<noteq> Connecting \<Longrightarrow> cn_status (kickoff_expired c) = (if cn_kickoffEntry c = Some True then Disconnected else cn_status c)"
  by (cases "cn_status c") (auto simp: kickoff_expired_def forceClose_def forceClose_inLoop_def Let_def)

lemma due_tick:
  assumes d: "due_inv n s i upd L \<tau>" and s: "wheel_inv n s" "il_lastTick s + 1000000 \<le> il_now s"
    and w: "tick (il_wheel s) = Inr (w, dropped)" and i: "i \<in> owners w"
  shows "due_inv n (s\<lparr>il_wheel := w, il_lastTick := il_now s, il_conns := cs\<rparr>) i upd L \<tau>"
proof -
  let ?T = "tw_ticks (il_wheel s)"
  have ok: "wheel_ok (il_wheel s)" using s(1) by (simp add: wheel_inv_def)
  have t: "wheel_ok w" "tw_ticks w = Suc ?T" "sched w \<subseteq> sched (il_wheel s)" using tw.turn_ok [OF ok] w by auto
  have "i \<in> fst ` sched w" using i owners_sched [OF t(1)] by simp
  then have due: "(i, L + n + 1) \<in> sched w" using tw.stays_until [OF ok w] d by (simp add: due_inv_def)
  have "\<tau> + int (Suc ?T - L - 1) * 1000000 \<le> il_now s"
  proof (cases "L < ?T")
    case True
    then have "int (Suc ?T - L - 1) = int (?T - L - 1) + 1" by simp
    moreover have "\<tau> + int (?T - L - 1) * 1000000 \<le> il_lastTick s" using True d by (simp add: due_inv_def)
    ultimately show ?thesis using s(2) by (simp add: algebra_simps)
  next
    case False
    then show ?thesis using d by (simp add: due_inv_def)
  qed
  then show ?thesis using d due t(2,3) by (auto simp: due_inv_def)
qed

lemma due_now:
  assumes d: "due_inv n s i upd L \<tau>" and s: "wheel_inv n s" and w: "tick (il_wheel s) = Inr (w, dropped)" and i: "i \<notin> owners w"
  shows "L + n = tw_ticks (il_wheel s)" "i \<in> set dropped"
proof -
  have ok: "wheel_ok (il_wheel s)" using s by (simp add: wheel_inv_def)
  then have "wheel_ok w" using tw.turn_ok w by fastforce
  then have "i \<notin> fst ` sched w" using i owners_sched by blast
  moreover have "(i, L + n + 1) \<in> sched (il_wheel s)" using d by (simp add: due_inv_def)
  ultimately have "L + n + 1 = Suc (tw_ticks (il_wheel s))" "i \<in> set dropped" using tw.gone_at [OF ok w] by blast+
  then show "L + n = tw_ticks (il_wheel s)" "i \<in> set dropped" by simp_all
qed

text \<open>What a tick does to the connections.\<close>

lemma idle_tick_effect:
  assumes s: "wheel_inv n s"
  shows "\<exists>s' w dropped. idle_tick s = Inr s' \<and> tick (il_wheel s) = Inr (w, dropped) \<and> il_wheel s' = w \<and> wheel_ok w \<and>
    tw_ticks w = Suc (tw_ticks (il_wheel s)) \<and> (\<forall>d. wheel_fits d w = wheel_fits d (il_wheel s)) \<and> sched w \<subseteq> sched (il_wheel s) \<and>
    s' = s\<lparr>il_wheel := w, il_lastTick := il_now s, il_conns := il_conns s'\<rparr> \<and>
    (\<forall>i. il_conns s' i = (if i \<in> set dropped \<and> i \<notin> owners w then map_option kickoff_expired (il_conns s i) else il_conns s i))"
proof -
  obtain w dropped where "tick (il_wheel s) = Inr (w, dropped)" "wheel_ok w" "tw_ticks w = Suc (tw_ticks (il_wheel s))"
    "\<forall>d. wheel_fits d w = wheel_fits d (il_wheel s)" "sched w = {x \<in> sched (il_wheel s). Suc (tw_ticks (il_wheel s)) < snd x}"
    using tw.turn_ok [of "il_wheel s"] s unfolding wheel_inv_def by blast
  then show ?thesis by (simp add: idle_tick_def)
qed

lemma tick_inv:
  assumes inv: "idle_inv n s" and now: "il_lastTick s + 1000000 \<le> il_now s" and t: "idle_tick s = Inr s'"
  shows "idle_inv n s'"
proof -
  let ?T = "tw_ticks (il_wheel s)"
  have s: "wheel_inv n s" and all: "\<And>j d. il_conns s j = Some d \<Longrightarrow> conn_inv n s j d" using inv by (simp_all add: idle_inv_def)
  obtain w dropped cs where w: "tick (il_wheel s) = Inr (w, dropped)" "wheel_ok w" "tw_ticks w = Suc ?T" "sched w \<subseteq> sched (il_wheel s)"
    and shape: "\<forall>d. wheel_fits d w = wheel_fits d (il_wheel s)"
    and s': "s' = s\<lparr>il_wheel := w, il_lastTick := il_now s, il_conns := cs\<rparr>"
    and cs: "\<And>i. cs i = (if i \<in> set dropped \<and> i \<notin> owners w then map_option kickoff_expired (il_conns s i) else il_conns s i)"
    using idle_tick_effect [OF s] t by auto
  have "conn_inv n s' i c'" if c': "il_conns s' i = Some c'" for i c'
  proof -
    obtain c where c: "il_conns s i = Some c" using c' cs [of i] by (auto simp: s' split: if_splits)
    note ci = all [OF c]
    show ?thesis
    proof (cases "i \<in> set dropped \<and> i \<notin> owners w")
      case True
      then have e: "c' = kickoff_expired c" using c' c cs [of i] by (simp add: s')
      have "cn_idleTimeout c = 0 \<or> cn_status c' = Disconnected"
        using ci kickoff_status [of c] e by (auto simp: conn_inv_def split: option.splits if_splits)
      moreover have "cn_status c' \<noteq> Connecting" using ci kickoff_status [of c] e by (auto simp: conn_inv_def)
      ultimately show ?thesis using ci by (simp add: conn_inv_def e)
    next
      case False
      then have "cs i = il_conns s i" unfolding cs by (rule if_not_P)
      then have e: "c' = c" using c' c by (simp add: s')
      have "due_inv n s' i upd L \<tau>" if d: "due_inv n s i upd L \<tau>" for upd L \<tau>
      proof -
        have "i \<in> owners w" using due_now(2) [OF d s w(1)] False by blast
        from due_tick [OF d s now w(1) this] show ?thesis by (simp add: s')
      qed
      then show ?thesis unfolding e by (rule conn_inv_mono [OF ci])
    qed
  qed
  moreover have "wheel_inv n s'"
    using s w shape by (fastforce simp: wheel_inv_def s' dest!: subsetD [OF w(4)])
  ultimately show ?thesis by (simp add: idle_inv_def)
qed

lemma start_inv:
  assumes "0 \<le> now" "n < 16777215" "idle_start n now = Some (Inr s)"
  shows "idle_inv n s"
proof -
  let ?B = "if n < 500 then n + 1 else 100 :: nat"
  have n: "1 < n" using assms(3) by (auto simp: idle_start_def TimingWheel_new_def split: if_splits)
  have bounds: "n < 16777216" "1 < ?B" "?B \<le> 4294967296" using n assms(2) by simp_all
  obtain w where w: "TimingWheel_new n ?B = Some (Inr w)" "wheel_ok w" "sched w = ({} :: (nat \<times> nat) set)" "tw_buckets w = ?B" "n \<le> ?B ^ tw_wheelsNum w"
    using TimingWheel_new_ok [OF n bounds] by blast
  then have s: "il_wheel s = w" "il_conns s = (\<lambda>_. None)" "il_now s = now" "il_lastTick s = now" using assms(3) by (auto simp: idle_start_def)
  have "n + 1 \<le> ?B ^ tw_wheelsNum w \<or> 1 < tw_wheelsNum w"
  proof (cases "n < 500")
    case True
    have "0 < tw_wheelsNum w" using w(2) by (simp add: wheel_ok_def)
    then show ?thesis using True by (auto simp: self_le_power)
  next
    case False
    have "\<not> tw_wheelsNum w \<le> 1"
    proof
      assume "tw_wheelsNum w \<le> 1"
      then have "(100 :: nat) ^ tw_wheelsNum w \<le> 100 ^ 1" by (intro power_increasing) simp_all
      with w(5) False show False by simp
    qed
    then show ?thesis by linarith
  qed
  then have "wheel_inv n s" using w n assms(1,2) by (auto simp: wheel_inv_def wheel_fits_def s)
  then show ?thesis by (simp add: idle_inv_def s)
qed

lemma run_inv: "idle_run E n s \<Longrightarrow> n < 16777215 \<Longrightarrow> idle_inv n s"
proof (induction rule: idle_run.induct)
  case (starts now s)
  then show ?case by (intro start_inv)
next
  case (accepts s t answers s')
  then show ?case using accept_inv by blast
next
  case (acts s i a s')
  then obtain c c' where "il_conns s i = Some c" "do_action E a (c\<lparr>cn_clock := il_now s\<rparr>) = Inr c'"
    by (auto simp: idle_act_def Let_def bindR_eq_Inr split: option.splits)
  with acts act_inv [of n s i c E a c'] show ?case by auto
next
  case (passes s now)
  have "conn_inv n (s\<lparr>il_now := now\<rparr>) i c" if "conn_inv n s i c" for i c
    using that passes(2) by (auto simp: due_inv_def elim!: conn_inv_mono)
  with passes show ?case by (auto simp: idle_inv_def wheel_inv_def)
next
  case (ticks s s')
  then show ?case using tick_inv by blast
next
  case (answers s i c ks)
  then show ?case by (auto simp: idle_inv_def wheel_inv_def conn_inv_conns conn_inv_clock)
next
  case (gone s i c)
  then show ?case by (auto simp: idle_inv_def wheel_inv_def conn_inv_conns)
qed

text \<open>An open connection that may time out has not been idle for longer than the timeout and a tick.\<close>

lemma due_bounds:
  assumes "due_inv n s i upd L \<tau>" "wheel_inv n s"
  shows "tw_ticks (il_wheel s) \<le> il_activeTick s i + n"
proof -
  have "(i, L + n + 1) \<in> sched (il_wheel s)" "L \<le> il_activeTick s i" using assms(1) by (simp_all add: due_inv_def)
  moreover from this(1) have "tw_ticks (il_wheel s) < L + n + 1" using sched_later assms(2) by (auto simp: wheel_inv_def)
  ultimately show ?thesis by simp
qed

text \<open>
  C17: idle connections are closed in time. In every run of an I/O loop with idle timeouts, an open connection that was not told
  to be kept alive had some activity (data or the end of the stream read, a message sent, the socket becoming
  writable) within the last \<open>n\<close> ticks of the wheel; so a connection that falls silent is closed at the latest by the tick
  \<open>n + 1\<close> after its last activity. The ticks never fail, nor does any insertion into the wheel.
\<close>

theorem idle_closed_in_time:
  assumes "idle_run E n s" "n < 16777215"
  shows "(\<forall>i c. il_conns s i = Some c \<and> cn_status c \<noteq> Disconnected \<and> \<not> isKeepAlive c \<longrightarrow>
      tw_ticks (il_wheel s) \<le> il_activeTick s i + n) \<and>
    (\<exists>s'. idle_tick s = Inr s' \<and> tw_ticks (il_wheel s') = Suc (tw_ticks (il_wheel s))) \<and>
    (\<forall>i a c c'. il_conns s i = Some c \<and> do_action E a (c\<lparr>cn_clock := il_now s\<rparr>) = Inr c' \<longrightarrow> (\<exists>s'. idle_act E i a s = Inr s'))"
proof (intro conjI allI impI)
  have inv: "idle_inv n s" by (rule run_inv [OF assms])
  then have w: "wheel_inv n s" by (simp add: idle_inv_def)
  show "\<exists>s'. idle_tick s = Inr s' \<and> tw_ticks (il_wheel s') = Suc (tw_ticks (il_wheel s))"
    using idle_tick_effect [OF w] by auto
  fix i c
  show "\<exists>s'. idle_act E i a s = Inr s'" if "il_conns s i = Some c \<and> do_action E a (c\<lparr>cn_clock := il_now s\<rparr>) = Inr c'" for a c'
    using act_inv [OF inv] that by blast
  assume "il_conns s i = Some c \<and> cn_status c \<noteq> Disconnected \<and> \<not> isKeepAlive c"
  moreover from this have "conn_inv n s i c" using inv by (simp add: idle_inv_def)
  ultimately obtain L \<tau> where "due_inv n s i (cn_lastTimingWheelUpdate c) L \<tau>"
    by (auto simp: conn_inv_def isKeepAlive_def split: option.splits if_splits)
  then show "tw_ticks (il_wheel s) \<le> il_activeTick s i + n" by (rule due_bounds [OF _ w])
qed

text \<open>
  C16: active connections are not closed. When a tick of the wheel closes a connection, the connection was not told to be
  kept alive, at least \<open>n\<close> ticks have come since its last activity (and at most \<open>n + 1\<close>), and it has been silent for
  more than \<open>n - 1\<close> seconds: an activity within a second of the last insertion does not move the entry, which is why the
  \<open>n\<close> seconds of the documentation are not reached in full. Every other connection is left alone.
\<close>

theorem active_not_kicked_off:
  assumes "idle_run E n s" "n < 16777215" "il_lastTick s + 1000000 \<le> il_now s" "idle_tick s = Inr s'" "il_conns s i = Some c"
    "il_conns s' i = Some c'" "cn_status c' \<noteq> cn_status c"
  shows "\<not> isKeepAlive c \<and> cn_status c' = Disconnected \<and> il_activeTick s i + n \<le> tw_ticks (il_wheel s') \<and>
    tw_ticks (il_wheel s') \<le> il_activeTick s i + n + 1 \<and> il_active s i + (int n - 1) * 1000000 < il_now s"
proof -
  let ?T = "tw_ticks (il_wheel s)"
  have inv: "idle_inv n s" by (rule run_inv [OF assms(1,2)])
  then have w: "wheel_inv n s" and ci: "conn_inv n s i c" using assms(5) by (simp_all add: idle_inv_def)
  obtain v dropped where v: "tick (il_wheel s) = Inr (v, dropped)" "tw_ticks v = Suc ?T" "il_wheel s' = v"
    and cs: "il_conns s' i = (if i \<in> set dropped \<and> i \<notin> owners v then map_option kickoff_expired (il_conns s i) else il_conns s i)"
    using idle_tick_effect [OF w] assms(4) by auto
  have e: "i \<notin> owners v" "c' = kickoff_expired c" using cs assms(5-7) by (auto split: if_splits)
  have st: "cn_kickoffEntry c = Some True" "cn_status c' = Disconnected"
    using kickoff_status [of c] ci assms(7) e(2) by (auto simp: conn_inv_def split: if_splits)
  then obtain L \<tau> where d: "due_inv n s i (cn_lastTimingWheelUpdate c) L \<tau>" and idle: "cn_idleTimeout c = n"
    using ci by (auto simp: conn_inv_def)
  have T: "?T = L + n" using due_now(1) [OF d w v(1) e(1)] by simp
  have A: "L \<le> il_activeTick s i" "il_activeTick s i \<le> L + 1" "il_active s i < \<tau> + 1000000" using d by (simp_all add: due_inv_def)
  have n: "0 < n" using w by (simp add: wheel_inv_def)
  then have "\<tau> + int (n - 1) * 1000000 \<le> il_lastTick s" using d T by (auto simp: due_inv_def)
  with assms(3) A(3) n have "il_active s i + (int n - 1) * 1000000 < il_now s" by (simp add: of_nat_diff algebra_simps)
  with st A T v(2,3) n idle show ?thesis by (simp add: isKeepAlive_def)
qed

section \<open>A run with a timeout of two seconds\<close>

text \<open>A connection that sends a byte just before the first tick and another one within the next second.\<close>

abbreviation example_wheel_at :: "nat \<Rightarrow> nat entry list list \<Rightarrow> nat wheel" where
  "example_wheel_at t bs \<equiv> \<lparr>tw_wheels = [bs], tw_ticks = t, tw_wheelsNum = Suc 0, tw_buckets = 3, tw_fresh = 0\<rparr>"

definition quiet_conn :: "nat \<Rightarrow> int \<Rightarrow> 'e conn \<Rightarrow> bool" where
  "quiet_conn k upd c \<longleftrightarrow> cn_status c = Connected \<and> \<not> cn_writing c \<and> cn_writeBufferList c = [] \<and> cn_sendNum c = 0 \<and> cn_tls c = None \<and>
     cn_idleTimeout c = 2 \<and> cn_lastTimingWheelUpdate c = upd \<and> cn_kickoffEntry c = Some True \<and> cn_timingWheel c \<and>
     cn_kernel c = replicate k (WriteOk 1)"

lemma inserts_clock [simp]: "inserts (c\<lparr>cn_clock := t\<rparr>) = inserts c"
  by (simp add: inserts_def)

lemma quiet_send:
  assumes "quiet_conn (Suc k) upd c"
  shows "\<exists>c'. sendInLoop null_engine ''x'' (c\<lparr>cn_clock := t\<rparr>) = Inr c' \<and> quiet_conn k (if t < upd + 1000000 then upd else t) c' \<and>
    inserts c' = inserts c @ (if t < upd + 1000000 then [] else [2])"
  using assms
  by (auto simp: quiet_conn_def sendInLoop_def extendLife_def writeInLoop_def writeRaw_def k_write_def emit_def inserts_def Let_def)

lemma example_wheel_insert:
  "insertEntry 2 (Some (User 0)) (example_wheel_at t [b0, b1, b2]) = Inr (example_wheel_at t [b0, b1, List.insert (User 0) b2])"
  by (simp add: insertEntry_def insertEntryInloop_def insert_loop.simps wheel_put_def)

lemma example_wheel_new: "TimingWheel_new 2 3 = Some (Inr (example_wheel_at 0 [[], [], []]))"
  by (simp add: TimingWheel_new_def wheels_loop.simps numeral_3_eq_3)

lemma example_wheel_tick:
  "tick (example_wheel_at t [[], b1, b2]) = Inr (example_wheel_at (Suc t) [b1, b2, []], [])"
  by (simp add: tick_def tick_wheel_def Let_def)

lemma example_idle_run:
  "\<exists>s c. idle_run null_engine 2 s \<and> il_lastTick s + 1000000 \<le> il_now s \<and> il_conns s 0 = Some c \<and> quiet_conn 0 1000999999 c \<and>
     il_wheel s = example_wheel_at 2 [[User 0], [], []] \<and> il_now s = 1003000000 \<and> il_active s 0 = 1001999998"
proof -
  obtain b where b: "MsgBuffer_new kBufferDefaultLength = Inr b"
    using MsgBuffer_new_Inr [of kBufferDefaultLength] by simp
  obtain s0 where s0: "idle_start 2 1000000000 = Some (Inr (s0 :: unit idle_loop))" "il_wheel s0 = example_wheel_at 0 [[], [], []]"
      "il_next s0 = 0" "il_now s0 = 1000000000" "il_lastTick s0 = 1000000000"
    by (simp add: idle_start_def example_wheel_new)
  obtain s1 c1 where s1: "idle_accept null_engine 2 None [WriteOk 1, WriteOk 1] s0 = Inr s1" "il_wheel s1 = example_wheel_at 0 [[], [], [User 0]]"
      "il_now s1 = 1000000000" "il_lastTick s1 = 1000000000" "il_conns s1 0 = Some c1" "quiet_conn (Suc (Suc 0)) 0 c1"
    using s0 b by (simp add: idle_accept_def TcpConnection_new_def enableKickingOff_def wheel_inserts_def example_wheel_insert
        established_inLoop_def note_activity_def quiet_conn_def emit_def inserts_def Let_def)
  have r1: "idle_run null_engine 2 s1" using s0(1) s1(1) by (intro idle_run.accepts [OF idle_run.starts]) auto
  have r2: "idle_run null_engine 2 (s1\<lparr>il_now := 1000999999\<rparr>)" by (rule idle_run.passes [OF r1]) (simp add: s1)
  obtain c3 where c3: "sendInLoop null_engine ''x'' (c1\<lparr>cn_clock := 1000999999\<rparr>) = Inr c3" "quiet_conn 1 1000999999 c3" "inserts c3 = inserts c1 @ [2]"
    using quiet_send [of "Suc 0" 0 c1 1000999999] s1(6) by auto
  have "cn_status c1 = Connected" "cn_sendNum c1 = 0" using s1(6) by (simp_all add: quiet_conn_def)
  then obtain s3 where s3: "idle_act null_engine 0 (ActSend True ''x'') (s1\<lparr>il_now := 1000999999\<rparr>) = Inr s3"
      "il_wheel s3 = example_wheel_at 0 [[], [], [User 0]]" "il_now s3 = 1000999999" "il_lastTick s3 = 1000000000" "il_conns s3 0 = Some c3"
    using c3 s1 by (simp add: idle_act_def wheel_inserts_def example_wheel_insert send_data_def send_or_queue_def note_activity_def Let_def)
  have r3: "idle_run null_engine 2 (s3\<lparr>il_now := 1001000000\<rparr>)" by (rule idle_run.passes [OF idle_run.acts [OF r2 s3(1)]]) (simp add: s3)
  obtain s4 where s4: "idle_tick (s3\<lparr>il_now := 1001000000\<rparr>) = Inr s4" "il_wheel s4 = example_wheel_at 1 [[], [User 0], []]" "il_now s4 = 1001000000"
      "il_lastTick s4 = 1001000000" "il_conns s4 0 = Some c3"
    using s3 by (simp add: idle_tick_def example_wheel_tick)
  have r5: "idle_run null_engine 2 (s4\<lparr>il_now := 1001999998\<rparr>)"
    by (rule idle_run.passes [OF idle_run.ticks [OF r3 _ s4(1)]]) (simp_all add: s3 s4)
  obtain c5 where c5: "sendInLoop null_engine ''x'' (c3\<lparr>cn_clock := 1001999998\<rparr>) = Inr c5" "quiet_conn 0 1000999999 c5" "inserts c5 = inserts c3"
    using quiet_send [of 0 1000999999 c3 1001999998] c3(2) by auto
  have "cn_status c3 = Connected" "cn_sendNum c3 = 0" using c3(2) by (simp_all add: quiet_conn_def)
  then obtain s5 where s5: "idle_act null_engine 0 (ActSend True ''x'') (s4\<lparr>il_now := 1001999998\<rparr>) = Inr s5"
      "il_wheel s5 = example_wheel_at 1 [[], [User 0], []]" "il_now s5 = 1001999998" "il_lastTick s5 = 1001000000" "il_conns s5 0 = Some c5"
      "il_active s5 0 = 1001999998"
    using c5 s4 by (simp add: idle_act_def wheel_inserts_def send_data_def send_or_queue_def note_activity_def Let_def)
  have r6: "idle_run null_engine 2 (s5\<lparr>il_now := 1002000000\<rparr>)" by (rule idle_run.passes [OF idle_run.acts [OF r5 s5(1)]]) (simp add: s5)
  obtain s6 where s6: "idle_tick (s5\<lparr>il_now := 1002000000\<rparr>) = Inr s6" "il_wheel s6 = example_wheel_at 2 [[User 0], [], []]" "il_now s6 = 1002000000"
      "il_lastTick s6 = 1002000000" "il_conns s6 0 = Some c5" "il_active s6 0 = 1001999998"
    using s5 by (simp add: idle_tick_def example_wheel_tick)
  have "idle_run null_engine 2 (s6\<lparr>il_now := 1003000000\<rparr>)"
    by (rule idle_run.passes [OF idle_run.ticks [OF r6 _ s6(1)]]) (simp_all add: s5 s6)
  then show ?thesis by (rule exI [where x = "s6\<lparr>il_now := 1003000000\<rparr>", OF exI [where x = c5, OF conjI]]) (simp add: s6 c5)
qed

text \<open>The next tick closes the connection, 1.000002 seconds after the last byte was sent.\<close>

lemma example_idle_close:
  "\<exists>s s' c c'. idle_run null_engine 2 s \<and> il_lastTick s + 1000000 \<le> il_now s \<and> idle_tick s = Inr s' \<and> il_conns s 0 = Some c \<and>
     il_conns s' 0 = Some c' \<and> cn_status c = Connected \<and> cn_status c' = Disconnected \<and> il_now s = 1003000000 \<and> il_active s 0 = 1001999998"
proof -
  obtain s c where s: "idle_run null_engine 2 s" "il_lastTick s + 1000000 \<le> il_now s" "il_conns s 0 = Some c" "quiet_conn 0 1000999999 c"
      "il_wheel s = example_wheel_at 2 [[User 0], [], []]" "il_now s = 1003000000" "il_active s 0 = 1001999998"
    using example_idle_run by blast
  have "tick (il_wheel s) = Inr (example_wheel_at 3 [[], [], []], [0])" by (simp add: s(5) tick_def tick_wheel_def Let_def)
  then obtain s' where "idle_tick s = Inr s'" "il_conns s' 0 = Some (kickoff_expired c)"
    using s(3) by (simp add: idle_tick_def owners_def)
  moreover have "cn_status c = Connected" "cn_status (kickoff_expired c) = Disconnected"
    using s(4) kickoff_status [of c] by (auto simp: quiet_conn_def)
  ultimately show ?thesis using s by blast
qed

theorem kicked_off_early:
  "\<exists>s s' c c'. idle_run null_engine 2 s \<and> idle_tick s = Inr s' \<and> il_conns s 0 = Some c \<and> il_conns s' 0 = Some c' \<and>
     cn_status c = Connected \<and> cn_status c' = Disconnected \<and> il_now s - il_active s 0 = 1000002"
  using example_idle_close by fastforce

theorem idle_closed_in_time_witness:
  "\<exists>s c. idle_run null_engine 2 s \<and> il_conns s 0 = Some c \<and> cn_status c = Connected \<and> \<not> isKeepAlive c \<and>
     tw_ticks (il_wheel s) \<le> il_activeTick s 0 + 2 \<and> (\<exists>s'. idle_tick s = Inr s' \<and> tw_ticks (il_wheel s') = 3)"
proof -
  obtain s c where s: "idle_run null_engine 2 s" "il_conns s 0 = Some c" "quiet_conn 0 1000999999 c"
      "il_wheel s = example_wheel_at 2 [[User 0], [], []]" using example_idle_run by blast
  have "cn_status c = Connected" "\<not> isKeepAlive c" using s(3) by (simp_all add: quiet_conn_def isKeepAlive_def)
  with idle_closed_in_time [OF s(1)] s show ?thesis by (intro exI [of _ s] exI [of _ c]) auto
qed

theorem active_not_kicked_off_witness:
  "\<exists>s s' c c'. idle_run null_engine 2 s \<and> idle_tick s = Inr s' \<and> il_conns s 0 = Some c \<and> il_conns s' 0 = Some c' \<and>
     cn_status c = Connected \<and> cn_status c' = Disconnected \<and> il_activeTick s 0 + 2 \<le> tw_ticks (il_wheel s') \<and>
     il_active s 0 + (int 2 - 1) * 1000000 < il_now s"
proof -
  obtain s s' c c' where s: "idle_run null_engine 2 s" "il_lastTick s + 1000000 \<le> il_now s" "idle_tick s = Inr s'" "il_conns s 0 = Some c"
      "il_conns s' 0 = Some c'" "cn_status c = Connected" "cn_status c' = Disconnected"
    using example_idle_close by blast
  from active_not_kicked_off [OF s(1) _ s(2-5)] s(6,7)
  have "il_activeTick s 0 + 2 \<le> tw_ticks (il_wheel s')" "il_active s 0 + (int 2 - 1) * 1000000 < il_now s" by simp_all
  with s show ?thesis by blast
qed

end
