(* ===== verification/LoopEnd.thy ===== *)
theory LoopEnd
  imports EventLoop Poller
begin

text \<open>
  The end of an event loop: \<^verbatim>\<open>EventLoop::~EventLoop\<close>, the destructor of its timer queue, and the methods through which channels reach
  the poller of their loop (\<^verbatim>\<open>cooper/net/EventLoop.cpp\<close>, \<^verbatim>\<open>cooper/net/TimerQueue.cpp\<close>). Shown is what destroying a loop frees in
  its own thread, that destroying a running loop in its own thread never returns, and what is left behind when another thread destroys it.
\<close>

section \<open>State and operations\<close>

text \<open>A loop with its poller, the channel of its timer queue, the event descriptor and the descriptors closed so far.\<close>

record 'f loop_end =
  le_loop :: "'f eloop"
  le_poller :: "'f poller"
  le_timerChan :: nat
  le_wakeupFd :: int
  le_closed :: "int list"

text \<open>Methods of the loop for a channel \<open>c\<close> of this loop, called in thread \<open>me\<close>.\<close>

definition loop_updateChannel :: "nat \<Rightarrow> nat \<Rightarrow> 'f loop_end \<Rightarrow> 'f loop_end result" where
  "loop_updateChannel me c l =
     assertInLoopThread me (le_loop l) (bindR (updateChannel c (le_poller l)) (\<lambda>p. Inr (l\<lparr>le_poller := p\<rparr>)))"

definition loop_removeChannel :: "nat \<Rightarrow> nat \<Rightarrow> 'f loop_end \<Rightarrow> 'f loop_end result" where
  "loop_removeChannel me c l =
     assertInLoopThread me (le_loop l) (bindR (removeChannel c (le_poller l)) (\<lambda>p. Inr (l\<lparr>le_poller := p\<rparr>)))"

text \<open>The function object that the destructor of the timer queue runs in the loop.\<close>

definition timer_cleanup :: "nat \<Rightarrow> 'f loop_end \<Rightarrow> 'f loop_end result" where
  "timer_cleanup me l =
     (let c = le_timerChan l; none = l\<lparr>le_poller := set_chan c (\<lambda>ch. ch\<lparr>ch_events := kNoneEvent\<rparr>) (le_poller l)\<rparr> in
      bindR (loop_updateChannel me c none) (\<lambda>l.
      bindR (assertR (ch_events (chan_of (le_poller l) c) = kNoneEvent)
              (loop_removeChannel me c (l\<lparr>le_poller := set_chan c (\<lambda>ch. ch\<lparr>ch_addedToLoop := False\<rparr>) (le_poller l)\<rparr>))) (\<lambda>l.
      Inr (l\<lparr>le_closed := le_closed l @ [tq_fd (el_timerQueue (le_loop l))]\<rparr>))))"

text \<open>\<open>f\<close> is the function object when it is queued for the loop.\<close>

definition TimerQueue_delete :: "nat \<Rightarrow> 'f \<Rightarrow> 'f loop_end \<Rightarrow> 'f loop_end result" where
  "TimerQueue_delete me f l =
     (if isInLoopThread me (le_loop l) then timer_cleanup me l
      else bindR (queueInLoop me f (le_loop l)) (\<lambda>s. Inr (l\<lparr>le_loop := s\<rparr>)))"

text \<open>
  The destructor in thread \<open>me\<close>: it waits for the end of \<^verbatim>\<open>loop()\<close> in the thread of the loop (\<open>ended\<close> is the loop after that), in its own
  thread for ever; then the thread-local pointer of this thread is reset and the members are destroyed.
\<close>

definition EventLoop_delete ::
    "nat \<Rightarrow> ('f eloop \<Rightarrow> 'f eloop) \<Rightarrow> 'f \<Rightarrow> 'f loop_end \<Rightarrow> (nat \<Rightarrow> nat option) \<Rightarrow> ('f loop_end \<times> (nat \<Rightarrow> nat option)) result" where
  "EventLoop_delete me ended f l tls =
     (let s = EventLoop_quit me (le_loop l) in
      if el_looping s \<and> isInLoopThread me s then Inl Diverges
      else (let l = l\<lparr>le_loop := (if el_looping s then ended s else s), le_closed := le_closed l @ [le_wakeupFd l]\<rparr>
            in bindR (TimerQueue_delete me f l) (\<lambda>l. Inr (l, tls(me := None)))))"

section \<open>What the end leaves\<close>

text \<open>The channel of the timer queue is registered for reading, as its constructor leaves it.\<close>

definition timer_registered :: "'f loop_end \<Rightarrow> bool" where
  "timer_registered l \<longleftrightarrow>
     (let c = le_timerChan l; ch = chan_of (le_poller l) c in
      ch_index ch = kAdded \<and> ch_fd ch \<ge> 0 \<and> pl_channels (le_poller l) (ch_fd ch) = Some c)"

lemma timer_cleanup_ok:
  assumes "timer_registered l" "isInLoopThread me (le_loop l)"
  shows "\<exists>l'. timer_cleanup me l = Inr l' \<and> le_loop l' = le_loop l \<and>
    le_closed l' = le_closed l @ [tq_fd (el_timerQueue (le_loop l))] \<and>
    pl_channels (le_poller l') (ch_fd (chan_of (le_poller l) (le_timerChan l))) = None"
  using assms
  by (simp add: timer_registered_def timer_cleanup_def loop_updateChannel_def loop_removeChannel_def assertInLoopThread_def
      updateChannel_def removeChannel_def set_chan_def ctl_update_def isNoneEvent_def kAdded_def kDeleted_def kNew_def Let_def)

text \<open>A loop that is destroyed in its own thread after \<^verbatim>\<open>loop()\<close> has returned: both descriptors are closed, once, and no thread has a
  pointer to it any more.\<close>

lemma EventLoop_delete_own_thread:
  assumes "timer_registered l" "tls_ok self (le_loop l) tls" "el_threadId (le_loop l) = me" "\<not> el_looping (le_loop l)"
  shows "\<exists>l' tls'. EventLoop_delete me ended f l tls = Inr (l', tls') \<and>
    le_closed l' = le_closed l @ [le_wakeupFd l, tq_fd (el_timerQueue (le_loop l))] \<and>
    (\<forall>t. tls' t \<noteq> Some self) \<and> (\<forall>t. t \<noteq> me \<longrightarrow> tls' t = tls t)"
proof -
  let ?s = "EventLoop_quit me (le_loop l)"
  let ?l = "l\<lparr>le_loop := ?s, le_closed := le_closed l @ [le_wakeupFd l]\<rparr>"
  have s: "\<not> el_looping ?s" "isInLoopThread me ?s" "el_timerQueue ?s = el_timerQueue (le_loop l)"
    using assms(3,4) by (simp_all add: EventLoop_quit_def isInLoopThread_def Let_def)
  obtain l' where "timer_cleanup me ?l = Inr l'" "le_closed l' = le_closed ?l @ [tq_fd (el_timerQueue ?s)]"
    using timer_cleanup_ok [of ?l me] assms(1) s(2) by (auto simp: timer_registered_def)
  then show ?thesis
    using s assms(2,3) by (auto simp: EventLoop_delete_def TimerQueue_delete_def tls_ok_def Let_def)
qed

text \<open>In a function that runs in the loop, the destructor never returns.\<close>

lemma EventLoop_delete_running:
  assumes "el_looping (le_loop l)" "el_threadId (le_loop l) = me"
  shows "EventLoop_delete me ended f l tls = Inl Diverges"
  using assms by (simp add: EventLoop_delete_def EventLoop_quit_def isInLoopThread_def Let_def)

text \<open>Destroyed by another thread: the timer descriptor is not closed, the thread of the loop keeps a pointer to it, and the pointer of
  the other thread to a loop of its own is lost.\<close>

lemma EventLoop_delete_other_thread:
  assumes "tls_ok self (le_loop l) tls" "el_threadId (le_loop l) \<noteq> me" "\<not> el_looping (le_loop l)"
    "EventLoop_delete me ended f l tls = Inr (l', tls')"
  shows "le_closed l' = le_closed l @ [le_wakeupFd l]" "tls' (el_threadId (le_loop l)) = Some self" "tls' me = None"
    "le_poller l' = le_poller l"
  using assms
  by (auto simp: EventLoop_delete_def TimerQueue_delete_def EventLoop_quit_def isInLoopThread_def wakeup_def tls_ok_def bindR_eq_Inr Let_def)

end
