(* ===== verification/Sockets.thy ===== *)
theory Sockets
  imports InetAddress
begin

text \<open>
  \<^verbatim>\<open>cooper/net/Socket.*\<close>: the owner of a descriptor. A method is modelled by the system calls it makes, in their order, on a log;
  the answers of the kernel are arguments. The addresses of sockets, \<^verbatim>\<open>accept\<close> and \<^verbatim>\<open>bindAddress\<close> are in \<open>InetAddress\<close>. Shown is
  that a socket only ever works on its own descriptor and closes it exactly once, as its last call.
\<close>

datatype sock_opt = TCP_NODELAY | SO_REUSEADDR | SO_REUSEPORT | SO_KEEPALIVE

datatype sock_call =
    CallListen int nat
  | CallShutdownWr int
  | CallRead int nat
  | CallSetsockopt int sock_opt int
  | CallGetError int
  | CallConnect int "byte list" nat
  | CallClose int

record sock =
  so_fd :: int
  so_log :: "sock_call list"

definition log_call :: "sock_call \<Rightarrow> sock \<Rightarrow> sock" where
  "log_call k s = s\<lparr>so_log := so_log s @ [k]\<rparr>"

definition Socket_new :: "int \<Rightarrow> sock" where
  "Socket_new sockfd = \<lparr>so_fd = sockfd, so_log = []\<rparr>"

abbreviation SOMAXCONN :: nat where "SOMAXCONN \<equiv> 4096"

definition Socket_listen :: "int \<Rightarrow> sock \<Rightarrow> sock result" where
  "Socket_listen ret s =
     assertR (so_fd s > 0)
       (let s = log_call (CallListen (so_fd s) SOMAXCONN) s in if ret < 0 then Inl ProcessExit else Inr s)"

text \<open>A failing \<^verbatim>\<open>shutdown\<close> is only logged.\<close>

definition Socket_closeWrite :: "sock \<Rightarrow> sock" where
  "Socket_closeWrite s = log_call (CallShutdownWr (so_fd s)) s"

definition Socket_read :: "int \<Rightarrow> nat \<Rightarrow> sock \<Rightarrow> int \<times> sock" where
  "Socket_read ret len s = (ret, log_call (CallRead (so_fd s) len) s)"

definition optval :: "bool \<Rightarrow> int" where
  "optval on = (if on then 1 else 0)"

definition Socket_setTcpNoDelay :: "bool \<Rightarrow> sock \<Rightarrow> sock" where
  "Socket_setTcpNoDelay on s = log_call (CallSetsockopt (so_fd s) TCP_NODELAY (optval on)) s"

definition Socket_setReuseAddr :: "bool \<Rightarrow> sock \<Rightarrow> sock" where
  "Socket_setReuseAddr on s = log_call (CallSetsockopt (so_fd s) SO_REUSEADDR (optval on)) s"

definition Socket_setReusePort :: "bool \<Rightarrow> sock \<Rightarrow> sock" where
  "Socket_setReusePort on s = log_call (CallSetsockopt (so_fd s) SO_REUSEPORT (optval on)) s"

definition Socket_setKeepAlive :: "bool \<Rightarrow> sock \<Rightarrow> sock" where
  "Socket_setKeepAlive on s = log_call (CallSetsockopt (so_fd s) SO_KEEPALIVE (optval on)) s"

text \<open>\<open>ret\<close> and \<open>val\<close> are the answer of \<^verbatim>\<open>getsockopt\<close>, \<open>err\<close> is \<^verbatim>\<open>errno\<close> after a failure.\<close>

definition socket_error :: "int \<Rightarrow> int \<Rightarrow> int \<Rightarrow> int" where
  "socket_error ret val err = (if ret < 0 then err else val)"

definition Socket_getSocketError :: "int \<Rightarrow> int \<Rightarrow> int \<Rightarrow> sock \<Rightarrow> int \<times> sock" where
  "Socket_getSocketError ret val err s = (socket_error ret val err, log_call (CallGetError (so_fd s)) s)"

text \<open>The static \<^verbatim>\<open>connect\<close> hands the kernel as many bytes of the address as its family has.\<close>

definition Socket_connect :: "int \<Rightarrow> inet_address \<Rightarrow> sock_call" where
  "Socket_connect sockfd addr =
     (if ia_isIpV6 addr then CallConnect sockfd (take 28 (ia_union addr)) 28
      else CallConnect sockfd (take 16 (ia_union addr)) 16)"

definition Socket_delete :: "sock \<Rightarrow> sock" where
  "Socket_delete s = (if so_fd s \<ge> 0 then log_call (CallClose (so_fd s)) s else s)"

section \<open>The flags of a descriptor\<close>

text \<open>\<^verbatim>\<open>setNonBlockAndCloseOnExec\<close>: the status flags and the descriptor flags are read, changed and written back; no answer
  is checked. The results are the values given to \<^verbatim>\<open>F_SETFL\<close> and \<^verbatim>\<open>F_SETFD\<close>.\<close>

abbreviation O_NONBLOCK :: u32 where "O_NONBLOCK \<equiv> 0x800"
abbreviation FD_CLOEXEC :: u32 where "FD_CLOEXEC \<equiv> 1"

definition setNonBlockAndCloseOnExec :: "u32 \<Rightarrow> u32 \<Rightarrow> u32 \<times> u32" where
  "setNonBlockAndCloseOnExec getfl getfd = (or getfl O_NONBLOCK, or getfd FD_CLOEXEC)"

lemma nonblock_flags:
  assumes "setNonBlockAndCloseOnExec getfl getfd = (fl, fd)"
  shows "bit fl n \<longleftrightarrow> n = 11 \<or> bit getfl n" "bit fd n \<longleftrightarrow> n = 0 \<or> bit getfd n"
proof -
  have "bit ((2 :: u32) ^ 11) n \<longleftrightarrow> n = 11" unfolding bit_exp_iff by auto
  then have "bit O_NONBLOCK n \<longleftrightarrow> n = 11" by simp
  then show "bit fl n \<longleftrightarrow> n = 11 \<or> bit getfl n" using assms by (auto simp: setNonBlockAndCloseOnExec_def bit_or_iff)
  show "bit fd n \<longleftrightarrow> n = 0 \<or> bit getfd n" using assms by (auto simp: setNonBlockAndCloseOnExec_def bit_or_iff bit_1_iff)
qed

text \<open>After an error of \<^verbatim>\<open>fcntl\<close> all flags are set.\<close>

lemma nonblock_error: "setNonBlockAndCloseOnExec (-1) (-1) = (-1, -1)"
  by (simp add: setNonBlockAndCloseOnExec_def)

section \<open>The life of a socket\<close>

fun call_fd :: "sock_call \<Rightarrow> int" where
  "call_fd (CallListen fd n) = fd"
| "call_fd (CallShutdownWr fd) = fd"
| "call_fd (CallRead fd n) = fd"
| "call_fd (CallSetsockopt fd opt v) = fd"
| "call_fd (CallGetError fd) = fd"
| "call_fd (CallConnect fd a n) = fd"
| "call_fd (CallClose fd) = fd"

fun is_close :: "sock_call \<Rightarrow> bool" where
  "is_close (CallClose fd) = True"
| "is_close k = False"

inductive sock_step :: "sock \<Rightarrow> sock \<Rightarrow> bool" where
  "Socket_listen ret s = Inr s' \<Longrightarrow> sock_step s s'"
| "sock_step s (Socket_closeWrite s)"
| "sock_step s (snd (Socket_read ret len s))"
| "sock_step s (Socket_setTcpNoDelay on s)"
| "sock_step s (Socket_setReuseAddr on s)"
| "sock_step s (Socket_setReusePort on s)"
| "sock_step s (Socket_setKeepAlive on s)"
| "sock_step s (snd (Socket_getSocketError ret val err s))"

lemmas sock_defs = Socket_listen_def Socket_closeWrite_def Socket_read_def Socket_setTcpNoDelay_def Socket_setReuseAddr_def
  Socket_setReusePort_def Socket_setKeepAlive_def Socket_getSocketError_def log_call_def

lemma sock_step_call:
  "sock_step s s' \<Longrightarrow> \<exists>k. s' = log_call k s \<and> call_fd k = so_fd s \<and> \<not> is_close k"
  by (induction rule: sock_step.induct) (auto simp: sock_defs assertR_eq_Inr Let_def split: if_splits)

lemma socket_owns_descriptor:
  assumes "sock_step\<^sup>*\<^sup>* (Socket_new fd) s" "0 \<le> fd"
  shows "\<exists>ks. so_log (Socket_delete s) = ks @ [CallClose fd] \<and> (\<forall>k \<in> set ks. call_fd k = fd \<and> \<not> is_close k)"
proof -
  have "so_fd s = fd \<and> (\<forall>k \<in> set (so_log s). call_fd k = fd \<and> \<not> is_close k)"
    using assms(1)
  proof (induction rule: rtranclp_induct)
    case base
    then show ?case by (simp add: Socket_new_def)
  next
    case (step s s')
    from sock_step_call [OF step.hyps(2)] step.IH show ?case by (auto simp: log_call_def)
  qed
  with assms(2) show ?thesis by (simp add: Socket_delete_def log_call_def)
qed

end
