(* ===== verification/OpenSSLUtil.thy ===== *)
theory OpenSSLUtil
  imports Cooper_Prelude
begin

text \<open>
  The uses of OpenSSL outside of connections: the texts of a certificate (\<^verbatim>\<open>OpenSSLCertificate\<close> in
  \<^verbatim>\<open>cooper/net/OpenSSLProvider.cpp\<close>) and random bytes (\<^verbatim>\<open>secureRandomBytes\<close> in \<^verbatim>\<open>cooper/util/Utilities.cpp\<close>). What OpenSSL
  answers is an argument. A fingerprint is written into its string cell by cell, with the terminators of
  \<^verbatim>\<open>snprintf\<close>; shown is that no write leaves the string, and that the text determines the digest.
\<close>

section \<open>Fingerprints\<close>

text \<open>\<^verbatim>\<open>snprintf(p, 4, "%02X:", c)\<close> writes four characters, the last of them the terminator.\<close>

definition hex_char :: "nat \<Rightarrow> char" where
  "hex_char d = ''0123456789ABCDEF'' ! d"

definition hex_cell :: "byte \<Rightarrow> byte list" where
  "hex_cell c = [hex_char (of_char c div 16), hex_char (of_char c mod 16), CHR '':'', CHR 0x00]"

text \<open>The loop over the digest; the storage of the string has the character behind its end, which is a terminator.\<close>

definition fingerprint_loop :: "byte list \<Rightarrow> byte list \<Rightarrow> byte list result" where
  "fingerprint_loop md str = foldR (\<lambda>str i. mem_write str (i * 3) (hex_cell (md ! i))) str [0 ..< length md]"

text \<open>\<open>digest\<close> is what \<^verbatim>\<open>X509_digest\<close> gives, \<open>None\<close> for an error. Shortening an empty string asks for the largest size.\<close>

definition fingerprint :: "byte list option \<Rightarrow> string result" where
  "fingerprint digest =
     (case digest of
        None \<Rightarrow> Inr []
      | Some md \<Rightarrow>
          bindR (fingerprint_loop md (replicate (length md * 3 + 1) (CHR 0x00))) (\<lambda>str.
          if length md = 0 then Inl LengthError else Inr (take (length md * 3 - 1) str)))"

definition sha1Fingerprint :: "(byte list \<Rightarrow> byte list option) \<Rightarrow> byte list \<Rightarrow> string result" where
  "sha1Fingerprint sha1 cert = fingerprint (sha1 cert)"

definition sha256Fingerprint :: "(byte list \<Rightarrow> byte list option) \<Rightarrow> byte list \<Rightarrow> string result" where
  "sha256Fingerprint sha256 cert = fingerprint (sha256 cert)"

text \<open>\<open>bio\<close> is what the memory BIO holds after \<^verbatim>\<open>PEM_write_bio_X509\<close>, \<open>None\<close> when there is no BIO.\<close>

definition pem :: "byte list option \<Rightarrow> string" where
  "pem bio = (case bio of None \<Rightarrow> [] | Some data \<Rightarrow> if length data > 0 then data else [])"

text \<open>What a fingerprint should be: two digits for each byte, with colons between them.\<close>

fun fingerprint_text :: "byte list \<Rightarrow> string" where
  "fingerprint_text [] = []"
| "fingerprint_text [c] = take 2 (hex_cell c)"
| "fingerprint_text (c # d # cs) = take 3 (hex_cell c) @ fingerprint_text (d # cs)"

definition hex_value :: "char \<Rightarrow> nat" where
  "hex_value c = (if of_char c < (58 :: nat) then of_char c - 48 else of_char c - 55)"

fun parse_fingerprint :: "string \<Rightarrow> byte list" where
  "parse_fingerprint (h # l # cs) = char_of (hex_value h * 16 + hex_value l) # parse_fingerprint (drop 1 cs)"
| "parse_fingerprint cs = []"

lemma hex_value_char [simp]: "d < 16 \<Longrightarrow> hex_value (hex_char d) = d"
proof -
  assume "d < 16"
  then have "d \<in> set [0 ..< 16]" by simp
  moreover have "\<forall>d \<in> set [0 ..< 16]. hex_value (hex_char d) = d" by code_simp
  ultimately show ?thesis by blast
qed

lemma length_hex_cell [simp]: "length (hex_cell c) = 4"
  by (simp add: hex_cell_def)

text \<open>The storage after \<open>k\<close> iterations: the cells of \<open>k\<close> bytes, with one terminator, and zeros.\<close>

definition cells :: "byte list \<Rightarrow> byte list" where
  "cells md = concat (map (\<lambda>c. take 3 (hex_cell c)) md)"

lemma length_cells [simp]: "length (cells md) = 3 * length md"
  by (induction md) (simp_all add: cells_def)

lemma take_hex_cell: "hex_cell c = take 3 (hex_cell c) @ [CHR 0x00]"
  by (simp add: hex_cell_def)

lemma fingerprint_loop_prefix:
  assumes "k \<le> length md"
  shows "foldR (\<lambda>str i. mem_write str (i * 3) (hex_cell (md ! i))) (replicate (length md * 3 + 1) (CHR 0x00)) [0 ..< k] =
    Inr (cells (take k md) @ replicate ((length md - k) * 3 + 1) (CHR 0x00))"
  using assms
proof (induction k)
  case 0
  then show ?case by (simp add: cells_def)
next
  case (Suc k)
  let ?z = "CHR 0x00"
  define rest where "rest = (length md - Suc k) * 3"
  have k: "k < length md" using Suc.prems by simp
  then have r: "(length md - k) * 3 + 1 = 3 + Suc rest" by (simp add: rest_def)
  have zeros: "replicate ((length md - k) * 3 + 1) ?z = replicate 3 ?z @ ?z # replicate rest ?z"
    unfolding r by (simp only: replicate_add replicate_Suc)
  have len: "length (cells (take k md)) = k * 3" using k by simp
  have c: "cells (take (Suc k) md) = cells (take k md) @ take 3 (hex_cell (md ! k))"
    using k by (simp add: cells_def take_Suc_conv_app_nth)
  have "mem_write (cells (take k md) @ replicate 3 ?z @ ?z # replicate rest ?z) (k * 3) (hex_cell (md ! k)) =
      Inr (cells (take k md) @ hex_cell (md ! k) @ replicate rest ?z)"
    using len by (subst mem_write_Inr) simp_all
  also have "cells (take k md) @ hex_cell (md ! k) @ replicate rest ?z = cells (take (Suc k) md) @ replicate (rest + 1) ?z"
    unfolding c by (subst take_hex_cell) simp
  finally show ?case using Suc.IH k zeros by (simp add: foldR_append rest_def)
qed

lemma cells_text: "md \<noteq> [] \<Longrightarrow> take (3 * length md - 1) (cells md) = fingerprint_text md"
proof (induction md rule: fingerprint_text.induct)
  case (3 c d cs)
  have "cells (c # d # cs) = take 3 (hex_cell c) @ cells (d # cs)" by (simp add: cells_def)
  moreover have "3 * length (c # d # cs) - 1 = Suc (Suc (Suc (3 * length (d # cs) - 1)))" by simp
  ultimately show ?case using 3 by (simp only: take_Suc_Cons) (simp add: hex_cell_def)
qed (simp_all add: cells_def hex_cell_def)

lemma fingerprint_Some: "md \<noteq> [] \<Longrightarrow> fingerprint (Some md) = Inr (fingerprint_text md)"
  using fingerprint_loop_prefix [of "length md" md] cells_text [of md]
  by (simp add: fingerprint_def fingerprint_loop_def mult.commute)

lemma parse_fingerprint_text: "parse_fingerprint (fingerprint_text md) = md"
proof (induction md rule: fingerprint_text.induct)
  case (3 c d cs)
  have "of_char c div 16 < (16 :: nat)" by (simp add: less_mult_imp_div_less)
  with 3 show ?case by (simp add: hex_cell_def)
next
  case (2 c)
  have "of_char c div 16 < (16 :: nat)" by (simp add: less_mult_imp_div_less)
  then show ?case by (simp add: hex_cell_def)
qed simp

text \<open>
  The fingerprint of a certificate is written without leaving its string, is the digits of the digest with colons
  between the bytes, and determines the digest.
\<close>

lemma fingerprint_roundtrip:
  assumes "sha256 cert = Some md" "md \<noteq> []"
  shows "\<exists>str. sha256Fingerprint sha256 cert = Inr str \<and> length str = 3 * length md - 1 \<and> parse_fingerprint str = md"
proof -
  have "length (fingerprint_text md) = 3 * length md - 1"
    using arg_cong [OF cells_text [OF assms(2)], of length] by simp
  then show ?thesis using assms by (simp add: sha256Fingerprint_def fingerprint_Some parse_fingerprint_text)
qed

section \<open>Random bytes\<close>

text \<open>
  \<^verbatim>\<open>RAND_bytes\<close> takes an \<^verbatim>\<open>int\<close>, so the memory is filled in pieces. \<open>rand\<close> answers a request of a number of bytes: its
  return value (1 for success, 0 or -1 for a failure) and the bytes it has written. The loop starts at \<open>i\<close>.
\<close>

function random_loop :: "(nat \<Rightarrow> nat \<Rightarrow> int \<times> byte list) \<Rightarrow> nat \<Rightarrow> nat \<Rightarrow> byte list \<Rightarrow> (bool \<times> byte list) result" where
  "random_loop rand len i m =
     (if i < len
      then (let fillSize = min (len - i) 2147483647; (ret, bytes) = rand i fillSize in
            bindR (mem_write m i (take fillSize bytes)) (\<lambda>m.
            if ret = 0 then Inr (False, m) else random_loop rand len (i + 2147483647) m))
      else Inr (True, m))"
  by pat_completeness auto
termination by (relation "measure (\<lambda>(rand, len, i, m). len - i)") auto

declare random_loop.simps [simp del]

definition secureRandomBytes :: "(nat \<Rightarrow> nat \<Rightarrow> int \<times> byte list) \<Rightarrow> nat \<Rightarrow> byte list \<Rightarrow> (bool \<times> byte list) result" where
  "secureRandomBytes rand len m = random_loop rand len 0 m"

definition tlsBackend :: string where
  "tlsBackend = ''openssl''"

text \<open>With a generator that fills what it is asked for, all of the memory is filled, piece by piece.\<close>

fun random_pieces :: "nat \<Rightarrow> nat \<Rightarrow> (nat \<times> nat) list" where
  "random_pieces i n = (if n = 0 then [] else (i, min n 2147483647) # random_pieces (i + 2147483647) (n - 2147483647))"

declare random_pieces.simps [simp del]

lemma random_loop_fills:
  assumes "\<And>i n. 0 < n \<Longrightarrow> n \<le> 2147483647 \<Longrightarrow> fst (rand i n) = 1 \<and> length (snd (rand i n)) = n" "len \<le> length m"
  shows "random_loop rand len i m =
    Inr (True, take i m @ concat (map (\<lambda>(j, n). snd (rand j n)) (random_pieces i (len - i))) @ drop (i + (len - i)) m)"
  using assms(2)
proof (induction "len - i" arbitrary: i m rule: less_induct)
  case less
  show ?case
  proof (cases "i < len")
    case False
    then show ?thesis by (simp add: random_loop.simps random_pieces.simps)
  next
    case True
    define n where "n = min (len - i) 2147483647"
    define bytes where "bytes = snd (rand i n)"
    have n: "0 < n" "n \<le> 2147483647" "n \<le> len - i" using True by (simp_all add: n_def)
    have r: "rand i n = (1, bytes)" "length bytes = n" using assms(1) [OF n(1,2), of i] by (auto simp: bytes_def prod_eq_iff)
    let ?m = "take i m @ bytes @ drop (i + n) m"
    have w: "mem_write m i bytes = Inr ?m" using r(2) n less.prems by (simp add: mem_write_Inr)
    have "random_loop rand len i m = random_loop rand len (i + 2147483647) ?m"
      using True r w by (subst random_loop.simps) (simp add: n_def [symmetric])
    also have "\<dots> = Inr (True, take (i + 2147483647) ?m @
        concat (map (\<lambda>(j, n). snd (rand j n)) (random_pieces (i + 2147483647) (len - (i + 2147483647)))) @
        drop (i + 2147483647 + (len - (i + 2147483647))) ?m)"
      using True n r(2) less.prems by (intro less.hyps) simp_all
    also have "\<dots> = Inr (True, take i m @ concat (map (\<lambda>(j, n). snd (rand j n)) (random_pieces i (len - i))) @ drop (i + (len - i)) m)"
    proof (cases "len - i \<le> 2147483647")
      case last: True
      then have "n = len - i" by (simp add: n_def)
      moreover have "random_pieces (i + 2147483647) (len - (i + 2147483647)) = []" using last by (simp add: random_pieces.simps)
      moreover have "random_pieces i (len - i) = [(i, n)]"
        using last True by (subst random_pieces.simps) (simp add: n_def random_pieces.simps)
      moreover have "take (2147483647 + i - len) (drop len m) @ drop (2147483647 + i) m = drop len m"
        using append_take_drop_id [of "2147483647 + i - len" "drop len m"] last by simp
      ultimately show ?thesis using r(2) last True less.prems by (simp add: bytes_def)
    next
      case more: False
      then have "n = 2147483647" by (simp add: n_def)
      moreover have "random_pieces i (len - i) = (i, n) # random_pieces (i + 2147483647) (len - (i + 2147483647))"
        using more by (subst random_pieces.simps) (simp add: n_def)
      ultimately show ?thesis using r(2) more less.prems by (simp add: bytes_def min_def)
    qed
    finally show ?thesis .
  qed
qed

text \<open>A generator that reports an error by -1 is not noticed.\<close>

lemma random_error_ignored: "secureRandomBytes (\<lambda>i n. (-1, [])) 8 m = Inr (True, m)"
  by (simp add: secureRandomBytes_def random_loop.simps mem_write_def)

end
