(* ===== verification/ConnInterface.thy ===== *)
theory ConnInterface
  imports TcpConnection
begin

text \<open>
  The rest of the interface of a connection (\<^verbatim>\<open>cooper/net/TcpConnection.hpp\<close>, \<^verbatim>\<open>cooper/net/TcpConnectionImpl.hpp\<close>): its context, its callbacks, what it
  tells about itself, the deprecated way to start TLS, the functions the TLS provider calls back, and the default callbacks of
  \<^verbatim>\<open>cooper/net/TcpClient.cpp\<close>.
\<close>

section \<open>Contexts\<close>

text \<open>The member \<^verbatim>\<open>contextPtr_\<close>, a pointer to anything.\<close>

definition setContext :: "'x option \<Rightarrow> 'x option \<Rightarrow> 'x option" where
  "setContext context contextPtr = context"

definition getContext :: "'x option \<Rightarrow> 'x option" where
  "getContext contextPtr = contextPtr"

definition hasContext :: "'x option \<Rightarrow> bool" where
  "hasContext contextPtr = (contextPtr \<noteq> None)"

definition clearContext :: "'x option \<Rightarrow> 'x option" where
  "clearContext contextPtr = None"

section \<open>Callbacks\<close>

text \<open>Only whether a callback is set matters for the model of a connection.\<close>

definition setRecvMsgCallback :: "bool \<Rightarrow> 'e conn \<Rightarrow> 'e conn" where
  "setRecvMsgCallback cb c = c\<lparr>cn_recvMsgCallback := cb\<rparr>"

definition setConnectionCallback :: "bool \<Rightarrow> 'e conn \<Rightarrow> 'e conn" where
  "setConnectionCallback cb c = c\<lparr>cn_connectionCallback := cb\<rparr>"

definition setWriteCompleteCallback :: "bool \<Rightarrow> 'e conn \<Rightarrow> 'e conn" where
  "setWriteCompleteCallback cb c = c\<lparr>cn_writeCompleteCallback := cb\<rparr>"

definition setCloseCallback :: "bool \<Rightarrow> 'e conn \<Rightarrow> 'e conn" where
  "setCloseCallback cb c = c\<lparr>cn_closeCallback := cb\<rparr>"

definition setSSLErrorCallback :: "bool \<Rightarrow> 'e conn \<Rightarrow> 'e conn" where
  "setSSLErrorCallback cb c = c\<lparr>cn_sslErrorCallback := cb\<rparr>"

section \<open>What a connection tells about itself\<close>

definition bytesSent :: "'e conn \<Rightarrow> nat" where
  "bytesSent c = cn_bytesSent c"

definition bytesReceived :: "'e conn \<Rightarrow> nat" where
  "bytesReceived c = cn_bytesReceived c"

definition isSSLConnection :: "'e conn \<Rightarrow> bool" where
  "isSSLConnection c = (cn_tls c \<noteq> None)"

definition getRecvBuffer :: "'e conn \<Rightarrow> msgbuf" where
  "getRecvBuffer c = (case cn_tls c of Some t \<Rightarrow> tl_recvBuffer t | None \<Rightarrow> cn_readBuffer c)"

definition applicationProtocol :: "'e conn \<Rightarrow> string" where
  "applicationProtocol c = (case cn_tls c of Some t \<Rightarrow> tl_applicationProtocol t | None \<Rightarrow> [])"

definition peerCertificate :: "'e conn \<Rightarrow> certificate option" where
  "peerCertificate c = (case cn_tls c of Some t \<Rightarrow> tl_peerCertificate t | None \<Rightarrow> None)"

definition sniName :: "'e conn \<Rightarrow> string" where
  "sniName c = (case cn_tls c of Some t \<Rightarrow> tl_sniName t | None \<Rightarrow> [])"

section \<open>Starting TLS the old way\<close>

definition client_policy :: "bool \<Rightarrow> bool \<Rightarrow> string \<Rightarrow> (string \<times> string) list \<Rightarrow> tls_policy" where
  "client_policy useOldTLS validateCert hostname sslConfCmds =
     setConfCmds sslConfCmds (setHostname hostname (setValidate validateCert (setUseOldTLS useOldTLS (defaultClientPolicy []))))"

definition startClientEncryption ::
    "'e ssl_engine \<Rightarrow> 'e \<Rightarrow> bool \<Rightarrow> bool \<Rightarrow> bool \<Rightarrow> string \<Rightarrow> (string \<times> string) list \<Rightarrow> 'e conn \<Rightarrow> 'e conn result" where
  "startClientEncryption E ssl callback useOldTLS validateCert hostname sslConfCmds c =
     startEncryption E (client_policy useOldTLS validateCert hostname sslConfCmds) False ssl callback c"

section \<open>Called back by the TLS provider and by default\<close>

definition onSslWrite :: "byte list \<Rightarrow> 'e conn \<Rightarrow> int \<times> 'e conn" where
  "onSslWrite d c = writeRaw d c"

definition onSslCloseAlert :: "'e ssl_engine \<Rightarrow> bool \<Rightarrow> 'e conn \<Rightarrow> 'e conn result" where
  "onSslCloseAlert E inLoop c = shutdown E inLoop c"

definition defaultMessageCallback :: "msgbuf \<Rightarrow> msgbuf result" where
  "defaultMessageCallback buf = retrieveAll buf"

section \<open>Facts\<close>

text \<open>The context is what was set last.\<close>

lemma context_set: "getContext (setContext x c) = x" "hasContext (setContext (Some y) c)" "\<not> hasContext (clearContext c)"
  by (simp_all add: getContext_def setContext_def hasContext_def clearContext_def)

text \<open>The old way asks for the certificate unless told otherwise, against the given name, and never for the broken chain.\<close>

lemma client_policy_validates:
  "pl_validate (client_policy old v host cmds) = v" "pl_hostname (client_policy old v host cmds) = host"
  "\<not> pl_allowBrokenChain (client_policy old v host cmds)" "pl_useOldTLS (client_policy old v host cmds) = old"
  "pl_confCmds (client_policy old v host cmds) = cmds"
  by (simp_all add: client_policy_def defaultClientPolicy_def TLSPolicy_new_def setConfCmds_def setHostname_def setValidate_def
      setUseOldTLS_def setUseSystemCertStore_def)

text \<open>The application of a TLS connection sees the decrypted data, that of a plain one what was read.\<close>

lemma getRecvBuffer_plain: "\<not> isSSLConnection c \<Longrightarrow> getRecvBuffer c = cn_readBuffer c"
  by (simp add: isSSLConnection_def getRecvBuffer_def)

text \<open>A message nobody handles is thrown away.\<close>

lemma defaultMessageCallback_empties: "defaultMessageCallback b = Inr b' \<Longrightarrow> readableBytes b' = 0"
  by (auto simp: defaultMessageCallback_def retrieveAll_def bindR_eq_Inr readableBytes_def Let_def split: if_splits)

text \<open>Reading on a plain connection counts what it delivers.\<close>

lemma bytesReceived_counts:
  assumes "readCallback fuel E r c = Inr c'" "\<not> isSSLConnection c" "readFd (cn_readBuffer c) r = Inr (n, err, b)" "0 < n"
  shows "bytesReceived c' = szadd (bytesReceived c) (nat n) \<and> getRecvBuffer c' = b"
proof -
  have ext: "cn_tls (extendLife d) = cn_tls d" "cn_readBuffer (extendLife d) = cn_readBuffer d"
    "cn_bytesReceived (extendLife d) = cn_bytesReceived d" for d :: "'a conn"
    by (simp_all add: extendLife_def emit_def Let_def)
  have "c' = extendLife (c\<lparr>cn_readBuffer := b\<rparr>)\<lparr>cn_bytesReceived := szadd (cn_bytesReceived c) (nat n)\<rparr> \<or>
      c' = emit RecvMsgCb (extendLife (c\<lparr>cn_readBuffer := b\<rparr>)\<lparr>cn_bytesReceived := szadd (cn_bytesReceived c) (nat n)\<rparr>)"
    using assms by (auto simp: readCallback_def isSSLConnection_def ext Let_def split: if_splits)
  then show ?thesis using assms(2) by (auto simp: emit_def bytesReceived_def isSSLConnection_def getRecvBuffer_def ext)
qed

end
