(* ===== verification/AppLife.thy ===== *)
theory AppLife
  imports TcpServer EventLoopThread TimingWheel
begin

text \<open>
  The life of the server for application packets (\<^verbatim>\<open>AppTcpServer\<close> in \<^verbatim>\<open>cooper/net/AppTcpServer.*\<close>): the thread of its loop, its TCP server
  and the timing wheels of the I/O loops. \<^verbatim>\<open>start\<close> gives every I/O loop a wheel before the TCP server listens, so that every connection finds
  one; \<^verbatim>\<open>stop\<close> takes the wheels away before it stops the TCP server.
\<close>

record 'c app_server =
  as_pingPong :: bool
  as_pingPongInterval :: nat
  as_thread :: elt
  as_server :: "'c tcp_server"
  as_wheels :: "nat \<Rightarrow> nat wheel option"

text \<open>\<open>t\<close> is the thread when \<^verbatim>\<open>run\<close> has returned.\<close>

definition AppTcpServer_ctor :: "elt \<Rightarrow> acceptor \<Rightarrow> bool \<Rightarrow> nat \<Rightarrow> 'c app_server" where
  "AppTcpServer_ctor t ac pingPong interval =
     \<lparr>as_pingPong = pingPong, as_pingPongInterval = interval, as_thread = t, as_server = TcpServer_new ac, as_wheels = \<lambda>_. None\<rparr>"

text \<open>The wheels of the I/O loops, in the thread of the caller.\<close>

definition make_wheel :: "nat \<Rightarrow> (nat \<Rightarrow> nat wheel option) \<Rightarrow> nat \<Rightarrow> (nat \<Rightarrow> nat wheel option) result" where
  "make_wheel interval m l =
     (case TimingWheel_new interval (if interval < 500 then interval + 1 else 100) of
        None \<Rightarrow> Inl Diverges
      | Some r \<Rightarrow> bindR r (\<lambda>w. Inr (m(l \<mapsto> w))))"

definition app_server_start :: "loop_pool \<Rightarrow> 'c app_server \<Rightarrow> 'c app_server result" where
  "app_server_start pool s =
     bindR (setIoLoopNum pool (as_server s)) (\<lambda>t.
     bindR (if as_pingPong s then foldR (make_wheel (as_pingPongInterval s)) (as_wheels s) (ts_ioLoops t) else Inr (as_wheels s)) (\<lambda>m.
       case Option.bind (queue_fun False (as_thread s)) wait_call of
         None \<Rightarrow> Inl NullCall
       | Some e \<Rightarrow> Inr (s\<lparr>as_server := t, as_wheels := m, as_thread := e\<rparr>)))"

text \<open>The function that starts the TCP server, in the loop.\<close>

definition app_start_in_loop :: "bool \<Rightarrow> 'c app_server \<Rightarrow> 'c app_server result" where
  "app_start_in_loop listenOk s = bindR (server_start listenOk (as_server s)) (\<lambda>t. Inr (s\<lparr>as_server := t\<rparr>))"

text \<open>\<^verbatim>\<open>stop\<close>: the wheels one after the other, each in its loop, then the TCP server.\<close>

definition app_stop_wheels :: "'c app_server \<Rightarrow> 'c app_server" where
  "app_stop_wheels s = s\<lparr>as_wheels := \<lambda>_. None\<rparr>"

definition app_server_stop :: "('c \<Rightarrow> nat) \<Rightarrow> (bool \<Rightarrow> 'c \<Rightarrow> 'c) \<Rightarrow> bool \<Rightarrow> 'c app_server \<Rightarrow> 'c app_server result" where
  "app_server_stop closes close lastOwner s =
     (let s = app_stop_wheels s in
      bindR (server_stop closes close (as_server s)) (\<lambda>t. bindR (server_stop_end lastOwner t) (\<lambda>t. Inr (s\<lparr>as_server := t\<rparr>))))"

text \<open>The beginning of the connection callback for a new connection of loop \<open>l\<close>: the wheel of its loop.\<close>

definition app_wheel_of :: "nat \<Rightarrow> 'c app_server \<Rightarrow> nat wheel option result" where
  "app_wheel_of l s =
     (if as_pingPong s then (case as_wheels s l of None \<Rightarrow> Inl NullCall | Some w \<Rightarrow> Inr (Some w)) else Inr None)"

section \<open>Every connection finds a wheel\<close>

lemma make_wheels:
  assumes "1 < interval" "interval < 16777216"
  shows "\<exists>w m'. TimingWheel_new interval (if interval < 500 then interval + 1 else 100) = Some (Inr w) \<and> wheel_ok w \<and> sched w = {} \<and>
    foldR (make_wheel interval) m ls = Inr m' \<and> (\<forall>l. m' l = (if l \<in> set ls then Some w else m l))"
proof -
  let ?B = "if interval < 500 then interval + 1 else 100 :: nat"
  have B: "1 < ?B" "?B \<le> 4294967296" using assms by simp_all
  obtain w :: "nat wheel" where w: "TimingWheel_new interval ?B = Some (Inr w)" "wheel_ok w" "sched w = {}"
    using TimingWheel_new_ok [OF assms B] by blast
  have "\<exists>m'. foldR (make_wheel interval) m ls = Inr m' \<and> (\<forall>l. m' l = (if l \<in> set ls then Some w else m l))"
  proof (induction ls arbitrary: m)
    case (Cons l ls)
    have "make_wheel interval m l = Inr (m(l \<mapsto> w))" using w(1) by (simp add: make_wheel_def)
    moreover obtain m' where "foldR (make_wheel interval) (m(l \<mapsto> w)) ls = Inr m'"
      "\<And>k. m' k = (if k \<in> set ls then Some w else (m(l \<mapsto> w)) k)"
      using Cons.IH [of "m(l \<mapsto> w)"] by blast
    ultimately show ?case by (intro exI [of _ m']) auto
  qed simp
  with w show ?thesis by blast
qed

text \<open>
  A server with ping-pong that has started: whichever loop a connection is given to, the connection callback finds an empty,
  well-formed wheel there.
\<close>

lemma app_start_ready:
  assumes "1 < interval" "interval < 16777216" "app_server_start pool (AppTcpServer_ctor t ac True interval) = Inr s"
    "app_start_in_loop listenOk s = Inr s'" "pick_loop (as_server s') = Inr (l, t')"
  shows "\<exists>w. app_wheel_of l s' = Inr (Some w) \<and> wheel_ok w \<and> sched w = {}"
proof -
  let ?s = "AppTcpServer_ctor t ac True interval"
  obtain u m where u: "setIoLoopNum pool (as_server ?s) = Inr u" "foldR (make_wheel interval) (\<lambda>_. None) (ts_ioLoops u) = Inr m"
    "as_server s = u" "as_wheels s = m" "as_pingPong s"
    using assms(3) by (auto simp: app_server_start_def AppTcpServer_ctor_def bindR_eq_Inr split: option.splits)
  obtain w where w: "wheel_ok w" "sched w = {}" "\<And>l. m l = (if l \<in> set (ts_ioLoops u) then Some w else None)"
    using make_wheels [OF assms(1,2), of "\<lambda>_. None" "ts_ioLoops u"] u(2) by auto
  have s': "as_wheels s' = m" "as_pingPong s'" "ts_ioLoops (as_server s') = ts_ioLoops u"
    using assms(4) u by (auto simp: app_start_in_loop_def server_start_def bindR_eq_Inr assertR_eq_Inr Let_def split: option.splits)
  have "l \<in> set (ts_ioLoops (as_server s'))" using assms(5) by (auto simp: pick_loop_def Let_def split: if_splits)
  with w s' show ?thesis by (simp add: app_wheel_of_def)
qed

text \<open>Between the two parts of \<^verbatim>\<open>stop\<close> the TCP server still accepts: the callback of such a connection uses a null pointer.\<close>

lemma app_stop_window:
  assumes "as_pingPong s" "pick_loop (as_server s) = Inr (l, t)"
  shows "pick_loop (as_server (app_stop_wheels s)) = Inr (l, t)" "app_wheel_of l (app_stop_wheels s) = Inl NullCall"
  using assms by (simp_all add: app_stop_wheels_def app_wheel_of_def)

text \<open>\<^verbatim>\<open>stop\<close> does not touch the loop: as long as nobody else makes it quit, \<^verbatim>\<open>start\<close> stays in \<^verbatim>\<open>wait\<close>.\<close>

lemma app_start_does_not_return:
  assumes "app_server_start pool s0 = Inr s1" "et_owner (as_thread s0) = OUser" "\<not> et_joined (as_thread s0)"
    and "\<not> et_quit (as_thread s0)" "UserFun True \<notin> set (et_funcs (as_thread s0))" "et_thread (as_thread s0) \<notin> {LNull, LDone}"
    and "app_server_stop closes close lastOwner s1 = Inr s2" "elt_run evs (as_thread s2) = Some e" "Quit \<notin> set evs" "Queue True \<notin> set evs"
  shows "et_owner e = OWait"
proof -
  have "as_thread s2 = as_thread s1" using assms(7) by (auto simp: app_server_stop_def app_stop_wheels_def bindR_eq_Inr Let_def)
  moreover have "et_owner (as_thread s1) = OWait" "\<not> et_quit (as_thread s1)" "UserFun True \<notin> set (et_funcs (as_thread s1))"
    "et_thread (as_thread s1) \<notin> {LNull, LDone}"
    using assms(1-6) by (auto simp: app_server_start_def bindR_eq_Inr queue_fun_def wait_call_def split: option.splits if_splits bind_splits)
  ultimately show ?thesis using wait_goes_on assms(8-10) by metis
qed

end
