(* ===== verification/Spec2Isabelle.thy ===== *)
theory Spec2Isabelle
  imports MsgBuffer Utilities LockFreeQueue TimerQueue TimingWheel Poller EventLoop HttpServer HttpWire ServerLife SendOrder TlsConnection TcpClient PingPong TcpServer ThreadPool EventLoopThread LoopThreadPool AsyncLogWriter Logger InetAddress WideStrings
    IdleTimeout LoopEnd Sockets OpenSSLUtil ConnInterface AppLife
begin

text \<open>
  A verification development of cooper, a C++ network library in the reactor style: event loops over
  \<^verbatim>\<open>epoll\<close>, TCP servers and clients with optional TLS, an HTTP server, and an application server with
  a ping-pong protocol. Everything below models the C++ files under \<^verbatim>\<open>src/cooper/\<close>.

  \<^bold>\<open>The parts and how they meet.\<close> An \<^verbatim>\<open>EventLoop\<close> belongs to one thread. It waits in its poller for the descriptors of
  its channels, calls their callbacks, and then runs the functions that this and other threads have queued in a lock-free
  queue; writing to a wakeup descriptor ends the wait. Timers are kept in a queue over one timer
  descriptor; a timing wheel over a timer drops idle entries. A \<^verbatim>\<open>TcpConnection\<close> owns a socket, reads into a \<^verbatim>\<open>MsgBuffer\<close>
  and writes from a list of buffers, files and streams; with TLS, a provider encrypts what it sends and
  decrypts what it reads. \<^verbatim>\<open>TcpServer\<close> accepts connections and spreads them over loops; \<^verbatim>\<open>TcpClient\<close>
  has a \<^verbatim>\<open>Connector\<close> that makes its connection. \<^verbatim>\<open>HttpServer\<close> and \<^verbatim>\<open>AppTcpServer\<close> are users of the server.

  \<^bold>\<open>How code becomes definitions.\<close> An object is a record whose fields carry a prefix and the name of
  the C++ member; a method is a definition with the name of the method that returns the object updated. What can go wrong (a failed
  assertion, an access outside memory, an exception, a call of an empty function object, a loop that does not end)
  is a value of \<^typ>\<open>cpp_error\<close>, and an operation that can fail returns a result: that a run gives \<^term>\<open>Inr\<close>
  says that none of this happens. Bytes are characters, integers are words or integers with the wrap-around written
  out. What the environment decides (the answers of system calls, the order of threads, what a callback of the
  application does, the answers of the TLS library) is an argument of the definitions or a label of a step relation, and the
  theorems hold for all of it unless they say otherwise.

  \<^bold>\<open>Theories.\<close>
  \<^item> \<^theory_text>\<open>Cooper_Prelude\<close>: words, \<^verbatim>\<open>size_t\<close> arithmetic, the result type with its bind, memory blocks, byte order.
  \<^item> \<^theory_text>\<open>MsgBuffer\<close> (\<^verbatim>\<open>util/MsgBuffer.*\<close>): the growable buffer. The indices stay in order and in memory under
    every sequence of operations, up to the first one that cannot allocate, fails its assertion or is an \<^verbatim>\<open>addInFront\<close> whose
    \<^verbatim>\<open>std::copy\<close> overlaps; each operation implements one on the byte sequence between head and tail (locale
    \<open>byte_fifo\<close>); integers come back from the wire; one \<^verbatim>\<open>readFd\<close> delivers exactly what the kernel gave.
  \<^item> \<^theory_text>\<open>Utilities\<close> (\<^verbatim>\<open>util/Utilities.*\<close>, \<^verbatim>\<open>util/Funcs.hpp\<close>): splitting against reference definitions, path
    validation (a valid path never climbs above its root), host names against certificate names, content types.
    \<^theory_text>\<open>WideStrings\<close>: the conversions of wide strings, which return what has an encoding of at most three bytes.
  \<^item> \<^theory_text>\<open>LockFreeQueue\<close> (\<^verbatim>\<open>util/LockFreeQueue.hpp\<close>): the queue as a step relation over a heap of nodes, with
    producers stopped between the exchange and the link: memory safety, FIFO order, no loss; for one
    thread it is a queue (locale \<open>task_queue\<close>).
  \<^item> \<^theory_text>\<open>TimerQueue\<close>, \<^theory_text>\<open>TimingWheel\<close> (\<^verbatim>\<open>net/Timer*\<close>, \<^verbatim>\<open>util/TimingWheel.*\<close>): expired timers run, in order, cancelled ones do not, the
    descriptor is armed for the next; an entry of the wheel is dropped at the tick it was inserted for (locale \<open>deadline_queue\<close>).
  \<^item> \<^theory_text>\<open>Poller\<close> (\<^verbatim>\<open>net/Channel.*\<close>, \<^verbatim>\<open>net/EpollPoller.*\<close>): the interest list of the kernel mirrors the channels.
  \<^item> \<^theory_text>\<open>EventLoop\<close> (\<^verbatim>\<open>net/EventLoop.*\<close>): one round, the queued functions, quitting; and a step relation of producers and
    the loop in which no wakeup is lost. \<^theory_text>\<open>LoopEnd\<close>: its destructor and that of its timer queue, in its own thread and in another one.
  \<^item> \<^theory_text>\<open>Http\<close>, \<^theory_text>\<open>HttpServer\<close> (\<^verbatim>\<open>net/Http.*\<close>, \<^verbatim>\<open>net/HttpServer.*\<close>): requests parse back from their print, the content of a multipart part is
    delivered exactly once its headers are read, only files of mounted directories are served, one answer per message, keep-alive limits.
    \<^theory_text>\<open>HttpWire\<close> runs the server on a connection of \<^theory_text>\<open>SendOrder\<close>: the wire carries one framed response per message.
    \<^theory_text>\<open>ServerLife\<close>: its construction, start and stop over the models of the TCP server and of the loop thread.
    \<^theory_text>\<open>Numbers\<close> has the conversions of numbers to text and back that they and the logging share.
  \<^item> \<^theory_text>\<open>TLS\<close> (\<^verbatim>\<open>net/TLSPolicy.hpp\<close>, \<^verbatim>\<open>net/OpenSSLProvider.cpp\<close>): contexts (which calls they are configured with, in which order, and whose
    answers are looked at), certificate validation, the session cache with its mutex, its timers and the functions they queue in the loops
    (locale \<open>keyed_cache\<close>), protocol negotiation. \<^theory_text>\<open>OpenSSLUtil\<close>: the fingerprint of a certificate, written without leaving its
    string and read back to the digest; random bytes.
  \<^item> \<^theory_text>\<open>TcpConnection\<close>, \<^theory_text>\<open>SendOrder\<close>, \<^theory_text>\<open>TlsConnection\<close> (\<^verbatim>\<open>net/TcpConnectionImpl.*\<close>, \<^verbatim>\<open>net/TLSProvider.hpp\<close>, \<^verbatim>\<open>net/OpenSSLProvider.cpp\<close>): the
    connection; that (without TLS, on a kernel that does not break the connection) the wire carries what was sent in the order of the calls; graceful shutdown; that no connection is announced
    before its peer was accepted; order of encrypted records. \<^theory_text>\<open>ConnInterface\<close>: its context, callbacks and accessors.
  \<^item> \<^theory_text>\<open>IdleTimeout\<close> (\<^verbatim>\<open>TcpServer::start\<close>, \<^verbatim>\<open>newConnection\<close>, \<^verbatim>\<open>extendLife\<close>, \<^verbatim>\<open>KickoffEntry\<close>): the connections of an I/O loop, TLS included, with its
    timing wheel and the time. Every operation of a connection extends its life once or leaves it alone; a tick closes only connections
    that were silent for at least \<open>n\<close> ticks, and a silent one is closed by tick \<open>n + 1\<close>. Time does not go back in this model, and ticks
    are at least a second apart, which is what the timer queue guarantees.
  \<^item> \<^theory_text>\<open>Connector\<close>, \<^theory_text>\<open>TcpClient\<close> (\<^verbatim>\<open>net/Connector.*\<close>, \<^verbatim>\<open>net/TcpClient.*\<close>): sockets are handed over or closed once, back-off bounds, and what
    the client does when its peer closes.
  \<^item> \<^theory_text>\<open>TcpServer\<close> (\<^verbatim>\<open>net/TcpServer.*\<close>, \<^verbatim>\<open>net/Acceptor.*\<close>, \<^verbatim>\<open>net/EventLoopThreadPool.*\<close>): each connection is registered once, removed
    once and then destroyed once; the server uses its connections only through the locale \<open>close_protocol\<close>, of which the connections
    of \<^theory_text>\<open>TcpConnection\<close> are an instance.
  \<^item> \<^theory_text>\<open>AppServer\<close>, \<^theory_text>\<open>PingPong\<close> (\<^verbatim>\<open>net/AppTcpServer.*\<close>): packets, and the timing of ping and kick-off, on one I/O loop and for a timeout below the
    interval below 500 (outside of these bounds the code behaves differently). \<^theory_text>\<open>AppLife\<close>: start
    and stop over the TCP server, the loop thread and the wheels of all loops.
  \<^item> \<^theory_text>\<open>ThreadPool\<close> (\<^verbatim>\<open>util/ThreadPool.*\<close>): workers, \<^verbatim>\<open>addTask\<close> and \<^verbatim>\<open>stop\<close> as interleaved steps with a condition variable: tasks are taken in the
    order they were added and started once each (outside the mutex, so that only one worker alone also starts them in order), a waiting task can
    always be started while the pool is not stopped, and a stopped pool comes to rest.
  \<^item> \<^theory_text>\<open>EventLoopThread\<close> (\<^verbatim>\<open>net/EventLoopThread.*\<close>): the start of a loop in its own thread, with promises and the once flag: nobody
    uses the loop before it exists; \<^verbatim>\<open>run\<close> returns and the destructor ends when nobody else calls \<^verbatim>\<open>quit\<close> before the loop has run its first
    functions; and the runs in which they do not.
    \<^theory_text>\<open>LoopThreadPool\<close> (\<^verbatim>\<open>net/EventLoopThreadPool.*\<close>): the pool starts, awaits and destroys all its threads, on top of their protocol.
  \<^item> \<^theory_text>\<open>AsyncLogWriter\<close> (\<^verbatim>\<open>util/AsyncLogWriter.*\<close>, \<^verbatim>\<open>util/Semaphore.hpp\<close>): writers, the flushing thread and the destructor over
    the queue of \<^theory_text>\<open>LockFreeQueue\<close>: every message with a terminating NUL is passed on once, in order, before the destructor ends.
  \<^item> \<^theory_text>\<open>LogStream\<close>, \<^theory_text>\<open>Date\<close>, \<^theory_text>\<open>Logger\<close> (\<^verbatim>\<open>util/LogStream.*\<close>, \<^verbatim>\<open>util/Date.*\<close>, \<^verbatim>\<open>util/Logger.*\<close>): the text of a stream is what was
    put into it, whatever the buffer spills; integers come back from their digits; dates come back from their database text; the shape of a
    log line.
  \<^item> \<^theory_text>\<open>InetAddress\<close> (\<^verbatim>\<open>net/InetAddress.*\<close>, \<^verbatim>\<open>net/Socket.*\<close>): the union of the two socket address structures as bytes; its classes of
    addresses are address blocks, and its text leads back to it. \<^theory_text>\<open>Sockets\<close>: the other methods of a socket as the system calls
    they make; a socket works on its own descriptor only and closes it once, at its end.

  \<^bold>\<open>Loops.\<close> Where a loop of the code may run for ever, or its end is a theorem, the model has fuel or is a step
  relation, and running out of fuel is the error \<^term>\<open>Diverges\<close>. The fuel is an upper bound read off the data (the length of the
  buffer, the number of queued functions), and the theorems state the result itself, so that enough fuel is part of them.

  \<^bold>\<open>Not modelled.\<close> Interfaces without code (the declarations of the header files), the conversion of
  addresses to text (an argument of \<^theory_text>\<open>InetAddress\<close>), the time zone functions of the C library (arguments of \<^theory_text>\<open>Date\<close>), floating-point output (its text is an argument), locks as such (an operation under
  a lock is one step), weak memory order (atomics are sequentially consistent here), the width of the tick counter of a timing wheel
  (\<^verbatim>\<open>size_t\<close>, a natural number here).
\<close>

end
